(* ===== verification/Prelude.thy ===== *)
theory Prelude
  imports Main "HOL-Library.Word"
begin

unbundle bit_operations_syntax

text \<open>
  The shared vocabulary of the development: names for the machine integers the sources use,
  the fact collections the component theories extend, and the generic lemmas on lists and words
  that more than one component needs.

  Unsigned C integers whose arithmetic may wrap are words of their width. Code points and the
  signed scratch integers of the scanners are \<open>int\<close>, with the C conversion to a narrower signed
  type written out by \<open>i8\<close> and \<open>i16\<close>.
\<close>

section \<open>Machine integers\<close>

type_synonym u8 = "8 word"
type_synonym u16 = "16 word"
type_synonym u32 = "32 word"

abbreviation UINT32_MAX :: u32 where
  "UINT32_MAX \<equiv> 4294967295"

text \<open>The conversions \<open>(int8_t) x\<close> and \<open>(int16_t) x\<close> of C on a two's complement machine.\<close>

definition i8 :: "int \<Rightarrow> int" where
  "i8 x = (x + 128) mod 256 - 128"

definition i16 :: "int \<Rightarrow> int" where
  "i16 x = (x + 32768) mod 65536 - 32768"

lemma i16_id: "- 32768 \<le> x \<Longrightarrow> x < 32768 \<Longrightarrow> i16 x = x"
  by (simp add: i16_def)

lemma i16_bounds: "- 32768 \<le> i16 x" "i16 x < 32768"
  by (simp_all add: i16_def)

lemma i16_i16 [simp]: "i16 (i16 x) = i16 x"
  by (rule i16_id) (rule i16_bounds)+

section \<open>Fact collections\<close>

named_theorems point_defs "definitions of the point and length operations"
named_theorems scan_mono "a scanner step only moves the lexer forward"

section \<open>Words\<close>

lemma unat_of_nat_small [simp]:
  "n < 2 ^ 32 \<Longrightarrow> unat (of_nat n :: u32) = n"
  by (simp add: unat_of_nat take_bit_nat_eq_self)

lemma of_nat_u32_eq_0: "n < 2 ^ 32 \<Longrightarrow> (of_nat n :: u32) = 0 \<longleftrightarrow> n = 0"
  by (simp flip: unat_eq_zero)

lemma of_nat_u32_le:
  "m < 2 ^ 32 \<Longrightarrow> n < 2 ^ 32 \<Longrightarrow> (of_nat m :: u32) \<le> of_nat n \<longleftrightarrow> m \<le> n"
  by (simp add: word_le_nat_alt)

lemma of_nat_u32_less:
  "m < 2 ^ 32 \<Longrightarrow> n < 2 ^ 32 \<Longrightarrow> (of_nat m :: u32) < of_nat n \<longleftrightarrow> m < n"
  by (simp add: word_less_nat_alt)

lemma unat_u32_bound: "unat (x::u32) < 2 ^ 32"
proof -
  have "unat x < 2 ^ LENGTH(32)" by (rule unsigned_less)
  then show ?thesis by simp
qed

lemma u32_le_max [simp]: "(x::u32) \<le> UINT32_MAX" "\<not> UINT32_MAX < (x::u32)"
  using unat_u32_bound [of x] by (simp_all add: word_le_nat_alt word_less_nat_alt)

lemma unat_add_u32:
  "unat (a + b :: u32) =
     (if unat a + unat b < 2 ^ 32 then unat a + unat b else unat a + unat b - 2 ^ 32)"
  using unat_u32_bound [of a] unat_u32_bound [of b]
  by (simp add: unat_word_ariths mod_if le_mod_geq)

lemma u32_add_wraps: "(a::u32) + x < a \<longleftrightarrow> 2 ^ 32 \<le> unat a + unat x"
  using unat_u32_bound [of a] unat_u32_bound [of x]
  by (auto simp: word_less_nat_alt unat_add_u32)

lemma of_nat_add_diff_left [simp]: "of_nat (a + b) - of_nat a = (of_nat b :: u32)"
  by simp

section \<open>Lists\<close>

lemma drop_eq_Cons_nth:
  "i < length xs \<Longrightarrow> drop i xs = xs ! i # drop (Suc i) xs"
  by (simp add: Cons_nth_drop_Suc)

lemma hd_drop_nth: "i < length xs \<Longrightarrow> hd (drop i xs) = xs ! i"
  by (rule hd_drop_conv_nth)

lemma butlast_snoc_last: "xs \<noteq> [] \<Longrightarrow> butlast xs @ [last xs] = xs"
  by simp

end
