(* ===== verification/Points.thy ===== *)
theory Points
  imports Prelude
begin

text \<open>
  Positions in a text: \<open>point.h\<close>, \<open>point.c\<close> and \<open>length.h\<close> of the Tree-sitter runtime, with the
  position structures of \<open>api.h\<close>.

  A point is a row and a byte column, a \<open>Length\<close> a byte offset with a point. The abstract
  specification is the function \<open>length_of\<close>, which measures a text: addition of lengths is
  concatenation of texts, and editing a position by \<open>ts_point_edit\<close> is replacing the middle
  of a text.
\<close>

section \<open>Data\<close>

datatype TSPoint = Point (row: u32) (column: u32)

record TSInputEdit =
  edit_start_byte :: u32
  old_end_byte :: u32
  new_end_byte :: u32
  edit_start_point :: TSPoint
  old_end_point :: TSPoint
  new_end_point :: TSPoint

record Length =
  bytes :: u32
  extent :: TSPoint

definition POINT_ZERO :: TSPoint where
  "POINT_ZERO = Point 0 0"

definition POINT_MAX :: TSPoint where
  "POINT_MAX = Point UINT32_MAX UINT32_MAX"

definition LENGTH_UNDEFINED :: Length where
  "LENGTH_UNDEFINED = \<lparr>bytes = 0, extent = Point 0 1\<rparr>"

definition LENGTH_MAX :: Length where
  "LENGTH_MAX = \<lparr>bytes = UINT32_MAX, extent = Point UINT32_MAX UINT32_MAX\<rparr>"

section \<open>Operations on points\<close>

definition point_add :: "TSPoint \<Rightarrow> TSPoint \<Rightarrow> TSPoint" where
  "point_add a b =
     (if row b > 0 then Point (row a + row b) (column b)
      else Point (row a) (column a + column b))"

definition point_sub :: "TSPoint \<Rightarrow> TSPoint \<Rightarrow> TSPoint" where
  "point_sub a b =
     (if row a > row b then Point (row a - row b) (column a)
      else Point 0 (if column a \<ge> column b then column a - column b else 0))"

definition point_lte :: "TSPoint \<Rightarrow> TSPoint \<Rightarrow> bool" where
  "point_lte a b \<longleftrightarrow> row a < row b \<or> (row a = row b \<and> column a \<le> column b)"

definition point_lt :: "TSPoint \<Rightarrow> TSPoint \<Rightarrow> bool" where
  "point_lt a b \<longleftrightarrow> row a < row b \<or> (row a = row b \<and> column a < column b)"

definition point_gt :: "TSPoint \<Rightarrow> TSPoint \<Rightarrow> bool" where
  "point_gt a b \<longleftrightarrow> row a > row b \<or> (row a = row b \<and> column a > column b)"

definition point_gte :: "TSPoint \<Rightarrow> TSPoint \<Rightarrow> bool" where
  "point_gte a b \<longleftrightarrow> row a > row b \<or> (row a = row b \<and> column a \<ge> column b)"

definition point_eq :: "TSPoint \<Rightarrow> TSPoint \<Rightarrow> bool" where
  "point_eq a b \<longleftrightarrow> row a = row b \<and> column a = column b"

text \<open>\<open>ts_point_edit\<close> updates a point and its byte offset in place; the model returns both.\<close>

definition ts_point_edit :: "TSPoint \<Rightarrow> u32 \<Rightarrow> TSInputEdit \<Rightarrow> TSPoint \<times> u32" where
  "ts_point_edit point byte edit =
     (if byte \<ge> old_end_byte edit then
        (point_add (new_end_point edit) (point_sub point (old_end_point edit)),
         new_end_byte edit + (byte - old_end_byte edit))
      else if byte > edit_start_byte edit then
        (new_end_point edit, new_end_byte edit)
      else (point, byte))"

section \<open>Operations on lengths\<close>

definition length_is_undefined :: "Length \<Rightarrow> bool" where
  "length_is_undefined len \<longleftrightarrow> bytes len = 0 \<and> column (extent len) \<noteq> 0"

definition length_min :: "Length \<Rightarrow> Length \<Rightarrow> Length" where
  "length_min len1 len2 = (if bytes len1 < bytes len2 then len1 else len2)"

definition length_add :: "Length \<Rightarrow> Length \<Rightarrow> Length" where
  "length_add len1 len2 =
     \<lparr>bytes = bytes len1 + bytes len2, extent = point_add (extent len1) (extent len2)\<rparr>"

definition length_sub :: "Length \<Rightarrow> Length \<Rightarrow> Length" where
  "length_sub len1 len2 =
     \<lparr>bytes = (if bytes len1 \<ge> bytes len2 then bytes len1 - bytes len2 else 0),
      extent = point_sub (extent len1) (extent len2)\<rparr>"

definition length_zero :: Length where
  "length_zero = \<lparr>bytes = 0, extent = Point 0 0\<rparr>"

definition length_saturating_sub :: "Length \<Rightarrow> Length \<Rightarrow> Length" where
  "length_saturating_sub len1 len2 =
     (if bytes len1 > bytes len2 then length_sub len1 len2 else length_zero)"

lemmas [point_defs] =
  POINT_ZERO_def POINT_MAX_def LENGTH_UNDEFINED_def LENGTH_MAX_def point_add_def point_sub_def
  point_lte_def point_lt_def point_gt_def point_gte_def point_eq_def length_is_undefined_def
  length_min_def length_add_def length_sub_def length_zero_def length_saturating_sub_def

section \<open>Points are linearly ordered\<close>

instantiation TSPoint :: linorder
begin

definition less_eq_TSPoint :: "TSPoint \<Rightarrow> TSPoint \<Rightarrow> bool" where
  "less_eq_TSPoint a b = point_lte a b"

definition less_TSPoint :: "TSPoint \<Rightarrow> TSPoint \<Rightarrow> bool" where
  "less_TSPoint a b = point_lt a b"

instance
  by standard
    (auto simp: less_eq_TSPoint_def less_TSPoint_def point_lte_def point_lt_def TSPoint.expand)

end

lemma point_comparisons:
  "point_lte a b \<longleftrightarrow> a \<le> b" "point_lt a b \<longleftrightarrow> a < b"
  "point_gte a b \<longleftrightarrow> b \<le> a" "point_gt a b \<longleftrightarrow> b < a" "point_eq a b \<longleftrightarrow> a = b"
  by (auto simp: less_eq_TSPoint_def less_TSPoint_def point_defs TSPoint.expand)

lemma point_add_sub: "b \<le> a \<Longrightarrow> point_add b (point_sub a b) = a"
  by (cases a; cases b)
    (auto simp: less_eq_TSPoint_def point_defs word_gt_0 not_less)

lemma point_add_zero [simp]:
  "point_add a (Point 0 0) = a" "point_add (Point 0 0) a = a"
  by (cases a; simp add: point_defs word_gt_0)+

lemma length_add_zero [simp]:
  "length_add a length_zero = a" "length_add length_zero a = a"
  by (simp_all add: length_add_def length_zero_def)

lemma point_add_assoc:
  assumes "unat (row b) + unat (row c) < 2 ^ 32"
  shows "point_add (point_add a b) c = point_add a (point_add b c)"
proof -
  have "row b + row c > 0" if "row b > 0 \<or> row c > 0"
    using assms that by (auto simp: word_less_nat_alt unat_word_ariths)
  then show ?thesis
    by (auto simp: point_add_def word_gt_0 add.assoc)
qed

section \<open>The specification: measuring a text\<close>

text \<open>
  The length of a byte text as the runtime counts it: the number of bytes, of newlines, and of
  bytes after the last newline.
\<close>

fun newlines :: "u8 list \<Rightarrow> nat" where
  "newlines [] = 0"
| "newlines (c # cs) = (if c = 10 then Suc (newlines cs) else newlines cs)"

fun tail_column :: "u8 list \<Rightarrow> nat" where
  "tail_column [] = 0"
| "tail_column (c # cs) =
     (if newlines (c # cs) = 0 then Suc (length cs) else tail_column cs)"

definition length_of :: "u8 list \<Rightarrow> Length" where
  "length_of t =
     \<lparr>bytes = of_nat (length t), extent = Point (of_nat (newlines t)) (of_nat (tail_column t))\<rparr>"

lemma newlines_append [simp]: "newlines (s @ t) = newlines s + newlines t"
  by (induction s) auto

lemma newlines_le_length: "newlines t \<le> length t"
  by (induction t) auto

lemma tail_column_no_newline: "newlines t = 0 \<Longrightarrow> tail_column t = length t"
  by (cases t) auto

lemma tail_column_append:
  "tail_column (s @ t) = (if newlines t = 0 then tail_column s + length t else tail_column t)"
  by (induction s) (auto simp: tail_column_no_newline)

lemma tail_column_le_length: "tail_column t \<le> length t"
  by (induction t) auto

lemma bytes_length_of [simp]: "bytes (length_of t) = of_nat (length t)"
  by (simp add: length_of_def)

lemma length_of_Nil [simp]: "length_of [] = length_zero"
  by (simp add: length_of_def length_zero_def)

lemma length_of_append:
  assumes "length t < 2 ^ 32"
  shows "length_of (s @ t) = length_add (length_of s) (length_of t)"
proof -
  have n: "newlines t < 2 ^ 32" "tail_column t < 2 ^ 32"
    using assms newlines_le_length [of t] tail_column_le_length [of t] by simp_all
  show ?thesis
    using n assms
    by (auto simp: length_of_def length_add_def point_add_def tail_column_append word_gt_0
        of_nat_u32_eq_0 tail_column_no_newline)
qed

lemma extent_length_of_mono:
  assumes "length (s @ t) < 2 ^ 32"
  shows "extent (length_of s) \<le> extent (length_of (s @ t))"
proof -
  have "newlines s + newlines t < 2 ^ 32" "tail_column s + length t < 2 ^ 32"
    using assms newlines_le_length [of "s @ t"] tail_column_le_length [of s] by simp_all
  then show ?thesis
    by (cases "newlines t = 0")
      (auto simp: length_of_def less_eq_TSPoint_def point_lte_def tail_column_append
        of_nat_u32_le of_nat_u32_less simp flip: of_nat_add)
qed

lemma length_sub_length_of:
  assumes "length (s @ t) < 2 ^ 32"
  shows "length_sub (length_of (s @ t)) (length_of s) = length_of t"
proof -
  have "newlines s + newlines t < 2 ^ 32" "tail_column s + length t < 2 ^ 32"
    "length s + length t < 2 ^ 32"
    using assms newlines_le_length [of "s @ t"] tail_column_le_length [of s] by simp_all
  then show ?thesis
    by (cases "newlines t = 0")
      (simp_all add: length_of_def length_sub_def point_sub_def tail_column_append
        tail_column_no_newline of_nat_u32_le of_nat_u32_less del: of_nat_add)
qed

section \<open>Properties\<close>

text \<open>The edit that replaces the middle part of a text.\<close>

definition edit_of :: "u8 list \<Rightarrow> u8 list \<Rightarrow> u8 list \<Rightarrow> TSInputEdit" where
  "edit_of pre old new =
     \<lparr>edit_start_byte = bytes (length_of pre),
      old_end_byte = bytes (length_of (pre @ old)),
      new_end_byte = bytes (length_of (pre @ new)),
      edit_start_point = extent (length_of pre),
      old_end_point = extent (length_of (pre @ old)),
      new_end_point = extent (length_of (pre @ new))\<rparr>"

text \<open>
  Addition of lengths is exactly concatenation of texts: measuring \<open>s @ t\<close> gives the sum of
  the two measures, and \<open>length_sub\<close> takes a prefix away again, so \<open>Length\<close> values computed
  piecewise along a tree agree with positions in the text.
\<close>

theorem length_add_sub_correct:
  assumes "length (s @ t) < 2 ^ 32"
  shows "length_add (length_of s) (length_of t) = length_of (s @ t) \<and>
    length_sub (length_of (s @ t)) (length_of s) = length_of t"
  using assms length_of_append [of t s] length_sub_length_of [of s t] by simp

theorem length_add_sub_correct_witness:
  "length_add (length_of [97, 10]) (length_of [98, 99]) = length_of [97, 10, 98, 99] \<and>
   length_sub (length_of [97, 10, 98, 99]) (length_of [97, 10]) = length_of [98, 99]"
  using length_add_sub_correct [of "[97, 10]" "[98, 99]"] by simp

text \<open>
  C18. \<open>ts_point_edit\<close> follows the text: when \<open>pre @ old @ post\<close> becomes \<open>pre @ new @ post\<close>, a
  position in the unchanged prefix stays, and a position after the replaced part is moved to
  where the same piece of the suffix now ends, as byte offset and as row and column.
\<close>

theorem ts_point_edit_correct:
  assumes "length (pre @ old @ post) < 2 ^ 32" and "length (pre @ new @ post) < 2 ^ 32"
  shows "ts_point_edit (extent (length_of (pre @ old @ post))) (bytes (length_of (pre @ old @ post)))
           (edit_of pre old new) =
         (extent (length_of (pre @ new @ post)), bytes (length_of (pre @ new @ post))) \<and>
         (old \<noteq> [] \<longrightarrow>
           ts_point_edit (extent (length_of pre)) (bytes (length_of pre)) (edit_of pre old new) =
           (extent (length_of pre), bytes (length_of pre)))"
proof -
  have sub: "length_sub (length_of (pre @ old @ post)) (length_of (pre @ old)) = length_of post"
    using length_sub_length_of [of "pre @ old" post] assms by simp
  then have ext: "point_sub (extent (length_of (pre @ old @ post))) (extent (length_of (pre @ old)))
      = extent (length_of post)"
    by (metis (no_types) Length.select_convs(2) length_sub_def)
  have new: "length_of (pre @ new @ post) = length_add (length_of (pre @ new)) (length_of post)"
    using length_of_append [of post "pre @ new"] assms by simp
  have ge: "bytes (length_of (pre @ old @ post)) \<ge> bytes (length_of (pre @ old))"
    using assms by (simp only: bytes_length_of of_nat_u32_le length_append)
  have lt: "bytes (length_of pre) < bytes (length_of (pre @ old))" if "old \<noteq> []"
    using assms that by (simp only: bytes_length_of of_nat_u32_less length_append) simp
  show ?thesis
    using ext new ge lt
    by (auto simp: ts_point_edit_def edit_of_def length_add_def simp del: bytes_length_of)
      (simp_all add: algebra_simps)
qed

theorem ts_point_edit_correct_witness:
  "ts_point_edit (extent (length_of [97, 98, 10, 99])) (bytes (length_of [97, 98, 10, 99]))
     (edit_of [97] [98] [10, 10]) =
   (extent (length_of [97, 10, 10, 10, 99]), bytes (length_of [97, 10, 10, 10, 99]))"
  using ts_point_edit_correct [of "[97]" "[98]" "[10, 99]" "[10, 10]"] by simp

end
