(* ===== verification/Ranges.thy ===== *)
theory Ranges
  imports Points
begin

text \<open>
  Byte ranges of a text: the range arrays of \<open>get_changed_ranges.c\<close> and the effect of an edit on a
  range. A range array is a list of \<open>TSRange\<close>; the abstract value of a range array is the set of
  byte offsets it covers, and \<open>ts_range_array_get_changed_ranges\<close> is shown to compute the symmetric
  difference of two such sets.
\<close>

section \<open>Data and operations\<close>

record TSRange =
  start_point :: TSPoint
  end_point :: TSPoint
  start_byte :: u32
  end_byte :: u32

type_synonym TSRangeArray = "TSRange list"

definition ts_range_array_add :: "TSRangeArray \<Rightarrow> Length \<Rightarrow> Length \<Rightarrow> TSRangeArray" where
  "ts_range_array_add self start stop =
     (if self \<noteq> [] \<and> bytes start \<le> end_byte (last self) then
        butlast self @ [(last self)\<lparr>end_byte := bytes stop, end_point := extent stop\<rparr>]
      else if bytes start < bytes stop then
        self @ [\<lparr>start_point = extent start, end_point = extent stop,
                 start_byte = bytes start, end_byte = bytes stop\<rparr>]
      else self)"

fun intersects_loop :: "TSRangeArray \<Rightarrow> u32 \<Rightarrow> u32 \<Rightarrow> bool" where
  "intersects_loop [] sb eb = False"
| "intersects_loop (rng # rest) sb eb =
     (if end_byte rng > sb then
        (if start_byte rng \<ge> eb then False else True)
      else intersects_loop rest sb eb)"

definition ts_range_array_intersects :: "TSRangeArray \<Rightarrow> nat \<Rightarrow> u32 \<Rightarrow> u32 \<Rightarrow> bool" where
  "ts_range_array_intersects self start_index sb eb = intersects_loop (drop start_index self) sb eb"

text \<open>
  The position at which a walk over one of the two arrays next changes between inside and outside
  of a range. The remaining array (\<open>&old_ranges[old_index]\<close> in the source) is a list; reading the
  end of a range beyond the array is \<open>None\<close>.
\<close>

definition next_position :: "TSRangeArray \<Rightarrow> bool \<Rightarrow> Length option" where
  "next_position ranges in_range =
     (if in_range then
        (case ranges of [] \<Rightarrow> None
         | rng # _ \<Rightarrow> Some \<lparr>bytes = end_byte rng, extent = end_point rng\<rparr>)
      else
        (case ranges of [] \<Rightarrow> Some LENGTH_MAX
         | rng # _ \<Rightarrow> Some \<lparr>bytes = start_byte rng, extent = start_point rng\<rparr>))"

definition step_ranges :: "TSRangeArray \<Rightarrow> bool \<Rightarrow> TSRangeArray" where
  "step_ranges ranges in_range = (if in_range then tl ranges else ranges)"

function changed_ranges_loop ::
  "TSRangeArray \<Rightarrow> TSRangeArray \<Rightarrow> Length \<Rightarrow> bool \<Rightarrow> bool \<Rightarrow> TSRangeArray \<Rightarrow> TSRangeArray option"
where
  "changed_ranges_loop old new current in_old in_new differences =
     (if old = [] \<and> new = [] then Some differences
      else case (next_position old in_old, next_position new in_new) of
        (Some next_old, Some next_new) \<Rightarrow>
          (if bytes next_old < bytes next_new then
             changed_ranges_loop (step_ranges old in_old) new next_old (\<not> in_old) in_new
               (if in_old \<noteq> in_new then ts_range_array_add differences current next_old
                else differences)
           else if bytes next_new < bytes next_old then
             changed_ranges_loop old (step_ranges new in_new) next_new in_old (\<not> in_new)
               (if in_old \<noteq> in_new then ts_range_array_add differences current next_new
                else differences)
           else
             changed_ranges_loop (step_ranges old in_old) (step_ranges new in_new) next_new
               (\<not> in_old) (\<not> in_new)
               (if in_old \<noteq> in_new then ts_range_array_add differences current next_new
                else differences))
      | _ \<Rightarrow> None)"
  by pat_completeness auto
termination
  by (relation "measure (\<lambda>(old, new, _, in_old, in_new, _).
        2 * length old + (if in_old then 0 else 1) + 2 * length new + (if in_new then 0 else 1))")
    (auto simp: next_position_def step_ranges_def split: list.splits if_splits)

declare changed_ranges_loop.simps [simp del]

definition ts_range_array_get_changed_ranges ::
  "TSRangeArray \<Rightarrow> TSRangeArray \<Rightarrow> TSRangeArray \<Rightarrow> TSRangeArray option"
where
  "ts_range_array_get_changed_ranges old_ranges new_ranges differences =
     changed_ranges_loop old_ranges new_ranges length_zero False False differences"

definition range_edit_end :: "TSRange \<Rightarrow> TSInputEdit \<Rightarrow> TSRange" where
  "range_edit_end rng edit =
     (if end_byte rng \<ge> old_end_byte edit then
        (if end_byte rng \<noteq> UINT32_MAX then
           (let end_byte' = new_end_byte edit + (end_byte rng - old_end_byte edit);
                end_point' = point_add (new_end_point edit)
                               (point_sub (end_point rng) (old_end_point edit))
            in if end_byte' < new_end_byte edit
               then rng\<lparr>end_byte := UINT32_MAX, end_point := POINT_MAX\<rparr>
               else rng\<lparr>end_byte := end_byte', end_point := end_point'\<rparr>)
         else rng)
      else if end_byte rng > edit_start_byte edit then
        rng\<lparr>end_byte := edit_start_byte edit, end_point := edit_start_point edit\<rparr>
      else rng)"

definition range_edit_start :: "TSRange \<Rightarrow> TSInputEdit \<Rightarrow> TSRange" where
  "range_edit_start rng edit =
     (if start_byte rng \<ge> old_end_byte edit then
        (let start_byte' = new_end_byte edit + (start_byte rng - old_end_byte edit);
             start_point' = point_add (new_end_point edit)
                              (point_sub (start_point rng) (old_end_point edit))
         in if start_byte' < new_end_byte edit
            then rng\<lparr>start_byte := UINT32_MAX, start_point := POINT_MAX\<rparr>
            else rng\<lparr>start_byte := start_byte', start_point := start_point'\<rparr>)
      else if start_byte rng > edit_start_byte edit then
        rng\<lparr>start_byte := edit_start_byte edit, start_point := edit_start_point edit\<rparr>
      else rng)"

definition ts_range_edit :: "TSRange \<Rightarrow> TSInputEdit \<Rightarrow> TSRange" where
  "ts_range_edit rng edit = range_edit_start (range_edit_end rng edit) edit"

section \<open>Well-formed range arrays and the bytes they cover\<close>

text \<open>The order check of \<open>ts_lexer_set_included_ranges\<close>: ascending, not overlapping.\<close>

fun ranges_ordered :: "u32 \<Rightarrow> TSRangeArray \<Rightarrow> bool" where
  "ranges_ordered previous_byte [] = True"
| "ranges_ordered previous_byte (rng # rest) =
     (if start_byte rng < previous_byte \<or> end_byte rng < start_byte rng then False
      else ranges_ordered (end_byte rng) rest)"

definition covered :: "TSRangeArray \<Rightarrow> u32 set" where
  "covered ranges = (\<Union>r\<in>set ranges. {start_byte r..<end_byte r})"

text \<open>Result arrays are ascending with gaps: neighbours are not adjacent and none is empty.\<close>

fun separated :: "TSRangeArray \<Rightarrow> bool" where
  "separated [] = True"
| "separated [r] = (start_byte r < end_byte r)"
| "separated (r # s # rest) =
     (start_byte r < end_byte r \<and> end_byte r < start_byte s \<and> separated (s # rest))"

lemma covered_simps [simp]:
  "covered [] = {}" "covered (r # rs) = {start_byte r..<end_byte r} \<union> covered rs"
  "covered (rs @ ss) = covered rs \<union> covered ss"
  by (auto simp: covered_def)

lemma ranges_ordered_mono: "ranges_ordered p rs \<Longrightarrow> q \<le> p \<Longrightarrow> ranges_ordered q rs"
  by (cases rs) (auto simp: not_less split: if_splits)

lemma ranges_ordered_covered: "ranges_ordered p rs \<Longrightarrow> covered rs \<subseteq> {p..}"
proof (induction p rs rule: ranges_ordered.induct)
  case (2 p r rs)
  then have "p \<le> start_byte r" "start_byte r \<le> end_byte r" "covered rs \<subseteq> {end_byte r..}"
    by (auto simp: not_less split: if_splits)
  then show ?case by fastforce
qed simp

lemma separated_snoc:
  "separated (rs @ [r]) \<longleftrightarrow>
     separated rs \<and> start_byte r < end_byte r \<and> (rs \<noteq> [] \<longrightarrow> end_byte (last rs) < start_byte r)"
  by (induction rs rule: separated.induct) auto

lemma separated_snoc2:
  "separated (rs @ [r, s]) \<longleftrightarrow>
     separated (rs @ [r]) \<and> start_byte s < end_byte s \<and> end_byte r < start_byte s"
  using separated_snoc [of "rs @ [r]" s] by simp

lemma ranges_ordered_intersects:
  "ranges_ordered p rs \<Longrightarrow> sb < eb \<Longrightarrow>
   list_all (\<lambda>r. start_byte r < end_byte r) rs \<Longrightarrow>
   intersects_loop rs sb eb \<longleftrightarrow> covered rs \<inter> {sb..<eb} \<noteq> {}"
proof (induction rs arbitrary: p)
  case (Cons r rs)
  from Cons.prems have ok: "start_byte r < end_byte r" "ranges_ordered (end_byte r) rs"
    by (auto split: if_splits)
  then have rest: "covered rs \<subseteq> {end_byte r..}"
    by (blast dest: ranges_ordered_covered)
  show ?case
  proof (cases "end_byte r > sb")
    case hit: True
    show ?thesis
    proof (cases "start_byte r \<ge> eb")
      case True
      then have "covered (r # rs) \<inter> {sb..<eb} = {}"
        using rest ok by fastforce
      with True hit show ?thesis by simp
    next
      case False
      then have "max sb (start_byte r) \<in> covered (r # rs) \<inter> {sb..<eb}"
        using hit ok Cons.prems by (auto simp: max_def)
      then have "covered (r # rs) \<inter> {sb..<eb} \<noteq> {}" by blast
      with False hit show ?thesis by simp
    qed
  next
    case False
    then have "{start_byte r..<end_byte r} \<inter> {sb..<eb} = {}" by auto
    with False Cons.IH [OF ok(2)] Cons.prems show ?thesis by (auto simp: Int_Un_distrib2)
  qed
qed simp

section \<open>The walk over two arrays\<close>

text \<open>
  What one array still covers from position \<open>p\<close> on, and the invariant of the walk on it: outside
  of a range the rest of the array lies at or after \<open>p\<close>; inside, \<open>p\<close> is in the first range.
\<close>

definition remaining :: "u32 \<Rightarrow> TSRangeArray \<Rightarrow> bool \<Rightarrow> u32 set" where
  "remaining p rs in_range =
     (if in_range then {p..<end_byte (hd rs)} \<union> covered (tl rs) else covered rs)"

definition walk_inv :: "u32 \<Rightarrow> TSRangeArray \<Rightarrow> bool \<Rightarrow> bool" where
  "walk_inv p rs in_range \<longleftrightarrow>
     list_all (\<lambda>r. start_byte r < UINT32_MAX) rs \<and>
     (if in_range then rs \<noteq> [] \<and> p \<le> end_byte (hd rs) \<and> ranges_ordered (end_byte (hd rs)) (tl rs)
      else ranges_ordered p rs)"

definition result_inv :: "u32 \<Rightarrow> TSRangeArray \<Rightarrow> bool" where
  "result_inv p d \<longleftrightarrow> separated d \<and> (d \<noteq> [] \<longrightarrow> end_byte (last d) \<le> p)"

lemma ts_range_array_add_step:
  assumes d: "result_inv (bytes p) d" and "bytes p \<le> bytes q"
  shows "result_inv (bytes q) (ts_range_array_add d p q)"
    and "covered (ts_range_array_add d p q) = covered d \<union> {bytes p..<bytes q}"
proof -
  have *: "result_inv (bytes q) (ts_range_array_add d p q) \<and>
    covered (ts_range_array_add d p q) = covered d \<union> {bytes p..<bytes q}"
  proof (cases d rule: rev_cases)
    case Nil
    then show ?thesis using assms
      by (auto simp: ts_range_array_add_def result_inv_def)
  next
    case (snoc d' r)
    with d have r: "separated d'" "start_byte r < end_byte r" "end_byte r \<le> bytes p"
      "d' \<noteq> [] \<longrightarrow> end_byte (last d') < start_byte r"
      by (auto simp: result_inv_def separated_snoc)
    show ?thesis
    proof (cases "bytes p \<le> end_byte r")
      case True
      with r have "end_byte r = bytes p" by simp
      with snoc r assms(2) show ?thesis
        by (auto simp: ts_range_array_add_def result_inv_def separated_snoc)
    next
      case False
      with snoc r assms(2) show ?thesis
        by (auto simp: ts_range_array_add_def result_inv_def separated_snoc separated_snoc2)
    qed
  qed
  then show "result_inv (bytes q) (ts_range_array_add d p q)"
    and "covered (ts_range_array_add d p q) = covered d \<union> {bytes p..<bytes q}" by blast+
qed


lemma next_position_ge:
  assumes "walk_inv p rs in_range"
  obtains q where "next_position rs in_range = Some q" "p \<le> bytes q"
proof (cases rs)
  case Nil
  with assms that [of LENGTH_MAX] show thesis
    by (auto simp: walk_inv_def next_position_def LENGTH_MAX_def split: if_splits)
next
  case (Cons r rs')
  with assms that show thesis
    by (auto simp: walk_inv_def next_position_def not_less split: if_splits)
qed

lemma remaining_ge: "walk_inv p rs in_range \<Longrightarrow> remaining p rs in_range \<subseteq> {p..}"
  by (auto simp: walk_inv_def remaining_def split: if_splits dest!: ranges_ordered_covered)

lemma walk_keep:
  assumes "walk_inv p rs in_range" "next_position rs in_range = Some q" "p \<le> r" "r \<le> bytes q"
  shows "walk_inv r rs in_range"
    and "remaining p rs in_range = (if in_range then {p..<r} else {}) \<union> remaining r rs in_range"
  using assms
  by (cases rs; force simp: walk_inv_def remaining_def next_position_def split: if_splits)+

lemma walk_step:
  assumes "walk_inv p rs in_range" "next_position rs in_range = Some q" "rs \<noteq> []"
  shows "walk_inv (bytes q) (step_ranges rs in_range) (\<not> in_range)"
    and "remaining p rs in_range =
      (if in_range then {p..<bytes q} else {}) \<union>
      remaining (bytes q) (step_ranges rs in_range) (\<not> in_range)"
  using assms
  by (cases rs; force simp: walk_inv_def remaining_def next_position_def step_ranges_def not_less
      split: if_splits)+

lemma walk_at_max:
  assumes "walk_inv p rs in_range" "next_position rs in_range = Some q" "bytes q = UINT32_MAX"
  shows "step_ranges rs in_range = []" and "rs \<noteq> [] \<Longrightarrow> in_range"
proof -
  have "ts = []" if "ranges_ordered UINT32_MAX ts" "list_all (\<lambda>r. start_byte r < UINT32_MAX) ts" for ts
    using that by (cases ts) auto
  then show "step_ranges rs in_range = []" and "rs \<noteq> [] \<Longrightarrow> in_range"
    using assms
    by (cases rs; auto simp: walk_inv_def next_position_def step_ranges_def split: if_splits)+
qed

definition byte_diff :: "u32 set \<Rightarrow> u32 set \<Rightarrow> u32 set" where
  "byte_diff A B = (A - B) \<union> (B - A)"

text \<open>Between \<open>p\<close> and \<open>q\<close> the two sets are constant, so their difference there is all or nothing.\<close>

lemma byte_diff_step:
  assumes "A = (if a then {p..<q} else {}) \<union> A'" "B = (if b then {p..<q} else {}) \<union> B'"
    and "A' \<subseteq> {q..}" "B' \<subseteq> {q..}"
  shows "byte_diff A B = (if a \<noteq> b then {p..<q} else {}) \<union> byte_diff A' B'"
proof -
  have "x \<in> A' \<Longrightarrow> \<not> x < q" "x \<in> B' \<Longrightarrow> \<not> x < q" for x
    using assms(3,4) by (auto simp: not_less)
  then show ?thesis
    using assms(1,2) by (auto simp: byte_diff_def)
qed

lemma result_step:
  assumes "result_inv (bytes p) d" "bytes p \<le> bytes q"
  shows "result_inv (bytes q) (if c then ts_range_array_add d p q else d)"
    and "covered (if c then ts_range_array_add d p q else d) =
         covered d \<union> (if c then {bytes p..<bytes q} else {})"
  using assms ts_range_array_add_step by (auto simp: result_inv_def)

lemma changed_ranges_loop_done: "changed_ranges_loop [] [] c a b d = Some d"
  by (simp add: changed_ranges_loop.simps)

text \<open>One iteration, by which of the two next positions comes first.\<close>

lemma changed_ranges_loop_step:
  assumes "\<not> (old = [] \<and> new = [])"
    and "next_position old in_old = Some qo" "next_position new in_new = Some qn"
  shows "bytes qo < bytes qn \<Longrightarrow> changed_ranges_loop old new p in_old in_new d =
      changed_ranges_loop (step_ranges old in_old) new qo (\<not> in_old) in_new
        (if in_old \<noteq> in_new then ts_range_array_add d p qo else d)"
    and "bytes qn < bytes qo \<Longrightarrow> changed_ranges_loop old new p in_old in_new d =
      changed_ranges_loop old (step_ranges new in_new) qn in_old (\<not> in_new)
        (if in_old \<noteq> in_new then ts_range_array_add d p qn else d)"
    and "bytes qn = bytes qo \<Longrightarrow> changed_ranges_loop old new p in_old in_new d =
      changed_ranges_loop (step_ranges old in_old) (step_ranges new in_new) qn (\<not> in_old) (\<not> in_new)
        (if in_old \<noteq> in_new then ts_range_array_add d p qn else d)"
  using assms
  by (simp_all only: changed_ranges_loop.simps [of old new p in_old in_new d] if_False if_True
      prod.case option.case less_irrefl order_less_not_sym [THEN eq_False [THEN iffD2]])

definition loop_post ::
  "TSRangeArray \<Rightarrow> u32 set \<Rightarrow> u32 set \<Rightarrow> TSRangeArray option \<Rightarrow> bool" where
  "loop_post d A B res \<longleftrightarrow>
     (\<exists>d'. res = Some d' \<and> separated d' \<and> covered d' = covered d \<union> byte_diff A B)"

lemma loop_post_step:
  assumes "loop_post (if c then ts_range_array_add d p q else d) A' B' res"
    and "result_inv (bytes p) d" "bytes p \<le> bytes q"
    and "byte_diff A B = (if c then {bytes p..<bytes q} else {}) \<union> byte_diff A' B'"
  shows "loop_post d A B res"
  using assms result_step(2) [OF assms(2,3), of c] by (auto simp: loop_post_def)

lemma changed_ranges_loop_at_max:
  assumes o: "walk_inv (bytes p) old in_old" "next_position old in_old = Some qo"
    and n: "walk_inv (bytes p) new in_new" "next_position new in_new = Some qn"
    and d: "result_inv (bytes p) d" "bytes p \<le> bytes qn"
    and more: "\<not> (old = [] \<and> new = [])"
    and max: "bytes qn = UINT32_MAX" "bytes qo = UINT32_MAX"
  shows "loop_post d (remaining (bytes p) old in_old) (remaining (bytes p) new in_new)
    (changed_ranges_loop old new p in_old in_new d)"
proof -
  let ?d = "if in_old \<noteq> in_new then ts_range_array_add d p qn else d"
  have stop: "step_ranges old in_old = []" "step_ranges new in_new = []"
    using walk_at_max(1) o n max by blast+
  have "remaining (bytes p) old in_old = (if in_old then {bytes p..<bytes qn} else {}) \<union> {}"
    "remaining (bytes p) new in_new = (if in_new then {bytes p..<bytes qn} else {}) \<union> {}"
    using stop walk_at_max(2) [OF o max(2)] walk_at_max(2) [OF n max(1)] o n max
    by (auto simp: remaining_def step_ranges_def next_position_def split: list.splits if_splits)
  note diff = byte_diff_step [OF this]
  have "loop_post ?d {} {} (Some ?d)"
    using result_step(1) [OF d, of "in_old \<noteq> in_new"]
    by (simp add: loop_post_def byte_diff_def result_inv_def)
  then have "loop_post d (remaining (bytes p) old in_old) (remaining (bytes p) new in_new) (Some ?d)"
    by (rule loop_post_step [OF _ d]) (rule diff, simp_all)
  then show ?thesis
    using changed_ranges_loop_step(3) [OF more o(2) n(2)] stop max
    by (simp add: changed_ranges_loop_done)
qed

lemma changed_ranges_loop_correct:
  assumes "walk_inv (bytes current) old in_old" "walk_inv (bytes current) new in_new"
    "result_inv (bytes current) differences"
  shows "loop_post differences (remaining (bytes current) old in_old)
    (remaining (bytes current) new in_new)
    (changed_ranges_loop old new current in_old in_new differences)"
  using assms
proof (induction old new current in_old in_new differences rule: changed_ranges_loop.induct)
  case (1 old new current in_old in_new d)
  let ?p = "bytes current"
  show ?case
  proof (cases "old = [] \<and> new = []")
    case True
    with 1 show ?thesis
      by (auto simp: changed_ranges_loop_done loop_post_def remaining_def walk_inv_def byte_diff_def
          result_inv_def)
  next
    case more: False
    obtain qo where qo: "next_position old in_old = Some qo" "?p \<le> bytes qo"
      using next_position_ge 1(4) by blast
    obtain qn where qn: "next_position new in_new = Some qn" "?p \<le> bytes qn"
      using next_position_ge 1(5) by blast
    note step = changed_ranges_loop_step [OF more qo(1) qn(1)]
    consider "bytes qo < bytes qn" | "bytes qn < bytes qo"
      | "bytes qn = bytes qo" "old \<noteq> []" "new \<noteq> []"
      | "bytes qn = bytes qo" "old = [] \<or> new = []" by fastforce
    then show ?thesis
    proof cases
      case lt: 1
      then have "old \<noteq> []"
        using qo by (auto simp: next_position_def LENGTH_MAX_def split: if_splits)
      note o = walk_step [OF 1(4) qo(1) this]
      note n = walk_keep [OF 1(5) qn(1) qo(2) less_imp_le [OF lt]]
      show ?thesis
        unfolding step(1) [OF lt]
        by (rule loop_post_step [OF "1.IH"(1) 1(6) qo(2) byte_diff_step [OF o(2) n(2)]])
          (use more qo qn lt o(1) n(1) remaining_ge result_step(1) [OF 1(6) qo(2)] in auto)
    next
      case lt: 2
      then have "new \<noteq> []"
        using qn by (auto simp: next_position_def LENGTH_MAX_def split: if_splits)
      note n = walk_step [OF 1(5) qn(1) this]
      note o = walk_keep [OF 1(4) qo(1) qn(2) less_imp_le [OF lt]]
      show ?thesis
        unfolding step(2) [OF lt]
        by (rule loop_post_step [OF "1.IH"(2) 1(6) qn(2) byte_diff_step [OF o(2) n(2)]])
          (use more qo qn lt o(1) n(1) remaining_ge result_step(1) [OF 1(6) qn(2)] in auto)
    next
      case eq: 3
      note o = walk_step [OF 1(4) qo(1) eq(2), folded eq(1)]
      note n = walk_step [OF 1(5) qn(1) eq(3)]
      show ?thesis
        unfolding step(3) [OF eq(1)]
        by (rule loop_post_step [OF "1.IH"(3) 1(6) qn(2) byte_diff_step [OF o(2) n(2)]])
          (use more qo qn eq o(1) n(1) remaining_ge result_step(1) [OF 1(6) qn(2)] in auto)
    next
      case at_end: 4
      then have "bytes qn = UINT32_MAX" "bytes qo = UINT32_MAX"
        using qo(1) qn(1) 1(4,5)
        by (auto simp: next_position_def LENGTH_MAX_def walk_inv_def split: if_splits)
      then show ?thesis
        by (rule changed_ranges_loop_at_max [OF 1(4) qo(1) 1(5) qn(1) 1(6) qn(2) more])
    qed
  qed
qed

section \<open>Properties\<close>

text \<open>
  C19. \<open>ts_range_array_get_changed_ranges\<close> returns on every pair of well-formed arrays whose ranges
  start below the maximal offset, never reading past an array, and the returned array covers
  exactly the bytes that one of the two arrays covers and the other does not. The result is
  ascending, with non-empty ranges and gaps between them.
\<close>

theorem changed_ranges_sym_diff:
  assumes "ranges_ordered 0 old" "list_all (\<lambda>r. start_byte r < UINT32_MAX) old"
    and "ranges_ordered 0 new" "list_all (\<lambda>r. start_byte r < UINT32_MAX) new"
  shows "\<exists>d. ts_range_array_get_changed_ranges old new [] = Some d \<and> separated d \<and>
    covered d = (covered old - covered new) \<union> (covered new - covered old)"
proof -
  have "walk_inv 0 old False" "walk_inv 0 new False"
    using assms by (simp_all add: walk_inv_def)
  then have "loop_post [] (remaining 0 old False) (remaining 0 new False)
      (changed_ranges_loop old new length_zero False False [])"
    using changed_ranges_loop_correct [of length_zero old False new False "[]"]
    by (simp add: length_zero_def result_inv_def)
  then show ?thesis
    by (auto simp: loop_post_def ts_range_array_get_changed_ranges_def remaining_def byte_diff_def)
qed

definition byte_range :: "u32 \<Rightarrow> u32 \<Rightarrow> TSRange" where
  "byte_range a b = \<lparr>start_point = Point 0 a, end_point = Point 0 b, start_byte = a, end_byte = b\<rparr>"

theorem changed_ranges_sym_diff_witness:
  "\<exists>d. ts_range_array_get_changed_ranges [byte_range 0 5, byte_range 8 10]
        [byte_range 3 9] [] = Some d \<and> separated d \<and>
    covered d = (covered [byte_range 0 5, byte_range 8 10] - covered [byte_range 3 9]) \<union>
      (covered [byte_range 3 9] - covered [byte_range 0 5, byte_range 8 10])"
  by (rule changed_ranges_sym_diff) (simp_all add: byte_range_def)

text \<open>
  \<open>ts_range_array_intersects\<close> with its early exit decides intersection: on a well-formed array of
  non-empty ranges it is true exactly if one of the ranges from the start index on shares a byte
  with the queried range.
\<close>

theorem range_array_intersects_correct:
  assumes "ranges_ordered 0 self" "list_all (\<lambda>r. start_byte r < end_byte r) self" "sb < eb"
  shows "ts_range_array_intersects self i sb eb \<longleftrightarrow>
    (\<exists>r \<in> set (drop i self). {start_byte r..<end_byte r} \<inter> {sb..<eb} \<noteq> {})"
proof -
  have ord: "\<exists>q. ranges_ordered q (drop n rs)" if "ranges_ordered p rs" for n p rs
    using that
  proof (induction n arbitrary: p rs)
    case (Suc n)
    then show ?case by (cases rs) (fastforce split: if_splits)+
  qed auto
  have "list_all (\<lambda>r. start_byte r < end_byte r) (drop i self)"
    using assms(2) by (auto simp: list_all_iff dest: in_set_dropD)
  moreover obtain q where "ranges_ordered q (drop i self)"
    using ord [OF assms(1)] by blast
  ultimately have "intersects_loop (drop i self) sb eb \<longleftrightarrow>
      covered (drop i self) \<inter> {sb..<eb} \<noteq> {}"
    by (intro ranges_ordered_intersects [OF _ assms(3)])
  then show ?thesis
    unfolding ts_range_array_intersects_def covered_def by (simp only:) blast
qed

theorem range_array_intersects_correct_witness:
  "ts_range_array_intersects [byte_range 0 5, byte_range 8 10] 1 9 12 \<longleftrightarrow>
    (\<exists>r \<in> set (drop 1 [byte_range 0 5, byte_range 8 10]).
       {start_byte r..<end_byte r} \<inter> {9..<12} \<noteq> {})"
  by (rule range_array_intersects_correct) (simp_all add: byte_range_def)

text \<open>The shift of an offset at or after the end of an edit, with its saturation.\<close>

definition shift_byte :: "TSInputEdit \<Rightarrow> u32 \<Rightarrow> u32" where
  "shift_byte edit b =
     (if new_end_byte edit + (b - old_end_byte edit) < new_end_byte edit then UINT32_MAX
      else new_end_byte edit + (b - old_end_byte edit))"

lemma shift_byte_ge: "new_end_byte edit \<le> shift_byte edit b"
  by (simp add: shift_byte_def not_less)

lemma shift_byte_mono:
  assumes "old_end_byte edit \<le> a" "a \<le> b"
  shows "shift_byte edit a \<le> shift_byte edit b"
proof -
  let ?n = "new_end_byte edit"
  have le: "unat (a - old_end_byte edit) \<le> unat (b - old_end_byte edit)"
    using assms by (simp add: word_le_nat_alt unat_sub)
  then show ?thesis
    by (auto simp: shift_byte_def u32_add_wraps word_le_nat_alt unat_add_u32)
qed

definition edited_end :: "TSInputEdit \<Rightarrow> u32 \<Rightarrow> u32" where
  "edited_end edit b =
     (if b \<ge> old_end_byte edit then (if b \<noteq> UINT32_MAX then shift_byte edit b else b)
      else if b > edit_start_byte edit then edit_start_byte edit else b)"

definition edited_start :: "TSInputEdit \<Rightarrow> u32 \<Rightarrow> u32" where
  "edited_start edit b =
     (if b \<ge> old_end_byte edit then shift_byte edit b
      else if b > edit_start_byte edit then edit_start_byte edit else b)"

lemma ts_range_edit_bytes [simp]:
  "end_byte (ts_range_edit r edit) = edited_end edit (end_byte r)"
  "start_byte (ts_range_edit r edit) = edited_start edit (start_byte r)"
  by (auto simp: ts_range_edit_def range_edit_start_def range_edit_end_def edited_end_def
      edited_start_def shift_byte_def Let_def)

lemma edited_start_end:
  assumes "edit_start_byte edit \<le> new_end_byte edit" "a \<le> b"
  shows "edited_start edit a \<le> edited_end edit b"
  using assms shift_byte_ge [of edit b] shift_byte_mono [of edit a b]
  by (auto simp: edited_start_def edited_end_def)

text \<open>
  The end of a range stays at or before the start of the next one, unless both are the maximal offset and the edit removes
  more than it inserts: then the end is kept and the start is moved.
\<close>

lemma shift_byte_max: "shift_byte edit UINT32_MAX = UINT32_MAX \<longleftrightarrow> old_end_byte edit \<le> new_end_byte edit"
  using unat_u32_bound [of "new_end_byte edit"] unat_u32_bound [of "old_end_byte edit"]
  by (auto simp: shift_byte_def u32_add_wraps word_le_nat_alt unat_sub word_unat_eq_iff unat_add_u32)

lemma edited_end_start:
  assumes "edit_start_byte edit \<le> new_end_byte edit" "a \<le> b"
  shows "edited_end edit a \<le> edited_start edit b \<longleftrightarrow> old_end_byte edit \<le> new_end_byte edit \<or> a < UINT32_MAX"
proof (cases "a < UINT32_MAX")
  case True
  then show ?thesis
    using assms shift_byte_ge [of edit b] shift_byte_mono [of edit a b]
    by (auto simp: edited_start_def edited_end_def)
next
  case False
  then have "a = UINT32_MAX" "b = UINT32_MAX" using assms(2) unat_u32_bound [of a] unat_u32_bound [of b]
    by (auto simp: word_less_nat_alt word_le_nat_alt word_unat_eq_iff)
  then show ?thesis using shift_byte_max [of edit] by (auto simp: edited_start_def edited_end_def antisym_conv)
qed

lemma ranges_ordered_edit:
  assumes "edit_start_byte edit \<le> new_end_byte edit"
  shows "ranges_ordered e rs \<Longrightarrow>
    ranges_ordered (edited_end edit e) (map (\<lambda>r. ts_range_edit r edit) rs) \<longleftrightarrow>
      old_end_byte edit \<le> new_end_byte edit \<or> list_all (\<lambda>b. b < UINT32_MAX) (butlast (e # map end_byte rs))"
proof (induction rs arbitrary: e)
  case (Cons r rs)
  then have "e \<le> start_byte r" "start_byte r \<le> end_byte r" "ranges_ordered (end_byte r) rs"
    by (auto simp: not_less split: if_splits)
  then show ?case
    using Cons.IH [of "end_byte r"] edited_end_start [OF assms, of e "start_byte r"]
      edited_start_end [OF assms, of "start_byte r" "end_byte r"] by (auto simp: not_less)
qed simp

text \<open>
  C20. When editing keeps included ranges well formed: for an edit whose new end is not before its start, \<open>ts_range_edit\<close>
  on every range of an ordered array gives again ascending ranges, with ends not before their starts and no overlap, also where the
  shifted offsets exceed 32 bits and saturate at the maximal offset, if the edit does not shorten the text or only the
  last range reaches the maximal offset. In all other cases the order is lost: the code takes an end at the maximal
  offset as unbounded and keeps it, but moves a start there.
\<close>

theorem range_edit_keeps_order:
  assumes "edit_start_byte edit \<le> new_end_byte edit" and "ranges_ordered 0 rs"
  shows "ranges_ordered 0 (map (\<lambda>r. ts_range_edit r edit) rs) \<longleftrightarrow>
    old_end_byte edit \<le> new_end_byte edit \<or> list_all (\<lambda>r. end_byte r < UINT32_MAX) (butlast rs)"
proof (cases rs)
  case (Cons r rs')
  then have "ranges_ordered (end_byte r) rs'" "start_byte r \<le> end_byte r"
    using assms(2) by (auto simp: not_less split: if_splits)
  then show ?thesis
    using Cons ranges_ordered_edit [OF assms(1), of "end_byte r" rs'] edited_start_end [OF assms(1), of "start_byte r" "end_byte r"]
    by (auto simp: not_less list.pred_map comp_def simp flip: map_butlast)
qed simp

theorem range_edit_keeps_order_witness:
  "ranges_ordered 0 (map (\<lambda>r. ts_range_edit r (edit_of [1, 2, 3] [4, 5] [6]))
     [byte_range 0 4, byte_range 6 UINT32_MAX])"
proof -
  have "edit_start_byte (edit_of [1, 2, 3] [4, 5] [6]) \<le> new_end_byte (edit_of [1, 2, 3] [4, 5] [6])"
    "ranges_ordered 0 [byte_range 0 4, byte_range 6 UINT32_MAX]"
    "list_all (\<lambda>r. end_byte r < UINT32_MAX) (butlast [byte_range 0 4, byte_range 6 UINT32_MAX])"
    by (simp_all add: byte_range_def edit_of_def)
  then show ?thesis using range_edit_keeps_order by blast
qed

text \<open>
  The case where the order is lost: two ranges that meet at the maximal offset, as saturation leaves them, and an edit that removes five
  bytes. The second range then starts before the end of the first.
\<close>

lemma range_edit_moves_saturated_start:
  "\<not> ranges_ordered 0 (map (\<lambda>r. ts_range_edit r
       \<lparr>edit_start_byte = 5, old_end_byte = 10, new_end_byte = 5, edit_start_point = Point 0 5,
        old_end_point = Point 0 10, new_end_point = Point 0 5\<rparr>)
     [byte_range 0 UINT32_MAX, byte_range UINT32_MAX UINT32_MAX])"
  by (simp add: byte_range_def ts_range_edit_def range_edit_start_def range_edit_end_def Let_def)

end
