(* ===== verification/Unicode.thy ===== *)
theory Unicode
  imports Prelude
begin

text \<open>
  Decoding of source text: \<open>unicode.h\<close> of the Tree-sitter runtime with the ICU macros of
  \<open>unicode/utf8.h\<close> and \<open>unicode/utf16.h\<close> it expands. Text is a list of bytes; a decoder returns the
  number of bytes it consumed and a code point, or the sentinel \<open>TS_DECODE_ERROR\<close>. Reading a
  byte that does not exist is \<open>None\<close>.
\<close>

section \<open>UTF-8\<close>

definition TS_DECODE_ERROR :: int where
  "TS_DECODE_ERROR = - 1"

definition U8_LEAD3_T1_BITS :: "int list" where
  "U8_LEAD3_T1_BITS = [0x20, 0x30, 0x30, 0x30, 0x30, 0x30, 0x30, 0x30,
                       0x30, 0x30, 0x30, 0x30, 0x30, 0x10, 0x30, 0x30]"

definition U8_LEAD4_T1_BITS :: "int list" where
  "U8_LEAD4_T1_BITS = [0x00, 0x00, 0x00, 0x00, 0x00, 0x00, 0x00, 0x00,
                       0x1E, 0x0F, 0x0F, 0x0F, 0x00, 0x00, 0x00, 0x00]"

text \<open>
  \<open>U8_NEXT\<close> on a non-empty string, in the order of the macro's conditions. The last trail byte is
  read by \<open>u8_last\<close>; its subtraction of \<open>0x80\<close> is on \<open>uint8_t\<close> and wraps.
\<close>

definition u8_last :: "u8 list \<Rightarrow> nat \<Rightarrow> int \<Rightarrow> nat \<times> int" where
  "u8_last s i c =
     (let t = uint (s ! i - 0x80)
      in if t \<le> 0x3f then (Suc i, push_bit 6 c OR t) else (i, TS_DECODE_ERROR))"

definition u8_lead3 :: "u8 list \<Rightarrow> int \<Rightarrow> nat \<times> int" where
  "u8_lead3 s c =
     (let c = c AND 0xf; t = uint (s ! 1)
      in if U8_LEAD3_T1_BITS ! nat c AND push_bit (nat (drop_bit 5 t)) 1 \<noteq> 0 then
           (if 2 \<noteq> length s then u8_last s 2 (push_bit 6 c OR (t AND 0x3f))
            else (2, TS_DECODE_ERROR))
         else (1, TS_DECODE_ERROR))"

definition u8_lead4 :: "u8 list \<Rightarrow> int \<Rightarrow> nat \<times> int" where
  "u8_lead4 s c =
     (let c = c - 0xf0; t = uint (s ! 1)
      in if c \<le> 4 \<and> U8_LEAD4_T1_BITS ! nat (drop_bit 4 t) AND push_bit (nat c) 1 \<noteq> 0 then
           (let c = push_bit 6 c OR (t AND 0x3f)
            in if 2 \<noteq> length s then
                 (let t = uint (s ! 2 - 0x80)
                  in if t \<le> 0x3f then
                       (if 3 \<noteq> length s then u8_last s 3 (push_bit 6 c OR t)
                        else (3, TS_DECODE_ERROR))
                     else (2, TS_DECODE_ERROR))
               else (2, TS_DECODE_ERROR))
         else (1, TS_DECODE_ERROR))"

definition U8_NEXT :: "u8 list \<Rightarrow> nat \<times> int" where
  "U8_NEXT s =
     (let c = uint (s ! 0)
      in if c AND 0x80 = 0 then (1, c)
         else if 1 \<noteq> length s then
           (if c \<ge> 0xe0 then (if c < 0xf0 then u8_lead3 s c else u8_lead4 s c)
            else if c \<ge> 0xc2 then u8_last s 1 (c AND 0x1f)
            else (1, TS_DECODE_ERROR))
         else (1, TS_DECODE_ERROR))"

definition ts_decode_utf8 :: "u8 list \<Rightarrow> (nat \<times> int) option" where
  "ts_decode_utf8 s = (if s = [] then None else Some (U8_NEXT s))"

text \<open>The encoder of the same header, as the list of bytes it writes.\<close>

definition U8_APPEND_UNSAFE :: "int \<Rightarrow> u8 list" where
  "U8_APPEND_UNSAFE uc =
     (if uc \<le> 0x7f then [word_of_int uc]
      else
        (if uc \<le> 0x7ff then [word_of_int (drop_bit 6 uc OR 0xc0)]
         else
           (if uc \<le> 0xffff then [word_of_int (drop_bit 12 uc OR 0xe0)]
            else [word_of_int (drop_bit 18 uc OR 0xf0),
                  word_of_int ((drop_bit 12 uc AND 0x3f) OR 0x80)])
           @ [word_of_int ((drop_bit 6 uc AND 0x3f) OR 0x80)])
        @ [word_of_int ((uc AND 0x3f) OR 0x80)])"

section \<open>UTF-16\<close>

definition U16_IS_LEAD :: "int \<Rightarrow> bool" where
  "U16_IS_LEAD c \<longleftrightarrow> c AND 0xfffffc00 = 0xd800"

definition U16_IS_TRAIL :: "int \<Rightarrow> bool" where
  "U16_IS_TRAIL c \<longleftrightarrow> c AND 0xfffffc00 = 0xdc00"

definition U16_SURROGATE_OFFSET :: int where
  "U16_SURROGATE_OFFSET = push_bit 10 0xd800 + 0xdc00 - 0x10000"

definition U16_GET_SUPPLEMENTARY :: "int \<Rightarrow> int \<Rightarrow> int" where
  "U16_GET_SUPPLEMENTARY lead trail = push_bit 10 lead + trail - U16_SURROGATE_OFFSET"

text \<open>
  A 16-bit unit of the string, read through \<open>uint16_t *\<close> on a little-endian machine (the byte
  order of every target the build names): the first byte is the low one. \<open>le16toh\<close> is then the
  identity and \<open>be16toh\<close> swaps the bytes.
\<close>

definition unit16 :: "u8 list \<Rightarrow> nat \<Rightarrow> int" where
  "unit16 s i = uint (s ! (2 * i)) + 256 * uint (s ! (2 * i + 1))"

definition bswap16 :: "int \<Rightarrow> int" where
  "bswap16 x = (x mod 256) * 256 + x div 256"

text \<open>
  \<open>U16_NEXT_LE\<close> and \<open>U16_NEXT_BE\<close>: the lead unit is converted, the trail unit is read as it is
  in memory by both macros.
\<close>

definition U16_NEXT_LE :: "u8 list \<Rightarrow> nat \<Rightarrow> nat \<times> int" where
  "U16_NEXT_LE s len =
     (let c = unit16 s 0
      in if U16_IS_LEAD c \<and> 1 \<noteq> len \<and> U16_IS_TRAIL (unit16 s 1)
         then (2, U16_GET_SUPPLEMENTARY c (unit16 s 1))
         else (1, c))"

definition U16_NEXT_BE :: "u8 list \<Rightarrow> nat \<Rightarrow> nat \<times> int" where
  "U16_NEXT_BE s len =
     (let c = bswap16 (unit16 s 0)
      in if U16_IS_LEAD c \<and> 1 \<noteq> len \<and> U16_IS_TRAIL (unit16 s 1)
         then (2, U16_GET_SUPPLEMENTARY c (unit16 s 1))
         else (1, c))"

definition ts_decode_utf16_le :: "u8 list \<Rightarrow> (nat \<times> int) option" where
  "ts_decode_utf16_le s =
     (if length s < 2 then Some (length s, TS_DECODE_ERROR)
      else case U16_NEXT_LE s (length s div 2) of (i, c) \<Rightarrow> Some (i * 2, c))"

definition ts_decode_utf16_be :: "u8 list \<Rightarrow> (nat \<times> int) option" where
  "ts_decode_utf16_be s =
     (if length s < 2 then Some (length s, TS_DECODE_ERROR)
      else case U16_NEXT_BE s (length s div 2) of (i, c) \<Rightarrow> Some (i * 2, c))"

section \<open>Bit operations as arithmetic\<close>

lemma and_mask_mod:
  fixes c :: int
  shows "c AND 0xf = c mod 16" "c AND 0x1f = c mod 32" "c AND 0x3f = c mod 64"
  using take_bit_eq_mask [of 4 c] take_bit_eq_mask [of 5 c] take_bit_eq_mask [of 6 c]
  by (simp_all add: take_bit_eq_mod mask_eq_exp_minus_1)

lemma push_or_add:
  fixes c t :: int
  assumes "0 \<le> t" "t < 64"
  shows "push_bit 6 c OR t = 64 * c + t"
proof -
  have "t = take_bit 6 t" using assms by (simp add: take_bit_int_eq_self)
  then have "push_bit 6 c OR t = concat_bit 6 t c"
    by (simp add: concat_bit_def ac_simps)
  then show ?thesis
    using assms by (simp add: concat_bit_eq push_bit_eq_mult take_bit_int_eq_self)
qed

lemma or_lead_add:
  fixes x :: int
  shows "0 \<le> x \<Longrightarrow> x < 32 \<Longrightarrow> x OR 0xc0 = x + 0xc0"
    and "0 \<le> x \<Longrightarrow> x < 16 \<Longrightarrow> x OR 0xe0 = x + 0xe0"
    and "0 \<le> x \<Longrightarrow> x < 8 \<Longrightarrow> x OR 0xf0 = x + 0xf0"
    and "0 \<le> x \<Longrightarrow> x < 64 \<Longrightarrow> x OR 0x80 = x + 0x80"
  using push_or_add [of x 2]
proof -
  have *: "x OR push_bit n k = x + push_bit n k" if "0 \<le> x" "x < 2 ^ n" for n and k :: int
    using that concat_bit_eq [of n x k] by (simp add: concat_bit_def take_bit_int_eq_self)
  show "0 \<le> x \<Longrightarrow> x < 32 \<Longrightarrow> x OR 0xc0 = x + 0xc0" using * [of 5 6] by (simp add: push_bit_eq_mult)
  show "0 \<le> x \<Longrightarrow> x < 16 \<Longrightarrow> x OR 0xe0 = x + 0xe0" using * [of 4 14] by (simp add: push_bit_eq_mult)
  show "0 \<le> x \<Longrightarrow> x < 8 \<Longrightarrow> x OR 0xf0 = x + 0xf0" using * [of 3 30] by (simp add: push_bit_eq_mult)
  show "0 \<le> x \<Longrightarrow> x < 64 \<Longrightarrow> x OR 0x80 = x + 0x80" using * [of 6 2] by (simp add: push_bit_eq_mult)
qed

lemma and_0x80:
  fixes c :: int
  assumes "0 \<le> c" "c < 256"
  shows "c AND 0x80 = 0 \<longleftrightarrow> c < 128"
proof -
  have "list_all (\<lambda>c. (c AND 0x80 = 0) = (c < 128)) [0..255::int]" by code_simp
  then show ?thesis using assms by (auto simp: list_all_iff)
qed

lemma lead3_table:
  assumes "0 \<le> a" "a < 16" "0 \<le> t" "t < (256::int)"
  shows "U8_LEAD3_T1_BITS ! nat a AND push_bit (nat (drop_bit 5 t)) 1 \<noteq> 0 \<longleftrightarrow>
    128 \<le> t \<and> t < 192 \<and> (a = 0 \<longrightarrow> 160 \<le> t) \<and> (a = 13 \<longrightarrow> t < 160)"
proof -
  have tab: "\<forall>a\<in>set [0..15::int]. \<forall>k\<in>set [0..7::int].
      (U8_LEAD3_T1_BITS ! nat a AND push_bit (nat k) 1 \<noteq> 0) =
      (4 \<le> k \<and> k < 6 \<and> (a = 0 \<longrightarrow> 5 \<le> k) \<and> (a = 13 \<longrightarrow> k < 5))"
    by code_simp
  have mem: "a \<in> set [0..15]" "t div 32 \<in> set [0..7]" using assms by auto
  have "4 \<le> t div 32 \<longleftrightarrow> 128 \<le> t" "t div 32 < 6 \<longleftrightarrow> t < 192" "5 \<le> t div 32 \<longleftrightarrow> 160 \<le> t"
    "t div 32 < 5 \<longleftrightarrow> t < 160" by auto
  then show ?thesis
    using tab [THEN bspec, OF mem(1), THEN bspec, OF mem(2)] by (simp add: drop_bit_eq_div)
qed

lemma lead4_table:
  assumes "0 \<le> a" "a \<le> 4" "0 \<le> t" "t < (256::int)"
  shows "U8_LEAD4_T1_BITS ! nat (drop_bit 4 t) AND push_bit (nat a) 1 \<noteq> 0 \<longleftrightarrow>
    128 \<le> t \<and> t < 192 \<and> (a = 0 \<longrightarrow> 144 \<le> t) \<and> (a = 4 \<longrightarrow> t < 144)"
proof -
  have tab: "\<forall>a\<in>set [0..4::int]. \<forall>k\<in>set [0..15::int].
      (U8_LEAD4_T1_BITS ! nat k AND push_bit (nat a) 1 \<noteq> 0) =
      (8 \<le> k \<and> k < 12 \<and> (a = 0 \<longrightarrow> 9 \<le> k) \<and> (a = 4 \<longrightarrow> k < 9))"
    by code_simp
  have mem: "a \<in> set [0..4]" "t div 16 \<in> set [0..15]" using assms by auto
  have "8 \<le> t div 16 \<longleftrightarrow> 128 \<le> t" "t div 16 < 12 \<longleftrightarrow> t < 192" "9 \<le> t div 16 \<longleftrightarrow> 144 \<le> t"
    "t div 16 < 9 \<longleftrightarrow> t < 144" by auto
  then show ?thesis
    using tab [THEN bspec, OF mem(1), THEN bspec, OF mem(2)] by (simp add: drop_bit_eq_div)
qed

lemma uint_u8: "0 \<le> uint (b::u8)" "uint (b::u8) < 256"
  using unsigned_less [of b] by simp_all

lemma mod256:
  assumes "0 \<le> x" "x < 256"
  shows "(x - 128) mod 256 = (if 128 \<le> x then x - 128 else x + (128::int))"
proof (cases "128 \<le> x")
  case False
  have "(x - 128) mod 256 = (x - 128 + 256) mod 256"
    by (simp only: mod_add_self2)
  with False assms show ?thesis by simp
qed (use assms in simp)

lemma trail_byte:
  fixes b :: u8
  shows "uint (b - 0x80) \<le> 0x3f \<longleftrightarrow> 128 \<le> uint b \<and> uint b < 192"
    and "128 \<le> uint b \<Longrightarrow> uint (b - 0x80) = uint b - 128"
proof -
  have "uint (b - 0x80) = (uint b - 128) mod 256"
    by (simp add: uint_word_ariths)
  moreover have "(uint b - 128) mod 256 = (if 128 \<le> uint b then uint b - 128 else uint b + 128)"
    using mod256 [OF uint_u8] .
  ultimately show "uint (b - 0x80) \<le> 0x3f \<longleftrightarrow> 128 \<le> uint b \<and> uint b < 192"
    and "128 \<le> uint b \<Longrightarrow> uint (b - 0x80) = uint b - 128"
    using uint_u8 [of b] by (simp_all only: split: if_splits) linarith+
qed

lemma uint_word_of_int_u8: "0 \<le> x \<Longrightarrow> x < 256 \<Longrightarrow> uint (word_of_int x :: u8) = x"
  by (simp add: uint_word_of_int)

section \<open>The decoder and the encoder in arithmetic form\<close>

lemma u8_last_eq:
  assumes "0 \<le> c"
  shows "u8_last s i c =
    (if 128 \<le> uint (s ! i) \<and> uint (s ! i) < 192 then (Suc i, 64 * c + (uint (s ! i) - 128))
     else (i, TS_DECODE_ERROR))"
  by (auto simp: u8_last_def Let_def trail_byte push_or_add)

lemma encode_eq:
  assumes "0 \<le> c" "c \<le> 0x10ffff"
  shows "U8_APPEND_UNSAFE c =
    (if c < 0x80 then [word_of_int c]
     else if c < 0x800 then [word_of_int (c div 64 + 0xc0), word_of_int (c mod 64 + 0x80)]
     else if c < 0x10000 then
       [word_of_int (c div 4096 + 0xe0), word_of_int (c div 64 mod 64 + 0x80),
        word_of_int (c mod 64 + 0x80)]
     else
       [word_of_int (c div 262144 + 0xf0), word_of_int (c div 4096 mod 64 + 0x80),
        word_of_int (c div 64 mod 64 + 0x80), word_of_int (c mod 64 + 0x80)])"
  using assms by (simp add: U8_APPEND_UNSAFE_def drop_bit_eq_div and_mask_mod or_lead_add)

definition scalar_value :: "int \<Rightarrow> bool" where
  "scalar_value c \<longleftrightarrow> 0 \<le> c \<and> c \<le> 0x10ffff \<and> \<not> (0xd800 \<le> c \<and> c \<le> 0xdfff)"

lemma u8_lead3_eq:
  assumes "224 \<le> c" "c < 240"
  shows "u8_lead3 s c =
    (let t = uint (s ! 1); a = c - 224
     in if 128 \<le> t \<and> t < 192 \<and> (a = 0 \<longrightarrow> 160 \<le> t) \<and> (a = 13 \<longrightarrow> t < 160) then
          (if 2 \<noteq> length s then u8_last s 2 (64 * a + (t - 128)) else (2, TS_DECODE_ERROR))
        else (1, TS_DECODE_ERROR))"
proof -
  have c: "c AND 0xf = c - 224"
    using assms by (simp add: and_mask_mod) presburger
  have "t AND 0x3f = t - 128" if "128 \<le> t" "t < 192" for t :: int
    using that by (simp add: and_mask_mod) presburger
  then show ?thesis
    unfolding u8_lead3_def c Let_def
    using lead3_table [of "c - 224" "uint (s ! 1)"] assms uint_u8 [of "s ! 1"]
    by (auto simp: push_or_add)
qed

lemma u8_lead4_eq:
  assumes "240 \<le> c" "c < 256"
  shows "u8_lead4 s c =
    (let t = uint (s ! 1); u = uint (s ! 2); a = c - 240
     in if a \<le> 4 \<and> 128 \<le> t \<and> t < 192 \<and> (a = 0 \<longrightarrow> 144 \<le> t) \<and> (a = 4 \<longrightarrow> t < 144) then
          (if 2 \<noteq> length s then
             (if 128 \<le> u \<and> u < 192 then
                (if 3 \<noteq> length s then u8_last s 3 (64 * (64 * a + (t - 128)) + (u - 128))
                 else (3, TS_DECODE_ERROR))
              else (2, TS_DECODE_ERROR))
           else (2, TS_DECODE_ERROR))
        else (1, TS_DECODE_ERROR))"
proof -
  have "t AND 0x3f = t - 128" if "128 \<le> t" "t < 192" for t :: int
    using that by (simp add: and_mask_mod) presburger
  then show ?thesis
    unfolding u8_lead4_def Let_def
    using lead4_table [of "c - 240" "uint (s ! 1)"] assms uint_u8 [of "s ! 1"]
    by (auto simp: push_or_add trail_byte)
qed

lemma U8_NEXT_eq:
  "U8_NEXT s =
    (let c = uint (s ! 0)
     in if c < 128 then (1, c)
        else if length s = 1 \<or> c < 0xc2 then (1, TS_DECODE_ERROR)
        else if c < 0xe0 then u8_last s 1 (c - 0xc0)
        else if c < 0xf0 then u8_lead3 s c else u8_lead4 s c)"
proof -
  have "c AND 0x1f = c - 0xc0" if "0xc2 \<le> c" "c < 0xe0" for c :: int
    using that by (simp add: and_mask_mod) presburger
  then show ?thesis
    using uint_u8 [of "s ! 0"] by (auto simp: U8_NEXT_def Let_def and_0x80)
qed


lemma div_4096: "c div 4096 = c div 64 div (64::int)"
  using zdiv_zmult2_eq [of 64 c 64] by simp

lemma div_262144: "c div 262144 = c div 4096 div (64::int)"
  using zdiv_zmult2_eq [of 64 c 4096] by simp

lemma split6:
  fixes c :: int
  shows "64 * (c div 64) + c mod 64 = c" "64 * (c div 4096) + c div 64 mod 64 = c div 64"
    "64 * (c div 262144) + c div 4096 mod 64 = c div 4096"
proof -
  show "64 * (c div 64) + c mod 64 = c" "64 * (c div 4096) + c div 64 mod 64 = c div 64"
    "64 * (c div 262144) + c div 4096 mod 64 = c div 4096"
    by (simp_all only: div_262144 div_4096 mult_div_mod_eq)
qed

text \<open>Decoding by the number of bytes, over the values of the lead and trail bytes.\<close>

lemma U8_NEXT_2:
  assumes "uint b0 = a + 0xc0" "2 \<le> a" "a < 32" "uint b1 = d + 0x80" "0 \<le> d" "d < 64"
  shows "U8_NEXT (b0 # b1 # rest) = (2, 64 * a + d)"
  using assms by (simp add: U8_NEXT_eq u8_last_eq Let_def)

lemma U8_NEXT_3:
  assumes "uint b0 = a + 0xe0" "0 \<le> a" "a < 16" "uint b1 = d + 0x80" "0 \<le> d" "d < 64"
    "uint b2 = e + 0x80" "0 \<le> e" "e < 64" "a = 0 \<longrightarrow> 32 \<le> d" "a = 13 \<longrightarrow> d < 32"
  shows "U8_NEXT (b0 # b1 # b2 # rest) = (3, 64 * (64 * a + d) + e)"
  using assms by (simp add: U8_NEXT_eq u8_last_eq u8_lead3_eq Let_def)

lemma U8_NEXT_4:
  assumes "uint b0 = a + 0xf0" "0 \<le> a" "a \<le> 4" "uint b1 = d + 0x80" "0 \<le> d" "d < 64"
    "uint b2 = e + 0x80" "0 \<le> e" "e < 64" "uint b3 = f + 0x80" "0 \<le> f" "f < 64"
    "a = 0 \<longrightarrow> 16 \<le> d" "a = 4 \<longrightarrow> d < 16"
  shows "U8_NEXT (b0 # b1 # b2 # b3 # rest) = (4, 64 * (64 * (64 * a + d) + e) + f)"
  using assms by (simp add: U8_NEXT_eq u8_last_eq u8_lead4_eq Let_def)

lemma U8_NEXT_of_int:
  assumes "0 \<le> d" "d < 64" "0 \<le> e" "e < 64" "0 \<le> f" "f < 64"
  shows "2 \<le> a \<Longrightarrow> a < 32 \<Longrightarrow>
      U8_NEXT (word_of_int (a + 0xc0) # word_of_int (f + 0x80) # rest) = (2, 64 * a + f)"
    and "0 \<le> a \<Longrightarrow> a < 16 \<Longrightarrow> a = 0 \<longrightarrow> 32 \<le> e \<Longrightarrow> a = 13 \<longrightarrow> e < 32 \<Longrightarrow>
      U8_NEXT (word_of_int (a + 0xe0) # word_of_int (e + 0x80) # word_of_int (f + 0x80) # rest) =
        (3, 64 * (64 * a + e) + f)"
    and "0 \<le> a \<Longrightarrow> a \<le> 4 \<Longrightarrow> a = 0 \<longrightarrow> 16 \<le> d \<Longrightarrow> a = 4 \<longrightarrow> d < 16 \<Longrightarrow>
      U8_NEXT (word_of_int (a + 0xf0) # word_of_int (d + 0x80) # word_of_int (e + 0x80) #
          word_of_int (f + 0x80) # rest) =
        (4, 64 * (64 * (64 * a + d) + e) + f)"
  by (rule U8_NEXT_2 U8_NEXT_3 U8_NEXT_4; use assms in \<open>simp add: uint_word_of_int_u8 del: of_int_add\<close>)+

lemma decode_encode:
  assumes "scalar_value c"
  shows "U8_NEXT (U8_APPEND_UNSAFE c @ rest) = (length (U8_APPEND_UNSAFE c), c)"
proof -
  have r: "0 \<le> c" "c \<le> 0x10ffff" and sur: "c < 0xd800 \<or> 0xdfff < c"
    using assms by (auto simp: scalar_value_def)
  define d e f where "d = c div 4096 mod 64" and "e = c div 64 mod 64" and "f = c mod 64"
  note defs = d_def [symmetric] e_def [symmetric] f_def [symmetric]
  have m: "0 \<le> d" "d < 64" "0 \<le> e" "e < 64" "0 \<le> f" "f < 64"
    by (simp_all add: d_def e_def f_def)
  note split = split6 [of c, unfolded defs] and N = U8_NEXT_of_int [OF m]
  consider "c < 0x80" | "0x80 \<le> c" "c < 0x800" | "0x800 \<le> c" "c < 0x10000" | "0x10000 \<le> c"
    by linarith
  then show ?thesis
  proof cases
    case 1
    then show ?thesis using r by (simp add: encode_eq U8_NEXT_eq uint_word_of_int_u8 Let_def)
  next
    case 2
    then have "U8_APPEND_UNSAFE c = [word_of_int (c div 64 + 0xc0), word_of_int (f + 0x80)]"
      using r by (subst encode_eq) (simp_all only: defs, simp)
    moreover have "2 \<le> c div 64" "c div 64 < 32" using 2 by linarith+
    ultimately show ?thesis using N(1) [of "c div 64" rest] split by simp
  next
    case 3
    then have "U8_APPEND_UNSAFE c =
        [word_of_int (c div 4096 + 0xe0), word_of_int (e + 0x80), word_of_int (f + 0x80)]"
      using r by (subst encode_eq) (simp_all only: defs, simp)
    moreover have "0 \<le> c div 4096" "c div 4096 < 16" using 3 by linarith+
    moreover have "c div 4096 = 0 \<longrightarrow> 32 \<le> e" "c div 4096 = 13 \<longrightarrow> e < 32"
      using 3 sur split(1,2) m by linarith+
    ultimately show ?thesis using N(2) [of "c div 4096" rest] split by simp
  next
    case 4
    then have "U8_APPEND_UNSAFE c =
        [word_of_int (c div 262144 + 0xf0), word_of_int (d + 0x80), word_of_int (e + 0x80),
         word_of_int (f + 0x80)]"
      using r by (subst encode_eq) (simp_all only: defs, simp)
    moreover have "0 \<le> c div 262144" "c div 262144 \<le> 4" using 4 r by linarith+
    moreover have "c div 262144 = 0 \<longrightarrow> 16 \<le> d" "c div 262144 = 4 \<longrightarrow> d < 16"
      using 4 r split m by linarith+
    ultimately show ?thesis using N(3) [of "c div 262144" rest] split by simp
  qed
qed

text \<open>Conversely, the bytes of a successful decoding are the encoding of its result.\<close>

lemma u8_byte_eq: "uint (b::u8) = x \<Longrightarrow> word_of_int x = b"
  by auto

lemma div64:
  fixes a d :: int
  assumes "0 \<le> d" "d < 64"
  shows "(64 * a + d) div 64 = a" "(64 * a + d) mod 64 = d"
  using assms by simp_all

lemma encode_2:
  assumes "uint b0 = a + 0xc0" "2 \<le> a" "a < 32" "uint b1 = d + 0x80" "0 \<le> d" "d < 64"
  shows "U8_APPEND_UNSAFE (64 * a + d) = [b0, b1] \<and> scalar_value (64 * a + d)"
  using assms u8_byte_eq [OF assms(1)] u8_byte_eq [OF assms(4)]
  by (auto simp: encode_eq scalar_value_def simp del: of_int_add)

lemma encode_3:
  assumes "uint b0 = a + 0xe0" "0 \<le> a" "a < 16" "uint b1 = d + 0x80" "0 \<le> d" "d < 64"
    "uint b2 = e + 0x80" "0 \<le> e" "e < 64" "a = 0 \<longrightarrow> 32 \<le> d" "a = 13 \<longrightarrow> d < 32"
  shows "U8_APPEND_UNSAFE (64 * (64 * a + d) + e) = [b0, b1, b2] \<and>
    scalar_value (64 * (64 * a + d) + e)"
proof -
  define x where "x = 64 * a + d"
  define c where "c = 64 * x + e"
  have "32 \<le> x" "x < 1024" "x < 864 \<or> 896 \<le> x"
    using assms(2,3,5,6,10,11) by (cases "a = 0"; cases "a = 13"; cases "a < 13"; simp add: x_def)+
  then have c: "0x800 \<le> c" "c < 0x10000" "scalar_value c"
    using assms(8,9) by (auto simp: c_def scalar_value_def)
  have enc: "U8_APPEND_UNSAFE c =
      [word_of_int (c div 4096 + 0xe0), word_of_int (c div 64 mod 64 + 0x80),
       word_of_int (c mod 64 + 0x80)]"
    using c by (subst encode_eq) simp_all
  have "c div 4096 = a" "c div 64 mod 64 = d" "c mod 64 = e"
    using assms by (simp_all only: c_def x_def div_4096 div64)
  then have "U8_APPEND_UNSAFE c = [b0, b1, b2]"
    by (simp only: enc u8_byte_eq [OF assms(1)] u8_byte_eq [OF assms(4)] u8_byte_eq [OF assms(7)])
  with c(3) show ?thesis by (simp only: c_def x_def)
qed

lemma encode_4:
  assumes "uint b0 = a + 0xf0" "0 \<le> a" "a \<le> 4" "uint b1 = d + 0x80" "0 \<le> d" "d < 64"
    "uint b2 = e + 0x80" "0 \<le> e" "e < 64" "uint b3 = f + 0x80" "0 \<le> f" "f < 64"
    "a = 0 \<longrightarrow> 16 \<le> d" "a = 4 \<longrightarrow> d < 16"
  shows "U8_APPEND_UNSAFE (64 * (64 * (64 * a + d) + e) + f) = [b0, b1, b2, b3] \<and>
    scalar_value (64 * (64 * (64 * a + d) + e) + f)"
proof -
  define x where "x = 64 * a + d"
  define c where "c = 64 * (64 * x + e) + f"
  have "16 \<le> x" "x < 272"
    using assms(2,3,5,6,13,14) by (cases "a = 0"; cases "a = 4"; simp add: x_def)+
  then have c: "0x10000 \<le> c" "c \<le> 0x10ffff"
    using assms(8,9,11,12) by (simp_all add: c_def)
  have enc: "U8_APPEND_UNSAFE c =
      [word_of_int (c div 262144 + 0xf0), word_of_int (c div 4096 mod 64 + 0x80),
       word_of_int (c div 64 mod 64 + 0x80), word_of_int (c mod 64 + 0x80)]"
    using c by (subst encode_eq) simp_all
  have "c div 262144 = a" "c div 4096 mod 64 = d" "c div 64 mod 64 = e" "c mod 64 = f"
    using assms by (simp_all only: c_def x_def div_262144 div_4096 div64)
  then have "U8_APPEND_UNSAFE c = [b0, b1, b2, b3]"
    by (simp only: enc u8_byte_eq [OF assms(1)] u8_byte_eq [OF assms(4)] u8_byte_eq [OF assms(7)]
        u8_byte_eq [OF assms(10)])
  moreover have "scalar_value c"
    using c by (simp add: scalar_value_def)
  ultimately show ?thesis by (simp only: c_def x_def)
qed

lemma decode_sound:
  assumes "U8_NEXT s = (n, c)" "c \<noteq> TS_DECODE_ERROR" "s \<noteq> []"
  shows "scalar_value c \<and> n = length (U8_APPEND_UNSAFE c) \<and> take n s = U8_APPEND_UNSAFE c"
proof -
  obtain b0 s1 where s: "s = b0 # s1" using assms(3) by (cases s) auto
  note eqs = U8_NEXT_eq u8_last_eq Let_def nth_Cons'
  consider "uint b0 < 0x80" | "0xc2 \<le> uint b0" "uint b0 < 0xe0" | "0xe0 \<le> uint b0" "uint b0 < 0xf0"
    | "0xf0 \<le> uint b0"
    using assms s by (auto simp: U8_NEXT_eq Let_def split: if_splits)
  then show ?thesis
  proof cases
    case 1
    then show ?thesis using assms s uint_u8(1) [of b0]
      by (auto simp: eqs encode_eq scalar_value_def)
  next
    case 2
    obtain b1 s2 where s1: "s1 = b1 # s2"
      using assms 2 s by (cases s1) (auto simp: eqs split: if_splits)
    with assms 2 s have n: "n = 2" "c = 64 * (uint b0 - 0xc0) + (uint b1 - 0x80)"
      "0x80 \<le> uint b1" "uint b1 < 0xc0"
      by (auto simp: eqs split: if_splits)
    then show ?thesis
      using encode_2 [of b0 "uint b0 - 0xc0" b1 "uint b1 - 0x80"] 2 s s1 by simp
  next
    case 3
    obtain b1 b2 s3 where s1: "s1 = b1 # b2 # s3"
      using assms 3 s
      by (cases s1; cases "tl s1") (auto simp: eqs u8_lead3_eq split: if_splits)
    with assms 3 s have n: "n = 3"
      "c = 64 * (64 * (uint b0 - 0xe0) + (uint b1 - 0x80)) + (uint b2 - 0x80)"
      "0x80 \<le> uint b1" "uint b1 < 0xc0" "0x80 \<le> uint b2" "uint b2 < 0xc0"
      "uint b0 = 0xe0 \<longrightarrow> 0xa0 \<le> uint b1" "uint b0 = 0xed \<longrightarrow> uint b1 < 0xa0"
      by (auto simp: eqs u8_lead3_eq split: if_splits)
    then show ?thesis
      using encode_3 [of b0 "uint b0 - 0xe0" b1 "uint b1 - 0x80" b2 "uint b2 - 0x80"] 3 s s1 by simp
  next
    case 4
    note eqs4 = eqs u8_lead4_eq [OF 4 uint_u8(2)]
    obtain b1 b2 b3 s4 where s1: "s1 = b1 # b2 # b3 # s4"
      using assms 4 s
      by (cases s1; cases "tl s1"; cases "tl (tl s1)") (auto simp: eqs4 split: if_splits)
    with assms 4 s have n: "n = 4" "uint b0 \<le> 0xf4"
      "c = 64 * (64 * (64 * (uint b0 - 0xf0) + (uint b1 - 0x80)) + (uint b2 - 0x80)) + (uint b3 - 0x80)"
      "0x80 \<le> uint b1" "uint b1 < 0xc0" "0x80 \<le> uint b2" "uint b2 < 0xc0"
      "0x80 \<le> uint b3" "uint b3 < 0xc0"
      "uint b0 = 0xf0 \<longrightarrow> 0x90 \<le> uint b1" "uint b0 = 0xf4 \<longrightarrow> uint b1 < 0x90"
      by (auto simp: eqs4 split: if_splits)
    then show ?thesis
      using encode_4 [of b0 "uint b0 - 0xf0" b1 "uint b1 - 0x80" b2 "uint b2 - 0x80" b3 "uint b3 - 0x80"]
        4 s s1 by simp
  qed
qed


lemma U8_NEXT_bounds:
  assumes "s \<noteq> []"
  shows "0 < fst (U8_NEXT s)" "fst (U8_NEXT s) \<le> length s" "fst (U8_NEXT s) \<le> 4"
proof -
  have "0 < length s" using assms by simp
  then have "Suc 0 \<le> length s" "2 \<noteq> length s \<Longrightarrow> 1 \<noteq> length s \<Longrightarrow> 3 \<le> length s"
    "3 \<noteq> length s \<Longrightarrow> 2 \<noteq> length s \<Longrightarrow> 1 \<noteq> length s \<Longrightarrow> 4 \<le> length s" by linarith+
  then show "0 < fst (U8_NEXT s)" "fst (U8_NEXT s) \<le> length s" "fst (U8_NEXT s) \<le> 4"
    by (auto simp: U8_NEXT_def u8_last_def u8_lead3_def u8_lead4_def Let_def)
qed

section \<open>Properties\<close>

text \<open>
  C21. The UTF-8 decoder accepts exactly the well-formed encodings: on a non-empty string it
  returns, and it returns a code point \<open>c\<close> other than the error sentinel if and only if \<open>c\<close> is a
  Unicode scalar value and the string starts with the shortest encoding of \<open>c\<close>, whose length is
  the reported size. Overlong forms, surrogates and truncated sequences are errors.
\<close>

theorem utf8_decode_correct:
  assumes "s \<noteq> []"
  shows "(\<exists>n c. ts_decode_utf8 s = Some (n, c)) \<and>
    (ts_decode_utf8 s = Some (n, c) \<and> c \<noteq> TS_DECODE_ERROR \<longleftrightarrow>
     scalar_value c \<and> n = length (U8_APPEND_UNSAFE c) \<and> take n s = U8_APPEND_UNSAFE c)"
proof -
  have "U8_NEXT s = (n, c) \<and> c \<noteq> TS_DECODE_ERROR" if "scalar_value c"
    "n = length (U8_APPEND_UNSAFE c)" "take n s = U8_APPEND_UNSAFE c"
    using decode_encode [OF that(1), of "drop n s"] that append_take_drop_id [of n s]
    by (auto simp: scalar_value_def TS_DECODE_ERROR_def)
  then show ?thesis
    using decode_sound [of s n c] assms by (auto simp: ts_decode_utf8_def split: prod.splits)
qed

theorem utf8_decode_correct_witness:
  "ts_decode_utf8 [0xe2, 0x82, 0xac, 0x41] = Some (3, 0x20ac) \<and> 0x20ac \<noteq> TS_DECODE_ERROR"
  by (rule utf8_decode_correct [THEN conjunct2, THEN iffD2])
    (simp_all add: scalar_value_def U8_APPEND_UNSAFE_def drop_bit_eq_div)

text \<open>The two code units of a supplementary code point.\<close>

definition lead_of :: "int \<Rightarrow> int" where
  "lead_of c = 0xd800 + (c - 0x10000) div 0x400"

definition trail_of :: "int \<Rightarrow> int" where
  "trail_of c = 0xdc00 + (c - 0x10000) mod 0x400"

lemma and_push_bit: "c AND push_bit n m = push_bit n (drop_bit n c AND (m::int))"
  by (rule bit_eqI) (auto simp: bit_simps)

lemma surrogate_mask:
  fixes c :: int
  assumes "0 \<le> c" "c < 0x10000"
  shows "c AND 0xfffffc00 = 1024 * (c div 1024)"
proof -
  have "0 \<le> c div 1024" "c div 1024 < 64" using assms by linarith+
  then have "c div 1024 AND 0x3fffff = c div 1024"
    using take_bit_eq_mask [of 22 "c div 1024"]
    by (simp add: take_bit_int_eq_self mask_eq_exp_minus_1)
  then show ?thesis
    using and_push_bit [of c 10 "0x3fffff"] by (simp add: push_bit_eq_mult drop_bit_eq_div)
qed

lemma surrogate_tests:
  assumes "0 \<le> c" "c < 0x10000"
  shows "U16_IS_LEAD c \<longleftrightarrow> 0xd800 \<le> c \<and> c < 0xdc00"
    and "U16_IS_TRAIL c \<longleftrightarrow> 0xdc00 \<le> c \<and> c < 0xe000"
proof -
  have "1024 * q = 0xd800 \<longleftrightarrow> q = 54" "1024 * q = 0xdc00 \<longleftrightarrow> q = 55" for q :: int by auto
  moreover have "c div 1024 = 54 \<longleftrightarrow> 0xd800 \<le> c \<and> c < 0xdc00"
    "c div 1024 = 55 \<longleftrightarrow> 0xdc00 \<le> c \<and> c < 0xe000" by auto
  ultimately show "U16_IS_LEAD c \<longleftrightarrow> 0xd800 \<le> c \<and> c < 0xdc00"
    and "U16_IS_TRAIL c \<longleftrightarrow> 0xdc00 \<le> c \<and> c < 0xe000"
    by (simp_all only: U16_IS_LEAD_def U16_IS_TRAIL_def surrogate_mask [OF assms])
qed

definition utf16_unit_bytes :: "int \<Rightarrow> u8 \<times> u8" where
  "utf16_unit_bytes u = (word_of_int (u mod 256), word_of_int (u div 256))"

definition encode_utf16_le :: "int \<Rightarrow> u8 list" where
  "encode_utf16_le c =
     [fst (utf16_unit_bytes (lead_of c)), snd (utf16_unit_bytes (lead_of c)),
      fst (utf16_unit_bytes (trail_of c)), snd (utf16_unit_bytes (trail_of c))]"

definition encode_utf16_be :: "int \<Rightarrow> u8 list" where
  "encode_utf16_be c =
     [snd (utf16_unit_bytes (lead_of c)), fst (utf16_unit_bytes (lead_of c)),
      snd (utf16_unit_bytes (trail_of c)), fst (utf16_unit_bytes (trail_of c))]"

lemma lead_trail_bounds:
  assumes "0x10000 \<le> c" "c \<le> 0x10ffff"
  shows "0xd800 \<le> lead_of c" "lead_of c < 0xdc00" "0xdc00 \<le> trail_of c" "trail_of c < 0xe000"
    "U16_GET_SUPPLEMENTARY (lead_of c) (trail_of c) = c"
  using assms
  by (simp_all add: lead_of_def trail_of_def U16_GET_SUPPLEMENTARY_def U16_SURROGATE_OFFSET_def
      push_bit_eq_mult mult_div_mod_eq)

lemma unit_bytes:
  assumes "0 \<le> u" "u < 0x10000"
  shows "uint (fst (utf16_unit_bytes u)) = u mod 256" "uint (snd (utf16_unit_bytes u)) = u div 256"
  using assms by (simp_all add: utf16_unit_bytes_def uint_word_of_int_u8)

lemma bswap16_unit: "0 \<le> u \<Longrightarrow> u < 0x10000 \<Longrightarrow> bswap16 (u div 256 + 256 * (u mod 256)) = u"
  by (simp add: bswap16_def)

text \<open>
  UTF-16 surrogate pairs. The little-endian decoder reads the two units of a supplementary
  code point back as that code point, four bytes long. The big-endian decoder does not convert
  the second unit from big-endian before it tests and uses it: for every supplementary code point
  whose trail unit does not have a low byte in \<open>0xdc..0xdf\<close> it returns the lone lead surrogate with
  size two.
\<close>

theorem utf16_surrogate_pairs:
  assumes "0x10000 \<le> c" "c \<le> 0x10ffff"
  shows "ts_decode_utf16_le (encode_utf16_le c @ rest) = Some (4, c) \<and>
    (\<not> (0xdc \<le> trail_of c mod 256 \<and> trail_of c mod 256 \<le> 0xdf) \<longrightarrow>
      ts_decode_utf16_be (encode_utf16_be c @ rest) = Some (2, lead_of c))"
proof -
  note b = lead_trail_bounds [OF assms]
  have l: "0 \<le> lead_of c" "lead_of c < 0x10000" and t: "0 \<le> trail_of c" "trail_of c < 0x10000"
    using b by linarith+
  let ?le = "encode_utf16_le c @ rest" and ?be = "encode_utf16_be c @ rest"
  have le: "unit16 ?le 0 = lead_of c" "unit16 ?le (Suc 0) = trail_of c"
    using l t by (simp_all add: unit16_def encode_utf16_le_def unit_bytes)
  have be: "unit16 ?be 0 = lead_of c div 256 + 256 * (lead_of c mod 256)"
    "unit16 ?be (Suc 0) = trail_of c div 256 + 256 * (trail_of c mod 256)"
    using l t by (simp_all add: unit16_def encode_utf16_be_def unit_bytes)
  have len: "\<not> length ?le < 2" "length ?le div 2 \<noteq> Suc 0" "\<not> length ?be < 2"
    by (simp_all add: encode_utf16_le_def encode_utf16_be_def)
  have "ts_decode_utf16_le ?le = Some (4, c)"
    using len b surrogate_tests [OF l] surrogate_tests [OF t]
    by (simp add: ts_decode_utf16_le_def U16_NEXT_LE_def le Let_def del: length_append)
  moreover have "ts_decode_utf16_be ?be = Some (2, lead_of c)"
    if low: "\<not> (0xdc \<le> trail_of c mod 256 \<and> trail_of c mod 256 \<le> 0xdf)"
  proof -
    let ?u = "trail_of c div 256 + 256 * (trail_of c mod 256)"
    have "0 \<le> trail_of c div 256" "trail_of c div 256 < 256" using t by linarith+
    then have "0 \<le> ?u" "?u < 0x10000" "\<not> (0xdc00 \<le> ?u \<and> ?u < 0xe000)"
      using low pos_mod_bound [of 256 "trail_of c"] pos_mod_sign [of 256 "trail_of c"] by linarith+
    then have "\<not> U16_IS_TRAIL (unit16 ?be (Suc 0))"
      unfolding be(2) using surrogate_tests(2) by blast
    then show ?thesis
      using len l by (simp add: ts_decode_utf16_be_def U16_NEXT_BE_def be(1) bswap16_unit Let_def
          del: length_append)
  qed
  ultimately show ?thesis by blast
qed

theorem utf16_surrogate_pairs_witness:
  "ts_decode_utf16_le (encode_utf16_le 0x1f600 @ []) = Some (4, 0x1f600) \<and>
   ts_decode_utf16_be (encode_utf16_be 0x1f600 @ []) = Some (2, 0xd83d)"
  using utf16_surrogate_pairs [of "0x1f600" "[]"] by (simp add: trail_of_def lead_of_def)

end
