(* ===== verification/Lexer.thy ===== *)
theory Lexer
  imports Ranges Unicode "HOL-Library.Monad_Syntax"
begin

text \<open>
  The runtime lexer, \<open>lexer.c\<close>: a cursor over source text that is read in chunks through a callback,
  decoded one code point at a time and restricted to a list of included ranges. Generated parsers
  and external scanners see it through the function pointers of \<open>TSLexer\<close>.

  Every operation returns an \<open>option\<close>, \<open>None\<close> where the C code would read through a null pointer or
  past the array of included ranges. Logging has no effect on the state and is left out, and so
  are \<open>payload\<close> pointers: the read callback is a function of position, the decode callback a function
  of the bytes.
\<close>

section \<open>State\<close>

datatype TSInputEncoding =
  TSInputEncodingUTF8 | TSInputEncodingUTF16LE | TSInputEncodingUTF16BE | TSInputEncodingCustom

record TSInput =
  read :: "u32 \<Rightarrow> TSPoint \<Rightarrow> u8 list"
  encoding :: TSInputEncoding
  decode :: "u8 list \<Rightarrow> (nat \<times> int) option"

record ColumnData =
  column_value :: u32
  column_valid :: bool

text \<open>
  The array \<open>included_ranges\<close> is a list, so \<open>included_range_count\<close> is its length; \<open>chunk\<close> is
  \<open>None\<close> for a null pointer, and \<open>chunk_size\<close> the length of the chunk.
\<close>

record Lexer =
  lookahead :: int
  result_symbol :: u16
  current_position :: Length
  token_start_position :: Length
  token_end_position :: Length
  included_ranges :: "TSRange list"
  chunk :: "u8 list option"
  input :: TSInput
  current_included_range_index :: nat
  chunk_start :: u32
  lookahead_size :: u32
  did_get_column :: bool
  column_data :: ColumnData

definition chunk_size :: "Lexer \<Rightarrow> u32" where
  "chunk_size self = (case chunk self of None \<Rightarrow> 0 | Some c \<Rightarrow> of_nat (length c))"

definition included_range_count :: "Lexer \<Rightarrow> nat" where
  "included_range_count self = length (included_ranges self)"

definition BYTE_ORDER_MARK :: int where
  "BYTE_ORDER_MARK = 0xFEFF"

definition DEFAULT_RANGE :: TSRange where
  "DEFAULT_RANGE =
     \<lparr>start_point = Point 0 0, end_point = Point UINT32_MAX UINT32_MAX,
      start_byte = 0, end_byte = UINT32_MAX\<rparr>"

section \<open>Operations\<close>

definition ts_lexer__set_column_data :: "Lexer \<Rightarrow> u32 \<Rightarrow> Lexer" where
  "ts_lexer__set_column_data self val =
     self\<lparr>column_data := \<lparr>column_value = val, column_valid = True\<rparr>\<rparr>"

definition ts_lexer__increment_column_data :: "Lexer \<Rightarrow> Lexer" where
  "ts_lexer__increment_column_data self =
     (if column_valid (column_data self)
      then self\<lparr>column_data := (column_data self)\<lparr>column_value := column_value (column_data self) + 1\<rparr>\<rparr>
      else self)"

definition ts_lexer__invalidate_column_data :: "Lexer \<Rightarrow> Lexer" where
  "ts_lexer__invalidate_column_data self =
     self\<lparr>column_data := \<lparr>column_value = 0, column_valid = False\<rparr>\<rparr>"

definition ts_lexer__eof :: "Lexer \<Rightarrow> bool" where
  "ts_lexer__eof self \<longleftrightarrow> current_included_range_index self = included_range_count self"

definition ts_lexer__clear_chunk :: "Lexer \<Rightarrow> Lexer" where
  "ts_lexer__clear_chunk self = self\<lparr>chunk := None, chunk_start := 0\<rparr>"

definition ts_lexer__get_chunk :: "Lexer \<Rightarrow> Lexer" where
  "ts_lexer__get_chunk self =
     (let self = self\<lparr>chunk_start := bytes (current_position self)\<rparr>;
          c = read (input self) (bytes (current_position self)) (extent (current_position self))
      in if c = []
         then self\<lparr>current_included_range_index := included_range_count self, chunk := None\<rparr>
         else self\<lparr>chunk := Some c\<rparr>)"

definition ts_lexer__decode :: "Lexer \<Rightarrow> u8 list \<Rightarrow> (nat \<times> int) option" where
  "ts_lexer__decode self =
     (case encoding (input self) of
        TSInputEncodingUTF8 \<Rightarrow> ts_decode_utf8
      | TSInputEncodingUTF16LE \<Rightarrow> ts_decode_utf16_le
      | TSInputEncodingUTF16BE \<Rightarrow> ts_decode_utf16_be
      | TSInputEncodingCustom \<Rightarrow> decode (input self))"

definition set_lookahead :: "Lexer \<Rightarrow> nat \<times> int \<Rightarrow> Lexer" where
  "set_lookahead self r = self\<lparr>lookahead_size := of_nat (fst r), lookahead := snd r\<rparr>"

definition ts_lexer__get_lookahead :: "Lexer \<Rightarrow> Lexer option" where
  "ts_lexer__get_lookahead self =
     (let position_in_chunk = bytes (current_position self) - chunk_start self;
          size = chunk_size self - position_in_chunk
      in if size = 0 then Some (self\<lparr>lookahead_size := 1, lookahead := 0\<rparr>)
         else do {
           text \<leftarrow> chunk self;
           r \<leftarrow> ts_lexer__decode self (drop (unat position_in_chunk) text);
           self \<leftarrow>
             (if snd r = TS_DECODE_ERROR \<and> size < 4
              then (let self = ts_lexer__get_chunk (set_lookahead self r);
                        text = (case chunk self of None \<Rightarrow> [] | Some c \<Rightarrow> c)
                    in do {
                      r \<leftarrow> ts_lexer__decode self text;
                      Some (set_lookahead self r)
                    })
              else Some (set_lookahead self r));
           Some (if lookahead self = TS_DECODE_ERROR then self\<lparr>lookahead_size := 1\<rparr> else self)
         })"

text \<open>The loop of \<open>ts_lexer_goto\<close>: the first non-empty range that ends after the position.\<close>

fun goto_find_range :: "TSRange list \<Rightarrow> nat \<Rightarrow> u32 \<Rightarrow> (nat \<times> TSRange) option" where
  "goto_find_range [] i position = None"
| "goto_find_range (r # rest) i position =
     (if end_byte r > position \<and> end_byte r > start_byte r then Some (i, r)
      else goto_find_range rest (Suc i) position)"

definition ts_lexer_goto :: "Lexer \<Rightarrow> Length \<Rightarrow> Lexer option" where
  "ts_lexer_goto self position =
     (let self = (if bytes position \<noteq> bytes (current_position self)
                  then ts_lexer__invalidate_column_data self else self);
          self = self\<lparr>current_position := position\<rparr>
      in case goto_find_range (included_ranges self) 0 (bytes position) of
           Some (i, r) \<Rightarrow>
             (let self = (if start_byte r \<ge> bytes position
                          then self\<lparr>current_position := \<lparr>bytes = start_byte r, extent = start_point r\<rparr>\<rparr>
                          else self);
                  self = self\<lparr>current_included_range_index := i\<rparr>;
                  self = (if chunk self \<noteq> None \<and>
                             (bytes (current_position self) < chunk_start self \<or>
                              bytes (current_position self) \<ge> chunk_start self + chunk_size self)
                          then ts_lexer__clear_chunk self else self)
              in Some (self\<lparr>lookahead_size := 0, lookahead := 0\<rparr>))
         | None \<Rightarrow>
             (if included_ranges self = [] then None
              else
                (let self = self\<lparr>current_included_range_index := included_range_count self\<rparr>;
                     r = last (included_ranges self);
                     self = self\<lparr>current_position := \<lparr>bytes = end_byte r, extent = end_point r\<rparr>\<rparr>;
                     self = ts_lexer__clear_chunk self
                 in Some (self\<lparr>lookahead_size := 1, lookahead := 0\<rparr>))))"

text \<open>
  The loop of \<open>ts_lexer__do_advance\<close> over the ranges from the current one on. The result is the
  new index and position, and whether \<open>current_range\<close> is not null.
\<close>

fun advance_ranges :: "TSRange list \<Rightarrow> nat \<Rightarrow> Length \<Rightarrow> (nat \<times> Length \<times> bool) option" where
  "advance_ranges [] i position = None"
| "advance_ranges (r # rest) i position =
     (if bytes position \<ge> end_byte r \<or> end_byte r = start_byte r then
        (case rest of [] \<Rightarrow> Some (Suc i, position, False)
         | r' # _ \<Rightarrow>
             advance_ranges rest (Suc i) \<lparr>bytes = start_byte r', extent = start_point r'\<rparr>)
      else Some (i, position, True))"

definition advance_position :: "Lexer \<Rightarrow> Lexer" where
  "advance_position self =
     (if lookahead_size self \<noteq> 0 then
        (let pos = current_position self
         in if lookahead self = 10 then
              (ts_lexer__set_column_data self 0)
                \<lparr>current_position := \<lparr>bytes = bytes pos + lookahead_size self,
                                      extent = Point (row (extent pos) + 1) 0\<rparr>\<rparr>
            else
              (let is_bom = (bytes pos = 0 \<and> lookahead self = BYTE_ORDER_MARK)
               in (if \<not> is_bom then ts_lexer__increment_column_data self else self)
                    \<lparr>current_position :=
                       \<lparr>bytes = bytes pos + lookahead_size self,
                        extent = Point (row (extent pos)) (column (extent pos) + lookahead_size self)\<rparr>\<rparr>))
      else self)"

definition ts_lexer__do_advance :: "Lexer \<Rightarrow> bool \<Rightarrow> Lexer option" where
  "ts_lexer__do_advance self skip =
     (let self = advance_position self
      in do {
        (i, position, has_range) \<leftarrow>
          advance_ranges (drop (current_included_range_index self) (included_ranges self))
            (current_included_range_index self) (current_position self);
        let self = self\<lparr>current_included_range_index := i, current_position := position\<rparr>;
        let self = (if skip then self\<lparr>token_start_position := current_position self\<rparr> else self);
        if has_range then
          ts_lexer__get_lookahead
            (if bytes (current_position self) < chunk_start self \<or>
                bytes (current_position self) \<ge> chunk_start self + chunk_size self
             then ts_lexer__get_chunk self else self)
        else Some ((ts_lexer__clear_chunk self)\<lparr>lookahead := 0, lookahead_size := 1\<rparr>)
      })"

definition ts_lexer__advance :: "Lexer \<Rightarrow> bool \<Rightarrow> Lexer option" where
  "ts_lexer__advance self skip =
     (if chunk self = None then Some self else ts_lexer__do_advance self skip)"

definition ts_lexer__mark_end :: "Lexer \<Rightarrow> Lexer" where
  "ts_lexer__mark_end self =
     (if \<not> ts_lexer__eof self \<and> current_included_range_index self > 0 \<and>
         bytes (current_position self) =
           start_byte (included_ranges self ! current_included_range_index self)
      then (let r = included_ranges self ! (current_included_range_index self - 1)
            in self\<lparr>token_end_position := \<lparr>bytes = end_byte r, extent = end_point r\<rparr>\<rparr>)
      else self\<lparr>token_end_position := current_position self\<rparr>)"

partial_function (option) get_column_loop :: "u32 \<Rightarrow> Lexer \<Rightarrow> Lexer option" where
  "get_column_loop goal_byte self =
     (if bytes (current_position self) < goal_byte \<and> \<not> ts_lexer__eof self \<and> chunk self \<noteq> None
      then Option.bind (ts_lexer__do_advance self False)
             (\<lambda>self. if ts_lexer__eof self then Some self else get_column_loop goal_byte self)
      else Some self)"

definition ts_lexer__get_column :: "Lexer \<Rightarrow> (u32 \<times> Lexer) option" where
  "ts_lexer__get_column self =
     (let self = self\<lparr>did_get_column := True\<rparr>
      in if column_valid (column_data self) then Some (column_value (column_data self), self)
         else do {
           let goal_byte = bytes (current_position self);
           let pos = current_position self;
           self \<leftarrow> ts_lexer_goto self
             \<lparr>bytes = bytes pos - column (extent pos), extent = Point (row (extent pos)) 0\<rparr>;
           let self = ts_lexer__get_chunk (ts_lexer__set_column_data self 0);
           self \<leftarrow> (if \<not> ts_lexer__eof self
                    then Option.bind (ts_lexer__get_lookahead self) (get_column_loop goal_byte)
                    else Some self);
           Some (column_value (column_data self), self)
         })"

definition ts_lexer__is_at_included_range_start :: "Lexer \<Rightarrow> bool" where
  "ts_lexer__is_at_included_range_start self \<longleftrightarrow>
     current_included_range_index self < included_range_count self \<and>
     bytes (current_position self) =
       start_byte (included_ranges self ! current_included_range_index self)"

definition ts_lexer_set_included_ranges :: "Lexer \<Rightarrow> TSRange list \<Rightarrow> (bool \<times> Lexer) option" where
  "ts_lexer_set_included_ranges self ranges =
     (let ranges' = (if ranges = [] then [DEFAULT_RANGE] else ranges)
      in if ranges \<noteq> [] \<and> \<not> ranges_ordered 0 ranges then Some (False, self)
         else do {
           let self = self\<lparr>included_ranges := ranges'\<rparr>;
           self \<leftarrow> ts_lexer_goto self (current_position self);
           Some (True, self)
         })"

text \<open>Fields the initialiser of the source does not name are zero.\<close>

definition null_input :: TSInput where
  "null_input = \<lparr>read = (\<lambda>_ _. []), encoding = TSInputEncodingUTF8, decode = (\<lambda>_. None)\<rparr>"

definition ts_lexer_init :: "Lexer option" where
  "ts_lexer_init = do {
     (_, self) \<leftarrow> ts_lexer_set_included_ranges
       \<lparr>lookahead = 0, result_symbol = 0, current_position = length_zero,
        token_start_position = length_zero, token_end_position = length_zero,
        included_ranges = [], chunk = None, input = null_input,
        current_included_range_index = 0, chunk_start = 0, lookahead_size = 0,
        did_get_column = False,
        column_data = \<lparr>column_value = 0, column_valid = False\<rparr>\<rparr> [];
     Some self
   }"

definition ts_lexer_set_input :: "Lexer \<Rightarrow> TSInput \<Rightarrow> Lexer option" where
  "ts_lexer_set_input self inp =
     (let self = ts_lexer__clear_chunk (self\<lparr>input := inp\<rparr>)
      in ts_lexer_goto self (current_position self))"

definition ts_lexer_reset :: "Lexer \<Rightarrow> Length \<Rightarrow> Lexer option" where
  "ts_lexer_reset self position =
     (if bytes position \<noteq> bytes (current_position self) then ts_lexer_goto self position
      else Some self)"

definition ts_lexer_start :: "Lexer \<Rightarrow> Lexer option" where
  "ts_lexer_start self =
     (let self = self\<lparr>token_start_position := current_position self,
                      token_end_position := LENGTH_UNDEFINED,
                      result_symbol := 0, did_get_column := False\<rparr>
      in if \<not> ts_lexer__eof self then do {
           let self = (if chunk_size self = 0 then ts_lexer__get_chunk self else self);
           self \<leftarrow> (if lookahead_size self = 0 then ts_lexer__get_lookahead self else Some self);
           if bytes (current_position self) = 0 then do {
             self \<leftarrow> (if lookahead self = BYTE_ORDER_MARK then ts_lexer__advance self True
                      else Some self);
             Some (ts_lexer__set_column_data self 0)
           } else Some self
         } else Some self)"

definition ts_lexer_finish :: "Lexer \<Rightarrow> u32 \<Rightarrow> Lexer \<times> u32" where
  "ts_lexer_finish self lookahead_end_byte =
     (let self = (if length_is_undefined (token_end_position self) then ts_lexer__mark_end self
                  else self);
          self = (if bytes (token_end_position self) < bytes (token_start_position self)
                  then self\<lparr>token_start_position := token_end_position self\<rparr> else self);
          current_lookahead_end_byte = bytes (current_position self) + 1;
          current_lookahead_end_byte =
            (if lookahead self = TS_DECODE_ERROR then current_lookahead_end_byte + 4
             else current_lookahead_end_byte)
      in (self, if current_lookahead_end_byte > lookahead_end_byte then current_lookahead_end_byte
                else lookahead_end_byte))"


section \<open>Decoding a text in chunks\<close>

text \<open>
  The code point at the front of a text and the bytes the lexer consumes for it: a byte that does
  not start a well-formed sequence is one error character of one byte.
\<close>

definition next_char :: "u8 list \<Rightarrow> nat \<times> int" where
  "next_char s = (if snd (U8_NEXT s) = TS_DECODE_ERROR then (1, TS_DECODE_ERROR) else U8_NEXT s)"

lemma next_char_bounds:
  assumes "s \<noteq> []"
  shows "0 < fst (next_char s)" "fst (next_char s) \<le> length s" "fst (next_char s) \<le> 4"
  using U8_NEXT_bounds [OF assms] assms by (auto simp: next_char_def Suc_le_eq)

lemma U8_NEXT_good_prefix:
  assumes "snd (U8_NEXT s) \<noteq> TS_DECODE_ERROR" "s \<noteq> []" "take (fst (U8_NEXT s)) s' = take (fst (U8_NEXT s)) s"
  shows "U8_NEXT s' = U8_NEXT s"
proof -
  obtain n c where nc: "U8_NEXT s = (n, c)" by fastforce
  with assms decode_sound [of s n c] have c: "scalar_value c" "n = length (U8_APPEND_UNSAFE c)"
    "take n s' = U8_APPEND_UNSAFE c" by auto
  then have "U8_NEXT s' = (n, c)"
    using decode_encode [OF c(1), of "drop n s'"] append_take_drop_id [of n s'] by simp
  with nc show ?thesis by simp
qed

lemma U8_NEXT_take_good:
  assumes "take m s \<noteq> []" "snd (U8_NEXT (take m s)) \<noteq> TS_DECODE_ERROR"
  shows "U8_NEXT s = U8_NEXT (take m s)"
  using assms U8_NEXT_bounds(2) [OF assms(1)]
  by (intro U8_NEXT_good_prefix) auto

lemma next_char_take:
  assumes "s \<noteq> []" "fst (next_char s) \<le> m"
  shows "next_char (take m s) = next_char s"
proof (cases "snd (U8_NEXT s) = TS_DECODE_ERROR")
  case True
  then have "take m s \<noteq> []" using assms by (auto simp: next_char_def)
  with True have "snd (U8_NEXT (take m s)) = TS_DECODE_ERROR" using U8_NEXT_take_good by metis
  with True show ?thesis by (simp add: next_char_def)
next
  case good: False
  with assms have "U8_NEXT (take m s) = U8_NEXT s"
    by (intro U8_NEXT_good_prefix) (auto simp: min_def next_char_def)
  with good show ?thesis by (simp add: next_char_def)
qed

text \<open>Only the newline character contains the byte 10.\<close>

lemma newlines_zero: "list_all (\<lambda>b. b \<noteq> 10) s \<Longrightarrow> newlines s = 0"
  by (induction s) auto

lemma encode_bytes_high:
  assumes "scalar_value c" "128 \<le> c"
  shows "newlines (U8_APPEND_UNSAFE c) = 0"
proof -
  have high: "(word_of_int (x + k) :: u8) \<noteq> 10" if "0 \<le> x" "128 \<le> k" "x + k < 256" for x k
  proof
    assume "(word_of_int (x + k) :: u8) = 10"
    then have "x + k = 10" using uint_word_of_int_u8 [of "x + k"] that by (simp del: of_int_add)
    with that show False by simp
  qed
  have "(word_of_int (x mod 64 + 0x80) :: u8) \<noteq> 10" for x
    by (rule high) (simp_all add: order_less_le_trans [OF pos_mod_bound])
  moreover note high
  moreover have "0 \<le> c div 64" "0 \<le> c div 4096" "0 \<le> c div 262144" "c div 262144 + 0xf0 < 256"
    "c < 0x800 \<Longrightarrow> c div 64 + 0xc0 < 256" "c < 0x10000 \<Longrightarrow> c div 4096 + 0xe0 < 256"
    using assms by (auto simp: scalar_value_def)
  ultimately show ?thesis
    using assms by (intro newlines_zero) (auto simp: encode_eq scalar_value_def simp del: of_int_add)
qed

lemma next_char_newlines:
  assumes "s \<noteq> []" "next_char s = (n, c)"
  shows "c = 10 \<Longrightarrow> take n s = [10] \<and> n = 1" and "c \<noteq> 10 \<Longrightarrow> newlines (take n s) = 0"
proof -
  obtain b s' where s: "s = b # s'" using assms(1) by (cases s) auto
  have "(c = 10 \<longrightarrow> take n s = [10] \<and> n = 1) \<and> (c \<noteq> 10 \<longrightarrow> newlines (take n s) = 0)"
  proof (cases "snd (U8_NEXT s) = TS_DECODE_ERROR")
    case True
    moreover have "uint b \<noteq> - 1" using uint_u8(1) [of b] by linarith
    ultimately have "\<not> uint b < 128"
      using s by (simp add: U8_NEXT_eq Let_def TS_DECODE_ERROR_def split: if_splits)
    then have "b \<noteq> 10" by auto
    with True assms s show ?thesis by (auto simp: next_char_def TS_DECODE_ERROR_def)
  next
    case False
    then have "U8_NEXT s = (n, c)" using assms(2) by (simp add: next_char_def)
    with False have c: "scalar_value c" "n = length (U8_APPEND_UNSAFE c)" "take n s = U8_APPEND_UNSAFE c"
      using decode_sound assms(1) by auto
    show ?thesis
    proof (cases "c < 128")
      case True
      then have "U8_APPEND_UNSAFE c = [word_of_int c]" "0 \<le> c"
        using c(1) by (auto simp: encode_eq scalar_value_def)
      moreover have "(word_of_int c :: u8) = 10 \<longleftrightarrow> c = 10"
        using uint_word_of_int_u8 [of c] True \<open>0 \<le> c\<close> by auto
      ultimately show ?thesis using c by auto
    next
      case high: False
      then show ?thesis using c encode_bytes_high [OF c(1)] by auto
    qed
  qed
  then show "c = 10 \<Longrightarrow> take n s = [10] \<and> n = 1" and "c \<noteq> 10 \<Longrightarrow> newlines (take n s) = 0"
    by blast+
qed

section \<open>The lexer over a text\<close>

text \<open>
  What the lexer relies on from its read callback for a text \<open>t\<close>: at every offset it returns a
  prefix of the rest of the text that holds at least the whole character that starts there. A chunk may end in the middle of a
  character, as long as the read that starts at this character returns all of it.
\<close>

definition reads_text :: "TSInput \<Rightarrow> u8 list \<Rightarrow> bool" where
  "reads_text inp t \<longleftrightarrow> encoding inp = TSInputEncodingUTF8 \<and> length t < 2 ^ 32 - 1 \<and>
     (\<forall>i p. \<exists>m. read inp i p = take m (drop (unat i) t) \<and>
        (unat i < length t \<longrightarrow> fst (next_char (drop (unat i) t)) \<le> m))"

definition in_chunk :: "u8 list \<Rightarrow> nat \<Rightarrow> Lexer \<Rightarrow> bool" where
  "in_chunk t i l \<longleftrightarrow> (\<exists>c k. chunk l = Some c \<and> chunk_start l = of_nat k \<and> k \<le> i \<and> i < k + length c \<and>
     c = take (length c) (drop k t))"

definition lexer_base :: "u8 list \<Rightarrow> nat \<Rightarrow> Lexer \<Rightarrow> bool" where
  "lexer_base t i l \<longleftrightarrow> reads_text (input l) t \<and> included_ranges l = [DEFAULT_RANGE] \<and> i \<le> length t \<and>
     current_position l = length_of (take i t)"

text \<open>The lexer stands at byte \<open>i\<close> of \<open>t\<close>, with the code point there as its lookahead.\<close>

definition lexer_at :: "u8 list \<Rightarrow> nat \<Rightarrow> Lexer \<Rightarrow> bool" where
  "lexer_at t i l \<longleftrightarrow> lexer_base t i l \<and>
     (if i < length t then
        current_included_range_index l = 0 \<and> in_chunk t i l \<and>
        lookahead_size l = of_nat (fst (next_char (drop i t))) \<and>
        lookahead l = snd (next_char (drop i t))
      else ts_lexer__eof l \<and> chunk l = None \<and> lookahead l = 0)"

lemma reads_text_length: "reads_text inp t \<Longrightarrow> i \<le> length t \<Longrightarrow> i < 2 ^ 32"
  by (simp add: reads_text_def)

lemma get_chunk_at:
  assumes "lexer_base t i l" "i < length t" "current_included_range_index l = 0"
  shows "lexer_base t i (ts_lexer__get_chunk l)"
    and "current_included_range_index (ts_lexer__get_chunk l) = 0"
    and "\<exists>c. chunk (ts_lexer__get_chunk l) = Some c \<and> chunk_start (ts_lexer__get_chunk l) = of_nat i \<and>
      c \<noteq> [] \<and> c = take (length c) (drop i t) \<and> fst (next_char (drop i t)) \<le> length c"
proof -
  have i: "bytes (current_position l) = of_nat i" "unat (of_nat i :: u32) = i"
    using assms by (auto simp: lexer_base_def reads_text_def)
  obtain m where m: "read (input l) (of_nat i) (extent (current_position l)) = take m (drop i t)"
    "fst (next_char (drop i t)) \<le> m"
    using assms(1,2) that i(2) unfolding lexer_base_def reads_text_def by metis
  have n: "0 < fst (next_char (drop i t))" "fst (next_char (drop i t)) \<le> length (drop i t)"
    using next_char_bounds [of "drop i t"] assms(2) by auto
  then have "take m (drop i t) \<noteq> []" using m assms(2) by auto
  with n m i assms show "lexer_base t i (ts_lexer__get_chunk l)"
    and "current_included_range_index (ts_lexer__get_chunk l) = 0"
    and "\<exists>c. chunk (ts_lexer__get_chunk l) = Some c \<and> chunk_start (ts_lexer__get_chunk l) = of_nat i \<and>
      c \<noteq> [] \<and> c = take (length c) (drop i t) \<and> fst (next_char (drop i t)) \<le> length c"
    by (auto simp: ts_lexer__get_chunk_def Let_def lexer_base_def min_def)
qed

lemma decode_utf8_at:
  "reads_text (input l) t \<Longrightarrow> s \<noteq> [] \<Longrightarrow> ts_lexer__decode l s = Some (U8_NEXT s)"
  by (simp add: reads_text_def ts_lexer__decode_def ts_decode_utf8_def)

lemma window_drop:
  assumes "c = take (length c) (drop k t)" "k \<le> i"
  shows "drop (i - k) c = take (length c - (i - k)) (drop i t)"
proof -
  have "drop (i - k) c = drop (i - k) (take (length c) (drop k t))"
    by (rule arg_cong [OF assms(1)])
  also have "\<dots> = take (length c - (i - k)) (drop i t)"
    using assms(2) by (simp add: drop_take)
  finally show ?thesis .
qed

text \<open>Storing a decoded code point makes the lexer stand at it.\<close>

lemma set_lookahead_at:
  assumes "lexer_base t i l" "i < length t" "current_included_range_index l = 0" "in_chunk t i l"
    and "next_char s = next_char (drop i t)"
  shows "lexer_at t i (if lookahead (set_lookahead l (U8_NEXT s)) = TS_DECODE_ERROR
      then (set_lookahead l (U8_NEXT s))\<lparr>lookahead_size := 1\<rparr> else set_lookahead l (U8_NEXT s))"
  using assms
  by (auto simp: lexer_at_def lexer_base_def in_chunk_def set_lookahead_def next_char_def
      split: if_splits dest: sym)

lemma in_chunk_position:
  assumes "lexer_base t i l" "in_chunk t i l"
  obtains c n where "chunk l = Some c" "bytes (current_position l) - chunk_start l = of_nat n"
    "n < 2 ^ 32" "chunk_size l - of_nat n = of_nat (length (drop n c))" "drop n c \<noteq> []"
    "length (drop n c) < 2 ^ 32" "drop n c = take (length (drop n c)) (drop i t)"
proof -
  obtain c k where c: "chunk l = Some c" "chunk_start l = of_nat k" "k \<le> i" "i < k + length c"
    "c = take (length c) (drop k t)"
    using assms(2) by (auto simp: in_chunk_def)
  define n where "n = i - k"
  have n: "n < length c" "i = k + n" using c n_def by auto
  have pos: "bytes (current_position l) = of_nat i" and t: "length t < 2 ^ 32 - 1" "i \<le> length t"
    using assms(1) by (auto simp: lexer_base_def reads_text_def)
  have "length c \<le> length t"
    using arg_cong [OF c(5), of length] by simp
  with t n have bounds: "n < 2 ^ 32" "length (drop n c) < 2 ^ 32" by auto
  have size: "chunk_size l - of_nat n = of_nat (length (drop n c))"
    using c(1) n(1) by (simp add: chunk_size_def of_nat_diff)
  have start: "bytes (current_position l) - chunk_start l = of_nat n"
    using pos c(2) n(2) by simp
  have "drop n c = take (length (drop n c)) (drop i t)"
    using window_drop [OF c(5,3)] unfolding n_def length_drop .
  with that [OF c(1) start bounds(1) size _ bounds(2)] n(1) show thesis by simp
qed

lemma get_lookahead_at:
  assumes base: "lexer_base t i l" and i: "i < length t" and idx: "current_included_range_index l = 0"
    and win: "in_chunk t i l"
  shows "\<exists>l'. ts_lexer__get_lookahead l = Some l' \<and> lexer_at t i l'"
proof -
  obtain c n where c: "chunk l = Some c" "bytes (current_position l) - chunk_start l = of_nat n"
    "n < 2 ^ 32" "chunk_size l - of_nat n = of_nat (length (drop n c))" "drop n c \<noteq> []"
    "length (drop n c) < 2 ^ 32" "drop n c = take (length (drop n c)) (drop i t)"
    using in_chunk_position [OF base win] .
  let ?s = "drop n c"
  have size: "(of_nat (length ?s) :: u32) \<noteq> 0" "(of_nat (length ?s) :: u32) < 4 \<longleftrightarrow> length ?s < 4"
    using of_nat_u32_less [of "length ?s" 4] of_nat_u32_eq_0 [of "length ?s"] c(5,6) by auto
  have reads: "reads_text (input l) t" using base by (simp add: lexer_base_def)
  have unfold: "ts_lexer__get_lookahead l = do {
      self \<leftarrow> (if snd (U8_NEXT ?s) = TS_DECODE_ERROR \<and> length ?s < 4
               then (let self = ts_lexer__get_chunk (set_lookahead l (U8_NEXT ?s));
                         text = (case chunk self of None \<Rightarrow> [] | Some c \<Rightarrow> c)
                     in do { r \<leftarrow> ts_lexer__decode self text; Some (set_lookahead self r) })
               else Some (set_lookahead l (U8_NEXT ?s)));
      Some (if lookahead self = TS_DECODE_ERROR then self\<lparr>lookahead_size := 1\<rparr> else self) }"
    using size decode_utf8_at [OF reads c(5)] unat_of_nat_small [OF c(3)]
    by (simp only: ts_lexer__get_lookahead_def Let_def c(1,2,4) if_False bind.simps)
  have base': "lexer_base t i (set_lookahead l r)" "current_included_range_index (set_lookahead l r) = 0"
    for r
    using base idx by (auto simp: lexer_base_def set_lookahead_def)
  show ?thesis
  proof (cases "snd (U8_NEXT ?s) = TS_DECODE_ERROR \<and> length ?s < 4")
    case True
    let ?l = "ts_lexer__get_chunk (set_lookahead l (U8_NEXT ?s))"
    note fresh = get_chunk_at [OF base'(1) i base'(2), of "U8_NEXT ?s"]
    obtain d where d: "chunk ?l = Some d" "chunk_start ?l = of_nat i" "d \<noteq> []"
      "d = take (length d) (drop i t)" "fst (next_char (drop i t)) \<le> length d"
      using fresh(3) by blast
    have "next_char d = next_char (drop i t)"
      using next_char_take [of "drop i t" "length d"] d(4,5) i by simp
    moreover have "in_chunk t i ?l" unfolding in_chunk_def using d by auto
    ultimately have "lexer_at t i (if lookahead (set_lookahead ?l (U8_NEXT d)) = TS_DECODE_ERROR
        then (set_lookahead ?l (U8_NEXT d))\<lparr>lookahead_size := 1\<rparr> else set_lookahead ?l (U8_NEXT d))"
      by (intro set_lookahead_at fresh(1,2) i)
    moreover have "ts_lexer__decode ?l d = Some (U8_NEXT d)"
      using decode_utf8_at fresh(1) d(3) by (auto simp: lexer_base_def)
    ultimately show ?thesis
      unfolding unfold using True d(1) by (simp add: Let_def)
  next
    case False
    have "next_char ?s = next_char (drop i t)"
    proof (cases "snd (U8_NEXT ?s) = TS_DECODE_ERROR")
      case True
      with False have "4 \<le> length ?s" by simp
      then show ?thesis
        using next_char_take [of "drop i t" "length ?s"] next_char_bounds(3) [of "drop i t"] c(7) i by simp
    next
      case good: False
      then show ?thesis
        using U8_NEXT_take_good [of "length ?s" "drop i t"] c(5,7) i by (simp add: next_char_def)
    qed
    then show ?thesis
      unfolding unfold using False set_lookahead_at [OF base i idx win] by (simp only: if_False) auto
  qed
qed

text \<open>Advancing consumes the current code point and reads the next one.\<close>

lemma advance_position_at:
  assumes at: "lexer_at t i l" and i: "i < length t"
  defines "n \<equiv> fst (next_char (drop i t))"
  shows "lexer_base t (i + n) (advance_position l)"
    and "current_included_range_index (advance_position l) = 0"
    and "chunk (advance_position l) = chunk l" and "chunk_start (advance_position l) = chunk_start l"
proof -
  obtain c where c: "next_char (drop i t) = (n, c)" unfolding n_def by (metis prod.collapse)
  have ne: "drop i t \<noteq> []" using i by simp
  have n: "0 < n" "i + n \<le> length t" "n \<le> 4"
    using next_char_bounds [OF ne] i unfolding n_def by auto
  have l: "lookahead_size l = of_nat n" "lookahead l = c" "reads_text (input l) t"
    "included_ranges l = [DEFAULT_RANGE]" "current_position l = length_of (take i t)"
    "current_included_range_index l = 0"
    using at i c by (auto simp: lexer_at_def lexer_base_def)
  have size: "(of_nat n :: u32) \<noteq> 0" using of_nat_u32_eq_0 [of n] n by simp
  have split: "take (i + n) t = take i t @ take n (drop i t)" by (simp add: take_add)
  have "current_position (advance_position l) = length_of (take (i + n) t)"
  proof (cases "c = 10")
    case True
    with next_char_newlines(1) [OF ne c] have "take n (drop i t) = [10]" "n = 1" by auto
    with True l size show ?thesis
      unfolding split
      by (simp add: advance_position_def Let_def length_of_def tail_column_append
          ts_lexer__set_column_data_def)
  next
    case False
    with next_char_newlines(2) [OF ne c] have nl: "newlines (take n (drop i t)) = 0" by blast
    have "length (take n (drop i t)) = n" "length (take i t) = i" using n by auto
    with nl False l size show ?thesis
      unfolding split
      by (simp add: advance_position_def Let_def length_of_def tail_column_append
          ts_lexer__increment_column_data_def del: length_take)
  qed
  then show "lexer_base t (i + n) (advance_position l)"
    using l n by (auto simp: lexer_base_def advance_position_def Let_def
        ts_lexer__set_column_data_def ts_lexer__increment_column_data_def)
  show "current_included_range_index (advance_position l) = 0"
    "chunk (advance_position l) = chunk l" "chunk_start (advance_position l) = chunk_start l"
    using l(6) by (auto simp: advance_position_def Let_def
        ts_lexer__set_column_data_def ts_lexer__increment_column_data_def)
qed

lemma read_eof:
  "lexer_base t (length t) l \<Longrightarrow> read (input l) (bytes (current_position l)) p = []"
proof -
  assume "lexer_base t (length t) l"
  then have "bytes (current_position l) = of_nat (length t)" "unat (of_nat (length t) :: u32) = length t"
    "\<forall>i p. \<exists>m. read (input l) i p = take m (drop (unat i) t)"
    by (auto simp: lexer_base_def reads_text_def)
  then show ?thesis by (metis append_eq_conv_conj drop_eq_Nil2 order_refl take_Nil)
qed

text \<open>Reading the lookahead after a move: from the current chunk, a new one, or at the end of the text.\<close>

lemma get_lookahead_after_move:
  assumes base: "lexer_base t i l" and idx: "current_included_range_index l = 0"
    and win: "\<not> need \<Longrightarrow> in_chunk t i l" and need: "i = length t \<Longrightarrow> need"
  shows "\<exists>l'. ts_lexer__get_lookahead (if need then ts_lexer__get_chunk l else l) = Some l' \<and> lexer_at t i l'"
proof (cases "i < length t")
  case True
  obtain c where "chunk (ts_lexer__get_chunk l) = Some c" "chunk_start (ts_lexer__get_chunk l) = of_nat i"
    "c \<noteq> []" "c = take (length c) (drop i t)"
    using get_chunk_at(3) [OF base True idx] by blast
  then have "in_chunk t i (ts_lexer__get_chunk l)"
    unfolding in_chunk_def by (intro exI [of _ c] exI [of _ i]) auto
  then show ?thesis
    using get_lookahead_at [OF get_chunk_at(1) [OF base True idx] True get_chunk_at(2) [OF base True idx]]
      get_lookahead_at [OF base True idx win]
    by auto
next
  case False
  with base have "i = length t" by (simp add: lexer_base_def)
  with need base read_eof [of t l] show ?thesis
    by (auto simp: ts_lexer__get_lookahead_def ts_lexer__get_chunk_def chunk_size_def Let_def
        lexer_at_def lexer_base_def ts_lexer__eof_def included_range_count_def)
qed

lemma advance_at:
  assumes at: "lexer_at t i l" and i: "i < length t"
  shows "\<exists>l'. ts_lexer__advance l skip = Some l' \<and> lexer_at t (i + fst (next_char (drop i t))) l'"
proof -
  let ?n = "fst (next_char (drop i t))" and ?l = "advance_position l"
  note adv = advance_position_at [OF at i]
  obtain c k where c: "chunk l = Some c" "chunk_start l = of_nat k" "k \<le> i" "i < k + length c"
    "c = take (length c) (drop k t)"
    using at i by (auto simp: lexer_at_def in_chunk_def)
  let ?m = "\<lambda>l. if skip then l\<lparr>current_included_range_index := 0, token_start_position := current_position l\<rparr>
      else l\<lparr>current_included_range_index := 0\<rparr>"
  let ?need = "bytes (current_position ?l) < chunk_start ?l \<or>
      bytes (current_position ?l) \<ge> chunk_start ?l + chunk_size ?l"
  have len: "length t < 2 ^ 32 - 1" "i + ?n \<le> length t"
    using adv(1) by (auto simp: lexer_base_def reads_text_def)
  have pos: "bytes (current_position ?l) = of_nat (i + ?n)" "included_ranges ?l = [DEFAULT_RANGE]"
    using adv(1) len(2) by (auto simp: lexer_base_def)
  have "k + length c \<le> length t"
    using arg_cong [OF c(5), of length] c(3) i by simp
  then have need: "?need \<longleftrightarrow> \<not> i + ?n < k + length c"
    using len c(1-4) adv(3,4) pos(1)
    by (auto simp: chunk_size_def of_nat_u32_less of_nat_u32_le not_less simp flip: of_nat_add)
  have ranges: "advance_ranges [DEFAULT_RANGE] 0 (current_position ?l) = Some (0, current_position ?l, True)"
    using len pos(1) of_nat_u32_le [of "2 ^ 32 - 1" "i + ?n"] by (auto simp: DEFAULT_RANGE_def)
  have "ts_lexer__advance l skip = ts_lexer__get_lookahead
      (if ?need then ts_lexer__get_chunk (?m ?l) else ?m ?l)"
    using ranges c(1) adv(2) pos(2)
    by (simp add: ts_lexer__advance_def ts_lexer__do_advance_def Let_def chunk_size_def del: advance_ranges.simps)
  moreover have "lexer_base t (i + ?n) (?m ?l)" "current_included_range_index (?m ?l) = 0"
    using adv by (auto simp: lexer_base_def)
  moreover have "in_chunk t (i + ?n) (?m ?l)" if "\<not> ?need"
    using that c adv(3,4) unfolding need in_chunk_def
    by (intro exI [of _ c] exI [of _ k]) auto
  moreover have "?need" if "i + ?n = length t"
    unfolding need using that \<open>k + length c \<le> length t\<close> by simp
  ultimately show ?thesis using get_lookahead_after_move [of t "i + ?n" "?m ?l" ?need] by metis
qed

lemma advance_at_eof: "lexer_at t (length t) l \<Longrightarrow> ts_lexer__advance l skip = Some l"
  by (simp add: lexer_at_def ts_lexer__advance_def)

text \<open>
  Starting to lex: from the initial state, after \<open>set_input\<close>, the lexer stands at the first
  character behind an initial byte order mark.
\<close>

definition start_lexer :: "TSInput \<Rightarrow> Lexer option" where
  "start_lexer inp = do {
     l \<leftarrow> ts_lexer_init;
     l \<leftarrow> ts_lexer_set_input l inp;
     ts_lexer_start l
   }"

definition bom_size :: "u8 list \<Rightarrow> nat" where
  "bom_size t = (if take 3 t = [0xEF, 0xBB, 0xBF] then 3 else 0)"

lemma bom_encoding: "U8_APPEND_UNSAFE BYTE_ORDER_MARK = [0xEF, 0xBB, 0xBF]"
  by (simp add: encode_eq BYTE_ORDER_MARK_def)

lemma next_char_bom:
  assumes "t \<noteq> []"
  shows "snd (next_char t) = BYTE_ORDER_MARK \<longleftrightarrow> bom_size t = 3"
    and "snd (next_char t) = BYTE_ORDER_MARK \<Longrightarrow> fst (next_char t) = 3"
proof -
  have bom: "BYTE_ORDER_MARK \<noteq> TS_DECODE_ERROR" "scalar_value BYTE_ORDER_MARK"
    by (auto simp: BYTE_ORDER_MARK_def TS_DECODE_ERROR_def scalar_value_def)
  have fwd: "take 3 t = [0xEF, 0xBB, 0xBF] \<and> fst (next_char t) = 3"
    if "snd (next_char t) = BYTE_ORDER_MARK"
    using that bom assms decode_sound [of t "fst (U8_NEXT t)" "snd (U8_NEXT t)"] bom_encoding
    by (auto simp: next_char_def numeral_3_eq_3 split: if_splits)
  have bwd: "snd (next_char t) = BYTE_ORDER_MARK" if "take 3 t = [0xEF, 0xBB, 0xBF]"
    using decode_encode [OF bom(2), of "drop 3 t"] that bom(1) append_take_drop_id [of 3 t]
    by (simp add: bom_encoding next_char_def)
  show "snd (next_char t) = BYTE_ORDER_MARK \<longleftrightarrow> bom_size t = 3"
    using fwd bwd by (auto simp: bom_size_def)
  show "snd (next_char t) = BYTE_ORDER_MARK \<Longrightarrow> fst (next_char t) = 3"
    using fwd by blast
qed

lemma lexer_at_flags:
  "lexer_at t i (ts_lexer__set_column_data l v) = lexer_at t i l"
  by (simp add: lexer_at_def lexer_base_def in_chunk_def ts_lexer__eof_def included_range_count_def
      ts_lexer__set_column_data_def)

text \<open>The state \<open>ts_lexer_start\<close> meets: at the start, with no chunk read yet.\<close>

definition fresh_lexer :: "TSInput \<Rightarrow> Lexer" where
  "fresh_lexer inp =
     \<lparr>lookahead = 0, result_symbol = 0, current_position = length_zero,
      token_start_position = length_zero, token_end_position = length_zero,
      included_ranges = [DEFAULT_RANGE], chunk = None, input = inp,
      current_included_range_index = 0, chunk_start = 0, lookahead_size = 0,
      did_get_column = False, column_data = \<lparr>column_value = 0, column_valid = False\<rparr>\<rparr>"

lemma start_lexer_fresh: "start_lexer inp = ts_lexer_start (fresh_lexer inp)"
  by (simp add: start_lexer_def ts_lexer_init_def ts_lexer_set_included_ranges_def Let_def
      ts_lexer_goto_def DEFAULT_RANGE_def length_zero_def ts_lexer_set_input_def
      ts_lexer__clear_chunk_def fresh_lexer_def)

lemma start_lexer_at:
  assumes reads: "reads_text inp t"
  shows "\<exists>l. start_lexer inp = Some l \<and> lexer_at t (bom_size t) l"
proof -
  define l where "l = (fresh_lexer inp)\<lparr>token_end_position := LENGTH_UNDEFINED\<rparr>"
  have base: "lexer_base t 0 l" "current_included_range_index l = 0"
    using reads by (auto simp: lexer_base_def l_def fresh_lexer_def)
  obtain l' where l': "ts_lexer__get_lookahead (ts_lexer__get_chunk l) = Some l'" "lexer_at t 0 l'"
    using get_lookahead_after_move [OF base, of True] by auto
  have zero: "bytes (current_position (ts_lexer__get_chunk l)) = 0"
    "lookahead_size (ts_lexer__get_chunk l) = 0" "bytes (current_position l') = 0"
    using l'(2) by (auto simp: l_def fresh_lexer_def ts_lexer__get_chunk_def Let_def length_zero_def
        lexer_at_def lexer_base_def)
  have start: "start_lexer inp = do {
      self \<leftarrow> (if lookahead l' = BYTE_ORDER_MARK then ts_lexer__advance l' True else Some l');
      Some (ts_lexer__set_column_data self 0) }"
    unfolding start_lexer_fresh ts_lexer_start_def Let_def
    using l'(1) zero unfolding l_def
    by (simp add: fresh_lexer_def ts_lexer__eof_def included_range_count_def chunk_size_def)
  show ?thesis
  proof (cases "t = []")
    case True
    with l'(2) show ?thesis
      by (simp add: start lexer_at_flags) (simp add: lexer_at_def BYTE_ORDER_MARK_def bom_size_def)
  next
    case False
    then have "lookahead l' = snd (next_char t)" using l'(2) by (simp add: lexer_at_def)
    with False next_char_bom [OF False] l'(2) advance_at [OF l'(2), of True] show ?thesis
      by (auto simp: start lexer_at_flags bom_size_def)
  qed
qed

section \<open>The lexer reads exactly the text\<close>

text \<open>A client that advances to the end of the input, and what the text says it sees.\<close>

fun read_all :: "nat \<Rightarrow> Lexer \<Rightarrow> (int \<times> Length) list option" where
  "read_all 0 l = None"
| "read_all (Suc n) l =
     (if ts_lexer__eof l then Some []
      else do {
        l' \<leftarrow> ts_lexer__advance l False;
        rest \<leftarrow> read_all n l';
        Some ((lookahead l, current_position l) # rest)
      })"

function text_chars :: "u8 list \<Rightarrow> nat \<Rightarrow> (int \<times> Length) list" where
  "text_chars t i =
     (if i < length t
      then (snd (next_char (drop i t)), length_of (take i t)) # text_chars t (i + fst (next_char (drop i t)))
      else [])"
  by auto
termination
proof (relation "measure (\<lambda>(t, i). length t - i)")
  fix t :: "u8 list" and i
  assume "i < length t"
  with next_char_bounds(1) [of "drop i t"]
  show "((t, i + fst (next_char (drop i t))), t, i) \<in> measure (\<lambda>(t, i). length t - i)"
    by simp
qed simp

declare text_chars.simps [simp del]

lemma read_all_at:
  "lexer_at t i l \<Longrightarrow> length t - i < n \<Longrightarrow> read_all n l = Some (text_chars t i)"
proof (induction n arbitrary: i l)
  case (Suc n)
  show ?case
  proof (cases "i < length t")
    case True
    then have "\<not> ts_lexer__eof l" "lookahead l = snd (next_char (drop i t))"
      "current_position l = length_of (take i t)"
      using Suc.prems(1)
      by (auto simp: lexer_at_def lexer_base_def ts_lexer__eof_def included_range_count_def)
    moreover obtain l' where "ts_lexer__advance l False = Some l'"
      "lexer_at t (i + fst (next_char (drop i t))) l'"
      using advance_at [OF Suc.prems(1) True] by blast
    moreover have "length t - (i + fst (next_char (drop i t))) < n"
      using next_char_bounds(1) [of "drop i t"] True Suc.prems(2) by simp
    ultimately show ?thesis
      using Suc.IH True by (simp add: text_chars.simps [of t i])
  next
    case False
    then show ?thesis using Suc.prems(1) by (simp add: lexer_at_def text_chars.simps [of t i])
  qed
qed simp

lemma text_chars_encode:
  assumes "list_all scalar_value cs"
  shows "map fst (text_chars (p @ concat (map U8_APPEND_UNSAFE cs)) (length p)) = cs"
  using assms
proof (induction cs arbitrary: p)
  case (Cons c cs)
  let ?e = "U8_APPEND_UNSAFE c" and ?r = "concat (map U8_APPEND_UNSAFE cs)"
  have c: "U8_NEXT (?e @ ?r) = (length ?e, c)" using decode_encode Cons.prems by simp
  moreover have "c \<noteq> TS_DECODE_ERROR" using Cons.prems by (auto simp: TS_DECODE_ERROR_def scalar_value_def)
  ultimately have "next_char (?e @ ?r) = (length ?e, c)" by (simp add: next_char_def)
  moreover have "?e \<noteq> []" by (simp add: U8_APPEND_UNSAFE_def)
  ultimately show ?case
    using Cons.IH [of "p @ ?e"] Cons.prems
    by (simp add: text_chars.simps [of "p @ ?e @ ?r" "length p"])
qed (simp add: text_chars.simps)

text \<open>
  C1. A UTF-8 text of fewer than \<open>2 ^ 32 - 1\<close> bytes is read in chunks of any sizes, as long as each read returns at least
  the whole character at its offset. Then a lexer started on it sees each code
  point of the text once and in order, ill-formed bytes as single error characters, each at the
  byte offset, row and column where it stands, and then reports the end of the input; a byte order
  mark at the very start is skipped. The condition on the reads is needed: see \<open>short_chunks_split_characters\<close>.
\<close>

theorem lexer_reads_text:
  assumes "reads_text inp t"
  shows "\<exists>l. start_lexer inp = Some l \<and>
    read_all (Suc (length t)) l = Some (text_chars t (bom_size t))"
proof -
  obtain l where "start_lexer inp = Some l" "lexer_at t (bom_size t) l"
    using start_lexer_at [OF assms] by blast
  then show ?thesis using read_all_at [of t "bom_size t" l "Suc (length t)"] by auto
qed

theorem lexer_reads_text_witness:
  "\<exists>l. start_lexer \<lparr>read = (\<lambda>i p. take 3 (drop (unat i) [0xEF, 0xBB, 0xBF, 97, 10, 0xFF])),
                      encoding = TSInputEncodingUTF8, decode = (\<lambda>_. None)\<rparr> = Some l \<and>
     read_all 7 l = Some [(97, \<lparr>bytes = 3, extent = Point 0 3\<rparr>), (10, \<lparr>bytes = 4, extent = Point 0 4\<rparr>),
       (TS_DECODE_ERROR, \<lparr>bytes = 5, extent = Point 1 0\<rparr>)]"
proof -
  let ?t = "[0xEF, 0xBB, 0xBF, 97, 10, 0xFF] :: u8 list"
  let ?inp = "\<lparr>read = (\<lambda>i p. take 3 (drop (unat i) ?t)), encoding = TSInputEncodingUTF8,
    decode = (\<lambda>_. None)\<rparr>"
  have "list_all (\<lambda>i. fst (next_char (drop i ?t)) \<le> 3) [0..<6]" by code_simp
  then have "fst (next_char (drop i ?t)) \<le> 3" if "i < 6" for i using that by (simp only: list_all_iff set_upt) auto
  then have "reads_text ?inp ?t" unfolding reads_text_def by (auto simp del: drop_Cons' intro!: exI [of _ 3])
  moreover have "Suc (length ?t) = 7" by simp
  moreover have "text_chars ?t (bom_size ?t) =
      [(97, \<lparr>bytes = 3, extent = Point 0 3\<rparr>), (10, \<lparr>bytes = 4, extent = Point 0 4\<rparr>),
       (TS_DECODE_ERROR, \<lparr>bytes = 5, extent = Point 1 0\<rparr>)]"
    by (simp add: bom_size_def text_chars.simps next_char_def U8_NEXT_eq length_of_def Let_def
        TS_DECODE_ERROR_def)
  ultimately show ?thesis
    using lexer_reads_text [of ?inp ?t] by (simp only: simp_thms)
qed

text \<open>
  C22. Lexing the UTF-8 encoding of a sequence of Unicode scalar values, in chunks of any sizes where each read returns at least the
  whole character at its offset, yields exactly these values, without the byte order mark if it is the first of them.
\<close>

theorem lexer_reads_encoded:
  assumes "reads_text inp (concat (map U8_APPEND_UNSAFE cs))" "list_all scalar_value cs"
  shows "\<exists>l r. start_lexer inp = Some l \<and>
    read_all (Suc (length (concat (map U8_APPEND_UNSAFE cs)))) l = Some r \<and>
    map fst r = (if cs \<noteq> [] \<and> hd cs = BYTE_ORDER_MARK then tl cs else cs)"
proof -
  let ?t = "concat (map U8_APPEND_UNSAFE cs)"
  have chars: "map fst (text_chars ?t (bom_size ?t)) = (if cs \<noteq> [] \<and> hd cs = BYTE_ORDER_MARK then tl cs else cs)"
  proof (cases cs)
    case (Cons c cs')
    then have t: "?t \<noteq> []" "U8_NEXT ?t = (length (U8_APPEND_UNSAFE c), c)"
      using assms(2) decode_encode by (auto simp: U8_APPEND_UNSAFE_def)
    have c: "c \<noteq> TS_DECODE_ERROR" using Cons assms(2) by (auto simp: TS_DECODE_ERROR_def scalar_value_def)
    with t have nc: "next_char ?t = (length (U8_APPEND_UNSAFE c), c)" by (simp add: next_char_def)
    show ?thesis
    proof (cases "c = BYTE_ORDER_MARK")
      case True
      then have "bom_size ?t = length (U8_APPEND_UNSAFE c)"
        using next_char_bom(1) [OF t(1)] nc by (simp add: bom_size_def encode_eq BYTE_ORDER_MARK_def scalar_value_def split: if_splits)
      then show ?thesis
        using text_chars_encode [of cs' "U8_APPEND_UNSAFE c"] assms(2) Cons True by simp
    next
      case False
      then have "bom_size ?t = 0" using next_char_bom(1) [OF t(1)] nc by (simp add: bom_size_def split: if_splits)
      then show ?thesis using text_chars_encode [OF assms(2), of "[]"] Cons False by simp
    qed
  qed (simp add: bom_size_def text_chars.simps)
  obtain l where "start_lexer inp = Some l" "lexer_at ?t (bom_size ?t) l"
    using start_lexer_at [OF assms(1)] by blast
  with chars show ?thesis using read_all_at [of ?t "bom_size ?t" l "Suc (length ?t)"] by auto
qed

theorem lexer_reads_encoded_witness:
  "\<exists>l r. start_lexer \<lparr>read = (\<lambda>i p. take 4 (drop (unat i) [0xEF, 0xBB, 0xBF, 97, 0xC3, 0xA9])),
       encoding = TSInputEncodingUTF8, decode = (\<lambda>_. None)\<rparr> = Some l \<and>
     read_all 7 l = Some r \<and> map fst r = [97, 0xE9]"
proof -
  let ?t = "[0xEF, 0xBB, 0xBF, 97, 0xC3, 0xA9] :: u8 list"
  let ?inp = "\<lparr>read = (\<lambda>i p. take 4 (drop (unat i) ?t)), encoding = TSInputEncodingUTF8,
    decode = (\<lambda>_. None)\<rparr>"
  have enc: "concat (map U8_APPEND_UNSAFE [0xFEFF, 97, 0xE9]) = ?t"
    by (simp add: encode_eq scalar_value_def)
  have "reads_text ?inp ?t"
    unfolding reads_text_def using next_char_bounds(3) [of "drop _ ?t"] by (auto simp del: drop_Cons' intro!: exI [of _ 4])
  with lexer_reads_encoded [of ?inp "[0xFEFF, 97, 0xE9]"] show ?thesis
    unfolding enc by (simp add: scalar_value_def BYTE_ORDER_MARK_def numeral_eq_Suc)
qed

text \<open>
  A read callback that returns single bytes breaks characters apart: the decoder asks for a fresh chunk once, but the
  fresh chunk starts at the same byte. Of the two bytes of U+00E9 each is an error character of its own.
\<close>

lemma short_chunks_split_characters:
  "do {
     l \<leftarrow> start_lexer \<lparr>read = (\<lambda>i p. take 1 (drop (unat i) [0xC3, 0xA9])), encoding = TSInputEncodingUTF8,
       decode = (\<lambda>_. None)\<rparr>;
     map_option (map fst) (read_all 3 l)
   } = Some [TS_DECODE_ERROR, TS_DECODE_ERROR]"
  by code_simp

section \<open>Included ranges\<close>

text \<open>
  \<open>next_included rs p b\<close>: byte \<open>b\<close> is the first one at or behind \<open>p\<close> that some range includes.
\<close>

definition next_included :: "TSRange list \<Rightarrow> u32 \<Rightarrow> u32 \<Rightarrow> bool" where
  "next_included rs p b \<longleftrightarrow> b \<in> covered rs \<and> p \<le> b \<and> (\<forall>b'\<in>covered rs. p \<le> b' \<longrightarrow> b \<le> b')"

lemma next_included_skip:
  assumes "ranges_ordered q (r # rs)" "end_byte r \<le> p \<or> end_byte r \<le> start_byte r"
  shows "next_included (r # rs) p b \<longleftrightarrow> next_included rs p b"
  using assms by (auto simp: next_included_def)

lemma next_included_hit:
  assumes "ranges_ordered q (r # rs)" "p < end_byte r" "start_byte r < end_byte r"
  shows "next_included (r # rs) p (max p (start_byte r))"
  using assms ranges_ordered_covered [of "end_byte r" rs]
  by (auto simp: next_included_def max_def split: if_splits)

lemma goto_find_range_found:
  assumes "goto_find_range rs i p = Some (j, r)" "ranges_ordered q rs"
  shows "i \<le> j \<and> j - i < length rs \<and> rs ! (j - i) = r \<and> start_byte r < end_byte r \<and> p < end_byte r \<and>
    next_included rs p (max p (start_byte r))"
  using assms
proof (induction rs i p arbitrary: q rule: goto_find_range.induct)
  case (2 r' rest i p)
  show ?case
  proof (cases "end_byte r' > p \<and> end_byte r' > start_byte r'")
    case True
    then show ?thesis using 2(2,3) next_included_hit [of q r' rest p] by auto
  next
    case False
    then have "Suc i \<le> j \<and> j - Suc i < length rest \<and> rest ! (j - Suc i) = r \<and> start_byte r < end_byte r \<and>
        p < end_byte r \<and> next_included rest p (max p (start_byte r))"
      using 2 by (auto split: if_splits)
    then show ?thesis
      using False 2(3) next_included_skip [of q r' rest p]
      by (auto simp: nth_Cons' not_less Suc_le_eq)
  qed
qed simp

lemma goto_find_range_none:
  "goto_find_range rs i p = None \<Longrightarrow> b \<in> covered rs \<Longrightarrow> b < p"
  by (induction rs i p rule: goto_find_range.induct) (auto split: if_splits)

lemma goto_included:
  assumes "ranges_ordered 0 (included_ranges l)" "included_ranges l \<noteq> []"
  obtains l' where "ts_lexer_goto l p = Some l'" "included_ranges l' = included_ranges l" "lookahead l' = 0"
    "if \<exists>b\<in>covered (included_ranges l). bytes p \<le> b
     then next_included (included_ranges l) (bytes p) (bytes (current_position l')) \<and>
       current_included_range_index l' < included_range_count l' \<and>
       (let r = included_ranges l ! current_included_range_index l'
        in start_byte r \<le> bytes (current_position l') \<and> bytes (current_position l') < end_byte r)
     else ts_lexer__eof l' \<and> bytes (current_position l') = end_byte (last (included_ranges l)) \<and> chunk l' = None"
proof (cases "goto_find_range (included_ranges l) 0 (bytes p)")
  case None
  obtain l' where l': "ts_lexer_goto l p = Some l'" "included_ranges l' = included_ranges l" "lookahead l' = 0"
    "ts_lexer__eof l'" "bytes (current_position l') = end_byte (last (included_ranges l))" "chunk l' = None"
    using None assms(2)
    by (cases "bytes p = bytes (current_position l)") (auto simp: ts_lexer_goto_def Let_def ts_lexer__invalidate_column_data_def ts_lexer__clear_chunk_def
        ts_lexer__eof_def included_range_count_def)
  have "\<not> (\<exists>b\<in>covered (included_ranges l). bytes p \<le> b)"
    using goto_find_range_none [OF None] by (auto simp: not_le)
  with that [OF l'(1-3)] l'(4-6) show thesis by simp
next
  case (Some jr)
  obtain j r where jr: "jr = (j, r)" by fastforce
  note found = goto_find_range_found [OF Some [unfolded jr] assms(1)]
  obtain l' where l': "ts_lexer_goto l p = Some l'" "included_ranges l' = included_ranges l" "lookahead l' = 0"
    "bytes (current_position l') = max (bytes p) (start_byte r)" "current_included_range_index l' = j"
    using Some jr
    by (cases "bytes p = bytes (current_position l)") (auto simp: ts_lexer_goto_def Let_def ts_lexer__invalidate_column_data_def ts_lexer__clear_chunk_def
        max_def)
  have "\<exists>b\<in>covered (included_ranges l). bytes p \<le> b"
    using found max.cobounded1 unfolding next_included_def by blast
  moreover have "start_byte r \<le> max (bytes p) (start_byte r)" "max (bytes p) (start_byte r) < end_byte r"
    using found by auto
  ultimately show thesis
    using that [OF l'(1-3)] l'(2,4,5) found by (simp add: Let_def included_range_count_def)
qed

definition effective_ranges :: "TSRange list \<Rightarrow> TSRange list" where
  "effective_ranges ranges = (if ranges = [] then [DEFAULT_RANGE] else ranges)"

text \<open>
  C23. \<open>ts_lexer_set_included_ranges\<close> rejects a list of ranges exactly when it is not ascending, and then
  changes nothing. Otherwise the lexer has the new ranges (the whole document for an empty list),
  and its position moves to the first included byte at or behind the old one; with no such
  byte left the lexer is at the end of its input, behind the last range.
\<close>

theorem set_included_ranges_correct:
  "if \<not> ranges_ordered 0 ranges then ts_lexer_set_included_ranges l ranges = Some (False, l)
   else \<exists>l'. ts_lexer_set_included_ranges l ranges = Some (True, l') \<and>
     included_ranges l' = effective_ranges ranges \<and>
     (if \<exists>b. b \<in> covered (effective_ranges ranges) \<and> bytes (current_position l) \<le> b
      then next_included (effective_ranges ranges) (bytes (current_position l)) (bytes (current_position l')) \<and>
        \<not> ts_lexer__eof l'
      else ts_lexer__eof l' \<and> bytes (current_position l') = end_byte (last (effective_ranges ranges)))"
proof (cases "ranges_ordered 0 ranges")
  case False
  then show ?thesis by (auto simp: ts_lexer_set_included_ranges_def)
next
  case True
  let ?rs = "effective_ranges ranges"
  let ?l = "l\<lparr>included_ranges := ?rs\<rparr>"
  have rs: "ranges_ordered 0 (included_ranges ?l)" "included_ranges ?l \<noteq> []"
    using True by (auto simp: effective_ranges_def DEFAULT_RANGE_def)
  have set: "ts_lexer_set_included_ranges l ranges =
      Option.bind (ts_lexer_goto ?l (current_position l)) (\<lambda>l'. Some (True, l'))"
    using True by (simp add: ts_lexer_set_included_ranges_def Let_def effective_ranges_def)
  obtain l' where "ts_lexer_goto ?l (current_position l) = Some l'" "included_ranges l' = ?rs"
    "if \<exists>b\<in>covered ?rs. bytes (current_position l) \<le> b
     then next_included ?rs (bytes (current_position l)) (bytes (current_position l')) \<and>
       \<not> ts_lexer__eof l'
     else ts_lexer__eof l' \<and> bytes (current_position l') = end_byte (last ?rs)"
    by (rule goto_included [OF rs, of "current_position l"]) (auto simp: ts_lexer__eof_def split: if_splits)
  with True set show ?thesis by (auto simp: Bex_def)
qed

text \<open>
  The loop of \<open>do_advance\<close> keeps a position inside the first range; a position at or past the end
  of that range becomes the first included byte behind the range, also for a character that
  reaches over the end of the range.
\<close>

lemma next_included_Cons_from_end:
  assumes "ranges_ordered q (r # rs)" "rs \<noteq> []" "next_included rs (start_byte (hd rs)) b"
  shows "next_included (r # rs) (end_byte r) b"
proof -
  have "covered rs \<subseteq> {start_byte (hd rs)..}" "end_byte r \<le> start_byte (hd rs)"
    using assms(1,2) ranges_ordered_covered [of "end_byte (hd rs)" "tl rs"]
    by (cases rs; auto split: if_splits)+
  with assms(3) show ?thesis by (auto simp: next_included_def)
qed

lemma advance_ranges_next:
  assumes "ranges_ordered q rs" "rs \<noteq> []" "start_byte (hd rs) \<le> bytes p"
  shows "\<exists>j p' ok. advance_ranges rs i p = Some (j, p', ok) \<and>
    (if ok then next_included rs (min (bytes p) (end_byte (hd rs))) (bytes p') \<and> i \<le> j \<and>
      j - i < length rs \<and> start_byte (rs ! (j - i)) \<le> bytes p' \<and> bytes p' < end_byte (rs ! (j - i))
    else j = i + length rs \<and> (\<forall>b\<in>covered rs. b < min (bytes p) (end_byte (hd rs))))"
  using assms
proof (induction rs i p arbitrary: q rule: advance_ranges.induct)
  case (2 r rest i p)
  show ?case
  proof (cases "bytes p \<ge> end_byte r \<or> end_byte r = start_byte r")
    case False
    then have "bytes p < end_byte r" "start_byte r \<le> bytes p" "start_byte r < end_byte r"
      using 2(2,4) by (auto simp: not_le)
    with False show ?thesis
      using next_included_hit [OF 2(2), of "bytes p"] by (auto simp: max_absorb1 min_absorb1)
  next
    case skip: True
    then have min: "min (bytes p) (end_byte r) = end_byte r"
      using 2(4) by (auto simp: min_absorb2)
    show ?thesis
    proof (cases rest)
      case Nil
      then show ?thesis using skip min by auto
    next
      case (Cons r' rest')
      let ?p = "\<lparr>bytes = start_byte r', extent = start_point r'\<rparr>"
      have ord: "ranges_ordered (end_byte r) rest" and le: "start_byte r' \<le> end_byte r'"
        using 2(2) Cons by (auto split: if_splits)
      obtain j p' ok where IH: "advance_ranges rest (Suc i) ?p = Some (j, p', ok)"
        "if ok then next_included rest (start_byte r') (bytes p') \<and> Suc i \<le> j \<and>
           j - Suc i < length rest \<and> start_byte (rest ! (j - Suc i)) \<le> bytes p' \<and>
           bytes p' < end_byte (rest ! (j - Suc i))
         else j = Suc i + length rest \<and> (\<forall>b\<in>covered rest. b < start_byte r')"
        using 2(1) [OF skip Cons ord] min_absorb1 [OF le]
        by (simp only: Cons list.sel Length.simps list.distinct order_refl) blast
      have adv: "advance_ranges (r # rest) i p = Some (j, p', ok)" using skip Cons IH(1) by simp
      show ?thesis
      proof (cases ok)
        case True
        with IH(2) have ok: "next_included rest (start_byte r') (bytes p')" "Suc i \<le> j"
          "j - Suc i < length rest" "start_byte (rest ! (j - Suc i)) \<le> bytes p'"
          "bytes p' < end_byte (rest ! (j - Suc i))" by auto
        have "next_included (r # rest) (end_byte r) (bytes p')"
          using next_included_Cons_from_end [OF 2(2)] ok(1) Cons by simp
        moreover have "j - i = Suc (j - Suc i)" using ok(2) by simp
        ultimately show ?thesis
          using True ok(2-5) min by (intro exI [of _ j] exI [of _ p'] exI [of _ ok] conjI adv) simp
      next
        case False
        have "covered rest \<subseteq> {start_byte r'..}"
          using ord Cons ranges_ordered_covered [of "end_byte r'" rest'] by (auto split: if_splits)
        then have "covered rest = {}" using False IH(2) by force
        then show ?thesis
          using False IH(2) min by (intro exI [of _ j] exI [of _ p'] exI [of _ ok] conjI adv) simp
      qed
    qed
  qed
qed simp

text \<open>The lexer stands inside its current included range.\<close>

definition in_range :: "Lexer \<Rightarrow> bool" where
  "in_range l \<longleftrightarrow> current_included_range_index l < included_range_count l \<and>
     (let r = included_ranges l ! current_included_range_index l
      in start_byte r \<le> bytes (current_position l) \<and> bytes (current_position l) < end_byte r)"

text \<open>Reading keeps the position; at most it finds that the input has ended.\<close>

definition same_place :: "Lexer \<Rightarrow> Lexer \<Rightarrow> bool" where
  "same_place l l' \<longleftrightarrow> current_position l' = current_position l \<and> included_ranges l' = included_ranges l \<and>
     (ts_lexer__eof l' \<or> current_included_range_index l' = current_included_range_index l)"

lemma same_place_get_chunk: "same_place l (ts_lexer__get_chunk l)"
  by (auto simp: same_place_def ts_lexer__get_chunk_def Let_def ts_lexer__eof_def included_range_count_def)

lemma same_place_lookahead [simp]:
  "same_place (l\<lparr>lookahead_size := n, lookahead := c\<rparr>) l' = same_place l l'"
  "same_place l (l'\<lparr>lookahead_size := n, lookahead := c\<rparr>) = same_place l l'"
  "same_place l (l'\<lparr>lookahead_size := n\<rparr>) = same_place l l'" "same_place l l"
  "same_place l (l'\<lparr>lookahead := c\<rparr>) = same_place l l'"
  by (auto simp: same_place_def ts_lexer__eof_def included_range_count_def)

lemma same_place_trans: "same_place a b \<Longrightarrow> same_place b c \<Longrightarrow> same_place a c"
  by (auto simp: same_place_def ts_lexer__eof_def included_range_count_def)

lemma get_lookahead_same_place:
  assumes "ts_lexer__get_lookahead l = Some l'"
  shows "same_place l l'"
  using assms same_place_get_chunk [of "l\<lparr>lookahead_size := _, lookahead := _\<rparr>"]
  by (auto simp: ts_lexer__get_lookahead_def Let_def set_lookahead_def
      simp del: Lexer.update_convs split: if_splits bind_splits)

lemma ranges_ordered_drop: "ranges_ordered q rs \<Longrightarrow> ranges_ordered 0 (drop i rs)"
  by (induction rs arbitrary: q i) (auto simp: drop_Cons' split: if_splits intro: ranges_ordered_mono)

lemma ranges_ordered_nth: "ranges_ordered q rs \<Longrightarrow> i < length rs \<Longrightarrow> q \<le> start_byte (rs ! i)"
proof (induction rs arbitrary: q i)
  case (Cons r rs)
  then have "ranges_ordered (end_byte r) rs" "q \<le> start_byte r" "start_byte r \<le> end_byte r"
    by (auto split: if_splits)
  with Cons.IH [of "end_byte r" "i - 1"] Cons.prems(2) show ?case by (cases i) auto
qed simp

lemma covered_from_nth:
  assumes "ranges_ordered q rs" "i < length rs" "b \<in> covered rs" "start_byte (rs ! i) \<le> b"
  shows "b \<in> covered (drop i rs)"
  using assms
proof (induction rs arbitrary: q i)
  case (Cons r rs)
  show ?case
  proof (cases i)
    case (Suc k)
    have "ranges_ordered (end_byte r) rs" using Cons.prems(1) by (auto split: if_splits)
    moreover from this have "end_byte r \<le> b"
      using ranges_ordered_nth [of "end_byte r" rs k] Cons.prems Suc by simp
    ultimately show ?thesis
      using Cons.IH [of "end_byte r" k] Cons.prems(2-4) Suc by (auto simp: not_less [symmetric])
  qed (use Cons.prems in simp)
qed simp

text \<open>
  C24. Advancing never reads outside the included ranges. From a position inside a range, the next
  position is the one behind the current character when the same range still holds it, and the
  first included byte behind the range otherwise, wherever in the list the next non-empty range
  is; the lexer is inside the range of that byte unless the read callback has no text there. With
  no included byte left the lexer is at the end.
\<close>

theorem advance_stays_in_ranges:
  assumes "ranges_ordered 0 (included_ranges l)" "in_range l" "chunk l \<noteq> None"
    and "bytes (current_position l) \<le> bytes (current_position l) + lookahead_size l"
    and "ts_lexer__advance l skip = Some l'"
  defines "q \<equiv> min (bytes (current_position l) + lookahead_size l)
                   (end_byte (included_ranges l ! current_included_range_index l))"
  shows "if \<forall>b\<in>covered (included_ranges l). b < q then ts_lexer__eof l'
    else next_included (included_ranges l) q (bytes (current_position l')) \<and>
      (ts_lexer__eof l' \<or> in_range l')"
proof -
  let ?i = "current_included_range_index l" and ?l = "advance_position l"
  let ?rs = "included_ranges l" and ?p = "bytes (current_position l) + lookahead_size l"
  have frame: "included_ranges ?l = ?rs" "current_included_range_index ?l = ?i"
    "bytes (current_position ?l) = ?p"
    by (auto simp: advance_position_def Let_def ts_lexer__set_column_data_def
        ts_lexer__increment_column_data_def)
  have i: "?i < length ?rs" "start_byte (?rs ! ?i) \<le> bytes (current_position l)"
    using assms(2) by (auto simp: in_range_def Let_def included_range_count_def)
  then have hd: "drop ?i ?rs \<noteq> []" "hd (drop ?i ?rs) = ?rs ! ?i" by (auto simp: hd_drop_conv_nth)
  have start: "start_byte (hd (drop ?i ?rs)) \<le> bytes (current_position ?l)"
    using hd(2) i(2) assms(4) frame(3) by simp
  obtain j p' ok where adv: "advance_ranges (drop ?i ?rs) ?i (current_position ?l) = Some (j, p', ok)"
    "if ok then next_included (drop ?i ?rs) (min ?p (end_byte (?rs ! ?i))) (bytes p') \<and> ?i \<le> j \<and>
       j - ?i < length (drop ?i ?rs) \<and> start_byte (drop ?i ?rs ! (j - ?i)) \<le> bytes p' \<and>
       bytes p' < end_byte (drop ?i ?rs ! (j - ?i))
     else j = ?i + length (drop ?i ?rs) \<and> (\<forall>b\<in>covered (drop ?i ?rs). b < min ?p (end_byte (?rs ! ?i)))"
    using advance_ranges_next [OF ranges_ordered_drop [OF assms(1)] hd(1) start, of ?i]
    unfolding hd(2) frame(3) by blast
  have q: "start_byte (?rs ! ?i) \<le> q" "included_ranges l = ?rs"
    using assms(2,4) i(2) by (auto simp: q_def in_range_def Let_def)
  have run: "ts_lexer__do_advance l skip = Some l'"
    using assms(3,5) by (auto simp: ts_lexer__advance_def)
  show ?thesis
  proof (cases ok)
    case False
    then have "b < q" if "b \<in> covered ?rs" for b
      using that adv(2) covered_from_nth [OF assms(1) i(1) that] q(1) unfolding q_def by force
    moreover have "ts_lexer__eof l'"
      using False run adv i frame
      by (auto simp: ts_lexer__do_advance_def Let_def ts_lexer__eof_def included_range_count_def
          ts_lexer__clear_chunk_def)
    ultimately show ?thesis by simp
  next
    case True
    define m where "m = (if skip
      then ?l\<lparr>current_included_range_index := j, current_position := p', token_start_position := p'\<rparr>
      else ?l\<lparr>current_included_range_index := j, current_position := p'\<rparr>)"
    have "\<exists>m'. ts_lexer__get_lookahead m' = Some l' \<and> same_place m m'"
      using run adv(1) True frame same_place_get_chunk [of m]
      by (auto simp: ts_lexer__do_advance_def Let_def m_def split: if_splits)
    then have "same_place m l'"
      using get_lookahead_same_place same_place_trans by blast
    moreover have "current_position m = p'" "included_ranges m = ?rs" "current_included_range_index m = j"
      using frame by (auto simp: m_def)
    moreover have nxt: "next_included ?rs q (bytes p')"
    proof -
      have "covered (drop ?i ?rs) \<subseteq> covered ?rs" unfolding covered_def using set_drop_subset by fastforce
      moreover have "b \<in> covered (drop ?i ?rs)" if "b \<in> covered ?rs" "q \<le> b" for b
        using that q(1) by (intro covered_from_nth [OF assms(1) i(1)]) auto
      ultimately show ?thesis using adv(2) True unfolding next_included_def q_def by fastforce
    qed
    moreover have "j < length ?rs" "start_byte (?rs ! j) \<le> bytes p'" "bytes p' < end_byte (?rs ! j)"
      using adv(2) True by auto
    moreover have "\<not> (\<forall>b\<in>covered ?rs. b < q)"
      using nxt by (auto simp: next_included_def not_less)
    ultimately show ?thesis
      by (auto simp: same_place_def in_range_def Let_def included_range_count_def)
  qed
qed

definition two_ranges_lexer :: Lexer where
  "two_ranges_lexer = (fresh_lexer \<lparr>read = (\<lambda>i p. take 4 (drop (unat i) [97, 98, 99, 100, 101, 102])),
       encoding = TSInputEncodingUTF8, decode = (\<lambda>_. None)\<rparr>)
     \<lparr>included_ranges := [\<lparr>start_point = Point 0 0, end_point = Point 0 2, start_byte = 0, end_byte = 2\<rparr>,
                        \<lparr>start_point = Point 0 4, end_point = Point 0 6, start_byte = 4, end_byte = 6\<rparr>],
      chunk := Some [97, 98, 99, 100], lookahead := 98, lookahead_size := 1,
      current_position := \<lparr>bytes = 1, extent = Point 0 1\<rparr>\<rparr>"

theorem advance_stays_in_ranges_witness:
  "\<exists>l'. ts_lexer__advance two_ranges_lexer False = Some l' \<and>
     next_included (included_ranges two_ranges_lexer) 2 (bytes (current_position l')) \<and>
     (ts_lexer__eof l' \<or> in_range l')"
proof -
  obtain l' where l': "ts_lexer__advance two_ranges_lexer False = Some l'"
    by (simp add: two_ranges_lexer_def fresh_lexer_def ts_lexer__advance_def ts_lexer__do_advance_def
        advance_position_def Let_def BYTE_ORDER_MARK_def ts_lexer__increment_column_data_def
        ts_lexer__get_chunk_def ts_lexer__get_lookahead_def chunk_size_def ts_lexer__decode_def
        ts_decode_utf8_def U8_NEXT_eq set_lookahead_def TS_DECODE_ERROR_def)
  note defs = two_ranges_lexer_def fresh_lexer_def in_range_def included_range_count_def
  have "ranges_ordered 0 (included_ranges two_ranges_lexer)" "in_range two_ranges_lexer"
    "chunk two_ranges_lexer \<noteq> None"
    "bytes (current_position two_ranges_lexer)
       \<le> bytes (current_position two_ranges_lexer) + lookahead_size two_ranges_lexer"
    by (simp_all add: defs)
  note claim = advance_stays_in_ranges [OF this l']
  have "min (bytes (current_position two_ranges_lexer) + lookahead_size two_ranges_lexer)
      (end_byte (included_ranges two_ranges_lexer ! current_included_range_index two_ranges_lexer)) = 2"
    by (simp add: defs)
  moreover have "(4::u32) \<in> covered (included_ranges two_ranges_lexer)" "\<not> (4::u32) < 2"
    by (simp_all add: defs)
  then have "\<not> (\<forall>b\<in>covered (included_ranges two_ranges_lexer). b < (2::u32))" by blast
  ultimately show ?thesis using claim l' by (simp only: if_False) blast
qed

end
