(* ===== verification/TSLexer.thy ===== *)
theory TSLexer
  imports Lexer
begin

text \<open>
  The lexer as an external scanner sees it: \<open>struct TSLexer\<close> of \<open>parser.h\<close>, whose function pointers
  are the operations of \<open>lexer.c\<close>. A scanner can look at one code point, advance over it (keeping it
  in the token, or skipping it in front of the token), mark the end of the token, ask for the column
  and for the end of the input. The stream lexer of this theory has the code points that are still
  to be read as a list; the locale \<open>scanner_lexer\<close> states what scanners rely on, and both the stream
  lexer and the runtime lexer of \<open>lexer.c\<close> satisfy it.

  Scanners classify characters with \<open>iswspace\<close> and its relatives. The program never calls
  \<open>setlocale\<close>, so these are the classes of the POSIX locale, which hold ASCII characters only.
\<close>

section \<open>Characters\<close>

text \<open>A character literal of the source, as the code point it is compared with.\<close>

definition ch :: "char \<Rightarrow> int" where
  "ch c = of_char c"

lemma ch_eq_iff [simp]: "ch c = ch d \<longleftrightarrow> c = d"
  by (simp add: ch_def)

lemma ch_range: "0 \<le> ch c" "ch c < 256"
  using pos_mod_sign [of 256 "of_char c :: int"] pos_mod_bound [of 256 "of_char c :: int"]
  by (simp_all add: ch_def)

lemma ch_zero_iff [simp]: "0 = ch c \<longleftrightarrow> c = CHR 0x00" "ch c = 0 \<longleftrightarrow> c = CHR 0x00"
  using ch_eq_iff [of "CHR 0x00" c] ch_eq_iff [of c "CHR 0x00"] by (simp_all add: ch_def)

definition iswspace :: "int \<Rightarrow> bool" where
  "iswspace c \<longleftrightarrow> 9 \<le> c \<and> c \<le> 13 \<or> c = 32"

definition iswdigit :: "int \<Rightarrow> bool" where
  "iswdigit c \<longleftrightarrow> 48 \<le> c \<and> c \<le> 57"

definition iswupper :: "int \<Rightarrow> bool" where
  "iswupper c \<longleftrightarrow> 65 \<le> c \<and> c \<le> 90"

definition iswlower :: "int \<Rightarrow> bool" where
  "iswlower c \<longleftrightarrow> 97 \<le> c \<and> c \<le> 122"

definition iswalpha :: "int \<Rightarrow> bool" where
  "iswalpha c \<longleftrightarrow> iswupper c \<or> iswlower c"

definition iswalnum :: "int \<Rightarrow> bool" where
  "iswalnum c \<longleftrightarrow> iswalpha c \<or> iswdigit c"

lemmas isw_defs = iswspace_def iswdigit_def iswupper_def iswlower_def iswalpha_def iswalnum_def

lemma isw_zero [simp]:
  "\<not> iswspace 0" "\<not> iswdigit 0" "\<not> iswupper 0" "\<not> iswlower 0" "\<not> iswalpha 0" "\<not> iswalnum 0"
  by (simp_all add: isw_defs)

section \<open>The interface\<close>

text \<open>
  What a scanner relies on: there is a text still to be read; the lookahead is its first code
  point or 0 at its end; advancing drops that code point, and does nothing at the end.
\<close>

locale scanner_lexer =
  fixes look :: "'l \<Rightarrow> int" and adv :: "'l \<Rightarrow> 'l" and at_eof :: "'l \<Rightarrow> bool"
    and ok :: "'l \<Rightarrow> bool" and ahead :: "'l \<Rightarrow> int list"
  assumes look_ahead: "ok l \<Longrightarrow> look l = (case ahead l of [] \<Rightarrow> 0 | c # _ \<Rightarrow> c)"
    and eof_ahead: "ok l \<Longrightarrow> at_eof l \<longleftrightarrow> ahead l = []"
    and ahead_adv: "ok l \<Longrightarrow> ahead (adv l) = tl (ahead l)"
    and ok_adv: "ok l \<Longrightarrow> ok (adv l)"
begin

lemma adv_n: "ok l \<Longrightarrow> ok ((adv ^^ n) l) \<and> ahead ((adv ^^ n) l) = drop n (ahead l)"
proof (induction n)
  case (Suc n)
  then show ?case by (simp add: ok_adv ahead_adv drop_Suc tl_drop)
qed simp

lemma look_nonzero: "ok l \<Longrightarrow> look l \<noteq> 0 \<Longrightarrow> \<not> at_eof l"
  by (auto simp: look_ahead eof_ahead)

lemma look_nth:
  assumes "ok l"
  shows "look ((adv ^^ n) l) = (if n < length (ahead l) then ahead l ! n else 0)"
  using look_ahead [of "(adv ^^ n) l"] adv_n [OF assms, of n]
  by (auto simp: hd_drop_conv_nth split: list.split) (metis hd_drop_conv_nth list.sel(1))

lemma eof_n: "ok l \<Longrightarrow> at_eof ((adv ^^ n) l) \<longleftrightarrow> length (ahead l) \<le> n"
  using adv_n by (simp add: eof_ahead)

text \<open>Advancing as long as a condition holds, which 0 does not satisfy, drops a prefix.\<close>

lemma adv_while:
  assumes "ok l" "\<not> p 0"
  defines "n \<equiv> length (takeWhile p (ahead l))"
  shows "\<forall>k<n. p (look ((adv ^^ k) l))" and "\<not> p (look ((adv ^^ n) l))"
    and "ahead ((adv ^^ n) l) = dropWhile p (ahead l)"
proof -
  show "\<forall>k<n. p (look ((adv ^^ k) l))"
    using look_nth [OF assms(1)] length_takeWhile_le [of p "ahead l"] unfolding n_def
    by (metis nth_mem order_less_le_trans set_takeWhileD takeWhile_nth)
  show "\<not> p (look ((adv ^^ n) l))"
    using look_nth [OF assms(1), of n] assms(2) nth_length_takeWhile [of p "ahead l"]
    unfolding n_def by auto
  show "ahead ((adv ^^ n) l) = dropWhile p (ahead l)"
    using adv_n [OF assms(1), of n] unfolding n_def by (simp add: dropWhile_eq_drop)
qed

end

section \<open>The stream lexer\<close>

text \<open>
  \<open>rest\<close> is the text to be read, \<open>pos\<close> the number of code points read so far and \<open>col\<close> those read
  since the last newline; \<open>range_starts\<close> holds the positions at which an included range begins. The
  token runs from \<open>token_start\<close>, behind the last skipped code point, to \<open>token_end\<close>, where its
  end was last marked, if it was.
\<close>

record 'sym TSLexer =
  rest :: "int list"
  pos :: nat
  col :: nat
  range_starts :: "nat list"
  result_sym :: 'sym
  token_start :: nat
  token_end :: "nat option"

definition la :: "'sym TSLexer \<Rightarrow> int" where
  "la l = (case rest l of [] \<Rightarrow> 0 | c # _ \<Rightarrow> c)"

definition eof :: "'sym TSLexer \<Rightarrow> bool" where
  "eof l \<longleftrightarrow> rest l = []"

definition advance :: "'sym TSLexer \<Rightarrow> 'sym TSLexer" where
  "advance l = (case rest l of [] \<Rightarrow> l
     | c # cs \<Rightarrow> l\<lparr>rest := cs, pos := Suc (pos l), col := (if c = 10 then 0 else Suc (col l))\<rparr>)"

definition skip :: "'sym TSLexer \<Rightarrow> 'sym TSLexer" where
  "skip l = (case rest l of [] \<Rightarrow> l | _ \<Rightarrow> (advance l)\<lparr>token_start := Suc (pos l)\<rparr>)"

definition mark_end :: "'sym TSLexer \<Rightarrow> 'sym TSLexer" where
  "mark_end l = l\<lparr>token_end := Some (pos l)\<rparr>"

definition get_column :: "'sym TSLexer \<Rightarrow> nat" where
  "get_column l = col l"

definition is_at_included_range_start :: "'sym TSLexer \<Rightarrow> bool" where
  "is_at_included_range_start l \<longleftrightarrow> rest l \<noteq> [] \<and> pos l \<in> set (range_starts l)"

definition set_sym :: "'sym \<Rightarrow> 'sym TSLexer \<Rightarrow> 'sym TSLexer" where
  "set_sym s l = l\<lparr>result_sym := s\<rparr>"

text \<open>The lexer at the start of a call of a scanner, on a text, with the result symbol reset.\<close>

definition lexer_on :: "'sym \<Rightarrow> int list \<Rightarrow> 'sym TSLexer" where
  "lexer_on s cs = \<lparr>rest = cs, pos = 0, col = 0, range_starts = [], result_sym = s,
     token_start = 0, token_end = None\<rparr>"

definition text_of :: "string \<Rightarrow> int list" where
  "text_of s = map ch s"

interpretation stream: scanner_lexer la advance eof "\<lambda>_. True" rest
  by unfold_locales (auto simp: la_def advance_def eof_def split: list.split)

text \<open>The operations one by one.\<close>

lemma la_simps [simp]:
  "rest l = [] \<Longrightarrow> la l = 0" "rest l = c # cs \<Longrightarrow> la l = c"
  by (simp_all add: la_def)

lemma la_hd: "rest l = s \<Longrightarrow> la l = (if s = [] then 0 else hd s)"
  by (cases s) simp_all

lemma la_nonzero: "la l \<noteq> 0 \<Longrightarrow> rest l \<noteq> []"
  by auto

lemma la_ch_rest: "la l = ch c \<Longrightarrow> c \<noteq> CHR 0x00 \<Longrightarrow> rest l \<noteq> []"
  by (rule la_nonzero) simp

lemma rest_simps [simp]:
  "rest (advance l) = tl (rest l)" "rest (skip l) = tl (rest l)"
  "rest (mark_end l) = rest l" "rest (set_sym s l) = rest l"
  by (auto simp: advance_def skip_def mark_end_def set_sym_def split: list.split)

lemma pos_simps [simp]:
  "rest l \<noteq> [] \<Longrightarrow> pos (advance l) = Suc (pos l)" "rest l \<noteq> [] \<Longrightarrow> pos (skip l) = Suc (pos l)"
  "pos (mark_end l) = pos l" "pos (set_sym s l) = pos l"
  by (auto simp: advance_def skip_def mark_end_def set_sym_def split: list.split)

lemma token_simps [simp]:
  "token_end (advance l) = token_end l" "token_end (skip l) = token_end l"
  "token_end (mark_end l) = Some (pos l)" "token_end (set_sym s l) = token_end l"
  "token_start (advance l) = token_start l" "rest l \<noteq> [] \<Longrightarrow> token_start (skip l) = Suc (pos l)"
  "token_start (mark_end l) = token_start l" "token_start (set_sym s l) = token_start l"
  by (auto simp: advance_def skip_def mark_end_def set_sym_def split: list.split)

lemma sym_simps [simp]:
  "result_sym (advance l) = result_sym l" "result_sym (skip l) = result_sym l"
  "result_sym (mark_end l) = result_sym l" "result_sym (set_sym s l) = s"
  by (auto simp: advance_def skip_def mark_end_def set_sym_def split: list.split)

lemma la_frame [simp]:
  "la (mark_end l) = la l" "la (set_sym s l) = la l" "eof (mark_end l) = eof l" "eof (set_sym s l) = eof l"
  by (simp_all add: la_def eof_def)

lemma la_adv_frame [simp]:
  "la (advance (mark_end l)) = la (advance l)" "la (advance (set_sym s l)) = la (advance l)"
  "la (skip (mark_end l)) = la (skip l)" "la (skip (set_sym s l)) = la (skip l)"
  "la (skip l) = la (advance l)"
  by (simp_all add: la_def)

lemma length_tl_less [termination_simp]: "rest l \<noteq> [] \<Longrightarrow> length (rest l) - Suc 0 < length (rest l)"
  by (cases "rest l") auto

text \<open>Induction on the length of the text ahead, for loops that consume it.\<close>

lemma rest_induct [case_names less]:
  "(\<And>l :: 'sym TSLexer. (\<And>l'. length (rest l') < length (rest l) \<Longrightarrow> P l') \<Longrightarrow> P l) \<Longrightarrow> P l"
  by (rule measure_induct_rule [where f = "\<lambda>l. length (rest l)"]) blast

text \<open>
  \<open>later l l'\<close>: the lexer has moved forward over code points, whatever else changed. Every scanner
  only moves forward, which also makes its loops end.
\<close>

definition later :: "'sym TSLexer \<Rightarrow> 'sym TSLexer \<Rightarrow> bool" where
  "later l l' \<longleftrightarrow> (\<exists>k\<le>length (rest l). rest l' = drop k (rest l) \<and> pos l' = pos l + k) \<and>
     range_starts l' = range_starts l"

lemma later_refl [simp, intro]: "later l l"
  unfolding later_def by (intro conjI exI [of _ 0]) simp_all

lemma later_trans [trans]: "later a b \<Longrightarrow> later b c \<Longrightarrow> later a c"
proof -
  assume "later a b" "later b c"
  then obtain j k where j: "j \<le> length (rest a)" "rest b = drop j (rest a)" "pos b = pos a + j"
    and k: "k \<le> length (rest b)" "rest c = drop k (rest b)" "pos c = pos b + k"
    and r: "range_starts c = range_starts a"
    by (auto simp: later_def)
  then show ?thesis unfolding later_def by (intro conjI exI [of _ "k + j"]) auto
qed

lemma later_length: "later l l' \<Longrightarrow> length (rest l') \<le> length (rest l)"
  by (auto simp: later_def)

lemma later_pos: "later l l' \<Longrightarrow> pos l \<le> pos l'"
  by (auto simp: later_def)

lemma later_total: "later l l' \<Longrightarrow> pos l' + length (rest l') = pos l + length (rest l)"
  by (auto simp: later_def)

text \<open>
  The rules in \<open>scan_mono\<close> follow the nesting of the calls in the second lexer.
\<close>

lemma later_advance [scan_mono]: "later m l \<Longrightarrow> later m (advance l)"
proof (erule later_trans)
  show "later l (advance l)"
    unfolding later_def by (cases "rest l") (auto simp: advance_def intro: exI [of _ 0] exI [of _ 1])
qed

lemma later_skip [scan_mono]: "later m l \<Longrightarrow> later m (skip l)"
proof (erule later_trans)
  show "later l (skip l)"
    unfolding later_def
    by (cases "rest l") (auto simp: skip_def advance_def intro: exI [of _ 0] exI [of _ 1])
qed

lemma later_frame [simp]:
  "later l (mark_end l') = later l l'" "later l (set_sym s l') = later l l'"
  "later (mark_end l) l' = later l l'" "later (set_sym s l) l' = later l l'"
  by (simp_all add: later_def mark_end_def set_sym_def)

text \<open>Having moved on over a code point, the lexer is strictly further.\<close>

lemma later_less:
  assumes "later l m" "la m \<noteq> 0" "later (skip m) n \<or> later (advance m) n"
  shows "length (rest n) < length (rest l)"
proof -
  have "rest m \<noteq> []" using assms(2) by (rule la_nonzero)
  then have "length (rest (skip m)) < length (rest m)" "length (rest (advance m)) < length (rest m)"
    by (simp_all add: length_tl_less)
  with later_length [OF assms(1)] assms(3) later_length [of "skip m" n] later_length [of "advance m" n]
  show ?thesis by linarith
qed

section \<open>Loops over the input\<close>

text \<open>
  \<open>while (p (lookahead)) skip ();\<close> and the same with \<open>advance\<close>. No condition of the scanners holds of
  0, the lookahead at the end of the input, so the test for the end changes nothing.
\<close>

function skip_while :: "(int \<Rightarrow> bool) \<Rightarrow> 'sym TSLexer \<Rightarrow> 'sym TSLexer" where
  "skip_while p l = (if rest l \<noteq> [] \<and> p (la l) then skip_while p (skip l) else l)"
  by auto
termination by (relation "measure (\<lambda>(p, l). length (rest l))") (auto simp: length_tl_less)

function advance_while :: "(int \<Rightarrow> bool) \<Rightarrow> 'sym TSLexer \<Rightarrow> 'sym TSLexer" where
  "advance_while p l = (if rest l \<noteq> [] \<and> p (la l) then advance_while p (advance l) else l)"
  by auto
termination by (relation "measure (\<lambda>(p, l). length (rest l))") (auto simp: length_tl_less)

declare skip_while.simps [simp del] advance_while.simps [simp del]

lemma skip_while_unfold:
  "\<not> p 0 \<Longrightarrow> skip_while p l = (if p (la l) then skip_while p (skip l) else l)"
  by (subst skip_while.simps) (auto dest: la_nonzero)

lemma advance_while_unfold:
  "\<not> p 0 \<Longrightarrow> advance_while p l = (if p (la l) then advance_while p (advance l) else l)"
  by (subst advance_while.simps) auto

lemma skip_while_rest [simp]: "rest (skip_while p l) = dropWhile p (rest l)"
proof (induction p l rule: skip_while.induct)
  case (1 p l)
  then show ?case by (subst skip_while.simps) (cases "rest l"; simp)
qed

lemma advance_while_rest [simp]: "rest (advance_while p l) = dropWhile p (rest l)"
proof (induction p l rule: advance_while.induct)
  case (1 p l)
  then show ?case by (subst advance_while.simps) (cases "rest l"; simp)
qed

lemma skip_while_frame [simp]:
  "token_end (skip_while p l) = token_end l" "result_sym (skip_while p l) = result_sym l"
  by (induction p l rule: skip_while.induct; subst skip_while.simps; simp)+

lemma advance_while_frame [simp]:
  "token_end (advance_while p l) = token_end l" "result_sym (advance_while p l) = result_sym l"
  "token_start (advance_while p l) = token_start l"
  by (induction p l rule: advance_while.induct; subst advance_while.simps; simp)+

lemma skip_while_pos [simp]: "pos (skip_while p l) = pos l + length (takeWhile p (rest l))"
proof (induction p l rule: skip_while.induct)
  case (1 p l)
  then show ?case by (subst skip_while.simps) (cases "rest l"; simp)
qed

lemma advance_while_pos [simp]: "pos (advance_while p l) = pos l + length (takeWhile p (rest l))"
proof (induction p l rule: advance_while.induct)
  case (1 p l)
  then show ?case by (subst advance_while.simps) (cases "rest l"; simp)
qed

lemma skip_while_token_start:
  "token_start (skip_while p l) =
     (if takeWhile p (rest l) = [] then token_start l else pos (skip_while p l))"
proof (induction p l rule: skip_while.induct)
  case (1 p l)
  then show ?case
    by (subst (1 2) skip_while.simps) (cases "rest l"; cases "tl (rest l)"; auto)
qed

text \<open>Skipping white space up to the first other character.\<close>

lemma skip_spaces:
  assumes "rest l = ws @ c # s" "list_all iswspace ws" "\<not> iswspace c"
  shows "rest (skip_while iswspace l) = c # s" "la (skip_while iswspace l) = c"
    "pos (skip_while iswspace l) = pos l + length ws"
    "token_start (skip_while iswspace l) = (if ws = [] then token_start l else pos l + length ws)"
proof -
  have "takeWhile iswspace (rest l) = ws" "dropWhile iswspace (rest l) = c # s"
    using assms by (auto simp: list_all_iff takeWhile_append2 dropWhile_append2)
  then show "rest (skip_while iswspace l) = c # s" "la (skip_while iswspace l) = c"
    "pos (skip_while iswspace l) = pos l + length ws"
    "token_start (skip_while iswspace l) = (if ws = [] then token_start l else pos l + length ws)"
    by (simp_all add: skip_while_token_start)
qed

lemma later_skip_while [scan_mono]: "later m l \<Longrightarrow> later m (skip_while p l)"
proof (induction p l rule: skip_while.induct)
  case (1 p l)
  then show ?case by (subst skip_while.simps) (simp add: scan_mono)
qed

lemma later_advance_while [scan_mono]: "later m l \<Longrightarrow> later m (advance_while p l)"
proof (induction p l rule: advance_while.induct)
  case (1 p l)
  then show ?case by (subst advance_while.simps) (simp add: scan_mono)
qed

section \<open>The runtime lexer implements the interface\<close>

definition runtime_advance :: "Lexer \<Rightarrow> Lexer" where
  "runtime_advance l = (case ts_lexer__advance l False of None \<Rightarrow> l | Some l' \<Rightarrow> l')"

definition on_text :: "u8 list \<Rightarrow> Lexer \<Rightarrow> bool" where
  "on_text t l \<longleftrightarrow> (\<exists>i. lexer_at t i l)"

definition text_ahead :: "u8 list \<Rightarrow> Lexer \<Rightarrow> int list" where
  "text_ahead t l = map fst (text_chars t (unat (bytes (current_position l))))"

lemma text_ahead_at: "lexer_at t i l \<Longrightarrow> text_ahead t l = map fst (text_chars t i)"
  by (auto simp: lexer_at_def lexer_base_def reads_text_def text_ahead_def)

lemma lexer_at_le: "lexer_at t i l \<Longrightarrow> i \<le> length t"
  by (simp add: lexer_at_def lexer_base_def)

lemma lexer_at_eof: "lexer_at t i l \<Longrightarrow> ts_lexer__eof l \<longleftrightarrow> i = length t"
  by (auto simp: lexer_at_def lexer_base_def ts_lexer__eof_def included_range_count_def split: if_splits)

lemma runtime_advance_at:
  assumes "lexer_at t i l"
  shows "lexer_at t (if i < length t then i + fst (next_char (drop i t)) else i) (runtime_advance l)"
proof (cases "i < length t")
  case True
  then show ?thesis using advance_at [OF assms True, of False] by (auto simp: runtime_advance_def)
next
  case False
  then have "i = length t" using lexer_at_le [OF assms] by simp
  then show ?thesis using assms advance_at_eof by (auto simp: runtime_advance_def)
qed

interpretation runtime: scanner_lexer Lexer.lookahead runtime_advance ts_lexer__eof "on_text t" "text_ahead t"
  for t
proof unfold_locales
  fix l
  assume "on_text t l"
  then obtain i where at: "lexer_at t i l" by (auto simp: on_text_def)
  note next_at = runtime_advance_at [OF at]
  show "Lexer.lookahead l = (case text_ahead t l of [] \<Rightarrow> 0 | c # _ \<Rightarrow> c)"
    unfolding text_ahead_at [OF at] using at by (subst text_chars.simps) (simp add: lexer_at_def)
  show "ts_lexer__eof l \<longleftrightarrow> text_ahead t l = []"
    unfolding text_ahead_at [OF at] lexer_at_eof [OF at] using lexer_at_le [OF at]
    by (subst text_chars.simps) auto
  show "text_ahead t (runtime_advance l) = tl (text_ahead t l)"
    unfolding text_ahead_at [OF at] text_ahead_at [OF next_at]
    by (cases "i < length t") (simp_all add: text_chars.simps [of t i])
  show "on_text t (runtime_advance l)" using next_at unfolding on_text_def by blast
qed

text \<open>
  C25. A scanner cannot tell the runtime lexer from the stream lexer: started on a text that is read
  in chunks, where each read returns at least the whole character at its offset, the runtime lexer shows after any number of advances the same lookahead, and
  the same end of the input, as the stream lexer on the code points of the text.
\<close>

theorem runtime_simulates_stream:
  assumes "reads_text inp t"
  shows "\<exists>l. start_lexer inp = Some l \<and>
    (\<forall>n. let s = (advance ^^ n) (lexer_on sy (map fst (text_chars t (bom_size t))))
         in Lexer.lookahead ((runtime_advance ^^ n) l) = la s \<and>
            (ts_lexer__eof ((runtime_advance ^^ n) l) \<longleftrightarrow> eof s))"
proof -
  obtain l where l: "start_lexer inp = Some l" "lexer_at t (bom_size t) l"
    using start_lexer_at [OF assms] by blast
  then have "on_text t l" "text_ahead t l = map fst (text_chars t (bom_size t))"
    by (auto simp: on_text_def text_ahead_at)
  with l(1) show ?thesis
    by (simp add: Let_def runtime.look_nth [of t] runtime.eof_n [of t] stream.look_nth stream.eof_n
        lexer_on_def)
qed

theorem runtime_simulates_stream_witness:
  "\<exists>l. start_lexer \<lparr>read = (\<lambda>i p. take 4 (drop (unat i) [97, 10, 98])),
        encoding = TSInputEncodingUTF8, decode = (\<lambda>_. None)\<rparr> = Some l \<and>
     Lexer.lookahead ((runtime_advance ^^ 2) l) = 98 \<and> ts_lexer__eof ((runtime_advance ^^ 3) l)"
proof -
  let ?inp = "\<lparr>read = (\<lambda>i p. take 4 (drop (unat i) [97, 10, 98])), encoding = TSInputEncodingUTF8,
    decode = (\<lambda>_. None)\<rparr>"
  have "reads_text ?inp [97, 10, 98]"
    unfolding reads_text_def using next_char_bounds(3) [of "drop _ [97, 10, 98]"] by (auto simp del: drop_Cons' intro!: exI [of _ 4])
  moreover have "map fst (text_chars [97, 10, 98] (bom_size [97, 10, 98])) = [97, 10, 98]"
    by (simp add: bom_size_def text_chars.simps next_char_def U8_NEXT_eq TS_DECODE_ERROR_def)
  ultimately obtain l where "start_lexer ?inp = Some l" and
    agree: "\<forall>n. let s = (advance ^^ n) (lexer_on (0::nat) [97, 10, 98])
      in Lexer.lookahead ((runtime_advance ^^ n) l) = la s \<and>
         (ts_lexer__eof ((runtime_advance ^^ n) l) \<longleftrightarrow> eof s)"
    using runtime_simulates_stream [of ?inp "[97, 10, 98]" "0::nat"] by auto
  then show ?thesis
    using spec [OF agree, of 2] spec [OF agree, of 3]
    by (auto simp: Let_def stream.look_nth stream.eof_n lexer_on_def)
qed

end
