(* ===== verification/External_Scanner.thy ===== *)
theory External_Scanner
  imports TSLexer
begin

text \<open>
  How the parser calls an external scanner (\<open>ts_parser__lex\<close> and the functions
  \<open>ts_parser__external_scanner_...\<close> of \<open>parser.c\<close>). The scanner object lives as long as the parser, but
  its state belongs to the tokens: in front of every call the parser restores the state that was
  stored with the last external token, and behind a successful call it stores the new state, which
  may take up to 1024 bytes. The locale \<open>external_scanner\<close> states what a scanner has to promise for
  this to be the same as keeping the state; the scanners with and without state satisfy it.
\<close>

section \<open>The calls of the parser\<close>

definition TREE_SITTER_SERIALIZATION_BUFFER_SIZE :: nat where
  "TREE_SITTER_SERIALIZATION_BUFFER_SIZE = 1024"

text \<open>\<open>None\<close> where the assertion of the source fails.\<close>

definition external_scanner_serialize :: "('s \<Rightarrow> u8 list) \<Rightarrow> 's \<Rightarrow> u8 list option" where
  "external_scanner_serialize ser s =
     (if length (ser s) \<le> TREE_SITTER_SERIALIZATION_BUFFER_SIZE then Some (ser s) else None)"

text \<open>
  The part of \<open>ts_parser__lex\<close> that calls the scanner: restore the state of the last external token,
  scan, and store the state if a token was found. The result is the stored state, if any, and the
  scanner object.
\<close>

definition lex_external ::
  "('i \<Rightarrow> 's \<Rightarrow> bool \<times> 's) \<Rightarrow> ('s \<Rightarrow> u8 list) \<Rightarrow> ('s \<Rightarrow> u8 list \<Rightarrow> 's option) \<Rightarrow>
     's \<Rightarrow> u8 list \<Rightarrow> 'i \<Rightarrow> (u8 list option \<times> 's) option" where
  "lex_external scan ser des payload external_token i =
     (case des payload external_token of
        None \<Rightarrow> None
      | Some payload \<Rightarrow>
          (let (found_token, payload) = scan i payload
           in if found_token
              then map_option (\<lambda>buf. (Some buf, payload)) (external_scanner_serialize ser payload)
              else Some (None, payload)))"

text \<open>
  A sequence of calls on one line of tokens, each token the last external one for the next call. The
  results are the success and the scanner object behind each call.
\<close>

fun lex_tokens ::
  "('i \<Rightarrow> 's \<Rightarrow> bool \<times> 's) \<Rightarrow> ('s \<Rightarrow> u8 list) \<Rightarrow> ('s \<Rightarrow> u8 list \<Rightarrow> 's option) \<Rightarrow>
     's \<Rightarrow> u8 list \<Rightarrow> 'i list \<Rightarrow> (bool \<times> 's) list option" where
  "lex_tokens scan ser des payload external_token [] = Some []"
| "lex_tokens scan ser des payload external_token (i # is) =
     (case lex_external scan ser des payload external_token i of
        None \<Rightarrow> None
      | Some (r, payload) \<Rightarrow>
          map_option ((#) (r \<noteq> None, payload))
            (lex_tokens scan ser des payload (case r of None \<Rightarrow> external_token | Some buf \<Rightarrow> buf) is))"

text \<open>The specification: the state of the scanner is kept, and a call that fails leaves it as it was.\<close>

fun kept_tokens :: "('i \<Rightarrow> 's \<Rightarrow> bool \<times> 's) \<Rightarrow> 's \<Rightarrow> 'i list \<Rightarrow> (bool \<times> 's) list" where
  "kept_tokens scan s [] = []"
| "kept_tokens scan s (i # is) =
     (let (found, s') = scan i s in (found, s') # kept_tokens scan (if found then s' else s) is)"

section \<open>What a scanner promises\<close>

locale external_scanner =
  fixes scan :: "'i \<Rightarrow> 's \<Rightarrow> bool \<times> 's" and ser :: "'s \<Rightarrow> u8 list" and des :: "'s \<Rightarrow> u8 list \<Rightarrow> 's option"
    and created :: 's and ok :: "'s \<Rightarrow> bool" and fits :: "'s \<Rightarrow> bool"
  assumes ok_created: "ok created"
    and ok_scan: "ok s \<Longrightarrow> ok (snd (scan i s))"
    and des_nil: "ok p \<Longrightarrow> \<exists>s'. des p [] = Some s' \<and> ok s' \<and> (\<forall>i. scan i s' = scan i created)"
    and des_ser: "ok p \<Longrightarrow> ok s \<Longrightarrow> fits s \<Longrightarrow>
      \<exists>s'. des p (ser s) = Some s' \<and> ok s' \<and> (\<forall>i. scan i s' = scan i s)"
    and ser_length: "ok s \<Longrightarrow> fits s \<Longrightarrow> length (ser s) \<le> TREE_SITTER_SERIALIZATION_BUFFER_SIZE"
begin

definition stands_for :: "u8 list \<Rightarrow> 's \<Rightarrow> bool" where
  "stands_for buf s \<longleftrightarrow> (\<forall>p. ok p \<longrightarrow> (\<exists>s'. des p buf = Some s' \<and> ok s' \<and> (\<forall>i. scan i s' = scan i s)))"

lemma lex_external_stored:
  assumes "ok p" "stands_for buf s" "scan i s = (found, s')" "found \<longrightarrow> ok s' \<longrightarrow> fits s'"
  shows "ok s' \<and> lex_external scan ser des p buf i = Some (if found then Some (ser s') else None, s') \<and>
    (found \<longrightarrow> stands_for (ser s') s')"
proof -
  obtain r where r: "des p buf = Some r" "ok r" "scan i r = (found, s')"
    using assms(1-3) unfolding stands_for_def by metis
  then have "ok s'" using ok_scan [of r i] by simp
  with r assms(4) show ?thesis
    using ser_length [of s'] des_ser [of _ s']
    by (auto simp: lex_external_def external_scanner_serialize_def stands_for_def)
qed

lemma lex_tokens_stored:
  assumes "ok p" "stands_for buf s" "list_all (\<lambda>(found, s'). found \<longrightarrow> fits s') (kept_tokens scan s is)"
  shows "lex_tokens scan ser des p buf is = Some (kept_tokens scan s is)"
  using assms
proof (induction "is" arbitrary: p buf s)
  case (Cons i "is")
  obtain found s' where s': "scan i s = (found, s')" by (metis surj_pair)
  with Cons.prems(3) have fits: "found \<longrightarrow> ok s' \<longrightarrow> fits s'"
    "list_all (\<lambda>(found, s'). found \<longrightarrow> fits s') (kept_tokens scan (if found then s' else s) is)"
    by auto
  note step = lex_external_stored [OF Cons.prems(1,2) s' fits(1)]
  then have "ok s'" "stands_for (if found then ser s' else buf) (if found then s' else s)"
    using Cons.prems(2) by auto
  from Cons.IH [OF this fits(2)] show ?case
    using step s' by (cases found) auto
qed simp

lemma lex_tokens_created:
  assumes "ok p" "list_all (\<lambda>(found, s'). found \<longrightarrow> fits s') (kept_tokens scan created is)"
  shows "lex_tokens scan ser des p [] is = Some (kept_tokens scan created is)"
  using assms des_nil by (intro lex_tokens_stored) (auto simp: stands_for_def)

lemma ok_kept: "ok s \<Longrightarrow> list_all (\<lambda>(found, s'). ok s') (kept_tokens scan s is)"
proof (induction "is" arbitrary: s)
  case (Cons i "is")
  then show ?case using ok_scan [of s i] by (auto simp: split_def Let_def)
qed simp

end

end
