(* ===== verification/Css_Scanner.thy ===== *)
theory Css_Scanner
  imports TSLexer
begin

text \<open>
  The external scanner of the CSS grammar, \<open>css/src/scanner.c\<close>. It has no state of its own. A call
  returns whether it found a token, with the lexer it left behind.
\<close>

section \<open>The scanner\<close>

datatype css_token = DESCENDANT_OP | PSEUDO_CLASS_SELECTOR_COLON | ERROR_RECOVERY

text \<open>The loop behind a colon that follows white space: a brace before the end of the declaration.\<close>

function descendant_colon_loop :: "css_token TSLexer \<Rightarrow> bool \<times> css_token TSLexer" where
  "descendant_colon_loop lexer =
     (if la lexer = ch CHR '';'' \<or> la lexer = ch CHR ''}'' \<or> eof lexer then (False, lexer)
      else if la lexer = ch CHR ''{'' then (True, lexer)
      else descendant_colon_loop (advance lexer))"
  by auto
termination by (relation "measure (\<lambda>l. length (rest l))") (auto simp: eof_def)

text \<open>The block for \<open>DESCENDANT_OP\<close>; \<open>None\<close> when control goes on behind it.\<close>

definition scan_descendant_op :: "css_token TSLexer \<Rightarrow> bool option \<times> css_token TSLexer" where
  "scan_descendant_op lexer =
     (let lexer = set_sym DESCENDANT_OP lexer;
          lexer = mark_end (skip_while iswspace (skip lexer))
      in if la lexer = ch CHR ''#'' \<or> la lexer = ch CHR ''.'' \<or> la lexer = ch CHR ''['' \<or>
            la lexer = ch CHR ''-'' \<or> la lexer = ch CHR ''*'' \<or> iswalnum (la lexer)
         then (Some True, lexer)
         else if la lexer = ch CHR '':'' then
           (let lexer = advance lexer
            in if iswspace (la lexer) then (Some False, lexer)
               else (let (found, lexer) = descendant_colon_loop lexer in (Some found, lexer)))
         else (None, lexer))"

text \<open>The loop that looks for the brace of a rule set behind a colon.\<close>

function pseudo_class_loop :: "bool \<Rightarrow> css_token TSLexer \<Rightarrow> bool \<times> css_token TSLexer" where
  "pseudo_class_loop in_comment lexer =
     (if la lexer \<noteq> ch CHR '';'' \<and> la lexer \<noteq> ch CHR ''}'' \<and> \<not> eof lexer then
        (let lexer = advance lexer
         in if la lexer = ch CHR ''{'' \<and> \<not> in_comment then (True, lexer)
            else if la lexer = ch CHR ''/'' \<and> \<not> in_comment then
              (let lexer = advance lexer
               in pseudo_class_loop (if la lexer = ch CHR ''*'' then True else in_comment) lexer)
            else if la lexer = ch CHR ''*'' \<and> in_comment then
              (let lexer = advance lexer
               in pseudo_class_loop (if la lexer = ch CHR ''/'' then False else in_comment) lexer)
            else pseudo_class_loop in_comment lexer)
      else (eof lexer, lexer))"
  by pat_completeness auto
termination
  by (relation "measure (\<lambda>(c, l). length (rest l))")
    (auto simp: eof_def length_tl_less intro: le_less_trans [OF _ length_tl_less])

definition scan_pseudo_class :: "css_token TSLexer \<Rightarrow> bool \<times> css_token TSLexer" where
  "scan_pseudo_class lexer =
     (let lexer = skip_while iswspace lexer
      in if la lexer = ch CHR '':'' then
           (let lexer = advance lexer
            in if la lexer = ch CHR '':'' then (False, lexer)
               else pseudo_class_loop False (set_sym PSEUDO_CLASS_SELECTOR_COLON (mark_end lexer)))
         else (False, lexer))"

definition css_scan :: "css_token TSLexer \<Rightarrow> (css_token \<Rightarrow> bool) \<Rightarrow> bool \<times> css_token TSLexer" where
  "css_scan lexer valid_symbols =
     (if valid_symbols ERROR_RECOVERY then (False, lexer)
      else
        (let (r, lexer) =
           (if iswspace (la lexer) \<and> valid_symbols DESCENDANT_OP then scan_descendant_op lexer
            else (None, lexer))
         in case r of
              Some found \<Rightarrow> (found, lexer)
            | None \<Rightarrow>
                if valid_symbols PSEUDO_CLASS_SELECTOR_COLON then scan_pseudo_class lexer
                else (False, lexer)))"

declare descendant_colon_loop.simps [simp del] pseudo_class_loop.simps [simp del]

section \<open>What the loops decide\<close>

definition in_declaration :: "int \<Rightarrow> bool" where
  "in_declaration c \<longleftrightarrow> c \<noteq> ch CHR '';'' \<and> c \<noteq> ch CHR ''}''"

lemma in_declaration_simps [simp]:
  "in_declaration (ch c) \<longleftrightarrow> c \<noteq> CHR '';'' \<and> c \<noteq> CHR ''}''"
  by (simp add: in_declaration_def)

lemma descendant_colon_loop_found:
  "fst (descendant_colon_loop l) \<longleftrightarrow> ch CHR ''{'' \<in> set (takeWhile in_declaration (rest l))"
proof (induction l rule: rest_induct)
  case (less l)
  show ?case
  proof (cases "rest l")
    case (Cons x s)
    then have "fst (descendant_colon_loop (advance l)) \<longleftrightarrow>
        ch CHR ''{'' \<in> set (takeWhile in_declaration s)" using less [of "advance l"] by simp
    with Cons show ?thesis
      by (auto simp: descendant_colon_loop.simps [of l] eof_def in_declaration_def [of x])
  qed (simp add: descendant_colon_loop.simps [of l] eof_def)
qed

lemma descendant_colon_loop_frame:
  "result_sym (snd (descendant_colon_loop l)) = result_sym l \<and>
   token_start (snd (descendant_colon_loop l)) = token_start l \<and>
   token_end (snd (descendant_colon_loop l)) = token_end l"
  by (induction l rule: descendant_colon_loop.induct) (subst (1 2 3) descendant_colon_loop.simps, simp)

lemma pseudo_class_loop_frame:
  "result_sym (snd (pseudo_class_loop c l)) = result_sym l \<and>
   token_start (snd (pseudo_class_loop c l)) = token_start l \<and>
   token_end (snd (pseudo_class_loop c l)) = token_end l"
  by (induction c l rule: pseudo_class_loop.induct)
    (subst (1 2 3) pseudo_class_loop.simps, simp add: Let_def)

text \<open>The same decision on the text alone, character by character.\<close>

fun brace_follows :: "bool \<Rightarrow> int list \<Rightarrow> bool" where
  "brace_follows in_comment [] = True"
| "brace_follows in_comment (c # s) =
     (if \<not> in_declaration c then False
      else case s of [] \<Rightarrow> True
      | d # s' \<Rightarrow>
          if d = ch CHR ''{'' \<and> \<not> in_comment then True
          else if d = ch CHR ''/'' \<and> \<not> in_comment
          then brace_follows (s' \<noteq> [] \<and> hd s' = ch CHR ''*'') s'
          else if d = ch CHR ''*'' \<and> in_comment
          then brace_follows (\<not> (s' \<noteq> [] \<and> hd s' = ch CHR ''/'')) s'
          else brace_follows in_comment s)"

declare brace_follows.simps [simp del]

lemma pseudo_class_loop_brace: "fst (pseudo_class_loop c l) = brace_follows c (rest l)"
proof (induction l arbitrary: c rule: rest_induct)
  case (less l)
  show ?case
  proof (cases "rest l")
    case Nil
    then show ?thesis by (simp add: pseudo_class_loop.simps [of c l] brace_follows.simps eof_def)
  next
    case (Cons x s)
    then show ?thesis
      by (cases s; cases "tl s")
        (simp_all add: pseudo_class_loop.simps [of c l] brace_follows.simps(1) brace_follows.simps(2) [of c x]
          less eof_def in_declaration_def Let_def)
  qed
qed

lemma brace_follows_plain:
  assumes "ch CHR ''/'' \<notin> set s"
  shows "brace_follows False s \<longleftrightarrow>
    ch CHR ''{'' \<in> set (tl (takeWhile in_declaration s)) \<or> list_all in_declaration s"
  using assms
proof (induction s)
  case (Cons c s)
  show ?case
  proof (cases s)
    case (Cons d s')
    then show ?thesis
      using Cons.IH Cons.prems \<open>s = d # s'\<close> by (auto simp: brace_follows.simps(2) [of False c])
  qed (simp add: brace_follows.simps)
qed (simp add: brace_follows.simps)

text \<open>
  Behind white space and a colon that no second colon follows, with no comment ahead, the
  scanner takes the colon as that of a pseudo-class selector exactly when an opening brace stands
  somewhere behind its first character before the declaration ends with a semicolon or a closing
  brace, or when the text ends without either. The token it reports is then the colon alone.
\<close>

theorem css_pseudo_class_correct:
  assumes "rest l = ws @ ch CHR '':'' # s" "list_all iswspace ws" "ch CHR ''/'' \<notin> set s"
    and "s = [] \<or> hd s \<noteq> ch CHR '':''"
    and "\<not> v ERROR_RECOVERY" "v PSEUDO_CLASS_SELECTOR_COLON" "ws = [] \<or> \<not> v DESCENDANT_OP"
  shows "(fst (css_scan l v) \<longleftrightarrow>
       ch CHR ''{'' \<in> set (tl (takeWhile in_declaration s)) \<or> list_all in_declaration s) \<and>
     result_sym (snd (css_scan l v)) = PSEUDO_CLASS_SELECTOR_COLON \<and>
     token_start (snd (css_scan l v)) = (if ws = [] then token_start l else pos l + length ws) \<and>
     token_end (snd (css_scan l v)) = Some (pos l + length ws + 1)"
proof -
  have colon: "\<not> iswspace (ch CHR '':'')" by (simp add: ch_def iswspace_def)
  note sp = skip_spaces [OF assms(1,2) colon]
  have "\<not> (iswspace (la l) \<and> v DESCENDANT_OP)" using assms(1,7) colon by auto
  then have "css_scan l v = scan_pseudo_class l" using assms(5,6) by (auto simp: css_scan_def)
  moreover have "la (advance (skip_while iswspace l)) \<noteq> ch CHR '':''"
    using sp(1) assms(4) by (cases s) auto
  ultimately have run: "css_scan l v = pseudo_class_loop False
      (set_sym PSEUDO_CLASS_SELECTOR_COLON (mark_end (advance (skip_while iswspace l))))"
    using sp(2) by (simp add: scan_pseudo_class_def Let_def)
  show ?thesis
    unfolding run using sp brace_follows_plain [OF assms(3)]
    by (simp add: pseudo_class_loop_brace pseudo_class_loop_frame)
qed

theorem css_pseudo_class_correct_witness:
  "fst (css_scan (lexer_on DESCENDANT_OP (text_of '':hover{'')) (\<lambda>t. t = PSEUDO_CLASS_SELECTOR_COLON)) \<and>
   token_end (snd (css_scan (lexer_on DESCENDANT_OP (text_of '':hover{''))
     (\<lambda>t. t = PSEUDO_CLASS_SELECTOR_COLON))) = Some 1"
  using css_pseudo_class_correct [of "lexer_on DESCENDANT_OP (text_of '':hover{'')" "[]"
      "text_of ''hover{''" "\<lambda>t. t = PSEUDO_CLASS_SELECTOR_COLON"]
  by (simp add: lexer_on_def text_of_def)

text \<open>
  White space in front of a selector is a descendant operator exactly when what follows can
  start a selector: one of the characters of a simple selector, or a colon that no white space
  follows and behind which an opening brace comes before the end of the declaration. The token
  covers no character: it starts and ends behind the white space.
\<close>

theorem css_descendant_op_correct:
  assumes "rest l = ws @ c # s" "ws \<noteq> []" "list_all iswspace ws" "\<not> iswspace c"
    and "\<not> v ERROR_RECOVERY" "v DESCENDANT_OP" "\<not> v PSEUDO_CLASS_SELECTOR_COLON"
  shows "(fst (css_scan l v) \<longleftrightarrow>
       c \<in> ch ` set ''#.[-*'' \<or> iswalnum c \<or>
       c = ch CHR '':'' \<and> (s = [] \<or> \<not> iswspace (hd s)) \<and>
         ch CHR ''{'' \<in> set (takeWhile in_declaration s)) \<and>
     result_sym (snd (css_scan l v)) = DESCENDANT_OP \<and>
     token_start (snd (css_scan l v)) = pos l + length ws \<and>
     token_end (snd (css_scan l v)) = Some (pos l + length ws)"
proof -
  obtain w ws' where ws: "ws = w # ws'" using assms(2) by (cases ws) auto
  define k where "k = skip_while iswspace (skip (set_sym DESCENDANT_OP l))"
  have "rest (skip (set_sym DESCENDANT_OP l)) = ws' @ c # s" "list_all iswspace ws'"
    using assms(1,3) ws by auto
  note sp = skip_spaces [OF this assms(4), folded k_def]
  have k: "pos k = pos l + length ws" "token_start k = pos l + length ws" "result_sym k = DESCENDANT_OP"
    using sp ws assms(1) by (auto simp: k_def)
  have spc: "iswspace (la (advance k)) \<longleftrightarrow> s \<noteq> [] \<and> iswspace (hd s)"
    using sp(1) by (cases s) auto
  have colon: "\<not> iswalnum (ch CHR '':'')" by (simp add: ch_def isw_defs)
  have "css_scan l v = (case scan_descendant_op l of (Some found, l') \<Rightarrow> (found, l') | (None, l') \<Rightarrow> (False, l'))"
    using assms ws by (auto simp: css_scan_def split: prod.split option.split)
  moreover have "scan_descendant_op l =
     (if c \<in> ch ` set ''#.[-*'' \<or> iswalnum c then (Some True, mark_end k)
      else if c = ch CHR '':'' then
        (if s \<noteq> [] \<and> iswspace (hd s) then (Some False, advance (mark_end k))
         else (Some (fst (descendant_colon_loop (advance (mark_end k)))),
               snd (descendant_colon_loop (advance (mark_end k)))))
      else (None, mark_end k))"
    using sp(2) spc unfolding scan_descendant_op_def Let_def k_def [symmetric]
    by (auto simp: split_beta)
  ultimately show ?thesis
    using k sp(1) colon
    by (auto simp: descendant_colon_loop_found descendant_colon_loop_frame)
qed

theorem css_descendant_op_correct_witness:
  "fst (css_scan (lexer_on DESCENDANT_OP (text_of '' .b{'')) (\<lambda>t. t = DESCENDANT_OP)) \<and>
   token_end (snd (css_scan (lexer_on DESCENDANT_OP (text_of '' .b{'')) (\<lambda>t. t = DESCENDANT_OP))) = Some 1"
  using css_descendant_op_correct [of "lexer_on DESCENDANT_OP (text_of '' .b{'')" "[ch CHR '' '']"
      "ch CHR ''.''" "text_of ''b{''" "\<lambda>t. t = DESCENDANT_OP"]
  by (simp add: lexer_on_def text_of_def) (simp add: ch_def iswspace_def)

text \<open>
  A semicolon inside a comment ends the search. The text behind the colon is \<open>c # u\<close> with no
  special character, then a comment that contains a semicolon.
\<close>

lemma brace_follows_step:
  "in_declaration c \<Longrightarrow> d \<noteq> ch CHR ''{'' \<Longrightarrow> d \<noteq> ch CHR ''/'' \<Longrightarrow>
     brace_follows False (c # d # s) = brace_follows False (d # s)"
  "in_declaration c \<Longrightarrow> d \<noteq> ch CHR ''*'' \<Longrightarrow>
     brace_follows True (c # d # s) = brace_follows True (d # s)"
  by (simp_all add: brace_follows.simps(2) [of _ c])

lemma brace_follows_comment_body:
  "list_all (\<lambda>d. in_declaration d \<and> d \<noteq> ch CHR ''*'') b \<Longrightarrow> in_declaration c \<Longrightarrow>
     \<not> brace_follows True (c # b @ ch CHR '';'' # w)"
proof (induction b arbitrary: c)
  case Nil
  then show ?case by (simp add: brace_follows_step) (simp add: brace_follows.simps)
qed (simp add: brace_follows_step)

lemma brace_follows_before_comment:
  assumes "in_declaration c" "list_all (\<lambda>d. in_declaration d \<and> d \<noteq> ch CHR ''{'' \<and> d \<noteq> ch CHR ''/'') u"
  shows "brace_follows False (c # u @ ch CHR ''/'' # ch CHR ''*'' # s) =
    brace_follows True (ch CHR ''*'' # s)"
  using assms
proof (induction u arbitrary: c)
  case Nil
  then show ?case by (simp add: brace_follows.simps(2) [of _ c])
qed (simp add: brace_follows_step)

text \<open>
  A semicolon inside a comment ends the search for the opening brace, although the comment in
  the source says that a comment does not count: whatever follows the comment, the colon is not
  taken as that of a pseudo-class selector.
\<close>

theorem css_semicolon_in_comment:
  assumes "rest l = ch CHR '':'' # c # u @ text_of ''/*'' @ b @ ch CHR '';'' # w"
    and "c \<noteq> ch CHR '':''" "in_declaration c"
    and "list_all (\<lambda>d. in_declaration d \<and> d \<noteq> ch CHR ''{'' \<and> d \<noteq> ch CHR ''/'') u"
    and "list_all (\<lambda>d. in_declaration d \<and> d \<noteq> ch CHR ''*'') b"
    and "\<not> v ERROR_RECOVERY"
  shows "\<not> fst (css_scan l v)"
proof -
  let ?l = "set_sym PSEUDO_CLASS_SELECTOR_COLON (mark_end (advance l))"
  have "\<not> iswspace (ch CHR '':'')" by (simp add: ch_def iswspace_def)
  then have "skip_while iswspace l = l" "\<not> iswspace (la l)" using assms(1) by (simp_all add: skip_while.simps)
  then have "css_scan l v = (if v PSEUDO_CLASS_SELECTOR_COLON then pseudo_class_loop False ?l else (False, l))"
    using assms(1,2,6) by (auto simp: css_scan_def scan_pseudo_class_def Let_def)
  moreover have "\<not> brace_follows False (rest ?l)"
    using brace_follows_comment_body [OF assms(5), of "ch CHR ''*''" w] brace_follows_before_comment [OF assms(3,4)]
      assms(1) by (simp add: text_of_def)
  ultimately show ?thesis by (simp add: pseudo_class_loop_brace)
qed

theorem css_semicolon_in_comment_witness:
  "\<not> fst (css_scan (lexer_on DESCENDANT_OP (text_of '':hover/*;*/{'')) (\<lambda>t. t = PSEUDO_CLASS_SELECTOR_COLON))"
  by (rule css_semicolon_in_comment [where c = "ch CHR ''h''" and u = "text_of ''over''" and b = "[]"
        and w = "text_of ''*/{''"])
    (simp_all add: lexer_on_def text_of_def)

section \<open>The scanner moves forward\<close>

lemma later_descendant_colon_loop [scan_mono]:
  "later m l \<Longrightarrow> later m (snd (descendant_colon_loop l))"
proof (induction l rule: descendant_colon_loop.induct)
  case (1 l)
  then show ?case by (subst descendant_colon_loop.simps) (simp add: scan_mono)
qed

lemma later_pseudo_class_loop [scan_mono]: "later m l \<Longrightarrow> later m (snd (pseudo_class_loop c l))"
proof (induction c l rule: pseudo_class_loop.induct)
  case (1 c l)
  then show ?case by (subst pseudo_class_loop.simps) (simp add: Let_def scan_mono)
qed

lemma later_css_scan [scan_mono]: "later m l \<Longrightarrow> later m (snd (css_scan l v))"
  by (auto simp: css_scan_def scan_descendant_op_def scan_pseudo_class_def Let_def split_beta scan_mono
      split: option.split)

end
