(* ===== verification/Js_Scanner.thy ===== *)
theory Js_Scanner
  imports TSLexer
begin

text \<open>
  The external scanner of the JavaScript grammar, \<open>javascript/src/scanner.c\<close>: template strings,
  automatic semicolon insertion, the question mark of the conditional operator, HTML-like comments
  and JSX text. It has no state of its own. The scanner of TypeScript, in the theory \<open>Ts_Scanner\<close>,
  shares the routines that are the same text there.
\<close>

section \<open>The scanner\<close>

text \<open>
  The tokens in the order of the enumeration of \<open>common/scanner.h\<close>, whose first eight are those of
  \<open>javascript/src/scanner.c\<close>.
\<close>

datatype js_token =
  AUTOMATIC_SEMICOLON | TEMPLATE_CHARS | TERNARY_QMARK | HTML_COMMENT | LOGICAL_OR | ESCAPE_SEQUENCE
  | REGEX_PATTERN | JSX_TEXT | FUNCTION_SIGNATURE_AUTOMATIC_SEMICOLON | JS_ERROR_RECOVERY

function template_chars_loop :: "bool \<Rightarrow> js_token TSLexer \<Rightarrow> bool \<times> js_token TSLexer" where
  "template_chars_loop has_content lexer =
     (let lexer = mark_end lexer
      in if la lexer = ch CHR 0x60 then (has_content, lexer)
         else if la lexer = 0 then (False, lexer)
         else if la lexer = ch CHR ''$'' then
           (let lexer = advance lexer
            in if la lexer = ch CHR ''{'' then (has_content, lexer)
               else template_chars_loop True lexer)
         else if la lexer = ch CHR 0x5C then (has_content, lexer)
         else template_chars_loop True (advance lexer))"
  by pat_completeness auto
termination
  by (relation "measure (\<lambda>(h, l). length (rest l))") (auto simp: length_tl_less dest: la_nonzero la_ch_rest)

definition scan_template_chars :: "js_token TSLexer \<Rightarrow> bool \<times> js_token TSLexer" where
  "scan_template_chars lexer = template_chars_loop False (set_sym TEMPLATE_CHARS lexer)"

datatype WhitespaceResult = REJECT | NO_NEWLINE | ACCEPT

definition is_line_end :: "int \<Rightarrow> bool" where
  "is_line_end c \<longleftrightarrow> c = 10 \<or> c = 0x2028 \<or> c = 0x2029"

text \<open>
  The loop over the body of a block comment. The first component is \<open>Some\<close> result when the function
  returns from inside the loop; the others are \<open>saw_block_newline\<close>, \<open>scanned_comment\<close> and the lexer.
\<close>

function block_comment_loop ::
  "bool \<Rightarrow> bool \<Rightarrow> bool \<Rightarrow> js_token TSLexer \<Rightarrow> WhitespaceResult option \<times> bool \<times> bool \<times> js_token TSLexer" where
  "block_comment_loop consume saw_block_newline scanned_comment lexer =
     (if la lexer \<noteq> 0 then
        if la lexer = ch CHR ''*'' then
          (let lexer = skip lexer
           in if la lexer = ch CHR ''/'' then
                (let lexer = skip lexer
                 in if la lexer \<noteq> ch CHR ''/'' \<and> \<not> consume
                    then (Some (if saw_block_newline then ACCEPT else NO_NEWLINE), saw_block_newline, True, lexer)
                    else (None, saw_block_newline, True, lexer))
              else block_comment_loop consume saw_block_newline scanned_comment lexer)
        else if is_line_end (la lexer) then
          block_comment_loop consume True scanned_comment (skip lexer)
        else block_comment_loop consume saw_block_newline scanned_comment (skip lexer)
      else (None, saw_block_newline, scanned_comment, lexer))"
  by pat_completeness auto
termination
  by (relation "measure (\<lambda>(c, s, d, l). length (rest l))") (auto simp: length_tl_less dest: la_nonzero la_ch_rest)

declare template_chars_loop.simps [simp del] block_comment_loop.simps [simp del]

lemma later_block_comment_loop [scan_mono]:
  "later m l \<Longrightarrow> later m (snd (snd (snd (block_comment_loop c s d l))))"
proof (induction c s d l rule: block_comment_loop.induct)
  case (1 c s d l)
  then show ?case by (subst block_comment_loop.simps) (simp add: Let_def scan_mono)
qed

text \<open>
  The loop of \<open>scan_whitespace_and_comments\<close>, with its local \<open>saw_block_newline\<close> and the flag
  \<open>scanned_comment\<close> of the caller.
\<close>

function whitespace_loop ::
  "bool \<Rightarrow> bool \<Rightarrow> bool \<Rightarrow> js_token TSLexer \<Rightarrow> WhitespaceResult \<times> bool \<times> js_token TSLexer" where
  "whitespace_loop consume saw_block_newline scanned_comment lexer =
     (let lexer = skip_while iswspace lexer
      in if la lexer = ch CHR ''/'' then
           (let lexer = skip lexer
            in if la lexer = ch CHR ''/'' then
                 (let lexer = skip_while (\<lambda>c. c \<noteq> 0 \<and> \<not> is_line_end c) (skip lexer)
                  in whitespace_loop consume saw_block_newline True lexer)
               else if la lexer = ch CHR ''*'' then
                 (case block_comment_loop consume saw_block_newline scanned_comment (skip lexer) of
                    (Some result, saw_block_newline, scanned_comment, lexer) \<Rightarrow> (result, scanned_comment, lexer)
                  | (None, saw_block_newline, scanned_comment, lexer) \<Rightarrow>
                      whitespace_loop consume saw_block_newline scanned_comment lexer)
               else (REJECT, scanned_comment, lexer))
         else (ACCEPT, scanned_comment, lexer))"
  by pat_completeness auto

termination
proof (relation "measure (\<lambda>(c, s, d, l). length (rest l))", goal_cases)
  case (2 c s d l x xa xb)
  then have "length (rest xb) < length (rest l)"
    by (intro later_less [of l x]) (simp_all add: scan_mono)
  then show ?case by simp
next
  case (3 c s d l x xa xb y xc ya xd z)
  then have "z = snd (snd (snd (block_comment_loop c s d (skip xa))))" by (metis snd_conv)
  with 3 have "length (rest z) < length (rest l)"
    by (intro later_less [of l x]) (simp_all add: scan_mono)
  then show ?case by simp
qed simp

declare whitespace_loop.simps [simp del]

definition scan_whitespace_and_comments ::
  "js_token TSLexer \<Rightarrow> bool \<Rightarrow> bool \<Rightarrow> WhitespaceResult \<times> bool \<times> js_token TSLexer" where
  "scan_whitespace_and_comments lexer scanned_comment consume =
     whitespace_loop consume False scanned_comment lexer"

text \<open>The loop over a string literal that the input is compared with.\<close>

fun match_skip :: "string \<Rightarrow> 'sym TSLexer \<Rightarrow> bool \<times> 'sym TSLexer" where
  "match_skip [] lexer = (True, lexer)"
| "match_skip (c # cs) lexer =
     (if la lexer \<noteq> ch c then (False, lexer) else match_skip cs (skip lexer))"

fun match_advance :: "string \<Rightarrow> 'sym TSLexer \<Rightarrow> bool \<times> 'sym TSLexer" where
  "match_advance [] lexer = (True, lexer)"
| "match_advance (c # cs) lexer =
     (if la lexer \<noteq> ch c then (False, lexer) else match_advance cs (advance lexer))"

text \<open>
  The first loop of \<open>scan_automatic_semicolon\<close>: \<open>Some\<close> result when it returns, \<open>None\<close> when it
  leaves the loop at the end of a line.
\<close>

lemma later_whitespace_loop [scan_mono]: "later m l \<Longrightarrow> later m (snd (snd (whitespace_loop c s d l)))"
proof (induction c s d l rule: whitespace_loop.induct)
  case (1 c s d l)
  define a where "a = skip_while iswspace l"
  obtain r s' d' b where b: "block_comment_loop c s d (skip (skip a)) = (r, s', d', b)"
    using prod_cases4 by blast
  have "later m (skip (skip a))" using 1(3) by (simp add: a_def scan_mono)
  then have "later m b" using later_block_comment_loop [of m "skip (skip a)" c s d] b by simp
  with b 1(1) [OF a_def _ refl] 1(2) [OF a_def _ refl _ _ b [symmetric]] 1(3) show ?case
    unfolding whitespace_loop.simps [of c s d l] Let_def a_def [symmetric]
    by (auto simp: a_def scan_mono split: option.split)
qed

function semicolon_loop ::
  "bool \<Rightarrow> bool \<Rightarrow> js_token TSLexer \<Rightarrow> bool option \<times> bool \<times> js_token TSLexer" where
  "semicolon_loop comment_condition scanned_comment lexer =
     (if la lexer = 0 then (Some True, scanned_comment, lexer)
      else
        (let (result, scanned_comment, lexer) =
           (if la lexer = ch CHR ''/''
            then (let (r, scanned_comment, lexer) = scan_whitespace_and_comments lexer scanned_comment False
                  in (Some r, scanned_comment, lexer))
            else (None, scanned_comment, lexer))
         in if result = Some REJECT then (Some False, scanned_comment, lexer)
            else if result = Some ACCEPT \<and> comment_condition \<and> la lexer \<noteq> ch CHR '','' \<and> la lexer \<noteq> ch CHR ''=''
            then (Some True, scanned_comment, lexer)
            else if la lexer = ch CHR ''}'' then (Some True, scanned_comment, lexer)
            else if is_at_included_range_start lexer then (Some True, scanned_comment, lexer)
            else if is_line_end (la lexer) then (None, scanned_comment, lexer)
            else if \<not> iswspace (la lexer) then (Some False, scanned_comment, lexer)
            else semicolon_loop comment_condition scanned_comment (skip lexer)))"
  by pat_completeness auto
termination
proof (relation "measure (\<lambda>(c, d, l). length (rest l))", goal_cases)
  case (2 c d l x r y d' l')
  then have "l' = snd (snd (whitespace_loop False False d l)) \<or> l' = l"
    unfolding scan_whitespace_and_comments_def split_beta Let_def by (metis snd_conv)
  then have "later l l'" by (auto simp: scan_mono)
  moreover have "la l' \<noteq> 0" using 2 by auto
  ultimately have "length (rest (skip l')) < length (rest l)"
    by (intro later_less) auto
  then show ?case by simp
qed simp

text \<open>The keywords \<open>in\<close> and \<open>instanceof\<close>.\<close>

definition scan_in_keyword :: "js_token TSLexer \<Rightarrow> bool \<times> js_token TSLexer" where
  "scan_in_keyword lexer =
     (let lexer = skip lexer
      in if la lexer \<noteq> ch CHR ''n'' then (True, lexer)
         else
           (let lexer = skip lexer
            in if \<not> iswalpha (la lexer) then (False, lexer)
               else
                 (let (matched, lexer) = match_skip ''stanceof'' lexer
                  in if \<not> matched then (True, lexer) else (iswalpha (la lexer), lexer))))"

definition semicolon_before :: "js_token TSLexer \<Rightarrow> bool \<times> js_token TSLexer" where
  "semicolon_before lexer =
     (if la lexer \<in> ch ` set (CHR 0x60 # '',:;*%><=[(?^|&/'') then (False, lexer)
      else if la lexer = ch CHR ''.'' then (let lexer = skip lexer in (iswdigit (la lexer), lexer))
      else if la lexer = ch CHR ''+'' then (let lexer = skip lexer in (la lexer = ch CHR ''+'', lexer))
      else if la lexer = ch CHR ''-'' then (let lexer = skip lexer in (la lexer = ch CHR ''-'', lexer))
      else if la lexer = ch CHR ''!'' then (let lexer = skip lexer in (la lexer \<noteq> ch CHR ''='', lexer))
      else if la lexer = ch CHR ''i'' then scan_in_keyword lexer
      else (True, lexer))"

definition scan_automatic_semicolon ::
  "js_token TSLexer \<Rightarrow> bool \<Rightarrow> bool \<Rightarrow> bool \<times> bool \<times> js_token TSLexer" where
  "scan_automatic_semicolon lexer comment_condition scanned_comment =
     (let lexer = mark_end (set_sym AUTOMATIC_SEMICOLON lexer)
      in case semicolon_loop comment_condition scanned_comment lexer of
           (Some r, scanned_comment, lexer) \<Rightarrow> (r, scanned_comment, lexer)
         | (None, scanned_comment, lexer) \<Rightarrow>
             (case scan_whitespace_and_comments (skip lexer) scanned_comment True of
                (REJECT, scanned_comment, lexer) \<Rightarrow> (False, scanned_comment, lexer)
              | (_, scanned_comment, lexer) \<Rightarrow>
                  (let (r, lexer) = semicolon_before lexer in (r, scanned_comment, lexer))))"

definition scan_ternary_qmark :: "js_token TSLexer \<Rightarrow> bool \<times> js_token TSLexer" where
  "scan_ternary_qmark lexer =
     (let lexer = skip_while iswspace lexer
      in if la lexer = ch CHR ''?'' then
           (let lexer = advance lexer
            in if la lexer = ch CHR ''?'' then (False, lexer)
               else
                 (let lexer = set_sym TERNARY_QMARK (mark_end lexer)
                  in if la lexer = ch CHR ''.''
                     then (let lexer = advance lexer in (iswdigit (la lexer), lexer))
                     else (True, lexer)))
         else (False, lexer))"

definition scan_html_comment :: "js_token TSLexer \<Rightarrow> bool \<times> js_token TSLexer" where
  "scan_html_comment lexer =
     (let lexer = skip_while (\<lambda>c. iswspace c \<or> c = 0x2028 \<or> c = 0x2029) lexer;
          (matched, lexer) =
            (if la lexer = ch CHR ''<'' then match_advance ''<!--'' lexer
             else if la lexer = ch CHR ''-'' then match_advance ''-->'' lexer
             else (False, lexer))
      in if \<not> matched then (False, lexer)
         else
           (let lexer = advance_while (\<lambda>c. c \<noteq> 0 \<and> \<not> is_line_end c) lexer
            in (True, mark_end (set_sym HTML_COMMENT lexer))))"

definition is_jsx_char :: "int \<Rightarrow> bool" where
  "is_jsx_char c \<longleftrightarrow> c \<noteq> 0 \<and> c \<notin> ch ` set ''<>{}&''"

function jsx_text_loop :: "bool \<Rightarrow> bool \<Rightarrow> js_token TSLexer \<Rightarrow> bool \<times> js_token TSLexer" where
  "jsx_text_loop saw_text at_newline lexer =
     (if is_jsx_char (la lexer) then
        (let is_wspace = iswspace (la lexer);
             (at_newline, saw_text) =
               (if la lexer = 10 then (True, saw_text)
                else (let at_newline = (at_newline \<and> is_wspace)
                      in (at_newline, if \<not> at_newline then True else saw_text)))
         in jsx_text_loop saw_text at_newline (advance lexer))
      else (saw_text, lexer))"
  by pat_completeness auto
termination
  by (relation "measure (\<lambda>(s, a, l). length (rest l))")
    (auto simp: length_tl_less is_jsx_char_def dest: la_nonzero)

definition scan_jsx_text :: "js_token TSLexer \<Rightarrow> bool \<times> js_token TSLexer" where
  "scan_jsx_text lexer =
     (let (saw_text, lexer) = jsx_text_loop False False lexer in (saw_text, set_sym JSX_TEXT lexer))"

definition js_scan :: "js_token TSLexer \<Rightarrow> (js_token \<Rightarrow> bool) \<Rightarrow> bool \<times> js_token TSLexer" where
  "js_scan lexer valid_symbols =
     (if valid_symbols TEMPLATE_CHARS then
        (if valid_symbols AUTOMATIC_SEMICOLON then (False, lexer) else scan_template_chars lexer)
      else
        (let (jsx, lexer) = (if valid_symbols JSX_TEXT then scan_jsx_text lexer else (False, lexer))
         in if jsx then (True, lexer)
            else if valid_symbols AUTOMATIC_SEMICOLON then
              (let (ret, scanned_comment, lexer) =
                 scan_automatic_semicolon lexer (\<not> valid_symbols LOGICAL_OR) False
               in if \<not> ret \<and> \<not> scanned_comment \<and> valid_symbols TERNARY_QMARK \<and> la lexer = ch CHR ''?''
                  then scan_ternary_qmark lexer
                  else (ret, lexer))
            else if valid_symbols TERNARY_QMARK then scan_ternary_qmark lexer
            else if valid_symbols HTML_COMMENT \<and> \<not> valid_symbols LOGICAL_OR \<and>
                    \<not> valid_symbols ESCAPE_SEQUENCE \<and> \<not> valid_symbols REGEX_PATTERN
            then scan_html_comment lexer
            else (False, lexer)))"

declare semicolon_loop.simps [simp del] jsx_text_loop.simps [simp del]
  match_skip.simps [simp del] match_advance.simps [simp del]

section \<open>Template strings\<close>

text \<open>The characters of a template string up to a delimiter, an escape or a substitution.\<close>

fun template_prefix :: "int list \<Rightarrow> nat" where
  "template_prefix [] = 0"
| "template_prefix (c # s) =
     (if c = ch CHR 0x60 \<or> c = 0 \<or> c = ch CHR 0x5C \<or> (c = ch CHR ''$'' \<and> s \<noteq> [] \<and> hd s = ch CHR ''{'') then 0
      else Suc (template_prefix s))"

lemma template_prefix_le: "template_prefix s \<le> length s"
  by (induction s) auto

lemma template_chars_loop_eq:
  "let n = template_prefix (rest l); l' = snd (template_chars_loop h l)
   in fst (template_chars_loop h l) = ((h \<or> 0 < n) \<and> n < length (rest l) \<and> rest l ! n \<noteq> 0) \<and>
      token_end l' = Some (pos l + n) \<and> token_start l' = token_start l \<and> result_sym l' = result_sym l"
proof (induction l arbitrary: h rule: rest_induct)
  case (less l)
  show ?case
  proof (cases "rest l")
    case Nil
    then show ?thesis by (simp add: template_chars_loop.simps [of h l] Let_def)
  next
    case (Cons c s)
    have IH: "let n = template_prefix s; l' = snd (template_chars_loop True (advance (mark_end l)))
      in fst (template_chars_loop True (advance (mark_end l))) = (n < length s \<and> s ! n \<noteq> 0) \<and>
        token_end l' = Some (Suc (pos l) + n) \<and> token_start l' = token_start l \<and> result_sym l' = result_sym l"
      using less [of "advance (mark_end l)" True] Cons by simp
    have next_la: "la (advance l) = (if s = [] then 0 else hd s)" using Cons by (cases s) auto
    show ?thesis
      using IH Cons next_la by (auto simp: template_chars_loop.simps [of h l] Let_def)
  qed
qed

text \<open>
  \<open>scan_template_chars\<close> takes exactly the characters up to the first back quote, backslash,
  \<open>${\<close> or null character: it succeeds when there is at least one of them and the text does not end
  there (nor a null character stand there), and the token ends right behind them.
\<close>

theorem template_chars_correct:
  "let n = template_prefix (rest l)
   in fst (scan_template_chars l) = (0 < n \<and> n < length (rest l) \<and> rest l ! n \<noteq> 0) \<and>
      result_sym (snd (scan_template_chars l)) = TEMPLATE_CHARS \<and>
      token_start (snd (scan_template_chars l)) = token_start l \<and>
      token_end (snd (scan_template_chars l)) = Some (pos l + n)"
  using template_chars_loop_eq [of "set_sym TEMPLATE_CHARS l" False]
  by (simp add: scan_template_chars_def Let_def)

section \<open>JSX text\<close>

fun split_lines :: "int list \<Rightarrow> int list list" where
  "split_lines [] = [[]]"
| "split_lines (c # s) =
     (if c = 10 then [] # split_lines s else (c # hd (split_lines s)) # tl (split_lines s))"

lemma split_lines_nonempty [simp]: "split_lines s \<noteq> []"
  by (cases s) auto

text \<open>A line with more than white space, and text that is more than indentation between lines.\<close>

definition solid :: "int list \<Rightarrow> bool" where
  "solid ln \<longleftrightarrow> list_ex (\<lambda>c. \<not> iswspace c) ln"

definition jsx_content :: "int list \<Rightarrow> bool" where
  "jsx_content t \<longleftrightarrow> hd (split_lines t) \<noteq> [] \<or> list_ex solid (tl (split_lines t))"

lemma list_ex_hd_tl: "xs \<noteq> [] \<Longrightarrow> list_ex P xs \<longleftrightarrow> P (hd xs) \<or> list_ex P (tl xs)"
  by (cases xs) auto

lemma jsx_text_loop_eq:
  "fst (jsx_text_loop saw nl l) =
     (saw \<or> (let t = takeWhile is_jsx_char (rest l)
             in if nl then list_ex solid (split_lines t) else jsx_content t))"
proof (induction l arbitrary: saw nl rule: rest_induct)
  case (less l)
  show ?case
  proof (cases "rest l")
    case Nil
    then show ?thesis
      by (simp add: jsx_text_loop.simps [of saw nl l] is_jsx_char_def jsx_content_def solid_def Let_def)
  next
    case (Cons c s)
    then have IH: "fst (jsx_text_loop saw nl (advance l)) =
     (saw \<or> (let t = takeWhile is_jsx_char s
             in if nl then list_ex solid (split_lines t) else jsx_content t))" for saw nl
      using less [of "advance l"] by simp
    show ?thesis
    proof (cases "is_jsx_char c")
      case True
      have "iswspace 10" by (simp add: iswspace_def)
      with True Cons show ?thesis
        by (auto simp: jsx_text_loop.simps [of saw nl l] IH Let_def jsx_content_def solid_def list_ex_hd_tl)
    next
      case False
      with Cons show ?thesis
        by (simp add: jsx_text_loop.simps [of saw nl l] jsx_content_def solid_def Let_def)
    qed
  qed
qed

lemma jsx_text_loop_frame:
  "rest (snd (jsx_text_loop saw nl l)) = dropWhile is_jsx_char (rest l) \<and>
   token_end (snd (jsx_text_loop saw nl l)) = token_end l \<and>
   token_start (snd (jsx_text_loop saw nl l)) = token_start l"
proof (induction l arbitrary: saw nl rule: rest_induct)
  case (less l)
  show ?case
  proof (cases "rest l")
    case Nil
    then show ?thesis by (simp add: jsx_text_loop.simps [of saw nl l] is_jsx_char_def)
  next
    case (Cons c s)
    then show ?thesis
      using less [of "advance l"]
      by (simp add: jsx_text_loop.simps [of saw nl l] Let_def split_beta)
  qed
qed

text \<open>
  \<open>scan_jsx_text\<close> reads up to the next angle bracket, brace, ampersand or null character and
  succeeds exactly when that stretch holds something besides line breaks and the indentation
  behind them: its first line is not empty, or a later line is not all white space.
\<close>

theorem jsx_text_correct:
  "let t = takeWhile is_jsx_char (rest l)
   in fst (scan_jsx_text l) = jsx_content t \<and>
      rest (snd (scan_jsx_text l)) = drop (length t) (rest l) \<and>
      result_sym (snd (scan_jsx_text l)) = JSX_TEXT"
  using jsx_text_loop_eq [of False False l] jsx_text_loop_frame [of False False l]
  by (simp add: scan_jsx_text_def Let_def split_beta dropWhile_eq_drop)

section \<open>Automatic semicolons\<close>

text \<open>
  The texts that continue a statement behind a line break. A keyword is a whole identifier: no further character of an identifier
  (letters, digits, \<open>_\<close>, \<open>$\<close>, escapes and all characters beyond ASCII) follows it.
\<close>

definition ident_char :: "int \<Rightarrow> bool" where
  "ident_char c \<longleftrightarrow> iswalnum c \<or> c \<in> ch ` set ''_$'' \<or> c = 0x5C \<or> 127 < c"

definition keyword :: "string \<Rightarrow> int list \<Rightarrow> bool" where
  "keyword k s \<longleftrightarrow> take (length k) s = text_of k \<and> (length k < length s \<longrightarrow> \<not> ident_char (s ! length k))"

text \<open>
  An identifier that the code takes for the keyword at its front, because a character of an identifier follows that is no
  letter, as in \<open>in_x\<close> and \<open>instanceof2\<close>.
\<close>

definition misread_identifier :: "string \<Rightarrow> int list \<Rightarrow> bool" where
  "misread_identifier k s \<longleftrightarrow> take (length k) s = text_of k \<and> length k < length s \<and>
     ident_char (s ! length k) \<and> \<not> iswalpha (s ! length k)"

definition read_as_keyword :: "string \<Rightarrow> int list \<Rightarrow> bool" where
  "read_as_keyword k s \<longleftrightarrow> take (length k) s = text_of k \<and>
     (length s \<le> length k \<or> \<not> iswalpha (s ! length k))"

fun continues :: "int list \<Rightarrow> bool" where
  "continues [] = False"
| "continues (c # s) \<longleftrightarrow>
     c \<in> ch ` set (CHR 0x60 # '',:;*%><=[(?^|&/'') \<or>
     c = ch CHR ''.'' \<and> \<not> (s \<noteq> [] \<and> iswdigit (hd s)) \<or>
     c = ch CHR ''+'' \<and> \<not> (s \<noteq> [] \<and> hd s = ch CHR ''+'') \<or>
     c = ch CHR ''-'' \<and> \<not> (s \<noteq> [] \<and> hd s = ch CHR ''-'') \<or>
     c = ch CHR ''!'' \<and> s \<noteq> [] \<and> hd s = ch CHR ''='' \<or>
     keyword ''in'' (c # s) \<or> keyword ''instanceof'' (c # s)"

lemma read_as_keyword_eq: "read_as_keyword k s \<longleftrightarrow> keyword k s \<or> misread_identifier k s"
  by (auto simp: read_as_keyword_def keyword_def misread_identifier_def ident_char_def iswalnum_def)

lemma match_skip_eq:
  assumes "CHR 0x00 \<notin> set k"
  shows "fst (match_skip k l) \<longleftrightarrow> take (length k) (rest l) = text_of k"
    and "fst (match_skip k l) \<Longrightarrow> rest (snd (match_skip k l)) = drop (length k) (rest l)"
proof -
  have "(fst (match_skip k l) \<longleftrightarrow> take (length k) (rest l) = text_of k) \<and>
    (fst (match_skip k l) \<longrightarrow> rest (snd (match_skip k l)) = drop (length k) (rest l))"
    using assms
  proof (induction k arbitrary: l)
    case (Cons c k)
    then show ?case by (cases "rest l") (auto simp: text_of_def match_skip.simps)
  qed (simp add: text_of_def match_skip.simps)
  then show "fst (match_skip k l) \<longleftrightarrow> take (length k) (rest l) = text_of k"
    "fst (match_skip k l) \<Longrightarrow> rest (snd (match_skip k l)) = drop (length k) (rest l)" by auto
qed

lemma la_drop: "rest l = drop n s \<Longrightarrow> la l = (if n < length s then s ! n else 0)"
  by (cases "n < length s") (auto simp: la_def Cons_nth_drop_Suc [symmetric])

lemma scan_in_keyword_eq:
  assumes "rest l = ch CHR ''i'' # s"
  shows "fst (scan_in_keyword l) \<longleftrightarrow> \<not> read_as_keyword ''in'' (rest l) \<and> \<not> read_as_keyword ''instanceof'' (rest l)"
proof (cases "s \<noteq> [] \<and> hd s = ch CHR ''n''")
  case False
  then have "la (skip l) \<noteq> ch CHR ''n''" using assms by (cases s) auto
  moreover have "\<not> read_as_keyword ''in'' (rest l)" "\<not> read_as_keyword ''instanceof'' (rest l)"
    using False assms by (cases s; auto simp: read_as_keyword_def text_of_def)+
  ultimately show ?thesis by (simp add: scan_in_keyword_def Let_def)
next
  case True
  then obtain s' where s: "s = ch CHR ''n'' # s'" by (cases s) auto
  let ?m = "match_skip ''stanceof'' (skip (skip l))"
  have la: "la (skip l) = ch CHR ''n''" "rest (skip (skip l)) = s'" using assms s by simp_all
  have la2: "la (skip (skip l)) = (if 0 < length s' then s' ! 0 else 0)"
    using la_drop [of "skip (skip l)" 0 s'] la(2) by simp
  have in_kw: "read_as_keyword ''in'' (rest l) \<longleftrightarrow> s' = [] \<or> \<not> iswalpha (s' ! 0)"
    using assms s by (auto simp: read_as_keyword_def text_of_def)
  have of_kw: "read_as_keyword ''instanceof'' (rest l) \<longleftrightarrow>
      take 8 s' = text_of ''stanceof'' \<and> (length s' \<le> 8 \<or> \<not> iswalpha (s' ! 8))"
    using assms s by (simp add: read_as_keyword_def text_of_def numeral_eq_Suc)
  have "fst (scan_in_keyword l) \<longleftrightarrow> iswalpha (la (skip (skip l))) \<and> (fst ?m \<longrightarrow> iswalpha (la (snd ?m)))"
    using la by (simp add: scan_in_keyword_def Let_def split_beta)
  moreover have "fst ?m \<longleftrightarrow> take 8 s' = text_of ''stanceof''"
    using match_skip_eq(1) [of "''stanceof''" "skip (skip l)"] la(2) by (simp add: numeral_eq_Suc)
  moreover have "la (snd ?m) = (if 8 < length s' then s' ! 8 else 0)" if "fst ?m"
    using match_skip_eq(2) [OF _ that] la(2) by (intro la_drop) (simp add: numeral_eq_Suc)
  ultimately show ?thesis unfolding in_kw of_kw la2 by auto
qed

lemma match_skip_frame:
  "token_end (snd (match_skip k l)) = token_end l \<and> result_sym (snd (match_skip k l)) = result_sym l"
  by (induction k arbitrary: l) (auto simp: match_skip.simps)

lemma read_as_keyword_other: "c \<noteq> ch CHR ''i'' \<Longrightarrow> \<not> read_as_keyword ''in'' (c # s) \<and> \<not> read_as_keyword ''instanceof'' (c # s)"
  by (simp add: read_as_keyword_def text_of_def)

lemma semicolon_before_eq:
  "fst (semicolon_before l) \<longleftrightarrow>
     \<not> continues (rest l) \<and> \<not> misread_identifier ''in'' (rest l) \<and> \<not> misread_identifier ''instanceof'' (rest l)"
proof (cases "rest l")
  case Nil
  then show ?thesis by (simp add: semicolon_before_def Let_def misread_identifier_def)
next
  case (Cons c s)
  have next_la: "la (skip l) = (if s = [] then 0 else hd s)" using Cons by (cases s) auto
  show ?thesis
  proof (cases "c = ch CHR ''i''")
    case True
    then show ?thesis
      using scan_in_keyword_eq [of l s] Cons by (auto simp: semicolon_before_def read_as_keyword_eq)
  next
    case False
    then show ?thesis
      using Cons next_la read_as_keyword_other [OF False, of s]
      by (simp add: semicolon_before_def Let_def read_as_keyword_eq del: la_adv_frame)
  qed
qed

lemma semicolon_before_frame:
  "token_end (snd (semicolon_before l)) = token_end l \<and> result_sym (snd (semicolon_before l)) = result_sym l"
  by (auto simp: semicolon_before_def scan_in_keyword_def Let_def split_beta match_skip_frame)

text \<open>With no comment ahead, white space is skipped, and nothing else happens.\<close>

lemma whitespace_loop_plain:
  assumes "rest l = ws @ s" "list_all iswspace ws" "s = [] \<or> \<not> iswspace (hd s) \<and> hd s \<noteq> ch CHR ''/''"
  shows "whitespace_loop consume saw d l = (ACCEPT, d, skip_while iswspace l)"
    and "rest (skip_while iswspace l) = s"
proof -
  have "dropWhile iswspace (rest l) = s"
    using assms by (cases s) (auto simp: list_all_iff dropWhile_append2)
  then show r: "rest (skip_while iswspace l) = s" by simp
  then have "la (skip_while iswspace l) \<noteq> ch CHR ''/''" using assms(3) by (cases s) auto
  then show "whitespace_loop consume saw d l = (ACCEPT, d, skip_while iswspace l)"
    by (simp add: whitespace_loop.simps [of consume saw d l] Let_def)
qed

lemma semicolon_loop_line:
  assumes "rest l = ws @ c # s" "list_all (\<lambda>c. iswspace c \<and> \<not> is_line_end c) ws"
    and "is_line_end c" "range_starts l = []"
  shows "\<exists>l'. semicolon_loop cc d l = (None, d, l') \<and> rest l' = c # s \<and>
    token_end l' = token_end l \<and> result_sym l' = result_sym l"
  using assms
proof (induction ws arbitrary: l)
  case Nil
  then have "c \<noteq> 0" "c \<noteq> ch CHR ''/''" "c \<noteq> ch CHR ''}''"
    by (auto simp: is_line_end_def ch_def)
  with Nil show ?case
    by (simp add: semicolon_loop.simps [of cc d l] is_at_included_range_start_def)
next
  case (Cons w ws)
  then have "w \<noteq> 0" "w \<noteq> ch CHR ''/''" "w \<noteq> ch CHR ''}''"
    by (auto simp: iswspace_def ch_def)
  moreover have "range_starts (skip l) = []"
    using Cons.prems(4) by (simp add: skip_def advance_def split: list.split)
  ultimately show ?case
    using Cons.IH [of "skip l"] Cons.prems
    by (simp add: semicolon_loop.simps [of cc d l] is_at_included_range_start_def)
qed

text \<open>
  C40. Automatic semicolon insertion at a line break: with white space, a line break and more
  white space in front of the text \<open>s\<close>, and no comment and no start of an included range, the scanner inserts a semicolon exactly
  when \<open>s\<close> cannot continue the statement (it starts neither with one of the
  operators and brackets listed, nor with a \<open>.\<close> that starts no decimal literal, a binary \<open>+\<close> or \<open>-\<close>, \<open>!=\<close>, or
  one of the identifiers \<open>in\<close> and \<open>instanceof\<close>), with one exception: before an identifier that extends \<open>in\<close> or
  \<open>instanceof\<close> by a character that is no letter, as \<open>in_x\<close>, the semicolon is missing. The semicolon is an empty token
  in front of the white space.
\<close>

theorem automatic_semicolon_at_line_break:
  assumes "rest l = ws @ c # ws' @ s" "list_all (\<lambda>c. iswspace c \<and> \<not> is_line_end c) ws" "is_line_end c"
    and "list_all iswspace ws'" "s = [] \<or> \<not> iswspace (hd s) \<and> hd s \<noteq> ch CHR ''/''" "range_starts l = []"
  shows "\<exists>l'. scan_automatic_semicolon l cc d =
      (\<not> continues s \<and> \<not> misread_identifier ''in'' s \<and> \<not> misread_identifier ''instanceof'' s, d, l') \<and>
    result_sym l' = AUTOMATIC_SEMICOLON \<and> token_end l' = Some (pos l)"
proof -
  let ?l = "mark_end (set_sym AUTOMATIC_SEMICOLON l)"
  have "range_starts ?l = []" using assms(6) by (simp add: mark_end_def set_sym_def)
  then obtain k where k: "semicolon_loop cc d ?l = (None, d, k)" "rest k = c # ws' @ s"
    "token_end k = Some (pos l)" "result_sym k = AUTOMATIC_SEMICOLON"
    using semicolon_loop_line [of ?l ws c "ws' @ s" cc d] assms(1-3) by auto
  have "rest (skip k) = ws' @ s" using k(2) by simp
  note ws = whitespace_loop_plain [OF this assms(4,5)]
  have "scan_automatic_semicolon l cc d = (fst (semicolon_before (skip_while iswspace (skip k))), d,
      snd (semicolon_before (skip_while iswspace (skip k))))"
    by (simp add: scan_automatic_semicolon_def k(1) scan_whitespace_and_comments_def ws(1) Let_def split_beta)
  then show ?thesis
    using ws(2) k(3,4) by (simp add: semicolon_before_eq semicolon_before_frame)
qed

theorem automatic_semicolon_at_line_break_witness:
  "fst (scan_automatic_semicolon (lexer_on AUTOMATIC_SEMICOLON (text_of ('' '' @ [CHR 0x0A] @ ''index''))) True False) \<and>
   \<not> fst (scan_automatic_semicolon (lexer_on AUTOMATIC_SEMICOLON (text_of ([CHR 0x0A] @ ''in x''))) True False)"
proof -
  have nl: "is_line_end (ch CHR 0x0A)" "iswspace (ch CHR '' '')" "\<not> is_line_end (ch CHR '' '')"
    "\<not> iswspace (ch CHR ''i'')" "iswalpha (ch CHR ''d'')" "ident_char (ch CHR ''d'')" "\<not> ident_char (ch CHR '' '')"
    by (simp_all add: is_line_end_def isw_defs ch_def ident_char_def)
  show ?thesis
    using automatic_semicolon_at_line_break [of "lexer_on AUTOMATIC_SEMICOLON (text_of ('' '' @ [CHR 0x0A] @ ''index''))"
        "text_of '' ''" "ch CHR 0x0A" "[]" "text_of ''index''" True False]
      automatic_semicolon_at_line_break [of "lexer_on AUTOMATIC_SEMICOLON (text_of ([CHR 0x0A] @ ''in x''))"
        "[]" "ch CHR 0x0A" "[]" "text_of ''in x''" True False] nl
    by (auto simp: lexer_on_def text_of_def keyword_def misread_identifier_def)
qed

text \<open>The semicolon that is missing: the second line starts with the identifier \<open>in_x\<close>.\<close>

lemma no_semicolon_before_in_x:
  "\<not> fst (scan_automatic_semicolon (lexer_on AUTOMATIC_SEMICOLON (text_of ([CHR 0x0A] @ ''in_x''))) False False)"
  by code_simp

section \<open>Question marks and comments\<close>

text \<open>
  Behind white space, a question mark is the conditional operator exactly when neither
  another question mark follows (\<open>??\<close>) nor a dot without a digit (optional chaining); the token is
  that one character.
\<close>

theorem ternary_qmark_correct:
  assumes "rest l = ws @ ch CHR ''?'' # s" "list_all iswspace ws"
  shows "fst (scan_ternary_qmark l) = (\<not> (s \<noteq> [] \<and> hd s = ch CHR ''?'') \<and>
      (s \<noteq> [] \<and> hd s = ch CHR ''.'' \<longrightarrow> tl s \<noteq> [] \<and> iswdigit (hd (tl s)))) \<and>
    (fst (scan_ternary_qmark l) \<longrightarrow>
       result_sym (snd (scan_ternary_qmark l)) = TERNARY_QMARK \<and>
       token_start (snd (scan_ternary_qmark l)) = (if ws = [] then token_start l else pos l + length ws) \<and>
       token_end (snd (scan_ternary_qmark l)) = Some (pos l + length ws + 1))"
proof -
  have q: "\<not> iswspace (ch CHR ''?'')" by (simp add: ch_def iswspace_def)
  define k where "k = skip_while iswspace l"
  note sp = skip_spaces [OF assms q, folded k_def]
  have la: "la (advance k) = (if s = [] then 0 else hd s)"
    "la (advance (advance k)) = (if tl s = [] then 0 else hd (tl s))"
    using sp(1) by (auto simp: la_def split: list.split)
  show ?thesis
    using sp la by (cases s) (auto simp: scan_ternary_qmark_def Let_def k_def [symmetric])
qed

theorem ternary_qmark_correct_witness:
  "fst (scan_ternary_qmark (lexer_on AUTOMATIC_SEMICOLON (text_of ''?.5:1''))) \<and>
   \<not> fst (scan_ternary_qmark (lexer_on AUTOMATIC_SEMICOLON (text_of ''?.x'')))"
  using ternary_qmark_correct [of "lexer_on AUTOMATIC_SEMICOLON (text_of ''?.5:1'')" "[]" "text_of ''.5:1''"]
    ternary_qmark_correct [of "lexer_on AUTOMATIC_SEMICOLON (text_of ''?.x'')" "[]" "text_of ''.x''"]
  by (simp add: lexer_on_def text_of_def) (simp add: ch_def iswdigit_def)

lemma match_advance_prefix:
  assumes "rest l = text_of k @ s" "CHR 0x00 \<notin> set k"
  shows "\<exists>l'. match_advance k l = (True, l') \<and> rest l' = s \<and> pos l' = pos l + length k \<and>
    token_start l' = token_start l"
  using assms
proof (induction k arbitrary: l)
  case (Cons c k)
  then show ?case using Cons.IH [of "advance l"] by (simp add: text_of_def match_advance.simps)
qed (simp add: text_of_def match_advance.simps)

text \<open>
  Behind white space, \<open><!--\<close> and \<open>-->\<close> start a comment that reaches to the end of the line, or
  to a null character or the end of the text.
\<close>

theorem html_comment_correct:
  assumes "rest l = ws @ text_of k @ s" "list_all (\<lambda>c. iswspace c \<or> c = 0x2028 \<or> c = 0x2029) ws"
    and "k = ''<!--'' \<or> k = ''-->''"
  shows "\<exists>l'. scan_html_comment l = (True, l') \<and> result_sym l' = HTML_COMMENT \<and>
    token_start l' = (if ws = [] then token_start l else pos l + length ws) \<and>
    token_end l' = Some (pos l + length ws + length k + length (takeWhile (\<lambda>c. c \<noteq> 0 \<and> \<not> is_line_end c) s))"
proof -
  let ?p = "\<lambda>c. iswspace c \<or> c = 0x2028 \<or> c = 0x2029"
  define a where "a = skip_while ?p l"
  have hd: "\<not> ?p (ch (hd k))" "text_of k = ch (hd k) # text_of (tl k)"
    using assms(3) by (auto simp: text_of_def ch_def iswspace_def)
  have tw: "takeWhile ?p (rest l) = ws" "dropWhile ?p (rest l) = text_of k @ s"
    using assms(1,2) hd by (auto simp: list_all_iff takeWhile_append2 dropWhile_append2)
  have a: "rest a = text_of k @ s" "pos a = pos l + length ws"
    "token_start a = (if ws = [] then token_start l else pos l + length ws)"
    using tw by (simp_all add: a_def skip_while_token_start)
  obtain b where b: "match_advance k a = (True, b)" "rest b = s" "pos b = pos a + length k"
    "token_start b = token_start a"
    using match_advance_prefix [OF a(1)] assms(3) by auto
  have "la a = ch (hd k)" using a(1) hd(2) by simp
  then have "scan_html_comment l = (True, mark_end (set_sym HTML_COMMENT (advance_while (\<lambda>c. c \<noteq> 0 \<and> \<not> is_line_end c) b)))"
    using b(1) assms(3) by (auto simp: scan_html_comment_def Let_def a_def [symmetric])
  then show ?thesis using a b by simp
qed

theorem html_comment_correct_witness:
  "\<exists>l'. scan_html_comment (lexer_on AUTOMATIC_SEMICOLON (text_of ''<!--ab'')) = (True, l') \<and> token_end l' = Some 6"
proof -
  have "\<not> is_line_end (ch CHR ''a'')" "\<not> is_line_end (ch CHR ''b'')" by (simp_all add: is_line_end_def ch_def)
  then show ?thesis
    using html_comment_correct [of "lexer_on AUTOMATIC_SEMICOLON (text_of ''<!--ab'')" "[]" "''<!--''" "text_of ''ab''"]
    by (auto simp: lexer_on_def text_of_def)
qed

section \<open>The scanner moves forward\<close>

lemma later_template_chars_loop [scan_mono]: "later m l \<Longrightarrow> later m (snd (template_chars_loop h l))"
proof (induction h l rule: template_chars_loop.induct)
  case (1 h l)
  then show ?case by (subst template_chars_loop.simps) (simp add: Let_def scan_mono)
qed

lemma later_jsx_text_loop [scan_mono]: "later m l \<Longrightarrow> later m (snd (jsx_text_loop a b l))"
proof (induction l arbitrary: a b rule: rest_induct)
  case (less l)
  show ?case
  proof (cases "is_jsx_char (la l)")
    case True
    then have "length (rest (advance l)) < length (rest l)"
      by (intro later_less [of l l]) (auto simp: is_jsx_char_def)
    then show ?thesis using less by (simp add: jsx_text_loop.simps [of a b l] Let_def split_beta scan_mono)
  qed (simp add: jsx_text_loop.simps [of a b l] less.prems)
qed

lemma later_match [scan_mono]:
  "later m l \<Longrightarrow> later m (snd (match_skip k l))" "later m l \<Longrightarrow> later m (snd (match_advance k l))"
  by (induction k arbitrary: l) (simp_all add: scan_mono match_skip.simps match_advance.simps)

lemma later_semicolon_loop [scan_mono]: "later m l \<Longrightarrow> later m (snd (snd (semicolon_loop c d l)))"
proof (induction c d l rule: semicolon_loop.induct)
  case (1 c d l)
  let ?t = "if la l = ch CHR ''/''
            then (let (r, d, l) = scan_whitespace_and_comments l d False in (Some r, d, l))
            else (None, d, l)"
  obtain r d' l' where t: "?t = (r, d', l')" using prod_cases3 by blast
  have "l' = snd (snd (whitespace_loop False False d l)) \<or> l' = l"
    using t by (auto simp: scan_whitespace_and_comments_def split_beta Let_def split: if_splits)
  then have "later m l'" using 1(2) by (auto simp: scan_mono)
  with 1(1) [OF _ t [symmetric] refl refl] show ?case
    unfolding semicolon_loop.simps [of c d l] t using 1(2) by (simp add: scan_mono)
qed

lemma later_semicolon_before [scan_mono]: "later m l \<Longrightarrow> later m (snd (semicolon_before l))"
  by (simp add: semicolon_before_def scan_in_keyword_def Let_def split_beta scan_mono)

lemma later_scan_automatic_semicolon [scan_mono]:
  assumes "later m l"
  shows "later m (snd (snd (scan_automatic_semicolon l c d)))"
proof -
  obtain r d' l' where a: "semicolon_loop c d (mark_end (set_sym AUTOMATIC_SEMICOLON l)) = (r, d', l')"
    using prod_cases3 by blast
  obtain r'' d'' l'' where b: "whitespace_loop True False d' (skip l') = (r'', d'', l'')"
    using prod_cases3 by blast
  have "later m l'"
    using later_semicolon_loop [of m "mark_end (set_sym AUTOMATIC_SEMICOLON l)" c d] a assms by simp
  moreover from this have "later m l''"
    using later_whitespace_loop [of m "skip l'" True False d'] b by (simp add: scan_mono)
  ultimately show ?thesis
    by (simp add: scan_automatic_semicolon_def Let_def a b scan_whitespace_and_comments_def split_beta scan_mono
        split: option.split WhitespaceResult.split)
qed

lemma later_scan_ternary_qmark [scan_mono]: "later m l \<Longrightarrow> later m (snd (scan_ternary_qmark l))"
  by (simp add: scan_ternary_qmark_def Let_def scan_mono)

lemma later_scan_html_comment [scan_mono]: "later m l \<Longrightarrow> later m (snd (scan_html_comment l))"
  by (simp add: scan_html_comment_def Let_def split_beta scan_mono)

lemma later_js_scan [scan_mono]: "later m l \<Longrightarrow> later m (snd (js_scan l v))"
  by (simp add: js_scan_def scan_template_chars_def scan_jsx_text_def Let_def split_beta scan_mono)

end
