(* ===== verification/Ts_Scanner.thy ===== *)
theory Ts_Scanner
  imports Js_Scanner
begin

text \<open>
  The external scanner of the TypeScript and TSX grammars, \<open>common/scanner.h\<close>, which
  \<open>typescript/src/scanner.c\<close> and \<open>tsx/src/scanner.c\<close> include. Routines that are the same text as in
  the JavaScript scanner are the definitions of the theory \<open>Js_Scanner\<close>.
\<close>

section \<open>The scanner\<close>

definition scan_template_chars_ts :: "js_token TSLexer \<Rightarrow> bool \<times> js_token TSLexer" where
  "scan_template_chars_ts lexer = scan_template_chars lexer"

function block_comment_loop_ts :: "js_token TSLexer \<Rightarrow> js_token TSLexer" where
  "block_comment_loop_ts lexer =
     (if la lexer \<noteq> 0 then
        if la lexer = ch CHR ''*'' then
          (let lexer = skip lexer
           in if la lexer = ch CHR ''/'' then skip lexer else block_comment_loop_ts lexer)
        else block_comment_loop_ts (skip lexer)
      else lexer)"
  by pat_completeness auto
termination
  by (relation "measure (\<lambda>l. length (rest l))") (auto simp: length_tl_less dest: la_nonzero la_ch_rest)

declare block_comment_loop_ts.simps [simp del]

lemma later_block_comment_loop_ts [scan_mono]: "later m l \<Longrightarrow> later m (block_comment_loop_ts l)"
proof (induction l rule: block_comment_loop_ts.induct)
  case (1 l)
  then show ?case by (subst block_comment_loop_ts.simps) (simp add: Let_def scan_mono)
qed

function scan_whitespace_and_comments_ts ::
  "js_token TSLexer \<Rightarrow> bool \<Rightarrow> bool \<times> bool \<times> js_token TSLexer" where
  "scan_whitespace_and_comments_ts lexer scanned_comment =
     (let lexer = skip_while iswspace lexer
      in if la lexer = ch CHR ''/'' then
           (let lexer = skip lexer
            in if la lexer = ch CHR ''/'' then
                 scan_whitespace_and_comments_ts (skip_while (\<lambda>c. c \<noteq> 0 \<and> c \<noteq> 10) (skip lexer)) True
               else if la lexer = ch CHR ''*'' then
                 scan_whitespace_and_comments_ts (block_comment_loop_ts (skip lexer)) scanned_comment
               else (False, scanned_comment, lexer))
         else (True, scanned_comment, lexer))"
  by pat_completeness auto
termination
proof (relation "measure (\<lambda>(l, d). length (rest l))", goal_cases)
  case (2 l d x xa)
  then have "length (rest (skip_while (\<lambda>c. c \<noteq> 0 \<and> c \<noteq> 10) (skip xa))) < length (rest l)"
    by (intro later_less [of l x]) (simp_all add: scan_mono)
  then show ?case by simp
next
  case (3 l d x xa)
  then have "length (rest (block_comment_loop_ts (skip xa))) < length (rest l)"
    by (intro later_less [of l x]) (simp_all add: scan_mono)
  then show ?case by simp
qed simp

declare scan_whitespace_and_comments_ts.simps [simp del]

text \<open>
  The first loop of \<open>scan_automatic_semicolon\<close>: \<open>Some\<close> result when it returns, \<open>None\<close> when it leaves
  the loop at a newline. The \<open>do\<close> loop behind a closing brace skips at least one character.
\<close>

function semicolon_loop_ts ::
  "js_token TSLexer \<Rightarrow> (js_token \<Rightarrow> bool) \<Rightarrow> bool option \<times> js_token TSLexer" where
  "semicolon_loop_ts lexer valid_symbols =
     (if la lexer = 0 then (Some True, lexer)
      else if la lexer = ch CHR ''}'' then
        (let lexer = skip_while iswspace (skip lexer)
         in if la lexer = ch CHR '':'' then (Some (valid_symbols LOGICAL_OR), lexer) else (Some True, lexer))
      else if \<not> iswspace (la lexer) then (Some False, lexer)
      else if la lexer = 10 then (None, lexer)
      else semicolon_loop_ts (skip lexer) valid_symbols)"
  by pat_completeness auto
termination
  by (relation "measure (\<lambda>(l, v). length (rest l))") (auto simp: length_tl_less dest: la_nonzero)

definition semicolon_before_ts ::
  "js_token TSLexer \<Rightarrow> (js_token \<Rightarrow> bool) \<Rightarrow> bool \<times> js_token TSLexer" where
  "semicolon_before_ts lexer valid_symbols =
     (if la lexer \<in> ch ` set (CHR 0x60 # '',.;*%><=?^|&/:'') then (False, lexer)
      else if la lexer = ch CHR ''{'' then
        (if valid_symbols FUNCTION_SIGNATURE_AUTOMATIC_SEMICOLON then (False, lexer) else (True, lexer))
      else if la lexer = ch CHR ''('' \<or> la lexer = ch CHR ''['' then
        (if valid_symbols LOGICAL_OR then (False, lexer) else (True, lexer))
      else if la lexer = ch CHR ''+'' then (let lexer = skip lexer in (la lexer = ch CHR ''+'', lexer))
      else if la lexer = ch CHR ''-'' then (let lexer = skip lexer in (la lexer = ch CHR ''-'', lexer))
      else if la lexer = ch CHR ''!'' then (let lexer = skip lexer in (la lexer \<noteq> ch CHR ''='', lexer))
      else if la lexer = ch CHR ''i'' then scan_in_keyword lexer
      else (True, lexer))"

definition scan_automatic_semicolon_ts ::
  "js_token TSLexer \<Rightarrow> (js_token \<Rightarrow> bool) \<Rightarrow> bool \<Rightarrow> bool \<times> bool \<times> js_token TSLexer" where
  "scan_automatic_semicolon_ts lexer valid_symbols scanned_comment =
     (let lexer = mark_end (set_sym AUTOMATIC_SEMICOLON lexer)
      in case semicolon_loop_ts lexer valid_symbols of
           (Some r, lexer) \<Rightarrow> (r, scanned_comment, lexer)
         | (None, lexer) \<Rightarrow>
             (let (ok, scanned_comment, lexer) = scan_whitespace_and_comments_ts (skip lexer) scanned_comment
              in if \<not> ok then (False, scanned_comment, lexer)
                 else (let (r, lexer) = semicolon_before_ts lexer valid_symbols in (r, scanned_comment, lexer))))"

definition scan_ternary_qmark_ts :: "js_token TSLexer \<Rightarrow> bool \<times> js_token TSLexer" where
  "scan_ternary_qmark_ts lexer =
     (let lexer = skip_while iswspace lexer
      in if la lexer = ch CHR ''?'' then
           (let lexer = advance lexer
            in if la lexer = ch CHR ''?'' \<or> la lexer = ch CHR ''.'' then (False, lexer)
               else
                 (let lexer = set_sym TERNARY_QMARK (mark_end lexer);
                      lexer = advance_while iswspace lexer
                  in if la lexer = ch CHR '':'' \<or> la lexer = ch CHR '')'' \<or> la lexer = ch CHR '','' then (False, lexer)
                     else if la lexer = ch CHR ''.''
                     then (let lexer = advance lexer in (iswdigit (la lexer), lexer))
                     else (True, lexer)))
         else (False, lexer))"

definition scan_closing_comment :: "js_token TSLexer \<Rightarrow> bool \<times> js_token TSLexer" where
  "scan_closing_comment lexer = scan_html_comment lexer"

definition scan_jsx_text_ts :: "js_token TSLexer \<Rightarrow> bool \<times> js_token TSLexer" where
  "scan_jsx_text_ts lexer = scan_jsx_text lexer"

definition external_scanner_scan :: "js_token TSLexer \<Rightarrow> (js_token \<Rightarrow> bool) \<Rightarrow> bool \<times> js_token TSLexer" where
  "external_scanner_scan lexer valid_symbols =
     (if valid_symbols TEMPLATE_CHARS then
        (if valid_symbols AUTOMATIC_SEMICOLON then (False, lexer) else scan_template_chars_ts lexer)
      else
        (let (jsx, lexer) = (if valid_symbols JSX_TEXT then scan_jsx_text_ts lexer else (False, lexer))
         in if jsx then (True, lexer)
            else if valid_symbols AUTOMATIC_SEMICOLON \<or> valid_symbols FUNCTION_SIGNATURE_AUTOMATIC_SEMICOLON then
              (let (ret, scanned_comment, lexer) = scan_automatic_semicolon_ts lexer valid_symbols False
               in if \<not> ret \<and> \<not> scanned_comment \<and> valid_symbols TERNARY_QMARK \<and> la lexer = ch CHR ''?''
                  then scan_ternary_qmark_ts lexer
                  else (ret, lexer))
            else if valid_symbols TERNARY_QMARK then scan_ternary_qmark_ts lexer
            else if valid_symbols HTML_COMMENT \<and> \<not> valid_symbols LOGICAL_OR \<and>
                    \<not> valid_symbols ESCAPE_SEQUENCE \<and> \<not> valid_symbols REGEX_PATTERN
            then scan_closing_comment lexer
            else (False, lexer)))"

declare semicolon_loop_ts.simps [simp del]

section \<open>Automatic semicolons\<close>

lemma semicolon_loop_ts_spaces:
  assumes "rest l = ws @ s" "list_all (\<lambda>c. iswspace c \<and> c \<noteq> 10) ws"
  shows "\<exists>l'. semicolon_loop_ts l v = semicolon_loop_ts l' v \<and> rest l' = s \<and>
    token_end l' = token_end l \<and> result_sym l' = result_sym l"
  using assms
proof (induction ws arbitrary: l)
  case (Cons w ws)
  then have "w \<noteq> 0" "w \<noteq> ch CHR ''}''" by (auto simp: iswspace_def ch_def)
  with Cons show ?case
    using Cons.IH [of "skip l"] by (simp add: semicolon_loop_ts.simps [of l])
qed auto

text \<open>
  In front of a closing brace a semicolon is inserted, unless a colon follows the brace behind
  white space, as in a typed object pattern; then it is inserted only where a binary operator could
  stand. At the end of the text one is inserted as well, and in front of any other character of the same line none.
\<close>

theorem ts_semicolon_same_line:
  assumes "rest l = ws @ s" "list_all (\<lambda>c. iswspace c \<and> c \<noteq> 10) ws" "s = [] \<or> \<not> iswspace (hd s) \<and> hd s \<noteq> 0"
  shows "\<exists>l'. scan_automatic_semicolon_ts l v d =
      (case s of [] \<Rightarrow> True
       | c # s' \<Rightarrow> c = ch CHR ''}'' \<and>
           (let r = dropWhile iswspace s' in r \<noteq> [] \<and> hd r = ch CHR '':'' \<longrightarrow> v LOGICAL_OR), d, l') \<and>
    result_sym l' = AUTOMATIC_SEMICOLON \<and> token_end l' = Some (pos l)"
proof -
  obtain k where k: "semicolon_loop_ts (mark_end (set_sym AUTOMATIC_SEMICOLON l)) v = semicolon_loop_ts k v"
    "rest k = s" "token_end k = Some (pos l)" "result_sym k = AUTOMATIC_SEMICOLON"
    using semicolon_loop_ts_spaces [of "mark_end (set_sym AUTOMATIC_SEMICOLON l)" ws s v] assms(1,2) by auto
  have colon: "la (skip_while iswspace (skip k)) = ch CHR '':'' \<longleftrightarrow>
      dropWhile iswspace (tl s) \<noteq> [] \<and> hd (dropWhile iswspace (tl s)) = ch CHR '':''"
    using la_hd [of "skip_while iswspace (skip k)" "dropWhile iswspace (tl s)"] k(2)
    by (simp del: dropWhile_eq_Nil_conv)
  have "\<not> iswspace (ch CHR ''}'')" by (simp add: iswspace_def ch_def)
  with k assms(3) colon show ?thesis
    by (cases s) (auto simp: scan_automatic_semicolon_ts_def Let_def semicolon_loop_ts.simps [of k])
qed

theorem ts_semicolon_same_line_witness:
  "\<not> fst (scan_automatic_semicolon_ts (lexer_on AUTOMATIC_SEMICOLON (text_of '' } : number'')) (\<lambda>_. False) False)"
proof -
  have "iswspace (ch CHR '' '')" "ch CHR '' '' \<noteq> 10" "\<not> iswspace (ch CHR ''}'')" "\<not> iswspace (ch CHR '':'')"
    by (simp_all add: iswspace_def ch_def)
  then show ?thesis
    using ts_semicolon_same_line [of "lexer_on AUTOMATIC_SEMICOLON (text_of '' } : number'')" "text_of '' ''"
        "text_of ''} : number''" "\<lambda>_. False" False]
    by (auto simp: lexer_on_def text_of_def)
qed

text \<open>
  The texts that the scanner takes to continue a statement behind a newline, for the symbols the parser accepts. As in the scanner for JavaScript, \<open>in\<close>
  and \<open>instanceof\<close> count as keywords if no letter follows.
\<close>

fun continues_ts :: "(js_token \<Rightarrow> bool) \<Rightarrow> int list \<Rightarrow> bool" where
  "continues_ts v [] = False"
| "continues_ts v (c # s) \<longleftrightarrow>
     c \<in> ch ` set (CHR 0x60 # '',.;*%><=?^|&/:'') \<or>
     c = ch CHR ''{'' \<and> v FUNCTION_SIGNATURE_AUTOMATIC_SEMICOLON \<or>
     c \<in> ch ` set ''(['' \<and> v LOGICAL_OR \<or>
     c = ch CHR ''+'' \<and> \<not> (s \<noteq> [] \<and> hd s = ch CHR ''+'') \<or>
     c = ch CHR ''-'' \<and> \<not> (s \<noteq> [] \<and> hd s = ch CHR ''-'') \<or>
     c = ch CHR ''!'' \<and> s \<noteq> [] \<and> hd s = ch CHR ''='' \<or>
     read_as_keyword ''in'' (c # s) \<or> read_as_keyword ''instanceof'' (c # s)"

lemma semicolon_before_ts_eq: "fst (semicolon_before_ts l v) \<longleftrightarrow> \<not> continues_ts v (rest l)"
proof (cases "rest l")
  case Nil
  then show ?thesis by (simp add: semicolon_before_ts_def Let_def)
next
  case (Cons c s)
  have next_la: "la (skip l) = (if s = [] then 0 else hd s)" using Cons by (cases s) auto
  show ?thesis
  proof (cases "c = ch CHR ''i''")
    case True
    then show ?thesis
      using scan_in_keyword_eq [of l s] Cons by (simp add: semicolon_before_ts_def)
  next
    case False
    then show ?thesis
      using Cons next_la read_as_keyword_other [OF False, of s]
      by (simp add: semicolon_before_ts_def Let_def del: la_adv_frame)
  qed
qed

lemma semicolon_before_ts_frame:
  "token_end (snd (semicolon_before_ts l v)) = token_end l \<and>
   result_sym (snd (semicolon_before_ts l v)) = result_sym l"
  by (auto simp: semicolon_before_ts_def scan_in_keyword_def Let_def split_beta match_skip_frame)

text \<open>
  At a newline a semicolon is inserted exactly when the text behind the following white
  space cannot continue the statement, which for braces, parentheses and brackets depends on what
  the parser would accept.
\<close>

theorem ts_semicolon_at_newline:
  assumes "rest l = ws @ 10 # ws' @ s" "list_all (\<lambda>c. iswspace c \<and> c \<noteq> 10) ws"
    and "list_all iswspace ws'" "s = [] \<or> \<not> iswspace (hd s) \<and> hd s \<noteq> ch CHR ''/''"
  shows "\<exists>l'. scan_automatic_semicolon_ts l v d = (\<not> continues_ts v s, d, l') \<and>
    result_sym l' = AUTOMATIC_SEMICOLON \<and> token_end l' = Some (pos l)"
proof -
  obtain k where k: "semicolon_loop_ts (mark_end (set_sym AUTOMATIC_SEMICOLON l)) v = semicolon_loop_ts k v"
    "rest k = 10 # ws' @ s" "token_end k = Some (pos l)" "result_sym k = AUTOMATIC_SEMICOLON"
    using semicolon_loop_ts_spaces [of "mark_end (set_sym AUTOMATIC_SEMICOLON l)" ws "10 # ws' @ s" v]
      assms(1,2) by auto
  have "10 \<noteq> ch CHR ''}''" "iswspace 10" by (simp_all add: iswspace_def ch_def)
  then have loop: "semicolon_loop_ts k v = (None, k)"
    using k(2) by (simp add: semicolon_loop_ts.simps [of k])
  define b where "b = skip_while iswspace (skip k)"
  have b: "rest b = s"
    using k(2) assms(3,4) by (cases s) (auto simp: b_def list_all_iff dropWhile_append2)
  then have "la b \<noteq> ch CHR ''/''" using assms(4) by (cases s) auto
  then have "scan_whitespace_and_comments_ts (skip k) d = (True, d, b)"
    by (simp add: scan_whitespace_and_comments_ts.simps [of "skip k"] Let_def b_def)
  then have "scan_automatic_semicolon_ts l v d = (fst (semicolon_before_ts b v), d, snd (semicolon_before_ts b v))"
    by (simp add: scan_automatic_semicolon_ts_def Let_def k(1) loop split_beta)
  moreover have "token_end b = Some (pos l)" "result_sym b = AUTOMATIC_SEMICOLON"
    using k(3,4) by (simp_all add: b_def)
  ultimately show ?thesis using b by (simp add: semicolon_before_ts_eq semicolon_before_ts_frame)
qed

theorem ts_semicolon_at_newline_witness:
  "\<not> fst (scan_automatic_semicolon_ts (lexer_on AUTOMATIC_SEMICOLON (10 # text_of ''(x)'')) (\<lambda>t. t = LOGICAL_OR) False) \<and>
   fst (scan_automatic_semicolon_ts (lexer_on AUTOMATIC_SEMICOLON (10 # text_of ''(x)'')) (\<lambda>t. False) False)"
proof -
  let ?l = "lexer_on AUTOMATIC_SEMICOLON (10 # text_of ''(x)'')"
  have "rest ?l = [] @ 10 # [] @ text_of ''(x)''" by (simp add: lexer_on_def)
  note newline = ts_semicolon_at_newline [OF this]
  have "fst (scan_automatic_semicolon_ts ?l v False) = (\<not> continues_ts v (text_of ''(x)''))" for v
    using newline [of v False] by (auto simp: text_of_def iswspace_def ch_def)
  moreover have "continues_ts v (text_of ''(x)'') = v LOGICAL_OR" for v
    by (simp add: text_of_def read_as_keyword_def)
  ultimately show ?thesis by simp
qed

section \<open>Question marks\<close>

text \<open>
  A question mark behind white space is the conditional operator exactly when no question mark
  or dot follows directly, and behind further white space neither a colon, a closing parenthesis
  or a comma (an optional parameter or property) nor a dot without a digit. The token is that one character.
\<close>

theorem ts_ternary_qmark_correct:
  assumes "rest l = ws @ ch CHR ''?'' # s" "list_all iswspace ws"
  shows "fst (scan_ternary_qmark_ts l) =
      ((s = [] \<or> hd s \<notin> ch ` set ''?.'') \<and>
       (case dropWhile iswspace s of [] \<Rightarrow> True
        | c # r \<Rightarrow> c \<notin> ch ` set '':),'' \<and> (c = ch CHR ''.'' \<longrightarrow> r \<noteq> [] \<and> iswdigit (hd r)))) \<and>
    (fst (scan_ternary_qmark_ts l) \<longrightarrow>
       result_sym (snd (scan_ternary_qmark_ts l)) = TERNARY_QMARK \<and>
       token_start (snd (scan_ternary_qmark_ts l)) = (if ws = [] then token_start l else pos l + length ws) \<and>
       token_end (snd (scan_ternary_qmark_ts l)) = Some (pos l + length ws + 1))"
proof -
  have q: "\<not> iswspace (ch CHR ''?'')" by (simp add: ch_def iswspace_def)
  define k where "k = skip_while iswspace l"
  note sp = skip_spaces [OF assms q, folded k_def]
  define b where "b = advance_while iswspace (set_sym TERNARY_QMARK (mark_end (advance k)))"
  have la: "la (advance k) = (if s = [] then 0 else hd s)"
    using sp(1) by (auto simp: la_def split: list.split)
  have b: "rest b = dropWhile iswspace s" "token_start b = token_start k" "token_end b = Some (Suc (pos k))"
    "result_sym b = TERNARY_QMARK"
    using sp(1) by (simp_all add: b_def)
  define r where "r = dropWhile iswspace s"
  have "la b = (if r = [] then 0 else hd r)" "la (advance b) = (if tl r = [] then 0 else hd (tl r))"
    using b(1) la_hd [of b r] la_hd [of "advance b" "tl r"] unfolding r_def by simp_all
  with sp la b(2-4) show ?thesis
    unfolding r_def [symmetric]
    by (cases r) (auto simp: scan_ternary_qmark_ts_def Let_def k_def [symmetric] b_def [symmetric])
qed

theorem ts_ternary_qmark_correct_witness:
  "\<not> fst (scan_ternary_qmark_ts (lexer_on AUTOMATIC_SEMICOLON (text_of ''? : T''))) \<and>
   fst (scan_ternary_qmark_ts (lexer_on AUTOMATIC_SEMICOLON (text_of ''? x : y'')))"
proof -
  have "iswspace (ch CHR '' '')" "\<not> iswspace (ch CHR '':'')" "\<not> iswspace (ch CHR ''x'')"
    by (simp_all add: iswspace_def ch_def)
  then show ?thesis
    using ts_ternary_qmark_correct [of "lexer_on AUTOMATIC_SEMICOLON (text_of ''? : T'')" "[]" "text_of '' : T''"]
      ts_ternary_qmark_correct [of "lexer_on AUTOMATIC_SEMICOLON (text_of ''? x : y'')" "[]" "text_of '' x : y''"]
    by (simp add: lexer_on_def text_of_def)
qed

section \<open>The scanner moves forward\<close>

lemma later_scan_whitespace_and_comments_ts [scan_mono]:
  "later m l \<Longrightarrow> later m (snd (snd (scan_whitespace_and_comments_ts l d)))"
proof (induction l d rule: scan_whitespace_and_comments_ts.induct)
  case (1 l d)
  then show ?case
    by (subst scan_whitespace_and_comments_ts.simps) (simp add: Let_def scan_mono)
qed

lemma later_semicolon_loop_ts [scan_mono]: "later m l \<Longrightarrow> later m (snd (semicolon_loop_ts l v))"
proof (induction l v rule: semicolon_loop_ts.induct)
  case (1 l v)
  then show ?case by (subst semicolon_loop_ts.simps) (simp add: Let_def scan_mono)
qed

lemma later_ts_parts [scan_mono]:
  assumes "later m l"
  shows "later m (snd (snd (scan_automatic_semicolon_ts l v d)))" "later m (snd (scan_ternary_qmark_ts l))"
  using assms
  by (auto simp: scan_automatic_semicolon_ts_def scan_ternary_qmark_ts_def semicolon_before_ts_def
      scan_in_keyword_def Let_def split_beta scan_mono split: option.split)

lemma later_external_scanner_scan [scan_mono]: "later m l \<Longrightarrow> later m (snd (external_scanner_scan l v))"
  by (simp add: external_scanner_scan_def scan_template_chars_ts_def scan_template_chars_def scan_jsx_text_ts_def
      scan_jsx_text_def scan_closing_comment_def Let_def split_beta scan_mono)

end
