(* ===== verification/Yaml_Schema.thy ===== *)
theory Yaml_Schema
  imports TSLexer
begin

text \<open>
  The schema automata of the YAML grammar: \<open>schema.core.c\<close>, \<open>schema.json.c\<close> and \<open>schema.legacy.c\<close>, of
  which the scanner includes one (the core schema unless the build says otherwise). An automaton
  reads the characters of a plain scalar and says whether it is a string, null, a boolean, a number
  or a timestamp.

  Each file is one function \<open>adv_sch_stt\<close>, a \<open>switch\<close> on the state whose cases have the same
  form: possibly an assignment to the result, then \<open>if\<close> statements that test the character against
  literals and ranges and return with a new result and state. The cases are the rows of a table
  per file, in the order of the source; \<open>adv_sch_stt\<close> is the code around them.
\<close>

section \<open>The automata\<close>

datatype ResultSchema = RS_STR | RS_INT | RS_NULL | RS_BOOL | RS_FLOAT | RS_TIMESTAMP

datatype edge = Edge "(int \<times> int) list" ResultSchema int

datatype row = Row "ResultSchema option" "edge list" | Abort

definition lit :: "char \<Rightarrow> int \<times> int" where
  "lit c = (ch c, ch c)"

definition span :: "char \<Rightarrow> char \<Rightarrow> int \<times> int" where
  "span c d = (ch c, ch d)"

definition SCH_STT_FRZ :: int where
  "SCH_STT_FRZ = - 1"

fun find_edge :: "edge list \<Rightarrow> int \<Rightarrow> (ResultSchema \<times> int) option" where
  "find_edge [] cur_chr = None"
| "find_edge (Edge guard rlt_sch target # edges) cur_chr =
     (if list_ex (\<lambda>(lo, hi). lo \<le> cur_chr \<and> cur_chr \<le> hi) guard then Some (rlt_sch, target)
      else find_edge edges cur_chr)"

text \<open>The code behind the \<open>switch\<close>: any character but the end of a scalar makes it a string.\<close>

definition freeze :: "int \<Rightarrow> ResultSchema \<Rightarrow> int \<times> ResultSchema" where
  "freeze cur_chr rlt_sch =
     (SCH_STT_FRZ, if cur_chr \<noteq> 13 \<and> cur_chr \<noteq> 10 \<and> cur_chr \<noteq> 32 \<and> cur_chr \<noteq> 0 then RS_STR else rlt_sch)"

text \<open>The result is the new state and result, or \<open>None\<close> where the code calls \<open>abort\<close>.\<close>

definition adv_sch_stt :: "row list \<Rightarrow> int \<Rightarrow> int \<Rightarrow> ResultSchema \<Rightarrow> (int \<times> ResultSchema) option" where
  "adv_sch_stt tab sch_stt cur_chr rlt_sch =
     (if sch_stt = SCH_STT_FRZ then Some (freeze cur_chr rlt_sch)
      else if 0 \<le> sch_stt \<and> nat sch_stt < length tab then
        (case tab ! nat sch_stt of
           Abort \<Rightarrow> None
         | Row init edges \<Rightarrow>
             (let rlt_sch = (case init of None \<Rightarrow> rlt_sch | Some r \<Rightarrow> r)
              in case find_edge edges cur_chr of
                   Some (r, target) \<Rightarrow> Some (target, r)
                 | None \<Rightarrow> Some (freeze cur_chr rlt_sch)))
      else Some (SCH_STT_FRZ, RS_STR))"

subsection \<open>The core schema\<close>

definition core_rows_0 :: "row list" where
  "core_rows_0 = [
     Row None
       [Edge [lit (CHR ''.'')] RS_STR 6,
        Edge [lit (CHR ''0'')] RS_INT 37,
        Edge [lit (CHR ''F'')] RS_STR 2,
        Edge [lit (CHR ''N'')] RS_STR 16,
        Edge [lit (CHR ''T'')] RS_STR 13,
        Edge [lit (CHR ''f'')] RS_STR 17,
        Edge [lit (CHR ''n'')] RS_STR 29,
        Edge [lit (CHR ''t'')] RS_STR 26,
        Edge [lit (CHR ''~'')] RS_NULL 35,
        Edge [lit (CHR ''+'')] RS_STR 1,
        Edge [lit (CHR ''-'')] RS_STR 1,
        Edge [span (CHR ''1'') (CHR ''9'')] RS_INT 38],
     Row None
       [Edge [lit (CHR ''.'')] RS_STR 7,
        Edge [span (CHR ''0'') (CHR ''9'')] RS_INT 38],
     Row None
       [Edge [lit (CHR ''A'')] RS_STR 9,
        Edge [lit (CHR ''a'')] RS_STR 22],
     Row None
       [Edge [lit (CHR ''A'')] RS_STR 12,
        Edge [lit (CHR ''a'')] RS_STR 12],
     Row None [Edge [lit (CHR ''E'')] RS_BOOL 36],
     Row None [Edge [lit (CHR ''F'')] RS_FLOAT 41],
     Row None
       [Edge [lit (CHR ''I'')] RS_STR 11,
        Edge [lit (CHR ''N'')] RS_STR 3,
        Edge [lit (CHR ''i'')] RS_STR 24,
        Edge [lit (CHR ''n'')] RS_STR 18,
        Edge [span (CHR ''0'') (CHR ''9'')] RS_FLOAT 42],
     Row None
       [Edge [lit (CHR ''I'')] RS_STR 11,
        Edge [lit (CHR ''i'')] RS_STR 24,
        Edge [span (CHR ''0'') (CHR ''9'')] RS_FLOAT 42],
     Row None [Edge [lit (CHR ''L'')] RS_NULL 35],
     Row None [Edge [lit (CHR ''L'')] RS_STR 14],
     Row None [Edge [lit (CHR ''L'')] RS_STR 8],
     Row None
       [Edge [lit (CHR ''N'')] RS_STR 5,
        Edge [lit (CHR ''n'')] RS_STR 20],
     Row None [Edge [lit (CHR ''N'')] RS_FLOAT 41],
     Row None
       [Edge [lit (CHR ''R'')] RS_STR 15,
        Edge [lit (CHR ''r'')] RS_STR 28],
     Row None [Edge [lit (CHR ''S'')] RS_STR 4],
     Row None [Edge [lit (CHR ''U'')] RS_STR 4],
     Row None
       [Edge [lit (CHR ''U'')] RS_STR 10,
        Edge [lit (CHR ''u'')] RS_STR 23],
     Row None [Edge [lit (CHR ''a'')] RS_STR 22],
     Row None [Edge [lit (CHR ''a'')] RS_STR 25],
     Row None [Edge [lit (CHR ''e'')] RS_BOOL 36],
     Row None [Edge [lit (CHR ''f'')] RS_FLOAT 41],
     Row None [Edge [lit (CHR ''l'')] RS_NULL 35],
     Row None [Edge [lit (CHR ''l'')] RS_STR 27],
     Row None [Edge [lit (CHR ''l'')] RS_STR 21],
     Row None [Edge [lit (CHR ''n'')] RS_STR 20],
     Row None [Edge [lit (CHR ''n'')] RS_FLOAT 41],
     Row None [Edge [lit (CHR ''r'')] RS_STR 28],
     Row None [Edge [lit (CHR ''s'')] RS_STR 19],
     Row None [Edge [lit (CHR ''u'')] RS_STR 19],
     Row None [Edge [lit (CHR ''u'')] RS_STR 23]]"

definition core_rows_1 :: "row list" where
  "core_rows_1 = [
     Row None
       [Edge [lit (CHR ''+''), lit (CHR ''-'')] RS_STR 32,
        Edge [span (CHR ''0'') (CHR ''9'')] RS_FLOAT 43],
     Row None [Edge [span (CHR ''0'') (CHR ''7'')] RS_INT 39],
     Row None [Edge [span (CHR ''0'') (CHR ''9'')] RS_FLOAT 43],
     Row None [Edge [span (CHR ''0'') (CHR ''9''), span (CHR ''A'') (CHR ''F''), span (CHR ''a'') (CHR ''f'')] RS_INT 40],
     Abort,
     Row (Some RS_NULL) [],
     Row (Some RS_BOOL) [],
     Row (Some RS_INT)
       [Edge [lit (CHR ''.'')] RS_FLOAT 42,
        Edge [lit (CHR ''o'')] RS_STR 31,
        Edge [lit (CHR ''x'')] RS_STR 33,
        Edge [lit (CHR ''E''), lit (CHR ''e'')] RS_STR 30,
        Edge [span (CHR ''0'') (CHR ''9'')] RS_INT 38],
     Row (Some RS_INT)
       [Edge [lit (CHR ''.'')] RS_FLOAT 42,
        Edge [lit (CHR ''E''), lit (CHR ''e'')] RS_STR 30,
        Edge [span (CHR ''0'') (CHR ''9'')] RS_INT 38],
     Row (Some RS_INT) [Edge [span (CHR ''0'') (CHR ''7'')] RS_INT 39],
     Row (Some RS_INT) [Edge [span (CHR ''0'') (CHR ''9''), span (CHR ''A'') (CHR ''F''), span (CHR ''a'') (CHR ''f'')] RS_INT 40],
     Row (Some RS_FLOAT) [],
     Row (Some RS_FLOAT)
       [Edge [lit (CHR ''E''), lit (CHR ''e'')] RS_STR 30,
        Edge [span (CHR ''0'') (CHR ''9'')] RS_FLOAT 42],
     Row (Some RS_FLOAT) [Edge [span (CHR ''0'') (CHR ''9'')] RS_FLOAT 43]]"

definition core_rows :: "row list" where
  "core_rows = core_rows_0 @ core_rows_1"

subsection \<open>The JSON schema\<close>

definition json_rows :: "row list" where
  "json_rows = [
     Row None
       [Edge [lit (CHR ''-'')] RS_STR 1,
        Edge [lit (CHR ''0'')] RS_INT 16,
        Edge [lit (CHR ''f'')] RS_STR 2,
        Edge [lit (CHR ''n'')] RS_STR 10,
        Edge [lit (CHR ''t'')] RS_STR 7,
        Edge [span (CHR ''1'') (CHR ''9'')] RS_INT 17],
     Row None
       [Edge [lit (CHR ''0'')] RS_INT 16,
        Edge [span (CHR ''1'') (CHR ''9'')] RS_INT 17],
     Row None [Edge [lit (CHR ''a'')] RS_STR 4],
     Row None [Edge [lit (CHR ''e'')] RS_BOOL 15],
     Row None [Edge [lit (CHR ''l'')] RS_STR 8],
     Row None [Edge [lit (CHR ''l'')] RS_NULL 14],
     Row None [Edge [lit (CHR ''l'')] RS_STR 5],
     Row None [Edge [lit (CHR ''r'')] RS_STR 9],
     Row None [Edge [lit (CHR ''s'')] RS_STR 3],
     Row None [Edge [lit (CHR ''u'')] RS_STR 3],
     Row None [Edge [lit (CHR ''u'')] RS_STR 6],
     Row None
       [Edge [lit (CHR ''+''), lit (CHR ''-'')] RS_STR 12,
        Edge [span (CHR ''0'') (CHR ''9'')] RS_FLOAT 19],
     Row None [Edge [span (CHR ''0'') (CHR ''9'')] RS_FLOAT 19],
     Abort,
     Row (Some RS_NULL) [],
     Row (Some RS_BOOL) [],
     Row (Some RS_INT)
       [Edge [lit (CHR ''.'')] RS_FLOAT 18,
        Edge [lit (CHR ''E''), lit (CHR ''e'')] RS_STR 11],
     Row (Some RS_INT)
       [Edge [lit (CHR ''.'')] RS_FLOAT 18,
        Edge [lit (CHR ''E''), lit (CHR ''e'')] RS_STR 11,
        Edge [span (CHR ''0'') (CHR ''9'')] RS_INT 17],
     Row (Some RS_FLOAT)
       [Edge [lit (CHR ''E''), lit (CHR ''e'')] RS_STR 11,
        Edge [span (CHR ''0'') (CHR ''9'')] RS_FLOAT 18],
     Row (Some RS_FLOAT) [Edge [span (CHR ''0'') (CHR ''9'')] RS_FLOAT 19]]"

subsection \<open>The schema of YAML 1.1\<close>

definition legacy_rows_0 :: "row list" where
  "legacy_rows_0 = [
     Row None
       [Edge [lit (CHR ''.'')] RS_FLOAT 89,
        Edge [lit (CHR ''0'')] RS_INT 75,
        Edge [lit (CHR ''F'')] RS_STR 13,
        Edge [lit (CHR ''N'')] RS_BOOL 70,
        Edge [lit (CHR ''O'')] RS_STR 17,
        Edge [lit (CHR ''T'')] RS_STR 24,
        Edge [lit (CHR ''Y'')] RS_BOOL 69,
        Edge [lit (CHR ''f'')] RS_STR 29,
        Edge [lit (CHR ''n'')] RS_BOOL 72,
        Edge [lit (CHR ''o'')] RS_STR 33,
        Edge [lit (CHR ''t'')] RS_STR 40,
        Edge [lit (CHR ''y'')] RS_BOOL 71,
        Edge [lit (CHR ''~'')] RS_NULL 67,
        Edge [lit (CHR ''+'')] RS_STR 7,
        Edge [lit (CHR ''-'')] RS_STR 7,
        Edge [span (CHR ''1'') (CHR ''9'')] RS_INT 82],
     Row None
       [Edge [lit (CHR ''-'')] RS_STR 53,
        Edge [lit (CHR ''.'')] RS_FLOAT 91,
        Edge [lit (CHR '':'')] RS_STR 50,
        Edge [span (CHR ''0'') (CHR ''9''), lit (CHR ''_'')] RS_STR 6],
     Row None
       [Edge [lit (CHR ''-'')] RS_STR 54,
        Edge [span (CHR ''0'') (CHR ''9'')] RS_STR 3],
     Row None [Edge [lit (CHR ''-'')] RS_STR 60],
     Row None
       [Edge [lit (CHR ''.'')] RS_FLOAT 91,
        Edge [lit (CHR '':'')] RS_STR 50,
        Edge [lit (CHR ''_'')] RS_STR 6,
        Edge [span (CHR ''0'') (CHR ''9'')] RS_STR 1],
     Row None
       [Edge [lit (CHR ''.'')] RS_FLOAT 91,
        Edge [lit (CHR '':'')] RS_STR 50,
        Edge [lit (CHR ''_'')] RS_STR 6,
        Edge [span (CHR ''0'') (CHR ''9'')] RS_STR 4],
     Row None
       [Edge [lit (CHR ''.'')] RS_FLOAT 91,
        Edge [lit (CHR '':'')] RS_STR 50,
        Edge [span (CHR ''0'') (CHR ''9''), lit (CHR ''_'')] RS_STR 6],
     Row None
       [Edge [lit (CHR ''.'')] RS_FLOAT 90,
        Edge [lit (CHR ''0'')] RS_INT 78,
        Edge [span (CHR ''1'') (CHR ''9'')] RS_INT 83],
     Row None
       [Edge [lit (CHR ''.'')] RS_FLOAT 93,
        Edge [lit (CHR '':'')] RS_STR 50],
     Row None
       [Edge [lit (CHR ''.'')] RS_FLOAT 93,
        Edge [lit (CHR '':'')] RS_STR 50,
        Edge [span (CHR ''0'') (CHR ''9'')] RS_STR 8],
     Row None [Edge [lit (CHR '':'')] RS_STR 61],
     Row None
       [Edge [lit (CHR '':'')] RS_STR 61,
        Edge [span (CHR ''0'') (CHR ''9'')] RS_STR 10],
     Row None [Edge [lit (CHR '':'')] RS_STR 62],
     Row None
       [Edge [lit (CHR ''A'')] RS_STR 20,
        Edge [lit (CHR ''a'')] RS_STR 36],
     Row None
       [Edge [lit (CHR ''A'')] RS_STR 22,
        Edge [lit (CHR ''a'')] RS_STR 22],
     Row None [Edge [lit (CHR ''E'')] RS_BOOL 68],
     Row None [Edge [lit (CHR ''F'')] RS_BOOL 68],
     Row None
       [Edge [lit (CHR ''F'')] RS_STR 16,
        Edge [lit (CHR ''f'')] RS_STR 32,
        Edge [lit (CHR ''N''), lit (CHR ''n'')] RS_BOOL 68],
     Row None [Edge [lit (CHR ''F'')] RS_FLOAT 88],
     Row None [Edge [lit (CHR ''L'')] RS_NULL 67],
     Row None [Edge [lit (CHR ''L'')] RS_STR 26],
     Row None [Edge [lit (CHR ''L'')] RS_STR 19],
     Row None [Edge [lit (CHR ''N'')] RS_FLOAT 88],
     Row None
       [Edge [lit (CHR ''N'')] RS_STR 18,
        Edge [lit (CHR ''n'')] RS_STR 34],
     Row None
       [Edge [lit (CHR ''R'')] RS_STR 27,
        Edge [lit (CHR ''r'')] RS_STR 43],
     Row None [Edge [lit (CHR ''S'')] RS_BOOL 68],
     Row None [Edge [lit (CHR ''S'')] RS_STR 15],
     Row None [Edge [lit (CHR ''U'')] RS_STR 15],
     Row None
       [Edge [lit (CHR ''Z'')] RS_TIMESTAMP 94,
        Edge [lit (CHR 0x09), lit (CHR '' '')] RS_STR 28]]"

definition legacy_rows_1 :: "row list" where
  "legacy_rows_1 = [
     Row None [Edge [lit (CHR ''a'')] RS_STR 36],
     Row None [Edge [lit (CHR ''a'')] RS_STR 38],
     Row None [Edge [lit (CHR ''e'')] RS_BOOL 68],
     Row None [Edge [lit (CHR ''f'')] RS_BOOL 68],
     Row None
       [Edge [lit (CHR ''f'')] RS_STR 32,
        Edge [lit (CHR ''n'')] RS_BOOL 68],
     Row None [Edge [lit (CHR ''f'')] RS_FLOAT 88],
     Row None [Edge [lit (CHR ''l'')] RS_NULL 67],
     Row None [Edge [lit (CHR ''l'')] RS_STR 42],
     Row None [Edge [lit (CHR ''l'')] RS_STR 35],
     Row None [Edge [lit (CHR ''n'')] RS_FLOAT 88],
     Row None [Edge [lit (CHR ''n'')] RS_STR 34],
     Row None [Edge [lit (CHR ''r'')] RS_STR 43],
     Row None [Edge [lit (CHR ''s'')] RS_BOOL 68],
     Row None [Edge [lit (CHR ''s'')] RS_STR 31],
     Row None [Edge [lit (CHR ''u'')] RS_STR 31],
     Row None
       [Edge [lit (CHR 0x09), lit (CHR '' '')] RS_STR 47,
        Edge [lit (CHR ''T''), lit (CHR ''t'')] RS_STR 55],
     Row None
       [Edge [lit (CHR 0x09), lit (CHR '' '')] RS_STR 47,
        Edge [lit (CHR ''T''), lit (CHR ''t'')] RS_STR 55,
        Edge [span (CHR ''0'') (CHR ''9'')] RS_STR 44],
     Row None
       [Edge [lit (CHR 0x09), lit (CHR '' '')] RS_STR 47,
        Edge [lit (CHR ''T''), lit (CHR ''t'')] RS_STR 55,
        Edge [span (CHR ''0'') (CHR ''9'')] RS_TIMESTAMP 99],
     Row None
       [Edge [lit (CHR 0x09), lit (CHR '' '')] RS_STR 47,
        Edge [span (CHR ''0'') (CHR ''9'')] RS_STR 11],
     Row None [Edge [lit (CHR ''+''), lit (CHR ''-'')] RS_STR 52],
     Row None [Edge [lit (CHR ''0''), lit (CHR ''1''), lit (CHR ''_'')] RS_INT 86],
     Row None
       [Edge [span (CHR ''6'') (CHR ''9'')] RS_STR 8,
        Edge [span (CHR ''0'') (CHR ''5'')] RS_STR 9],
     Row None
       [Edge [span (CHR ''6'') (CHR ''9'')] RS_INT 84,
        Edge [span (CHR ''0'') (CHR ''5'')] RS_INT 85],
     Row None [Edge [span (CHR ''0'') (CHR ''9'')] RS_FLOAT 92],
     Row None [Edge [span (CHR ''0'') (CHR ''9'')] RS_STR 2],
     Row None [Edge [span (CHR ''0'') (CHR ''9'')] RS_STR 45],
     Row None [Edge [span (CHR ''0'') (CHR ''9'')] RS_STR 11],
     Row None [Edge [span (CHR ''0'') (CHR ''9'')] RS_TIMESTAMP 95],
     Row None [Edge [span (CHR ''0'') (CHR ''9'')] RS_TIMESTAMP 94],
     Row None [Edge [span (CHR ''0'') (CHR ''9'')] RS_TIMESTAMP 98]]"

definition legacy_rows_2 :: "row list" where
  "legacy_rows_2 = [
     Row None [Edge [span (CHR ''0'') (CHR ''9'')] RS_TIMESTAMP 97],
     Row None [Edge [span (CHR ''0'') (CHR ''9'')] RS_STR 46],
     Row None [Edge [span (CHR ''0'') (CHR ''9'')] RS_STR 64],
     Row None [Edge [span (CHR ''0'') (CHR ''9'')] RS_STR 56],
     Row None [Edge [span (CHR ''0'') (CHR ''9'')] RS_STR 57],
     Row None [Edge [span (CHR ''0'') (CHR ''9'')] RS_STR 12],
     Row None [Edge [span (CHR ''0'') (CHR ''9''), span (CHR ''A'') (CHR ''F''), lit (CHR ''_''), span (CHR ''a'') (CHR ''f'')] RS_INT 87],
     Abort,
     Row (Some RS_NULL) [],
     Row (Some RS_BOOL) [],
     Row (Some RS_BOOL)
       [Edge [lit (CHR ''E'')] RS_STR 25,
        Edge [lit (CHR ''e'')] RS_STR 41],
     Row (Some RS_BOOL)
       [Edge [lit (CHR ''U'')] RS_STR 21,
        Edge [lit (CHR ''u'')] RS_STR 37,
        Edge [lit (CHR ''O''), lit (CHR ''o'')] RS_BOOL 68],
     Row (Some RS_BOOL) [Edge [lit (CHR ''e'')] RS_STR 41],
     Row (Some RS_BOOL)
       [Edge [lit (CHR ''o'')] RS_BOOL 68,
        Edge [lit (CHR ''u'')] RS_STR 37],
     Row (Some RS_INT)
       [Edge [lit (CHR ''-'')] RS_STR 53,
        Edge [lit (CHR ''.'')] RS_FLOAT 91,
        Edge [lit (CHR '':'')] RS_STR 50,
        Edge [lit (CHR ''8''), lit (CHR ''9'')] RS_STR 6,
        Edge [span (CHR ''0'') (CHR ''7''), lit (CHR ''_'')] RS_INT 79],
     Row (Some RS_INT)
       [Edge [lit (CHR ''-'')] RS_STR 53,
        Edge [lit (CHR ''.'')] RS_FLOAT 91,
        Edge [lit (CHR '':'')] RS_STR 51,
        Edge [span (CHR ''0'') (CHR ''9''), lit (CHR ''_'')] RS_INT 83],
     Row (Some RS_INT)
       [Edge [lit (CHR ''.'')] RS_FLOAT 91,
        Edge [lit (CHR '':'')] RS_STR 50,
        Edge [lit (CHR ''_'')] RS_INT 79,
        Edge [lit (CHR ''b'')] RS_STR 49,
        Edge [lit (CHR ''x'')] RS_STR 65,
        Edge [lit (CHR ''8''), lit (CHR ''9'')] RS_STR 5,
        Edge [span (CHR ''0'') (CHR ''7'')] RS_INT 77],
     Row (Some RS_INT)
       [Edge [lit (CHR ''.'')] RS_FLOAT 91,
        Edge [lit (CHR '':'')] RS_STR 50,
        Edge [lit (CHR ''_'')] RS_INT 79,
        Edge [lit (CHR ''8''), lit (CHR ''9'')] RS_STR 1,
        Edge [span (CHR ''0'') (CHR ''7'')] RS_INT 73],
     Row (Some RS_INT)
       [Edge [lit (CHR ''.'')] RS_FLOAT 91,
        Edge [lit (CHR '':'')] RS_STR 50,
        Edge [lit (CHR ''_'')] RS_INT 79,
        Edge [lit (CHR ''8''), lit (CHR ''9'')] RS_STR 4,
        Edge [span (CHR ''0'') (CHR ''7'')] RS_INT 76]]"

definition legacy_rows_3 :: "row list" where
  "legacy_rows_3 = [
     Row (Some RS_INT)
       [Edge [lit (CHR ''.'')] RS_FLOAT 91,
        Edge [lit (CHR '':'')] RS_STR 50,
        Edge [lit (CHR ''b'')] RS_STR 49,
        Edge [lit (CHR ''x'')] RS_STR 65,
        Edge [lit (CHR ''8''), lit (CHR ''9'')] RS_STR 6,
        Edge [span (CHR ''0'') (CHR ''7''), lit (CHR ''_'')] RS_INT 79],
     Row (Some RS_INT)
       [Edge [lit (CHR ''.'')] RS_FLOAT 91,
        Edge [lit (CHR '':'')] RS_STR 50,
        Edge [lit (CHR ''8''), lit (CHR ''9'')] RS_STR 6,
        Edge [span (CHR ''0'') (CHR ''7''), lit (CHR ''_'')] RS_INT 79],
     Row (Some RS_INT)
       [Edge [lit (CHR ''.'')] RS_FLOAT 91,
        Edge [lit (CHR '':'')] RS_STR 51,
        Edge [lit (CHR ''_'')] RS_INT 83,
        Edge [span (CHR ''0'') (CHR ''9'')] RS_INT 74],
     Row (Some RS_INT)
       [Edge [lit (CHR ''.'')] RS_FLOAT 91,
        Edge [lit (CHR '':'')] RS_STR 51,
        Edge [lit (CHR ''_'')] RS_INT 83,
        Edge [span (CHR ''0'') (CHR ''9'')] RS_INT 80],
     Row (Some RS_INT)
       [Edge [lit (CHR ''.'')] RS_FLOAT 91,
        Edge [lit (CHR '':'')] RS_STR 51,
        Edge [lit (CHR ''_'')] RS_INT 83,
        Edge [span (CHR ''0'') (CHR ''9'')] RS_INT 81],
     Row (Some RS_INT)
       [Edge [lit (CHR ''.'')] RS_FLOAT 91,
        Edge [lit (CHR '':'')] RS_STR 51,
        Edge [span (CHR ''0'') (CHR ''9''), lit (CHR ''_'')] RS_INT 83],
     Row (Some RS_INT)
       [Edge [lit (CHR ''.'')] RS_FLOAT 93,
        Edge [lit (CHR '':'')] RS_STR 51],
     Row (Some RS_INT)
       [Edge [lit (CHR ''.'')] RS_FLOAT 93,
        Edge [lit (CHR '':'')] RS_STR 51,
        Edge [span (CHR ''0'') (CHR ''9'')] RS_INT 84],
     Row (Some RS_INT) [Edge [lit (CHR ''0''), lit (CHR ''1''), lit (CHR ''_'')] RS_INT 86],
     Row (Some RS_INT) [Edge [span (CHR ''0'') (CHR ''9''), span (CHR ''A'') (CHR ''F''), lit (CHR ''_''), span (CHR ''a'') (CHR ''f'')] RS_INT 87],
     Row (Some RS_FLOAT) [],
     Row (Some RS_FLOAT)
       [Edge [lit (CHR ''I'')] RS_STR 23,
        Edge [lit (CHR ''N'')] RS_STR 14,
        Edge [lit (CHR ''i'')] RS_STR 39,
        Edge [lit (CHR ''n'')] RS_STR 30,
        Edge [lit (CHR ''E''), lit (CHR ''e'')] RS_STR 48,
        Edge [lit (CHR ''.''), span (CHR ''0'') (CHR ''9'')] RS_FLOAT 91],
     Row (Some RS_FLOAT)
       [Edge [lit (CHR ''I'')] RS_STR 23,
        Edge [lit (CHR ''i'')] RS_STR 39,
        Edge [lit (CHR ''E''), lit (CHR ''e'')] RS_STR 48,
        Edge [lit (CHR ''.''), span (CHR ''0'') (CHR ''9'')] RS_FLOAT 91],
     Row (Some RS_FLOAT)
       [Edge [lit (CHR ''E''), lit (CHR ''e'')] RS_STR 48,
        Edge [lit (CHR ''.''), span (CHR ''0'') (CHR ''9'')] RS_FLOAT 91],
     Row (Some RS_FLOAT) [Edge [span (CHR ''0'') (CHR ''9'')] RS_FLOAT 92],
     Row (Some RS_FLOAT) [Edge [span (CHR ''0'') (CHR ''9''), lit (CHR ''_'')] RS_FLOAT 93],
     Row (Some RS_TIMESTAMP) [],
     Row (Some RS_TIMESTAMP)
       [Edge [lit (CHR ''.'')] RS_STR 58,
        Edge [lit (CHR ''Z'')] RS_TIMESTAMP 94,
        Edge [lit (CHR 0x09), lit (CHR '' '')] RS_STR 28,
        Edge [lit (CHR ''+''), lit (CHR ''-'')] RS_STR 59],
     Row (Some RS_TIMESTAMP) [Edge [lit (CHR '':'')] RS_STR 63],
     Row (Some RS_TIMESTAMP)
       [Edge [lit (CHR '':'')] RS_STR 63,
        Edge [span (CHR ''0'') (CHR ''9'')] RS_TIMESTAMP 96],
     Row (Some RS_TIMESTAMP)
       [Edge [lit (CHR ''Z'')] RS_TIMESTAMP 94,
        Edge [lit (CHR 0x09), lit (CHR '' '')] RS_STR 28,
        Edge [lit (CHR ''+''), lit (CHR ''-'')] RS_STR 59,
        Edge [span (CHR ''0'') (CHR ''9'')] RS_TIMESTAMP 98],
     Row (Some RS_TIMESTAMP)
       [Edge [lit (CHR 0x09), lit (CHR '' '')] RS_STR 47,
        Edge [lit (CHR ''T''), lit (CHR ''t'')] RS_STR 55]]"

definition legacy_rows :: "row list" where
  "legacy_rows = legacy_rows_0 @ legacy_rows_1 @ legacy_rows_2 @ legacy_rows_3"

section \<open>Runs of an automaton\<close>

fun feed :: "row list \<Rightarrow> int \<times> ResultSchema \<Rightarrow> int list \<Rightarrow> (int \<times> ResultSchema) option" where
  "feed tab qr [] = Some qr"
| "feed tab (q, r) (c # cs) =
     (case adv_sch_stt tab q c r of None \<Rightarrow> None | Some qr \<Rightarrow> feed tab qr cs)"

definition scalar_end :: "int \<Rightarrow> bool" where
  "scalar_end c \<longleftrightarrow> c = 13 \<or> c = 10 \<or> c = 32 \<or> c = 0"

lemma freeze_eq: "freeze c r = (SCH_STT_FRZ, if scalar_end c then r else RS_STR)"
  by (simp add: freeze_def scalar_end_def)

text \<open>The result of a table on a whole scalar, from a state and result on.\<close>

fun outcome :: "row list \<Rightarrow> int \<Rightarrow> ResultSchema \<Rightarrow> int list \<Rightarrow> ResultSchema" where
  "outcome tab q r [] = (case tab ! nat q of Row (Some r') _ \<Rightarrow> r' | _ \<Rightarrow> r)"
| "outcome tab q r (c # s) =
     (case tab ! nat q of Row _ edges \<Rightarrow>
        (case find_edge edges c of Some (r', q') \<Rightarrow> outcome tab q' r' s | None \<Rightarrow> RS_STR)
      | Abort \<Rightarrow> RS_STR)"

text \<open>Tables whose edges lead to rows of the table and never match the character \<open>t\<close>.\<close>

definition live :: "row list \<Rightarrow> int \<Rightarrow> bool" where
  "live tab q \<longleftrightarrow> 0 \<le> q \<and> nat q < length tab \<and> tab ! nat q \<noteq> Abort"

fun edge_ok :: "row list \<Rightarrow> int \<Rightarrow> edge \<Rightarrow> bool" where
  "edge_ok tab t (Edge guard r q) \<longleftrightarrow> live tab q \<and> list_all (\<lambda>(lo, hi). \<not> (lo \<le> t \<and> t \<le> hi)) guard"

fun row_ok :: "row list \<Rightarrow> int \<Rightarrow> row \<Rightarrow> bool" where
  "row_ok tab t Abort = True"
| "row_ok tab t (Row init edges) = list_all (edge_ok tab t) edges"

definition table_ok :: "row list \<Rightarrow> int \<Rightarrow> bool" where
  "table_ok tab t \<longleftrightarrow> list_all (row_ok tab t) tab"

lemma find_edge_live:
  "list_all (edge_ok tab t) edges \<Longrightarrow> find_edge edges c = Some (r, q) \<Longrightarrow> live tab q"
  by (induction edges c rule: find_edge.induct) (auto split: if_splits)

lemma find_edge_end: "list_all (edge_ok tab t) edges \<Longrightarrow> find_edge edges t = None"
  by (induction edges t rule: find_edge.induct) (auto simp: list_ex_iff list_all_iff)

lemma feed_frozen:
  assumes "list_all (\<lambda>c. \<not> scalar_end c) s" "scalar_end t"
  shows "feed tab (SCH_STT_FRZ, RS_STR) (s @ [t]) = Some (SCH_STT_FRZ, RS_STR)"
  using assms by (induction s) (auto simp: adv_sch_stt_def freeze_eq)

lemma feed_outcome:
  assumes "table_ok tab t" "live tab q" "list_all (\<lambda>c. \<not> scalar_end c) s" "scalar_end t"
  shows "feed tab (q, r) (s @ [t]) = Some (SCH_STT_FRZ, outcome tab q r s)"
  using assms(2,3)
proof (induction s arbitrary: q r)
  case Nil
  then obtain init edges where row: "tab ! nat q = Row init edges" "q \<noteq> SCH_STT_FRZ"
    by (cases "tab ! nat q") (auto simp: live_def SCH_STT_FRZ_def)
  moreover have "row_ok tab t (tab ! nat q)"
    using assms(1) Nil(1) by (auto simp: table_ok_def list_all_length live_def)
  then have "find_edge edges t = None" using find_edge_end row by simp
  ultimately show ?case
    using Nil assms(4) by (auto simp: adv_sch_stt_def freeze_eq live_def split: option.split)
next
  case (Cons c s)
  then obtain init edges where row: "tab ! nat q = Row init edges" "q \<noteq> SCH_STT_FRZ"
    by (cases "tab ! nat q") (auto simp: live_def SCH_STT_FRZ_def)
  moreover have "row_ok tab t (tab ! nat q)"
    using assms(1) Cons(2) by (auto simp: table_ok_def list_all_length live_def)
  ultimately show ?case
    using Cons feed_frozen [OF _ assms(4)] find_edge_live [of tab t edges c]
    by (auto simp: adv_sch_stt_def freeze_eq live_def Let_def split: option.split)
qed

section \<open>The core schema\<close>

lemmas char_defs = lit_def span_def ch_def

lemmas core_table = core_rows_def core_rows_0_def core_rows_1_def char_defs

lemma core_table_ok: "scalar_end t \<Longrightarrow> table_ok core_rows t" "live core_rows 0"
  by (auto simp: scalar_end_def core_table table_ok_def live_def)

lemma point_range: "k \<le> c \<and> c \<le> k \<longleftrightarrow> c = (k :: int)"
  by auto

text \<open>The rows with character codes.\<close>

lemma core_row:
  "core_rows ! 0 = Row None [Edge [(46, 46)] RS_STR 6, Edge [(48, 48)] RS_INT 37, Edge [(70, 70)]
    RS_STR 2, Edge [(78, 78)] RS_STR 16, Edge [(84, 84)] RS_STR 13, Edge [(102, 102)] RS_STR 17, Edge
    [(110, 110)] RS_STR 29, Edge [(116, 116)] RS_STR 26, Edge [(126, 126)] RS_NULL 35, Edge [(43, 43)]
    RS_STR 1, Edge [(45, 45)] RS_STR 1, Edge [(49, 57)] RS_INT 38]"
  "core_rows ! (Suc 0) = Row None [Edge [(46, 46)] RS_STR 7, Edge [(48, 57)] RS_INT 38]"
  "core_rows ! 2 = Row None [Edge [(65, 65)] RS_STR 9, Edge [(97, 97)] RS_STR 22]"
  "core_rows ! 3 = Row None [Edge [(65, 65)] RS_STR 12, Edge [(97, 97)] RS_STR 12]"
  "core_rows ! 4 = Row None [Edge [(69, 69)] RS_BOOL 36]"
  "core_rows ! 5 = Row None [Edge [(70, 70)] RS_FLOAT 41]"
  "core_rows ! 6 = Row None [Edge [(73, 73)] RS_STR 11, Edge [(78, 78)] RS_STR 3, Edge [(105, 105)]
    RS_STR 24, Edge [(110, 110)] RS_STR 18, Edge [(48, 57)] RS_FLOAT 42]"
  "core_rows ! 7 = Row None [Edge [(73, 73)] RS_STR 11, Edge [(105, 105)] RS_STR 24, Edge [(48, 57)]
    RS_FLOAT 42]"
  "core_rows ! 8 = Row None [Edge [(76, 76)] RS_NULL 35]"
  "core_rows ! 9 = Row None [Edge [(76, 76)] RS_STR 14]"
  "core_rows ! 10 = Row None [Edge [(76, 76)] RS_STR 8]"
  "core_rows ! 11 = Row None [Edge [(78, 78)] RS_STR 5, Edge [(110, 110)] RS_STR 20]"
  "core_rows ! 12 = Row None [Edge [(78, 78)] RS_FLOAT 41]"
  "core_rows ! 13 = Row None [Edge [(82, 82)] RS_STR 15, Edge [(114, 114)] RS_STR 28]"
  "core_rows ! 14 = Row None [Edge [(83, 83)] RS_STR 4]"
  "core_rows ! 15 = Row None [Edge [(85, 85)] RS_STR 4]"
  "core_rows ! 16 = Row None [Edge [(85, 85)] RS_STR 10, Edge [(117, 117)] RS_STR 23]"
  "core_rows ! 17 = Row None [Edge [(97, 97)] RS_STR 22]"
  "core_rows ! 18 = Row None [Edge [(97, 97)] RS_STR 25]"
  "core_rows ! 19 = Row None [Edge [(101, 101)] RS_BOOL 36]"
  "core_rows ! 20 = Row None [Edge [(102, 102)] RS_FLOAT 41]"
  "core_rows ! 21 = Row None [Edge [(108, 108)] RS_NULL 35]"
  "core_rows ! 22 = Row None [Edge [(108, 108)] RS_STR 27]"
  "core_rows ! 23 = Row None [Edge [(108, 108)] RS_STR 21]"
  "core_rows ! 24 = Row None [Edge [(110, 110)] RS_STR 20]"
  "core_rows ! 25 = Row None [Edge [(110, 110)] RS_FLOAT 41]"
  "core_rows ! 26 = Row None [Edge [(114, 114)] RS_STR 28]"
  "core_rows ! 27 = Row None [Edge [(115, 115)] RS_STR 19]"
  "core_rows ! 28 = Row None [Edge [(117, 117)] RS_STR 19]"
  "core_rows ! 29 = Row None [Edge [(117, 117)] RS_STR 23]"
  "core_rows ! 30 = Row None [Edge [(43, 43), (45, 45)] RS_STR 32, Edge [(48, 57)] RS_FLOAT 43]"
  "core_rows ! 31 = Row None [Edge [(48, 55)] RS_INT 39]"
  "core_rows ! 32 = Row None [Edge [(48, 57)] RS_FLOAT 43]"
  "core_rows ! 33 = Row None [Edge [(48, 57), (65, 70), (97, 102)] RS_INT 40]"
  "core_rows ! 35 = Row (Some RS_NULL) []"
  "core_rows ! 36 = Row (Some RS_BOOL) []"
  "core_rows ! 37 = Row (Some RS_INT) [Edge [(46, 46)] RS_FLOAT 42, Edge [(111, 111)] RS_STR 31, Edge
    [(120, 120)] RS_STR 33, Edge [(69, 69), (101, 101)] RS_STR 30, Edge [(48, 57)] RS_INT 38]"
  "core_rows ! 38 = Row (Some RS_INT) [Edge [(46, 46)] RS_FLOAT 42, Edge [(69, 69), (101, 101)] RS_STR
    30, Edge [(48, 57)] RS_INT 38]"
  "core_rows ! 39 = Row (Some RS_INT) [Edge [(48, 55)] RS_INT 39]"
  "core_rows ! 40 = Row (Some RS_INT) [Edge [(48, 57), (65, 70), (97, 102)] RS_INT 40]"
  "core_rows ! 41 = Row (Some RS_FLOAT) []"
  "core_rows ! 42 = Row (Some RS_FLOAT) [Edge [(69, 69), (101, 101)] RS_STR 30, Edge [(48, 57)]
    RS_FLOAT 42]"
  "core_rows ! 43 = Row (Some RS_FLOAT) [Edge [(48, 57)] RS_FLOAT 43]"
  by (simp_all add: core_table)


text \<open>
  The core schema of YAML 1.2 (section 10.3.2 of the specification), with \<open>.\<close> as the first
  character of a float only in front of a digit.
\<close>

definition digits1 :: "int list \<Rightarrow> bool" where
  "digits1 s \<longleftrightarrow> s \<noteq> [] \<and> list_all iswdigit s"

definition is_sign :: "int \<Rightarrow> bool" where
  "is_sign c \<longleftrightarrow> c = ch CHR ''+'' \<or> c = ch CHR ''-''"

definition strip_sign :: "int list \<Rightarrow> int list" where
  "strip_sign s = (case s of [] \<Rightarrow> [] | c # s' \<Rightarrow> if is_sign c then s' else s)"

definition exponent :: "int list \<Rightarrow> bool" where
  "exponent s = (case s of [] \<Rightarrow> False
     | c # s' \<Rightarrow> (c = ch CHR ''e'' \<or> c = ch CHR ''E'') \<and> digits1 (strip_sign s'))"

text \<open>Behind the point: digits, then possibly an exponent.\<close>

definition fraction :: "int list \<Rightarrow> bool" where
  "fraction s \<longleftrightarrow> (let r = dropWhile iswdigit s in r = [] \<or> exponent r)"

definition unsigned_float :: "int list \<Rightarrow> bool" where
  "unsigned_float s = (case s of [] \<Rightarrow> False
     | c # s' \<Rightarrow>
         if c = ch CHR ''.'' then s' \<noteq> [] \<and> iswdigit (hd s') \<and> fraction s'
         else iswdigit c \<and> (let r = dropWhile iswdigit s'
                            in exponent r \<or> r \<noteq> [] \<and> hd r = ch CHR ''.'' \<and> fraction (tl r)))"

definition is_octal :: "int \<Rightarrow> bool" where
  "is_octal c \<longleftrightarrow> 48 \<le> c \<and> c \<le> 55"

definition is_hex :: "int \<Rightarrow> bool" where
  "is_hex c \<longleftrightarrow> iswdigit c \<or> 65 \<le> c \<and> c \<le> 70 \<or> 97 \<le> c \<and> c \<le> 102"

definition core_null :: "int list \<Rightarrow> bool" where
  "core_null s \<longleftrightarrow> s \<in> text_of ` {''null'', ''Null'', ''NULL'', ''~''}"

definition core_bool :: "int list \<Rightarrow> bool" where
  "core_bool s \<longleftrightarrow> s \<in> text_of ` {''true'', ''True'', ''TRUE'', ''false'', ''False'', ''FALSE''}"

definition radix :: "char \<Rightarrow> (int \<Rightarrow> bool) \<Rightarrow> int list \<Rightarrow> bool" where
  "radix m p s = (case s of c # d # r \<Rightarrow> c = ch CHR ''0'' \<and> d = ch m \<and> r \<noteq> [] \<and> list_all p r | _ \<Rightarrow> False)"

definition core_int :: "int list \<Rightarrow> bool" where
  "core_int s \<longleftrightarrow> digits1 (strip_sign s) \<or> radix CHR ''o'' is_octal s \<or> radix CHR ''x'' is_hex s"

definition core_float :: "int list \<Rightarrow> bool" where
  "core_float s \<longleftrightarrow> unsigned_float (strip_sign s) \<or>
     strip_sign s \<in> text_of ` {''.inf'', ''.Inf'', ''.INF''} \<or>
     s \<in> text_of ` {''.nan'', ''.NaN'', ''.NAN''}"

definition core_type :: "int list \<Rightarrow> ResultSchema" where
  "core_type s =
     (if core_null s then RS_NULL else if core_bool s then RS_BOOL else if core_int s then RS_INT
      else if core_float s then RS_FLOAT else RS_STR)"

lemmas core_simps = core_row ch_def text_of_def iswdigit_def is_octal_def is_hex_def

lemma core_43: "outcome core_rows 43 r s = (if list_all iswdigit s then RS_FLOAT else RS_STR)"
  by (induction s arbitrary: r) (simp_all add: core_simps)

lemma core_32: "outcome core_rows 32 RS_STR s = (if digits1 s then RS_FLOAT else RS_STR)"
  by (cases s) (simp_all add: core_43 digits1_def core_row iswdigit_def)

lemma core_30: "outcome core_rows 30 RS_STR s = (if digits1 (strip_sign s) then RS_FLOAT else RS_STR)"
  by (cases s) (auto simp: core_43 core_32 core_row digits1_def strip_sign_def is_sign_def ch_def iswdigit_def)

lemma core_42: "outcome core_rows 42 r s = (if fraction s then RS_FLOAT else RS_STR)"
proof (induction s arbitrary: r)
  case (Cons c s)
  then show ?case
    by (auto simp: core_30 core_row fraction_def exponent_def ch_def iswdigit_def Let_def)
qed (simp add: core_row fraction_def)

lemma core_38: "outcome core_rows 38 r s =
    (let rest = dropWhile iswdigit s
     in if rest = [] then RS_INT
        else if exponent rest \<or> hd rest = ch CHR ''.'' \<and> fraction (tl rest) then RS_FLOAT else RS_STR)"
proof (induction s arbitrary: r)
  case (Cons c s)
  then show ?case
    by (auto simp: core_30 core_42 core_row exponent_def ch_def iswdigit_def Let_def)
qed (simp add: core_row)

lemma core_39: "outcome core_rows 39 r s = (if list_all is_octal s then RS_INT else RS_STR)"
  by (induction s arbitrary: r) (simp_all add: core_simps)

lemma core_40: "outcome core_rows 40 r s = (if list_all is_hex s then RS_INT else RS_STR)"
  by (induction s arbitrary: r) (auto simp: core_simps)

lemma core_final:
  "outcome core_rows 35 r s = (if s = [] then RS_NULL else RS_STR)"
  "outcome core_rows 36 r s = (if s = [] then RS_BOOL else RS_STR)"
  "outcome core_rows 41 r s = (if s = [] then RS_FLOAT else RS_STR)"
  by (cases s; simp add: core_row)+

lemma core_19: "outcome core_rows 19 RS_STR s = (if s \<in> text_of ` {''e''} then RS_BOOL else RS_STR)"
  by (cases s) (simp_all add: core_row core_final ch_def text_of_def)

lemma core_27: "outcome core_rows 27 RS_STR s = (if s \<in> text_of ` {''se''} then RS_BOOL else RS_STR)"
  by (cases s) (simp_all add: core_row core_final ch_def text_of_def core_19)

lemma core_28: "outcome core_rows 28 RS_STR s = (if s \<in> text_of ` {''ue''} then RS_BOOL else RS_STR)"
  by (cases s) (simp_all add: core_row core_final ch_def text_of_def core_19 core_27)

lemma core_22: "outcome core_rows 22 RS_STR s = (if s \<in> text_of ` {''lse''} then RS_BOOL else RS_STR)"
  by (cases s) (simp_all add: core_row core_final ch_def text_of_def core_19 core_27 core_28)

lemma core_17: "outcome core_rows 17 RS_STR s = (if s \<in> text_of ` {''alse''} then RS_BOOL else RS_STR)"
  by (cases s) (simp_all add: core_row core_final ch_def text_of_def core_19 core_27 core_28 core_22)

lemma core_26: "outcome core_rows 26 RS_STR s = (if s \<in> text_of ` {''rue''} then RS_BOOL else RS_STR)"
  by (cases s) (simp_all add: core_row core_final ch_def text_of_def core_19 core_27 core_28 core_22 core_17)

lemma core_4: "outcome core_rows 4 RS_STR s = (if s \<in> text_of ` {''E''} then RS_BOOL else RS_STR)"
  by (cases s) (simp_all add: core_row core_final ch_def text_of_def core_19 core_27 core_28 core_22 core_17 core_26)

lemma core_14: "outcome core_rows 14 RS_STR s = (if s \<in> text_of ` {''SE''} then RS_BOOL else RS_STR)"
  by (cases s) (simp_all add: core_row core_final ch_def text_of_def core_19 core_27 core_28 core_22 core_17 core_26 core_4)

lemma core_15: "outcome core_rows 15 RS_STR s = (if s \<in> text_of ` {''UE''} then RS_BOOL else RS_STR)"
  by (cases s) (simp_all add: core_row core_final ch_def text_of_def core_19 core_27 core_28 core_22 core_17 core_26 core_4 core_14)

lemma core_9: "outcome core_rows 9 RS_STR s = (if s \<in> text_of ` {''LSE''} then RS_BOOL else RS_STR)"
  by (cases s) (simp_all add: core_row core_final ch_def text_of_def core_19 core_27 core_28 core_22 core_17 core_26 core_4 core_14 core_15)

lemma core_2: "outcome core_rows 2 RS_STR s = (if s \<in> text_of ` {''ALSE'', ''alse''} then RS_BOOL else RS_STR)"
  by (cases s) (simp_all add: core_row core_final ch_def text_of_def core_19 core_27 core_28 core_22 core_17 core_26 core_4 core_14 core_15 core_9)

lemma core_13: "outcome core_rows 13 RS_STR s = (if s \<in> text_of ` {''RUE'', ''rue''} then RS_BOOL else RS_STR)"
  by (cases s) (simp_all add: core_row core_final ch_def text_of_def core_19 core_27 core_28 core_22 core_17 core_26 core_4 core_14 core_15 core_9 core_2)

lemma core_21: "outcome core_rows 21 RS_STR s = (if s \<in> text_of ` {''l''} then RS_NULL else RS_STR)"
  by (cases s) (simp_all add: core_row core_final ch_def text_of_def)

lemma core_23: "outcome core_rows 23 RS_STR s = (if s \<in> text_of ` {''ll''} then RS_NULL else RS_STR)"
  by (cases s) (simp_all add: core_row core_final ch_def text_of_def core_21)

lemma core_29: "outcome core_rows 29 RS_STR s = (if s \<in> text_of ` {''ull''} then RS_NULL else RS_STR)"
  by (cases s) (simp_all add: core_row core_final ch_def text_of_def core_21 core_23)

lemma core_8: "outcome core_rows 8 RS_STR s = (if s \<in> text_of ` {''L''} then RS_NULL else RS_STR)"
  by (cases s) (simp_all add: core_row core_final ch_def text_of_def core_21 core_23 core_29)

lemma core_10: "outcome core_rows 10 RS_STR s = (if s \<in> text_of ` {''LL''} then RS_NULL else RS_STR)"
  by (cases s) (simp_all add: core_row core_final ch_def text_of_def core_21 core_23 core_29 core_8)

lemma core_16: "outcome core_rows 16 RS_STR s = (if s \<in> text_of ` {''ULL'', ''ull''} then RS_NULL else RS_STR)"
  by (cases s) (simp_all add: core_row core_final ch_def text_of_def core_21 core_23 core_29 core_8 core_10)

lemma core_20: "outcome core_rows 20 RS_STR s = (if s \<in> text_of ` {''f''} then RS_FLOAT else RS_STR)"
  by (cases s) (simp_all add: core_row core_final ch_def text_of_def)

lemma core_5: "outcome core_rows 5 RS_STR s = (if s \<in> text_of ` {''F''} then RS_FLOAT else RS_STR)"
  by (cases s) (simp_all add: core_row core_final ch_def text_of_def core_20)

lemma core_24: "outcome core_rows 24 RS_STR s = (if s \<in> text_of ` {''nf''} then RS_FLOAT else RS_STR)"
  by (cases s) (simp_all add: core_row core_final ch_def text_of_def core_20 core_5)

lemma core_11: "outcome core_rows 11 RS_STR s = (if s \<in> text_of ` {''NF'', ''nf''} then RS_FLOAT else RS_STR)"
  by (cases s) (simp_all add: core_row core_final ch_def text_of_def core_20 core_5 core_24)

lemma core_12: "outcome core_rows 12 RS_STR s = (if s \<in> text_of ` {''N''} then RS_FLOAT else RS_STR)"
  by (cases s) (simp_all add: core_row core_final ch_def text_of_def core_20 core_5 core_24 core_11)

lemma core_25: "outcome core_rows 25 RS_STR s = (if s \<in> text_of ` {''n''} then RS_FLOAT else RS_STR)"
  by (cases s) (simp_all add: core_row core_final ch_def text_of_def core_20 core_5 core_24 core_11 core_12)

lemma core_18: "outcome core_rows 18 RS_STR s = (if s \<in> text_of ` {''an''} then RS_FLOAT else RS_STR)"
  by (cases s) (simp_all add: core_row core_final ch_def text_of_def core_20 core_5 core_24 core_11 core_12 core_25)

lemma core_3: "outcome core_rows 3 RS_STR s = (if s \<in> text_of ` {''AN'', ''aN''} then RS_FLOAT else RS_STR)"
  by (cases s) (simp_all add: core_row core_final ch_def text_of_def core_20 core_5 core_24 core_11 core_12 core_25 core_18)

lemma core_7: "outcome core_rows 7 RS_STR s =
    (if s \<in> text_of ` {''inf'', ''Inf'', ''INF''} \<or> s \<noteq> [] \<and> iswdigit (hd s) \<and> fraction s then RS_FLOAT else RS_STR)"
  by (cases s) (auto simp: core_row core_24 core_11 core_42 ch_def text_of_def iswdigit_def fraction_def exponent_def)

lemma core_6: "outcome core_rows 6 RS_STR s =
    (if s \<in> text_of ` {''inf'', ''Inf'', ''INF'', ''nan'', ''NaN'', ''NAN''} \<or>
        s \<noteq> [] \<and> iswdigit (hd s) \<and> fraction s then RS_FLOAT else RS_STR)"
  by (cases s) (auto simp: core_row core_24 core_11 core_18 core_3 core_42 ch_def text_of_def iswdigit_def fraction_def exponent_def)

lemma core_1: "outcome core_rows 1 RS_STR s =
    (if digits1 s then RS_INT
     else if unsigned_float s \<or> s \<in> text_of ` {''.inf'', ''.Inf'', ''.INF''} then RS_FLOAT else RS_STR)"
proof (cases s)
  case (Cons c s')
  then show ?thesis
    by (auto simp: core_row core_7 core_38 digits1_def unsigned_float_def ch_def text_of_def iswdigit_def Let_def
        dropWhile_eq_Nil_conv list_all_iff)
qed (simp add: core_row digits1_def unsigned_float_def text_of_def)

lemma core_31: "outcome core_rows 31 RS_STR s = (if s \<noteq> [] \<and> list_all is_octal s then RS_INT else RS_STR)"
  by (cases s) (auto simp: core_row core_39 is_octal_def)

lemma core_33: "outcome core_rows 33 RS_STR s = (if s \<noteq> [] \<and> list_all is_hex s then RS_INT else RS_STR)"
  by (cases s) (auto simp: core_row core_40 is_hex_def iswdigit_def)

lemma core_37: "outcome core_rows 37 r s =
    (if s \<noteq> [] \<and> hd s = ch CHR ''o'' then outcome core_rows 31 RS_STR (tl s)
     else if s \<noteq> [] \<and> hd s = ch CHR ''x'' then outcome core_rows 33 RS_STR (tl s)
     else outcome core_rows 38 r s)"
  by (cases s) (auto simp: core_row ch_def)

lemmas core_type_defs = core_type_def core_null_def core_bool_def core_int_def core_float_def

lemma radix_Cons:
  "radix m p (c # s) \<longleftrightarrow> c = ch CHR ''0'' \<and> s \<noteq> [] \<and> hd s = ch m \<and> tl s \<noteq> [] \<and> list_all p (tl s)"
  by (cases s) (auto simp: radix_def)

text \<open>The start state, by the kind of the first character.\<close>

lemma core_start_digit:
  assumes "iswdigit c"
  shows "outcome core_rows 0 RS_STR (c # s) = core_type (c # s)"
proof -
  have c: "48 \<le> c" "c \<le> 57" using assms by (auto simp: iswdigit_def)
  then have strip: "strip_sign (c # s) = c # s" by (simp add: strip_sign_def is_sign_def ch_def)
  have word: "c # s \<noteq> text_of (w # ws)" if "ch w < 48 \<or> 57 < ch w" for w ws
    using that c by (auto simp: text_of_def)
  have letters: "\<not> core_null (c # s)" "\<not> core_bool (c # s)"
    "c # s \<notin> text_of ` {''.inf'', ''.Inf'', ''.INF''}" "c # s \<notin> text_of ` {''.nan'', ''.NaN'', ''.NAN''}"
    unfolding core_null_def core_bool_def by (simp_all add: word ch_def)
  have float: "core_float (c # s) \<longleftrightarrow> (let r = dropWhile iswdigit s
      in exponent r \<or> r \<noteq> [] \<and> hd r = ch CHR ''.'' \<and> fraction (tl r))"
    using letters(3,4) c assms by (simp add: core_float_def strip unsigned_float_def ch_def)
  have int: "core_int (c # s) \<longleftrightarrow> list_all iswdigit s \<or>
      c = 48 \<and> s \<noteq> [] \<and> hd s = ch CHR ''o'' \<and> tl s \<noteq> [] \<and> list_all is_octal (tl s) \<or>
      c = 48 \<and> s \<noteq> [] \<and> hd s = ch CHR ''x'' \<and> tl s \<noteq> [] \<and> list_all is_hex (tl s)"
    using assms by (auto simp: core_int_def strip digits1_def radix_Cons ch_def)
  have start: "outcome core_rows 0 RS_STR (c # s) =
      (if c = 48 then outcome core_rows 37 RS_INT s else outcome core_rows 38 RS_INT s)"
    using c by (simp add: core_row)
  define r where "r = dropWhile iswdigit s"
  have r: "r = [] \<longleftrightarrow> list_all iswdigit s" by (simp add: r_def list_all_iff)
  have ox: "r = s \<and> \<not> exponent r \<and> r \<noteq> [] \<and> hd r \<noteq> ch CHR ''.''"
    if "s \<noteq> []" "hd s = ch CHR ''o'' \<or> hd s = ch CHR ''x''"
    using that by (cases s) (auto simp: r_def exponent_def iswdigit_def ch_def)
  show ?thesis
    unfolding start core_type_def int float core_37 core_38 core_31 core_33 Let_def r_def [symmetric] r [symmetric]
    using letters(1,2) ox by (auto simp: exponent_def)
qed

lemma core_start_sign:
  assumes "is_sign c"
  shows "outcome core_rows 0 RS_STR (c # s) = core_type (c # s)"
proof -
  have c: "c = 43 \<or> c = 45" using assms by (simp add: is_sign_def ch_def)
  have strip: "strip_sign (c # s) = s" using assms by (simp add: strip_sign_def)
  have word: "c # s \<noteq> text_of (w # ws)" if "ch w \<noteq> 43" "ch w \<noteq> 45" for w ws
    using that c by (auto simp: text_of_def)
  have "\<not> core_null (c # s)" "\<not> core_bool (c # s)" "c # s \<notin> text_of ` {''.nan'', ''.NaN'', ''.NAN''}"
    unfolding core_null_def core_bool_def by (simp_all add: word ch_def)
  moreover have "core_int (c # s) \<longleftrightarrow> digits1 s"
    using c by (auto simp: core_int_def strip radix_Cons ch_def)
  moreover have "outcome core_rows 0 RS_STR (c # s) = outcome core_rows 1 RS_STR s"
    using c by (auto simp: core_row)
  ultimately show ?thesis by (simp add: core_1 core_type_def core_float_def strip)
qed

lemma core_start_point: "outcome core_rows 0 RS_STR (ch CHR ''.'' # s) = core_type (ch CHR ''.'' # s)"
proof -
  let ?s = "ch CHR ''.'' # s"
  have strip: "strip_sign ?s = ?s" by (simp add: strip_sign_def is_sign_def)
  have "\<not> core_null ?s" "\<not> core_bool ?s" by (simp_all add: core_null_def core_bool_def text_of_def)
  moreover have "\<not> core_int ?s"
    by (simp add: core_int_def strip digits1_def radix_Cons) (simp add: iswdigit_def ch_def)
  moreover have "core_float ?s \<longleftrightarrow> s \<in> text_of ` {''inf'', ''Inf'', ''INF'', ''nan'', ''NaN'', ''NAN''} \<or>
      s \<noteq> [] \<and> iswdigit (hd s) \<and> fraction s"
    by (auto simp: core_float_def strip unsigned_float_def text_of_def)
  moreover have "outcome core_rows 0 RS_STR ?s = outcome core_rows 6 RS_STR s"
    by (simp add: core_row ch_def)
  ultimately show ?thesis by (simp add: core_6 core_type_def)
qed

lemma core_start_other:
  assumes "\<not> iswdigit c" "\<not> is_sign c" "c \<noteq> ch CHR ''.''"
  shows "outcome core_rows 0 RS_STR (c # s) = core_type (c # s)"
proof -
  have strip: "strip_sign (c # s) = c # s" using assms by (simp add: strip_sign_def)
  have "c \<noteq> 48" using assms(1) by (auto simp: iswdigit_def)
  then have "\<not> core_int (c # s)" "\<not> core_float (c # s)"
    using assms
    by (simp add: core_int_def strip digits1_def radix_Cons ch_def,
        auto simp: core_float_def strip unsigned_float_def text_of_def)
  then have type: "core_type (c # s) =
      (if core_null (c # s) then RS_NULL else if core_bool (c # s) then RS_BOOL else RS_STR)"
    by (simp add: core_type_def)
  consider "c = ch CHR ''F''" | "c = ch CHR ''N''" | "c = ch CHR ''T''" | "c = ch CHR ''f''" | "c = ch CHR ''n''"
    | "c = ch CHR ''t''" | "c = ch CHR ''~''" | "c \<notin> ch ` set ''FNTfnt~''" by auto
  then show ?thesis
  proof cases
    case 8
    then have "\<not> core_null (c # s)" "\<not> core_bool (c # s)" by (auto simp: core_null_def core_bool_def text_of_def)
    moreover have "outcome core_rows 0 RS_STR (c # s) = RS_STR"
      using 8 assms by (simp add: core_row point_range is_sign_def iswdigit_def ch_def) auto
    ultimately show ?thesis by (simp add: type)
  qed (unfold type core_null_def core_bool_def,
      simp_all add: core_row core_2 core_16 core_13 core_17 core_29 core_26 core_final text_of_def ch_def)
qed

lemma core_start: "outcome core_rows 0 RS_STR s = core_type s"
proof (cases s)
  case Nil
  then show ?thesis
    by (simp add: core_row core_type_defs text_of_def digits1_def strip_sign_def unsigned_float_def radix_def)
next
  case (Cons c s')
  then show ?thesis
    using core_start_digit core_start_sign core_start_point core_start_other by blast
qed

text \<open>
  C37. The automaton of the core schema decides exactly the types of the YAML 1.2 core schema: fed
  the characters of a plain scalar and then the character that ends it, it never aborts, and
  its result is null, boolean, integer, float or string as the grammar of the schema says.
\<close>

theorem core_schema_correct:
  assumes "list_all (\<lambda>c. \<not> scalar_end c) s" "scalar_end t"
  shows "feed core_rows (0, RS_STR) (s @ [t]) = Some (SCH_STT_FRZ, core_type s)"
  using feed_outcome [OF core_table_ok(1) core_table_ok(2) assms] assms(2) by (simp add: core_start)

theorem core_schema_correct_witness:
  "feed core_rows (0, RS_STR) (text_of ''-1.5e3'' @ [0]) = Some (SCH_STT_FRZ, RS_FLOAT)"
proof -
  have "core_type (text_of ''-1.5e3'') = RS_FLOAT"
    by (simp add: core_type_defs text_of_def strip_sign_def is_sign_def digits1_def unsigned_float_def
        fraction_def exponent_def radix_def ch_def iswdigit_def)
  moreover have "list_all (\<lambda>c. \<not> scalar_end c) (text_of ''-1.5e3'')" "scalar_end 0"
    by (simp_all add: text_of_def scalar_end_def ch_def)
  ultimately show ?thesis using core_schema_correct [of "text_of ''-1.5e3''" 0] by simp
qed

section \<open>The JSON schema\<close>

lemmas json_table = json_rows_def char_defs

lemma json_table_ok: "scalar_end t \<Longrightarrow> table_ok json_rows t" "live json_rows 0"
  by (auto simp: scalar_end_def json_table table_ok_def live_def)

lemma json_row:
  "json_rows ! 0 = Row None [Edge [(45, 45)] RS_STR 1, Edge [(48, 48)] RS_INT 16, Edge [(102, 102)]
    RS_STR 2, Edge [(110, 110)] RS_STR 10, Edge [(116, 116)] RS_STR 7, Edge [(49, 57)] RS_INT 17]"
  "json_rows ! (Suc 0) = Row None [Edge [(48, 48)] RS_INT 16, Edge [(49, 57)] RS_INT 17]"
  "json_rows ! 2 = Row None [Edge [(97, 97)] RS_STR 4]"
  "json_rows ! 3 = Row None [Edge [(101, 101)] RS_BOOL 15]"
  "json_rows ! 4 = Row None [Edge [(108, 108)] RS_STR 8]"
  "json_rows ! 5 = Row None [Edge [(108, 108)] RS_NULL 14]"
  "json_rows ! 6 = Row None [Edge [(108, 108)] RS_STR 5]"
  "json_rows ! 7 = Row None [Edge [(114, 114)] RS_STR 9]"
  "json_rows ! 8 = Row None [Edge [(115, 115)] RS_STR 3]"
  "json_rows ! 9 = Row None [Edge [(117, 117)] RS_STR 3]"
  "json_rows ! 10 = Row None [Edge [(117, 117)] RS_STR 6]"
  "json_rows ! 11 = Row None [Edge [(43, 43), (45, 45)] RS_STR 12, Edge [(48, 57)] RS_FLOAT 19]"
  "json_rows ! 12 = Row None [Edge [(48, 57)] RS_FLOAT 19]"
  "json_rows ! 14 = Row (Some RS_NULL) []"
  "json_rows ! 15 = Row (Some RS_BOOL) []"
  "json_rows ! 16 = Row (Some RS_INT) [Edge [(46, 46)] RS_FLOAT 18, Edge [(69, 69), (101, 101)] RS_STR
    11]"
  "json_rows ! 17 = Row (Some RS_INT) [Edge [(46, 46)] RS_FLOAT 18, Edge [(69, 69), (101, 101)] RS_STR
    11, Edge [(48, 57)] RS_INT 17]"
  "json_rows ! 18 = Row (Some RS_FLOAT) [Edge [(69, 69), (101, 101)] RS_STR 11, Edge [(48, 57)]
    RS_FLOAT 18]"
  "json_rows ! 19 = Row (Some RS_FLOAT) [Edge [(48, 57)] RS_FLOAT 19]"
  by (simp_all add: json_table)


text \<open>Numbers as in JSON, but for the point, which digits need not follow.\<close>

definition strip_minus :: "int list \<Rightarrow> int list" where
  "strip_minus s = (case s of [] \<Rightarrow> [] | c # s' \<Rightarrow> if c = ch CHR ''-'' then s' else s)"

text \<open>The part of a number behind its integer part, which does not start with 0 unless it is 0.\<close>

definition after_int :: "int list \<Rightarrow> int list option" where
  "after_int s = (case s of [] \<Rightarrow> None
     | c # s' \<Rightarrow> if c = ch CHR ''0'' then Some s' else if iswdigit c then Some (dropWhile iswdigit s') else None)"

definition json_type :: "int list \<Rightarrow> ResultSchema" where
  "json_type s =
     (if s = text_of ''null'' then RS_NULL else if s = text_of ''true'' \<or> s = text_of ''false'' then RS_BOOL
      else case after_int (strip_minus s) of None \<Rightarrow> RS_STR
        | Some r \<Rightarrow> if r = [] then RS_INT
                   else if exponent r \<or> hd r = ch CHR ''.'' \<and> fraction (tl r) then RS_FLOAT else RS_STR)"

lemma json_19: "outcome json_rows 19 r s = (if list_all iswdigit s then RS_FLOAT else RS_STR)"
  by (induction s arbitrary: r) (simp_all add: json_row iswdigit_def)

lemma json_12: "outcome json_rows 12 RS_STR s = (if digits1 s then RS_FLOAT else RS_STR)"
  by (cases s) (simp_all add: json_19 digits1_def json_row iswdigit_def)

lemma json_11: "outcome json_rows 11 RS_STR s = (if digits1 (strip_sign s) then RS_FLOAT else RS_STR)"
  by (cases s) (auto simp: json_19 json_12 json_row digits1_def strip_sign_def is_sign_def ch_def iswdigit_def)

lemma json_18: "outcome json_rows 18 r s = (if fraction s then RS_FLOAT else RS_STR)"
proof (induction s arbitrary: r)
  case (Cons c s)
  then show ?case
    by (auto simp: json_11 json_row fraction_def exponent_def ch_def iswdigit_def Let_def)
qed (simp add: json_row fraction_def)

definition number_tail :: "int list \<Rightarrow> ResultSchema" where
  "number_tail r = (if r = [] then RS_INT
     else if exponent r \<or> hd r = ch CHR ''.'' \<and> fraction (tl r) then RS_FLOAT else RS_STR)"

lemma json_17: "outcome json_rows 17 r s = number_tail (dropWhile iswdigit s)"
proof (induction s arbitrary: r)
  case (Cons c s)
  then show ?case
    by (auto simp: number_tail_def json_11 json_18 json_row exponent_def ch_def iswdigit_def)
qed (simp add: json_row number_tail_def)

lemma json_16: "outcome json_rows 16 r s = number_tail s"
  by (cases s) (auto simp: number_tail_def json_11 json_18 json_row exponent_def ch_def)

lemma json_final:
  "outcome json_rows 14 r s = (if s = [] then RS_NULL else RS_STR)"
  "outcome json_rows 15 r s = (if s = [] then RS_BOOL else RS_STR)"
  by (cases s; simp add: json_row)+

lemma json_3: "outcome json_rows 3 RS_STR s = (if s = text_of ''e'' then RS_BOOL else RS_STR)"
  by (cases s) (simp_all add: json_row json_final ch_def text_of_def)

lemma json_8: "outcome json_rows 8 RS_STR s = (if s = text_of ''se'' then RS_BOOL else RS_STR)"
  by (cases s) (simp_all add: json_row json_final ch_def text_of_def json_3)

lemma json_9: "outcome json_rows 9 RS_STR s = (if s = text_of ''ue'' then RS_BOOL else RS_STR)"
  by (cases s) (simp_all add: json_row json_final ch_def text_of_def json_3 json_8)

lemma json_4: "outcome json_rows 4 RS_STR s = (if s = text_of ''lse'' then RS_BOOL else RS_STR)"
  by (cases s) (simp_all add: json_row json_final ch_def text_of_def json_3 json_8 json_9)

lemma json_2: "outcome json_rows 2 RS_STR s = (if s = text_of ''alse'' then RS_BOOL else RS_STR)"
  by (cases s) (simp_all add: json_row json_final ch_def text_of_def json_3 json_8 json_9 json_4)

lemma json_7: "outcome json_rows 7 RS_STR s = (if s = text_of ''rue'' then RS_BOOL else RS_STR)"
  by (cases s) (simp_all add: json_row json_final ch_def text_of_def json_3 json_8 json_9 json_4 json_2)

lemma json_5: "outcome json_rows 5 RS_STR s = (if s = text_of ''l'' then RS_NULL else RS_STR)"
  by (cases s) (simp_all add: json_row json_final ch_def text_of_def json_3 json_8 json_9 json_4 json_2 json_7)

lemma json_6: "outcome json_rows 6 RS_STR s = (if s = text_of ''ll'' then RS_NULL else RS_STR)"
  by (cases s) (simp_all add: json_row json_final ch_def text_of_def json_3 json_8 json_9 json_4 json_2 json_7 json_5)

lemma json_10: "outcome json_rows 10 RS_STR s = (if s = text_of ''ull'' then RS_NULL else RS_STR)"
  by (cases s) (simp_all add: json_row json_final ch_def text_of_def json_3 json_8 json_9 json_4 json_2 json_7 json_5 json_6)

lemma json_1: "outcome json_rows 1 RS_STR s =
    (case after_int s of None \<Rightarrow> RS_STR | Some r \<Rightarrow> number_tail r)"
  by (cases s) (auto simp: after_int_def json_16 json_17 json_row ch_def iswdigit_def)

lemma json_start: "outcome json_rows 0 RS_STR s = json_type s"
proof (cases s)
  case Nil
  then show ?thesis by (simp add: json_row json_type_def text_of_def after_int_def strip_minus_def)
next
  case (Cons c s')
  have other: "s \<noteq> text_of ''null''" "s \<noteq> text_of ''true''" "s \<noteq> text_of ''false''" if "c \<notin> ch ` set ''ntf''"
    using that Cons by (auto simp: text_of_def)
  have type: "json_type s = (case after_int (strip_minus s) of None \<Rightarrow> RS_STR | Some r \<Rightarrow> number_tail r)"
    if "c \<notin> ch ` set ''ntf''"
    using other [OF that] by (simp add: json_type_def number_tail_def split: option.split)
  consider "c = ch CHR ''n''" | "c = ch CHR ''t''" | "c = ch CHR ''f''" | "c = ch CHR ''-''" | "c = ch CHR ''0''"
    | "iswdigit c" "c \<noteq> ch CHR ''0''" | "c \<notin> ch ` set ''ntf-''" "\<not> iswdigit c"
    by auto
  then show ?thesis
  proof cases
    case 4
    then have "json_type s = (case after_int s' of None \<Rightarrow> RS_STR | Some r \<Rightarrow> number_tail r)"
      using type Cons by (simp add: strip_minus_def)
    moreover have "outcome json_rows 0 RS_STR s = outcome json_rows 1 RS_STR s'"
      using 4 Cons by (simp add: json_row ch_def)
    ultimately show ?thesis by (simp add: json_1)
  next
    case 5
    then have "json_type s = number_tail s'"
      using type Cons by (simp add: strip_minus_def after_int_def)
    moreover have "outcome json_rows 0 RS_STR s = outcome json_rows 16 RS_INT s'"
      using 5 Cons by (simp add: json_row ch_def)
    ultimately show ?thesis by (simp add: json_16)
  next
    case 6
    then have c: "49 \<le> c" "c \<le> 57" by (auto simp: iswdigit_def ch_def)
    then have "c \<notin> ch ` set ''ntf''" "c \<noteq> ch CHR ''-''" by (auto simp: ch_def)
    then have "json_type s = number_tail (dropWhile iswdigit s')"
      using 6 type Cons by (simp add: strip_minus_def after_int_def)
    moreover have "outcome json_rows 0 RS_STR s = outcome json_rows 17 RS_INT s'"
      using c Cons by (simp add: json_row)
    ultimately show ?thesis by (simp add: json_17)
  next
    case 7
    then have "c \<noteq> ch CHR ''0''" by (auto simp: iswdigit_def ch_def)
    then have "json_type s = RS_STR"
      using 7 type Cons by (simp add: strip_minus_def after_int_def)
    moreover have "outcome json_rows 0 RS_STR s = RS_STR"
      using 7 Cons by (simp add: json_row point_range iswdigit_def ch_def) auto
    ultimately show ?thesis by simp
  qed (use Cons in \<open>simp_all add: json_type_def json_row json_2 json_7 json_10 text_of_def strip_minus_def after_int_def
        iswdigit_def ch_def\<close>)
qed

text \<open>
  The automaton of the JSON schema decides null, the booleans, the integers without leading
  zeros and the floats with a point or an exponent, and calls everything else a string.
\<close>

theorem json_schema_correct:
  assumes "list_all (\<lambda>c. \<not> scalar_end c) s" "scalar_end t"
  shows "feed json_rows (0, RS_STR) (s @ [t]) = Some (SCH_STT_FRZ, json_type s)"
  using feed_outcome [OF json_table_ok(1) json_table_ok(2) assms] assms(2) by (simp add: json_start)

theorem json_schema_correct_witness:
  "feed json_rows (0, RS_STR) (text_of ''01'' @ [10]) = Some (SCH_STT_FRZ, RS_STR) \<and>
   feed json_rows (0, RS_STR) (text_of ''-10'' @ [10]) = Some (SCH_STT_FRZ, RS_INT)"
proof -
  have "json_type (text_of ''01'') = RS_STR" "json_type (text_of ''-10'') = RS_INT"
    by (simp_all add: json_type_def text_of_def strip_minus_def after_int_def exponent_def ch_def iswdigit_def)
  moreover have "list_all (\<lambda>c. \<not> scalar_end c) (text_of ''01'')"
    "list_all (\<lambda>c. \<not> scalar_end c) (text_of ''-10'')" "scalar_end 10"
    by (simp_all add: text_of_def scalar_end_def ch_def)
  ultimately show ?thesis
    using json_schema_correct [of "text_of ''01''" 10] json_schema_correct [of "text_of ''-10''" 10] by simp
qed

section \<open>The schema of YAML 1.1\<close>

lemmas legacy_table = legacy_rows_def legacy_rows_0_def legacy_rows_1_def legacy_rows_2_def
  legacy_rows_3_def char_defs

lemma legacy_table_ok: "t = 0 \<or> t = 10 \<or> t = 13 \<Longrightarrow> table_ok legacy_rows t" "live legacy_rows 0"
  by (auto simp: legacy_table table_ok_def live_def)

text \<open>
  A set of states that no edge leaves and in which no result of a set occurs never gives that result.
\<close>

fun edge_in :: "int list \<Rightarrow> ResultSchema list \<Rightarrow> edge \<Rightarrow> bool" where
  "edge_in qs xs (Edge guard r q) \<longleftrightarrow> q \<in> set qs \<and> r \<notin> set xs"

fun row_in :: "int list \<Rightarrow> ResultSchema list \<Rightarrow> row \<Rightarrow> bool" where
  "row_in qs xs Abort = True"
| "row_in qs xs (Row init edges) \<longleftrightarrow>
     (case init of None \<Rightarrow> True | Some r \<Rightarrow> r \<notin> set xs) \<and> list_all (edge_in qs xs) edges"

lemma find_edge_in: "list_all (edge_in qs xs) edges \<Longrightarrow> find_edge edges c = Some (r, q) \<Longrightarrow> q \<in> set qs \<and> r \<notin> set xs"
  by (induction edges c rule: find_edge.induct) (auto split: if_splits)

lemma outcome_avoids:
  assumes "list_all (\<lambda>q. row_in qs xs (tab ! nat q)) qs" "RS_STR \<notin> set xs" "q \<in> set qs" "r \<notin> set xs"
  shows "outcome tab q r s \<notin> set xs"
  using assms(3,4)
proof (induction s arbitrary: q r)
  case Nil
  then have "row_in qs xs (tab ! nat q)" using assms(1) by (auto simp: list_all_iff)
  then show ?case using Nil by (auto split: row.split option.split)
next
  case (Cons c s)
  then have "row_in qs xs (tab ! nat q)" using assms(1) by (auto simp: list_all_iff)
  then show ?case
    using Cons.IH assms(2) by (auto split: row.split option.split dest!: find_edge_in)
qed

definition legacy_other_states :: "int list" where
  "legacy_other_states =
     [1, 2, 3, 4, 5, 6, 7, 8, 9, 10, 11, 12, 14, 18, 22, 23, 28, 30, 34, 38, 39] @ [44..65] @ [73..99]"

lemma legacy_row:
  "legacy_rows ! 0 = Row None [Edge [(46, 46)] RS_FLOAT 89, Edge [(48, 48)] RS_INT 75, Edge [(70, 70)]
    RS_STR 13, Edge [(78, 78)] RS_BOOL 70, Edge [(79, 79)] RS_STR 17, Edge [(84, 84)] RS_STR 24, Edge
    [(89, 89)] RS_BOOL 69, Edge [(102, 102)] RS_STR 29, Edge [(110, 110)] RS_BOOL 72, Edge [(111, 111)]
    RS_STR 33, Edge [(116, 116)] RS_STR 40, Edge [(121, 121)] RS_BOOL 71, Edge [(126, 126)] RS_NULL 67,
    Edge [(43, 43)] RS_STR 7, Edge [(45, 45)] RS_STR 7, Edge [(49, 57)] RS_INT 82]"
  "legacy_rows ! 13 = Row None [Edge [(65, 65)] RS_STR 20, Edge [(97, 97)] RS_STR 36]"
  "legacy_rows ! 15 = Row None [Edge [(69, 69)] RS_BOOL 68]"
  "legacy_rows ! 16 = Row None [Edge [(70, 70)] RS_BOOL 68]"
  "legacy_rows ! 17 = Row None [Edge [(70, 70)] RS_STR 16, Edge [(102, 102)] RS_STR 32, Edge [(78,
    78), (110, 110)] RS_BOOL 68]"
  "legacy_rows ! 19 = Row None [Edge [(76, 76)] RS_NULL 67]"
  "legacy_rows ! 20 = Row None [Edge [(76, 76)] RS_STR 26]"
  "legacy_rows ! 21 = Row None [Edge [(76, 76)] RS_STR 19]"
  "legacy_rows ! 24 = Row None [Edge [(82, 82)] RS_STR 27, Edge [(114, 114)] RS_STR 43]"
  "legacy_rows ! 25 = Row None [Edge [(83, 83)] RS_BOOL 68]"
  "legacy_rows ! 26 = Row None [Edge [(83, 83)] RS_STR 15]"
  "legacy_rows ! 27 = Row None [Edge [(85, 85)] RS_STR 15]"
  "legacy_rows ! 29 = Row None [Edge [(97, 97)] RS_STR 36]"
  "legacy_rows ! 31 = Row None [Edge [(101, 101)] RS_BOOL 68]"
  "legacy_rows ! 32 = Row None [Edge [(102, 102)] RS_BOOL 68]"
  "legacy_rows ! 33 = Row None [Edge [(102, 102)] RS_STR 32, Edge [(110, 110)] RS_BOOL 68]"
  "legacy_rows ! 35 = Row None [Edge [(108, 108)] RS_NULL 67]"
  "legacy_rows ! 36 = Row None [Edge [(108, 108)] RS_STR 42]"
  "legacy_rows ! 37 = Row None [Edge [(108, 108)] RS_STR 35]"
  "legacy_rows ! 40 = Row None [Edge [(114, 114)] RS_STR 43]"
  "legacy_rows ! 41 = Row None [Edge [(115, 115)] RS_BOOL 68]"
  "legacy_rows ! 42 = Row None [Edge [(115, 115)] RS_STR 31]"
  "legacy_rows ! 43 = Row None [Edge [(117, 117)] RS_STR 31]"
  "legacy_rows ! 67 = Row (Some RS_NULL) []"
  "legacy_rows ! 68 = Row (Some RS_BOOL) []"
  "legacy_rows ! 69 = Row (Some RS_BOOL) [Edge [(69, 69)] RS_STR 25, Edge [(101, 101)] RS_STR 41]"
  "legacy_rows ! 70 = Row (Some RS_BOOL) [Edge [(85, 85)] RS_STR 21, Edge [(117, 117)] RS_STR 37, Edge
    [(79, 79), (111, 111)] RS_BOOL 68]"
  "legacy_rows ! 71 = Row (Some RS_BOOL) [Edge [(101, 101)] RS_STR 41]"
  "legacy_rows ! 72 = Row (Some RS_BOOL) [Edge [(111, 111)] RS_BOOL 68, Edge [(117, 117)] RS_STR 37]"
  by (simp_all add: legacy_table)


lemma legacy_other_closed:
  "list_all (\<lambda>q. row_in legacy_other_states [RS_BOOL, RS_NULL] (legacy_rows ! nat q)) legacy_other_states"
  by (simp add: legacy_other_states_def upto.simps legacy_table)

lemma legacy_final:
  "outcome legacy_rows 67 r s = (if s = [] then RS_NULL else RS_STR)"
  "outcome legacy_rows 68 r s = (if s = [] then RS_BOOL else RS_STR)"
  by (cases s; simp add: legacy_row)+

lemma legacy_15: "outcome legacy_rows 15 RS_STR s = (if s \<in> text_of ` {''E''} then RS_BOOL else RS_STR)"
  by (cases s) (simp_all add: legacy_row legacy_final ch_def text_of_def)

lemma legacy_16: "outcome legacy_rows 16 RS_STR s = (if s \<in> text_of ` {''F''} then RS_BOOL else RS_STR)"
  by (cases s) (simp_all add: legacy_row legacy_final ch_def text_of_def legacy_15)

lemma legacy_25: "outcome legacy_rows 25 RS_STR s = (if s \<in> text_of ` {''S''} then RS_BOOL else RS_STR)"
  by (cases s) (simp_all add: legacy_row legacy_final ch_def text_of_def legacy_15 legacy_16)

lemma legacy_26: "outcome legacy_rows 26 RS_STR s = (if s \<in> text_of ` {''SE''} then RS_BOOL else RS_STR)"
  by (cases s) (simp_all add: legacy_row legacy_final ch_def text_of_def legacy_15 legacy_16 legacy_25)

lemma legacy_27: "outcome legacy_rows 27 RS_STR s = (if s \<in> text_of ` {''UE''} then RS_BOOL else RS_STR)"
  by (cases s) (simp_all add: legacy_row legacy_final ch_def text_of_def legacy_15 legacy_16 legacy_25 legacy_26)

lemma legacy_20: "outcome legacy_rows 20 RS_STR s = (if s \<in> text_of ` {''LSE''} then RS_BOOL else RS_STR)"
  by (cases s) (simp_all add: legacy_row legacy_final ch_def text_of_def legacy_15 legacy_16 legacy_25 legacy_26 legacy_27)

lemma legacy_31: "outcome legacy_rows 31 RS_STR s = (if s \<in> text_of ` {''e''} then RS_BOOL else RS_STR)"
  by (cases s) (simp_all add: legacy_row legacy_final ch_def text_of_def legacy_15 legacy_16 legacy_25 legacy_26 legacy_27 legacy_20)

lemma legacy_32: "outcome legacy_rows 32 RS_STR s = (if s \<in> text_of ` {''f''} then RS_BOOL else RS_STR)"
  by (cases s) (simp_all add: legacy_row legacy_final ch_def text_of_def legacy_15 legacy_16 legacy_25 legacy_26 legacy_27 legacy_20 legacy_31)

lemma legacy_41: "outcome legacy_rows 41 RS_STR s = (if s \<in> text_of ` {''s''} then RS_BOOL else RS_STR)"
  by (cases s) (simp_all add: legacy_row legacy_final ch_def text_of_def legacy_15 legacy_16 legacy_25 legacy_26 legacy_27 legacy_20 legacy_31 legacy_32)

lemma legacy_42: "outcome legacy_rows 42 RS_STR s = (if s \<in> text_of ` {''se''} then RS_BOOL else RS_STR)"
  by (cases s) (simp_all add: legacy_row legacy_final ch_def text_of_def legacy_15 legacy_16 legacy_25 legacy_26 legacy_27 legacy_20 legacy_31 legacy_32 legacy_41)

lemma legacy_43: "outcome legacy_rows 43 RS_STR s = (if s \<in> text_of ` {''ue''} then RS_BOOL else RS_STR)"
  by (cases s) (simp_all add: legacy_row legacy_final ch_def text_of_def legacy_15 legacy_16 legacy_25 legacy_26 legacy_27 legacy_20 legacy_31 legacy_32 legacy_41 legacy_42)

lemma legacy_36: "outcome legacy_rows 36 RS_STR s = (if s \<in> text_of ` {''lse''} then RS_BOOL else RS_STR)"
  by (cases s) (simp_all add: legacy_row legacy_final ch_def text_of_def legacy_15 legacy_16 legacy_25 legacy_26 legacy_27 legacy_20 legacy_31 legacy_32 legacy_41 legacy_42 legacy_43)

lemma legacy_29: "outcome legacy_rows 29 RS_STR s = (if s \<in> text_of ` {''alse''} then RS_BOOL else RS_STR)"
  by (cases s) (simp_all add: legacy_row legacy_final ch_def text_of_def legacy_15 legacy_16 legacy_25 legacy_26 legacy_27 legacy_20 legacy_31 legacy_32 legacy_41 legacy_42 legacy_43 legacy_36)

lemma legacy_40: "outcome legacy_rows 40 RS_STR s = (if s \<in> text_of ` {''rue''} then RS_BOOL else RS_STR)"
  by (cases s) (simp_all add: legacy_row legacy_final ch_def text_of_def legacy_15 legacy_16 legacy_25 legacy_26 legacy_27 legacy_20 legacy_31 legacy_32 legacy_41 legacy_42 legacy_43 legacy_36 legacy_29)

lemma legacy_13: "outcome legacy_rows 13 RS_STR s = (if s \<in> text_of ` {''ALSE'', ''alse''} then RS_BOOL else RS_STR)"
  by (cases s) (simp_all add: legacy_row legacy_final ch_def text_of_def legacy_15 legacy_16 legacy_25 legacy_26 legacy_27 legacy_20 legacy_31 legacy_32 legacy_41 legacy_42 legacy_43 legacy_36 legacy_29 legacy_40)

lemma legacy_24: "outcome legacy_rows 24 RS_STR s = (if s \<in> text_of ` {''RUE'', ''rue''} then RS_BOOL else RS_STR)"
  by (cases s) (simp_all add: legacy_row legacy_final ch_def text_of_def legacy_15 legacy_16 legacy_25 legacy_26 legacy_27 legacy_20 legacy_31 legacy_32 legacy_41 legacy_42 legacy_43 legacy_36 legacy_29 legacy_40 legacy_13)

lemma legacy_17: "outcome legacy_rows 17 RS_STR s = (if s \<in> text_of ` {''FF'', ''ff'', ''N'', ''n''} then RS_BOOL else RS_STR)"
  by (cases s) (simp_all add: legacy_row legacy_final ch_def text_of_def legacy_15 legacy_16 legacy_25 legacy_26 legacy_27 legacy_20 legacy_31 legacy_32 legacy_41 legacy_42 legacy_43 legacy_36 legacy_29 legacy_40 legacy_13 legacy_24)

lemma legacy_33: "outcome legacy_rows 33 RS_STR s = (if s \<in> text_of ` {''ff'', ''n''} then RS_BOOL else RS_STR)"
  by (cases s) (simp_all add: legacy_row legacy_final ch_def text_of_def legacy_15 legacy_16 legacy_25 legacy_26 legacy_27 legacy_20 legacy_31 legacy_32 legacy_41 legacy_42 legacy_43 legacy_36 legacy_29 legacy_40 legacy_13 legacy_24 legacy_17)

lemma legacy_19: "outcome legacy_rows 19 RS_STR s = (if s \<in> text_of ` {''L''} then RS_NULL else RS_STR)"
  by (cases s) (simp_all add: legacy_row legacy_final ch_def text_of_def)

lemma legacy_35: "outcome legacy_rows 35 RS_STR s = (if s \<in> text_of ` {''l''} then RS_NULL else RS_STR)"
  by (cases s) (simp_all add: legacy_row legacy_final ch_def text_of_def legacy_19)

lemma legacy_21: "outcome legacy_rows 21 RS_STR s = (if s \<in> text_of ` {''LL''} then RS_NULL else RS_STR)"
  by (cases s) (simp_all add: legacy_row legacy_final ch_def text_of_def legacy_19 legacy_35)

lemma legacy_37: "outcome legacy_rows 37 RS_STR s = (if s \<in> text_of ` {''ll''} then RS_NULL else RS_STR)"
  by (cases s) (simp_all add: legacy_row legacy_final ch_def text_of_def legacy_19 legacy_35 legacy_21)

lemma legacy_69: "outcome legacy_rows 69 r s = (if s \<in> text_of ` {'''', ''ES'', ''es''} then RS_BOOL else RS_STR)"
  by (cases s) (simp_all add: legacy_row legacy_25 legacy_41 ch_def text_of_def)

lemma legacy_71: "outcome legacy_rows 71 r s = (if s \<in> text_of ` {'''', ''es''} then RS_BOOL else RS_STR)"
  by (cases s) (simp_all add: legacy_row legacy_41 ch_def text_of_def)

lemma legacy_70: "outcome legacy_rows 70 r s =
    (if s \<in> text_of ` {'''', ''O'', ''o''} then RS_BOOL else if s \<in> text_of ` {''ULL'', ''ull''} then RS_NULL else RS_STR)"
  by (cases s) (simp_all add: legacy_row legacy_21 legacy_37 legacy_final ch_def text_of_def)

lemma legacy_72: "outcome legacy_rows 72 r s =
    (if s \<in> text_of ` {'''', ''o''} then RS_BOOL else if s \<in> text_of ` {''ull''} then RS_NULL else RS_STR)"
  by (cases s) (simp_all add: legacy_row legacy_37 legacy_final ch_def text_of_def)

definition legacy_bool :: "int list \<Rightarrow> bool" where
  "legacy_bool s \<longleftrightarrow> s \<in> text_of ` {''y'', ''Y'', ''yes'', ''Yes'', ''YES'', ''n'', ''N'', ''no'', ''No'', ''NO'',
     ''true'', ''True'', ''TRUE'', ''false'', ''False'', ''FALSE'', ''on'', ''On'', ''ON'', ''off'', ''Off'', ''OFF''}"

definition legacy_null :: "int list \<Rightarrow> bool" where
  "legacy_null s \<longleftrightarrow> s \<in> text_of ` {''~'', ''null'', ''Null'', ''NULL''}"

lemma legacy_start_other:
  assumes "c \<notin> ch ` set ''FNOTYfnoty~''"
  shows "outcome legacy_rows 0 RS_STR (c # s) \<notin> set [RS_BOOL, RS_NULL]"
proof -
  have avoid: "outcome legacy_rows q r s \<notin> set [RS_BOOL, RS_NULL]"
    if "q \<in> {89, 75, 7, 82}" "r \<noteq> RS_BOOL" "r \<noteq> RS_NULL" for q r
    using that outcome_avoids [OF legacy_other_closed, of q r s] by (auto simp: legacy_other_states_def)
  have "find_edge [Edge [(46, 46)] RS_FLOAT 89, Edge [(48, 48)] RS_INT 75, Edge [(43, 43)] RS_STR 7,
      Edge [(45, 45)] RS_STR 7, Edge [(49, 57)] RS_INT 82] c = Some (r, q) \<Longrightarrow>
      q \<in> {89, 75, 7, 82} \<and> r \<noteq> RS_BOOL \<and> r \<noteq> RS_NULL" for r q
    by (simp split: if_splits)
  moreover have "outcome legacy_rows 0 RS_STR (c # s) =
      (case find_edge [Edge [(46, 46)] RS_FLOAT 89, Edge [(48, 48)] RS_INT 75, Edge [(43, 43)] RS_STR 7,
          Edge [(45, 45)] RS_STR 7, Edge [(49, 57)] RS_INT 82] c of
         Some (r', q') \<Rightarrow> outcome legacy_rows q' r' s | None \<Rightarrow> RS_STR)"
    using assms by (simp add: legacy_row point_range ch_def)
  ultimately show ?thesis using avoid by (auto split: option.split)
qed

lemma legacy_start:
  "(outcome legacy_rows 0 RS_STR s = RS_BOOL \<longleftrightarrow> legacy_bool s) \<and>
   (outcome legacy_rows 0 RS_STR s = RS_NULL \<longleftrightarrow> legacy_null s)"
proof (cases s)
  case Nil
  then show ?thesis by (simp add: legacy_row legacy_bool_def legacy_null_def text_of_def)
next
  case (Cons c s')
  consider "c = ch CHR ''F''" | "c = ch CHR ''N''" | "c = ch CHR ''O''" | "c = ch CHR ''T''" | "c = ch CHR ''Y''"
    | "c = ch CHR ''f''" | "c = ch CHR ''n''" | "c = ch CHR ''o''" | "c = ch CHR ''t''" | "c = ch CHR ''y''"
    | "c = ch CHR ''~''" | "c \<notin> ch ` set ''FNOTYfnoty~''" by auto
  then show ?thesis
  proof cases
    case 12
    then have "\<not> legacy_bool s" "\<not> legacy_null s"
      using Cons by (auto simp: legacy_bool_def legacy_null_def text_of_def)
    then show ?thesis using legacy_start_other [OF 12, of s'] Cons by simp
  qed (use Cons in \<open>simp_all add: legacy_bool_def legacy_null_def legacy_row legacy_13 legacy_70 legacy_17 legacy_24
        legacy_69 legacy_29 legacy_72 legacy_33 legacy_40 legacy_71 legacy_final text_of_def ch_def\<close>)
qed

text \<open>
  The automaton of the YAML 1.1 schema gives the boolean type to exactly the 22 words of that
  schema, in their lower-case, capitalised and upper-case forms, and null to \<open>~\<close> and the forms of \<open>null\<close>.
\<close>

theorem legacy_schema_words:
  assumes "list_all (\<lambda>c. \<not> scalar_end c) s" "t = 0 \<or> t = 10 \<or> t = 13"
  shows "\<exists>r. feed legacy_rows (0, RS_STR) (s @ [t]) = Some (SCH_STT_FRZ, r) \<and>
    (r = RS_BOOL \<longleftrightarrow> legacy_bool s) \<and> (r = RS_NULL \<longleftrightarrow> legacy_null s)"
  using feed_outcome [OF legacy_table_ok(1) [OF assms(2)] legacy_table_ok(2) assms(1), of RS_STR]
    legacy_start assms(2) by (auto simp: scalar_end_def)

theorem legacy_schema_words_witness:
  "\<exists>r. feed legacy_rows (0, RS_STR) (text_of ''Off'' @ [10]) = Some (SCH_STT_FRZ, r) \<and> r = RS_BOOL"
proof -
  have "legacy_bool (text_of ''Off'')" by (simp add: legacy_bool_def text_of_def)
  moreover have "list_all (\<lambda>c. \<not> scalar_end c) (text_of ''Off'')" by (simp add: text_of_def scalar_end_def ch_def)
  ultimately show ?thesis using legacy_schema_words [of "text_of ''Off''" 10] by auto
qed

end
