(* ===== verification/Yaml_Scanner.thy ===== *)
theory Yaml_Scanner
  imports Yaml_Schema
begin

text \<open>
  The external scanner of the YAML grammar, \<open>yaml/src/scanner.c\<close>. Its state holds the position behind
  the last token, the position of the last implicit key and a stack of indentations, each with the
  kind of the collection it belongs to. A call of \<open>scan\<close> skips white space and comments, closes
  blocks whose indentation has ended, and otherwise reads one token that the parser accepts.

  The functions of the source take the scanner and the lexer by reference; here both are one record,
  which every function returns. The fields of type \<open>int16_t\<close> hold integers, and \<open>i16\<close> wraps every
  result that is stored into one. The tokens are numbers, as the enumeration of the source gives them.
\<close>

section \<open>Tokens and state\<close>

abbreviation (input) END_OF_FILE :: nat where "END_OF_FILE \<equiv> 0"
abbreviation (input) S_DIR_YML_BGN :: nat where "S_DIR_YML_BGN \<equiv> 1"
abbreviation (input) R_DIR_YML_VER :: nat where "R_DIR_YML_VER \<equiv> 2"
abbreviation (input) S_DIR_TAG_BGN :: nat where "S_DIR_TAG_BGN \<equiv> 3"
abbreviation (input) R_DIR_TAG_HDL :: nat where "R_DIR_TAG_HDL \<equiv> 4"
abbreviation (input) R_DIR_TAG_PFX :: nat where "R_DIR_TAG_PFX \<equiv> 5"
abbreviation (input) S_DIR_RSV_BGN :: nat where "S_DIR_RSV_BGN \<equiv> 6"
abbreviation (input) R_DIR_RSV_PRM :: nat where "R_DIR_RSV_PRM \<equiv> 7"
abbreviation (input) S_DRS_END :: nat where "S_DRS_END \<equiv> 8"
abbreviation (input) S_DOC_END :: nat where "S_DOC_END \<equiv> 9"
abbreviation (input) R_BLK_SEQ_BGN :: nat where "R_BLK_SEQ_BGN \<equiv> 10"
abbreviation (input) BR_BLK_SEQ_BGN :: nat where "BR_BLK_SEQ_BGN \<equiv> 11"
abbreviation (input) B_BLK_SEQ_BGN :: nat where "B_BLK_SEQ_BGN \<equiv> 12"
abbreviation (input) R_BLK_KEY_BGN :: nat where "R_BLK_KEY_BGN \<equiv> 13"
abbreviation (input) BR_BLK_KEY_BGN :: nat where "BR_BLK_KEY_BGN \<equiv> 14"
abbreviation (input) B_BLK_KEY_BGN :: nat where "B_BLK_KEY_BGN \<equiv> 15"
abbreviation (input) R_BLK_VAL_BGN :: nat where "R_BLK_VAL_BGN \<equiv> 16"
abbreviation (input) BR_BLK_VAL_BGN :: nat where "BR_BLK_VAL_BGN \<equiv> 17"
abbreviation (input) B_BLK_VAL_BGN :: nat where "B_BLK_VAL_BGN \<equiv> 18"
abbreviation (input) R_BLK_IMP_BGN :: nat where "R_BLK_IMP_BGN \<equiv> 19"
abbreviation (input) R_BLK_LIT_BGN :: nat where "R_BLK_LIT_BGN \<equiv> 20"
abbreviation (input) BR_BLK_LIT_BGN :: nat where "BR_BLK_LIT_BGN \<equiv> 21"
abbreviation (input) R_BLK_FLD_BGN :: nat where "R_BLK_FLD_BGN \<equiv> 22"
abbreviation (input) BR_BLK_FLD_BGN :: nat where "BR_BLK_FLD_BGN \<equiv> 23"
abbreviation (input) BR_BLK_STR_CTN :: nat where "BR_BLK_STR_CTN \<equiv> 24"
abbreviation (input) R_FLW_SEQ_BGN :: nat where "R_FLW_SEQ_BGN \<equiv> 25"
abbreviation (input) BR_FLW_SEQ_BGN :: nat where "BR_FLW_SEQ_BGN \<equiv> 26"
abbreviation (input) B_FLW_SEQ_BGN :: nat where "B_FLW_SEQ_BGN \<equiv> 27"
abbreviation (input) R_FLW_SEQ_END :: nat where "R_FLW_SEQ_END \<equiv> 28"
abbreviation (input) BR_FLW_SEQ_END :: nat where "BR_FLW_SEQ_END \<equiv> 29"
abbreviation (input) B_FLW_SEQ_END :: nat where "B_FLW_SEQ_END \<equiv> 30"
abbreviation (input) R_FLW_MAP_BGN :: nat where "R_FLW_MAP_BGN \<equiv> 31"
abbreviation (input) BR_FLW_MAP_BGN :: nat where "BR_FLW_MAP_BGN \<equiv> 32"
abbreviation (input) B_FLW_MAP_BGN :: nat where "B_FLW_MAP_BGN \<equiv> 33"
abbreviation (input) R_FLW_MAP_END :: nat where "R_FLW_MAP_END \<equiv> 34"
abbreviation (input) BR_FLW_MAP_END :: nat where "BR_FLW_MAP_END \<equiv> 35"
abbreviation (input) B_FLW_MAP_END :: nat where "B_FLW_MAP_END \<equiv> 36"
abbreviation (input) R_FLW_SEP_BGN :: nat where "R_FLW_SEP_BGN \<equiv> 37"
abbreviation (input) BR_FLW_SEP_BGN :: nat where "BR_FLW_SEP_BGN \<equiv> 38"
abbreviation (input) R_FLW_KEY_BGN :: nat where "R_FLW_KEY_BGN \<equiv> 39"
abbreviation (input) BR_FLW_KEY_BGN :: nat where "BR_FLW_KEY_BGN \<equiv> 40"
abbreviation (input) R_FLW_JSV_BGN :: nat where "R_FLW_JSV_BGN \<equiv> 41"
abbreviation (input) BR_FLW_JSV_BGN :: nat where "BR_FLW_JSV_BGN \<equiv> 42"
abbreviation (input) R_FLW_NJV_BGN :: nat where "R_FLW_NJV_BGN \<equiv> 43"
abbreviation (input) BR_FLW_NJV_BGN :: nat where "BR_FLW_NJV_BGN \<equiv> 44"
abbreviation (input) R_DQT_STR_BGN :: nat where "R_DQT_STR_BGN \<equiv> 45"
abbreviation (input) BR_DQT_STR_BGN :: nat where "BR_DQT_STR_BGN \<equiv> 46"
abbreviation (input) B_DQT_STR_BGN :: nat where "B_DQT_STR_BGN \<equiv> 47"
abbreviation (input) R_DQT_STR_CTN :: nat where "R_DQT_STR_CTN \<equiv> 48"
abbreviation (input) BR_DQT_STR_CTN :: nat where "BR_DQT_STR_CTN \<equiv> 49"
abbreviation (input) R_DQT_ESC_NWL :: nat where "R_DQT_ESC_NWL \<equiv> 50"
abbreviation (input) BR_DQT_ESC_NWL :: nat where "BR_DQT_ESC_NWL \<equiv> 51"
abbreviation (input) R_DQT_ESC_SEQ :: nat where "R_DQT_ESC_SEQ \<equiv> 52"
abbreviation (input) BR_DQT_ESC_SEQ :: nat where "BR_DQT_ESC_SEQ \<equiv> 53"
abbreviation (input) R_DQT_STR_END :: nat where "R_DQT_STR_END \<equiv> 54"
abbreviation (input) BR_DQT_STR_END :: nat where "BR_DQT_STR_END \<equiv> 55"
abbreviation (input) R_SQT_STR_BGN :: nat where "R_SQT_STR_BGN \<equiv> 56"
abbreviation (input) BR_SQT_STR_BGN :: nat where "BR_SQT_STR_BGN \<equiv> 57"
abbreviation (input) B_SQT_STR_BGN :: nat where "B_SQT_STR_BGN \<equiv> 58"
abbreviation (input) R_SQT_STR_CTN :: nat where "R_SQT_STR_CTN \<equiv> 59"
abbreviation (input) BR_SQT_STR_CTN :: nat where "BR_SQT_STR_CTN \<equiv> 60"
abbreviation (input) R_SQT_ESC_SQT :: nat where "R_SQT_ESC_SQT \<equiv> 61"
abbreviation (input) BR_SQT_ESC_SQT :: nat where "BR_SQT_ESC_SQT \<equiv> 62"
abbreviation (input) R_SQT_STR_END :: nat where "R_SQT_STR_END \<equiv> 63"
abbreviation (input) BR_SQT_STR_END :: nat where "BR_SQT_STR_END \<equiv> 64"
abbreviation (input) R_SGL_PLN_NUL_BLK :: nat where "R_SGL_PLN_NUL_BLK \<equiv> 65"
abbreviation (input) BR_SGL_PLN_NUL_BLK :: nat where "BR_SGL_PLN_NUL_BLK \<equiv> 66"
abbreviation (input) B_SGL_PLN_NUL_BLK :: nat where "B_SGL_PLN_NUL_BLK \<equiv> 67"
abbreviation (input) R_SGL_PLN_NUL_FLW :: nat where "R_SGL_PLN_NUL_FLW \<equiv> 68"
abbreviation (input) BR_SGL_PLN_NUL_FLW :: nat where "BR_SGL_PLN_NUL_FLW \<equiv> 69"
abbreviation (input) R_SGL_PLN_BOL_BLK :: nat where "R_SGL_PLN_BOL_BLK \<equiv> 70"
abbreviation (input) BR_SGL_PLN_BOL_BLK :: nat where "BR_SGL_PLN_BOL_BLK \<equiv> 71"
abbreviation (input) B_SGL_PLN_BOL_BLK :: nat where "B_SGL_PLN_BOL_BLK \<equiv> 72"
abbreviation (input) R_SGL_PLN_BOL_FLW :: nat where "R_SGL_PLN_BOL_FLW \<equiv> 73"
abbreviation (input) BR_SGL_PLN_BOL_FLW :: nat where "BR_SGL_PLN_BOL_FLW \<equiv> 74"
abbreviation (input) R_SGL_PLN_INT_BLK :: nat where "R_SGL_PLN_INT_BLK \<equiv> 75"
abbreviation (input) BR_SGL_PLN_INT_BLK :: nat where "BR_SGL_PLN_INT_BLK \<equiv> 76"
abbreviation (input) B_SGL_PLN_INT_BLK :: nat where "B_SGL_PLN_INT_BLK \<equiv> 77"
abbreviation (input) R_SGL_PLN_INT_FLW :: nat where "R_SGL_PLN_INT_FLW \<equiv> 78"
abbreviation (input) BR_SGL_PLN_INT_FLW :: nat where "BR_SGL_PLN_INT_FLW \<equiv> 79"
abbreviation (input) R_SGL_PLN_FLT_BLK :: nat where "R_SGL_PLN_FLT_BLK \<equiv> 80"
abbreviation (input) BR_SGL_PLN_FLT_BLK :: nat where "BR_SGL_PLN_FLT_BLK \<equiv> 81"
abbreviation (input) B_SGL_PLN_FLT_BLK :: nat where "B_SGL_PLN_FLT_BLK \<equiv> 82"
abbreviation (input) R_SGL_PLN_FLT_FLW :: nat where "R_SGL_PLN_FLT_FLW \<equiv> 83"
abbreviation (input) BR_SGL_PLN_FLT_FLW :: nat where "BR_SGL_PLN_FLT_FLW \<equiv> 84"
abbreviation (input) R_SGL_PLN_TMS_BLK :: nat where "R_SGL_PLN_TMS_BLK \<equiv> 85"
abbreviation (input) BR_SGL_PLN_TMS_BLK :: nat where "BR_SGL_PLN_TMS_BLK \<equiv> 86"
abbreviation (input) B_SGL_PLN_TMS_BLK :: nat where "B_SGL_PLN_TMS_BLK \<equiv> 87"
abbreviation (input) R_SGL_PLN_TMS_FLW :: nat where "R_SGL_PLN_TMS_FLW \<equiv> 88"
abbreviation (input) BR_SGL_PLN_TMS_FLW :: nat where "BR_SGL_PLN_TMS_FLW \<equiv> 89"
abbreviation (input) R_SGL_PLN_STR_BLK :: nat where "R_SGL_PLN_STR_BLK \<equiv> 90"
abbreviation (input) BR_SGL_PLN_STR_BLK :: nat where "BR_SGL_PLN_STR_BLK \<equiv> 91"
abbreviation (input) B_SGL_PLN_STR_BLK :: nat where "B_SGL_PLN_STR_BLK \<equiv> 92"
abbreviation (input) R_SGL_PLN_STR_FLW :: nat where "R_SGL_PLN_STR_FLW \<equiv> 93"
abbreviation (input) BR_SGL_PLN_STR_FLW :: nat where "BR_SGL_PLN_STR_FLW \<equiv> 94"
abbreviation (input) R_MTL_PLN_STR_BLK :: nat where "R_MTL_PLN_STR_BLK \<equiv> 95"
abbreviation (input) BR_MTL_PLN_STR_BLK :: nat where "BR_MTL_PLN_STR_BLK \<equiv> 96"
abbreviation (input) R_MTL_PLN_STR_FLW :: nat where "R_MTL_PLN_STR_FLW \<equiv> 97"
abbreviation (input) BR_MTL_PLN_STR_FLW :: nat where "BR_MTL_PLN_STR_FLW \<equiv> 98"
abbreviation (input) R_TAG :: nat where "R_TAG \<equiv> 99"
abbreviation (input) BR_TAG :: nat where "BR_TAG \<equiv> 100"
abbreviation (input) B_TAG :: nat where "B_TAG \<equiv> 101"
abbreviation (input) R_ACR_BGN :: nat where "R_ACR_BGN \<equiv> 102"
abbreviation (input) BR_ACR_BGN :: nat where "BR_ACR_BGN \<equiv> 103"
abbreviation (input) B_ACR_BGN :: nat where "B_ACR_BGN \<equiv> 104"
abbreviation (input) R_ACR_CTN :: nat where "R_ACR_CTN \<equiv> 105"
abbreviation (input) R_ALS_BGN :: nat where "R_ALS_BGN \<equiv> 106"
abbreviation (input) BR_ALS_BGN :: nat where "BR_ALS_BGN \<equiv> 107"
abbreviation (input) B_ALS_BGN :: nat where "B_ALS_BGN \<equiv> 108"
abbreviation (input) R_ALS_CTN :: nat where "R_ALS_CTN \<equiv> 109"
abbreviation (input) BL :: nat where "BL \<equiv> 110"
abbreviation (input) COMMENT :: nat where "COMMENT \<equiv> 111"
abbreviation (input) ERR_REC :: nat where "ERR_REC \<equiv> 112"

datatype ScanStatus = SCN_FAIL | SCN_STOP | SCN_SUCC

definition IND_ROT :: int where "IND_ROT = ch CHR ''r''"
definition IND_MAP :: int where "IND_MAP = ch CHR ''m''"
definition IND_SEQ :: int where "IND_SEQ = ch CHR ''q''"
definition IND_STR :: int where "IND_STR = ch CHR ''s''"

text \<open>
  The top of a stack is the end of its list. \<open>aborted\<close> says that the schema automaton has called
  \<open>abort\<close>, which ends the program.
\<close>

record Scanner =
  scn_row :: int
  scn_col :: int
  blk_imp_row :: int
  blk_imp_col :: int
  blk_imp_tab :: int
  ind_typ_stk :: "int list"
  ind_len_stk :: "int list"
  end_row :: int
  end_col :: int
  cur_row :: int
  cur_col :: int
  cur_chr :: int
  sch_stt :: int
  rlt_sch :: ResultSchema
  aborted :: bool
  lexer :: "nat TSLexer"

abbreviation look :: "Scanner \<Rightarrow> int" where
  "look s \<equiv> la (lexer s)"

section \<open>Basic operations\<close>

definition adv :: "Scanner \<Rightarrow> Scanner" where
  "adv s = s\<lparr>cur_col := i16 (cur_col s + 1), cur_chr := look s, lexer := advance (lexer s)\<rparr>"

definition adv_nwl :: "Scanner \<Rightarrow> Scanner" where
  "adv_nwl s = s\<lparr>cur_row := i16 (cur_row s + 1), cur_col := 0, cur_chr := look s,
     lexer := advance (lexer s)\<rparr>"

definition skp :: "Scanner \<Rightarrow> Scanner" where
  "skp s = s\<lparr>cur_col := i16 (cur_col s + 1), cur_chr := look s, lexer := skip (lexer s)\<rparr>"

definition skp_nwl :: "Scanner \<Rightarrow> Scanner" where
  "skp_nwl s = s\<lparr>cur_row := i16 (cur_row s + 1), cur_col := 0, cur_chr := look s,
     lexer := skip (lexer s)\<rparr>"

definition mrk_end :: "Scanner \<Rightarrow> Scanner" where
  "mrk_end s = s\<lparr>end_row := cur_row s, end_col := cur_col s, lexer := mark_end (lexer s)\<rparr>"

definition init :: "Scanner \<Rightarrow> Scanner" where
  "init s = s\<lparr>cur_row := scn_row s, cur_col := scn_col s, cur_chr := 0, sch_stt := 0, rlt_sch := RS_STR\<rparr>"

definition flush :: "Scanner \<Rightarrow> Scanner" where
  "flush s = s\<lparr>scn_row := end_row s, scn_col := end_col s\<rparr>"

definition pop_ind :: "Scanner \<Rightarrow> Scanner" where
  "pop_ind s = s\<lparr>ind_len_stk := butlast (ind_len_stk s), ind_typ_stk := butlast (ind_typ_stk s)\<rparr>"

definition push_ind :: "int \<Rightarrow> int \<Rightarrow> Scanner \<Rightarrow> Scanner" where
  "push_ind typ len s = s\<lparr>ind_len_stk := ind_len_stk s @ [i16 len], ind_typ_stk := ind_typ_stk s @ [typ]\<rparr>"

definition RET_SYM :: "nat \<Rightarrow> Scanner \<Rightarrow> bool \<times> Scanner" where
  "RET_SYM symb s = (True, (flush s)\<lparr>lexer := set_sym symb (lexer s)\<rparr>)"

text \<open>\<open>POP_IND\<close> followed by \<open>RET_SYM\<close>: the macro returns false when only the root is left.\<close>

definition POP_IND_RET :: "nat \<Rightarrow> Scanner \<Rightarrow> bool \<times> Scanner" where
  "POP_IND_RET symb s =
     (if length (ind_typ_stk s) = 1 then (False, s) else RET_SYM symb (pop_ind s))"

definition is_wsp :: "int \<Rightarrow> bool" where
  "is_wsp c \<longleftrightarrow> c = ch CHR '' '' \<or> c = 9"

definition is_nwl :: "int \<Rightarrow> bool" where
  "is_nwl c \<longleftrightarrow> c = 13 \<or> c = 10"

definition is_wht :: "int \<Rightarrow> bool" where
  "is_wht c \<longleftrightarrow> is_wsp c \<or> is_nwl c \<or> c = 0"

definition is_ns_dec_digit :: "int \<Rightarrow> bool" where
  "is_ns_dec_digit c \<longleftrightarrow> ch CHR ''0'' \<le> c \<and> c \<le> ch CHR ''9''"

definition is_ns_hex_digit :: "int \<Rightarrow> bool" where
  "is_ns_hex_digit c \<longleftrightarrow> is_ns_dec_digit c \<or> (ch CHR ''a'' \<le> c \<and> c \<le> ch CHR ''f'') \<or>
     (ch CHR ''A'' \<le> c \<and> c \<le> ch CHR ''F'')"

definition is_ns_word_char :: "int \<Rightarrow> bool" where
  "is_ns_word_char c \<longleftrightarrow> c = ch CHR ''-'' \<or> (ch CHR ''0'' \<le> c \<and> c \<le> ch CHR ''9'') \<or>
     (ch CHR ''a'' \<le> c \<and> c \<le> ch CHR ''z'') \<or> (ch CHR ''A'' \<le> c \<and> c \<le> ch CHR ''Z'')"

definition is_nb_json :: "int \<Rightarrow> bool" where
  "is_nb_json c \<longleftrightarrow> c = 0x09 \<or> (0x20 \<le> c \<and> c \<le> 0x10ffff)"

definition is_nb_double_char :: "int \<Rightarrow> bool" where
  "is_nb_double_char c \<longleftrightarrow> is_nb_json c \<and> c \<noteq> ch CHR 0x5C \<and> c \<noteq> ch CHR 0x22"

definition is_nb_single_char :: "int \<Rightarrow> bool" where
  "is_nb_single_char c \<longleftrightarrow> is_nb_json c \<and> c \<noteq> ch CHR 0x27"

definition is_ns_char :: "int \<Rightarrow> bool" where
  "is_ns_char c \<longleftrightarrow> (0x21 \<le> c \<and> c \<le> 0x7e) \<or> c = 0x85 \<or> (0xa0 \<le> c \<and> c \<le> 0xd7ff) \<or>
     (0xe000 \<le> c \<and> c \<le> 0xfefe) \<or> (0xff00 \<le> c \<and> c \<le> 0xfffd) \<or> (0x10000 \<le> c \<and> c \<le> 0x10ffff)"

definition is_c_indicator :: "int \<Rightarrow> bool" where
  "is_c_indicator c \<longleftrightarrow> c \<in> ch ` set ([CHR 0x27, CHR 0x22, CHR 0x60] @ ''-?:,[]{}#&*!|>%@'')"

definition is_c_flow_indicator :: "int \<Rightarrow> bool" where
  "is_c_flow_indicator c \<longleftrightarrow> c \<in> ch ` set '',[]{}''"

definition is_plain_safe_in_block :: "int \<Rightarrow> bool" where
  "is_plain_safe_in_block c \<longleftrightarrow> is_ns_char c"

definition is_plain_safe_in_flow :: "int \<Rightarrow> bool" where
  "is_plain_safe_in_flow c \<longleftrightarrow> is_ns_char c \<and> \<not> is_c_flow_indicator c"

definition is_ns_uri_char :: "int \<Rightarrow> bool" where
  "is_ns_uri_char c \<longleftrightarrow> is_ns_word_char c \<or> c \<in> ch ` set ([CHR 0x27] @ ''#;/?:@&=+$,_.!~*()[]'')"

definition is_ns_tag_char :: "int \<Rightarrow> bool" where
  "is_ns_tag_char c \<longleftrightarrow> is_ns_word_char c \<or> c \<in> ch ` set ([CHR 0x27] @ ''#;/?:@&=+$_.~*()'')"

definition is_ns_anchor_char :: "int \<Rightarrow> bool" where
  "is_ns_anchor_char c \<longleftrightarrow> is_ns_char c \<and> \<not> is_c_flow_indicator c"

text \<open>No class holds the null character, which the lexer shows at the end of the input.\<close>

lemma classes_zero [simp]:
  "\<not> is_wsp 0" "\<not> is_nwl 0" "is_wht 0" "\<not> is_ns_dec_digit 0" "\<not> is_ns_hex_digit 0" "\<not> is_ns_word_char 0"
  "\<not> is_nb_json 0" "\<not> is_nb_double_char 0" "\<not> is_nb_single_char 0" "\<not> is_ns_char 0"
  "\<not> is_plain_safe_in_block 0" "\<not> is_plain_safe_in_flow 0" "\<not> is_ns_uri_char 0" "\<not> is_ns_tag_char 0"
  "\<not> is_ns_anchor_char 0"
  by (simp_all add: is_wsp_def is_nwl_def is_wht_def is_ns_dec_digit_def is_ns_hex_digit_def
      is_ns_word_char_def is_nb_json_def is_nb_double_char_def is_nb_single_char_def is_ns_char_def
      is_plain_safe_in_block_def is_plain_safe_in_flow_def is_ns_uri_char_def is_ns_tag_char_def
      is_ns_anchor_char_def ch_def)

lemma lexer_ops [simp]:
  "lexer (adv s) = advance (lexer s)" "lexer (adv_nwl s) = advance (lexer s)" "lexer (skp s) = skip (lexer s)"
  "lexer (skp_nwl s) = skip (lexer s)" "lexer (mrk_end s) = mark_end (lexer s)" "lexer (init s) = lexer s"
  "lexer (flush s) = lexer s" "lexer (pop_ind s) = lexer s" "lexer (push_ind t n s) = lexer s"
  by (simp_all add: adv_def adv_nwl_def skp_def skp_nwl_def mrk_end_def init_def flush_def pop_ind_def
      push_ind_def)

lemma lexer_RET_SYM [simp]: "lexer (snd (RET_SYM k s)) = set_sym k (lexer s)"
  by (simp add: RET_SYM_def flush_def)

text \<open>
  \<open>while (p (lookahead)) adv ();\<close>, alone and counting the characters in a \<open>uint16_t\<close>. No condition
  holds of 0, so the test for the end of the input changes nothing.
\<close>

function adv_while :: "(int \<Rightarrow> bool) \<Rightarrow> Scanner \<Rightarrow> Scanner" where
  "adv_while p s = (if rest (lexer s) \<noteq> [] \<and> p (look s) then adv_while p (adv s) else s)"
  by auto
termination by (relation "measure (\<lambda>(p, s). length (rest (lexer s)))") (auto simp: length_tl_less)

function adv_count :: "(int \<Rightarrow> bool) \<Rightarrow> nat \<Rightarrow> Scanner \<Rightarrow> nat \<times> Scanner" where
  "adv_count p n s =
     (if rest (lexer s) \<noteq> [] \<and> p (look s) then adv_count p ((n + 1) mod 2 ^ 16) (adv s) else (n, s))"
  by auto
termination by (relation "measure (\<lambda>(p, n, s). length (rest (lexer s)))") (auto simp: length_tl_less)

declare adv_while.simps [simp del] adv_count.simps [simp del]

lemma adv_while_unfold:
  "\<not> p 0 \<Longrightarrow> adv_while p s = (if p (look s) then adv_while p (adv s) else s)"
  by (subst adv_while.simps) auto

lemma adv_count_unfold:
  "\<not> p 0 \<Longrightarrow> adv_count p n s = (if p (look s) then adv_count p ((n + 1) mod 2 ^ 16) (adv s) else (n, s))"
  by (subst adv_count.simps) auto

lemma later_adv_while [scan_mono]: "later m (lexer s) \<Longrightarrow> later m (lexer (adv_while p s))"
proof (induction p s rule: adv_while.induct)
  case (1 p s)
  then show ?case by (subst adv_while.simps) (simp add: scan_mono)
qed

lemma later_adv_count [scan_mono]: "later m (lexer s) \<Longrightarrow> later m (lexer (snd (adv_count p n s)))"
proof (induction p n s rule: adv_count.induct)
  case (1 p n s)
  then show ?case by (subst adv_count.simps) (simp add: scan_mono)
qed

text \<open>The advance of the schema automaton over the character just read.\<close>

definition upd_sch :: "Scanner \<Rightarrow> Scanner" where
  "upd_sch s = (case adv_sch_stt core_rows (sch_stt s) (cur_chr s) (rlt_sch s) of
     None \<Rightarrow> s\<lparr>aborted := True\<rparr>
   | Some (q, r) \<Rightarrow> s\<lparr>sch_stt := q, rlt_sch := r\<rparr>)"

lemma lexer_upd_sch [simp]: "lexer (upd_sch s) = lexer s"
  by (simp add: upd_sch_def split: option.split)

section \<open>Scanning functions\<close>

definition scn_uri_esc :: "Scanner \<Rightarrow> ScanStatus \<times> Scanner" where
  "scn_uri_esc s =
     (if look s \<noteq> ch CHR ''%'' then (SCN_STOP, s)
      else
        (let s = adv (mrk_end s)
         in if \<not> is_ns_hex_digit (look s) then (SCN_FAIL, s)
            else
              (let s = adv s
               in if \<not> is_ns_hex_digit (look s) then (SCN_FAIL, s) else (SCN_SUCC, adv s))))"

definition scn_ns_uri_char :: "Scanner \<Rightarrow> ScanStatus \<times> Scanner" where
  "scn_ns_uri_char s = (if is_ns_uri_char (look s) then (SCN_SUCC, adv s) else scn_uri_esc s)"

definition scn_ns_tag_char :: "Scanner \<Rightarrow> ScanStatus \<times> Scanner" where
  "scn_ns_tag_char s = (if is_ns_tag_char (look s) then (SCN_SUCC, adv s) else scn_uri_esc s)"

lemma later_scn_uri_esc [scan_mono]:
  "later m (lexer s) \<Longrightarrow> later m (lexer (snd (scn_uri_esc s)))"
  by (simp add: scn_uri_esc_def Let_def scan_mono)

lemma later_scn_uri_tag_char [scan_mono]:
  "later m (lexer s) \<Longrightarrow> later m (lexer (snd (scn_ns_uri_char s)))"
  "later m (lexer s) \<Longrightarrow> later m (lexer (snd (scn_ns_tag_char s)))"
  by (simp_all add: scn_ns_uri_char_def scn_ns_tag_char_def scan_mono)

lemma scn_succ_less:
  "scn_uri_esc s = (SCN_SUCC, s') \<Longrightarrow> length (rest (lexer s')) < length (rest (lexer s))"
  "scn_ns_uri_char s = (SCN_SUCC, s') \<Longrightarrow> length (rest (lexer s')) < length (rest (lexer s))"
  "scn_ns_tag_char s = (SCN_SUCC, s') \<Longrightarrow> length (rest (lexer s')) < length (rest (lexer s))"
proof -
  have first: "length (rest (lexer (adv s))) < length (rest (lexer s))" if "look s \<noteq> 0"
    using that by (simp add: length_tl_less la_nonzero)
  have nz: "look s \<noteq> 0" if "is_ns_uri_char (look s) \<or> is_ns_tag_char (look s)"
    using that by (rule contrapos_pn) simp
  show esc: "scn_uri_esc s = (SCN_SUCC, s') \<Longrightarrow> length (rest (lexer s')) < length (rest (lexer s))" for s'
    using first by (auto simp: scn_uri_esc_def Let_def split: if_splits)
  show "scn_ns_uri_char s = (SCN_SUCC, s') \<Longrightarrow> length (rest (lexer s')) < length (rest (lexer s))"
    using first nz esc by (auto simp: scn_ns_uri_char_def simp del: lexer_ops split: if_splits)
  show "scn_ns_tag_char s = (SCN_SUCC, s') \<Longrightarrow> length (rest (lexer s')) < length (rest (lexer s))"
    using first nz esc by (auto simp: scn_ns_tag_char_def simp del: lexer_ops split: if_splits)
qed

text \<open>
  The two branches of \<open>scn_dir_bgn\<close> that recognise a word; \<open>None\<close> when control reaches the loop
  behind them.
\<close>

definition scn_dir_word :: "Scanner \<Rightarrow> (bool \<times> Scanner) option \<times> Scanner" where
  "scn_dir_word s =
     (if look s = ch CHR ''Y'' then
        (let s = adv s in if look s \<noteq> ch CHR ''A'' then (None, s) else
         let s = adv s in if look s \<noteq> ch CHR ''M'' then (None, s) else
         let s = adv s in if look s \<noteq> ch CHR ''L'' then (None, s) else
         let s = adv s in if \<not> is_wht (look s) then (None, s) else
         (Some (RET_SYM S_DIR_YML_BGN (mrk_end s)), s))
      else if look s = ch CHR ''T'' then
        (let s = adv s in if look s \<noteq> ch CHR ''A'' then (None, s) else
         let s = adv s in if look s \<noteq> ch CHR ''G'' then (None, s) else
         let s = adv s in if \<not> is_wht (look s) then (None, s) else
         (Some (RET_SYM S_DIR_TAG_BGN (mrk_end s)), s))
      else (None, s))"

definition scn_dir_bgn :: "Scanner \<Rightarrow> bool \<times> Scanner" where
  "scn_dir_bgn s =
     (case scn_dir_word (adv s) of
        (Some r, _) \<Rightarrow> r
      | (None, s) \<Rightarrow>
          (let s = adv_while is_ns_char s
           in if cur_col s > 1 \<and> is_wht (look s) then RET_SYM S_DIR_RSV_BGN (mrk_end s) else (False, s)))"

definition scn_dir_yml_ver :: "nat \<Rightarrow> Scanner \<Rightarrow> bool \<times> Scanner" where
  "scn_dir_yml_ver symbol s =
     (let (n1, s) = adv_count is_ns_dec_digit 0 s
      in if look s \<noteq> ch CHR ''.'' then (False, s)
         else
           (let (n2, s) = adv_count is_ns_dec_digit 0 (adv s)
            in if n1 = 0 \<or> n2 = 0 then (False, s) else RET_SYM symbol (mrk_end s)))"

definition scn_tag_hdl_tal :: "Scanner \<Rightarrow> bool \<times> Scanner" where
  "scn_tag_hdl_tal s =
     (if look s = ch CHR ''!'' then (True, adv s)
      else
        (let (n, s) = adv_count is_ns_word_char 0 s
         in if n = 0 then (True, s)
            else if look s = ch CHR ''!'' then (True, adv s)
            else (False, s)))"

definition scn_dir_tag_hdl :: "nat \<Rightarrow> Scanner \<Rightarrow> bool \<times> Scanner" where
  "scn_dir_tag_hdl symbol s =
     (if look s = ch CHR ''!'' then
        (let (ok, s) = scn_tag_hdl_tal (adv s)
         in if ok then RET_SYM symbol (mrk_end s) else (False, s))
      else (False, s))"

text \<open>
  The loops that read URI and tag characters until one is not accepted: a stop marks the end, a failed
  escape leaves it where the escape began.
\<close>

function uri_char_loop :: "nat \<Rightarrow> Scanner \<Rightarrow> bool \<times> Scanner" where
  "uri_char_loop symbol s =
     (case scn_ns_uri_char s of
        (SCN_STOP, s) \<Rightarrow> RET_SYM symbol (mrk_end s)
      | (SCN_FAIL, s) \<Rightarrow> RET_SYM symbol s
      | (SCN_SUCC, s) \<Rightarrow> uri_char_loop symbol s)"
  by pat_completeness auto
termination
  by (relation "measure (\<lambda>(k, s). length (rest (lexer s)))") (auto dest: sym intro: scn_succ_less)

function tag_char_loop :: "nat \<Rightarrow> Scanner \<Rightarrow> bool \<times> Scanner" where
  "tag_char_loop symbol s =
     (case scn_ns_tag_char s of
        (SCN_STOP, s) \<Rightarrow> RET_SYM symbol (mrk_end s)
      | (SCN_FAIL, s) \<Rightarrow> RET_SYM symbol s
      | (SCN_SUCC, s) \<Rightarrow> tag_char_loop symbol s)"
  by pat_completeness auto
termination
  by (relation "measure (\<lambda>(k, s). length (rest (lexer s)))") (auto dest: sym intro: scn_succ_less)

function verbatim_tag_loop :: "nat \<Rightarrow> Scanner \<Rightarrow> bool \<times> Scanner" where
  "verbatim_tag_loop symbol s =
     (case scn_ns_uri_char s of
        (SCN_STOP, s) \<Rightarrow>
          (if look s = ch CHR ''>'' then RET_SYM symbol (mrk_end (adv s)) else (False, s))
      | (SCN_FAIL, s) \<Rightarrow> (False, s)
      | (SCN_SUCC, s) \<Rightarrow> verbatim_tag_loop symbol s)"
  by pat_completeness auto
termination
  by (relation "measure (\<lambda>(k, s). length (rest (lexer s)))") (auto dest: sym intro: scn_succ_less)

declare uri_char_loop.simps [simp del] tag_char_loop.simps [simp del] verbatim_tag_loop.simps [simp del]

definition scn_dir_tag_pfx :: "nat \<Rightarrow> Scanner \<Rightarrow> bool \<times> Scanner" where
  "scn_dir_tag_pfx symbol s =
     (if look s = ch CHR ''!'' then uri_char_loop symbol (adv s)
      else
        (let (status, s) = scn_ns_tag_char s
         in if status = SCN_SUCC then uri_char_loop symbol s else (False, s)))"

definition scn_dir_rsv_prm :: "nat \<Rightarrow> Scanner \<Rightarrow> bool \<times> Scanner" where
  "scn_dir_rsv_prm symbol s =
     (if \<not> is_ns_char (look s) then (False, s)
      else RET_SYM symbol (mrk_end (adv_while is_ns_char (adv s))))"

definition scn_tag :: "nat \<Rightarrow> Scanner \<Rightarrow> bool \<times> Scanner" where
  "scn_tag symbol s =
     (if look s \<noteq> ch CHR ''!'' then (False, s)
      else
        (let s = adv s
         in if is_wht (look s) then RET_SYM symbol (mrk_end s)
            else if look s = ch CHR ''<'' then
              (let (status, s) = scn_ns_uri_char (adv s)
               in if status \<noteq> SCN_SUCC then (False, s) else verbatim_tag_loop symbol s)
            else
              (let (handle, s) = scn_tag_hdl_tal s
               in if handle then
                    (let (status, s) = scn_ns_tag_char s
                     in if status \<noteq> SCN_SUCC then (False, s) else tag_char_loop symbol s)
                  else tag_char_loop symbol s)))"

definition scn_acr_bgn :: "nat \<Rightarrow> Scanner \<Rightarrow> bool \<times> Scanner" where
  "scn_acr_bgn symbol s =
     (if look s \<noteq> ch CHR ''&'' then (False, s)
      else
        (let s = adv s
         in if \<not> is_ns_anchor_char (look s) then (False, s) else RET_SYM symbol (mrk_end s)))"

definition scn_acr_ctn :: "nat \<Rightarrow> Scanner \<Rightarrow> bool \<times> Scanner" where
  "scn_acr_ctn symbol s = RET_SYM symbol (mrk_end (adv_while is_ns_anchor_char s))"

definition scn_als_bgn :: "nat \<Rightarrow> Scanner \<Rightarrow> bool \<times> Scanner" where
  "scn_als_bgn symbol s =
     (if look s \<noteq> ch CHR ''*'' then (False, s)
      else
        (let s = adv s
         in if \<not> is_ns_anchor_char (look s) then (False, s) else RET_SYM symbol (mrk_end s)))"

definition scn_als_ctn :: "nat \<Rightarrow> Scanner \<Rightarrow> bool \<times> Scanner" where
  "scn_als_ctn symbol s = RET_SYM symbol (mrk_end (adv_while is_ns_anchor_char s))"

text \<open>The loop that reads \<open>n\<close> hexadecimal digits.\<close>

fun adv_hex_digits :: "nat \<Rightarrow> Scanner \<Rightarrow> bool \<times> Scanner" where
  "adv_hex_digits 0 s = (True, s)"
| "adv_hex_digits (Suc n) s =
     (if is_ns_hex_digit (look s) then adv_hex_digits n (adv s) else (False, s))"

definition scn_dqt_esc_seq :: "nat \<Rightarrow> Scanner \<Rightarrow> bool \<times> Scanner" where
  "scn_dqt_esc_seq symbol s =
     (let (ok, s) =
        (if look s \<in> ch ` set ([CHR 0x09, CHR 0x22, CHR 0x5C] @ ''0abtnvref /N_LP'') then (True, adv s)
         else if look s = ch CHR ''U'' then adv_hex_digits 8 (adv s)
         else if look s = ch CHR ''u'' then adv_hex_digits 4 (adv s)
         else if look s = ch CHR ''x'' then adv_hex_digits 2 (adv s)
         else (False, s))
      in if ok then RET_SYM symbol (mrk_end s) else (False, s))"

definition scn_drs_doc_end :: "Scanner \<Rightarrow> bool \<times> Scanner" where
  "scn_drs_doc_end s =
     (if look s \<noteq> ch CHR ''-'' \<and> look s \<noteq> ch CHR ''.'' then (False, s)
      else
        (let delimeter = look s;
             s = adv s
         in if look s \<noteq> delimeter then (False, mrk_end s) else
            let s = adv s in if look s \<noteq> delimeter then (False, mrk_end s) else
            let s = adv s in if is_wht (look s) then (True, s) else (False, mrk_end s)))"

text \<open>The contents of a quoted string, of which \<open>p\<close> are the ordinary characters.\<close>

definition scn_str_cnt :: "(int \<Rightarrow> bool) \<Rightarrow> nat \<Rightarrow> Scanner \<Rightarrow> bool \<times> Scanner" where
  "scn_str_cnt p symbol s =
     (if \<not> p (look s) then (False, s)
      else
        (let (doc_end, s) = (if cur_col s = 0 then scn_drs_doc_end s else (False, s))
         in if doc_end
            then RET_SYM (if cur_chr s = ch CHR ''-'' then S_DRS_END else S_DOC_END) (mrk_end s)
            else RET_SYM symbol (mrk_end (adv_while p (adv s)))))"

definition scn_dqt_str_cnt :: "nat \<Rightarrow> Scanner \<Rightarrow> bool \<times> Scanner" where
  "scn_dqt_str_cnt = scn_str_cnt is_nb_double_char"

definition scn_sqt_str_cnt :: "nat \<Rightarrow> Scanner \<Rightarrow> bool \<times> Scanner" where
  "scn_sqt_str_cnt = scn_str_cnt is_nb_single_char"

text \<open>The header of a block scalar: indentation and chomping indicators, in either order.\<close>

definition blk_str_indicators :: "Scanner \<Rightarrow> int \<times> Scanner" where
  "blk_str_indicators s =
     (let digit = (\<lambda>s. ch CHR ''1'' \<le> look s \<and> look s \<le> ch CHR ''9'');
          chomp = (\<lambda>s. look s = ch CHR ''+'' \<or> look s = ch CHR ''-'')
      in if digit s then
           (let ind = i16 (look s - ch CHR ''1''); s = adv s in (ind, if chomp s then adv s else s))
         else if chomp s then
           (let s = adv s
            in if digit s then (i16 (look s - ch CHR ''1''), adv s) else (- 1, s))
         else (- 1, s))"

text \<open>The loop that finds the indentation of the first line of a block scalar that has text.\<close>

function blk_str_ind_loop :: "int \<Rightarrow> Scanner \<Rightarrow> int \<times> Scanner" where
  "blk_str_ind_loop ind s =
     (if look s \<noteq> 0 then
        if look s = ch CHR '' '' then blk_str_ind_loop ind (adv s)
        else if is_nwl (look s) then
          (if cur_col s - 1 < ind then (ind, s)
           else blk_str_ind_loop (i16 (cur_col s - 1)) (adv_nwl s))
        else (if cur_col s - 1 > ind then (i16 (cur_col s - 1), s) else (ind, s))
      else (ind, s))"
  by pat_completeness auto
termination
  by (relation "measure (\<lambda>(i, s). length (rest (lexer s)))")
    (auto simp: length_tl_less dest: la_nonzero la_ch_rest)

declare blk_str_ind_loop.simps [simp del]

definition scn_blk_str_bgn :: "nat \<Rightarrow> Scanner \<Rightarrow> bool \<times> Scanner" where
  "scn_blk_str_bgn symbol s =
     (if look s \<noteq> ch CHR ''|'' \<and> look s \<noteq> ch CHR ''>'' then (False, s)
      else
        (let s = adv s;
             cur_ind = last (ind_len_stk s);
             (ind, s) = blk_str_indicators s
         in if \<not> is_wht (look s) then (False, s)
            else
              (let s = mrk_end s;
                   (ind, s) =
                     (if ind \<noteq> - 1 then (i16 (ind + cur_ind), s)
                      else
                        (let s = adv_while is_wsp s;
                             s = (if look s = ch CHR ''#''
                                  then adv_while (\<lambda>c. \<not> is_nwl c \<and> c \<noteq> 0) (adv s) else s);
                             s = (if is_nwl (look s) then adv_nwl s else s)
                         in blk_str_ind_loop cur_ind s))
               in RET_SYM symbol (push_ind IND_STR ind s))))"

function blk_str_cnt_loop :: "Scanner \<Rightarrow> Scanner" where
  "blk_str_cnt_loop s =
     (let s = (if is_ns_char (look s) then mrk_end (adv_while is_ns_char (adv s)) else s)
      in if is_wsp (look s) then blk_str_cnt_loop (adv_while is_wsp (adv s)) else s)"
  by pat_completeness auto
termination
proof (relation "measure (\<lambda>s. length (rest (lexer s)))", goal_cases)
  case (2 s x)
  then have "later (lexer s) (lexer x)" "look x \<noteq> 0"
    by (auto simp: scan_mono)
  then have "length (rest (lexer (adv_while is_wsp (adv x)))) < length (rest (lexer s))"
    by (intro later_less) (auto simp: scan_mono)
  then show ?case by simp
qed simp

declare blk_str_cnt_loop.simps [simp del]

definition scn_blk_str_cnt :: "nat \<Rightarrow> Scanner \<Rightarrow> bool \<times> Scanner" where
  "scn_blk_str_cnt symbol s =
     (if \<not> is_ns_char (look s) then (False, s)
      else
        (let (doc_end, s) = (if cur_col s = 0 then scn_drs_doc_end s else (False, s))
         in if doc_end then POP_IND_RET BL s
            else RET_SYM symbol (blk_str_cnt_loop (mrk_end (adv s)))))"

text \<open>
  The loop over the text of a plain scalar on one line. The flags for the lookahead are computed
  where the source computes them again behind every character.
\<close>

definition is_plain_safe :: "bool \<Rightarrow> int \<Rightarrow> bool" where
  "is_plain_safe in_blk c = (if in_blk then is_plain_safe_in_block c else is_plain_safe_in_flow c)"

lemma is_plain_safe_zero [simp]: "\<not> is_plain_safe b 0"
  by (simp add: is_plain_safe_def)

function pln_cnt_loop :: "bool \<Rightarrow> bool \<Rightarrow> Scanner \<Rightarrow> ScanStatus \<times> Scanner" where
  "pln_cnt_loop in_blk is_cur_saf s =
     (let is_lka_wsp = is_wsp (look s);
          is_lka_saf = is_plain_safe in_blk (look s);
          next = (if is_lka_saf \<and> look s \<noteq> ch CHR ''#'' \<and> look s \<noteq> ch CHR '':'' then Some (upd_sch (mrk_end (adv s)))
                  else if is_cur_saf \<and> look s = ch CHR ''#'' then Some (upd_sch (mrk_end (adv s)))
                  else if is_lka_wsp then Some (upd_sch (adv s))
                  else if look s = ch CHR '':'' then Some (adv s)
                  else None)
      in case next of
           None \<Rightarrow> (SCN_SUCC, s)
         | Some s \<Rightarrow>
             (if cur_chr s = ch CHR '':'' then
                (if is_plain_safe in_blk (look s) then pln_cnt_loop in_blk is_lka_saf (upd_sch (mrk_end s))
                 else (SCN_FAIL, s))
              else pln_cnt_loop in_blk is_lka_saf s))"
  by pat_completeness auto
termination
proof (relation "measure (\<lambda>(b, c, s). length (rest (lexer s)))", goal_cases)
  case (2 b c s x y z s')
  then have "look s \<noteq> 0" "lexer s' = mark_end (advance (lexer s)) \<or> lexer s' = advance (lexer s)"
    by (auto split: if_splits)
  then show ?case by (auto simp: length_tl_less la_nonzero)
next
  case (3 b c s x y z s')
  then have "look s \<noteq> 0" "lexer s' = mark_end (advance (lexer s)) \<or> lexer s' = advance (lexer s)"
    by (auto split: if_splits)
  then show ?case by (auto simp: length_tl_less la_nonzero)
qed simp

declare pln_cnt_loop.simps [simp del]

definition scn_pln_cnt :: "bool \<Rightarrow> Scanner \<Rightarrow> ScanStatus \<times> Scanner" where
  "scn_pln_cnt in_blk s =
     (if is_plain_safe in_blk (look s) \<or> is_wsp (look s)
      then pln_cnt_loop in_blk (is_plain_safe in_blk (cur_chr s)) s
      else (SCN_STOP, s))"

section \<open>The main function\<close>

text \<open>
  The local variables of \<open>scan\<close> that its later parts read, with the symbols the parser accepts.
  \<open>on_r\<close>, \<open>on_br\<close>, \<open>on_b\<close> and \<open>on_s\<close> are \<open>is_r\<close> (the token is on the line of the last one),
  \<open>is_br\<close> (on a new line, indented deeper than the block), \<open>is_b\<close> (indented like it) and
  \<open>is_s\<close> (at the start of a line).
\<close>

record scan_ctx =
  valid :: "nat \<Rightarrow> bool"
  cur_ind :: int
  cur_ind_typ :: int
  has_tab_ind :: bool
  has_nwl :: bool
  bgn_row :: int
  bgn_col :: int
  bgn_chr :: int
  on_r :: bool
  on_br :: bool
  on_b :: bool
  on_s :: bool

text \<open>
  A part of the function gives \<open>Some\<close> result when it returns, and \<open>None\<close> when control goes on
  behind it.
\<close>

type_synonym part = "bool option \<times> Scanner"

definition return :: "bool \<times> Scanner \<Rightarrow> part" where
  "return r = (Some (fst r), snd r)"

definition MAY_UPD_IMP_COL :: "scan_ctx \<Rightarrow> Scanner \<Rightarrow> Scanner" where
  "MAY_UPD_IMP_COL c s =
     (if blk_imp_row s \<noteq> bgn_row c
      then s\<lparr>blk_imp_row := bgn_row c, blk_imp_col := bgn_col c, blk_imp_tab := of_bool (has_tab_ind c)\<rparr>
      else s)"

text \<open>\<open>PUSH_BGN_IND\<close>, \<open>MAY_PUSH_IMP_IND\<close>: \<open>None\<close> when the macro makes the function return false.\<close>

definition PUSH_BGN_IND :: "scan_ctx \<Rightarrow> int \<Rightarrow> Scanner \<Rightarrow> Scanner option" where
  "PUSH_BGN_IND c typ s = (if has_tab_ind c then None else Some (push_ind typ (bgn_col c) s))"

definition MAY_PUSH_IMP_IND :: "scan_ctx \<Rightarrow> Scanner \<Rightarrow> Scanner option" where
  "MAY_PUSH_IMP_IND c s =
     (if cur_ind c \<noteq> blk_imp_col s then
        (if blk_imp_tab s \<noteq> 0 then None else Some (push_ind IND_MAP (blk_imp_col s) s))
      else Some s)"

definition MAY_PUSH_SPC_SEQ_IND :: "scan_ctx \<Rightarrow> Scanner \<Rightarrow> Scanner" where
  "MAY_PUSH_SPC_SEQ_IND c s = (if cur_ind_typ c = IND_MAP then push_ind IND_SEQ (bgn_col c) s else s)"

definition or_false :: "Scanner \<Rightarrow> Scanner option \<Rightarrow> (Scanner \<Rightarrow> bool \<times> Scanner) \<Rightarrow> part" where
  "or_false s r k = return (case r of None \<Rightarrow> (False, s) | Some s' \<Rightarrow> k s')"

text \<open>A token of one character.\<close>

definition one_char :: "nat \<Rightarrow> Scanner \<Rightarrow> part" where
  "one_char symb s = return (RET_SYM symb (mrk_end (adv s)))"

text \<open>The first loop: white space, line breaks and comments.\<close>

definition skip_comment :: "(nat \<Rightarrow> bool) \<Rightarrow> int \<Rightarrow> Scanner \<Rightarrow> part" where
  "skip_comment v ind s =
     (if v BR_BLK_STR_CTN \<and> v BL \<and> cur_col s \<le> ind then return (POP_IND_RET BL s)
      else if (if v BR_BLK_STR_CTN then cur_row s = scn_row s
               else cur_col s = 0 \<or> cur_row s \<noteq> scn_row s \<or> cur_col s > scn_col s)
      then return (RET_SYM COMMENT (mrk_end (adv_while (\<lambda>c. \<not> is_nwl c \<and> c \<noteq> 0) (adv s))))
      else (None, s))"

function skip_loop ::
  "(nat \<Rightarrow> bool) \<Rightarrow> bool \<Rightarrow> int \<Rightarrow> bool \<Rightarrow> int \<Rightarrow> Scanner \<Rightarrow> bool option \<times> bool \<times> int \<times> Scanner" where
  "skip_loop v allow_comment ind has_tab leading_spaces s =
     (if look s = ch CHR '' '' then
        skip_loop v allow_comment ind has_tab (if \<not> has_tab then i16 (leading_spaces + 1) else leading_spaces) (skp s)
      else if look s = 9 then skip_loop v allow_comment ind True leading_spaces (skp s)
      else if is_nwl (look s) then skip_loop v allow_comment ind False 0 (skp_nwl s)
      else if allow_comment \<and> look s = ch CHR ''#'' then
        (let (r, s) = skip_comment v ind s in (r, has_tab, leading_spaces, s))
      else (None, has_tab, leading_spaces, s))"
  by pat_completeness auto
termination
proof (relation "measure (\<lambda>(v, a, i, t, n, s). length (rest (lexer s)))", goal_cases)
  case (3 v a i t n s)
  then have "look s \<noteq> 0" by simp
  then show ?case by (simp add: length_tl_less la_nonzero)
next
  case (4 v a i t n s)
  then have "look s \<noteq> 0" by (auto simp: is_nwl_def)
  then show ?case by (simp add: length_tl_less la_nonzero)
qed (auto simp: length_tl_less dest!: la_ch_rest)

declare skip_loop.simps [simp del]

text \<open>The end of the input.\<close>

definition scan_eof :: "(nat \<Rightarrow> bool) \<Rightarrow> Scanner \<Rightarrow> bool \<times> Scanner" where
  "scan_eof v s =
     (if v BL then POP_IND_RET BL (mrk_end s)
      else if v END_OF_FILE then RET_SYM END_OF_FILE (mrk_end s)
      else (False, s))"

text \<open>A test of the form \<open>cond && scn_... ()\<close>, made when those before it have failed.\<close>

definition attempt :: "bool \<Rightarrow> (Scanner \<Rightarrow> bool \<times> Scanner) \<Rightarrow> bool \<times> Scanner \<Rightarrow> bool \<times> Scanner" where
  "attempt cond f r = (if \<not> fst r \<and> cond then f (snd r) else r)"

text \<open>Continuations of a directive, of a string, of an anchor or an alias.\<close>

definition scan_continued :: "scan_ctx \<Rightarrow> Scanner \<Rightarrow> part" where
  "scan_continued c s =
     (if valid c R_DIR_YML_VER \<and> on_r c then return (scn_dir_yml_ver R_DIR_YML_VER s)
      else if valid c R_DIR_TAG_HDL \<and> on_r c then return (scn_dir_tag_hdl R_DIR_TAG_HDL s)
      else if valid c R_DIR_TAG_PFX \<and> on_r c then return (scn_dir_tag_pfx R_DIR_TAG_PFX s)
      else if valid c R_DIR_RSV_PRM \<and> on_r c then return (scn_dir_rsv_prm R_DIR_RSV_PRM s)
      else
        (let (done, s) =
               attempt (valid c BR_SQT_STR_CTN \<and> on_br c) (scn_sqt_str_cnt BR_SQT_STR_CTN)
                (attempt (valid c R_SQT_STR_CTN \<and> on_r c) (scn_sqt_str_cnt R_SQT_STR_CTN)
                  (attempt (valid c BR_DQT_STR_CTN \<and> (on_br c \<or> has_nwl c)) (scn_dqt_str_cnt BR_DQT_STR_CTN)
                    (attempt (valid c R_DQT_STR_CTN \<and> on_r c) (scn_dqt_str_cnt R_DQT_STR_CTN)
                      (attempt (valid c BR_BLK_STR_CTN \<and> on_br c) (scn_blk_str_cnt BR_BLK_STR_CTN) (False, s)))))
         in if done then (Some True, s)
            else if valid c R_ACR_CTN \<and> on_r c then return (scn_acr_ctn R_ACR_CTN s)
            else if valid c R_ALS_CTN \<and> on_r c then return (scn_als_ctn R_ALS_CTN s)
            else (None, s)))"

text \<open>
  The branches of the conditional on the lookahead. Where a token has one symbol per position, the
  positions are tried in the order of the source.
\<close>

definition scan_properties ::
  "(nat \<Rightarrow> Scanner \<Rightarrow> bool \<times> Scanner) \<Rightarrow> nat \<Rightarrow> nat \<Rightarrow> nat \<Rightarrow> scan_ctx \<Rightarrow> Scanner \<Rightarrow> part" where
  "scan_properties f r br b c s =
     (if valid c r \<and> on_r c then return (f r (MAY_UPD_IMP_COL c s))
      else if valid c br \<and> on_br c then return (f br (MAY_UPD_IMP_COL c s))
      else if valid c b \<and> on_b c then return (f b (MAY_UPD_IMP_COL c s))
      else (None, s))"

definition scan_alias :: "scan_ctx \<Rightarrow> Scanner \<Rightarrow> part" where
  "scan_alias = scan_properties scn_als_bgn R_ALS_BGN BR_ALS_BGN B_ALS_BGN"

definition scan_anchor :: "scan_ctx \<Rightarrow> Scanner \<Rightarrow> part" where
  "scan_anchor = scan_properties scn_acr_bgn R_ACR_BGN BR_ACR_BGN B_ACR_BGN"

definition scan_tag :: "scan_ctx \<Rightarrow> Scanner \<Rightarrow> part" where
  "scan_tag = scan_properties scn_tag R_TAG BR_TAG B_TAG"

definition scan_directive :: "scan_ctx \<Rightarrow> Scanner \<Rightarrow> part" where
  "scan_directive c s = (if valid c S_DIR_YML_BGN \<and> on_s c then return (scn_dir_bgn s) else (None, s))"

definition scan_flow_begin :: "nat \<Rightarrow> nat \<Rightarrow> nat \<Rightarrow> scan_ctx \<Rightarrow> Scanner \<Rightarrow> part" where
  "scan_flow_begin r br b c s =
     (if valid c r \<and> on_r c then one_char r (MAY_UPD_IMP_COL c s)
      else if valid c br \<and> on_br c then one_char br (MAY_UPD_IMP_COL c s)
      else if valid c b \<and> on_b c then one_char b (MAY_UPD_IMP_COL c s)
      else (None, s))"

definition scan_seq_begin :: "scan_ctx \<Rightarrow> Scanner \<Rightarrow> part" where
  "scan_seq_begin = scan_flow_begin R_FLW_SEQ_BGN BR_FLW_SEQ_BGN B_FLW_SEQ_BGN"

definition scan_map_begin :: "scan_ctx \<Rightarrow> Scanner \<Rightarrow> part" where
  "scan_map_begin = scan_flow_begin R_FLW_MAP_BGN BR_FLW_MAP_BGN B_FLW_MAP_BGN"

definition scan_seq_end :: "scan_ctx \<Rightarrow> Scanner \<Rightarrow> part" where
  "scan_seq_end c s =
     (if valid c R_FLW_SEQ_END \<and> on_r c then one_char R_FLW_SEQ_END s
      else if valid c BR_FLW_SEQ_END \<and> on_br c then one_char BR_FLW_SEQ_END s
      else if valid c B_FLW_SEQ_END \<and> on_b c then one_char BR_FLW_SEQ_END s
      else (None, s))"

definition scan_map_end :: "scan_ctx \<Rightarrow> Scanner \<Rightarrow> part" where
  "scan_map_end c s =
     (if valid c R_FLW_MAP_END \<and> on_r c then one_char R_FLW_MAP_END s
      else if valid c BR_FLW_MAP_END \<and> on_br c then one_char BR_FLW_MAP_END s
      else if valid c B_FLW_MAP_END \<and> on_b c then one_char BR_FLW_MAP_END s
      else (None, s))"

definition scan_separator :: "scan_ctx \<Rightarrow> Scanner \<Rightarrow> part" where
  "scan_separator c s =
     (if valid c R_FLW_SEP_BGN \<and> on_r c then one_char R_FLW_SEP_BGN s
      else if valid c BR_FLW_SEP_BGN \<and> on_br c then one_char BR_FLW_SEP_BGN s
      else (None, s))"

definition scan_double_quote :: "scan_ctx \<Rightarrow> Scanner \<Rightarrow> part" where
  "scan_double_quote c s =
     (case scan_flow_begin R_DQT_STR_BGN BR_DQT_STR_BGN B_DQT_STR_BGN c s of
        (Some r, s) \<Rightarrow> (Some r, s)
      | (None, s) \<Rightarrow>
          if valid c R_DQT_STR_END \<and> on_r c then one_char R_DQT_STR_END s
          else if valid c BR_DQT_STR_END \<and> on_br c then one_char BR_DQT_STR_END s
          else (None, s))"

definition end_or_escape :: "nat \<Rightarrow> nat \<Rightarrow> Scanner \<Rightarrow> part" where
  "end_or_escape esc end_sym s =
     (let s = adv s
      in if look s = ch CHR 0x27 then one_char esc s else return (RET_SYM end_sym (mrk_end s)))"

definition scan_single_quote :: "scan_ctx \<Rightarrow> Scanner \<Rightarrow> part" where
  "scan_single_quote c s =
     (case scan_flow_begin R_SQT_STR_BGN BR_SQT_STR_BGN B_SQT_STR_BGN c s of
        (Some r, s) \<Rightarrow> (Some r, s)
      | (None, s) \<Rightarrow>
          if valid c R_SQT_STR_END \<and> on_r c then end_or_escape R_SQT_ESC_SQT R_SQT_STR_END s
          else if valid c BR_SQT_STR_END \<and> on_br c then end_or_escape BR_SQT_ESC_SQT BR_SQT_STR_END s
          else (None, s))"

definition scan_key :: "scan_ctx \<Rightarrow> Scanner \<Rightarrow> part" where
  "scan_key c s =
     (let r_blk = valid c R_BLK_KEY_BGN \<and> on_r c;
          br_blk = valid c BR_BLK_KEY_BGN \<and> on_br c;
          b_blk = valid c B_BLK_KEY_BGN \<and> on_b c;
          r_flw = valid c R_FLW_KEY_BGN \<and> on_r c;
          br_flw = valid c BR_FLW_KEY_BGN \<and> on_br c
      in if r_blk \<or> br_blk \<or> b_blk \<or> r_flw \<or> br_flw then
           (let s = adv s
            in if is_wht (look s) then
                 (let s = mrk_end s
                  in if r_blk then or_false s (PUSH_BGN_IND c IND_MAP s) (RET_SYM R_BLK_KEY_BGN)
                     else if br_blk then or_false s (PUSH_BGN_IND c IND_MAP s) (RET_SYM BR_BLK_KEY_BGN)
                     else if b_blk then return (RET_SYM B_BLK_KEY_BGN s)
                     else if r_flw then return (RET_SYM R_FLW_KEY_BGN s)
                     else return (RET_SYM BR_FLW_KEY_BGN s))
               else (None, s))
         else (None, s))"

definition scan_block_value :: "scan_ctx \<Rightarrow> Scanner \<Rightarrow> part" where
  "scan_block_value c s =
     (if valid c R_BLK_VAL_BGN \<and> on_r c
      then or_false s (PUSH_BGN_IND c IND_MAP s) (\<lambda>s. RET_SYM R_BLK_VAL_BGN (mrk_end s))
      else if valid c BR_BLK_VAL_BGN \<and> on_br c
      then or_false s (PUSH_BGN_IND c IND_MAP s) (\<lambda>s. RET_SYM BR_BLK_VAL_BGN (mrk_end s))
      else if valid c B_BLK_VAL_BGN \<and> on_b c then return (RET_SYM B_BLK_VAL_BGN (mrk_end s))
      else if valid c R_BLK_IMP_BGN \<and> on_r c
      then or_false s (MAY_PUSH_IMP_IND c s) (\<lambda>s. RET_SYM R_BLK_IMP_BGN (mrk_end s))
      else (None, s))"

definition scan_value :: "scan_ctx \<Rightarrow> Scanner \<Rightarrow> part" where
  "scan_value c s =
     (if valid c R_FLW_JSV_BGN \<and> on_r c then one_char R_FLW_JSV_BGN s
      else if valid c BR_FLW_JSV_BGN \<and> on_br c then one_char BR_FLW_JSV_BGN s
      else if valid c R_BLK_VAL_BGN \<and> on_r c \<or> valid c BR_BLK_VAL_BGN \<and> on_br c \<or>
              valid c B_BLK_VAL_BGN \<and> on_b c \<or> valid c R_BLK_IMP_BGN \<and> on_r c \<or>
              valid c R_FLW_NJV_BGN \<and> on_r c \<or> valid c BR_FLW_NJV_BGN \<and> on_br c
      then
        (let s = adv s;
             is_lka_wht = is_wht (look s)
         in case (if is_lka_wht then scan_block_value c s else (None, s)) of
              (Some r, s) \<Rightarrow> (Some r, s)
            | (None, s) \<Rightarrow>
                if is_lka_wht \<or> look s = ch CHR '','' \<or> look s = ch CHR '']'' \<or> look s = ch CHR ''}'' then
                  (if valid c R_FLW_NJV_BGN \<and> on_r c then return (RET_SYM R_FLW_NJV_BGN (mrk_end s))
                   else if valid c BR_FLW_NJV_BGN \<and> on_br c then return (RET_SYM BR_FLW_NJV_BGN (mrk_end s))
                   else (None, s))
                else (None, s))
      else (None, s))"

text \<open>The rest of \<open>---\<close> or \<open>...\<close> behind its first character.\<close>

definition scan_document_end :: "int \<Rightarrow> nat \<Rightarrow> scan_ctx \<Rightarrow> Scanner \<Rightarrow> part" where
  "scan_document_end delimiter symb c s =
     (if look s \<noteq> delimiter then (None, s) else
      let s = adv s in if look s \<noteq> delimiter then (None, s) else
      let s = adv s in if \<not> is_wht (look s) then (None, s) else
      if valid c BL then return (POP_IND_RET BL s) else return (RET_SYM symb (mrk_end s)))"

definition scan_dash :: "scan_ctx \<Rightarrow> Scanner \<Rightarrow> part" where
  "scan_dash c s =
     (let r_seq = valid c R_BLK_SEQ_BGN \<and> on_r c;
          br_seq = valid c BR_BLK_SEQ_BGN \<and> on_br c;
          b_seq = valid c B_BLK_SEQ_BGN \<and> on_b c
      in if r_seq \<or> br_seq \<or> b_seq \<or> on_s c then
           (let s = adv s
            in if is_wht (look s) then
                 (if r_seq then or_false s (PUSH_BGN_IND c IND_SEQ s) (\<lambda>s. RET_SYM R_BLK_SEQ_BGN (mrk_end s))
                  else if br_seq then or_false s (PUSH_BGN_IND c IND_SEQ s) (\<lambda>s. RET_SYM BR_BLK_SEQ_BGN (mrk_end s))
                  else if b_seq then return (RET_SYM B_BLK_SEQ_BGN (mrk_end (MAY_PUSH_SPC_SEQ_IND c s)))
                  else (None, s))
               else if on_s c then scan_document_end (ch CHR ''-'') S_DRS_END c s
               else (None, s))
         else (None, s))"

definition scan_dot :: "scan_ctx \<Rightarrow> Scanner \<Rightarrow> part" where
  "scan_dot c s =
     (if on_s c then scan_document_end (ch CHR ''.'') S_DOC_END c (adv s) else (None, s))"

definition scan_escape :: "scan_ctx \<Rightarrow> Scanner \<Rightarrow> part" where
  "scan_escape c s =
     (let r_nwl = valid c R_DQT_ESC_NWL \<and> on_r c;
          br_nwl = valid c BR_DQT_ESC_NWL \<and> on_br c;
          r_seq = valid c R_DQT_ESC_SEQ \<and> on_r c;
          br_seq = valid c BR_DQT_ESC_SEQ \<and> on_br c
      in if r_nwl \<or> br_nwl \<or> r_seq \<or> br_seq then
           (let s = adv s
            in if is_nwl (look s) \<and> r_nwl then return (RET_SYM R_DQT_ESC_NWL (mrk_end s))
               else if is_nwl (look s) \<and> br_nwl then return (RET_SYM BR_DQT_ESC_NWL (mrk_end s))
               else if r_seq then return (scn_dqt_esc_seq R_DQT_ESC_SEQ s)
               else if br_seq then return (scn_dqt_esc_seq BR_DQT_ESC_SEQ s)
               else (Some False, s))
         else (None, s))"

definition scan_block_scalar :: "nat \<Rightarrow> nat \<Rightarrow> scan_ctx \<Rightarrow> Scanner \<Rightarrow> part" where
  "scan_block_scalar r br c s =
     (if valid c r \<and> on_r c then return (scn_blk_str_bgn r s)
      else if valid c br \<and> on_br c then return (scn_blk_str_bgn br s)
      else (None, s))"

definition scan_indicator :: "scan_ctx \<Rightarrow> Scanner \<Rightarrow> part" where
  "scan_indicator c s =
     (if look s = ch CHR ''%'' then scan_directive c s
      else if look s = ch CHR ''*'' then scan_alias c s
      else if look s = ch CHR ''&'' then scan_anchor c s
      else if look s = ch CHR ''!'' then scan_tag c s
      else if look s = ch CHR ''['' then scan_seq_begin c s
      else if look s = ch CHR '']'' then scan_seq_end c s
      else if look s = ch CHR ''{'' then scan_map_begin c s
      else if look s = ch CHR ''}'' then scan_map_end c s
      else if look s = ch CHR '','' then scan_separator c s
      else if look s = ch CHR 0x22 then scan_double_quote c s
      else if look s = ch CHR 0x27 then scan_single_quote c s
      else if look s = ch CHR ''?'' then scan_key c s
      else if look s = ch CHR '':'' then scan_value c s
      else if look s = ch CHR ''-'' then scan_dash c s
      else if look s = ch CHR ''.'' then scan_dot c s
      else if look s = ch CHR 0x5C then scan_escape c s
      else if look s = ch CHR ''|'' then scan_block_scalar R_BLK_LIT_BGN BR_BLK_LIT_BGN c s
      else if look s = ch CHR ''>'' then scan_block_scalar R_BLK_FLD_BGN BR_BLK_FLD_BGN c s
      else (None, s))"

section \<open>Plain scalars\<close>

function skip_blank_lines :: "Scanner \<Rightarrow> Scanner" where
  "skip_blank_lines s =
     (if is_nwl (look s) then skip_blank_lines (adv_nwl s)
      else if is_wsp (look s) then skip_blank_lines (adv s)
      else s)"
  by pat_completeness auto
termination
proof (relation "measure (\<lambda>s. length (rest (lexer s)))", goal_cases)
  case (2 s)
  then have "look s \<noteq> 0" by (auto simp: is_nwl_def)
  then show ?case by (simp add: length_tl_less la_nonzero)
next
  case (3 s)
  then have "look s \<noteq> 0" by (auto simp: is_wsp_def)
  then show ?case by (simp add: length_tl_less la_nonzero)
qed simp

declare skip_blank_lines.simps [simp del]

lemma later_skip_blank_lines [scan_mono]:
  "later m (lexer s) \<Longrightarrow> later m (lexer (skip_blank_lines s))"
proof (induction s rule: skip_blank_lines.induct)
  case (1 s)
  then show ?case by (subst skip_blank_lines.simps) (simp add: scan_mono)
qed

lemma later_pln_cnt_loop [scan_mono]:
  "later m (lexer s) \<Longrightarrow> later m (lexer (snd (pln_cnt_loop b c s)))"
proof (induction b c s rule: pln_cnt_loop.induct)
  case (1 b c s)
  let ?next = "if is_plain_safe b (look s) \<and> look s \<noteq> ch CHR ''#'' \<and> look s \<noteq> ch CHR '':''
      then Some (upd_sch (mrk_end (adv s)))
      else if c \<and> look s = ch CHR ''#'' then Some (upd_sch (mrk_end (adv s)))
      else if is_wsp (look s) then Some (upd_sch (adv s))
      else if look s = ch CHR '':'' then Some (adv s) else None"
  show ?case
  proof (cases ?next)
    case None
    then show ?thesis using 1(3) by (simp add: pln_cnt_loop.simps [of b c s] Let_def)
  next
    case (Some s')
    then have "later m (lexer s')" using 1(3) by (auto simp: scan_mono split: if_splits)
    then show ?thesis
      using 1(1,2) [OF refl refl refl Some]
      unfolding pln_cnt_loop.simps [of b c s] Let_def Some by (simp add: scan_mono)
  qed
qed

lemma later_scn_pln_cnt [scan_mono]: "later m (lexer s) \<Longrightarrow> later m (lexer (snd (scn_pln_cnt b s)))"
  by (simp add: scn_pln_cnt_def scan_mono)

lemma later_scn_drs_doc_end [scan_mono]: "later m (lexer s) \<Longrightarrow> later m (lexer (snd (scn_drs_doc_end s)))"
  by (simp add: scn_drs_doc_end_def Let_def scan_mono)

function plain_loop :: "int \<Rightarrow> bool \<Rightarrow> Scanner \<Rightarrow> Scanner" where
  "plain_loop ind in_blk s =
     (let (status, s) = (if \<not> is_nwl (look s) then scn_pln_cnt in_blk s else (SCN_SUCC, s))
      in if status \<noteq> SCN_SUCC then s
         else if look s = 0 \<or> \<not> is_nwl (look s) then s
         else
           (let s = skip_blank_lines s
            in if look s = 0 \<or> cur_col s \<le> ind then s
               else
                 (let (doc_end, s) = (if cur_col s = 0 then scn_drs_doc_end s else (False, s))
                  in if doc_end then s else plain_loop ind in_blk s)))"
  by pat_completeness auto
termination
proof (relation "measure (\<lambda>(i, b, s). length (rest (lexer s)))", goal_cases)
  case (2 i b s x status s1 s2 y doc_end s3)
  have "s1 = snd (scn_pln_cnt b s) \<or> s1 = s" using 2(1,2) by (metis snd_conv)
  then have "later (lexer s) (lexer s1)" by (auto simp: scan_mono)
  moreover have s1: "look s1 \<noteq> 0" "is_nwl (look s1)" using 2 by auto
  moreover have "later (advance (lexer s1)) (lexer s3)"
  proof -
    have "skip_blank_lines s1 = skip_blank_lines (adv_nwl s1)"
      using s1 by (subst skip_blank_lines.simps) simp
    then have "later (advance (lexer s1)) (lexer s2)"
      using 2(5) later_skip_blank_lines [of "advance (lexer s1)" "adv_nwl s1"] by (simp add: scan_mono)
    moreover have "s3 = snd (scn_drs_doc_end s2) \<or> s3 = s2" using 2 by (metis snd_conv)
    then have "later (lexer s2) (lexer s3)" by (auto simp: scan_mono)
    ultimately show ?thesis by (rule later_trans)
  qed
  ultimately have "length (rest (lexer s3)) < length (rest (lexer s))"
    by (intro later_less [of "lexer s" "lexer s1"]) auto
  then show ?case by simp
qed simp

declare plain_loop.simps [simp del]

definition SGL_PLN_SYM :: "nat \<Rightarrow> nat \<Rightarrow> nat \<Rightarrow> nat \<Rightarrow> nat \<Rightarrow> Scanner \<Rightarrow> nat" where
  "SGL_PLN_SYM nul bol intg flt str s =
     (case rlt_sch s of RS_NULL \<Rightarrow> nul | RS_BOOL \<Rightarrow> bol | RS_INT \<Rightarrow> intg | RS_FLOAT \<Rightarrow> flt | _ \<Rightarrow> str)"

definition scan_plain :: "scan_ctx \<Rightarrow> bool \<Rightarrow> bool \<Rightarrow> bool \<Rightarrow> bool \<Rightarrow> Scanner \<Rightarrow> bool \<times> Scanner" where
  "scan_plain c sgl_blk sgl_flw mtl_blk mtl_flw s =
     (let in_blk = (sgl_blk \<or> mtl_blk);
          s = (if cur_col s - bgn_col c = 0 then adv s else s);
          first = (cur_col s - bgn_col c = 1);
          is_plain_first =
            (is_ns_char (bgn_chr c) \<and> \<not> is_c_indicator (bgn_chr c) \<or>
             bgn_chr c \<in> ch ` set ''-?:'' \<and> is_plain_safe in_blk (look s))
      in if first \<and> \<not> is_plain_first then (False, s)
         else
           (let s = (if first then upd_sch s else s\<lparr>sch_stt := SCH_STT_FRZ\<rparr>);
                s = plain_loop (cur_ind c) in_blk (mrk_end s)
            in if end_row s = bgn_row c then
                 (if sgl_blk then
                    (let s = MAY_UPD_IMP_COL c s
                     in RET_SYM
                          (if on_r c then
                             SGL_PLN_SYM R_SGL_PLN_NUL_BLK R_SGL_PLN_BOL_BLK R_SGL_PLN_INT_BLK
                               R_SGL_PLN_FLT_BLK R_SGL_PLN_STR_BLK s
                           else if on_br c then
                             SGL_PLN_SYM BR_SGL_PLN_NUL_BLK BR_SGL_PLN_BOL_BLK BR_SGL_PLN_INT_BLK
                               BR_SGL_PLN_FLT_BLK BR_SGL_PLN_STR_BLK s
                           else
                             SGL_PLN_SYM B_SGL_PLN_NUL_BLK B_SGL_PLN_BOL_BLK B_SGL_PLN_INT_BLK
                               B_SGL_PLN_FLT_BLK B_SGL_PLN_STR_BLK s) s)
                  else if sgl_flw then
                    RET_SYM
                      (if on_r c then
                         SGL_PLN_SYM R_SGL_PLN_NUL_FLW R_SGL_PLN_BOL_FLW R_SGL_PLN_INT_FLW
                           R_SGL_PLN_FLT_FLW R_SGL_PLN_STR_FLW s
                       else
                         SGL_PLN_SYM BR_SGL_PLN_NUL_FLW BR_SGL_PLN_BOL_FLW BR_SGL_PLN_INT_FLW
                           BR_SGL_PLN_FLT_FLW BR_SGL_PLN_STR_FLW s) s
                  else (False, s))
               else
                 (if mtl_blk then
                    RET_SYM (if on_r c then R_MTL_PLN_STR_BLK else BR_MTL_PLN_STR_BLK) (MAY_UPD_IMP_COL c s)
                  else if mtl_flw then
                    RET_SYM (if on_r c then R_MTL_PLN_STR_FLW else BR_MTL_PLN_STR_FLW) s
                  else (False, s))))"

section \<open>The scanner\<close>

text \<open>The part of \<open>scan\<close> behind the white space, when the block does not end here.\<close>

definition scan_token :: "scan_ctx \<Rightarrow> Scanner \<Rightarrow> bool \<times> Scanner" where
  "scan_token c s =
     (case scan_continued c s of
        (Some r, s) \<Rightarrow> (r, s)
      | (None, s) \<Rightarrow>
          (case scan_indicator c s of
             (Some r, s) \<Rightarrow> (r, s)
           | (None, s) \<Rightarrow>
               (let sgl_blk = (valid c R_SGL_PLN_STR_BLK \<and> on_r c \<or> valid c BR_SGL_PLN_STR_BLK \<and> on_br c \<or>
                               valid c B_SGL_PLN_STR_BLK \<and> on_b c);
                    sgl_flw = (valid c R_SGL_PLN_STR_FLW \<and> on_r c \<or> valid c BR_SGL_PLN_STR_FLW \<and> on_br c);
                    mtl_blk = (valid c R_MTL_PLN_STR_BLK \<and> on_r c \<or> valid c BR_MTL_PLN_STR_BLK \<and> on_br c);
                    mtl_flw = (valid c R_MTL_PLN_STR_FLW \<and> on_r c \<or> valid c BR_MTL_PLN_STR_FLW \<and> on_br c)
                in if sgl_blk \<or> sgl_flw \<or> mtl_blk \<or> mtl_flw
                   then scan_plain c sgl_blk sgl_flw mtl_blk mtl_flw s
                   else (\<not> valid c ERR_REC, s))))"

text \<open>Whether the block that is open ends in front of the next token.\<close>

definition ends_block :: "(nat \<Rightarrow> bool) \<Rightarrow> int \<Rightarrow> int \<Rightarrow> int \<Rightarrow> bool \<Rightarrow> Scanner \<Rightarrow> bool" where
  "ends_block v ind prt_ind ind_typ has_tab s \<longleftrightarrow>
     v BL \<and> cur_col s \<le> ind \<and> \<not> has_tab \<and>
     (if ind = prt_ind \<and> ind_typ = IND_SEQ then cur_col s < ind \<or> look s \<noteq> ch CHR ''-''
      else cur_col s \<le> prt_ind \<or> ind_typ = IND_STR)"

definition yaml_scan :: "Scanner \<Rightarrow> (nat \<Rightarrow> bool) \<Rightarrow> bool \<times> Scanner" where
  "yaml_scan s v =
     (let s = mrk_end (init s);
          allow_comment = (\<not> (v R_DQT_STR_CTN \<or> v BR_DQT_STR_CTN \<or> v R_SQT_STR_CTN \<or> v BR_SQT_STR_CTN));
          n = length (ind_len_stk s);
          ind = ind_len_stk s ! (n - 1);
          prt_ind = (if n = 1 then - 1 else ind_len_stk s ! (n - 2));
          ind_typ = last (ind_typ_stk s)
      in case skip_loop v allow_comment ind False 0 s of
           (Some r, _, _, s) \<Rightarrow> (r, s)
         | (None, has_tab, leading_spaces, s) \<Rightarrow>
             if look s = 0 then scan_eof v s
             else if ends_block v ind prt_ind ind_typ has_tab s then POP_IND_RET BL s
             else
               (let nwl = (cur_row s > scn_row s)
                in scan_token
                     \<lparr>valid = v, cur_ind = ind, cur_ind_typ = ind_typ, has_tab_ind = has_tab, has_nwl = nwl,
                      bgn_row = cur_row s, bgn_col = cur_col s, bgn_chr = look s, on_r = \<not> nwl,
                      on_br = (nwl \<and> leading_spaces > ind),
                      on_b = (nwl \<and> leading_spaces = ind \<and> \<not> has_tab),
                      on_s = (cur_col s = 0)\<rparr> s))"


end
