(* ===== verification/Yaml_Proofs.thy ===== *)
theory Yaml_Proofs
  imports Yaml_Scanner
begin

text \<open>
  The invariant of the YAML scanner and what one call of \<open>scan\<close> does to the stack of indentations,
  the serialization of the state between calls, and the type that a plain scalar is given.
\<close>

section \<open>The invariant\<close>

definition int16 :: "int \<Rightarrow> bool" where
  "int16 x \<longleftrightarrow> i16 x = x"

lemma int16_i16 [simp]: "int16 (i16 x)"
  by (simp add: int16_def)

lemma int16_iff: "int16 x \<longleftrightarrow> - 32768 \<le> x \<and> x < 32768"
  using i16_bounds [of x] i16_id [of x] by (auto simp: int16_def)

lemma int16_consts [simp]:
  "int16 0" "int16 1" "int16 (- 1)" "int16 IND_ROT" "int16 IND_MAP" "int16 IND_SEQ" "int16 IND_STR"
  "int16 (of_bool b)"
  by (auto simp: int16_iff IND_ROT_def IND_MAP_def IND_SEQ_def IND_STR_def ch_def)

text \<open>
  The two stacks have the same height and the root of the document at their bottom, every field fits
  its 16 bits, and the schema automaton is in a state of its table, so that it has not aborted.
\<close>

definition stacks_ok :: "int list \<Rightarrow> int list \<Rightarrow> bool" where
  "stacks_ok typs lens \<longleftrightarrow> length typs = length lens \<and> typs \<noteq> [] \<and> hd typs = IND_ROT \<and> hd lens = - 1 \<and>
     list_all int16 typs \<and> list_all int16 lens"

definition scanner_ok :: "Scanner \<Rightarrow> bool" where
  "scanner_ok s \<longleftrightarrow> stacks_ok (ind_typ_stk s) (ind_len_stk s) \<and>
     list_all int16 [scn_row s, scn_col s, blk_imp_row s, blk_imp_col s, blk_imp_tab s,
       end_row s, end_col s, cur_row s, cur_col s] \<and>
     \<not> aborted s \<and> (sch_stt s = SCH_STT_FRZ \<or> live core_rows (sch_stt s))"

text \<open>
  \<open>follows m s\<close>: the scanner has come from \<open>m\<close> to \<open>s\<close> by reading on, with the invariant kept and
  the stack and the result as they were. \<open>pushed m s\<close>: it has also entered a block.
\<close>

definition follows :: "Scanner \<Rightarrow> Scanner \<Rightarrow> bool" where
  "follows m s \<longleftrightarrow> later (lexer m) (lexer s) \<and> scanner_ok s \<and> ind_typ_stk s = ind_typ_stk m \<and>
     ind_len_stk s = ind_len_stk m \<and> result_sym (lexer s) = result_sym (lexer m)"

definition pushed :: "Scanner \<Rightarrow> Scanner \<Rightarrow> bool" where
  "pushed m s \<longleftrightarrow> later (lexer m) (lexer s) \<and> scanner_ok s \<and>
     (\<exists>t \<in> {IND_MAP, IND_SEQ, IND_STR}. \<exists>n. ind_typ_stk s = ind_typ_stk m @ [t] \<and> ind_len_stk s = ind_len_stk m @ [n])"

definition popped :: "Scanner \<Rightarrow> Scanner \<Rightarrow> bool" where
  "popped m s \<longleftrightarrow> later (lexer m) (lexer s) \<and> scanner_ok s \<and>
     (\<exists>t n. ind_typ_stk m = ind_typ_stk s @ [t] \<and> ind_len_stk m = ind_len_stk s @ [n])"

text \<open>What a call may return: \<open>BL\<close> exactly when a block has been left.\<close>

definition scanned :: "Scanner \<Rightarrow> bool \<times> Scanner \<Rightarrow> bool" where
  "scanned m r \<longleftrightarrow> (if \<not> fst r then follows m (snd r)
     else if result_sym (lexer (snd r)) = BL then popped m (snd r)
     else pushed m (snd r) \<or> follows m ((snd r)\<lparr>lexer := set_sym (result_sym (lexer m)) (lexer (snd r))\<rparr>))"

definition part_scanned :: "Scanner \<Rightarrow> part \<Rightarrow> bool" where
  "part_scanned m r \<longleftrightarrow> (case fst r of None \<Rightarrow> follows m (snd r) | Some b \<Rightarrow> scanned m (b, snd r))"

named_theorems yaml_scan

lemma stacks_ok_snoc [simp]:
  "stacks_ok typs lens \<Longrightarrow> int16 t \<Longrightarrow> int16 n \<Longrightarrow> stacks_ok (typs @ [t]) (lens @ [n])"
  by (cases lens) (auto simp: stacks_ok_def)

lemma stacks_ok_butlast:
  "stacks_ok typs lens \<Longrightarrow> length typs \<noteq> 1 \<Longrightarrow> stacks_ok (butlast typs) (butlast lens)"
  by (cases typs; cases lens) (auto simp: stacks_ok_def list_all_iff dest: in_set_butlastD)

text \<open>The automaton never aborts.\<close>

lemma core_live: "live core_rows q \<Longrightarrow> adv_sch_stt core_rows q c r = Some (q', r') \<Longrightarrow>
    q' = SCH_STT_FRZ \<or> live core_rows q'"
  "live core_rows q \<Longrightarrow> adv_sch_stt core_rows q c r \<noteq> None"
proof -
  assume q: "live core_rows q"
  then obtain init edges where row: "core_rows ! nat q = Row init edges" "q \<noteq> SCH_STT_FRZ"
    by (cases "core_rows ! nat q") (auto simp: live_def SCH_STT_FRZ_def)
  moreover have "row_ok core_rows 0 (core_rows ! nat q)"
    using core_table_ok(1) [of 0] q by (auto simp: table_ok_def list_all_length live_def scalar_end_def)
  ultimately show "adv_sch_stt core_rows q c r \<noteq> None"
    "adv_sch_stt core_rows q c r = Some (q', r') \<Longrightarrow> q' = SCH_STT_FRZ \<or> live core_rows q'"
    using find_edge_live [of core_rows 0 edges c] q
    by (auto simp: adv_sch_stt_def freeze_eq live_def Let_def split: option.splits)
qed

lemma adv_frozen: "adv_sch_stt tab SCH_STT_FRZ c r = Some (freeze c r)"
  by (simp add: adv_sch_stt_def)

lemma follows_upd_sch [yaml_scan]: "follows m s \<Longrightarrow> follows m (upd_sch s)"
proof -
  assume f: "follows m s"
  then have "sch_stt s = SCH_STT_FRZ \<or> live core_rows (sch_stt s)" by (simp add: follows_def scanner_ok_def)
  then obtain q r where q: "adv_sch_stt core_rows (sch_stt s) (cur_chr s) (rlt_sch s) = Some (q, r)"
    "q = SCH_STT_FRZ \<or> live core_rows q"
    using core_live [of "sch_stt s" "cur_chr s" "rlt_sch s"]
    by (metis adv_frozen freeze_eq not_None_eq surj_pair)
  then show ?thesis using f by (auto simp: upd_sch_def follows_def scanner_ok_def)
qed

lemma follows_refl [yaml_scan]: "scanner_ok s \<Longrightarrow> follows s s"
  by (simp add: follows_def)

lemma follows_ops [yaml_scan]:
  "follows m s \<Longrightarrow> follows m (adv s)" "follows m s \<Longrightarrow> follows m (adv_nwl s)" "follows m s \<Longrightarrow> follows m (skp s)"
  "follows m s \<Longrightarrow> follows m (skp_nwl s)" "follows m s \<Longrightarrow> follows m (mrk_end s)" "follows m s \<Longrightarrow> follows m (init s)"
  "follows m s \<Longrightarrow> follows m (flush s)" "follows m s \<Longrightarrow> follows m (s\<lparr>sch_stt := SCH_STT_FRZ\<rparr>)"
  using core_table_ok(2)
  by (auto simp: follows_def scanner_ok_def scan_mono adv_def adv_nwl_def skp_def skp_nwl_def mrk_end_def
      init_def flush_def)

lemma follows_set_sym: "follows m s \<Longrightarrow> follows m (s\<lparr>lexer := set_sym (result_sym (lexer m)) (lexer s)\<rparr>)"
  by (auto simp: follows_def scanner_ok_def scan_mono)

lemma scanned_False [yaml_scan]: "follows m s \<Longrightarrow> scanned m (False, s)"
  by (simp add: scanned_def)

lemma scanned_RET_SYM [yaml_scan]: "follows m s \<Longrightarrow> k \<noteq> BL \<Longrightarrow> scanned m (RET_SYM k s)"
  by (auto simp: scanned_def RET_SYM_def follows_def scanner_ok_def flush_def scan_mono)

lemma scanned_pushed [yaml_scan]: "pushed m s \<Longrightarrow> k \<noteq> BL \<Longrightarrow> scanned m (RET_SYM k s)"
  by (auto simp: scanned_def RET_SYM_def pushed_def scanner_ok_def flush_def scan_mono)

lemma pushed_ops [yaml_scan]:
  "follows m s \<Longrightarrow> t \<in> {IND_MAP, IND_SEQ, IND_STR} \<Longrightarrow> pushed m (push_ind t n s)"
  "pushed m s \<Longrightarrow> pushed m (mrk_end s)"
  by (auto simp: follows_def pushed_def scanner_ok_def push_ind_def mrk_end_def scan_mono)

lemma scanned_POP [yaml_scan]: "follows m s \<Longrightarrow> scanned m (POP_IND_RET BL s)"
proof (cases "length (ind_typ_stk s) = 1")
  case True
  then show "follows m s \<Longrightarrow> ?thesis" by (simp add: POP_IND_RET_def yaml_scan)
next
  case False
  assume f: "follows m s"
  then have ok: "stacks_ok (ind_typ_stk s) (ind_len_stk s)" by (auto simp: follows_def scanner_ok_def)
  then have "ind_typ_stk s \<noteq> []" "ind_len_stk s \<noteq> []" by (auto simp: stacks_ok_def)
  then have "\<exists>t. ind_typ_stk s = butlast (ind_typ_stk s) @ [t]" "\<exists>n. ind_len_stk s = butlast (ind_len_stk s) @ [n]"
    by (metis append_butlast_last_id)+
  then show ?thesis
    using f False stacks_ok_butlast [OF ok False]
    by (auto simp: POP_IND_RET_def scanned_def RET_SYM_def popped_def follows_def scanner_ok_def flush_def
        pop_ind_def scan_mono)
qed

section \<open>Every function keeps the invariant\<close>

lemma follows_adv_while [yaml_scan]: "follows m s \<Longrightarrow> follows m (adv_while p s)"
proof (induction p s rule: adv_while.induct)
  case (1 p s)
  then show ?case by (subst adv_while.simps) (simp add: yaml_scan)
qed

lemma follows_adv_count [yaml_scan]: "follows m s \<Longrightarrow> follows m (snd (adv_count p n s))"
proof (induction p n s rule: adv_count.induct)
  case (1 p n s)
  then show ?case by (subst adv_count.simps) (simp add: yaml_scan)
qed

lemma follows_uri [yaml_scan]:
  "follows m s \<Longrightarrow> follows m (snd (scn_uri_esc s))"
  "follows m s \<Longrightarrow> follows m (snd (scn_ns_uri_char s))" "follows m s \<Longrightarrow> follows m (snd (scn_ns_tag_char s))"
  by (simp_all add: scn_uri_esc_def scn_ns_uri_char_def scn_ns_tag_char_def Let_def yaml_scan)

lemma scanned_uri_char_loop [yaml_scan]: "follows m s \<Longrightarrow> k \<noteq> BL \<Longrightarrow> scanned m (uri_char_loop k s)"
proof (induction k s rule: uri_char_loop.induct)
  case (1 k s)
  moreover have "follows m (snd (scn_ns_uri_char s))" using 1 by (simp add: yaml_scan)
  ultimately show ?case
    by (subst uri_char_loop.simps) (cases "scn_ns_uri_char s", auto simp: yaml_scan split: ScanStatus.split)
qed

lemma scanned_tag_char_loop [yaml_scan]: "follows m s \<Longrightarrow> k \<noteq> BL \<Longrightarrow> scanned m (tag_char_loop k s)"
proof (induction k s rule: tag_char_loop.induct)
  case (1 k s)
  moreover have "follows m (snd (scn_ns_tag_char s))" using 1 by (simp add: yaml_scan)
  ultimately show ?case
    by (subst tag_char_loop.simps) (cases "scn_ns_tag_char s", auto simp: yaml_scan split: ScanStatus.split)
qed

lemma scanned_verbatim_tag_loop [yaml_scan]: "follows m s \<Longrightarrow> k \<noteq> BL \<Longrightarrow> scanned m (verbatim_tag_loop k s)"
proof (induction k s rule: verbatim_tag_loop.induct)
  case (1 k s)
  moreover have "follows m (snd (scn_ns_uri_char s))" using 1 by (simp add: yaml_scan)
  ultimately show ?case
    by (subst verbatim_tag_loop.simps) (cases "scn_ns_uri_char s", auto simp: yaml_scan split: ScanStatus.split)
qed

lemma scanned_dir_word:
  assumes "follows m s"
  shows "case fst (scn_dir_word s) of None \<Rightarrow> follows m (snd (scn_dir_word s)) | Some r \<Rightarrow> scanned m r"
proof -
  define P where "P r \<longleftrightarrow> (case fst r of None \<Rightarrow> follows m (snd r) | Some t \<Rightarrow> scanned m t)"
    for r :: "(bool \<times> Scanner) option \<times> Scanner"
  have [simp]: "P (None, s) \<longleftrightarrow> follows m s" "P (Some t, s) \<longleftrightarrow> scanned m t" for s t
    by (simp_all add: P_def)
  have "P (scn_dir_word s)"
    using assms by (simp add: scn_dir_word_def Let_def yaml_scan)
  then show ?thesis by (simp add: P_def)
qed

lemma scanned_dir_bgn [yaml_scan]: "follows m s \<Longrightarrow> scanned m (scn_dir_bgn s)"
  using scanned_dir_word [of m "adv s"]
  by (cases "scn_dir_word (adv s)") (auto simp: scn_dir_bgn_def Let_def yaml_scan split: option.splits)

lemma follows_tag_hdl_tal [yaml_scan]: "follows m s \<Longrightarrow> follows m (snd (scn_tag_hdl_tal s))"
  by (simp add: scn_tag_hdl_tal_def Let_def split_def yaml_scan)

lemma scanned_directives [yaml_scan]:
  assumes "follows m s" "k \<noteq> BL"
  shows "scanned m (scn_dir_yml_ver k s)" "scanned m (scn_dir_tag_hdl k s)" "scanned m (scn_dir_tag_pfx k s)"
    "scanned m (scn_dir_rsv_prm k s)"
  using assms
  by (simp_all add: scn_dir_yml_ver_def scn_dir_tag_hdl_def scn_dir_tag_pfx_def scn_dir_rsv_prm_def Let_def
      split_def yaml_scan)

lemma scanned_properties [yaml_scan]:
  assumes "follows m s" "k \<noteq> BL"
  shows "scanned m (scn_tag k s)" "scanned m (scn_acr_bgn k s)" "scanned m (scn_acr_ctn k s)"
    "scanned m (scn_als_bgn k s)" "scanned m (scn_als_ctn k s)"
  using assms
  by (simp_all add: scn_tag_def scn_acr_bgn_def scn_acr_ctn_def scn_als_bgn_def scn_als_ctn_def Let_def
      split_def yaml_scan)

lemma follows_adv_hex_digits [yaml_scan]: "follows m s \<Longrightarrow> follows m (snd (adv_hex_digits n s))"
  by (induction n s rule: adv_hex_digits.induct) (simp_all add: yaml_scan)

lemma scanned_dqt_esc_seq [yaml_scan]: "follows m s \<Longrightarrow> k \<noteq> BL \<Longrightarrow> scanned m (scn_dqt_esc_seq k s)"
  by (simp add: scn_dqt_esc_seq_def Let_def split_def yaml_scan del: One_nat_def)

lemma follows_drs_doc_end [yaml_scan]: "follows m s \<Longrightarrow> follows m (snd (scn_drs_doc_end s))"
  by (simp add: scn_drs_doc_end_def Let_def yaml_scan)

lemma scanned_str_cnt [yaml_scan]:
  assumes "follows m s" "k \<noteq> BL"
  shows "scanned m (scn_str_cnt p k s)" "scanned m (scn_dqt_str_cnt k s)" "scanned m (scn_sqt_str_cnt k s)"
proof -
  show *: "scanned m (scn_str_cnt p k s)" for p
    using assms by (simp add: scn_str_cnt_def Let_def split_def yaml_scan)
  show "scanned m (scn_dqt_str_cnt k s)" "scanned m (scn_sqt_str_cnt k s)"
    by (simp_all add: scn_dqt_str_cnt_def scn_sqt_str_cnt_def *)
qed

lemma follows_blk_str_indicators [yaml_scan]: "follows m s \<Longrightarrow> follows m (snd (blk_str_indicators s))"
  by (simp add: blk_str_indicators_def Let_def yaml_scan)

lemma follows_blk_str_ind_loop [yaml_scan]: "follows m s \<Longrightarrow> follows m (snd (blk_str_ind_loop i s))"
proof (induction i s rule: blk_str_ind_loop.induct)
  case (1 i s)
  then show ?case by (subst blk_str_ind_loop.simps) (simp add: yaml_scan)
qed

lemma scanned_blk_str_bgn [yaml_scan]: "follows m s \<Longrightarrow> k \<noteq> BL \<Longrightarrow> scanned m (scn_blk_str_bgn k s)"
  by (simp add: scn_blk_str_bgn_def Let_def split_def yaml_scan)

lemma follows_blk_str_cnt_loop [yaml_scan]: "follows m s \<Longrightarrow> follows m (blk_str_cnt_loop s)"
proof (induction s rule: blk_str_cnt_loop.induct)
  case (1 s)
  then show ?case by (subst blk_str_cnt_loop.simps) (simp add: Let_def yaml_scan)
qed

lemma scanned_blk_str_cnt [yaml_scan]: "follows m s \<Longrightarrow> k \<noteq> BL \<Longrightarrow> scanned m (scn_blk_str_cnt k s)"
  by (simp add: scn_blk_str_cnt_def Let_def split_def yaml_scan)

lemma follows_pln_cnt_loop [yaml_scan]: "follows m s \<Longrightarrow> follows m (snd (pln_cnt_loop b c s))"
proof (induction b c s rule: pln_cnt_loop.induct)
  case (1 b c s)
  let ?next = "if is_plain_safe b (look s) \<and> look s \<noteq> ch CHR ''#'' \<and> look s \<noteq> ch CHR '':''
      then Some (upd_sch (mrk_end (adv s)))
      else if c \<and> look s = ch CHR ''#'' then Some (upd_sch (mrk_end (adv s)))
      else if is_wsp (look s) then Some (upd_sch (adv s))
      else if look s = ch CHR '':'' then Some (adv s) else None"
  show ?case
  proof (cases ?next)
    case None
    then show ?thesis using 1(3) by (simp add: pln_cnt_loop.simps [of b c s] Let_def)
  next
    case (Some s')
    then have "follows m s'" using 1(3) by (auto simp: yaml_scan split: if_splits)
    then show ?thesis
      using 1(1,2) [OF refl refl refl Some]
      unfolding pln_cnt_loop.simps [of b c s] Let_def Some by (simp add: yaml_scan)
  qed
qed

lemma follows_pln_cnt [yaml_scan]: "follows m s \<Longrightarrow> follows m (snd (scn_pln_cnt b s))"
  by (simp add: scn_pln_cnt_def yaml_scan)

lemma follows_skip_blank_lines [yaml_scan]: "follows m s \<Longrightarrow> follows m (skip_blank_lines s)"
proof (induction s rule: skip_blank_lines.induct)
  case (1 s)
  then show ?case by (subst skip_blank_lines.simps) (simp add: yaml_scan)
qed

lemma follows_plain_loop [yaml_scan]: "follows m s \<Longrightarrow> follows m (plain_loop i b s)"
proof (induction i b s rule: plain_loop.induct)
  case (1 i b s)
  obtain st s1 where p: "(if \<not> is_nwl (look s) then scn_pln_cnt b s else (SCN_SUCC, s)) = (st, s1)"
    by (metis surj_pair)
  then have f1: "follows m s1" using 1(2) follows_pln_cnt [of m s b] by (auto split: if_splits)
  define s2 where "s2 = skip_blank_lines s1"
  have f2: "follows m s2" using f1 by (simp add: s2_def yaml_scan)
  obtain d s3 where q: "(if cur_col s2 = 0 then scn_drs_doc_end s2 else (False, s2)) = (d, s3)"
    by (metis surj_pair)
  then have f3: "follows m s3" using f2 follows_drs_doc_end [of m s2] by (auto split: if_splits)
  show ?case
    using 1(1) [OF p [symmetric] refl _ _ s2_def _ q [symmetric] refl] f1 f2 f3
    unfolding plain_loop.simps [of i b s] p Let_def prod.case s2_def [symmetric] q by auto
qed

section \<open>Every branch of the main function\<close>

definition ctx_ok :: "scan_ctx \<Rightarrow> bool" where
  "ctx_ok c \<longleftrightarrow> int16 (bgn_row c) \<and> int16 (bgn_col c)"

lemma part_None [yaml_scan]: "part_scanned m (None, s) \<longleftrightarrow> follows m s"
  by (simp add: part_scanned_def)

lemma part_Some [yaml_scan]: "part_scanned m (Some b, s) \<longleftrightarrow> scanned m (b, s)"
  by (simp add: part_scanned_def)

lemma part_return [yaml_scan]: "part_scanned m (return r) \<longleftrightarrow> scanned m r"
  by (simp add: part_scanned_def return_def)

lemma follows_MAY_UPD_IMP_COL [yaml_scan]: "follows m s \<Longrightarrow> ctx_ok c \<Longrightarrow> follows m (MAY_UPD_IMP_COL c s)"
  by (auto simp: MAY_UPD_IMP_COL_def follows_def scanner_ok_def ctx_ok_def)

lemma part_one_char [yaml_scan]: "follows m s \<Longrightarrow> k \<noteq> BL \<Longrightarrow> part_scanned m (one_char k s)"
  by (simp add: one_char_def yaml_scan)

text \<open>A push that may be refused, and what is done behind it.\<close>

lemma part_PUSH_BGN_IND [yaml_scan]:
  assumes "follows m s" "t \<in> {IND_MAP, IND_SEQ}" "\<And>s'. pushed m s' \<Longrightarrow> scanned m (k s')"
  shows "part_scanned m (or_false s (PUSH_BGN_IND c t s) k)"
  using assms by (auto simp: or_false_def PUSH_BGN_IND_def yaml_scan)

lemma part_MAY_PUSH_IMP_IND [yaml_scan]:
  assumes "follows m s" "\<And>s'. pushed m s' \<Longrightarrow> scanned m (k s')" "\<And>s'. follows m s' \<Longrightarrow> scanned m (k s')"
  shows "part_scanned m (or_false s (MAY_PUSH_IMP_IND c s) k)"
  using assms by (auto simp: or_false_def MAY_PUSH_IMP_IND_def yaml_scan)

lemma scanned_MAY_PUSH_SPC_SEQ_IND [yaml_scan]:
  "follows m s \<Longrightarrow> k \<noteq> BL \<Longrightarrow> scanned m (RET_SYM k (mrk_end (MAY_PUSH_SPC_SEQ_IND c s)))"
  by (simp add: MAY_PUSH_SPC_SEQ_IND_def yaml_scan)

lemma part_skip_comment [yaml_scan]: "follows m s \<Longrightarrow> part_scanned m (skip_comment v i s)"
  by (simp add: skip_comment_def yaml_scan)

lemma follows_skip_loop:
  "follows m s \<Longrightarrow> part_scanned m (fst (skip_loop v a i t n s), snd (snd (snd (skip_loop v a i t n s))))"
proof (induction v a i t n s rule: skip_loop.induct)
  case (1 v a i t n s)
  have "part_scanned m (skip_comment v i s)" using 1(4) by (rule part_skip_comment)
  then show ?case
    using 1 by (subst (1 2) skip_loop.simps) (simp add: split_def Let_def yaml_scan)
qed

lemma scanned_attempt [yaml_scan]:
  assumes "scanned m r" "\<And>s. follows m s \<Longrightarrow> scanned m (f s)"
  shows "scanned m (attempt c f r)"
  using assms by (auto simp: attempt_def scanned_def)

lemma part_continued [yaml_scan]:
  assumes "follows m s"
  shows "part_scanned m (scan_continued c s)"
proof -
  let ?r = "attempt (valid c BR_SQT_STR_CTN \<and> on_br c) (scn_sqt_str_cnt BR_SQT_STR_CTN)
      (attempt (valid c R_SQT_STR_CTN \<and> on_r c) (scn_sqt_str_cnt R_SQT_STR_CTN)
        (attempt (valid c BR_DQT_STR_CTN \<and> (on_br c \<or> has_nwl c)) (scn_dqt_str_cnt BR_DQT_STR_CTN)
          (attempt (valid c R_DQT_STR_CTN \<and> on_r c) (scn_dqt_str_cnt R_DQT_STR_CTN)
            (attempt (valid c BR_BLK_STR_CTN \<and> on_br c) (scn_blk_str_cnt BR_BLK_STR_CTN) (False, s)))))"
  obtain b s' where r: "?r = (b, s')" by (metis surj_pair)
  have b: "scanned m (b, s')"
    unfolding r [symmetric] using assms by (intro scanned_attempt yaml_scan) simp_all
  then have "\<not> b \<Longrightarrow> follows m s'" by (simp add: scanned_def)
  with b assms show ?thesis
    unfolding scan_continued_def r Let_def prod.case by (cases b) (simp_all add: yaml_scan)
qed

lemma part_properties [yaml_scan]:
  assumes "follows m s" "ctx_ok c"
  shows "part_scanned m (scan_alias c s)" "part_scanned m (scan_anchor c s)" "part_scanned m (scan_tag c s)"
    "part_scanned m (scan_directive c s)"
  using assms
  by (simp_all add: scan_alias_def scan_anchor_def scan_tag_def scan_directive_def scan_properties_def yaml_scan)

lemma part_flow_begin [yaml_scan]:
  assumes "follows m s" "ctx_ok c" "r \<noteq> BL" "br \<noteq> BL" "b \<noteq> BL"
  shows "part_scanned m (scan_flow_begin r br b c s)"
  using assms by (simp add: scan_flow_begin_def yaml_scan)

lemma part_flow [yaml_scan]:
  assumes "follows m s" "ctx_ok c"
  shows "part_scanned m (scan_seq_begin c s)" "part_scanned m (scan_map_begin c s)"
    "part_scanned m (scan_seq_end c s)" "part_scanned m (scan_map_end c s)" "part_scanned m (scan_separator c s)"
  using assms
  by (simp_all add: scan_seq_begin_def scan_map_begin_def scan_seq_end_def scan_map_end_def scan_separator_def
      yaml_scan)

lemma part_if: "(b \<Longrightarrow> part_scanned m x) \<Longrightarrow> (\<not> b \<Longrightarrow> part_scanned m y) \<Longrightarrow> part_scanned m (if b then x else y)"
  by simp

text \<open>Going on behind a part that did not return.\<close>

lemma part_then [yaml_scan]:
  assumes "part_scanned m p" "\<And>s. follows m s \<Longrightarrow> part_scanned m (k s)"
  shows "part_scanned m (case p of (Some r, s) \<Rightarrow> (Some r, s) | (None, s) \<Rightarrow> k s)"
  using assms(1) assms(2) [of "snd p"] by (cases p) (auto simp: part_scanned_def split: option.splits)

lemma part_quotes [yaml_scan]:
  assumes "follows m s" "ctx_ok c"
  shows "part_scanned m (scan_double_quote c s)" "part_scanned m (scan_single_quote c s)"
  unfolding scan_double_quote_def scan_single_quote_def
  by (rule part_then; simp add: assms yaml_scan end_or_escape_def Let_def)+

lemma part_key [yaml_scan]: "follows m s \<Longrightarrow> part_scanned m (scan_key c s)"
  by (simp add: scan_key_def Let_def yaml_scan)

lemma part_block_value [yaml_scan]: "follows m s \<Longrightarrow> part_scanned m (scan_block_value c s)"
  by (simp add: scan_block_value_def yaml_scan)

lemma part_value [yaml_scan]: "follows m s \<Longrightarrow> part_scanned m (scan_value c s)"
proof -
  assume f: "follows m s"
  have "part_scanned m (if w then scan_block_value c s else (None, s))" if "follows m s" for w s
    using that by (simp add: yaml_scan)
  note val = part_then [OF this]
  show ?thesis
    unfolding scan_value_def Let_def using f
    by (intro part_if val) (simp_all add: yaml_scan)
qed

lemma part_document_end [yaml_scan]:
  "follows m s \<Longrightarrow> k \<noteq> BL \<Longrightarrow> part_scanned m (scan_document_end d k c s)"
  by (simp add: scan_document_end_def Let_def yaml_scan)

lemma part_dash_dot [yaml_scan]:
  assumes "follows m s"
  shows "part_scanned m (scan_dash c s)" "part_scanned m (scan_dot c s)"
  using assms by (simp_all add: scan_dash_def scan_dot_def Let_def yaml_scan)

lemma part_escape [yaml_scan]:
  assumes "follows m s"
  shows "part_scanned m (scan_escape c s)"
    "r \<noteq> BL \<Longrightarrow> br \<noteq> BL \<Longrightarrow> part_scanned m (scan_block_scalar r br c s)"
  using assms by (simp_all add: scan_escape_def scan_block_scalar_def Let_def yaml_scan)

lemma part_indicator [yaml_scan]: "follows m s \<Longrightarrow> ctx_ok c \<Longrightarrow> part_scanned m (scan_indicator c s)"
  unfolding scan_indicator_def by (simp add: yaml_scan)

lemma scanned_plain [yaml_scan]:
  assumes f: "follows m s" and c: "ctx_ok c"
  shows "scanned m (scan_plain c sb sf mb mf s)"
proof -
  let ?s1 = "if cur_col s - bgn_col c = 0 then adv s else s"
  let ?s2 = "if cur_col ?s1 - bgn_col c = 1 then upd_sch ?s1 else ?s1\<lparr>sch_stt := SCH_STT_FRZ\<rparr>"
  define s3 where "s3 = plain_loop (cur_ind c) (sb \<or> mb) (mrk_end ?s2)"
  have f1: "follows m ?s1" and f3: "follows m s3" using f by (simp_all add: s3_def yaml_scan)
  have sym_ok: "SGL_PLN_SYM n b i f t u \<noteq> BL" if "n \<noteq> BL" "b \<noteq> BL" "i \<noteq> BL" "f \<noteq> BL" "t \<noteq> BL" for n b i f t u
    using that by (simp add: SGL_PLN_SYM_def split: ResultSchema.split)
  show ?thesis
    unfolding scan_plain_def Let_def s3_def [symmetric]
    by (simp add: f f1 f3 c sym_ok yaml_scan)
qed

lemma scanned_token [yaml_scan]:
  assumes "follows m s" "ctx_ok c" "result_sym (lexer m) \<noteq> BL"
  shows "scanned m (scan_token c s)"
proof -
  obtain r s1 where p: "scan_continued c s = (r, s1)" by (metis surj_pair)
  then have p1: "part_scanned m (r, s1)" using part_continued [OF assms(1), of c] by simp
  obtain r2 s2 where q: "scan_indicator c s1 = (r2, s2)" by (metis surj_pair)
  have stop: "scanned m (b, u)" if "follows m u" for b u
    using that assms(3) follows_set_sym [OF that] by (cases b) (auto simp: scanned_def follows_def)
  show ?thesis
  proof (cases r)
    case None
    then have "part_scanned m (r2, s2)"
      using p1 q part_indicator [of m s1 c] assms(2) by (simp add: yaml_scan)
    then show ?thesis
      unfolding scan_token_def p q None prod.case option.case Let_def using assms(2) stop
      by (cases r2) (simp_all add: yaml_scan)
  next
    case (Some b)
    then show ?thesis using p1 by (simp add: scan_token_def p yaml_scan)
  qed
qed

lemma scanned_eof [yaml_scan]: "follows m s \<Longrightarrow> scanned m (scan_eof v s)"
  by (simp add: scan_eof_def yaml_scan)

lemma follows_bgn: "follows m s \<Longrightarrow> int16 (cur_row s) \<and> int16 (cur_col s)"
  by (simp add: follows_def scanner_ok_def)

lemma scanned_yaml_scan:
  assumes "scanner_ok s" "result_sym (lexer s) \<noteq> BL"
  shows "scanned s (yaml_scan s v)"
proof -
  let ?s = "mrk_end (init s)"
  have start: "follows s ?s" using assms(1) by (simp add: yaml_scan)
  obtain r t n s' where p: "skip_loop v
      (\<not> (v R_DQT_STR_CTN \<or> v BR_DQT_STR_CTN \<or> v R_SQT_STR_CTN \<or> v BR_SQT_STR_CTN))
      (ind_len_stk ?s ! (length (ind_len_stk ?s) - 1)) False 0 ?s = (r, t, n, s')"
    by (metis surj_pair)
  then have part: "part_scanned s (r, s')"
    using follows_skip_loop [OF start, of v _ _ False 0] by (metis fst_conv snd_conv)
  show ?thesis
  proof (cases r)
    case None
    with part have f: "follows s s'" by (simp add: yaml_scan)
    then show ?thesis
      unfolding yaml_scan_def Let_def p None prod.case option.case
      using follows_bgn [OF f] assms(2) by (simp add: yaml_scan ctx_ok_def)
  next
    case (Some b)
    with part show ?thesis unfolding yaml_scan_def Let_def p by (simp add: yaml_scan)
  qed
qed

end
