(* ===== verification/Yaml_State.thy ===== *)
theory Yaml_State
  imports Yaml_Proofs External_Scanner
begin

text \<open>
  The state of the YAML scanner between calls: \<open>serialize\<close>, \<open>deserialize\<close> and \<open>create\<close> of
  \<open>yaml/src/scanner.c\<close>, which store an \<open>int16_t\<close> through a pointer into the byte buffer, on a
  little-endian machine the low byte first.
\<close>

section \<open>Serialization\<close>

definition put16 :: "int \<Rightarrow> u8 list" where
  "put16 x = [word_of_int x, word_of_int (x div 256)]"

definition get16 :: "u8 list \<Rightarrow> nat \<Rightarrow> int" where
  "get16 buffer sz = i16 (uint (buffer ! sz) + 256 * uint (buffer ! (sz + 1)))"

text \<open>The loop over the stacks; \<open>size\<close> is the number of bytes written so far.\<close>

fun serialize_loop :: "nat \<Rightarrow> int list \<Rightarrow> int list \<Rightarrow> u8 list" where
  "serialize_loop sz (typ # typs) (len # lens) =
     (if sz < TREE_SITTER_SERIALIZATION_BUFFER_SIZE
      then put16 typ @ put16 len @ serialize_loop (sz + 4) typs lens else [])"
| "serialize_loop sz _ _ = []"

definition serialize :: "Scanner \<Rightarrow> u8 list" where
  "serialize s =
     (let header = put16 (scn_row s) @ put16 (scn_col s) @ put16 (blk_imp_row s) @ put16 (blk_imp_col s) @
            put16 (blk_imp_tab s)
      in header @ serialize_loop (length header) (tl (ind_typ_stk s)) (tl (ind_len_stk s)))"

text \<open>The \<open>while\<close> loop of \<open>deserialize\<close>, with the final value of \<open>size\<close>.\<close>

function deserialize_loop :: "u8 list \<Rightarrow> nat \<Rightarrow> Scanner \<Rightarrow> nat \<times> Scanner" where
  "deserialize_loop buffer sz s =
     (if sz < length buffer then
        deserialize_loop buffer (sz + 4)
          (s\<lparr>ind_typ_stk := ind_typ_stk s @ [get16 buffer sz],
             ind_len_stk := ind_len_stk s @ [get16 buffer (sz + 2)]\<rparr>)
      else (sz, s))"
  by auto
termination by (relation "measure (\<lambda>(b, sz, s). length b - sz)") auto

declare deserialize_loop.simps [simp del]

text \<open>\<open>None\<close> where the assertion at the end fails.\<close>

definition deserialize :: "Scanner \<Rightarrow> u8 list \<Rightarrow> Scanner option" where
  "deserialize s buffer =
     (let s = s\<lparr>scn_row := 0, scn_col := 0, blk_imp_row := - 1, blk_imp_col := - 1, blk_imp_tab := 0,
                ind_typ_stk := [IND_ROT], ind_len_stk := [- 1]\<rparr>
      in if 0 < length buffer then
           (let s = s\<lparr>scn_row := get16 buffer 0, scn_col := get16 buffer 2, blk_imp_row := get16 buffer 4,
                      blk_imp_col := get16 buffer 6, blk_imp_tab := get16 buffer 8\<rparr>;
                (sz, s) = deserialize_loop buffer 10 s
            in if sz = length buffer then Some s else None)
         else Some s)"

text \<open>\<open>create\<close> clears the object and restores the state of an empty buffer.\<close>

definition zeroed :: "nat TSLexer \<Rightarrow> Scanner" where
  "zeroed l = \<lparr>scn_row = 0, scn_col = 0, blk_imp_row = 0, blk_imp_col = 0, blk_imp_tab = 0,
     ind_typ_stk = [], ind_len_stk = [], end_row = 0, end_col = 0, cur_row = 0, cur_col = 0, cur_chr = 0,
     sch_stt = 0, rlt_sch = RS_STR, aborted = False, lexer = l\<rparr>"

definition create :: "nat TSLexer \<Rightarrow> Scanner option" where
  "create l = deserialize (zeroed l) []"

section \<open>The round trip\<close>

lemma uint_u8_mod: "uint (word_of_int x :: u8) = x mod 256"
  by (simp add: uint_word_of_int)

lemma get16_put16: "int16 x \<Longrightarrow> i16 (x mod 256 + 256 * (x div 256 mod 256)) = x"
proof -
  assume "int16 x"
  then have "- 32768 \<le> x" "x < 32768" by (simp_all add: int16_iff)
  moreover have "x mod 256 + 256 * (x div 256 mod 256) = x mod 65536"
    using mod_mult2_eq' [of x 256 256] by simp
  ultimately show ?thesis by (simp add: i16_def mod_simps)
qed

lemma length_put16 [simp]: "length (put16 x) = 2"
  by (simp add: put16_def)

lemma get16_skip: "length a \<le> n \<Longrightarrow> get16 (a @ b) n = get16 b (n - length a)"
  by (simp add: get16_def nth_append Suc_diff_le)

lemma get16_append:
  "int16 x \<Longrightarrow> get16 (put16 x @ b) 0 = x"
  "2 \<le> n \<Longrightarrow> get16 (put16 x @ b) n = get16 b (n - 2)"
  by (simp add: get16_def put16_def uint_u8_mod get16_put16) (simp add: get16_skip)

lemma serialize_loop_length:
  "length typs = length lens \<Longrightarrow> sz mod 4 = 2 \<Longrightarrow> sz \<le> 1026 \<Longrightarrow>
     length (serialize_loop sz typs lens) = 4 * min (length typs) ((1026 - sz) div 4)"
proof (induction sz typs lens rule: serialize_loop.induct)
  case (1 sz t typs n lens)
  from 1(3) obtain k where k: "sz = 2 + 4 * k" by (metis add.commute mult_div_mod_eq)
  with 1(4) have "k \<le> 256" by simp
  then have "1026 - sz = 4 * (256 - k)" "1026 - (sz + 4) = 4 * (255 - k)" using k by simp_all
  then have "sz < 1024 \<Longrightarrow> (1026 - sz) div 4 = Suc ((1026 - (sz + 4)) div 4)" using k by simp
  moreover have "\<not> sz < 1024 \<Longrightarrow> sz = 1026" using k \<open>k \<le> 256\<close> by simp
  ultimately show ?case
    using 1 by (auto simp: TREE_SITTER_SERIALIZATION_BUFFER_SIZE_def mod_simps)
qed auto

lemma deserialize_loop_serialized:
  assumes "list_all int16 typs" "list_all int16 lens" "length typs = length lens"
    and "length a + 4 * length typs \<le> 1022 + 2" "b = serialize_loop (length a) typs lens"
  shows "deserialize_loop (a @ b) (length a) s =
    (length (a @ b), s\<lparr>ind_typ_stk := ind_typ_stk s @ typs, ind_len_stk := ind_len_stk s @ lens\<rparr>)"
  using assms
proof (induction typs arbitrary: lens a b s)
  case Nil
  then show ?case by (simp add: deserialize_loop.simps)
next
  case (Cons t typs)
  then obtain n lens' where lens: "lens = n # lens'" by (cases lens) auto
  let ?a = "a @ put16 t @ put16 n"
  let ?b = "serialize_loop (length ?a) typs lens'"
  let ?s = "s\<lparr>ind_typ_stk := ind_typ_stk s @ [t], ind_len_stk := ind_len_stk s @ [n]\<rparr>"
  have b: "a @ b = ?a @ ?b" using Cons.prems lens by (simp add: TREE_SITTER_SERIALIZATION_BUFFER_SIZE_def)
  have get: "get16 (a @ b) (length a) = t" "get16 (a @ b) (Suc (Suc (length a))) = n"
    unfolding b using Cons.prems lens by (simp_all add: get16_skip get16_append)
  have "deserialize_loop (?a @ ?b) (length ?a) ?s = (length (?a @ ?b),
      ?s\<lparr>ind_typ_stk := ind_typ_stk ?s @ typs, ind_len_stk := ind_len_stk ?s @ lens'\<rparr>)"
    using Cons.prems lens by (intro Cons.IH) auto
  moreover have "length a < length (a @ b)" by (subst b) simp
  ultimately show ?case
    unfolding deserialize_loop.simps [of "a @ b" "length a"] using get lens by (simp add: b)
qed

text \<open>The fields that are stored, put into the object \<open>r\<close>.\<close>

definition restored :: "Scanner \<Rightarrow> Scanner \<Rightarrow> Scanner" where
  "restored r s = r\<lparr>scn_row := scn_row s, scn_col := scn_col s, blk_imp_row := blk_imp_row s,
     blk_imp_col := blk_imp_col s, blk_imp_tab := blk_imp_tab s, ind_typ_stk := ind_typ_stk s,
     ind_len_stk := ind_len_stk s\<rparr>"

lemma deserialize_serialize:
  assumes "scanner_ok s" "length (ind_typ_stk s) \<le> 254"
  shows "deserialize r (serialize s) = Some (restored r s)"
proof -
  let ?h = "put16 (scn_row s) @ put16 (scn_col s) @ put16 (blk_imp_row s) @ put16 (blk_imp_col s) @ put16 (blk_imp_tab s)"
  let ?b = "serialize_loop (length ?h) (tl (ind_typ_stk s)) (tl (ind_len_stk s))"
  have ser: "serialize s = ?h @ ?b" by (simp add: serialize_def)
  have ok: "ind_typ_stk s = IND_ROT # tl (ind_typ_stk s)" "ind_len_stk s = - 1 # tl (ind_len_stk s)"
    "length (tl (ind_typ_stk s)) = length (tl (ind_len_stk s))" "length (tl (ind_typ_stk s)) \<le> 253"
    "list_all int16 (tl (ind_typ_stk s))" "list_all int16 (tl (ind_len_stk s))"
    using assms by (cases "ind_typ_stk s"; cases "ind_len_stk s"; simp add: scanner_ok_def stacks_ok_def)+
  have f: "int16 (scn_row s)" "int16 (scn_col s)" "int16 (blk_imp_row s)" "int16 (blk_imp_col s)" "int16 (blk_imp_tab s)"
    using assms(1) by (simp_all add: scanner_ok_def)
  have get: "get16 (?h @ ?b) 0 = scn_row s" "get16 (?h @ ?b) 2 = scn_col s" "get16 (?h @ ?b) 4 = blk_imp_row s"
    "get16 (?h @ ?b) 6 = blk_imp_col s" "get16 (?h @ ?b) 8 = blk_imp_tab s"
    using f by (simp_all add: get16_append)
  have loop: "deserialize_loop (?h @ ?b) 10 u =
      (length (?h @ ?b), u\<lparr>ind_typ_stk := ind_typ_stk u @ tl (ind_typ_stk s),
         ind_len_stk := ind_len_stk u @ tl (ind_len_stk s)\<rparr>)" for u
    using deserialize_loop_serialized [OF ok(5,6,3), of ?h ?b u] ok(4) by simp
  show ?thesis
    unfolding ser deserialize_def Let_def get loop prod.case
    using ok(1,2) by (simp add: restored_def)
qed

lemma serialize_length:
  assumes "scanner_ok s"
  shows "length (serialize s) = 10 + 4 * min (length (ind_typ_stk s) - 1) 254"
  using assms serialize_loop_length [of "tl (ind_typ_stk s)" "tl (ind_len_stk s)" 10]
  by (simp add: serialize_def scanner_ok_def stacks_ok_def)

section \<open>The scanner as the parser calls it\<close>

text \<open>
  One call: the parser hands in its lexer, on which \<open>ts_lexer_start\<close> has cleared the result, and the
  symbols that are valid.
\<close>

definition yaml_call :: "nat TSLexer \<times> (nat \<Rightarrow> bool) \<Rightarrow> Scanner \<Rightarrow> bool \<times> Scanner" where
  "yaml_call i s = yaml_scan (s\<lparr>lexer := set_sym 0 (fst i)\<rparr>) (snd i)"

definition yaml_created :: Scanner where
  "yaml_created = restored (zeroed (lexer_on 0 [])) \<lparr>scn_row = 0, scn_col = 0, blk_imp_row = - 1, blk_imp_col = - 1,
     blk_imp_tab = 0, ind_typ_stk = [IND_ROT], ind_len_stk = [- 1], end_row = 0, end_col = 0, cur_row = 0,
     cur_col = 0, cur_chr = 0, sch_stt = 0, rlt_sch = RS_STR, aborted = False, lexer = lexer_on 0 []\<rparr>"

lemma create_created: "create (lexer_on 0 []) = Some yaml_created"
  by (simp add: create_def deserialize_def yaml_created_def restored_def)

lemma scanner_ok_lexer [simp]: "scanner_ok (s\<lparr>lexer := l\<rparr>) = scanner_ok s"
  by (simp add: scanner_ok_def)

lemma scanner_ok_restored: "scanner_ok r \<Longrightarrow> scanner_ok s \<Longrightarrow> scanner_ok (restored r s)"
  by (simp add: scanner_ok_def restored_def)

lemma scanner_ok_created: "scanner_ok yaml_created"
  using core_table_ok(2) by (simp add: yaml_created_def restored_def zeroed_def scanner_ok_def stacks_ok_def)

text \<open>A call reads the stored fields only; it sets the others first.\<close>

lemma yaml_call_restored:
  assumes "\<not> aborted r" "\<not> aborted s"
  shows "yaml_call i (restored r s) = yaml_call i s"
proof -
  have "mrk_end (init ((restored r s)\<lparr>lexer := l\<rparr>)) = mrk_end (init (s\<lparr>lexer := l\<rparr>))" for l
    using assms by (simp add: mrk_end_def init_def restored_def)
  then show ?thesis by (simp add: yaml_call_def yaml_scan_def)
qed

lemma call_scanned: "scanner_ok s \<Longrightarrow> scanned (s\<lparr>lexer := set_sym 0 (fst i)\<rparr>) (yaml_call i s)"
  unfolding yaml_call_def by (rule scanned_yaml_scan) (simp_all add: set_sym_def)

lemma scanned_ok: "scanned m r \<Longrightarrow> scanner_ok (snd r)"
  by (auto simp: scanned_def follows_def pushed_def popped_def split: if_splits)

interpretation yaml: external_scanner yaml_call serialize deserialize yaml_created scanner_ok
  "\<lambda>s. length (ind_typ_stk s) \<le> 254"
proof unfold_locales
  fix p s :: Scanner and i
  show "scanner_ok yaml_created" by (rule scanner_ok_created)
  show "scanner_ok s \<Longrightarrow> scanner_ok (snd (yaml_call i s))" using call_scanned scanned_ok by blast
  have run: "aborted s = False" if "scanner_ok s" for s using that by (simp add: scanner_ok_def)
  assume p: "scanner_ok p"
  have "deserialize p [] = Some (restored p yaml_created)"
    by (simp add: deserialize_def yaml_created_def restored_def)
  then show "\<exists>s'. deserialize p [] = Some s' \<and> scanner_ok s' \<and> (\<forall>i. yaml_call i s' = yaml_call i yaml_created)"
    using p scanner_ok_created by (auto intro: scanner_ok_restored yaml_call_restored simp: run)
  assume s: "scanner_ok s" "length (ind_typ_stk s) \<le> 254"
  then show "\<exists>s'. deserialize p (serialize s) = Some s' \<and> scanner_ok s' \<and> (\<forall>i. yaml_call i s' = yaml_call i s)"
    using p by (auto simp: deserialize_serialize run intro: scanner_ok_restored yaml_call_restored)
next
  fix s :: Scanner
  assume "scanner_ok s" "length (ind_typ_stk s) \<le> 254"
  then show "length (serialize s) \<le> TREE_SITTER_SERIALIZATION_BUFFER_SIZE"
    by (simp add: serialize_length TREE_SITTER_SERIALIZATION_BUFFER_SIZE_def)
qed

section \<open>Properties\<close>

text \<open>
  C30. A call of the YAML scanner only reads on in the text and keeps the invariant: the two stacks
  have the same height with the root at the bottom, every field fits 16 bits, and the schema automaton
  has not aborted. When the call returns the token \<open>BL\<close>, it has left exactly the innermost block;
  with any other token it has left the stack as it was or entered one block; and when it fails, the stack is unchanged.
\<close>

theorem yaml_scan_block_structure:
  assumes "scanner_ok s" "yaml_call (l, v) s = (found, s')"
  shows "scanner_ok s' \<and> (\<exists>k \<le> length (rest l). rest (lexer s') = drop k (rest l) \<and> pos (lexer s') = pos l + k) \<and>
    (if found \<and> result_sym (lexer s') = BL
     then \<exists>t n. ind_typ_stk s = ind_typ_stk s' @ [t] \<and> ind_len_stk s = ind_len_stk s' @ [n]
     else ind_typ_stk s' = ind_typ_stk s \<and> ind_len_stk s' = ind_len_stk s \<or>
       found \<and> (\<exists>t n. t \<in> {IND_MAP, IND_SEQ, IND_STR} \<and> ind_typ_stk s' = ind_typ_stk s @ [t] \<and>
         ind_len_stk s' = ind_len_stk s @ [n]))"
proof -
  have "scanned (s\<lparr>lexer := set_sym 0 l\<rparr>) (found, s')"
    using call_scanned [OF assms(1), of "(l, v)"] assms(2) by simp
  then show ?thesis
    using scanned_ok [of _ "(found, s')"]
    by (auto simp: scanned_def follows_def pushed_def popped_def later_def set_sym_def split: if_splits)
qed

section \<open>Deep nesting\<close>

text \<open>One more dash on the line: a block sequence inside the last one.\<close>

definition nested_item :: "nat TSLexer \<times> (nat \<Rightarrow> bool)" where
  "nested_item = (lexer_on 0 (text_of '' - ''), \<lambda>k. k = R_BLK_SEQ_BGN)"

lemma nested_item_call:
  "fst (yaml_call nested_item s) \<and>
   ind_typ_stk (snd (yaml_call nested_item s)) = ind_typ_stk s @ [IND_SEQ]"
  by (simp add: yaml_call_def nested_item_def yaml_scan_def Let_def skip_loop.simps text_of_def lexer_on_def
      la_def ch_def is_nwl_def mrk_end_def init_def mark_end_def set_sym_def skp_def skip_def advance_def ends_block_def
      scan_token_def scan_continued_def attempt_def scan_indicator_def scan_dash_def adv_def is_wht_def is_wsp_def
      or_false_def PUSH_BGN_IND_def return_def RET_SYM_def push_ind_def flush_def)

lemma nested_item_step:
  assumes "scanner_ok s"
  obtains s' where "yaml_call nested_item s = (True, s')" "scanner_ok s'"
    "length (ind_typ_stk s') = Suc (length (ind_typ_stk s))"
  using nested_item_call [of s] scanned_ok [OF call_scanned [OF assms, of nested_item]]
  by (cases "yaml_call nested_item s") auto

lemma nested_fit:
  "scanner_ok s \<Longrightarrow> length (ind_typ_stk s) + n \<le> 254 \<Longrightarrow>
     list_all (\<lambda>(found, s'). found \<longrightarrow> length (ind_typ_stk s') \<le> 254) (kept_tokens yaml_call s (replicate n nested_item))"
proof (induction n arbitrary: s)
  case (Suc n)
  from Suc.prems(1) obtain s' where "yaml_call nested_item s = (True, s')" "scanner_ok s'"
    "length (ind_typ_stk s') = Suc (length (ind_typ_stk s))" by (rule nested_item_step)
  then show ?case using Suc by simp
qed simp

lemma nested_overflow:
  assumes "scanner_ok p" "yaml.stands_for buf s" "scanner_ok s" "length (ind_typ_stk s) + Suc k = 255"
  shows "lex_tokens yaml_call serialize deserialize p buf (replicate (Suc k) nested_item) = None"
  using assms
proof (induction k arbitrary: p buf s)
  case 0
  obtain s' where s': "yaml_call nested_item s = (True, s')" "scanner_ok s'"
    "length (ind_typ_stk s') = Suc (length (ind_typ_stk s))" by (rule nested_item_step [OF 0(3)])
  obtain r where "deserialize p buf = Some r" "yaml_call nested_item r = (True, s')"
    using 0(1,2) s'(1) unfolding yaml.stands_for_def by metis
  moreover have "length (serialize s') = 1026" using s' 0(4) by (simp add: serialize_length)
  ultimately show ?case
    by (simp add: lex_external_def external_scanner_serialize_def TREE_SITTER_SERIALIZATION_BUFFER_SIZE_def)
next
  case (Suc k)
  obtain s' where s': "yaml_call nested_item s = (True, s')" "scanner_ok s'"
    "length (ind_typ_stk s') = Suc (length (ind_typ_stk s))" by (rule nested_item_step [OF Suc.prems(3)])
  then have "lex_external yaml_call serialize deserialize p buf nested_item = Some (Some (serialize s'), s')"
    "yaml.stands_for (serialize s') s'"
    using yaml.lex_external_stored [OF Suc.prems(1,2) s'(1)] Suc.prems(4) by auto
  moreover have "lex_tokens yaml_call serialize deserialize s' (serialize s') (replicate (Suc k) nested_item) = None"
    using s' Suc.prems(4) calculation(2) by (intro Suc.IH) auto
  ultimately show ?case
    unfolding replicate_Suc [of "Suc k"] lex_tokens.simps(2) by (simp del: replicate_Suc)
qed

theorem yaml_scan_block_structure_witness:
  "\<exists>s'. yaml_call nested_item yaml_created = (True, s') \<and> scanner_ok s' \<and> ind_typ_stk s' = [IND_ROT, IND_SEQ] \<and>
     length (ind_len_stk s') = 2"
proof -
  obtain s' where s': "yaml_call (fst nested_item, snd nested_item) yaml_created = (True, s')"
    "ind_typ_stk s' = [IND_ROT, IND_SEQ]"
    using nested_item_call [of yaml_created]
    by (cases "yaml_call nested_item yaml_created") (auto simp: yaml_created_def restored_def)
  from yaml_scan_block_structure [OF scanner_ok_created s'(1)] s'
  show ?thesis by (auto simp: scanner_ok_def stacks_ok_def yaml_created_def restored_def)
qed

text \<open>
  C31. Storing the state with the tokens is as good as keeping it: however many tokens the parser
  lexes, and whatever the scanner object held before, restoring the stored bytes before each call gives
  the same results as one scanner that keeps its state, provided that no block is nested more than
  253 deep. The stored state never exceeds the buffer of the runtime then.
\<close>

theorem yaml_stored_state:
  assumes "scanner_ok p"
    and "list_all (\<lambda>(found, s). found \<longrightarrow> length (ind_typ_stk s) \<le> 254) (kept_tokens yaml_call yaml_created is)"
  shows "lex_tokens yaml_call serialize deserialize p [] is = Some (kept_tokens yaml_call yaml_created is)"
  using assms by (rule yaml.lex_tokens_created)

theorem yaml_stored_state_witness:
  "lex_tokens yaml_call serialize deserialize yaml_created [] (replicate 253 nested_item) =
     Some (kept_tokens yaml_call yaml_created (replicate 253 nested_item))"
proof (rule yaml_stored_state)
  show "scanner_ok yaml_created" by (rule scanner_ok_created)
  have "length (ind_typ_stk yaml_created) = 1" by (simp add: yaml_created_def restored_def)
  then show "list_all (\<lambda>(found, s). found \<longrightarrow> length (ind_typ_stk s) \<le> 254)
      (kept_tokens yaml_call yaml_created (replicate 253 nested_item))"
    using nested_fit [OF scanner_ok_created, of 253] by simp
qed

text \<open>
  C32. The loop of \<open>serialize\<close> tests the size before it writes an entry, not whether the entry fits: with
  254 blocks or more around it the state takes 1026 bytes, two more than the buffer that the runtime
  passes. A line of 254 dashes is enough: 253 of them are lexed, and at the next one the buffer overruns,
  which the runtime notices in its assertion behind the call.
\<close>

theorem yaml_serialize_overruns:
  "(\<forall>s. scanner_ok s \<longrightarrow> 254 < length (ind_typ_stk s) \<longrightarrow>
      length (serialize s) = TREE_SITTER_SERIALIZATION_BUFFER_SIZE + 2) \<and>
   lex_tokens yaml_call serialize deserialize yaml_created [] (replicate 253 nested_item) \<noteq> None \<and>
   lex_tokens yaml_call serialize deserialize yaml_created [] (replicate 254 nested_item) = None"
proof (intro conjI allI impI)
  fix s
  assume "scanner_ok s" "254 < length (ind_typ_stk s)"
  then show "length (serialize s) = TREE_SITTER_SERIALIZATION_BUFFER_SIZE + 2"
    by (simp add: serialize_length TREE_SITTER_SERIALIZATION_BUFFER_SIZE_def)
next
  have one: "length (ind_typ_stk yaml_created) = 1" by (simp add: yaml_created_def restored_def)
  then show "lex_tokens yaml_call serialize deserialize yaml_created [] (replicate 253 nested_item) \<noteq> None"
    using yaml.lex_tokens_created [OF scanner_ok_created nested_fit [OF scanner_ok_created, of 253]] by simp
  have "yaml.stands_for [] yaml_created"
    using yaml.des_nil by (auto simp: yaml.stands_for_def)
  from nested_overflow [OF scanner_ok_created this scanner_ok_created, of 253] one
  show "lex_tokens yaml_call serialize deserialize yaml_created [] (replicate 254 nested_item) = None" by simp
qed

theorem yaml_serialize_overruns_witness:
  "let s = yaml_created\<lparr>ind_typ_stk := IND_ROT # replicate 254 IND_SEQ, ind_len_stk := - 1 # replicate 254 0\<rparr>
   in length (serialize s) = 1026"
proof -
  let ?s = "yaml_created\<lparr>ind_typ_stk := IND_ROT # replicate 254 IND_SEQ, ind_len_stk := - 1 # replicate 254 0\<rparr>"
  have "scanner_ok ?s"
    using scanner_ok_created unfolding scanner_ok_def stacks_ok_def
    by (simp add: list_all_iff set_replicate_conv_if)
  moreover have "254 < length (ind_typ_stk ?s)" by (simp)
  ultimately have "length (serialize ?s) = TREE_SITTER_SERIALIZATION_BUFFER_SIZE + 2"
    using yaml_serialize_overruns by blast
  then show ?thesis by (simp add: TREE_SITTER_SERIALIZATION_BUFFER_SIZE_def Let_def)
qed
end
