(* ===== verification/Yaml_Tokens.thy ===== *)
theory Yaml_Tokens
  imports Yaml_State
begin

text \<open>
  What single calls of the YAML scanner return: the end of a block, the next item of a block sequence,
  and the type of a plain scalar, which links the scanner to the schema automaton.
\<close>

section \<open>A new line and its indentation\<close>

text \<open>The scanner behind a line break and \<open>n\<close> spaces.\<close>

definition on_line :: "nat \<Rightarrow> Scanner \<Rightarrow> Scanner" where
  "on_line n s = (skp ^^ n) (skp_nwl s)"

lemma skp_fields [simp]:
  "scn_row (skp s) = scn_row s" "cur_row (skp s) = cur_row s" "ind_typ_stk (skp s) = ind_typ_stk s"
  "ind_len_stk (skp s) = ind_len_stk s" "cur_col (skp s) = i16 (cur_col s + 1)"
  "result_sym (lexer (skp s)) = result_sym (lexer s)"
  by (simp_all add: skp_def)

lemma skps_fields:
  "scn_row ((skp ^^ n) s) = scn_row s" "cur_row ((skp ^^ n) s) = cur_row s"
  "ind_typ_stk ((skp ^^ n) s) = ind_typ_stk s" "ind_len_stk ((skp ^^ n) s) = ind_len_stk s"
  "result_sym (lexer ((skp ^^ n) s)) = result_sym (lexer s)"
  by (induction n) simp_all

lemma skps_col: "0 \<le> cur_col s \<Longrightarrow> cur_col s + int n < 32768 \<Longrightarrow> cur_col ((skp ^^ n) s) = cur_col s + int n"
  by (induction n) (simp_all add: i16_id)

lemma on_line_fields [simp]:
  "scn_row (on_line n s) = scn_row s" "cur_row (on_line n s) = i16 (cur_row s + 1)"
  "ind_typ_stk (on_line n s) = ind_typ_stk s" "ind_len_stk (on_line n s) = ind_len_stk s"
  by (simp_all add: on_line_def skps_fields skp_nwl_def)

lemma on_line_col: "n < 32768 \<Longrightarrow> cur_col (on_line n s) = int n"
  using skps_col [of "skp_nwl s" n] by (simp add: on_line_def skp_nwl_def)

lemma on_line_rest:
  "rest (lexer s) = c # replicate n 32 @ t \<Longrightarrow> rest (lexer (on_line n s)) = t"
proof -
  have "rest (lexer u) = replicate n 32 @ t \<Longrightarrow> rest (lexer ((skp ^^ n) u)) = t" for u
    by (induction n arbitrary: u) (simp_all add: funpow_swap1)
  then show "rest (lexer s) = c # replicate n 32 @ t \<Longrightarrow> ?thesis" by (simp add: on_line_def)
qed

text \<open>The first loop stops at a character that is neither white space nor the start of a comment.\<close>

definition token_char :: "int \<Rightarrow> bool" where
  "token_char c \<longleftrightarrow> c \<noteq> 32 \<and> c \<noteq> 9 \<and> c \<noteq> 10 \<and> c \<noteq> 13 \<and> c \<noteq> ch CHR ''#'' \<and> c \<noteq> 0"

lemma skip_loop_stop:
  assumes "rest (lexer s) = c # t" "token_char c"
  shows "skip_loop v a i tab k s = (None, tab, k, s)"
proof -
  have "look s = c" using assms(1) by (simp add: la_def)
  with assms(2) show ?thesis by (subst skip_loop.simps) (simp add: token_char_def is_nwl_def ch_def)
qed

lemma skip_loop_spaces:
  assumes "rest (lexer s) = replicate n 32 @ c # t" "token_char c" "0 \<le> k" "k + int n < 32768"
  shows "skip_loop v a i False k s = (None, False, k + int n, (skp ^^ n) s)"
  using assms
proof (induction n arbitrary: s k)
  case 0
  then show ?case by (simp add: skip_loop_stop)
next
  case (Suc n)
  then have "skip_loop v a i False (k + 1) (skp s) = (None, False, k + 1 + int n, (skp ^^ n) (skp s))"
    by (intro Suc.IH) auto
  moreover have "look s = ch CHR '' ''" using Suc.prems(1) by (simp add: la_def ch_def)
  ultimately show ?case
    using Suc.prems by (subst skip_loop.simps) (simp add: i16_id funpow_swap1)
qed

lemma skip_loop_line:
  assumes "rest (lexer s) = 10 # replicate n 32 @ c # t" "token_char c" "n < 32768"
  shows "skip_loop v a i tab k s = (None, False, int n, on_line n s)"
proof -
  have "look s = 10" using assms(1) by (simp add: la_def)
  then have "skip_loop v a i tab k s = skip_loop v a i False 0 (skp_nwl s)"
    by (subst skip_loop.simps) (simp add: is_nwl_def ch_def)
  also have "\<dots> = (None, False, int n, on_line n s)"
    using assms skip_loop_spaces [of "skp_nwl s" n c t 0] by (simp add: on_line_def)
  finally show ?thesis .
qed

text \<open>So a call on such a text decides on the state behind the indentation.\<close>

definition start :: "nat TSLexer \<Rightarrow> Scanner \<Rightarrow> Scanner" where
  "start l s = mrk_end (init (s\<lparr>lexer := set_sym 0 l\<rparr>))"

lemma start_fields [simp]:
  "scn_row (start l s) = scn_row s" "cur_row (start l s) = scn_row s" "ind_typ_stk (start l s) = ind_typ_stk s"
  "ind_len_stk (start l s) = ind_len_stk s" "rest (lexer (start l s)) = rest l"
  by (simp_all add: start_def mrk_end_def init_def set_sym_def mark_end_def)

definition parent_ind :: "int list \<Rightarrow> int" where
  "parent_ind lens = (if length lens = 1 then - 1 else lens ! (length lens - 2))"

lemma yaml_call_line:
  assumes "rest l = 10 # replicate n 32 @ c # t" "token_char c" "n < 32768" "ind_len_stk s \<noteq> []"
  defines "u \<equiv> on_line n (start l s)"
  shows "yaml_call (l, v) s =
    (if ends_block v (last (ind_len_stk s)) (parent_ind (ind_len_stk s)) (last (ind_typ_stk s)) False u
     then POP_IND_RET BL u
     else scan_token \<lparr>valid = v, cur_ind = last (ind_len_stk s), cur_ind_typ = last (ind_typ_stk s),
       has_tab_ind = False, has_nwl = i16 (scn_row s + 1) > scn_row s, bgn_row = i16 (scn_row s + 1), bgn_col = int n,
       bgn_chr = c, on_r = \<not> i16 (scn_row s + 1) > scn_row s,
       on_br = (i16 (scn_row s + 1) > scn_row s \<and> int n > last (ind_len_stk s)),
       on_b = (i16 (scn_row s + 1) > scn_row s \<and> int n = last (ind_len_stk s) \<and> \<not> False), on_s = (n = 0)\<rparr> u)"
proof -
  have skip: "skip_loop v a i False 0 (start l s) = (None, False, int n, u)" for a i
    unfolding u_def using assms(1-3) by (intro skip_loop_line) auto
  have u: "look u = c" "cur_col u = int n" "cur_row u = i16 (scn_row s + 1)" "scn_row u = scn_row s" "c \<noteq> 0"
    using on_line_rest [of "start l s" 10 n "c # t"] assms(1-3)
    by (simp_all add: u_def la_def on_line_col token_char_def)
  have lens: "ind_len_stk s ! (length (ind_len_stk s) - Suc 0) = last (ind_len_stk s)"
    using assms(4) by (simp add: last_conv_nth)
  show ?thesis
    unfolding yaml_call_def yaml_scan_def Let_def fst_conv snd_conv start_def [symmetric] skip prod.case option.case
    using u lens by (simp add: parent_ind_def)
qed

lemma on_line_pos: "rest (lexer s) = c # replicate n 32 @ t \<Longrightarrow> pos (lexer (on_line n s)) = pos (lexer s) + n + 1"
proof -
  have "rest (lexer u) = replicate n 32 @ t \<Longrightarrow> pos (lexer ((skp ^^ n) u)) = pos (lexer u) + n" for u
    by (induction n arbitrary: u) (simp_all add: funpow_swap1 skip_def advance_def)
  then show "rest (lexer s) = c # replicate n 32 @ t \<Longrightarrow> ?thesis"
    by (simp add: on_line_def skp_nwl_def skip_def advance_def)
qed

lemma on_line_token_end: "token_end (lexer (on_line n s)) = token_end (lexer s)"
proof -
  have skip: "token_end (skip l) = token_end l" for l :: "nat TSLexer"
    by (simp add: skip_def advance_def split: list.split)
  have "token_end (lexer ((skp ^^ n) u)) = token_end (lexer u)" for u
    by (induction n) (simp_all add: skip)
  then show ?thesis by (simp add: on_line_def skip)
qed

lemma start_lexer_fields [simp]: "pos (lexer (start l s)) = pos l" "token_end (lexer (start l s)) = Some (pos l)"
  by (simp_all add: start_def set_sym_def mark_end_def)

lemma scanner_ok_last: "scanner_ok s \<Longrightarrow> ind_len_stk s \<noteq> [] \<and> int16 (last (ind_len_stk s))"
  unfolding scanner_ok_def stacks_ok_def list_all_iff by (metis last_in_set length_0_conv)

lemma int16_numeral [simp]: "int16 (numeral k) \<longleftrightarrow> numeral k < (32768 :: int)"
  using zero_le_numeral [of k, where 'a = int] unfolding int16_iff by linarith

section \<open>Tokens at the start of a line\<close>

text \<open>
  C38. A line that is indented no deeper than the surrounding block closes the innermost block, when
  the parser accepts that: the scanner returns \<open>BL\<close>, an empty token in front of the line break, and takes the
  block off its stack. A block sequence at the indentation of its mapping is closed when the line
  does not start with a dash, and the contents of a block scalar at its own indentation already.
\<close>

theorem yaml_dedent_closes_block:
  assumes "scanner_ok s" "2 \<le> length (ind_typ_stk s)" "v BL"
    and "rest l = 10 # replicate n 32 @ c # t" "token_char c" "int n \<le> last (ind_len_stk s)"
    and "if last (ind_len_stk s) = parent_ind (ind_len_stk s) \<and> last (ind_typ_stk s) = IND_SEQ
         then int n < last (ind_len_stk s) \<or> c \<noteq> ch CHR ''-''
         else int n \<le> parent_ind (ind_len_stk s) \<or> last (ind_typ_stk s) = IND_STR"
  shows "\<exists>s'. yaml_call (l, v) s = (True, s') \<and> result_sym (lexer s') = BL \<and> token_end (lexer s') = Some (pos l) \<and>
    ind_typ_stk s' = butlast (ind_typ_stk s) \<and> ind_len_stk s' = butlast (ind_len_stk s)"
proof -
  let ?u = "on_line n (start l s)"
  have lens: "ind_len_stk s \<noteq> []" "int16 (last (ind_len_stk s))"
    using scanner_ok_last [OF assms(1)] by simp_all
  then have n: "n < 32768" using assms(6) by (auto simp: int16_iff)
  have u: "look ?u = c" "cur_col ?u = int n"
    using on_line_rest [of "start l s" 10 n "c # t"] assms(4) n by (simp_all add: la_def on_line_col)
  have "ends_block v (last (ind_len_stk s)) (parent_ind (ind_len_stk s)) (last (ind_typ_stk s)) False ?u"
    using assms(3,6,7) u by (auto simp: ends_block_def split: if_splits)
  then have "yaml_call (l, v) s = POP_IND_RET BL ?u"
    using yaml_call_line [OF assms(4,5) n lens(1), of v] by simp
  then show ?thesis
    using assms(2) by (simp add: POP_IND_RET_def RET_SYM_def flush_def pop_ind_def set_sym_def on_line_token_end)
qed

theorem yaml_dedent_closes_block_witness:
  "\<exists>s'. yaml_call (lexer_on 0 (10 # text_of ''a''), \<lambda>k. k = BL)
      (yaml_created\<lparr>ind_typ_stk := [IND_ROT, IND_MAP, IND_MAP], ind_len_stk := [- 1, 0, 2]\<rparr>) = (True, s') \<and>
     result_sym (lexer s') = BL \<and> token_end (lexer s') = Some 0 \<and> ind_typ_stk s' = [IND_ROT, IND_MAP] \<and>
     ind_len_stk s' = [- 1, 0]"
proof -
  let ?s = "yaml_created\<lparr>ind_typ_stk := [IND_ROT, IND_MAP, IND_MAP], ind_len_stk := [- 1, 0, 2]\<rparr>"
  let ?l = "lexer_on 0 (10 # text_of ''a'')"
  have "scanner_ok ?s"
    using scanner_ok_created by (simp add: scanner_ok_def stacks_ok_def)
  then show ?thesis
    using yaml_dedent_closes_block [of ?s "\<lambda>k. k = BL" ?l 0 "ch CHR ''a''" "[]"]
    by (simp add: text_of_def token_char_def parent_ind_def lexer_on_def ch_def)
qed

text \<open>
  A dash and white space at the indentation of the innermost block is the next item of a block
  sequence (or the first one of a sequence that is indented like its mapping, which then enters
  the stack): the token covers the dash. But the row is a 16-bit number: behind row 32767 the line
  break is not noticed, and the item is not recognised.
\<close>

theorem yaml_next_item:
  assumes "scanner_ok s" "last (ind_typ_stk s) \<in> {IND_MAP, IND_SEQ}" "last (ind_len_stk s) = int n"
    and "parent_ind (ind_len_stk s) < int n" "v B_BLK_SEQ_BGN" "\<not> v BR_DQT_STR_CTN"
    and "rest l = 10 # replicate n 32 @ ch CHR ''-'' # d # t" "is_wht d"
  shows "(scn_row s < 32767 \<longrightarrow>
      (\<exists>s'. yaml_call (l, v) s = (True, s') \<and> result_sym (lexer s') = B_BLK_SEQ_BGN \<and>
        token_end (lexer s') = Some (pos l + n + 2) \<and>
        ind_typ_stk s' = ind_typ_stk s @ (if last (ind_typ_stk s) = IND_MAP then [IND_SEQ] else []) \<and>
        ind_len_stk s' = ind_len_stk s @ (if last (ind_typ_stk s) = IND_MAP then [int n] else []))) \<and>
    (scn_row s = 32767 \<longrightarrow> (\<forall>k. v k \<longrightarrow> k = B_BLK_SEQ_BGN) \<longrightarrow>
      result_sym (lexer (snd (yaml_call (l, v) s))) \<noteq> B_BLK_SEQ_BGN)"
proof -
  let ?u = "on_line n (start l s)"
  have lens: "ind_len_stk s \<noteq> []" "int16 (int n)"
    using scanner_ok_last [OF assms(1)] assms(3) by simp_all
  then have n: "n < 32768" "i16 (int n) = int n" by (simp_all add: int16_iff i16_id)
  have row: "- 32768 \<le> scn_row s" "scn_row s < 32768" using assms(1) by (simp_all add: scanner_ok_def int16_iff)
  have rest_u: "rest (lexer ?u) = ch CHR ''-'' # d # t"
    using on_line_rest [of "start l s" 10 n "ch CHR ''-'' # d # t"] assms(7) by simp
  have u: "look ?u = ch CHR ''-''" "cur_col ?u = int n" "look (adv ?u) = d" "pos (lexer ?u) = pos l + n + 1"
    using rest_u n on_line_pos [of "start l s" 10 n] assms(7) by (simp_all add: la_def on_line_col)
  have str: "last (ind_typ_stk s) \<noteq> IND_STR"
    using assms(2) by (auto simp: IND_STR_def IND_MAP_def IND_SEQ_def)
  have call: "yaml_call (l, v) s = scan_token \<lparr>valid = v, cur_ind = int n, cur_ind_typ = last (ind_typ_stk s),
       has_tab_ind = False, has_nwl = i16 (scn_row s + 1) > scn_row s, bgn_row = i16 (scn_row s + 1), bgn_col = int n,
       bgn_chr = ch CHR ''-'', on_r = \<not> i16 (scn_row s + 1) > scn_row s, on_br = False,
       on_b = (i16 (scn_row s + 1) > scn_row s), on_s = (n = 0)\<rparr> ?u"
    using yaml_call_line [of l n "ch CHR ''-''" "d # t" s v] assms(3,4,7) n(1) lens(1) u str
    by (simp add: ends_block_def token_char_def ch_def)
  show ?thesis
  proof (intro conjI impI)
    assume "scn_row s < 32767"
    then have nwl: "scn_row s < i16 (scn_row s + 1)" using row by (simp add: i16_id)
    show "\<exists>s'. yaml_call (l, v) s = (True, s') \<and> result_sym (lexer s') = B_BLK_SEQ_BGN \<and>
        token_end (lexer s') = Some (pos l + n + 2) \<and>
        ind_typ_stk s' = ind_typ_stk s @ (if last (ind_typ_stk s) = IND_MAP then [IND_SEQ] else []) \<and>
        ind_len_stk s' = ind_len_stk s @ (if last (ind_typ_stk s) = IND_MAP then [int n] else [])"
      unfolding call scan_token_def
      using nwl u assms(5,6,8) n(2) rest_u
      by (simp add: scan_continued_def attempt_def scan_indicator_def scan_dash_def Let_def return_def
          RET_SYM_def flush_def MAY_PUSH_SPC_SEQ_IND_def push_ind_def mrk_end_def adv_def set_sym_def mark_end_def
          advance_def)
  next
    assume r: "scn_row s = 32767" and v: "\<forall>k. v k \<longrightarrow> k = B_BLK_SEQ_BGN"
    then have "\<not> scn_row s < i16 (scn_row s + 1)" by (simp add: i16_def)
    moreover have "\<not> v k" if "k \<noteq> B_BLK_SEQ_BGN" for k using v that by blast
    moreover define w where "w = ?u"
    moreover have "result_sym (lexer w) = 0"
      by (simp add: w_def on_line_def skps_fields skp_nwl_def start_def set_sym_def)
    ultimately show "result_sym (lexer (snd (yaml_call (l, v) s))) \<noteq> B_BLK_SEQ_BGN"
      unfolding call scan_token_def w_def [symmetric] using u [folded w_def] assms(8)
      by (simp add: scan_continued_def attempt_def scan_indicator_def scan_dash_def Let_def)
  qed
qed

theorem yaml_next_item_witness:
  "\<exists>s'. yaml_call (lexer_on 0 (10 # text_of ''- a''), \<lambda>k. k = B_BLK_SEQ_BGN)
      (yaml_created\<lparr>ind_typ_stk := [IND_ROT, IND_SEQ], ind_len_stk := [- 1, 0]\<rparr>) = (True, s') \<and>
     result_sym (lexer s') = B_BLK_SEQ_BGN \<and> token_end (lexer s') = Some 2 \<and> ind_typ_stk s' = [IND_ROT, IND_SEQ]"
proof -
  let ?s = "yaml_created\<lparr>ind_typ_stk := [IND_ROT, IND_SEQ], ind_len_stk := [- 1, 0]\<rparr>"
  let ?l = "lexer_on 0 (10 # text_of ''- a'')"
  have "scanner_ok ?s" using scanner_ok_created by (simp add: scanner_ok_def stacks_ok_def)
  moreover have "scn_row ?s < 32767" "IND_SEQ \<noteq> IND_MAP"
    by (simp_all add: yaml_created_def restored_def IND_SEQ_def IND_MAP_def)
  ultimately show ?thesis
    using yaml_next_item [of ?s 0 "\<lambda>k. k = B_BLK_SEQ_BGN" ?l "ch CHR '' ''" "text_of ''a''"]
    by (auto simp: text_of_def parent_ind_def lexer_on_def is_wht_def is_wsp_def)
qed

text \<open>
  A closing bracket at the indentation of the block, where only the token for that position is valid,
  is returned as the token for a deeper indentation.
\<close>

lemma yaml_flow_end_position:
  assumes "scanner_ok s" "last (ind_len_stk s) = int n" "scn_row s < 32767" "\<forall>k. v k \<longleftrightarrow> k = B_FLW_SEQ_END"
    and "rest l = 10 # replicate n 32 @ ch CHR '']'' # t"
  shows "\<exists>s'. yaml_call (l, v) s = (True, s') \<and> result_sym (lexer s') = BR_FLW_SEQ_END"
proof -
  let ?u = "on_line n (start l s)"
  have lens: "ind_len_stk s \<noteq> []" "int16 (int n)" using scanner_ok_last [OF assms(1)] assms(2) by simp_all
  then have n: "n < 32768" by (simp add: int16_iff)
  have "scn_row s < i16 (scn_row s + 1)"
    using assms(1,3) by (simp add: scanner_ok_def int16_iff i16_id)
  moreover have "look ?u = ch CHR '']''"
    using on_line_rest [of "start l s" 10 n] assms(5) by (simp add: la_def)
  ultimately show ?thesis
    using yaml_call_line [of l n "ch CHR '']''" t s v] assms(2,4,5) n lens
    by (simp add: ends_block_def token_char_def ch_def scan_token_def scan_continued_def attempt_def
        scan_indicator_def scan_seq_end_def one_char_def return_def RET_SYM_def set_sym_def)
qed

section \<open>Plain scalars\<close>















lemma upd_sch_fields [simp]:
  "cur_row (upd_sch s) = cur_row s" "end_row (upd_sch s) = end_row s" "cur_chr (upd_sch s) = cur_chr s"
  by (simp_all add: upd_sch_def split: option.split)



text \<open>A line without the blanks at its end.\<close>

definition trim :: "int list \<Rightarrow> int list" where
  "trim w = rev (dropWhile (\<lambda>c. c = 32) (rev w))"


lemma trim_blanks [simp]: "last (f # w) \<noteq> 32 \<Longrightarrow> trim (w @ replicate k 32) = w"
  by (cases w rule: rev_cases) (simp_all add: trim_def dropWhile_append)













text \<open>A scan at the start of a text, in a block at column 0.\<close>

definition sample_plain :: "int list \<Rightarrow> bool \<times> Scanner" where
  "sample_plain t = scan_plain \<lparr>valid = (\<lambda>k. True), cur_ind = 0, cur_ind_typ = IND_MAP, has_tab_ind = False, has_nwl = False,
     bgn_row = 0, bgn_col = 0, bgn_chr = (case t of [] \<Rightarrow> 0 | c # _ \<Rightarrow> c), on_r = True, on_br = False, on_b = False, on_s = True\<rparr>
     True False False False (yaml_created\<lparr>lexer := lexer_on 0 t\<rparr>)"


text \<open>A tab behind the scalar, which is not part of it, reaches the automaton and makes the integer a string.\<close>

lemma yaml_tab_makes_string:
  "let (found, s') = sample_plain (text_of ''12'' @ [9, 10])
   in found \<and> result_sym (lexer s') = R_SGL_PLN_STR_BLK \<and> token_end (lexer s') = Some 2"
  by code_simp

end
