(* ===== verification/Bash_Scanner.thy ===== *)
theory Bash_Scanner
  imports External_Scanner
begin

text \<open>
  The external scanner of the Bash grammar, \<open>bash/src/scanner.c\<close>. Its state is the list of here
  documents that are open, innermost last, and the depth of parentheses in an extended glob pattern.
  The function \<open>scan\<close> tries one kind of token after the other; its labels are the functions
  \<open>from_regex\<close>, \<open>from_extglob\<close>, \<open>from_expansion_word\<close> and \<open>from_brace_start\<close>, each of which goes on with
  the next.

  A \<open>char\<close> of a string is a signed 8-bit integer, as on the machines the program is built for;
  \<open>i8\<close> is the conversion to it.
\<close>

section \<open>Tokens and state\<close>

datatype bash_token =
  HEREDOC_START | SIMPLE_HEREDOC_BODY | HEREDOC_BODY_BEGINNING | HEREDOC_CONTENT | HEREDOC_END
  | FILE_DESCRIPTOR | EMPTY_VALUE | CONCAT | VARIABLE_NAME | TEST_OPERATOR | REGEX | REGEX_NO_SLASH
  | REGEX_NO_SPACE | EXPANSION_WORD | EXTGLOB_PATTERN | BARE_DOLLAR | BRACE_START | IMMEDIATE_DOUBLE_HASH
  | EXTERNAL_EXPANSION_SYM_HASH | EXTERNAL_EXPANSION_SYM_BANG | EXTERNAL_EXPANSION_SYM_EQUAL
  | CLOSING_BRACE | CLOSING_BRACKET | HEREDOC_ARROW | HEREDOC_ARROW_DASH | NEWLINE | OPENING_PAREN | ESAC
  | ERROR_RECOVERY

type_synonym blexer = "bash_token TSLexer"
type_synonym valid_symbols = "bash_token \<Rightarrow> bool"

record Heredoc =
  is_raw :: bool
  started :: bool
  allows_indent :: bool
  delimiter :: "int list"
  current_leading_word :: "int list"

definition heredoc_new :: Heredoc where
  "heredoc_new = \<lparr>is_raw = False, started = False, allows_indent = False, delimiter = [], current_leading_word = []\<rparr>"

text \<open>
  The scanner with the lexer it is called with. \<open>assert_failed\<close> says that the assertion in
  \<open>array_get\<close> has failed, which ends the program. \<open>last_glob_paren_depth\<close> is a \<open>uint8_t\<close>.
\<close>

record BashScanner =
  last_glob_paren_depth :: u8
  ext_was_in_double_quote :: bool
  ext_saw_outside_quote :: bool
  heredocs :: "Heredoc list"
  assert_failed :: bool
  blex :: blexer

abbreviation blook :: "BashScanner \<Rightarrow> int" where
  "blook s \<equiv> la (blex s)"

definition on_lex :: "(blexer \<Rightarrow> blexer) \<Rightarrow> BashScanner \<Rightarrow> BashScanner" where
  "on_lex f s = s\<lparr>blex := f (blex s)\<rparr>"

text \<open>\<open>array_back (&scanner->heredocs)\<close>, which the callers use on a list that is not empty.\<close>

definition array_back :: "BashScanner \<Rightarrow> Heredoc" where
  "array_back s = last (heredocs s)"

definition upd_back :: "(Heredoc \<Rightarrow> Heredoc) \<Rightarrow> BashScanner \<Rightarrow> BashScanner" where
  "upd_back f s = s\<lparr>heredocs := butlast (heredocs s) @ [f (last (heredocs s))]\<rparr>"

definition reset_heredoc :: "Heredoc \<Rightarrow> Heredoc" where
  "reset_heredoc h = h\<lparr>is_raw := False, started := False, allows_indent := False, delimiter := []\<rparr>"

definition reset :: "BashScanner \<Rightarrow> BashScanner" where
  "reset s = s\<lparr>heredocs := map reset_heredoc (heredocs s)\<rparr>"

definition in_error_recovery :: "valid_symbols \<Rightarrow> bool" where
  "in_error_recovery v = v ERROR_RECOVERY"

text \<open>
  A part of \<open>scan\<close> gives \<open>Some\<close> result when the function returns there, and \<open>None\<close> when control goes
  on behind it, as \<open>andthen\<close> does.
\<close>

type_synonym 'a bash_part = "bool option \<times> 'a"

definition andthen :: "'a bash_part \<Rightarrow> ('a \<Rightarrow> 'a bash_part) \<Rightarrow> 'a bash_part" where
  "andthen p f = (case p of (Some b, x) \<Rightarrow> (Some b, x) | (None, x) \<Rightarrow> f x)"

definition on_lex_part :: "(blexer \<Rightarrow> blexer bash_part) \<Rightarrow> BashScanner \<Rightarrow> BashScanner bash_part" where
  "on_lex_part f s = (let (r, l) = f (blex s) in (r, s\<lparr>blex := l\<rparr>))"

section \<open>Here documents\<close>

lemma later_advance_frame [simp]:
  "later m (advance (mark_end l)) = later m (advance l)" "later m (advance (set_sym k l)) = later m (advance l)"
  "later (advance (mark_end l)) m = later (advance l) m" "later (advance (set_sym k l)) m = later (advance l) m"
  by (simp_all add: later_def advance_def mark_end_def set_sym_def split: list.split)

lemma length_tl_less2 [termination_simp]: "rest l \<noteq> [] \<Longrightarrow> length (rest l) - Suc (Suc 0) < length (rest l)"
  by (cases "rest l") auto

definition in_word :: "int \<Rightarrow> int \<Rightarrow> bool" where
  "in_word quote c \<longleftrightarrow> c \<noteq> 0 \<and> \<not> (if quote \<noteq> 0 then c = quote \<or> c = 13 \<or> c = 10 else iswspace c)"

text \<open>
  The loop of \<open>advance_word\<close>. The first component says that the function returns false inside it; then
  come \<open>empty\<close>, the word and the lexer.
\<close>

function advance_word_loop :: "int \<Rightarrow> bool \<Rightarrow> int list \<Rightarrow> blexer \<Rightarrow> bool \<times> bool \<times> int list \<times> blexer" where
  "advance_word_loop quote is_empty word l =
     (if in_word quote (la l) then
        (if la l = ch CHR 0x5C then
           (let l = advance l
            in if la l = 0 then (True, is_empty, word, l)
               else advance_word_loop quote False (word @ [i8 (la l)]) (advance l))
         else advance_word_loop quote False (word @ [i8 (la l)]) (advance l))
      else (False, is_empty, word, l))"
  by pat_completeness auto
termination
  by (relation "measure (\<lambda>(q, e, w, l). length (rest l))")
    (auto simp: length_tl_less length_tl_less2 in_word_def dest!: la_nonzero la_ch_rest)

declare advance_word_loop.simps [simp del]

definition advance_word :: "int list \<Rightarrow> blexer \<Rightarrow> bool \<times> int list \<times> blexer" where
  "advance_word word l =
     (let quote = (if la l = ch CHR 0x27 \<or> la l = ch CHR 0x22 then la l else 0);
          l = (if la l = ch CHR 0x27 \<or> la l = ch CHR 0x22 then advance l else l);
          (failed, is_empty, word, l) = advance_word_loop quote True word l
      in if failed then (False, word, l)
         else (\<not> is_empty, word @ [0], if quote \<noteq> 0 \<and> la l = quote then advance l else l))"

definition scan_bare_dollar :: "blexer \<Rightarrow> bool \<times> blexer" where
  "scan_bare_dollar l =
     (let l = skip_while (\<lambda>c. iswspace c \<and> c \<noteq> 10) l
      in if la l = ch CHR ''$'' then
           (let l = mark_end (set_sym BARE_DOLLAR (advance l))
            in (iswspace (la l) \<or> eof l \<or> la l = ch CHR 0x22, l))
         else (False, l))"

definition scan_heredoc_start :: "BashScanner \<Rightarrow> bool \<times> BashScanner" where
  "scan_heredoc_start s =
     (let l = set_sym HEREDOC_START (skip_while iswspace (blex s));
          s = upd_back (\<lambda>h. h\<lparr>is_raw := la l = ch CHR 0x27 \<or> la l = ch CHR 0x22 \<or> la l = ch CHR 0x5C\<rparr>) s;
          (found_delimiter, word, l) = advance_word (delimiter (array_back s)) l;
          s = s\<lparr>blex := l\<rparr>
      in if \<not> found_delimiter then (False, upd_back (\<lambda>h. h\<lparr>delimiter := []\<rparr>) s)
         else (True, upd_back (\<lambda>h. h\<lparr>delimiter := word\<rparr>) s))"

text \<open>
  The loop of \<open>scan_heredoc_end_identifier\<close>. The first component says that \<open>array_get\<close> was called with
  an index inside the delimiter each time.
\<close>

function end_identifier_loop ::
  "int list \<Rightarrow> nat \<Rightarrow> int list \<Rightarrow> blexer \<Rightarrow> bool \<times> int list \<times> blexer" where
  "end_identifier_loop delim n word l =
     (if la l \<noteq> 0 \<and> la l \<noteq> 10 then
        (if n < length delim then
           (if delim ! n = la l \<and> length word < length delim
            then end_identifier_loop delim (n + 1) (word @ [i8 (la l)]) (advance l)
            else (True, word, l))
         else (False, word, l))
      else (True, word, l))"
  by pat_completeness auto
termination
  by (relation "measure (\<lambda>(d, n, w, l). length (rest l))") (auto simp: length_tl_less dest!: la_nonzero)

declare end_identifier_loop.simps [simp del]

text \<open>A C string ends at its first null character; \<open>strcmp\<close> compares two of them.\<close>

definition c_string :: "int list \<Rightarrow> int list" where
  "c_string s = takeWhile (\<lambda>c. c \<noteq> 0) s"

definition scan_heredoc_end_identifier :: "BashScanner \<Rightarrow> bool \<times> BashScanner" where
  "scan_heredoc_end_identifier s =
     (let delim = delimiter (array_back s);
          (in_bounds, word, l) =
            (if 0 < length delim then end_identifier_loop delim 0 [] (blex s) else (True, [], blex s));
          word = word @ [0];
          s = upd_back (\<lambda>h. h\<lparr>current_leading_word := word\<rparr>) (s\<lparr>blex := l\<rparr>);
          s = (if in_bounds then s else s\<lparr>assert_failed := True\<rparr>)
      in (if length delim = 0 then False else c_string word = c_string delim, s))"

lemma later_advance_word_loop [scan_mono]:
  "later m l \<Longrightarrow> later m (snd (snd (snd (advance_word_loop q e w l))))"
proof (induction q e w l rule: advance_word_loop.induct)
  case (1 q e w l)
  then show ?case by (subst advance_word_loop.simps) (simp add: Let_def scan_mono)
qed

lemma later_advance_word [scan_mono]: "later m l \<Longrightarrow> later m (snd (snd (advance_word w l)))"
  by (simp add: advance_word_def Let_def split_def scan_mono)

lemma later_end_identifier_loop [scan_mono]:
  "later m l \<Longrightarrow> later m (snd (snd (end_identifier_loop d n w l)))"
proof (induction d n w l rule: end_identifier_loop.induct)
  case (1 d n w l)
  then show ?case by (subst end_identifier_loop.simps) (simp add: scan_mono)
qed

lemma lex_simps [simp]:
  "blex (on_lex f s) = f (blex s)" "blex (upd_back g s) = blex s" "blex (reset s) = blex s"
  "heredocs (on_lex f s) = heredocs s" "assert_failed (on_lex f s) = assert_failed s"
  "assert_failed (upd_back g s) = assert_failed s"
  by (simp_all add: on_lex_def upd_back_def reset_def)

lemma later_end_identifier [scan_mono]:
  "later m (blex s) \<Longrightarrow> later m (blex (snd (scan_heredoc_end_identifier s)))"
  by (simp add: scan_heredoc_end_identifier_def Let_def split_def scan_mono)

text \<open>
  The body of a here document. Of the two kinds of tokens, \<open>middle_type\<close> ends at an expansion and
  \<open>end_type\<close> at the end of the document. \<open>content_newline\<close> is the case of a newline, \<open>content_default\<close>
  the default case up to its last two statements.
\<close>

definition content_newline :: "bash_token \<Rightarrow> bash_token \<Rightarrow> bool \<Rightarrow> BashScanner \<Rightarrow> bool \<times> BashScanner" where
  "content_newline middle_type end_type did_advance s =
     (let s = (if \<not> did_advance then on_lex skip s else on_lex advance s);
          s = (if allows_indent (array_back s) then on_lex (advance_while iswspace) s else s);
          s = on_lex mark_end (on_lex (set_sym (if started (array_back s) then middle_type else end_type)) s);
          (found, s) = scan_heredoc_end_identifier s
      in if found
         then (True, if result_sym (blex s) = HEREDOC_END then s\<lparr>heredocs := butlast (heredocs s)\<rparr> else s)
         else (False, s))"

definition content_default :: "bash_token \<Rightarrow> bash_token \<Rightarrow> bool \<Rightarrow> BashScanner \<Rightarrow> bool \<times> BashScanner" where
  "content_default middle_type end_type did_advance s =
     (if get_column (blex s) = 0 then
        (let s = on_lex ((if did_advance then advance_while else skip_while) iswspace) s;
             (found, s) =
               (if end_type \<noteq> SIMPLE_HEREDOC_BODY
                then scan_heredoc_end_identifier (on_lex (set_sym middle_type) s) else (False, s))
         in if found then (True, s)
            else if end_type = SIMPLE_HEREDOC_BODY
            then scan_heredoc_end_identifier (on_lex mark_end (on_lex (set_sym end_type) s))
            else (False, s))
      else (False, s))"

lemma later_content [scan_mono]:
  "later m (blex s) \<Longrightarrow> later m (blex (snd (content_newline mid en did s)))"
  "later m (blex s) \<Longrightarrow> later m (blex (snd (content_default mid en did s)))"
  by (simp_all add: content_newline_def content_default_def Let_def split_def scan_mono)

lemma advance_less:
  assumes "later l m" "la l \<noteq> 0"
  shows "length (rest (advance m)) < length (rest l)"
  using later_length [OF assms(1)] la_nonzero [OF assms(2)] by (cases "rest m") auto

function scan_heredoc_content_loop ::
  "bash_token \<Rightarrow> bash_token \<Rightarrow> bool \<Rightarrow> BashScanner \<Rightarrow> bool \<times> BashScanner" where
  "scan_heredoc_content_loop middle_type end_type did_advance s =
     (if blook s = 0 then
        (if eof (blex s) \<and> did_advance then (True, on_lex (set_sym end_type) (upd_back reset_heredoc s))
         else (False, s))
      else if blook s = ch CHR 0x5C then
        scan_heredoc_content_loop middle_type end_type True (on_lex advance (on_lex advance s))
      else if blook s = ch CHR ''$'' then
        (if is_raw (array_back s) then scan_heredoc_content_loop middle_type end_type True (on_lex advance s)
         else if did_advance then
           (let s = on_lex (set_sym middle_type) (on_lex mark_end s);
                s = on_lex advance (upd_back (\<lambda>h. h\<lparr>started := True\<rparr>) s)
            in if iswalpha (blook s) \<or> blook s = ch CHR ''{'' \<or> blook s = ch CHR ''('' then (True, s)
               else scan_heredoc_content_loop middle_type end_type did_advance s)
         else if middle_type = HEREDOC_BODY_BEGINNING \<and> get_column (blex s) = 0 then
           (True, upd_back (\<lambda>h. h\<lparr>started := True\<rparr>) (on_lex (set_sym middle_type) s))
         else (False, s))
      else if blook s = 10 then
        (let (found, s) = content_newline middle_type end_type did_advance s
         in if found then (True, s) else scan_heredoc_content_loop middle_type end_type True s)
      else
        (let (found, s) = content_default middle_type end_type did_advance s
         in if found then (True, s) else scan_heredoc_content_loop middle_type end_type True (on_lex advance s)))"
  by pat_completeness auto
termination
proof (relation "measure (\<lambda>(m, e, d, s). length (rest (blex s)))", goal_cases)
  case (5 m e d s p found s')
  then have s': "s' = snd (content_newline m e d s)" by (metis snd_conv)
  have "later (advance (blex s)) (blex s') \<or> later (skip (blex s)) (blex s')"
    unfolding s' content_newline_def Let_def split_def by (cases d) (simp_all add: scan_mono)
  then have "length (rest (blex s')) < length (rest (blex s))"
    using 5(1) by (intro later_less [of "blex s" "blex s"]) auto
  then show ?case by simp
next
  case (6 m e d s p found s')
  then have "s' = snd (content_default m e d s)" by (metis snd_conv)
  then have "later (blex s) (blex s')" by (simp add: scan_mono)
  with advance_less 6(1) show ?case by fastforce
qed (auto simp: length_tl_less length_tl_less2 Let_def dest!: la_nonzero la_ch_rest)

declare scan_heredoc_content_loop.simps [simp del]

definition scan_heredoc_content :: "bash_token \<Rightarrow> bash_token \<Rightarrow> BashScanner \<Rightarrow> bool \<times> BashScanner" where
  "scan_heredoc_content middle_type end_type s = scan_heredoc_content_loop middle_type end_type False s"

section \<open>Regular expressions\<close>

record RegexState =
  regex_done :: bool
  advanced_once :: bool
  found_non_alnumdollarunderdash :: bool
  last_was_escape :: bool
  in_single_quote :: bool
  paren_depth :: u32
  bracket_depth :: u32
  brace_depth :: u32

text \<open>The cases of the \<open>switch\<close> that only change the state.\<close>

definition regex_switch :: "int \<Rightarrow> RegexState \<Rightarrow> RegexState" where
  "regex_switch c st =
     (if c = ch CHR 0x5C then st\<lparr>last_was_escape := True\<rparr>
      else
        (if c = ch CHR ''('' then st\<lparr>paren_depth := paren_depth st + 1\<rparr>
         else if c = ch CHR ''['' then st\<lparr>bracket_depth := bracket_depth st + 1\<rparr>
         else if c = ch CHR ''{'' then
           (if \<not> last_was_escape st then st\<lparr>brace_depth := brace_depth st + 1\<rparr> else st)
         else if c = ch CHR '')'' then
           st\<lparr>regex_done := (regex_done st \<or> paren_depth st = 0), paren_depth := paren_depth st - 1\<rparr>
         else if c = ch CHR '']'' then
           st\<lparr>regex_done := (regex_done st \<or> bracket_depth st = 0), bracket_depth := bracket_depth st - 1\<rparr>
         else if c = ch CHR ''}'' then
           st\<lparr>regex_done := (regex_done st \<or> brace_depth st = 0), brace_depth := brace_depth st - 1\<rparr>
         else st)\<lparr>last_was_escape := False\<rparr>)"

text \<open>
  The code behind the \<open>switch\<close> for the three kinds of tokens. One of them is valid wherever the loop is
  entered, so the last needs no test.
\<close>

definition regex_consume ::
  "valid_symbols \<Rightarrow> RegexState \<Rightarrow> blexer \<Rightarrow> bool option \<times> RegexState \<times> blexer" where
  "regex_consume v st l =
     (let was_space = (\<not> in_single_quote st \<and> iswspace (la l))
      in if v REGEX then
           (let l = advance l
            in (None, st\<lparr>advanced_once := True\<rparr>, if \<not> was_space \<or> paren_depth st > 0 then mark_end l else l))
         else if v REGEX_NO_SLASH then
           (if la l = ch CHR ''/'' then (Some (advanced_once st), st, set_sym REGEX_NO_SLASH (mark_end l))
            else if la l = ch CHR 0x5C then
              (let l = advance l
               in (None, st\<lparr>advanced_once := True\<rparr>,
                   if \<not> eof l \<and> la l \<noteq> ch CHR ''['' \<and> la l \<noteq> ch CHR ''/'' then mark_end (advance l) else l))
            else
              (let l = advance l
               in (None, st\<lparr>advanced_once := True\<rparr>, if \<not> was_space then mark_end l else l)))
         else
           (if la l = ch CHR 0x5C then
              (let l = advance l
               in (None, st\<lparr>found_non_alnumdollarunderdash := True\<rparr>, if \<not> eof l then advance l else l))
            else if la l = ch CHR ''$'' then
              (let l = advance (mark_end l)
               in if la l = ch CHR ''('' then (Some False, st, l)
                  else if iswspace (la l) then (Some True, st, mark_end (set_sym REGEX_NO_SPACE l))
                  else (None, st, l))
            else if was_space \<and> paren_depth st = 0 then
              (Some (found_non_alnumdollarunderdash st), st, set_sym REGEX_NO_SPACE (mark_end l))
            else
              (None,
               if \<not> iswalnum (la l) \<and> la l \<noteq> ch CHR ''$'' \<and> la l \<noteq> ch CHR ''-'' \<and> la l \<noteq> ch CHR ''_''
               then st\<lparr>found_non_alnumdollarunderdash := True\<rparr> else st,
               advance l)))"

definition regex_step ::
  "valid_symbols \<Rightarrow> RegexState \<Rightarrow> blexer \<Rightarrow> bool option \<times> RegexState \<times> blexer" where
  "regex_step v st l =
     (let leaves = (in_single_quote st \<and> la l = ch CHR 0x27);
          st = (if leaves then st\<lparr>in_single_quote := False\<rparr> else st);
          l = (if leaves then mark_end (advance l) else l)
      in if la l = 0 then (Some False, st, l)
         else if la l = ch CHR 0x27 then
           (None, st\<lparr>in_single_quote := \<not> in_single_quote st, advanced_once := True, last_was_escape := False\<rparr>,
            advance l)
         else
           (let st = regex_switch (la l) st
            in if regex_done st then (None, st, l) else regex_consume v st l))"

lemma later_regex_consume [scan_mono]: "later m l \<Longrightarrow> later m (snd (snd (regex_consume v st l)))"
  by (simp add: regex_consume_def Let_def scan_mono)

lemma later_regex_step [scan_mono]: "later m l \<Longrightarrow> later m (snd (snd (regex_step v st l)))"
  by (simp add: regex_step_def Let_def scan_mono)

lemma regex_consume_later:
  "regex_consume v st l = (None, st', l') \<Longrightarrow> later (advance l) l'"
  by (auto simp: regex_consume_def Let_def scan_mono split: if_splits)

lemma regex_step_less:
  assumes "regex_step v st l = (None, st', l')" "\<not> regex_done st'"
  shows "length (rest l') < length (rest l)"
proof -
  define k where "k = (if in_single_quote st \<and> la l = ch CHR 0x27 then mark_end (advance l) else l)"
  have k: "later l k" by (simp add: k_def scan_mono)
  have nz: "la k \<noteq> 0" using assms by (auto simp: regex_step_def Let_def k_def split: if_splits)
  have "later (advance k) l'"
    using assms nz unfolding regex_step_def Let_def k_def [symmetric]
    by (auto simp: scan_mono dest: regex_consume_later split: if_splits)
  with k nz show ?thesis by (intro later_less [of l k]) auto
qed

function regex_loop :: "valid_symbols \<Rightarrow> RegexState \<Rightarrow> blexer \<Rightarrow> bool option \<times> RegexState \<times> blexer" where
  "regex_loop v st l =
     (if regex_done st then (None, st, l)
      else
        (case regex_step v st l of
           (Some r, st, l) \<Rightarrow> (Some r, st, l)
         | (None, st, l) \<Rightarrow> regex_loop v st l))"
  by pat_completeness auto
termination
proof (relation "measure (\<lambda>(v, st, l). if regex_done st then 0 else Suc (length (rest l)))", goal_cases)
  case (2 v st l p r st' l')
  then show ?case using regex_step_less [of v st l st'] by auto
qed simp

declare regex_loop.simps [simp del]

definition scan_regex :: "valid_symbols \<Rightarrow> blexer \<Rightarrow> blexer bash_part" where
  "scan_regex v l =
     (if (v REGEX \<or> v REGEX_NO_SLASH \<or> v REGEX_NO_SPACE) \<and> \<not> in_error_recovery v then
        (let l = (if v REGEX \<or> v REGEX_NO_SPACE then skip_while iswspace l else l)
         in if la l \<noteq> ch CHR 0x22 \<and> la l \<noteq> ch CHR 0x27 \<or>
               (la l = ch CHR ''$'' \<or> la l = ch CHR 0x27) \<and> v REGEX_NO_SLASH \<or>
               la l = ch CHR 0x27 \<and> v REGEX_NO_SPACE
            then
              (let dollar = (la l = ch CHR ''$'' \<and> v REGEX_NO_SLASH);
                   l = (if dollar then advance (mark_end l) else l)
               in if dollar \<and> la l = ch CHR ''('' then (Some False, l)
                  else
                    (case regex_loop v
                       \<lparr>regex_done = False, advanced_once = False, found_non_alnumdollarunderdash = False,
                        last_was_escape = False, in_single_quote = False, paren_depth = 0, bracket_depth = 0,
                        brace_depth = 0\<rparr> (mark_end l) of
                       (Some r, st, l) \<Rightarrow> (Some r, l)
                     | (None, st, l) \<Rightarrow>
                         (Some (\<not> (v REGEX \<and> \<not> advanced_once st)),
                          set_sym (if v REGEX_NO_SLASH then REGEX_NO_SLASH
                                   else if v REGEX_NO_SPACE then REGEX_NO_SPACE else REGEX) l)))
            else (None, l))
      else (None, l))"

section \<open>Extended glob patterns\<close>

record GlobState =
  glob_done :: bool
  saw_non_alphadot :: bool
  glob_paren_depth :: u32
  glob_bracket_depth :: u32
  glob_brace_depth :: u32

text \<open>The statements in front of the loop, in their order.\<close>

definition extglob_escape :: "blexer \<Rightarrow> blexer bash_part" where
  "extglob_escape l =
     (if la l = ch CHR 0x5C then
        (let l = advance l
         in if (iswspace (la l) \<or> la l = ch CHR 0x22) \<and> la l \<noteq> 13 \<and> la l \<noteq> 10
            then (None, advance l) else (Some False, l))
      else (None, l))"

definition extglob_close :: "u8 \<Rightarrow> blexer \<Rightarrow> blexer bash_part" where
  "extglob_close depth l =
     (if la l = ch CHR '')'' \<and> depth = 0 then
        (let l = advance (mark_end l) in if iswspace (la l) then (Some False, l) else (None, l))
      else (None, l))"

text \<open>The first character, which must not begin the word \<open>esac\<close>.\<close>

definition extglob_first :: "blexer \<Rightarrow> blexer bash_part" where
  "extglob_first l =
     (if la l = ch CHR ''['' then (None, l)
      else if la l \<noteq> ch CHR ''e'' then (None, advance l)
      else
        (let l = advance (mark_end l) in if la l \<noteq> ch CHR ''s'' then (None, l) else
         let l = advance l in if la l \<noteq> ch CHR ''a'' then (None, l) else
         let l = advance l in if la l \<noteq> ch CHR ''c'' then (None, l) else
         let l = advance l in if iswspace (la l) then (Some False, l) else (None, l)))"

definition extglob_dash :: "blexer \<Rightarrow> blexer bash_part" where
  "extglob_dash l =
     (if la l = ch CHR ''-'' then
        (let l = advance_while iswalnum (advance (mark_end l))
         in if la l = ch CHR '')'' \<or> la l = ch CHR 0x5C \<or> la l = ch CHR ''.'' then (Some False, l)
            else (None, mark_end l))
      else (None, l))"

definition extglob_case_item :: "u8 \<Rightarrow> bool \<Rightarrow> blexer \<Rightarrow> blexer bash_part" where
  "extglob_case_item depth was_non_alpha l =
     (if la l = ch CHR '')'' \<and> depth = 0 then
        (let l = advance (mark_end l)
         in if iswspace (la l) then (Some was_non_alpha, set_sym EXTGLOB_PATTERN l) else (None, l))
      else (None, l))"

definition extglob_space :: "BashScanner \<Rightarrow> BashScanner bash_part" where
  "extglob_space s =
     (if iswspace (blook s)
      then (Some True, (on_lex (set_sym EXTGLOB_PATTERN) (on_lex mark_end s))\<lparr>last_glob_paren_depth := 0\<rparr>)
      else (None, s))"

definition extglob_dollar :: "blexer \<Rightarrow> blexer bash_part" where
  "extglob_dollar l =
     (if la l = ch CHR ''$'' then
        (let l = advance (mark_end l)
         in if la l = ch CHR ''{'' \<or> la l = ch CHR ''('' then (Some True, set_sym EXTGLOB_PATTERN l) else (None, l))
      else (None, l))"

definition extglob_bar :: "blexer \<Rightarrow> blexer bash_part" where
  "extglob_bar l =
     (if la l = ch CHR ''|'' then (Some True, set_sym EXTGLOB_PATTERN (advance (mark_end l))) else (None, l))"

definition extglob_other :: "blexer \<Rightarrow> blexer bash_part" where
  "extglob_other l =
     (if \<not> iswalnum (la l) \<and> la l \<notin> ch ` set ([CHR 0x22, CHR 0x5C] @ ''([?/_*'') then (Some False, l) else (None, l))"

definition glob_switch :: "int \<Rightarrow> GlobState \<Rightarrow> GlobState" where
  "glob_switch c st =
     (if c = ch CHR ''('' then st\<lparr>glob_paren_depth := glob_paren_depth st + 1\<rparr>
      else if c = ch CHR ''['' then st\<lparr>glob_bracket_depth := glob_bracket_depth st + 1\<rparr>
      else if c = ch CHR ''{'' then st\<lparr>glob_brace_depth := glob_brace_depth st + 1\<rparr>
      else if c = ch CHR '')'' then
        st\<lparr>glob_done := (glob_done st \<or> glob_paren_depth st = 0), glob_paren_depth := glob_paren_depth st - 1\<rparr>
      else if c = ch CHR '']'' then
        st\<lparr>glob_done := (glob_done st \<or> glob_bracket_depth st = 0), glob_bracket_depth := glob_bracket_depth st - 1\<rparr>
      else if c = ch CHR ''}'' then
        st\<lparr>glob_done := (glob_done st \<or> glob_brace_depth st = 0), glob_brace_depth := glob_brace_depth st - 1\<rparr>
      else st)"

definition note_char :: "int \<Rightarrow> GlobState \<Rightarrow> GlobState" where
  "note_char c st =
     (if \<not> iswalpha c \<and> c \<noteq> ch CHR ''.'' \<and> c \<noteq> ch CHR 0x5C then st\<lparr>saw_non_alphadot := True\<rparr> else st)"

text \<open>A return with the token, which clears the depth.\<close>

definition glob_return :: "GlobState \<Rightarrow> BashScanner \<Rightarrow> bool option \<times> GlobState \<times> BashScanner" where
  "glob_return st s = (Some (saw_non_alphadot st), st, (on_lex (set_sym EXTGLOB_PATTERN) s)\<lparr>last_glob_paren_depth := 0\<rparr>)"

definition glob_consume :: "GlobState \<Rightarrow> BashScanner \<Rightarrow> bool option \<times> GlobState \<times> BashScanner" where
  "glob_consume st s =
     (let was_space = iswspace (blook s);
          dollar = (blook s = ch CHR ''$'');
          st = (if dollar then note_char (blook s) st else st);
          s = (if dollar then on_lex advance (on_lex mark_end s) else s)
      in if dollar \<and> (blook s = ch CHR ''('' \<or> blook s = ch CHR ''{'') then
           (Some (saw_non_alphadot st), st,
            (on_lex (set_sym EXTGLOB_PATTERN) s)\<lparr>last_glob_paren_depth := ucast (glob_paren_depth st)\<rparr>)
         else if was_space then glob_return st (on_lex mark_end s)
         else if blook s = ch CHR 0x22 then glob_return st (on_lex mark_end s)
         else
           (let st = note_char (blook s) st;
                escape = (blook s = ch CHR 0x5C);
                s = on_lex advance s;
                s = (if escape \<and> (iswspace (blook s) \<or> blook s = ch CHR 0x22) then on_lex advance s else s)
            in (None, st, if \<not> was_space then on_lex mark_end s else s)))"

definition glob_step :: "GlobState \<Rightarrow> BashScanner \<Rightarrow> bool option \<times> GlobState \<times> BashScanner" where
  "glob_step st s =
     (if blook s = 0 then (Some False, st, s)
      else
        (let st = glob_switch (blook s) st;
             bar = (blook s = ch CHR ''|'');
             s = (if bar then on_lex advance (on_lex mark_end s) else s)
         in if bar \<and> glob_paren_depth st = 0 \<and> glob_bracket_depth st = 0 \<and> glob_brace_depth st = 0
            then (Some True, st, on_lex (set_sym EXTGLOB_PATTERN) s)
            else if \<not> glob_done st then glob_consume st s
            else (None, st, s)))"

lemma blex_depth [simp]: "blex (s\<lparr>last_glob_paren_depth := d\<rparr>) = blex s"
  by simp

lemma later_glob_consume [scan_mono]: "later m (blex s) \<Longrightarrow> later m (blex (snd (snd (glob_consume st s))))"
  by (simp add: glob_consume_def glob_return_def Let_def scan_mono)

lemma later_glob_step [scan_mono]: "later m (blex s) \<Longrightarrow> later m (blex (snd (snd (glob_step st s))))"
  by (simp add: glob_step_def Let_def scan_mono)

lemma glob_consume_later:
  "glob_consume st s = (None, st', s') \<Longrightarrow> later (advance (blex s)) (blex s')"
  by (auto simp: glob_consume_def glob_return_def Let_def scan_mono split: if_splits)

lemma note_char_done [simp]: "glob_done (note_char c st) = glob_done st"
  by (simp add: note_char_def)

lemma glob_step_less:
  assumes "glob_step st s = (None, st', s')" "\<not> glob_done st'"
  shows "length (rest (blex s')) < length (rest (blex s))"
proof -
  have "blook s \<noteq> 0" using assms by (auto simp: glob_step_def)
  moreover have "later (advance (blex s)) (blex s')"
  proof -
    define u where "u = (if blook s = ch CHR ''|'' then on_lex advance (on_lex mark_end s) else s)"
    have "glob_consume (glob_switch (blook s) st) u = (None, st', s')"
      using assms unfolding glob_step_def Let_def u_def [symmetric] by (auto split: if_splits)
    then have "later (blex u) (blex s')" "later (advance (blex u)) (blex s')"
      using later_glob_consume [of "blex u" u "glob_switch (blook s) st"] glob_consume_later by auto
    then show ?thesis by (cases "blook s = ch CHR ''|''") (simp_all add: u_def)
  qed
  ultimately show ?thesis by (intro later_less [of "blex s" "blex s"]) auto
qed

function glob_loop :: "GlobState \<Rightarrow> BashScanner \<Rightarrow> bool option \<times> GlobState \<times> BashScanner" where
  "glob_loop st s =
     (if glob_done st then (None, st, s)
      else
        (case glob_step st s of
           (Some r, st, s) \<Rightarrow> (Some r, st, s)
         | (None, st, s) \<Rightarrow> glob_loop st s))"
  by pat_completeness auto
termination
proof (relation "measure (\<lambda>(st, s). if glob_done st then 0 else Suc (length (rest (blex s))))", goal_cases)
  case (2 st s p r st' s')
  then show ?case using glob_step_less [of st s st'] by auto
qed simp

declare glob_loop.simps [simp del]

definition extglob_tail :: "bool \<Rightarrow> BashScanner \<Rightarrow> BashScanner bash_part" where
  "extglob_tail was_non_alpha s =
     (case glob_loop \<lparr>glob_done = False, saw_non_alphadot = was_non_alpha,
         glob_paren_depth = ucast (last_glob_paren_depth s), glob_bracket_depth = 0, glob_brace_depth = 0\<rparr> s of
        (Some r, st, s) \<Rightarrow> (Some r, s)
      | (None, st, s) \<Rightarrow>
          (Some (saw_non_alphadot st), (on_lex (set_sym EXTGLOB_PATTERN) s)\<lparr>last_glob_paren_depth := 0\<rparr>))"

definition extglob_body :: "BashScanner \<Rightarrow> BashScanner bash_part" where
  "extglob_body s =
     andthen (on_lex_part extglob_escape s) (\<lambda>s.
     andthen (on_lex_part (extglob_close (last_glob_paren_depth s)) s) (\<lambda>s.
     let s = on_lex mark_end s;
         was_non_alpha = (\<not> iswalpha (blook s))
     in andthen (on_lex_part extglob_first s) (\<lambda>s.
        andthen (on_lex_part extglob_dash s) (\<lambda>s.
        andthen (on_lex_part (extglob_case_item (last_glob_paren_depth s) was_non_alpha) s) (\<lambda>s.
        andthen (extglob_space s) (\<lambda>s.
        andthen (on_lex_part extglob_dollar s) (\<lambda>s.
        andthen (on_lex_part extglob_bar s) (\<lambda>s.
        andthen (on_lex_part extglob_other s) (extglob_tail was_non_alpha)))))))))"

definition scan_extglob :: "valid_symbols \<Rightarrow> BashScanner \<Rightarrow> BashScanner bash_part" where
  "scan_extglob v s =
     (if v EXTGLOB_PATTERN \<and> \<not> in_error_recovery v then
        (let s = on_lex (skip_while iswspace) s
         in if blook s \<in> ch ` set ([CHR 0x5C] @ ''?*+@!-).['') \<or> iswalpha (blook s) then extglob_body s
            else (Some False, s\<lparr>last_glob_paren_depth := 0\<rparr>))
      else (None, s))"

section \<open>Words in expansions\<close>

definition starts_expansion :: "int \<Rightarrow> bool" where
  "starts_expansion c \<longleftrightarrow> c = ch CHR ''{'' \<or> c = ch CHR ''('' \<or> c = ch CHR 0x27 \<or> iswalnum c"

text \<open>The loop inside parentheses; the state is \<open>advanced_once\<close> and \<open>advance_once_space\<close>.\<close>

function expansion_paren_loop :: "bool \<Rightarrow> bool \<Rightarrow> blexer \<Rightarrow> bool option \<times> bool \<times> bool \<times> blexer" where
  "expansion_paren_loop once once_space l =
     (if la l \<noteq> ch CHR '')'' \<and> \<not> eof l then
        (if la l = ch CHR ''$'' then
           (let l = advance (mark_end l)
            in if starts_expansion (la l) then (Some once, once, once_space, set_sym EXPANSION_WORD l)
               else expansion_paren_loop True once_space l)
         else expansion_paren_loop (once \<or> \<not> iswspace (la l)) (once_space \<or> iswspace (la l)) (advance l))
      else (None, once, once_space, l))"
  by pat_completeness auto
termination
  by (relation "measure (\<lambda>(a, b, l). length (rest l))") (auto simp: eof_def length_tl_less)

declare expansion_paren_loop.simps [simp del]

definition expansion_paren :: "bool \<Rightarrow> bool \<Rightarrow> blexer \<Rightarrow> bool option \<times> bool \<times> bool \<times> blexer" where
  "expansion_paren once once_space l =
     (case expansion_paren_loop once once_space (advance (mark_end l)) of
        (Some r, once, once_space, l) \<Rightarrow> (Some r, once, once_space, l)
      | (None, once, once_space, l) \<Rightarrow>
          (let l = mark_end l
           in if la l = ch CHR '')'' then
                (let l = mark_end (advance l)
                 in if la l = ch CHR ''}'' then (Some False, True, once_space, l) else (None, True, once_space, l))
              else (Some False, once, once_space, l)))"

text \<open>One round of the outer loop; the character is consumed at its end.\<close>

definition expansion_dollar :: "bool \<Rightarrow> blexer \<Rightarrow> bool option \<times> bool \<times> blexer" where
  "expansion_dollar once l =
     (if la l = ch CHR ''$'' then
        (let l = advance (mark_end l)
         in if starts_expansion (la l) then (Some once, once, set_sym EXPANSION_WORD l) else (None, True, l))
      else (None, once, l))"

definition expansion_step :: "bool \<Rightarrow> bool \<Rightarrow> blexer \<Rightarrow> bool option \<times> bool \<times> bool \<times> blexer" where
  "expansion_step once once_space l =
     (if la l = ch CHR 0x22 then (Some False, once, once_space, l)
      else
        (case expansion_dollar once l of
           (Some r, once, l) \<Rightarrow> (Some r, once, once_space, l)
         | (None, once, l) \<Rightarrow>
             if la l = ch CHR ''}'' then
               (Some (once \<or> once_space), once, once_space, set_sym EXPANSION_WORD (mark_end l))
             else
               (case (if la l = ch CHR ''('' \<and> \<not> (once \<or> once_space) then expansion_paren once once_space l
                      else (None, once, once_space, l)) of
                  (Some r, once, once_space, l) \<Rightarrow> (Some r, once, once_space, l)
                | (None, once, once_space, l) \<Rightarrow>
                    if la l = ch CHR 0x27 \<or> eof l then (Some False, once, once_space, l)
                    else (None, once \<or> \<not> iswspace (la l), once_space \<or> iswspace (la l), advance l))))"

lemma later_expansion_paren_loop [scan_mono]:
  "later m l \<Longrightarrow> later m (snd (snd (snd (expansion_paren_loop a b l))))"
proof (induction a b l rule: expansion_paren_loop.induct)
  case (1 a b l)
  then show ?case by (subst expansion_paren_loop.simps) (simp add: Let_def scan_mono)
qed

lemma later_expansion_paren [scan_mono]: "later m l \<Longrightarrow> later m (snd (snd (snd (expansion_paren a b l))))"
  by (simp add: expansion_paren_def Let_def split_def scan_mono split: option.split)

lemma later_expansion_dollar [scan_mono]: "later m l \<Longrightarrow> later m (snd (snd (expansion_dollar a l)))"
  by (simp add: expansion_dollar_def Let_def scan_mono)

lemma later_expansion_step:
  assumes "later m l"
  shows "later m (snd (snd (snd (expansion_step a b l))))"
    and "fst (expansion_step a b l) = None \<Longrightarrow>
      \<exists>k. later l k \<and> \<not> eof k \<and> snd (snd (snd (expansion_step a b l))) = advance k"
proof -
  obtain r1 a1 l1 where d: "expansion_dollar a l = (r1, a1, l1)" by (metis surj_pair)
  have l1: "later n l1" if "later n l" for n using later_expansion_dollar [OF that, of a] d by simp
  obtain r2 a2 b2 l2 where p: "(if la l1 = ch CHR ''('' \<and> \<not> (a1 \<or> b) then expansion_paren a1 b l1
      else (None, a1, b, l1)) = (r2, a2, b2, l2)" by (metis surj_pair)
  have l2: "later n l2" if "later n l" for n
    using later_expansion_paren [OF l1 [OF that], of a1 b] l1 [OF that] p by (auto split: if_splits)
  show "later m (snd (snd (snd (expansion_step a b l))))"
    unfolding expansion_step_def d prod.case p using assms l1 [OF assms] l2 [OF assms]
    by (simp add: scan_mono split: option.split)
  show "fst (expansion_step a b l) = None \<Longrightarrow>
      \<exists>k. later l k \<and> \<not> eof k \<and> snd (snd (snd (expansion_step a b l))) = advance k"
    unfolding expansion_step_def d prod.case p using l2 [of l]
    by (auto split: option.splits if_splits)
qed

function expansion_word_loop :: "bool \<Rightarrow> bool \<Rightarrow> blexer \<Rightarrow> bool \<times> blexer" where
  "expansion_word_loop once once_space l =
     (case expansion_step once once_space l of
        (Some r, _, _, l) \<Rightarrow> (r, l)
      | (None, once, once_space, l) \<Rightarrow> expansion_word_loop once once_space l)"
  by pat_completeness auto
termination
proof (relation "measure (\<lambda>(a, b, l). length (rest l))", goal_cases)
  case (2 a b l p t a' u b' l')
  then have "expansion_step a b l = (None, a', b', l')" by auto
  then obtain k where k: "later l k" "\<not> eof k" "l' = advance k"
    using later_expansion_step(2) [OF later_refl, of a b l] by auto
  then have "length (rest l') < length (rest k)" by (cases "rest k") (simp_all add: eof_def)
  with later_length [OF k(1)] show ?case by simp
qed simp

declare expansion_word_loop.simps [simp del]

section \<open>The main function\<close>

definition from_brace_start :: "valid_symbols \<Rightarrow> BashScanner \<Rightarrow> bool \<times> BashScanner" where
  "from_brace_start v s =
     (if v BRACE_START \<and> \<not> in_error_recovery v then
        (let l = skip_while iswspace (blex s);
             fail = (\<lambda>l. (False, s\<lparr>blex := l\<rparr>))
         in if la l \<noteq> ch CHR ''{'' then fail l else
            let l = advance_while iswdigit (mark_end (advance l)) in if la l \<noteq> ch CHR ''.'' then fail l else
            let l = advance l in if la l \<noteq> ch CHR ''.'' then fail l else
            let l = advance_while iswdigit (advance l) in if la l \<noteq> ch CHR ''}'' then fail l else
            (True, s\<lparr>blex := set_sym BRACE_START l\<rparr>))
      else (False, s))"

definition from_expansion_word :: "valid_symbols \<Rightarrow> BashScanner \<Rightarrow> bool \<times> BashScanner" where
  "from_expansion_word v s =
     (if v EXPANSION_WORD then
        (let (r, l) = expansion_word_loop False False (blex s) in (r, s\<lparr>blex := l\<rparr>))
      else from_brace_start v s)"

definition from_extglob :: "valid_symbols \<Rightarrow> BashScanner \<Rightarrow> bool \<times> BashScanner" where
  "from_extglob v s =
     (case scan_extglob v s of (Some r, s) \<Rightarrow> (r, s) | (None, s) \<Rightarrow> from_expansion_word v s)"

definition from_regex :: "valid_symbols \<Rightarrow> BashScanner \<Rightarrow> bool \<times> BashScanner" where
  "from_regex v s =
     (case on_lex_part (scan_regex v) s of (Some r, s) \<Rightarrow> (r, s) | (None, s) \<Rightarrow> from_extglob v s)"

text \<open>The blocks at the start of \<open>scan\<close>.\<close>

definition scan_concat_backtick :: "blexer \<Rightarrow> blexer bash_part" where
  "scan_concat_backtick l =
     (let l = advance_while (\<lambda>c. c \<noteq> ch CHR 0x60) (advance (mark_end l))
      in if eof l then (Some False, l)
         else (let l = (if la l = ch CHR 0x60 then advance l else l) in (Some (iswspace (la l) \<or> eof l), l)))"

definition scan_concat :: "valid_symbols \<Rightarrow> blexer \<Rightarrow> blexer bash_part" where
  "scan_concat v l =
     (if v CONCAT \<and> \<not> in_error_recovery v then
        andthen
          (if \<not> (la l = 0 \<or> iswspace (la l) \<or> la l \<in> ch ` set ''><)(;&|'' \<or>
                 la l = ch CHR ''}'' \<and> v CLOSING_BRACE \<or> la l = ch CHR '']'' \<and> v CLOSING_BRACKET) then
             (let l = set_sym CONCAT l
              in if la l = ch CHR 0x60 then scan_concat_backtick l
                 else if la l = ch CHR 0x5C then
                   (let l = advance (mark_end l)
                    in if la l = ch CHR 0x22 \<or> la l = ch CHR 0x27 \<or> la l = ch CHR 0x5C then (Some True, l)
                       else if eof l then (Some False, l)
                       else (None, l))
                 else (Some True, l))
           else (None, l))
          (\<lambda>l. if iswspace (la l) \<and> v CLOSING_BRACE \<and> \<not> v EXPANSION_WORD then (Some True, set_sym CONCAT l)
               else (None, l))
      else (None, l))"

definition scan_double_hash :: "valid_symbols \<Rightarrow> blexer \<Rightarrow> blexer bash_part" where
  "scan_double_hash v l =
     (if v IMMEDIATE_DOUBLE_HASH \<and> \<not> in_error_recovery v \<and> la l = ch CHR ''#'' then
        (let l = advance (mark_end l) in if la l \<noteq> ch CHR ''#'' then (None, l) else
         let l = advance l in if la l = ch CHR ''}'' then (None, l) else
         (Some True, mark_end (set_sym IMMEDIATE_DOUBLE_HASH l)))
      else (None, l))"

definition scan_expansion_sym :: "valid_symbols \<Rightarrow> blexer \<Rightarrow> blexer bash_part" where
  "scan_expansion_sym v l =
     (let is_sym = (\<lambda>c. c = ch CHR ''#'' \<or> c = ch CHR ''='' \<or> c = ch CHR ''!'')
      in if v EXTERNAL_EXPANSION_SYM_HASH \<and> \<not> in_error_recovery v \<and> is_sym (la l) then
           (let l = set_sym (if la l = ch CHR ''#'' then EXTERNAL_EXPANSION_SYM_HASH
                             else if la l = ch CHR ''!'' then EXTERNAL_EXPANSION_SYM_BANG
                             else EXTERNAL_EXPANSION_SYM_EQUAL) l;
                l = skip_while iswspace (advance_while is_sym (mark_end (advance l)))
            in (Some (la l = ch CHR ''}''), l))
         else (None, l))"

definition scan_empty_value :: "valid_symbols \<Rightarrow> blexer \<Rightarrow> blexer bash_part" where
  "scan_empty_value v l =
     (if v EMPTY_VALUE \<and> (iswspace (la l) \<or> eof l \<or> la l = ch CHR '';'' \<or> la l = ch CHR ''&'')
      then (Some True, set_sym EMPTY_VALUE l) else (None, l))"

text \<open>The four blocks on here documents.\<close>

definition returning :: "bool \<times> 'a \<Rightarrow> 'a bash_part" where
  "returning r = (Some (fst r), snd r)"

definition scan_heredoc :: "valid_symbols \<Rightarrow> BashScanner \<Rightarrow> BashScanner bash_part" where
  "scan_heredoc v s =
     (if (v HEREDOC_BODY_BEGINNING \<or> v SIMPLE_HEREDOC_BODY) \<and> 0 < length (heredocs s) \<and>
         \<not> started (array_back s) \<and> \<not> in_error_recovery v
      then returning (scan_heredoc_content HEREDOC_BODY_BEGINNING SIMPLE_HEREDOC_BODY s)
      else
        andthen
          (if v HEREDOC_END \<and> 0 < length (heredocs s) then
             (let (found, s) = scan_heredoc_end_identifier s
              in if found
                 then (Some True, on_lex (set_sym HEREDOC_END) (s\<lparr>heredocs := butlast (heredocs s)\<rparr>))
                 else (None, s))
           else (None, s))
          (\<lambda>s. if v HEREDOC_CONTENT \<and> 0 < length (heredocs s) \<and> started (array_back s) \<and> \<not> in_error_recovery v
               then returning (scan_heredoc_content HEREDOC_CONTENT HEREDOC_END s)
               else if v HEREDOC_START \<and> \<not> in_error_recovery v \<and> 0 < length (heredocs s)
               then returning (scan_heredoc_start s)
               else (None, s)))"

text \<open>Where control goes behind a block that may jump.\<close>

datatype target = Return bool | Fall | Goto_regex | Goto_extglob | Goto_expansion_word | Goto_brace_start

text \<open>The block for \<open>TEST_OPERATOR\<close>: an escaped line break, the operator, a dollar sign.\<close>

definition scan_line_continuation :: "blexer \<Rightarrow> target \<times> blexer" where
  "scan_line_continuation l =
     (let l = skip l
      in if eof l then (Return False, l)
         else if la l = 13 then
           (let l = skip l; l = (if la l = 10 then skip l else l) in (Fall, skip_while iswspace l))
         else if la l = 10 then (Fall, skip_while iswspace (skip l))
         else (Return False, l))"

definition scan_dash_operator :: "valid_symbols \<Rightarrow> blexer \<Rightarrow> target \<times> blexer" where
  "scan_dash_operator v l =
     (if la l = ch CHR ''-'' then
        (let l = advance l;
             once = iswalpha (la l);
             l = advance_while iswalpha l
         in if iswspace (la l) \<and> once then
              (let l = advance (mark_end l)
               in if la l = ch CHR ''}'' \<and> v CLOSING_BRACE then
                    (if v EXPANSION_WORD then (Return True, set_sym EXPANSION_WORD (mark_end l)) else (Return False, l))
                  else (Return True, set_sym TEST_OPERATOR l))
            else if iswspace (la l) \<and> v EXTGLOB_PATTERN then (Return True, set_sym EXTGLOB_PATTERN l)
            else (Fall, l))
      else (Fall, l))"

definition bare_dollar :: "valid_symbols \<Rightarrow> blexer \<Rightarrow> target \<times> blexer" where
  "bare_dollar v l =
     (if v BARE_DOLLAR \<and> \<not> in_error_recovery v
      then (let (found, l) = scan_bare_dollar l in (if found then Return True else Fall, l))
      else (Fall, l))"

definition scan_test_operator :: "valid_symbols \<Rightarrow> blexer \<Rightarrow> target \<times> blexer" where
  "scan_test_operator v l =
     (if v TEST_OPERATOR \<and> \<not> v EXPANSION_WORD then
        (let l = skip_while (\<lambda>c. iswspace c \<and> c \<noteq> 10) l;
             (t, l) =
               (if la l = ch CHR 0x5C then
                  (if v EXTGLOB_PATTERN then (Goto_extglob, l)
                   else if v REGEX_NO_SPACE then (Goto_regex, l)
                   else scan_line_continuation l)
                else (Fall, l))
         in if t \<noteq> Fall then (t, l)
            else
              (let l = (if la l = 10 \<and> \<not> v NEWLINE then skip_while iswspace (skip l) else l);
                   (t, l) = scan_dash_operator v l
               in if t \<noteq> Fall then (t, l) else bare_dollar v l))
      else (Fall, l))"

text \<open>The block for variable names, file descriptors and the arrows of here documents.\<close>

function variable_space_loop :: "valid_symbols \<Rightarrow> blexer \<Rightarrow> target \<times> blexer" where
  "variable_space_loop v l =
     (if (la l = ch CHR '' '' \<or> la l = 9 \<or> la l = 13 \<or> la l = 10 \<and> \<not> v NEWLINE) \<and> \<not> v EXPANSION_WORD
      then variable_space_loop v (skip l)
      else if la l = ch CHR 0x5C then
        (let l = skip l
         in if eof l then (Return True, set_sym VARIABLE_NAME (mark_end l))
            else
              (let l = (if la l = 13 then skip l else l)
               in if la l = 10 then variable_space_loop v (skip l)
                  else if la l = ch CHR 0x5C \<and> v EXPANSION_WORD then (Goto_expansion_word, l)
                  else (Return False, l)))
      else (Fall, l))"
  by pat_completeness auto
termination
proof (relation "measure (\<lambda>(v, l). length (rest l))", goal_cases)
  case (2 v l)
  then have "la l \<noteq> 0" by auto
  then show ?case by (simp add: length_tl_less la_nonzero)
next
  case (3 v l l1 l2)
  then have "la l \<noteq> 0" "later (skip l) (skip l2)" by (auto simp: scan_mono)
  then have "length (rest (skip l2)) < length (rest l)" by (intro later_less [of l l]) auto
  then show ?case by simp
qed simp

declare variable_space_loop.simps [simp del]

definition scan_special_name :: "valid_symbols \<Rightarrow> blexer \<Rightarrow> target \<times> blexer" where
  "scan_special_name v l =
     (if \<not> v EXPANSION_WORD \<and> la l \<in> ch ` set ''*@?-0_'' then
        (let l = advance (mark_end l)
         in if la l \<in> ch ` set ''=[:-%#/'' then (Return False, l)
            else if v EXTGLOB_PATTERN \<and> iswspace (la l) then (Return True, set_sym EXTGLOB_PATTERN (mark_end l))
            else (Fall, l))
      else (Fall, l))"

definition scan_heredoc_arrow :: "BashScanner \<Rightarrow> bool \<times> BashScanner" where
  "scan_heredoc_arrow s =
     (let s = on_lex advance s
      in if blook s = ch CHR ''<'' then
           (let s = on_lex advance s
            in if blook s = ch CHR ''-'' then
                 (True, on_lex (set_sym HEREDOC_ARROW_DASH)
                    ((on_lex advance s)\<lparr>heredocs := heredocs s @ [heredoc_new\<lparr>allows_indent := True\<rparr>]\<rparr>))
               else if blook s = ch CHR ''<'' \<or> blook s = ch CHR ''='' then (False, s)
               else (True, on_lex (set_sym HEREDOC_ARROW) (s\<lparr>heredocs := heredocs s @ [heredoc_new]\<rparr>)))
         else (False, s))"

text \<open>The loop over the rest of a name, with \<open>is_number\<close>.\<close>

function name_loop :: "bool \<Rightarrow> blexer \<Rightarrow> bool \<times> blexer" where
  "name_loop is_number l =
     (if iswdigit (la l) then name_loop is_number (advance l)
      else if iswalpha (la l) \<or> la l = ch CHR ''_'' then name_loop False (advance l)
      else (is_number, l))"
  by pat_completeness auto
termination
proof (relation "measure (\<lambda>(b, l). length (rest l))", goal_cases)
  case (2 b l)
  then have "la l \<noteq> 0" by auto
  then show ?case by (simp add: length_tl_less la_nonzero)
next
  case (3 b l)
  then have "la l \<noteq> 0" by auto
  then show ?case by (simp add: length_tl_less la_nonzero)
qed simp

declare name_loop.simps [simp del]

definition scan_name_end :: "valid_symbols \<Rightarrow> bool \<Rightarrow> blexer \<Rightarrow> bool \<times> blexer" where
  "scan_name_end v is_number l =
     (if is_number \<and> v FILE_DESCRIPTOR \<and> (la l = ch CHR ''>'' \<or> la l = ch CHR ''<'')
      then (True, set_sym FILE_DESCRIPTOR l)
      else if v VARIABLE_NAME then
        (if la l = ch CHR ''+'' then
           (let l = advance (mark_end l)
            in if la l = ch CHR ''='' \<or> la l = ch CHR '':'' \<or> v CLOSING_BRACE
               then (True, set_sym VARIABLE_NAME l) else (False, l))
         else if la l = ch CHR ''/'' then (False, l)
         else if la l = ch CHR ''='' \<or> la l = ch CHR ''['' \<or>
                 la l = ch CHR '':'' \<and> \<not> v CLOSING_BRACE \<and> \<not> v OPENING_PAREN \<or> la l = ch CHR ''%'' \<or>
                 la l = ch CHR ''#'' \<and> \<not> is_number \<or> la l = ch CHR ''@'' \<or>
                 la l = ch CHR ''-'' \<and> v CLOSING_BRACE
         then (True, set_sym VARIABLE_NAME (mark_end l))
         else if la l = ch CHR ''?'' then
           (let l = set_sym VARIABLE_NAME (advance (mark_end l)) in (iswalpha (la l), l))
         else (False, l))
      else (False, l))"

definition scan_name :: "valid_symbols \<Rightarrow> blexer \<Rightarrow> target \<times> blexer" where
  "scan_name v l =
     (if iswdigit (la l) \<or> iswalpha (la l) \<or> la l = ch CHR ''_'' then
        (let (is_number, l) = name_loop (iswdigit (la l)) (advance l);
             (r, l) = scan_name_end v is_number l
         in (Return r, l))
      else if la l = ch CHR ''{'' then (Goto_brace_start, l)
      else if v EXPANSION_WORD then (Goto_expansion_word, l)
      else if v EXTGLOB_PATTERN then (Goto_extglob, l)
      else (Return False, l))"

definition scan_variable :: "valid_symbols \<Rightarrow> BashScanner \<Rightarrow> target \<times> BashScanner" where
  "scan_variable v s =
     (if (v VARIABLE_NAME \<or> v FILE_DESCRIPTOR \<or> v HEREDOC_ARROW) \<and> \<not> v REGEX_NO_SLASH \<and> \<not> in_error_recovery v then
        (let (t, l) = variable_space_loop v (blex s)
         in if t \<noteq> Fall then (t, s\<lparr>blex := l\<rparr>)
            else
              (let (t, l) = scan_special_name v l
               in if t \<noteq> Fall then (t, s\<lparr>blex := l\<rparr>)
                  else if v HEREDOC_ARROW \<and> la l = ch CHR ''<'' then
                    (let (r, s) = scan_heredoc_arrow (s\<lparr>blex := l\<rparr>) in (Return r, s))
                  else (let (t, l) = scan_name v l in (t, s\<lparr>blex := l\<rparr>))))
      else (Fall, s))"

definition go :: "valid_symbols \<Rightarrow> target \<Rightarrow> BashScanner \<Rightarrow> bool \<times> BashScanner" where
  "go v t s =
     (case t of Return r \<Rightarrow> (r, s) | Fall \<Rightarrow> from_regex v s | Goto_regex \<Rightarrow> from_regex v s
      | Goto_extglob \<Rightarrow> from_extglob v s | Goto_expansion_word \<Rightarrow> from_expansion_word v s
      | Goto_brace_start \<Rightarrow> from_brace_start v s)"

definition bash_scan :: "BashScanner \<Rightarrow> valid_symbols \<Rightarrow> bool \<times> BashScanner" where
  "bash_scan s v =
     (case andthen (on_lex_part (scan_concat v) s) (\<lambda>s.
             andthen (on_lex_part (scan_double_hash v) s) (\<lambda>s.
             andthen (on_lex_part (scan_expansion_sym v) s) (\<lambda>s.
             andthen (on_lex_part (scan_empty_value v) s) (scan_heredoc v)))) of
        (Some r, s) \<Rightarrow> (r, s)
      | (None, s) \<Rightarrow>
          (let (t, l) = scan_test_operator v (blex s); s = s\<lparr>blex := l\<rparr>
           in if t \<noteq> Fall then go v t s
              else
                (let (t, s) = scan_variable v s
                 in if t \<noteq> Fall then go v t s
                    else (let (t, l) = bare_dollar v (blex s) in go v t (s\<lparr>blex := l\<rparr>)))))"
end
