(* ===== verification/Bash_Proofs.thy ===== *)
theory Bash_Proofs
  imports Bash_Scanner
begin

text \<open>
  The invariant of the Bash scanner and what a call does to the list of here documents; the end of a here
  document; the serialization of the state.
\<close>

section \<open>The lexer moves forward\<close>

lemma later_andthen [scan_mono]:
  assumes "later m (snd p)" "\<And>l. later m l \<Longrightarrow> later m (snd (f l))"
  shows "later m (snd (andthen p f))"
  using assms(1) assms(2) [of "snd p"] by (cases p) (auto simp: andthen_def split: option.split)

lemma later_bare_dollar [scan_mono]:
  "later m l \<Longrightarrow> later m (snd (scan_bare_dollar l))" "later m l \<Longrightarrow> later m (snd (bare_dollar v l))"
  by (simp_all add: scan_bare_dollar_def bare_dollar_def Let_def split_def scan_mono)

lemma later_regex_loop [scan_mono]: "later m l \<Longrightarrow> later m (snd (snd (regex_loop v st l)))"
proof (induction v st l rule: regex_loop.induct)
  case (1 v st l)
  have "later m (snd (snd (regex_step v st l)))" using 1(2) by (rule later_regex_step)
  with 1 show ?case by (subst regex_loop.simps) (auto split: option.split prod.split)
qed

lemma later_scan_regex [scan_mono]: "later m l \<Longrightarrow> later m (snd (scan_regex v l))"
  by (simp add: scan_regex_def Let_def split_def scan_mono split: option.split)

lemma later_extglob_parts [scan_mono]:
  assumes "later m l"
  shows "later m (snd (extglob_escape l))" "later m (snd (extglob_close d l))" "later m (snd (extglob_first l))"
    "later m (snd (extglob_dash l))" "later m (snd (extglob_case_item d w l))" "later m (snd (extglob_dollar l))"
    "later m (snd (extglob_bar l))" "later m (snd (extglob_other l))"
  using assms
  by (simp_all add: extglob_escape_def extglob_close_def extglob_first_def extglob_dash_def extglob_case_item_def
      extglob_dollar_def extglob_bar_def extglob_other_def Let_def scan_mono)

lemma later_expansion_word_loop [scan_mono]: "later m l \<Longrightarrow> later m (snd (expansion_word_loop a b l))"
proof (induction a b l rule: expansion_word_loop.induct)
  case (1 a b l)
  have "later m (snd (snd (snd (expansion_step a b l))))" using later_expansion_step(1) [OF 1(2)] .
  with 1 show ?case by (subst expansion_word_loop.simps) (auto split: option.split prod.split)
qed

lemma later_concat_backtick [scan_mono]: "later m l \<Longrightarrow> later m (snd (scan_concat_backtick l))"
  by (simp add: scan_concat_backtick_def Let_def scan_mono)

lemma later_scan_concat [scan_mono]: "later m l \<Longrightarrow> later m (snd (scan_concat v l))"
  unfolding scan_concat_def by (auto simp: Let_def scan_mono intro!: later_andthen)

lemma later_scan_heads [scan_mono]:
  assumes "later m l"
  shows "later m (snd (scan_double_hash v l))" "later m (snd (scan_expansion_sym v l))"
    "later m (snd (scan_empty_value v l))"
  using assms
  by (simp_all add: scan_double_hash_def scan_expansion_sym_def scan_empty_value_def Let_def scan_mono)

lemma later_scan_test_operator [scan_mono]: "later m l \<Longrightarrow> later m (snd (scan_test_operator v l))"
proof -
  have "later m (snd (scan_line_continuation l))" "later m (snd (scan_dash_operator v l))" if "later m l" for l
    using that by (simp_all add: scan_line_continuation_def scan_dash_operator_def Let_def scan_mono)
  then show "later m l \<Longrightarrow> ?thesis"
    by (simp add: scan_test_operator_def Let_def split_def scan_mono)
qed

lemma later_variable_space_loop [scan_mono]: "later m l \<Longrightarrow> later m (snd (variable_space_loop v l))"
proof (induction v l rule: variable_space_loop.induct)
  case (1 v l)
  let ?l = "if la (skip l) = 13 then skip (skip l) else skip l"
  have "later m ?l" using 1(3) by (simp add: scan_mono)
  with 1 show ?case
    unfolding variable_space_loop.simps [of v l] Let_def by (auto simp: scan_mono split del: if_split split: if_splits)
qed

lemma later_name_loop [scan_mono]: "later m l \<Longrightarrow> later m (snd (name_loop b l))"
proof (induction b l rule: name_loop.induct)
  case (1 b l)
  then show ?case by (subst name_loop.simps) (simp add: scan_mono)
qed

lemma later_scan_name [scan_mono]:
  assumes "later m l"
  shows "later m (snd (scan_special_name v l))" "later m (snd (scan_name v l))"
proof -
  have *: "later m (snd (scan_name_end v b l))" if "later m l" for b l
    using that by (simp add: scan_name_end_def Let_def scan_mono)
  show "later m (snd (scan_special_name v l))" "later m (snd (scan_name v l))"
    using assms * by (simp_all add: scan_special_name_def scan_name_def Let_def split_def scan_mono)
qed

section \<open>The invariant\<close>

text \<open>
  The delimiter of a here document is empty or ends with a null character, so that the comparison with
  the text never looks behind it. Its characters fit \<open>char\<close>.
\<close>

definition heredoc_ok :: "Heredoc \<Rightarrow> bool" where
  "heredoc_ok h \<longleftrightarrow> (delimiter h = [] \<or> last (delimiter h) = 0) \<and> list_all (\<lambda>c. i8 c = c) (delimiter h)"

definition bash_ok :: "BashScanner \<Rightarrow> bool" where
  "bash_ok s \<longleftrightarrow> \<not> assert_failed s \<and> list_all heredoc_ok (heredocs s)"

text \<open>
  \<open>reached m s\<close>: from \<open>m\<close> the scanner has read on to \<open>s\<close> with the invariant and as many here documents.
\<close>

definition reached :: "BashScanner \<Rightarrow> BashScanner \<Rightarrow> bool" where
  "reached m s \<longleftrightarrow> later (blex m) (blex s) \<and> bash_ok s \<and> length (heredocs s) = length (heredocs m)"

definition opened :: "BashScanner \<Rightarrow> BashScanner \<Rightarrow> bool" where
  "opened m s \<longleftrightarrow> later (blex m) (blex s) \<and> bash_ok s \<and> result_sym (blex s) \<in> {HEREDOC_ARROW, HEREDOC_ARROW_DASH} \<and>
     length (heredocs s) = Suc (length (heredocs m))"

definition closed :: "BashScanner \<Rightarrow> BashScanner \<Rightarrow> bool" where
  "closed m s \<longleftrightarrow> later (blex m) (blex s) \<and> bash_ok s \<and> result_sym (blex s) = HEREDOC_END \<and>
     Suc (length (heredocs s)) = length (heredocs m)"

definition bash_result :: "BashScanner \<Rightarrow> bool \<times> BashScanner \<Rightarrow> bool" where
  "bash_result m r \<longleftrightarrow> reached m (snd r) \<or> fst r \<and> (opened m (snd r) \<or> closed m (snd r))"

definition bash_part_ok :: "BashScanner \<Rightarrow> BashScanner bash_part \<Rightarrow> bool" where
  "bash_part_ok m r \<longleftrightarrow> (case fst r of None \<Rightarrow> reached m (snd r) | Some b \<Rightarrow> bash_result m (b, snd r))"

named_theorems bash_rules

lemma reached_refl [bash_rules]: "bash_ok s \<Longrightarrow> reached s s"
  by (simp add: reached_def)

lemma reached_on_lex:
  "reached m s \<Longrightarrow> later (blex s) l \<Longrightarrow> reached m (s\<lparr>blex := l\<rparr>)"
  by (auto simp: reached_def bash_ok_def intro: later_trans)

lemma reached_ops [bash_rules]:
  assumes "reached m s"
  shows "reached m (on_lex advance s)" "reached m (on_lex skip s)" "reached m (on_lex mark_end s)"
    "reached m (on_lex (set_sym k) s)" "reached m (on_lex (advance_while p) s)" "reached m (on_lex (skip_while p) s)"
    "reached m (s\<lparr>last_glob_paren_depth := d\<rparr>)"
  using assms by (simp_all add: reached_def bash_ok_def scan_mono)

lemma reached_upd_back:
  assumes "reached m s" "heredocs s \<noteq> []" "heredoc_ok (array_back s) \<Longrightarrow> heredoc_ok (f (array_back s))"
  shows "reached m (upd_back f s)"
proof -
  obtain hs h where "heredocs s = hs @ [h]" using assms(2) by (cases "heredocs s" rule: rev_cases) auto
  then show ?thesis
    using assms by (simp add: reached_def bash_ok_def upd_back_def array_back_def)
qed

lemma upd_back_nonempty [simp]: "heredocs (upd_back f s) \<noteq> []"
  by (simp add: upd_back_def)

lemma array_back_upd [simp]: "array_back (upd_back f s) = f (array_back s)" "array_back (on_lex g s) = array_back s"
  by (simp_all add: array_back_def upd_back_def on_lex_def)

lemma i8_i8 [simp]: "i8 (i8 x) = i8 x"
  by (simp add: i8_def mod_simps)

lemma advance_word_ok:
  "list_all (\<lambda>c. i8 c = c) w \<Longrightarrow> list_all (\<lambda>c. i8 c = c) (fst (snd (snd (advance_word_loop q e w l))))"
proof (induction q e w l rule: advance_word_loop.induct)
  case (1 q e w l)
  then show ?case by (subst advance_word_loop.simps) (simp add: Let_def)
qed

text \<open>The comparison stops inside the delimiter.\<close>

lemma end_identifier_in_bounds:
  assumes "delim \<noteq> []" "last delim = 0" "n < length delim" "n = length w"
  shows "fst (end_identifier_loop delim n w l)"
  using assms
proof (induction delim n w l rule: end_identifier_loop.induct)
  case (1 delim n w l)
  have "n + 1 < length delim" if "delim ! n = la l" "la l \<noteq> 0"
  proof (rule ccontr)
    assume "\<not> n + 1 < length delim"
    then have "n = length delim - 1" using 1(4) by simp
    then have "delim ! n = 0" using 1(2,3) by (simp add: last_conv_nth)
    with that show False by simp
  qed
  then show ?case using 1 by (subst end_identifier_loop.simps) auto
qed

lemma end_identifier_reached [bash_rules]:
  assumes "reached m s" "heredocs s \<noteq> []"
  shows "reached m (snd (scan_heredoc_end_identifier s))"
proof -
  have ok: "heredoc_ok (array_back s)"
    using assms unfolding reached_def bash_ok_def array_back_def list_all_iff by (meson last_in_set)
  obtain b w l where r: "(if 0 < length (delimiter (array_back s))
      then end_identifier_loop (delimiter (array_back s)) 0 [] (blex s) else (True, [], blex s)) = (b, w, l)"
    by (metis surj_pair)
  have "b" using r ok end_identifier_in_bounds [of "delimiter (array_back s)" 0 "[]" "blex s"]
    by (auto simp: heredoc_ok_def split: if_splits)
  moreover have "later (blex s) l"
    using r later_end_identifier_loop [OF later_refl [of "blex s"], of "delimiter (array_back s)" 0 "[]"]
    by (auto split: if_splits)
  then have "reached m (upd_back (\<lambda>h. h\<lparr>current_leading_word := w @ [0]\<rparr>) (s\<lparr>blex := l\<rparr>))"
    using assms by (intro reached_upd_back reached_on_lex) (simp_all add: heredoc_ok_def)
  ultimately show ?thesis
    unfolding scan_heredoc_end_identifier_def Let_def r prod.case by simp
qed

lemma end_identifier_nonempty [simp]: "heredocs (snd (scan_heredoc_end_identifier s)) \<noteq> []"
  by (simp add: scan_heredoc_end_identifier_def Let_def split_def)

lemma reset_heredoc_ok [simp]: "heredoc_ok (reset_heredoc h)"
  by (simp add: heredoc_ok_def reset_heredoc_def)

lemma heredoc_new_ok [simp]: "heredoc_ok heredoc_new" "heredoc_ok (heredoc_new\<lparr>allows_indent := b\<rparr>)"
  by (simp_all add: heredoc_ok_def heredoc_new_def)

section \<open>Here documents\<close>

lemma result_reached [bash_rules]: "reached m s \<Longrightarrow> bash_result m (b, s)"
  by (simp add: bash_result_def)

lemma result_snd: "reached m (snd r) \<Longrightarrow> bash_result m r"
  by (simp add: bash_result_def)

lemma content_newline_ok:
  assumes "reached m s" "heredocs s \<noteq> []"
  shows "bash_result m (content_newline mid en did s)"
    and "\<not> fst (content_newline mid en did s) \<Longrightarrow> reached m (snd (content_newline mid en did s)) \<and>
      heredocs (snd (content_newline mid en did s)) \<noteq> []"
proof -
  define u where "u = (let s = (if \<not> did then on_lex skip s else on_lex advance s);
      s = (if allows_indent (array_back s) then on_lex (advance_while iswspace) s else s)
      in on_lex mark_end (on_lex (set_sym (if started (array_back s) then mid else en)) s))"
  have u: "reached m u" "heredocs u \<noteq> []"
    using assms by (simp_all add: u_def Let_def bash_rules)
  obtain b t where bt: "scan_heredoc_end_identifier u = (b, t)" by (metis surj_pair)
  have t: "reached m t" "heredocs t \<noteq> []"
    using end_identifier_reached [OF u] end_identifier_nonempty [of u] bt by simp_all
  have eq: "content_newline mid en did s =
      (if b then (True, if result_sym (blex t) = HEREDOC_END then t\<lparr>heredocs := butlast (heredocs t)\<rparr> else t) else (False, t))"
    unfolding content_newline_def using bt unfolding u_def Let_def by simp
  have "closed m (t\<lparr>heredocs := butlast (heredocs t)\<rparr>)" if "result_sym (blex t) = HEREDOC_END"
    using t that by (cases "heredocs t" rule: rev_cases) (auto simp: closed_def reached_def bash_ok_def)
  with t show "bash_result m (content_newline mid en did s)" by (auto simp: eq bash_result_def)
  show "\<not> fst (content_newline mid en did s) \<Longrightarrow> reached m (snd (content_newline mid en did s)) \<and>
      heredocs (snd (content_newline mid en did s)) \<noteq> []"
    using t by (simp add: eq split: if_splits)
qed

lemma content_default_ok:
  assumes "reached m s" "heredocs s \<noteq> []"
  shows "reached m (snd (content_default mid en did s)) \<and> heredocs (snd (content_default mid en did s)) \<noteq> []"
  using assms by (simp add: content_default_def Let_def split_def bash_rules)

lemma content_loop_ok:
  "reached m s \<Longrightarrow> heredocs s \<noteq> [] \<Longrightarrow> bash_result m (scan_heredoc_content_loop mid en did s)"
proof (induction mid en did s rule: scan_heredoc_content_loop.induct)
  case (1 mid en did s)
  note prems = 1(6,7)
  have upd: "reached m (upd_back f t)" if "reached m t" "heredocs t \<noteq> []" "\<And>h. heredoc_ok h \<Longrightarrow> heredoc_ok (f h)" for f t
    using that by (intro reached_upd_back) auto
  have start: "heredoc_ok h \<Longrightarrow> heredoc_ok (h\<lparr>started := True\<rparr>)" for h by (simp add: heredoc_ok_def)
  obtain b t where nl: "content_newline mid en did s = (b, t)" by (metis surj_pair)
  obtain b' t' where df: "content_default mid en did s = (b', t')" by (metis surj_pair)
  note nl_ok = content_newline_ok [OF prems, of mid en did, unfolded nl]
  note df_ok = content_default_ok [OF prems, of mid en did, unfolded df]
  consider "blook s = 0" | "blook s = ch CHR 0x5C" | "blook s = ch CHR ''$''" | "blook s = 10"
    | "blook s \<noteq> 0" "blook s \<noteq> ch CHR 0x5C" "blook s \<noteq> ch CHR ''$''" "blook s \<noteq> 10" by blast
  then show ?case
  proof cases
    assume "blook s = 0"
    then show ?thesis
      using prems upd [of s reset_heredoc] by (simp add: scan_heredoc_content_loop.simps [of mid en did s] bash_rules)
  next
    assume c: "blook s = ch CHR 0x5C"
    then show ?thesis
      using prems 1(1) [OF _ c] by (simp add: scan_heredoc_content_loop.simps [of mid en did s] bash_rules)
  next
    assume c: "blook s = ch CHR ''$''"
    then show ?thesis
      using prems 1(2) [OF _ _ c] 1(3) [OF _ _ c _ _ refl refl] upd start
      by (auto simp: scan_heredoc_content_loop.simps [of mid en did s] bash_rules Let_def)
  next
    assume c: "blook s = 10"
    then show ?thesis
      using prems 1(4) [OF _ _ _ c nl [symmetric]] nl_ok nl
      by (cases b) (simp_all add: scan_heredoc_content_loop.simps [of mid en did s] ch_def)
  next
    assume c: "blook s \<noteq> 0" "blook s \<noteq> ch CHR 0x5C" "blook s \<noteq> ch CHR ''$''" "blook s \<noteq> 10"
    then show ?thesis
      using prems 1(5) [OF c df [symmetric]] df_ok df
      by (cases b') (simp_all add: scan_heredoc_content_loop.simps [of mid en did s] bash_rules)
  qed
qed

lemma heredoc_start_ok:
  assumes "reached m s" "heredocs s \<noteq> []"
  shows "reached m (snd (scan_heredoc_start s))"
proof -
  let ?l = "set_sym HEREDOC_START (skip_while iswspace (blex s))"
  let ?s = "upd_back (\<lambda>h. h\<lparr>is_raw := la ?l = ch CHR 0x27 \<or> la ?l = ch CHR 0x22 \<or> la ?l = ch CHR 0x5C\<rparr>) s"
  have s: "reached m ?s" using assms by (intro reached_upd_back) (simp_all add: heredoc_ok_def)
  obtain b w l where w: "advance_word (delimiter (array_back ?s)) ?l = (b, w, l)" by (metis surj_pair)
  have l: "later (blex ?s) l"
  proof -
    have "later (blex s) ?l" by (simp add: scan_mono)
    from later_advance_word [OF this, of "delimiter (array_back ?s)"] w show ?thesis by simp
  qed
  have "heredoc_ok (array_back s)"
    using assms unfolding reached_def bash_ok_def array_back_def list_all_iff by (meson last_in_set)
  then have "b \<Longrightarrow> last w = 0 \<and> list_all (\<lambda>c. i8 c = c) w"
    using w advance_word_ok [of "delimiter (array_back ?s)"] unfolding advance_word_def Let_def split_def
    by (auto simp: heredoc_ok_def i8_def split: if_splits)
  moreover have "reached m (upd_back (\<lambda>h. h\<lparr>delimiter := d\<rparr>) (?s\<lparr>blex := l\<rparr>))"
    if "d = [] \<or> last d = 0" "list_all (\<lambda>c. i8 c = c) d" for d
    using that by (intro reached_upd_back reached_on_lex [OF s l]) (simp_all add: heredoc_ok_def)
  ultimately show ?thesis
    unfolding scan_heredoc_start_def Let_def w prod.case by (cases b) simp_all
qed

lemma heredoc_arrow_ok: "reached m s \<Longrightarrow> bash_result m (scan_heredoc_arrow s)"
  by (auto simp: scan_heredoc_arrow_def Let_def bash_result_def opened_def reached_def bash_ok_def scan_mono)

lemma part_returning [bash_rules]: "bash_part_ok m (returning r) \<longleftrightarrow> bash_result m r"
  by (simp add: bash_part_ok_def returning_def)

lemma bash_part_None [bash_rules]: "bash_part_ok m (None, s) \<longleftrightarrow> reached m s"
  by (simp add: bash_part_ok_def)

lemma bash_part_Some [bash_rules]: "bash_part_ok m (Some b, s) \<longleftrightarrow> bash_result m (b, s)"
  by (simp add: bash_part_ok_def)

lemma part_andthen:
  assumes "bash_part_ok m p" "\<And>s. reached m s \<Longrightarrow> bash_part_ok m (f s)"
  shows "bash_part_ok m (andthen p f)"
  using assms(1) assms(2) [of "snd p"]
  by (cases p) (auto simp: andthen_def bash_part_ok_def split: option.splits)

lemma part_on_lex_part:
  assumes "reached m s" "later (blex s) (snd (f (blex s)))"
  shows "bash_part_ok m (on_lex_part f s)"
  using reached_on_lex [OF assms] by (auto simp: on_lex_part_def bash_part_ok_def bash_result_def split_def Let_def split: option.split)

lemma part_heredoc:
  assumes "reached m s"
  shows "bash_part_ok m (scan_heredoc v s)"
proof -
  obtain b t where bt: "scan_heredoc_end_identifier s = (b, t)" by (metis surj_pair)
  have t: "reached m t" if "heredocs s \<noteq> []" using end_identifier_reached [OF assms that] bt by simp
  have close: "closed m (on_lex (set_sym HEREDOC_END) (t\<lparr>heredocs := butlast (heredocs t)\<rparr>))" if "heredocs s \<noteq> []"
    using t [OF that] end_identifier_nonempty [of s] bt
    by (cases "heredocs t" rule: rev_cases) (auto simp: closed_def reached_def bash_ok_def)
  have tail: "bash_part_ok m (if v HEREDOC_CONTENT \<and> 0 < length (heredocs s) \<and> started (array_back s) \<and> \<not> in_error_recovery v
      then returning (scan_heredoc_content HEREDOC_CONTENT HEREDOC_END s)
      else if v HEREDOC_START \<and> \<not> in_error_recovery v \<and> 0 < length (heredocs s)
      then returning (scan_heredoc_start s) else (None, s))" if "reached m s" for s
    using that by (simp add: bash_rules scan_heredoc_content_def content_loop_ok heredoc_start_ok result_snd)
  have "bash_part_ok m (if v HEREDOC_END \<and> 0 < length (heredocs s) then
      (if b then (Some True, on_lex (set_sym HEREDOC_END) (t\<lparr>heredocs := butlast (heredocs t)\<rparr>)) else (None, t))
      else (None, s))"
    using assms t close by (simp add: bash_rules bash_result_def)
  note part_andthen [OF this tail]
  then show ?thesis
    unfolding scan_heredoc_def bt prod.case Let_def
    using assms by (simp add: bash_rules scan_heredoc_content_def content_loop_ok)
qed

section \<open>The other parts\<close>

lemma glob_step_ok:
  "reached m s \<Longrightarrow> reached m (snd (snd (glob_step st s)))"
proof -
  have *: "reached m (snd (snd (glob_consume st s)))" if "reached m s" for st s
    using that by (simp add: glob_consume_def glob_return_def Let_def bash_rules)
  show "reached m s \<Longrightarrow> ?thesis" by (simp add: glob_step_def Let_def bash_rules *)
qed

lemma glob_loop_ok: "reached m s \<Longrightarrow> reached m (snd (snd (glob_loop st s)))"
proof (induction st s rule: glob_loop.induct)
  case (1 st s)
  have "reached m (snd (snd (glob_step st s)))" using 1(2) by (rule glob_step_ok)
  with 1 show ?case by (subst glob_loop.simps) (auto split: option.split prod.split)
qed

lemma extglob_tail_ok: "reached m s \<Longrightarrow> bash_part_ok m (extglob_tail w s)"
proof -
  let ?st = "\<lparr>glob_done = False, saw_non_alphadot = w, glob_paren_depth = ucast (last_glob_paren_depth s),
    glob_bracket_depth = 0, glob_brace_depth = 0\<rparr>"
  obtain r st t where g: "glob_loop ?st s = (r, st, t)" by (metis surj_pair)
  assume "reached m s"
  from glob_loop_ok [OF this, of ?st] g have "reached m t" by simp
  then show ?thesis unfolding extglob_tail_def g prod.case by (cases r) (simp_all add: bash_rules)
qed

lemma extglob_body_ok: "reached m s \<Longrightarrow> bash_part_ok m (extglob_body s)"
  unfolding extglob_body_def Let_def
  by (intro part_andthen part_on_lex_part extglob_tail_ok)
    (auto simp: extglob_space_def bash_rules scan_mono)

lemma part_extglob: "reached m s \<Longrightarrow> bash_part_ok m (scan_extglob v s)"
  by (simp add: scan_extglob_def Let_def bash_rules extglob_body_ok)

lemma from_brace_start_ok: "reached m s \<Longrightarrow> bash_result m (from_brace_start v s)"
  by (auto simp: from_brace_start_def Let_def bash_rules scan_mono intro!: result_reached reached_on_lex)

lemma from_expansion_word_ok: "reached m s \<Longrightarrow> bash_result m (from_expansion_word v s)"
  by (simp add: from_expansion_word_def split_def Let_def from_brace_start_ok result_reached reached_on_lex scan_mono)

lemma result_case:
  assumes "bash_part_ok m p" "\<And>s. reached m s \<Longrightarrow> bash_result m (f s)"
  shows "bash_result m (case p of (Some r, s) \<Rightarrow> (r, s) | (None, s) \<Rightarrow> f s)"
  using assms by (cases p) (auto simp: bash_part_ok_def split: option.splits)

lemma from_extglob_ok: "reached m s \<Longrightarrow> bash_result m (from_extglob v s)"
  unfolding from_extglob_def by (intro result_case part_extglob from_expansion_word_ok)

lemma from_regex_ok: "reached m s \<Longrightarrow> bash_result m (from_regex v s)"
  unfolding from_regex_def by (intro result_case part_on_lex_part from_extglob_ok) (simp_all add: scan_mono)

lemma go_ok: "reached m s \<Longrightarrow> bash_result m (go v t s)"
  by (cases t) (simp_all add: go_def bash_rules from_regex_ok from_extglob_ok from_expansion_word_ok from_brace_start_ok)

lemma scan_variable_ok:
  assumes "reached m s"
  shows "case scan_variable v s of (Return r, s') \<Rightarrow> bash_result m (r, s') | (_, s') \<Rightarrow> reached m s'"
proof -
  obtain t1 l1 where 1: "variable_space_loop v (blex s) = (t1, l1)" by (metis surj_pair)
  have l1: "later (blex s) l1" using later_variable_space_loop [OF later_refl [of "blex s"], of v] 1 by simp
  obtain t2 l2 where 2: "scan_special_name v l1 = (t2, l2)" by (metis surj_pair)
  have l2: "later (blex s) l2" using later_scan_name(1) [OF l1, of v] 2 by simp
  obtain t3 l3 where 3: "scan_name v l2 = (t3, l3)" by (metis surj_pair)
  have l3: "later (blex s) l3" using later_scan_name(2) [OF l2, of v] 3 by simp
  obtain r s4 where 4: "scan_heredoc_arrow (s\<lparr>blex := l2\<rparr>) = (r, s4)" by (metis surj_pair)
  have s4: "bash_result m (r, s4)" using heredoc_arrow_ok [OF reached_on_lex [OF assms l2]] 4 by simp
  note lexed = reached_on_lex [OF assms l1] reached_on_lex [OF assms l2] reached_on_lex [OF assms l3]
  show ?thesis
    unfolding scan_variable_def 1 prod.case Let_def 2 3 4 using assms lexed s4
    by (auto simp: bash_rules split: target.split)
qed

lemma bash_scan_ok: "bash_ok s \<Longrightarrow> bash_result s (bash_scan s v)"
proof -
  assume "bash_ok s"
  then have s: "reached s s" by (simp add: bash_rules)
  let ?heads = "andthen (on_lex_part (scan_concat v) s) (\<lambda>s. andthen (on_lex_part (scan_double_hash v) s) (\<lambda>s.
    andthen (on_lex_part (scan_expansion_sym v) s) (\<lambda>s. andthen (on_lex_part (scan_empty_value v) s) (scan_heredoc v))))"
  have heads: "bash_part_ok s ?heads"
    using s by (intro part_andthen part_on_lex_part part_heredoc) (simp_all add: scan_mono)
  obtain r s1 where 1: "?heads = (r, s1)" by (metis surj_pair)
  show ?thesis
  proof (cases r)
    case (Some b)
    then show ?thesis using heads 1 unfolding bash_scan_def 1 by (simp add: bash_rules)
  next
    case None
    then have s1: "reached s s1" using heads 1 by (simp add: bash_rules)
    obtain t2 l2 where 2: "scan_test_operator v (blex s1) = (t2, l2)" by (metis surj_pair)
    have s2: "reached s (s1\<lparr>blex := l2\<rparr>)"
      using later_scan_test_operator [OF later_refl [of "blex s1"], of v] 2 s1 by (simp add: reached_on_lex)
    obtain t3 s3 where 3: "scan_variable v (s1\<lparr>blex := l2\<rparr>) = (t3, s3)" by (metis surj_pair)
    obtain t4 l4 where 4: "bare_dollar v (blex s3) = (t4, l4)" by (metis surj_pair)
    have l4: "later (blex s3) l4" using later_bare_dollar(2) [OF later_refl [of "blex s3"], of v] 4 by simp
    have s3: "case t3 of Return r \<Rightarrow> bash_result s (r, s3) | _ \<Rightarrow> reached s s3"
      using scan_variable_ok [OF s2, of v] 3 by (cases t3) auto
    have "bash_result s (go v t3 s3)"
      using s3 by (cases t3) (simp_all add: go_ok, simp add: go_def)
    moreover have "bash_result s (go v t4 (s3\<lparr>blex := l4\<rparr>))" if "t3 = Fall"
      using that s3 l4 by (simp add: go_ok reached_on_lex)
    ultimately show ?thesis
      unfolding bash_scan_def 1 None prod.case option.case 2 Let_def 3 4 using go_ok [OF s2] by simp
  qed
qed
end
