(* ===== verification/Bash_State.thy ===== *)
theory Bash_State
  imports Bash_Proofs
begin

text \<open>
  The state of the Bash scanner between calls (\<open>serialize\<close>, \<open>deserialize\<close>, \<open>create\<close> of
  \<open>bash/src/scanner.c\<close>), and the properties of the scanner: what a call does to the list of here
  documents, where a here document ends, and how far a stored state comes back.
\<close>

section \<open>Serialization\<close>

text \<open>A \<open>uint32_t\<close> is copied with its low byte first.\<close>

definition put32 :: "nat \<Rightarrow> u8 list" where
  "put32 n = [word_of_nat n, word_of_nat (n div 256), word_of_nat (n div 65536), word_of_nat (n div 16777216)]"

definition get32 :: "u8 list \<Rightarrow> nat \<Rightarrow> nat" where
  "get32 buffer n = unat (buffer ! n) + 256 * unat (buffer ! (n + 1)) + 65536 * unat (buffer ! (n + 2)) +
     16777216 * unat (buffer ! (n + 3))"

definition put_heredoc :: "Heredoc \<Rightarrow> u8 list" where
  "put_heredoc h = [of_bool (is_raw h), of_bool (started h), of_bool (allows_indent h)] @
     put32 (length (delimiter h)) @ map word_of_int (delimiter h)"

text \<open>The loop of \<open>serialize\<close>; \<open>None\<close> where it returns 0 because the buffer is full.\<close>

fun serialize_heredocs :: "nat \<Rightarrow> Heredoc list \<Rightarrow> u8 list option" where
  "serialize_heredocs n [] = Some []"
| "serialize_heredocs n (h # hs) =
     (if n + 3 + 4 + length (delimiter h) \<ge> TREE_SITTER_SERIALIZATION_BUFFER_SIZE then None
      else map_option ((@) (put_heredoc h)) (serialize_heredocs (n + 3 + 4 + length (delimiter h)) hs))"

definition bash_serialize :: "BashScanner \<Rightarrow> u8 list" where
  "bash_serialize s =
     (case serialize_heredocs 4 (heredocs s) of
        None \<Rightarrow> []
      | Some b \<Rightarrow> [last_glob_paren_depth s, of_bool (ext_was_in_double_quote s), of_bool (ext_saw_outside_quote s),
                   word_of_nat (length (heredocs s))] @ b)"

text \<open>The loop of \<open>deserialize\<close> from the index \<open>i\<close> on, with \<open>k\<close> here documents still to be read.\<close>

fun deserialize_heredocs :: "u8 list \<Rightarrow> nat \<Rightarrow> nat \<Rightarrow> nat \<Rightarrow> Heredoc list \<Rightarrow> nat \<times> Heredoc list" where
  "deserialize_heredocs buffer n i 0 hs = (n, hs)"
| "deserialize_heredocs buffer n i (Suc k) hs =
     (let hs = (if i < length hs then hs else hs @ [heredoc_new]);
          sz = get32 buffer (n + 3);
          h = (hs ! i)\<lparr>is_raw := buffer ! n \<noteq> 0, started := buffer ! (n + 1) \<noteq> 0, allows_indent := buffer ! (n + 2) \<noteq> 0,
                       delimiter := map (\<lambda>b. i8 (uint b)) (take sz (drop (n + 7) buffer))\<rparr>
      in deserialize_heredocs buffer (n + 7 + sz) (i + 1) k (hs[i := h]))"

text \<open>\<open>None\<close> where the assertion at the end fails.\<close>

definition bash_deserialize :: "BashScanner \<Rightarrow> u8 list \<Rightarrow> BashScanner option" where
  "bash_deserialize s buffer =
     (if length buffer = 0 then Some (reset s)
      else
        (let s = s\<lparr>last_glob_paren_depth := buffer ! 0, ext_was_in_double_quote := buffer ! 1 \<noteq> 0,
                   ext_saw_outside_quote := buffer ! 2 \<noteq> 0\<rparr>;
             (n, hs) = deserialize_heredocs buffer 4 0 (unat (buffer ! 3)) (heredocs s)
         in if n = length buffer then Some (s\<lparr>heredocs := hs\<rparr>) else None))"

definition bash_create :: "blexer \<Rightarrow> BashScanner" where
  "bash_create l = \<lparr>last_glob_paren_depth = 0, ext_was_in_double_quote = False, ext_saw_outside_quote = False,
     heredocs = [], assert_failed = False, blex = l\<rparr>"

section \<open>The round trip\<close>

lemma put32_get32:
  assumes "n < 2 ^ 32" "length a = k"
  shows "get32 (a @ put32 n @ b) k = n"
proof -
  have "get32 (a @ put32 n @ b) k =
      n mod 256 + 256 * (n div 256 mod 256) + 65536 * (n div 65536 mod 256) + 16777216 * (n div 16777216 mod 256)"
    using assms(2) by (simp add: get32_def put32_def nth_append unat_word_ariths unat_of_nat)
  moreover have "n div 256 div 256 = n div 65536" "n div 65536 div 256 = n div 16777216" "n div 16777216 mod 256 = n div 16777216"
    using assms(1) by (simp_all add: div_mult2_eq [symmetric] less_mult_imp_div_less)
  moreover have "256 * (n div 256) + n mod 256 = n" "256 * (n div 256 div 256) + n div 256 mod 256 = n div 256"
    "256 * (n div 65536 div 256) + n div 65536 mod 256 = n div 65536"
    by (rule mult_div_mod_eq)+
  ultimately show ?thesis
    by linarith
qed

lemma length_put_heredoc [simp]: "length (put_heredoc h) = 7 + length (delimiter h)"
  by (simp add: put_heredoc_def put32_def)

lemma serialize_heredocs_length:
  "serialize_heredocs n hs = Some b \<Longrightarrow> n < TREE_SITTER_SERIALIZATION_BUFFER_SIZE \<Longrightarrow>
     n + length b < TREE_SITTER_SERIALIZATION_BUFFER_SIZE \<and> 7 * length hs \<le> length b"
proof (induction n hs arbitrary: b rule: serialize_heredocs.induct)
  case (2 n h hs)
  then show ?case by (fastforce split: if_splits)
qed simp

lemma char_byte: "i8 c = c \<Longrightarrow> i8 (uint (word_of_int c :: u8)) = c"
  by (simp add: i8_def uint_word_of_int mod_simps)

text \<open>The heredoc that is read back keeps the working buffer of the object it is read into.\<close>

definition restore_heredoc :: "Heredoc \<Rightarrow> Heredoc \<Rightarrow> Heredoc" where
  "restore_heredoc r h = r\<lparr>is_raw := is_raw h, started := started h, allows_indent := allows_indent h,
     delimiter := delimiter h\<rparr>"

fun restore_heredocs :: "Heredoc list \<Rightarrow> Heredoc list \<Rightarrow> Heredoc list" where
  "restore_heredocs rs [] = rs"
| "restore_heredocs [] (h # hs) = restore_heredoc heredoc_new h # restore_heredocs [] hs"
| "restore_heredocs (r # rs) (h # hs) = restore_heredoc r h # restore_heredocs rs hs"

lemma length_restore [simp]: "length (restore_heredocs rs hs) = max (length rs) (length hs)"
  by (induction rs hs rule: restore_heredocs.induct) auto

lemma deserialize_heredocs_serialized:
  assumes "serialize_heredocs (length a) hs = Some b" "list_all heredoc_ok hs"
  shows "deserialize_heredocs (a @ b) (length a) (length ps) (length hs) (ps @ rs) =
    (length (a @ b), ps @ restore_heredocs rs hs)"
  using assms
proof (induction hs arbitrary: a b ps rs)
  case (Cons h hs)
  let ?d = "delimiter h"
  let ?a = "a @ put_heredoc h"
  obtain b' where b': "serialize_heredocs (length ?a) hs = Some b'" "b = put_heredoc h @ b'"
    and small: "length ?d < 1024"
    using Cons.prems(1) by (auto simp: TREE_SITTER_SERIALIZATION_BUFFER_SIZE_def ac_simps split: if_splits)
  let ?f = "[of_bool (is_raw h), of_bool (started h), of_bool (allows_indent h)] :: u8 list"
  have buf: "a @ b = (a @ ?f) @ put32 (length ?d) @ (map word_of_int ?d @ b')"
    using b'(2) by (simp add: put_heredoc_def)
  have sz: "get32 (a @ b) (length a + 3) = length ?d"
    unfolding buf using small by (intro put32_get32) simp_all
  have flags: "(a @ b) ! length a = of_bool (is_raw h)" "(a @ b) ! (length a + 1) = of_bool (started h)"
    "(a @ b) ! (length a + 2) = of_bool (allows_indent h)"
    using b'(2) by (simp_all add: put_heredoc_def nth_append)
  have "drop (length a + 7) (a @ b) = map word_of_int ?d @ b'"
    unfolding buf by (simp add: put32_def)
  moreover have "map (\<lambda>b. i8 (uint b)) (map (word_of_int :: int \<Rightarrow> u8) ?d) = ?d"
    using Cons.prems(2) by (auto simp: heredoc_ok_def list_all_iff char_byte intro!: map_idI)
  ultimately have delim: "map (\<lambda>b. i8 (uint b)) (take (length ?d) (drop (length a + 7) (a @ b))) = ?d"
    by (simp add: take_map)
  obtain r rs' where r: "(if length ps < length (ps @ rs) then ps @ rs else (ps @ rs) @ [heredoc_new]) = ps @ r # rs'"
    "restore_heredocs rs (h # hs) = restore_heredoc r h # restore_heredocs rs' hs"
    by (cases rs) auto
  have "deserialize_heredocs (?a @ b') (length ?a) (length (ps @ [restore_heredoc r h])) (length hs)
      ((ps @ [restore_heredoc r h]) @ rs') = (length (?a @ b'), (ps @ [restore_heredoc r h]) @ restore_heredocs rs' hs)"
    using Cons.prems(2) b'(1) by (intro Cons.IH) auto
  then show ?case
    unfolding list.size(4) Nat.add_0_right One_nat_def add_Suc_right deserialize_heredocs.simps(2) Let_def r(1) sz
    using flags delim r(2) b'(2)
    by (simp add: restore_heredoc_def nth_append list_update_append ac_simps)
qed simp

lemma bash_deserialize_serialize:
  assumes "bash_ok s" "serialize_heredocs 4 (heredocs s) = Some b"
  shows "bash_deserialize p (bash_serialize s) = Some (p\<lparr>last_glob_paren_depth := last_glob_paren_depth s,
    ext_was_in_double_quote := ext_was_in_double_quote s, ext_saw_outside_quote := ext_saw_outside_quote s,
    heredocs := restore_heredocs (heredocs p) (heredocs s)\<rparr>)"
proof -
  define h :: "u8 list" where "h = [last_glob_paren_depth s, of_bool (ext_was_in_double_quote s),
    of_bool (ext_saw_outside_quote s), word_of_nat (length (heredocs s))]"
  then have h: "length h = 4" by simp
  have "7 * length (heredocs s) < 1024"
    using serialize_heredocs_length [OF assms(2)] by (simp add: TREE_SITTER_SERIALIZATION_BUFFER_SIZE_def)
  then have count: "unat (word_of_nat (length (heredocs s)) :: u8) = length (heredocs s)"
    by (simp add: unat_of_nat)
  have "deserialize_heredocs (h @ b) 4 0 (length (heredocs s)) (heredocs p) =
      (length (h @ b), restore_heredocs (heredocs p) (heredocs s))"
    using deserialize_heredocs_serialized [of h "heredocs s" b "[]" "heredocs p"] assms h
    by (simp add: bash_ok_def)
  then show ?thesis
    using assms(2) count by (simp add: h_def bash_serialize_def bash_deserialize_def Let_def)
qed

section \<open>Calls of the scanner\<close>

definition bash_call :: "blexer \<times> valid_symbols \<Rightarrow> BashScanner \<Rightarrow> bool \<times> BashScanner" where
  "bash_call i s = bash_scan (s\<lparr>blex := fst i\<rparr>) (snd i)"

lemma bash_ok_create [simp]: "bash_ok (bash_create l)"
  by (simp add: bash_ok_def bash_create_def)

lemma bash_ok_lexer [simp]: "bash_ok (s\<lparr>blex := l\<rparr>) \<longleftrightarrow> bash_ok s"
  by (simp add: bash_ok_def)

text \<open>
  C33. A call of the Bash scanner only reads on in the text; the assertion in \<open>array_get\<close> holds, so that no
  access is out of bounds; the delimiters stay well-formed; and the number of open here documents
  changes by one at most: a successful call opens one with the token of an arrow (with or without
  dash) and closes one with the token of its end. A call that fails keeps the number.
\<close>

theorem bash_heredoc_nesting:
  assumes "bash_ok s" "bash_call (l, v) s = (found, s')"
  shows "bash_ok s' \<and> (\<exists>k \<le> length (rest l). rest (blex s') = drop k (rest l) \<and> pos (blex s') = pos l + k) \<and>
    (length (heredocs s') = length (heredocs s) \<or>
     found \<and> length (heredocs s') = Suc (length (heredocs s)) \<and> result_sym (blex s') \<in> {HEREDOC_ARROW, HEREDOC_ARROW_DASH} \<or>
     found \<and> Suc (length (heredocs s')) = length (heredocs s) \<and> result_sym (blex s') = HEREDOC_END)"
proof -
  have "bash_result (s\<lparr>blex := l\<rparr>) (found, s')"
    using bash_scan_ok [of "s\<lparr>blex := l\<rparr>" v] assms by (simp add: bash_call_def)
  then show ?thesis
    by (auto simp: bash_result_def reached_def opened_def closed_def later_def)
qed

theorem bash_heredoc_nesting_witness:
  "let l = lexer_on NEWLINE (text_of ''<<EOF''); s' = snd (bash_call (l, \<lambda>k. k = HEREDOC_ARROW) (bash_create l))
   in bash_ok s' \<and> length (heredocs s') = 1 \<and> result_sym (blex s') = HEREDOC_ARROW"
proof -
  let ?l = "lexer_on NEWLINE (text_of ''<<EOF'')"
  let ?r = "bash_call (?l, \<lambda>k. k = HEREDOC_ARROW) (bash_create ?l)"
  have "bash_ok (snd ?r)"
    using bash_heredoc_nesting [of "bash_create ?l" ?l "\<lambda>k. k = HEREDOC_ARROW" "fst ?r" "snd ?r"] by simp
  moreover have "?r = (True, (bash_create ?l)\<lparr>heredocs := [heredoc_new],
      blex := set_sym HEREDOC_ARROW (advance (advance ?l))\<rparr>)"
    by (simp add: bash_call_def bash_scan_def lexer_on_def text_of_def bash_create_def on_lex_part_def andthen_def
        scan_concat_def scan_double_hash_def scan_expansion_sym_def scan_empty_value_def scan_heredoc_def
        in_error_recovery_def scan_test_operator_def scan_variable_def variable_space_loop.simps scan_special_name_def
        scan_heredoc_arrow_def on_lex_def go_def Let_def la_def ch_def advance_def)
  ultimately show ?thesis by (simp add: Let_def)
qed

section \<open>Stored states\<close>

text \<open>What of a scanner decides how it goes on: everything but the buffers for the word at the start of a line.\<close>

definition heredoc_data :: "Heredoc \<Rightarrow> bool \<times> bool \<times> bool \<times> int list" where
  "heredoc_data h = (is_raw h, started h, allows_indent h, delimiter h)"

lemma heredoc_data_restore [simp]: "heredoc_data (restore_heredoc r h) = heredoc_data h"
  by (simp add: heredoc_data_def restore_heredoc_def)

lemma heredocs_restored:
  "map heredoc_data (restore_heredocs rs hs) = map heredoc_data hs @ map heredoc_data (drop (length hs) rs)"
  by (induction rs hs rule: restore_heredocs.induct) auto

lemma restore_heredoc_ok: "heredoc_ok h \<Longrightarrow> heredoc_ok (restore_heredoc r h)"
  by (simp add: heredoc_ok_def restore_heredoc_def)

lemma restore_heredocs_ok:
  "list_all heredoc_ok rs \<Longrightarrow> list_all heredoc_ok hs \<Longrightarrow> list_all heredoc_ok (restore_heredocs rs hs)"
  by (induction rs hs rule: restore_heredocs.induct) (auto simp: restore_heredoc_ok)

text \<open>
  C34. The stored state of the Bash scanner always fits the buffer of the runtime. If anything is stored,
  reading it back into a scanner object \<open>p\<close> does not fail and gives the depth, the flags and the here
  documents of the state, followed by the here documents that \<open>p\<close> had beyond their number. So the state comes
  back unchanged exactly if \<open>p\<close> has no more here documents open than the state.
\<close>

theorem bash_stored_state:
  assumes "bash_ok s" "bash_ok p"
  shows "length (bash_serialize s) < TREE_SITTER_SERIALIZATION_BUFFER_SIZE \<and>
    (bash_serialize s \<noteq> [] \<longrightarrow>
      (\<exists>r. bash_deserialize p (bash_serialize s) = Some r \<and> bash_ok r \<and>
        last_glob_paren_depth r = last_glob_paren_depth s \<and> ext_was_in_double_quote r = ext_was_in_double_quote s \<and>
        ext_saw_outside_quote r = ext_saw_outside_quote s \<and>
        map heredoc_data (heredocs r) =
          map heredoc_data (heredocs s) @ map heredoc_data (drop (length (heredocs s)) (heredocs p)) \<and>
        (map heredoc_data (heredocs r) = map heredoc_data (heredocs s) \<longleftrightarrow>
          length (heredocs p) \<le> length (heredocs s))))"
proof (cases "serialize_heredocs 4 (heredocs s)")
  case None
  then show ?thesis by (simp add: bash_serialize_def TREE_SITTER_SERIALIZATION_BUFFER_SIZE_def)
next
  case (Some b)
  have "length (bash_serialize s) < TREE_SITTER_SERIALIZATION_BUFFER_SIZE"
    using serialize_heredocs_length [OF Some] Some
    by (simp add: bash_serialize_def TREE_SITTER_SERIALIZATION_BUFFER_SIZE_def)
  moreover have "bash_ok (p\<lparr>last_glob_paren_depth := d, ext_was_in_double_quote := e, ext_saw_outside_quote := f,
      heredocs := restore_heredocs (heredocs p) (heredocs s)\<rparr>)" for d e f
    using assms by (simp add: bash_ok_def restore_heredocs_ok)
  ultimately show ?thesis
    using bash_deserialize_serialize [OF assms(1) Some, of p] heredocs_restored [of "heredocs p" "heredocs s"] by simp
qed

text \<open>
  Here documents that were open when a stored state is restored stay open. The object behind an arrow has
  one here document; the stored state of a scanner without any does not remove it, and the scanner then
  reads a here document where none is open.
\<close>

lemma bash_stale_heredoc:
  fixes l :: blexer
  defines "l \<equiv> lexer_on NEWLINE (text_of ''EOF'')"
  defines "s \<equiv> bash_create l"
  defines "p \<equiv> s\<lparr>heredocs := [heredoc_new]\<rparr>"
  shows "\<exists>r. bash_deserialize p (bash_serialize s) = Some r \<and> heredocs r = [heredoc_new] \<and>
    fst (bash_call (l, \<lambda>k. k = HEREDOC_START) r) \<and> \<not> fst (bash_call (l, \<lambda>k. k = HEREDOC_START) s)"
proof -
  have p: "bash_deserialize p (bash_serialize s) = Some p"
    by (simp add: p_def s_def bash_create_def bash_serialize_def bash_deserialize_def)
  have "fst (bash_call (l, \<lambda>k. k = HEREDOC_START) p)"
    by (simp add: p_def s_def l_def bash_call_def bash_scan_def bash_create_def lexer_on_def text_of_def
        on_lex_part_def andthen_def scan_concat_def scan_double_hash_def scan_expansion_sym_def scan_empty_value_def
        scan_heredoc_def in_error_recovery_def scan_heredoc_start_def upd_back_def array_back_def heredoc_new_def
        skip_while.simps advance_word_def advance_word_loop.simps in_word_def iswspace_def la_def ch_def set_sym_def
        advance_def Let_def returning_def)
  moreover have "\<not> fst (bash_call (l, \<lambda>k. k = HEREDOC_START) s)"
    by (simp add: s_def l_def bash_call_def bash_scan_def bash_create_def lexer_on_def text_of_def
        on_lex_part_def andthen_def scan_concat_def scan_double_hash_def scan_expansion_sym_def scan_empty_value_def
        scan_heredoc_def in_error_recovery_def scan_test_operator_def scan_variable_def bare_dollar_def go_def
        from_regex_def scan_regex_def from_extglob_def scan_extglob_def from_expansion_word_def from_brace_start_def)
  ultimately show ?thesis using p by (simp add: p_def)
qed

theorem bash_stored_state_witness:
  "let l = lexer_on NEWLINE []; s = bash_create l; h = heredoc_new\<lparr>delimiter := [69, 0]\<rparr>
   in \<exists>r. bash_deserialize s (bash_serialize (s\<lparr>heredocs := [h]\<rparr>)) = Some r \<and>
          map heredoc_data (heredocs r) = [(False, False, False, [69, 0])]"
proof -
  let ?l = "lexer_on NEWLINE []"
  let ?s = "(bash_create ?l)\<lparr>heredocs := [heredoc_new\<lparr>delimiter := [69, 0]\<rparr>]\<rparr>"
  have "bash_ok ?s" "bash_serialize ?s \<noteq> []"
    by (simp_all add: bash_ok_def bash_create_def heredoc_ok_def i8_def bash_serialize_def heredoc_new_def
        TREE_SITTER_SERIALIZATION_BUFFER_SIZE_def)
  then show ?thesis
    using bash_stored_state [OF _ bash_ok_create, of ?s ?l]
    by (auto simp: Let_def bash_create_def heredoc_data_def heredoc_new_def)
qed
end
