(* ===== verification/Bash_Heredoc.thy ===== *)
theory Bash_Heredoc
  imports Bash_State
begin

text \<open>
  Here documents of the Bash scanner: the delimiter that is read behind the arrow, the comparison of a
  line with it, and the body up to the line that starts with the delimiter.
\<close>

section \<open>Reading the delimiter\<close>

text \<open>The state of a lexer after some steps over characters that are not newlines.\<close>

lemma advance_n [simp]:
  "rest ((advance ^^ n) l) = drop n (rest l)" "token_end ((advance ^^ n) l) = token_end l"
  "result_sym ((advance ^^ n) l) = result_sym l" "n \<le> length (rest l) \<Longrightarrow> pos ((advance ^^ n) l) = pos l + n"
  by (induction n) (auto simp: drop_Suc tl_drop)

lemma advance_n_col:
  assumes "10 \<notin> set (take n (rest l))" "n \<le> length (rest l)"
  shows "col ((advance ^^ n) l) = col l + n"
  using assms
proof (induction n)
  case (Suc n)
  then obtain c cs where c: "drop n (rest l) = c # cs" "c \<noteq> 10"
    by (auto simp: take_Suc_conv_app_nth drop_eq_Cons_nth)
  with Suc show ?case by (simp add: advance_def [of "(advance ^^ n) l"] take_Suc_conv_app_nth)
qed simp

lemma advance_word_loop_word:
  assumes "rest l = w @ e" "list_all (\<lambda>c. in_word q c \<and> c \<noteq> ch CHR 0x5C) w"
    and "\<not> in_word q (case e of [] \<Rightarrow> 0 | c # _ \<Rightarrow> c)"
  shows "advance_word_loop q b a l = (False, b \<and> w = [], a @ map i8 w, (advance ^^ length w) l)"
  using assms
proof (induction w arbitrary: b a l)
  case Nil
  then show ?case by (subst advance_word_loop.simps) (simp add: la_def)
next
  case (Cons c w)
  then have "advance_word_loop q False (a @ [i8 c]) (advance l) =
      (False, False, (a @ [i8 c]) @ map i8 w, (advance ^^ length w) (advance l))"
    using Cons.IH [of "advance l" False "a @ [i8 c]"] by simp
  with Cons.prems show ?case
    by (subst advance_word_loop.simps) (simp add: funpow_swap1)
qed

text \<open>
  How a delimiter is written in a script: as an unquoted word, inside a pair of quotes, or with backslashes, the first one in
  front of the word. In an unquoted word there are no quotes, backslashes or operators of the shell.
\<close>

datatype delimiter_style = Unquoted | Quoted int | Escaped "bool list"

definition operator_char :: "int \<Rightarrow> bool" where
  "operator_char c \<longleftrightarrow> c \<in> ch ` set '';&|<>()''"

definition word_char :: "int \<Rightarrow> bool" where
  "word_char c \<longleftrightarrow> c \<noteq> 0 \<and> \<not> iswspace c \<and> c \<notin> {ch CHR 0x27, ch CHR 0x22, ch CHR 0x5C} \<and> \<not> operator_char c"

fun delimiter_ok :: "delimiter_style \<Rightarrow> int list \<Rightarrow> bool" where
  "delimiter_ok Unquoted w \<longleftrightarrow> w \<noteq> [] \<and> list_all word_char w"
| "delimiter_ok (Quoted q) w \<longleftrightarrow> w \<noteq> [] \<and> q \<in> {ch CHR 0x27, ch CHR 0x22} \<and> list_all (\<lambda>c. c \<notin> {0, q, 10, 13, ch CHR 0x5C}) w"
| "delimiter_ok (Escaped es) w \<longleftrightarrow> w \<noteq> [] \<and> hd es \<and> list_all2 (\<lambda>e c. if e then c \<noteq> 0 \<and> c \<noteq> 10 else word_char c) es w"

definition escape :: "bool list \<Rightarrow> int list \<Rightarrow> int list" where
  "escape es w = concat (map2 (\<lambda>e c. if e then [ch CHR 0x5C, c] else [c]) es w)"

fun written :: "delimiter_style \<Rightarrow> int list \<Rightarrow> int list" where
  "written Unquoted w = w"
| "written (Quoted q) w = q # w @ [q]"
| "written (Escaped es) w = escape es w"

text \<open>What follows: white space, the end of the input, or, behind quotes, an operator.\<close>

definition behind_delimiter :: "delimiter_style \<Rightarrow> int list \<Rightarrow> bool" where
  "behind_delimiter st e \<longleftrightarrow> e = [] \<or> iswspace (hd e) \<or> (\<exists>q. st = Quoted q) \<and> operator_char (hd e)"

lemma advance_word_loop_escaped:
  assumes "rest l = escape es w @ e" "list_all2 (\<lambda>e c. if e then c \<noteq> 0 \<and> c \<noteq> 10 else word_char c) es w"
    and "e = [] \<or> iswspace (hd e)"
  shows "advance_word_loop 0 b a l = (False, b \<and> w = [], a @ map i8 w, (advance ^^ length (escape es w)) l)"
  using assms(2,1)
proof (induction es w arbitrary: b a l rule: list_all2_induct)
  case Nil
  then show ?case using assms(3) by (subst advance_word_loop.simps) (auto simp: escape_def la_def in_word_def split: list.split)
next
  case (Cons x es c w)
  let ?l = "if x then advance (advance l) else advance l"
  have "advance_word_loop 0 False (a @ [i8 c]) ?l = (False, False, (a @ [i8 c]) @ map i8 w, (advance ^^ length (escape es w)) ?l)"
    using Cons.IH [of ?l False "a @ [i8 c]"] Cons.prems Cons.hyps(1) by (simp add: escape_def split: if_splits)
  moreover have "advance_word_loop 0 b a l = advance_word_loop 0 False (a @ [i8 c]) ?l"
    using Cons.hyps(1) Cons.prems
    by (subst advance_word_loop.simps) (auto simp: escape_def in_word_def word_char_def ch_def iswspace_def)
  moreover have "(advance ^^ length (escape (x # es) (c # w))) l = (advance ^^ length (escape es w)) ?l"
    by (simp add: escape_def funpow_swap1)
  ultimately show ?case by simp
qed

text \<open>The word that is read is the written one without quotes and backslashes.\<close>

lemma advance_word_written:
  assumes "delimiter_ok st w" "behind_delimiter st e" "rest l = written st w @ e"
  shows "advance_word [] l = (True, map i8 w @ [0], (advance ^^ length (written st w)) l)"
proof (cases st)
  case Unquoted
  then have "la l = hd w" using assms by (cases w) simp_all
  moreover have "advance_word_loop 0 True [] l = (False, False, map i8 w, (advance ^^ length w) l)"
    using assms Unquoted by (subst advance_word_loop_word [where w = w and e = e])
      (auto simp: list_all_iff in_word_def word_char_def behind_delimiter_def split: list.split)
  ultimately show ?thesis
    using assms(1) Unquoted by (cases w) (auto simp: advance_word_def word_char_def)
next
  case (Quoted q)
  have q: "la l = q" "q \<noteq> 0" "q \<in> {ch CHR 0x27, ch CHR 0x22}" using assms Quoted by auto
  moreover have "advance_word_loop q True [] (advance l) = (False, False, map i8 w, (advance ^^ length w) (advance l))"
    using assms Quoted q(2) by (subst advance_word_loop_word [where w = w and e = "q # e"]) (auto simp: list_all_iff in_word_def)
  moreover have "la ((advance ^^ length w) (advance l)) = q"
    using assms(3) Quoted by (intro la_simps(2) [of _ _ e]) simp
  ultimately show ?thesis using Quoted by (auto simp: advance_word_def funpow_swap1)
next
  case (Escaped es)
  then have "w \<noteq> []" "hd es" "es \<noteq> []" using assms(1) by auto
  then have "la l = ch CHR 0x5C" using assms(3) Escaped by (cases es; cases w) (auto simp: escape_def)
  then have "la l \<noteq> ch CHR 0x27" "la l \<noteq> ch CHR 0x22" by (simp_all add: ch_def)
  moreover have "advance_word_loop 0 True [] l = (False, False, map i8 w, (advance ^^ length (escape es w)) l)"
    using advance_word_loop_escaped [of l es w e True "[]"] assms Escaped \<open>w \<noteq> []\<close> by (simp add: behind_delimiter_def)
  ultimately show ?thesis using Escaped by (simp add: advance_word_def)
qed

text \<open>The first character of a written delimiter tells whether it is quoted.\<close>

lemma written_first:
  assumes "delimiter_ok st w"
  obtains c t where "written st w = c # t" "\<not> iswspace c" "c \<in> {ch CHR 0x27, ch CHR 0x22, ch CHR 0x5C} \<longleftrightarrow> st \<noteq> Unquoted"
proof (cases st)
  case Unquoted
  then show thesis using assms that [of "hd w" "tl w"] by (cases w) (auto simp: word_char_def)
next
  case (Quoted q)
  then show thesis using assms that [of q "w @ [q]"] by (auto simp: iswspace_def ch_def)
next
  case (Escaped es)
  then obtain x xs c ds where "es = x # xs" "w = c # ds" "x" using assms by (cases es; cases w) auto
  then show thesis using Escaped that [of "ch CHR 0x5C" "c # escape xs ds"] by (simp add: escape_def iswspace_def ch_def)
qed

lemma scan_heredoc_start_word:
  assumes "rest (blex s) = ws @ c # t" "list_all iswspace ws" "\<not> iswspace c" "delimiter (array_back s) = []"
    and "\<And>l :: blexer. rest l = c # t \<Longrightarrow> advance_word [] l = (True, w, (advance ^^ n) l)"
  shows "\<exists>l. scan_heredoc_start s = (True, upd_back (\<lambda>h. h\<lparr>is_raw := c \<in> {ch CHR 0x27, ch CHR 0x22, ch CHR 0x5C},
      delimiter := w\<rparr>) (s\<lparr>blex := l\<rparr>)) \<and>
    result_sym l = HEREDOC_START \<and> rest l = drop n (c # t) \<and> token_end l = token_end (blex s)"
proof -
  let ?l = "set_sym HEREDOC_START (skip_while iswspace (blex s))"
  note sp = skip_spaces [OF assms(1-3)]
  have "advance_word [] ?l = (True, w, (advance ^^ n) ?l)" using sp by (intro assms(5)) simp
  then show ?thesis
    using assms(4) sp unfolding scan_heredoc_start_def Let_def
    by (intro exI [of _ "(advance ^^ n) ?l"]) (simp add: upd_back_def array_back_def)
qed

section \<open>Comparing a line with the delimiter\<close>

text \<open>The characters that are stored as they are.\<close>

definition ascii_word :: "int list \<Rightarrow> bool" where
  "ascii_word w \<longleftrightarrow> w \<noteq> [] \<and> list_all (\<lambda>c. 0 < c \<and> c < 128 \<and> c \<noteq> 10) w"

lemma ascii_i8: "0 < c \<Longrightarrow> c < 128 \<Longrightarrow> i8 c = c"
  by (simp add: i8_def)

lemma ascii_word_stored: "ascii_word w \<Longrightarrow> map i8 w = w"
  by (auto simp: ascii_word_def list_all_iff ascii_i8 intro!: map_idI)

lemma end_identifier_loop_word:
  assumes "list_all (\<lambda>c. 0 < c \<and> c < 128 \<and> c \<noteq> 10) w"
  shows "\<exists>p. end_identifier_loop (a @ w @ [0]) (length a) a l = (True, a @ p, (advance ^^ length p) l) \<and>
    take (length p) (rest l) = p \<and> length p \<le> length (rest l) \<and> take (length p) w = p \<and> (p = w \<longleftrightarrow> take (length w) (rest l) = w) \<and>
    (w \<noteq> [] \<longrightarrow> la l = hd w \<longrightarrow> p \<noteq> [])"
  using assms
proof (induction w arbitrary: a l)
  case Nil
  show ?case
    by (rule exI [of _ "[]"]) (auto simp: nth_append end_identifier_loop.simps [of "a @ [0]" "length a" a l])
next
  case (Cons c w)
  then have c: "0 < c" "c \<noteq> 10" "i8 c = c" by (simp_all add: ascii_i8)
  show ?case
  proof (cases "la l = c")
    case True
    with c obtain cs where cs: "rest l = c # cs" by (cases "rest l") auto
    obtain p where p: "end_identifier_loop ((a @ [c]) @ w @ [0]) (length (a @ [c])) (a @ [c]) (advance l) =
        (True, (a @ [c]) @ p, (advance ^^ length p) (advance l))"
      "take (length p) cs = p" "length p \<le> length cs" "take (length p) w = p" "p = w \<longleftrightarrow> take (length w) cs = w"
      using Cons.IH [of "a @ [c]" "advance l"] Cons.prems cs by auto
    with True c cs show ?thesis
      by (intro exI [of _ "c # p"])
        (auto simp: nth_append funpow_swap1 end_identifier_loop.simps [of "a @ c # w @ [0]" "length a" a l])
  next
    case False
    then have "end_identifier_loop (a @ (c # w) @ [0]) (length a) a l = (True, a, l)"
      by (subst end_identifier_loop.simps) (simp add: nth_append)
    moreover have "take (Suc (length w)) (rest l) \<noteq> c # w" using False c by (cases "rest l") auto
    ultimately show ?thesis using False by (intro exI [of _ "[]"]) auto
  qed
qed

lemma c_string_append_0: "0 \<notin> set w \<Longrightarrow> c_string (w @ [0]) = w"
  by (simp add: c_string_def takeWhile_append)

text \<open>The delimiter is found exactly in front of a text that starts with it; otherwise a part of it is consumed.\<close>

lemma scan_heredoc_end_identifier_word:
  assumes "ascii_word w" "delimiter (array_back s) = w @ [0]"
  obtains p where "scan_heredoc_end_identifier s = (take (length w) (rest (blex s)) = w,
      upd_back (\<lambda>h. h\<lparr>current_leading_word := p @ [0]\<rparr>) (s\<lparr>blex := (advance ^^ length p) (blex s)\<rparr>))"
    "take (length p) (rest (blex s)) = p" "length p \<le> length (rest (blex s))" "take (length p) w = p"
    "p = w \<longleftrightarrow> take (length w) (rest (blex s)) = w" "blook s = hd w \<Longrightarrow> p \<noteq> []"
proof -
  have w: "list_all (\<lambda>c. 0 < c \<and> c < 128 \<and> c \<noteq> 10) w" "w \<noteq> []" "0 \<notin> set w"
    using assms(1) by (auto simp: ascii_word_def list_all_iff)
  obtain p where p: "end_identifier_loop (w @ [0]) 0 [] (blex s) = (True, p, (advance ^^ length p) (blex s))"
    "take (length p) (rest (blex s)) = p" "length p \<le> length (rest (blex s))" "take (length p) w = p"
    "p = w \<longleftrightarrow> take (length w) (rest (blex s)) = w" "blook s = hd w \<Longrightarrow> p \<noteq> []"
    using end_identifier_loop_word [OF w(1), of "[]" "blex s"] w(2) by auto
  moreover have "0 \<notin> set p" using w(3) p(4) set_take_subset [of "length p" w] by auto
  then have "c_string (p @ [0]) = p" "c_string (w @ [0]) = w"
    using w(3) by (simp_all add: c_string_append_0)
  ultimately show ?thesis
    using assms(2) by (intro that [of p]) (simp_all add: scan_heredoc_end_identifier_def)
qed

section \<open>The start of a here document\<close>

lemma bash_call_start:
  assumes "\<forall>k. v k \<longleftrightarrow> k = HEREDOC_START" "heredocs s \<noteq> []"
  shows "bash_call (l, v) s = scan_heredoc_start (s\<lparr>blex := l\<rparr>)"
proof -
  have "v = (\<lambda>k. k = HEREDOC_START)" using assms(1) by auto
  with assms(2) show ?thesis
    by (simp add: bash_call_def bash_scan_def on_lex_part_def andthen_def scan_concat_def scan_double_hash_def
        scan_expansion_sym_def scan_empty_value_def scan_heredoc_def in_error_recovery_def returning_def)
qed

text \<open>
  C35. The delimiter of a here document is the word behind the arrow, without its quotes or backslashes; the here
  document is raw if it has any. This covers unquoted words (without quotes, backslashes and operators of the shell), words
  as a whole in quotes (without backslashes), and words that start with a backslash, where each backslash stands for the character behind it. Behind the
  call, the comparison at the start of a line succeeds exactly if the text starts with this word, for a word of ASCII characters.
\<close>

theorem bash_heredoc_delimiter:
  assumes "heredocs s = hs @ [h]" "delimiter h = []" "\<forall>k. v k \<longleftrightarrow> k = HEREDOC_START"
    and "list_all iswspace ws" "rest l = ws @ written st w @ e" "delimiter_ok st w" "behind_delimiter st e"
  shows "\<exists>l'. bash_call (l, v) s =
      (True, s\<lparr>heredocs := hs @ [h\<lparr>is_raw := (st \<noteq> Unquoted), delimiter := map i8 w @ [0]\<rparr>], blex := l'\<rparr>) \<and>
    result_sym l' = HEREDOC_START \<and> rest l' = e \<and>
    (\<forall>k. ascii_word w \<longrightarrow>
      (fst (scan_heredoc_end_identifier ((snd (bash_call (l, v) s))\<lparr>blex := k\<rparr>)) \<longleftrightarrow> (\<exists>t. rest k = w @ t)))"
proof -
  let ?s = "s\<lparr>blex := l\<rparr>"
  have bk: "array_back ?s = h" "upd_back f (s\<lparr>blex := m\<rparr>) = s\<lparr>heredocs := hs @ [f h], blex := m\<rparr>" for f m
    using assms(1) by (simp_all add: array_back_def upd_back_def)
  obtain c t where ct: "written st w = c # t" "\<not> iswspace c" "c \<in> {ch CHR 0x27, ch CHR 0x22, ch CHR 0x5C} \<longleftrightarrow> st \<noteq> Unquoted"
    using written_first [OF assms(6)] .
  have word: "advance_word [] l = (True, map i8 w @ [0], (advance ^^ length (written st w)) l)" if "rest l = c # t @ e" for l :: blexer
    using advance_word_written [OF assms(6,7), of l] that ct(1) by simp
  obtain l' where l': "bash_call (l, v) s =
      (True, s\<lparr>heredocs := hs @ [h\<lparr>is_raw := (st \<noteq> Unquoted), delimiter := map i8 w @ [0]\<rparr>], blex := l'\<rparr>)"
    "result_sym l' = HEREDOC_START" "rest l' = e"
  proof -
    have "\<exists>l'. scan_heredoc_start ?s = (True, upd_back (\<lambda>h. h\<lparr>is_raw := c \<in> {ch CHR 0x27, ch CHR 0x22, ch CHR 0x5C},
        delimiter := map i8 w @ [0]\<rparr>) (?s\<lparr>blex := l'\<rparr>)) \<and>
      result_sym l' = HEREDOC_START \<and> rest l' = drop (length (written st w)) (c # t @ e) \<and> token_end l' = token_end (blex ?s)"
      using assms(2,5) ct(1) bk(1) by (intro scan_heredoc_start_word [OF _ assms(4) ct(2) _ word]) simp_all
    moreover have "bash_call (l, v) s = scan_heredoc_start ?s" using assms(1) by (intro bash_call_start [OF assms(3)]) simp
    moreover have "drop (length (written st w)) (c # t @ e) = e" using ct(1) by simp
    ultimately show ?thesis
      using that unfolding ct(3) by (auto simp: bk(2))
  qed
  have "fst (scan_heredoc_end_identifier ((snd (bash_call (l, v) s))\<lparr>blex := k\<rparr>)) \<longleftrightarrow> (\<exists>t. rest k = w @ t)"
    if w: "ascii_word w" for k
  proof -
    have "delimiter (array_back ((snd (bash_call (l, v) s))\<lparr>blex := k\<rparr>)) = w @ [0]"
      using l'(1) ascii_word_stored [OF w] by (simp add: array_back_def)
    then have "fst (scan_heredoc_end_identifier ((snd (bash_call (l, v) s))\<lparr>blex := k\<rparr>)) \<longleftrightarrow> take (length w) (rest k) = w"
      by (rule scan_heredoc_end_identifier_word [OF w]) simp
    then show ?thesis by (metis append_eq_conv_conj append_take_drop_id)
  qed
  with l' show ?thesis by blast
qed

theorem bash_heredoc_delimiter_witness:
  "let l = lexer_on NEWLINE (text_of ('' '' @ [CHR 0x5C] @ ''EOF'')); s = (bash_create l)\<lparr>heredocs := [heredoc_new]\<rparr>;
       s' = snd (bash_call (l, \<lambda>k. k = HEREDOC_START) s)
   in is_raw (array_back s') \<and> fst (scan_heredoc_end_identifier (s'\<lparr>blex := lexer_on NEWLINE (text_of ''EOF;'')\<rparr>)) \<and>
      \<not> fst (scan_heredoc_end_identifier (s'\<lparr>blex := lexer_on NEWLINE (text_of ''EO'')\<rparr>))"
proof -
  let ?l = "lexer_on NEWLINE (text_of ('' '' @ [CHR 0x5C] @ ''EOF''))"
  let ?s = "(bash_create ?l)\<lparr>heredocs := [heredoc_new]\<rparr>"
  let ?st = "Escaped [True, False, False]"
  have ok: "ascii_word (text_of ''EOF'')" "delimiter_ok ?st (text_of ''EOF'')" "behind_delimiter ?st []"
    by (simp_all add: ascii_word_def word_char_def operator_char_def behind_delimiter_def text_of_def ch_def iswspace_def)
  have "rest ?l = [ch CHR '' ''] @ written ?st (text_of ''EOF'') @ []" "list_all iswspace [ch CHR '' '']"
    "heredocs ?s = [] @ [heredoc_new]" "delimiter heredoc_new = []"
    by (simp_all add: lexer_on_def escape_def text_of_def iswspace_def ch_def heredoc_new_def)
  note delim = bash_heredoc_delimiter [OF this(3,4) _ this(2,1) ok(2,3), of "\<lambda>k. k = HEREDOC_START"]
  then obtain l' where "bash_call (?l, \<lambda>k. k = HEREDOC_START) ?s = (True, ?s\<lparr>heredocs := [] @ [heredoc_new\<lparr>is_raw := (?st \<noteq> Unquoted),
      delimiter := map i8 (text_of ''EOF'') @ [0]\<rparr>], blex := l'\<rparr>)" by blast
  moreover have "\<exists>t. text_of ''EOF;'' = text_of ''EOF'' @ t" "\<nexists>t. text_of ''EO'' = text_of ''EOF'' @ t" by (simp_all add: text_of_def)
  ultimately show ?thesis using delim ok(1) by (auto simp: Let_def array_back_def lexer_on_def)
qed

section \<open>The body of a here document\<close>

text \<open>The content loop for the body in one piece.\<close>

abbreviation body_loop :: "bool \<Rightarrow> BashScanner \<Rightarrow> bool \<times> BashScanner" where
  "body_loop \<equiv> scan_heredoc_content_loop HEREDOC_BODY_BEGINNING SIMPLE_HEREDOC_BODY"

text \<open>A here document with the delimiter \<open>w\<close> is on top, without indentation and not yet started.\<close>

definition in_body :: "int list \<Rightarrow> bool \<Rightarrow> BashScanner \<Rightarrow> bool" where
  "in_body w raw s \<longleftrightarrow> heredocs s \<noteq> [] \<and> delimiter (array_back s) = w @ [0] \<and> is_raw (array_back s) = raw \<and>
     \<not> started (array_back s) \<and> \<not> allows_indent (array_back s)"

definition body_char :: "bool \<Rightarrow> int \<Rightarrow> bool" where
  "body_char raw c \<longleftrightarrow> c \<noteq> 0 \<and> c \<noteq> 10 \<and> c \<noteq> ch CHR 0x5C \<and> (raw \<or> c \<noteq> ch CHR ''$'')"

lemma in_body_frame [simp]:
  "in_body w raw (s\<lparr>blex := l\<rparr>) = in_body w raw s" "in_body w raw (on_lex f s) = in_body w raw s"
  "in_body w raw (upd_back (\<lambda>h. h\<lparr>current_leading_word := c\<rparr>) s) = (in_body w raw s \<or> heredocs s = [] \<and>
     in_body w raw (upd_back (\<lambda>h. h\<lparr>current_leading_word := c\<rparr>) s))"
  by (auto simp: in_body_def array_back_def on_lex_def upd_back_def)

lemma get_column_frame [simp]:
  "get_column (mark_end l) = get_column l" "get_column (set_sym k l) = get_column l"
  "get_column (l\<lparr>rest := r\<rparr>) = get_column l"
  by (simp_all add: get_column_def mark_end_def set_sym_def)

text \<open>Inside a line.\<close>

lemma body_loop_line:
  assumes "in_body w raw s" "rest (blex s) = ln @ 10 # t" "list_all (body_char raw) ln" "get_column (blex s) \<noteq> 0 \<or> ln = []"
  shows "body_loop True s = body_loop True (s\<lparr>blex := (advance ^^ length ln) (blex s)\<rparr>)"
  using assms
proof (induction ln arbitrary: s)
  case (Cons c ln)
  let ?u = "on_lex advance s"
  have c: "blook s = c" "c \<noteq> 0" "c \<noteq> 10" "c \<noteq> ch CHR 0x5C" "raw \<or> c \<noteq> ch CHR ''$''"
    using Cons.prems(2,3) by (simp_all add: body_char_def)
  have raw: "is_raw (array_back s) = raw" using Cons.prems(1) by (simp add: in_body_def)
  have "body_loop True s = body_loop True ?u"
    using c raw Cons.prems(4) unfolding scan_heredoc_content_loop.simps [of _ _ _ s]
    by (auto simp: content_default_def)
  moreover have "get_column (blex ?u) \<noteq> 0"
    using Cons.prems(2) c(3) by (simp add: get_column_def advance_def)
  with Cons.prems have "body_loop True ?u = body_loop True (?u\<lparr>blex := (advance ^^ length ln) (blex ?u)\<rparr>)"
    by (intro Cons.IH) simp_all
  ultimately show ?case by (simp add: on_lex_def funpow_swap1)
qed simp

text \<open>Behind a newline, where the line does not start with the delimiter.\<close>

lemma body_loop_first:
  assumes "ascii_word w" "in_body w raw s" "rest (blex s) = c # t" "body_char raw c" "\<not> iswspace c" "c \<noteq> hd w"
  shows "\<exists>s'. body_loop True s = body_loop True s' \<and> in_body w raw s' \<and> rest (blex s') = t \<and>
    pos (blex s') = Suc (pos (blex s)) \<and> get_column (blex s') \<noteq> 0 \<and> butlast (heredocs s') = butlast (heredocs s)"
proof -
  let ?u = "on_lex mark_end (on_lex (set_sym SIMPLE_HEREDOC_BODY) s)"
  have back_s: "is_raw (array_back s) = raw" "delimiter (array_back ?u) = w @ [0]" "heredocs s \<noteq> []"
    using assms(2) by (simp_all add: in_body_def)
  obtain p where p: "scan_heredoc_end_identifier ?u = (take (length w) (rest (blex ?u)) = w,
      upd_back (\<lambda>h. h\<lparr>current_leading_word := p @ [0]\<rparr>) (?u\<lparr>blex := (advance ^^ length p) (blex ?u)\<rparr>))"
    "take (length p) (rest (blex ?u)) = p" "take (length p) w = p"
    by (rule scan_heredoc_end_identifier_word [OF assms(1) back_s(2)]) blast
  have "p = []" using p(2,3) assms(1,3,6) by (cases p; cases w) (auto simp: ascii_word_def)
  moreover have "take (length w) (c # t) \<noteq> w" using assms(1,6) by (cases w) (auto simp: ascii_word_def)
  ultimately have eq: "scan_heredoc_end_identifier ?u = (False, upd_back (\<lambda>h. h\<lparr>current_leading_word := [0]\<rparr>) ?u)"
    using p(1) assms(3) by (simp add: on_lex_def)
  have c: "c \<noteq> 0" "c \<noteq> 10" "c \<noteq> ch CHR 0x5C" "raw \<or> c \<noteq> ch CHR ''$''" "blook s = c"
    using assms(3,4) by (simp_all add: body_char_def)
  have "advance_while iswspace (blex s) = blex s"
    using assms(5) c(5) by (simp add: advance_while_unfold)
  then have def: "content_default HEREDOC_BODY_BEGINNING SIMPLE_HEREDOC_BODY True s =
      (False, if get_column (blex s) = 0 then upd_back (\<lambda>h. h\<lparr>current_leading_word := [0]\<rparr>) ?u else s)"
    unfolding content_default_def Let_def using eq by (simp add: on_lex_def)
  let ?s' = "if c = ch CHR ''$'' \<or> get_column (blex s) \<noteq> 0 then on_lex advance s
    else on_lex advance (upd_back (\<lambda>h. h\<lparr>current_leading_word := [0]\<rparr>) ?u)"
  have "body_loop True s = body_loop True ?s'"
    unfolding scan_heredoc_content_loop.simps [of _ _ _ s] using c back_s def by (auto simp: ch_def)
  moreover have "get_column (blex ?s') \<noteq> 0"
    using assms(3) c(2) by (simp add: get_column_def advance_def mark_end_def set_sym_def)
  ultimately show ?thesis
    using assms(2,3) back_s(3) by (intro exI [of _ ?s']) (auto simp: upd_back_def on_lex_def array_back_def in_body_def)
qed

text \<open>The newline itself: the comparison behind it consumes a common part \<open>p\<close> of the line and the delimiter.\<close>

lemma content_newline_body:
  assumes "ascii_word w" "in_body w raw s" "rest (blex s) = 10 # t"
  obtains p s' where "content_newline HEREDOC_BODY_BEGINNING SIMPLE_HEREDOC_BODY d s = (take (length w) t = w, s')"
    "in_body w raw s'" "rest (blex s') = drop (length p) t" "pos (blex s') = Suc (pos (blex s)) + length p"
    "result_sym (blex s') = SIMPLE_HEREDOC_BODY" "token_end (blex s') = Some (Suc (pos (blex s)))"
    "take (length p) t = p" "take (length p) w = p" "length p \<le> length t" "get_column (blex s') = length p"
    "butlast (heredocs s') = butlast (heredocs s)" "t \<noteq> [] \<Longrightarrow> hd t = hd w \<Longrightarrow> p \<noteq> []"
proof -
  define u where "u = on_lex mark_end (on_lex (set_sym SIMPLE_HEREDOC_BODY) (on_lex (if d then advance else skip) s))"
  have u: "rest (blex u) = t" "pos (blex u) = Suc (pos (blex s))" "token_end (blex u) = Some (Suc (pos (blex s)))"
    "result_sym (blex u) = SIMPLE_HEREDOC_BODY" "col (blex u) = 0" "in_body w raw u" "heredocs u = heredocs s"
    using assms(2,3)
    by (simp_all add: u_def on_lex_def in_body_def array_back_def skip_def advance_def mark_end_def set_sym_def)
  have delim: "delimiter (array_back u) = w @ [0]" "heredocs u \<noteq> []" using u(6) by (simp_all add: in_body_def)
  obtain p where p: "scan_heredoc_end_identifier u = (take (length w) t = w,
      upd_back (\<lambda>h. h\<lparr>current_leading_word := p @ [0]\<rparr>) (u\<lparr>blex := (advance ^^ length p) (blex u)\<rparr>))"
    "take (length p) t = p" "length p \<le> length t" "take (length p) w = p" "blook u = hd w \<Longrightarrow> p \<noteq> []"
    by (rule scan_heredoc_end_identifier_word [OF assms(1) delim(1)]) (use u(1) in blast)
  let ?s' = "upd_back (\<lambda>h. h\<lparr>current_leading_word := p @ [0]\<rparr>) (u\<lparr>blex := (advance ^^ length p) (blex u)\<rparr>)"
  have "content_newline HEREDOC_BODY_BEGINNING SIMPLE_HEREDOC_BODY d s = (take (length w) t = w, ?s')"
    using assms(2) p(1) u(4) unfolding content_newline_def Let_def in_body_def u_def
    by (cases d) (simp_all add: array_back_def on_lex_def)
  moreover have "10 \<notin> set p"
    using assms(1) p(4) set_take_subset [of "length p" w] by (auto simp: ascii_word_def list_all_iff)
  then have "get_column (blex ?s') = length p"
    using u(1,5) p(2,3) by (simp add: get_column_def advance_n_col)
  ultimately show ?thesis
    using u delim(2) p(2-4) p(5) [unfolded la_hd [OF u(1)]] by (intro that [of ?s' p]) (auto simp: upd_back_def in_body_def array_back_def)
qed

lemma body_loop_newline:
  assumes "blook s = 10"
  shows "body_loop d s = (let (found, s) = content_newline HEREDOC_BODY_BEGINNING SIMPLE_HEREDOC_BODY d s
    in if found then (True, s) else body_loop True s)"
  using assms by (subst scan_heredoc_content_loop.simps) (simp add: ch_def)

text \<open>A line of the body: it has no escapes, no expansions, no indentation and does not start with the delimiter.\<close>

definition body_line :: "int list \<Rightarrow> bool \<Rightarrow> int list \<Rightarrow> bool" where
  "body_line w raw ln \<longleftrightarrow> list_all (body_char raw) ln \<and> take (length w) ln \<noteq> w \<and> (ln \<noteq> [] \<longrightarrow> \<not> iswspace (hd ln))"

lemma take_append_neq:
  assumes "10 \<notin> set p" "take (length p) (ln @ 10 # t) = p"
  shows "take (length p) ln = p"
proof (cases "length p \<le> length ln")
  case False
  then obtain k where "length p - length ln = Suc k" by (metis Suc_diff_Suc not_le)
  then have "10 \<in> set (take (length p) (ln @ 10 # t))" by simp
  with assms show ?thesis by simp
qed (use assms in simp)

lemma body_loop_body_line:
  assumes "ascii_word w" "in_body w raw s" "rest (blex s) = 10 # ln @ 10 # t" "body_line w raw ln"
  shows "\<exists>s'. body_loop d s = body_loop True s' \<and> in_body w raw s' \<and> rest (blex s') = 10 # t \<and>
    pos (blex s') = Suc (pos (blex s)) + length ln \<and> butlast (heredocs s') = butlast (heredocs s)"
proof -
  have w: "10 \<notin> set w" "w \<noteq> []" using assms(1) by (auto simp: ascii_word_def list_all_iff)
  obtain p s1 where s1: "content_newline HEREDOC_BODY_BEGINNING SIMPLE_HEREDOC_BODY d s =
      (take (length w) (ln @ 10 # t) = w, s1)" "in_body w raw s1" "rest (blex s1) = drop (length p) (ln @ 10 # t)"
    "pos (blex s1) = Suc (pos (blex s)) + length p" "take (length p) (ln @ 10 # t) = p" "take (length p) w = p"
    "get_column (blex s1) = length p" "butlast (heredocs s1) = butlast (heredocs s)"
    "hd (ln @ 10 # t) = hd w \<Longrightarrow> p \<noteq> []"
    by (rule content_newline_body [OF assms(1-3)]) blast
  have "10 \<notin> set p" using w s1(6) set_take_subset [of "length p" w] by auto
  then have p: "take (length p) ln = p" using s1(5) by (rule take_append_neq)
  then have len: "length p \<le> length ln" by (metis length_take min.cobounded1)
  have "take (length w) (ln @ 10 # t) \<noteq> w"
    using assms(4) take_append_neq [OF w(1)] by (auto simp: body_line_def)
  with s1(1) assms(3) have step: "body_loop d s = body_loop True s1" by (simp add: body_loop_newline)
  have chars: "list_all (body_char raw) (drop (length p) ln)"
    using assms(4) set_drop_subset [of "length p" ln] by (auto simp: body_line_def list_all_iff)
  have rest1: "rest (blex s1) = drop (length p) ln @ 10 # t" using s1(3) len by simp
  show ?thesis
  proof (cases "p = [] \<and> ln \<noteq> []")
    case True
    then obtain c cs where ln: "ln = c # cs" by (cases ln) auto
    with True s1(9) have c: "c \<noteq> hd w" by auto
    have line: "rest (blex s1) = c # cs @ 10 # t" "body_char raw c" "\<not> iswspace c"
      using rest1 True assms(4) ln by (simp_all add: body_line_def)
    obtain s2 where s2: "body_loop True s1 = body_loop True s2" "in_body w raw s2" "rest (blex s2) = cs @ 10 # t"
      "pos (blex s2) = Suc (pos (blex s1))" "get_column (blex s2) \<noteq> 0" "butlast (heredocs s2) = butlast (heredocs s1)"
      using body_loop_first [OF assms(1) s1(2) line c] by blast
    have "body_loop True s2 = body_loop True (s2\<lparr>blex := (advance ^^ length cs) (blex s2)\<rparr>)"
      using assms(4) s2(5) ln by (intro body_loop_line [OF s2(2,3)]) (auto simp: body_line_def)
    then show ?thesis
      using step s1(4,8) s2 True ln by (intro exI [of _ "s2\<lparr>blex := (advance ^^ length cs) (blex s2)\<rparr>"]) simp
  next
    case False
    then have "body_loop True s1 = body_loop True (s1\<lparr>blex := (advance ^^ length (drop (length p) ln)) (blex s1)\<rparr>)"
      using s1(7) by (intro body_loop_line [OF s1(2) rest1 chars]) auto
    then show ?thesis
      using step s1 rest1 len
      by (intro exI [of _ "s1\<lparr>blex := (advance ^^ length (drop (length p) ln)) (blex s1)\<rparr>"]) simp
  qed
qed

lemma body_loop_end:
  assumes "ascii_word w" "in_body w raw s" "rest (blex s) = 10 # w @ t"
  shows "\<exists>s'. body_loop d s = (True, s') \<and> in_body w raw s' \<and> result_sym (blex s') = SIMPLE_HEREDOC_BODY \<and>
    token_end (blex s') = Some (Suc (pos (blex s))) \<and> butlast (heredocs s') = butlast (heredocs s)"
proof -
  obtain s' where "content_newline HEREDOC_BODY_BEGINNING SIMPLE_HEREDOC_BODY d s = (take (length w) (w @ t) = w, s')"
    "in_body w raw s'" "result_sym (blex s') = SIMPLE_HEREDOC_BODY" "token_end (blex s') = Some (Suc (pos (blex s)))"
    "butlast (heredocs s') = butlast (heredocs s)"
    by (rule content_newline_body [OF assms]) blast
  with assms(3) show ?thesis by (auto simp: body_loop_newline)
qed

lemma body_loop_body:
  assumes "ascii_word w" "list_all (body_line w raw) ls" "in_body w raw s"
    and "rest (blex s) = concat (map ((#) 10) ls) @ 10 # w @ t"
  shows "\<exists>s'. body_loop d s = (True, s') \<and> in_body w raw s' \<and> result_sym (blex s') = SIMPLE_HEREDOC_BODY \<and>
    token_end (blex s') = Some (pos (blex s) + length (concat (map ((#) 10) ls)) + 1) \<and>
    butlast (heredocs s') = butlast (heredocs s)"
  using assms(2-4)
proof (induction ls arbitrary: d s)
  case Nil
  then show ?case using body_loop_end [OF assms(1), of raw s t d] by simp
next
  case (Cons ln ls)
  let ?t = "concat (map ((#) 10) ls) @ 10 # w @ t"
  obtain u where u: "?t = 10 # u" by (cases ls) auto
  have "rest (blex s) = 10 # ln @ 10 # u" using Cons.prems(3) u by simp
  then obtain s1 where s1: "body_loop d s = body_loop True s1" "in_body w raw s1" "rest (blex s1) = ?t"
    "pos (blex s1) = Suc (pos (blex s)) + length ln" "butlast (heredocs s1) = butlast (heredocs s)"
    using body_loop_body_line [OF assms(1) Cons.prems(2), of ln u d] Cons.prems(1) u by auto
  obtain s' where s': "body_loop True s1 = (True, s')" "in_body w raw s'" "result_sym (blex s') = SIMPLE_HEREDOC_BODY"
    "token_end (blex s') = Some (pos (blex s1) + length (concat (map ((#) 10) ls)) + 1)"
    "butlast (heredocs s') = butlast (heredocs s1)"
    using Cons.IH [OF _ s1(2,3), of True] Cons.prems(1) by auto
  then show ?case using s1 by simp
qed

text \<open>
  At the start of a line of the body, where the loop begins: the newline in front of it is part of the token before. The default case
  compares the line with the delimiter and then consumes one more character, the newline itself if the comparison has consumed the line.
\<close>

lemma body_loop_line_start:
  assumes w: "ascii_word w" and s: "in_body w raw s" "get_column (blex s) = 0" and r: "rest (blex s) = c # t"
    and c: "body_char raw c" "\<not> iswspace c" "c \<noteq> ch CHR ''$''"
  obtains p s' where "take (length p) (c # t) = p" "take (length p) w = p" "length p \<le> length (c # t)"
    "body_loop d s = (if take (length w) (c # t) = w then (True, s') else body_loop True (on_lex advance s'))"
    "rest (blex s') = drop (length p) (c # t)" "pos (blex s') = pos (blex s) + length p" "col (blex s') = length p"
    "in_body w raw s'" "result_sym (blex s') = SIMPLE_HEREDOC_BODY" "token_end (blex s') = Some (pos (blex s))"
    "butlast (heredocs s') = butlast (heredocs s)"
proof -
  define u where "u = on_lex mark_end (on_lex (set_sym SIMPLE_HEREDOC_BODY) s)"
  have u: "rest (blex u) = c # t" "pos (blex u) = pos (blex s)" "token_end (blex u) = Some (pos (blex s))"
    "result_sym (blex u) = SIMPLE_HEREDOC_BODY" "col (blex u) = 0" "in_body w raw u" "heredocs u = heredocs s"
    using s r by (simp_all add: u_def on_lex_def in_body_def array_back_def mark_end_def set_sym_def get_column_def)
  have delim: "delimiter (array_back u) = w @ [0]" "heredocs u \<noteq> []" using u(6) by (simp_all add: in_body_def)
  obtain p where p: "scan_heredoc_end_identifier u = (take (length w) (c # t) = w,
      upd_back (\<lambda>h. h\<lparr>current_leading_word := p @ [0]\<rparr>) (u\<lparr>blex := (advance ^^ length p) (blex u)\<rparr>))"
    "take (length p) (c # t) = p" "length p \<le> length (c # t)" "take (length p) w = p"
    by (rule scan_heredoc_end_identifier_word [OF w delim(1)]) (use u(1) in metis)
  let ?s' = "upd_back (\<lambda>h. h\<lparr>current_leading_word := p @ [0]\<rparr>) (u\<lparr>blex := (advance ^^ length p) (blex u)\<rparr>)"
  have la: "blook s = c" "c \<noteq> 0" "c \<noteq> 10" "c \<noteq> ch CHR 0x5C" using r c by (simp_all add: body_char_def)
  have "on_lex ((if d then advance_while else skip_while) iswspace) s = s"
    using c(2) la(1) by (simp add: on_lex_def advance_while_unfold skip_while.simps [of iswspace "blex s"])
  then have "content_default HEREDOC_BODY_BEGINNING SIMPLE_HEREDOC_BODY d s = (take (length w) (c # t) = w, ?s')"
    using s(2) p(1) unfolding content_default_def Let_def u_def by simp
  then have "body_loop d s = (if take (length w) (c # t) = w then (True, ?s') else body_loop True (on_lex advance ?s'))"
    using la c(3) by (subst scan_heredoc_content_loop.simps) simp
  moreover have "10 \<notin> set p"
    using w p(4) set_take_subset [of "length p" w] by (auto simp: ascii_word_def list_all_iff)
  then have "col (blex ?s') = length p" using u(1,5) p(2,3) by (simp add: advance_n_col)
  ultimately show ?thesis
    using u delim(2) p(2-4) by (intro that [of p ?s']) (auto simp: upd_back_def in_body_def array_back_def)
qed

definition text_lines :: "int list list \<Rightarrow> int list" where
  "text_lines ls = concat (map (\<lambda>ln. ln @ [10]) ls)"

lemma text_lines_simps [simp]: "text_lines [] = []" "text_lines (ln # ls) = ln @ 10 # text_lines ls"
  by (simp_all add: text_lines_def)

lemma text_lines_newline: "10 # text_lines ls @ r = concat (map ((#) 10) ls) @ 10 # r"
  by (induction ls) simp_all

lemma body_loop_newlines:
  assumes "ascii_word w" "list_all (body_line w raw) ls" "in_body w raw s" "rest (blex s) = 10 # text_lines ls @ w @ t"
  shows "\<exists>s'. body_loop d s = (True, s') \<and> in_body w raw s' \<and> result_sym (blex s') = SIMPLE_HEREDOC_BODY \<and>
    token_end (blex s') = Some (pos (blex s) + length (text_lines ls) + 1) \<and> butlast (heredocs s') = butlast (heredocs s)"
proof -
  have "length (concat (map ((#) 10) ls)) = length (text_lines ls)" by (induction ls) simp_all
  with body_loop_body [OF assms(1-3), of t d] assms(4) text_lines_newline [of ls "w @ t"] show ?thesis by simp
qed

lemma body_loop_lines:
  assumes w: "ascii_word w" "body_char False (hd w)" "\<not> iswspace (hd w)"
    and "list_all (body_line w raw) ls" "in_body w raw s" "get_column (blex s) = 0" "rest (blex s) = text_lines ls @ w @ t"
  shows "\<exists>s'. body_loop d s = (True, s') \<and> in_body w raw s' \<and> result_sym (blex s') = SIMPLE_HEREDOC_BODY \<and>
    token_end (blex s') = Some (pos (blex s) + length (text_lines ls)) \<and> butlast (heredocs s') = butlast (heredocs s)"
  using assms(4-7)
proof (induction ls arbitrary: d s)
  case Nil
  obtain c cs where cs: "w = c # cs" using w(1) by (cases w) (auto simp: ascii_word_def)
  then have c: "body_char raw c" "\<not> iswspace c" "c \<noteq> ch CHR ''$''" using w by (simp_all add: body_char_def)
  obtain s' where "body_loop d s = (if take (length w) (c # cs @ t) = w then (True, s') else body_loop True (on_lex advance s'))"
    "in_body w raw s'" "result_sym (blex s') = SIMPLE_HEREDOC_BODY" "token_end (blex s') = Some (pos (blex s))"
    "butlast (heredocs s') = butlast (heredocs s)"
    by (rule body_loop_line_start [OF w(1) Nil(2,3) _ c, of "cs @ t" d]) (use Nil(4) cs in auto)
  then show ?case using cs by auto
next
  case (Cons ln ls)
  let ?T = "text_lines ls @ w @ t"
  have ln: "list_all (body_char raw) ln" "take (length w) ln \<noteq> w" "ln \<noteq> [] \<Longrightarrow> \<not> iswspace (hd ln)" "list_all (body_line w raw) ls"
    using Cons.prems(1) body_line_def [of w raw ln] by simp_all
  show ?case
  proof (cases ln)
    case Nil
    then show ?thesis using body_loop_newlines [OF w(1) ln(4) Cons.prems(2), of t d] Cons.prems(4) by simp
  next
    case (Cons c cs)
    have r: "rest (blex s) = c # cs @ 10 # ?T" using Cons.prems(4) Cons by simp
    have c: "body_char raw c" "\<not> iswspace c" "list_all (body_char raw) cs" using ln(1,3) Cons by simp_all
    have rest_of_line: ?thesis
      if s1: "body_loop d s = body_loop True s1" "in_body w raw s1" "rest (blex s1) = drop k ln @ 10 # ?T" "get_column (blex s1) \<noteq> 0"
        "pos (blex s1) = pos (blex s) + k" "k \<le> length ln" "butlast (heredocs s1) = butlast (heredocs s)" for s1 k
    proof -
      let ?s2 = "s1\<lparr>blex := (advance ^^ length (drop k ln)) (blex s1)\<rparr>"
      have "list_all (body_char raw) (drop k ln)" using ln(1) set_drop_subset [of k ln] by (auto simp: list_all_iff)
      then have "body_loop True s1 = body_loop True ?s2" using s1(4) by (intro body_loop_line [OF s1(2,3)]) auto
      moreover have "in_body w raw ?s2" "rest (blex ?s2) = 10 # ?T" "pos (blex ?s2) = pos (blex s) + length ln"
        "butlast (heredocs ?s2) = butlast (heredocs s)" using s1 by simp_all
      ultimately show ?thesis using body_loop_newlines [OF w(1) ln(4), of ?s2 t True] s1(1) by auto
    qed
    show ?thesis
    proof (cases "c = ch CHR ''$''")
      case True
      then have "raw" "is_raw (array_back s)" using c(1) Cons.prems(2) by (auto simp: body_char_def in_body_def)
      then have "body_loop d s = body_loop True (on_lex advance s)"
        using True r by (subst scan_heredoc_content_loop.simps) (simp add: ch_def)
      then show ?thesis
        by (rule rest_of_line [of _ 1]) (use Cons.prems(2,3) r True Cons in \<open>simp_all add: get_column_def advance_def ch_def\<close>)
    next
      case False
      obtain p s' where p: "take (length p) (c # cs @ 10 # ?T) = p" "take (length p) w = p"
        "body_loop d s = (if take (length w) (c # cs @ 10 # ?T) = w then (True, s') else body_loop True (on_lex advance s'))"
        "rest (blex s') = drop (length p) (c # cs @ 10 # ?T)" "pos (blex s') = pos (blex s) + length p" "col (blex s') = length p"
        "in_body w raw s'" "butlast (heredocs s') = butlast (heredocs s)"
        by (rule body_loop_line_start [OF w(1) Cons.prems(2,3) r c(1,2) False, of d]) blast
      have w10: "10 \<notin> set w" using w(1) by (auto simp: ascii_word_def list_all_iff)
      have "10 \<notin> set p" using w10 p(2) set_take_subset [of "length p" w] by auto
      then have "take (length p) ln = p" using take_append_neq [of p ln ?T] p(1) Cons by simp
      then have len: "length p \<le> length ln" by (metis length_take min.cobounded1)
      have "take (length w) (c # cs @ 10 # ?T) \<noteq> w" using take_append_neq [OF w10, of ln ?T] ln(2) Cons by auto
      with p(3) have step: "body_loop d s = body_loop True (on_lex advance s')" by simp
      have "c # cs @ 10 # ?T = ln @ 10 # ?T" using Cons by simp
      then have r': "rest (blex s') = drop (length p) ln @ 10 # ?T" using p(4) len by (simp only: drop_append) simp
      show ?thesis
      proof (cases "length p = length ln")
        case True
        then have "rest (blex (on_lex advance s')) = ?T" "get_column (blex (on_lex advance s')) = 0"
          "pos (blex (on_lex advance s')) = pos (blex s) + length ln + 1" "heredocs (on_lex advance s') = heredocs s'"
          using r' p(5) by (simp_all add: get_column_def advance_def on_lex_def)
        then show ?thesis using Cons.IH [of "on_lex advance s'" True] ln(4) p(7,8) step by auto
      next
        case False
        then obtain b bs where b: "drop (length p) ln = b # bs" using len by (cases "drop (length p) ln") auto
        moreover have "b \<noteq> 10" using b ln(1) set_drop_subset [of "length p" ln] by (auto simp: list_all_iff body_char_def)
        moreover have "drop (Suc (length p)) ln = bs" using b by (metis drop_Suc list.sel(3) tl_drop)
        ultimately show ?thesis
          using False len r' p(5-8)
          by (intro rest_of_line [OF step, of "Suc (length p)"]) (simp_all add: get_column_def advance_def on_lex_def)
      qed
    qed
  qed
qed

lemma bash_call_body:
  assumes "v SIMPLE_HEREDOC_BODY" "\<forall>k. v k \<longrightarrow> k \<in> {SIMPLE_HEREDOC_BODY, HEREDOC_BODY_BEGINNING}"
    and "heredocs s \<noteq> []" "\<not> started (array_back s)"
  shows "bash_call (l, v) s = body_loop False (s\<lparr>blex := l\<rparr>)"
proof -
  have "\<not> v CONCAT" "\<not> v IMMEDIATE_DOUBLE_HASH" "\<not> v EXTERNAL_EXPANSION_SYM_HASH" "\<not> v EMPTY_VALUE" "\<not> v ERROR_RECOVERY"
    using assms(2) by blast+
  with assms(1,3,4) show ?thesis
    by (simp add: bash_call_def bash_scan_def on_lex_part_def andthen_def scan_concat_def scan_double_hash_def
        scan_expansion_sym_def scan_empty_value_def scan_heredoc_def in_error_recovery_def returning_def array_back_def
        scan_heredoc_content_def)
qed

text \<open>
  C36. The body of a here document without expansions is one token. The call starts at the beginning of the first line of the
  body, behind the newline that the parser has shifted, and the token ends directly in front of the first
  line that starts with the delimiter, however many lines there are (none, too) and whatever part of the delimiter
  they start with; the here document stays open for the token of its end. A line starting with
  the delimiter must not come earlier; escapes, indented lines, (unless the here document is raw) dollar
  signs, and delimiters that start with white space, a backslash or a dollar sign are outside this statement.
\<close>

theorem bash_heredoc_body:
  assumes "heredocs s = hs @ [h]" "delimiter h = w @ [0]" "ascii_word w" "\<not> started h" "\<not> allows_indent h"
    and "v SIMPLE_HEREDOC_BODY" "\<forall>k. v k \<longrightarrow> k \<in> {SIMPLE_HEREDOC_BODY, HEREDOC_BODY_BEGINNING}"
    and "rest l = text_lines ls @ w @ t" "get_column l = 0" "list_all (body_line w (is_raw h)) ls"
    and "body_char False (hd w)" "\<not> iswspace (hd w)"
  shows "\<exists>s' h'. bash_call (l, v) s = (True, s') \<and> result_sym (blex s') = SIMPLE_HEREDOC_BODY \<and>
    token_end (blex s') = Some (pos l + length (text_lines ls)) \<and>
    heredocs s' = hs @ [h'] \<and> heredoc_data h' = heredoc_data h"
proof -
  have h: "array_back s = h" "heredocs s \<noteq> []" using assms(1) by (simp_all add: array_back_def)
  have "in_body w (is_raw h) (s\<lparr>blex := l\<rparr>)" using assms(1,2,4,5) by (simp add: in_body_def array_back_def)
  from body_loop_lines [OF assms(3,11,12,10) this, of t False] assms(8,9)
  obtain s' where s': "body_loop False (s\<lparr>blex := l\<rparr>) = (True, s')" "in_body w (is_raw h) s'"
    "result_sym (blex s') = SIMPLE_HEREDOC_BODY" "token_end (blex s') = Some (pos l + length (text_lines ls))"
    "butlast (heredocs s') = butlast (heredocs s)"
    by auto
  have "heredocs s' = hs @ [array_back s']"
    using s'(2,5) assms(1) by (metis append_butlast_last_id array_back_def butlast_snoc in_body_def)
  moreover have "heredoc_data (array_back s') = heredoc_data h"
    using s'(2) assms(2,4,5) by (simp add: in_body_def heredoc_data_def)
  moreover have "bash_call (l, v) s = (True, s')"
    using s'(1) bash_call_body [OF assms(6,7) h(2), of l] h(1) assms(4) by simp
  ultimately show ?thesis using s'(3,4) by blast
qed

theorem bash_heredoc_body_witness:
  "let h = heredoc_new\<lparr>delimiter := text_of ''EOF'' @ [0]\<rparr>; l = lexer_on NEWLINE (text_of ''EO'' @ 10 # text_of ''x'' @ 10 # text_of ''EOF'')
   in \<exists>s' h'. bash_call (l, \<lambda>k. k \<in> {SIMPLE_HEREDOC_BODY, HEREDOC_BODY_BEGINNING}) ((bash_create l)\<lparr>heredocs := [h]\<rparr>) = (True, s') \<and>
        result_sym (blex s') = SIMPLE_HEREDOC_BODY \<and> token_end (blex s') = Some 5 \<and> heredocs s' = [h'] \<and>
        heredoc_data h' = heredoc_data h"
proof -
  let ?h = "heredoc_new\<lparr>delimiter := text_of ''EOF'' @ [0]\<rparr>"
  let ?l = "lexer_on NEWLINE (text_of ''EO'' @ 10 # text_of ''x'' @ 10 # text_of ''EOF'')"
  have "ascii_word (text_of ''EOF'')" "body_line (text_of ''EOF'') False (text_of ''EO'')"
    "body_line (text_of ''EOF'') False (text_of ''x'')"
    by (simp_all add: ascii_word_def body_line_def body_char_def text_of_def ch_def iswspace_def)
  then show ?thesis
    using bash_heredoc_body [of "(bash_create ?l)\<lparr>heredocs := [?h]\<rparr>" "[]" ?h "text_of ''EOF''"
        "\<lambda>k. k \<in> {SIMPLE_HEREDOC_BODY, HEREDOC_BODY_BEGINNING}" ?l "[text_of ''EO'', text_of ''x'']" "[]"]
    by (simp add: Let_def heredoc_new_def lexer_on_def text_of_def body_char_def ch_def iswspace_def get_column_def eval_nat_numeral)
qed

section \<open>Where the scanner differs from the shell\<close>

text \<open>
  The words that \<open>advance_word\<close> does not read as the shell does, each at its start, with the delimiter and the flag that are stored: quotes that
  do not stand around the whole word (\<open>E'O'F\<close> and \<open>'E'OF\<close>, for the shell \<open>EOF\<close> and quoted), a backslash that is not in front of the
  word (\<open>E\<close>, a backslash, \<open>OF\<close>: for the shell quoted), and an operator right behind the word (\<open>EOF;\<close>, for the shell \<open>EOF\<close>).
\<close>

definition heredoc_read :: "string \<Rightarrow> bool \<times> int list" where
  "heredoc_read w =
     (let l = lexer_on NEWLINE (text_of w); h = array_back (snd (scan_heredoc_start ((bash_create l)\<lparr>heredocs := [heredoc_new]\<rparr>)))
      in (is_raw h, delimiter h))"

lemma bash_delimiter_not_unquoted:
  "heredoc_read (''E'' @ [CHR 0x27] @ ''O'' @ [CHR 0x27] @ ''F'') =
     (False, text_of (''E'' @ [CHR 0x27] @ ''O'' @ [CHR 0x27] @ ''F'') @ [0])"
  "heredoc_read ([CHR 0x27] @ ''E'' @ [CHR 0x27] @ ''OF'') = (True, text_of ''E'' @ [0])"
  "heredoc_read (''E'' @ [CHR 0x5C] @ ''OF'') = (False, text_of ''EOF'' @ [0])"
  "heredoc_read ''EOF; x'' = (False, text_of ''EOF;'' @ [0])"
  by code_simp+

text \<open>
  A delimiter of one character from U+0080 to U+00FF is stored as a negative number, and the comparison with
  the text, which has no negative code points, fails wherever the here document ends.
\<close>

lemma bash_non_ascii_delimiter:
  assumes "delimiter (array_back s) = map i8 [c] @ [0]" "128 \<le> c" "c < 256" "list_all (\<lambda>c. 0 \<le> c) (rest (blex s))"
  shows "\<not> fst (scan_heredoc_end_identifier s)"
proof -
  have "(c + 128) mod 256 = c - 128" using assms(2,3) by (simp add: mod_pos_geq)
  then have "i8 c = c - 256" by (simp add: i8_def)
  moreover have "0 \<le> blook s" using assms(4) by (cases "rest (blex s)") simp_all
  ultimately have "end_identifier_loop (map i8 [c] @ [0]) 0 [] (blex s) = (True, [], blex s)" "i8 c \<noteq> 0"
    using assms(2,3) by (auto simp: end_identifier_loop.simps [of _ 0 "[]" "blex s"])
  then show ?thesis using assms(1) by (simp add: scan_heredoc_end_identifier_def c_string_def)
qed

text \<open>A line with the delimiter behind a space ends a here document that allows no indentation.\<close>

lemma bash_indented_delimiter:
  "let h = heredoc_new\<lparr>delimiter := [69, 0]\<rparr>; l = lexer_on NEWLINE (10 # text_of '' E'')
   in \<exists>s'. bash_call (l, \<lambda>k. k = SIMPLE_HEREDOC_BODY) ((bash_create l)\<lparr>heredocs := [h]\<rparr>) = (True, s') \<and>
        token_end (blex s') = Some 2"
  by (simp add: Let_def bash_call_body bash_create_def heredoc_new_def array_back_def lexer_on_def text_of_def
      scan_heredoc_content_loop.simps content_newline_def content_default_def scan_heredoc_end_identifier_def
      end_identifier_loop.simps on_lex_def upd_back_def c_string_def skip_def advance_def advance_while.simps
      mark_end_def set_sym_def get_column_def la_def ch_def iswspace_def i8_def)
end
