(* ===== verification/Language.thy ===== *)
theory Language
  imports Prelude "HOL-Library.Monad_Syntax"
begin

text \<open>
  The tables of a language (\<open>struct TSLanguage\<close> of \<open>parser.h\<close>), the look-ups in them (\<open>language.c\<close>,
  \<open>language.h\<close>) and the binary search of the generated lexers (\<open>set_contains\<close> of \<open>parser.h\<close>). The tables themselves are
  generated, so a language is an argument; an array is a list, and reading outside it is the result \<open>None\<close>,
  so that a result \<open>Some\<close> also says that every access was in bounds.
\<close>

section \<open>The tables\<close>

type_synonym TSStateId = u16
type_synonym TSSymbol = u16
type_synonym TSFieldId = u16

abbreviation ts_builtin_sym_error :: TSSymbol where
  "ts_builtin_sym_error \<equiv> 65535"

abbreviation ts_builtin_sym_error_repeat :: TSSymbol where
  "ts_builtin_sym_error_repeat \<equiv> 65534"

record TSFieldMapEntry =
  field_id :: TSFieldId
  child_index :: u8
  inherited :: bool

record TSMapSlice =
  slice_index :: u16
  slice_length :: u16

record TSSymbolMetadata =
  visible :: bool
  named :: bool
  supertype :: bool

datatype TSParseAction =
  Shift (shift_state: TSStateId) (shift_extra: bool) (shift_repetition: bool)
  | Reduce (child_count: u8) (reduce_symbol: TSSymbol) (dynamic_precedence: int) (production_id: u16)
  | AcceptInput
  | Recover

datatype TSParseActionEntry = Action TSParseAction | Entry u8 bool

record TSLexerMode =
  lex_state :: u16
  external_lex_state :: u16
  reserved_word_set_id :: u16

record TSLanguage =
  abi_version :: u32
  symbol_count :: u32
  alias_count :: u32
  token_count :: u32
  external_token_count :: u32
  state_count :: u32
  large_state_count :: u32
  field_count :: u32
  max_alias_sequence_length :: u16
  parse_table :: "u16 list"
  small_parse_table :: "u16 list"
  small_parse_table_map :: "u32 list"
  parse_actions :: "TSParseActionEntry list"
  symbol_names :: "string list"
  field_names :: "string list"
  field_map_slices :: "TSMapSlice list"
  field_map_entries :: "TSFieldMapEntry list"
  symbol_metadata :: "TSSymbolMetadata list"
  public_symbol_map :: "TSSymbol list"
  alias_map :: "u16 list"
  alias_sequences :: "TSSymbol list"
  lex_modes :: "TSLexerMode list"
  external_scanner_states :: "bool list"
  primary_state_ids :: "TSStateId list"
  reserved_words :: "TSSymbol list"
  max_reserved_word_set_size :: u16
  supertype_symbols :: "TSSymbol list"
  supertype_map_slices :: "TSMapSlice list"
  supertype_map_entries :: "TSSymbol list"

text \<open>Reading an element of an array.\<close>

definition item :: "'a list \<Rightarrow> nat \<Rightarrow> 'a option" where
  "item xs i = (if i < length xs then Some (xs ! i) else None)"

section \<open>The parse table\<close>

text \<open>
  The loops of \<open>ts_language_lookup\<close> over a small state. The inner one gives the position behind it and whether
  the symbol was found.
\<close>

fun lookup_symbols :: "u16 list \<Rightarrow> nat \<Rightarrow> nat \<Rightarrow> TSSymbol \<Rightarrow> (bool \<times> nat) option" where
  "lookup_symbols tbl d 0 symbol = Some (False, d)"
| "lookup_symbols tbl d (Suc n) symbol = do {
     s \<leftarrow> item tbl d;
     if s = symbol then Some (True, d + 1) else lookup_symbols tbl (d + 1) n symbol
   }"

fun lookup_groups :: "u16 list \<Rightarrow> nat \<Rightarrow> nat \<Rightarrow> TSSymbol \<Rightarrow> u16 option" where
  "lookup_groups tbl d 0 symbol = Some 0"
| "lookup_groups tbl d (Suc n) symbol = do {
     section_value \<leftarrow> item tbl d;
     symbol_count \<leftarrow> item tbl (d + 1);
     (found, d) \<leftarrow> lookup_symbols tbl (d + 2) (unat symbol_count) symbol;
     if found then Some section_value else lookup_groups tbl d n symbol
   }"

definition is_small :: "TSLanguage \<Rightarrow> TSStateId \<Rightarrow> bool" where
  "is_small self state \<longleftrightarrow> large_state_count self \<le> ucast state"

definition small_index :: "TSLanguage \<Rightarrow> TSStateId \<Rightarrow> nat option" where
  "small_index self state =
     map_option unat (item (small_parse_table_map self) (unat (ucast state - large_state_count self)))"

definition large_index :: "TSLanguage \<Rightarrow> TSStateId \<Rightarrow> nat" where
  "large_index self state = unat (ucast state * symbol_count self)"

definition ts_language_lookup :: "TSLanguage \<Rightarrow> TSStateId \<Rightarrow> TSSymbol \<Rightarrow> u16 option" where
  "ts_language_lookup self state symbol =
     (if is_small self state then do {
        index \<leftarrow> small_index self state;
        group_count \<leftarrow> item (small_parse_table self) index;
        lookup_groups (small_parse_table self) (index + 1) (unat group_count) symbol
      }
      else item (parse_table self) (unat (ucast state * symbol_count self + ucast symbol)))"

definition ts_language_has_actions :: "TSLanguage \<Rightarrow> TSStateId \<Rightarrow> TSSymbol \<Rightarrow> bool option" where
  "ts_language_has_actions self state symbol = map_option (\<lambda>v. v \<noteq> 0) (ts_language_lookup self state symbol)"

text \<open>The actions of an entry; the pointer behind the entry is the rest of the array.\<close>

record TableEntry =
  actions :: "TSParseActionEntry list"
  action_count :: nat
  is_reusable :: bool

definition entry_at :: "TSLanguage \<Rightarrow> u16 \<Rightarrow> TableEntry option" where
  "entry_at self i =
     (case item (parse_actions self) (unat i) of
        Some (Entry count reusable) \<Rightarrow>
          Some \<lparr>actions = drop (unat i + 1) (parse_actions self), action_count = unat count, is_reusable = reusable\<rparr>
      | _ \<Rightarrow> None)"

text \<open>Also \<open>None\<close> where the assertion on the symbol fails.\<close>

definition ts_language_table_entry :: "TSLanguage \<Rightarrow> TSStateId \<Rightarrow> TSSymbol \<Rightarrow> TableEntry option" where
  "ts_language_table_entry self state symbol =
     (if symbol = ts_builtin_sym_error \<or> symbol = ts_builtin_sym_error_repeat
      then Some \<lparr>actions = [], action_count = 0, is_reusable = False\<rparr>
      else if ucast symbol < token_count self
      then do { action_index \<leftarrow> ts_language_lookup self state symbol; entry_at self action_index }
      else None)"

definition action_at :: "TableEntry \<Rightarrow> nat \<Rightarrow> TSParseAction option" where
  "action_at e i = (case item (actions e) i of Some (Action a) \<Rightarrow> Some a | _ \<Rightarrow> None)"

definition ts_language_has_reduce_action :: "TSLanguage \<Rightarrow> TSStateId \<Rightarrow> TSSymbol \<Rightarrow> bool option" where
  "ts_language_has_reduce_action self state symbol = do {
     entry \<leftarrow> ts_language_table_entry self state symbol;
     if 0 < action_count entry
     then do { a \<leftarrow> action_at entry 0; Some (case a of Reduce _ _ _ _ \<Rightarrow> True | _ \<Rightarrow> False) }
     else Some False
   }"

definition ts_language_next_state :: "TSLanguage \<Rightarrow> TSStateId \<Rightarrow> TSSymbol \<Rightarrow> TSStateId option" where
  "ts_language_next_state self state symbol =
     (if symbol = ts_builtin_sym_error \<or> symbol = ts_builtin_sym_error_repeat then Some 0
      else if ucast symbol < token_count self then do {
        entry \<leftarrow> ts_language_table_entry self state symbol;
        if 0 < action_count entry then do {
          a \<leftarrow> action_at entry (action_count entry - 1);
          case a of Shift s extra _ \<Rightarrow> Some (if extra then state else s) | _ \<Rightarrow> Some 0
        }
        else Some 0
      }
      else ts_language_lookup self state symbol)"

section \<open>The lookahead iterator\<close>

text \<open>
  The positions \<open>data\<close> and \<open>group_end\<close> are indices into the table of the kind of state; \<open>data\<close> starts one in front of
  the row, which is -1 for the first one. \<open>table_value\<close>, \<open>actions\<close> and the count are 0 at the start.
\<close>

record LookaheadIterator =
  language :: TSLanguage
  data :: int
  group_end :: int
  table_value :: u16
  group_count :: u16
  is_small_state :: bool
  lookahead_actions :: "TSParseActionEntry list"
  symbol :: TSSymbol
  next_state :: TSStateId
  lookahead_action_count :: nat

definition item_int :: "'a list \<Rightarrow> int \<Rightarrow> 'a option" where
  "item_int xs i = (if 0 \<le> i then item xs (nat i) else None)"

definition ts_language_lookaheads :: "TSLanguage \<Rightarrow> TSStateId \<Rightarrow> LookaheadIterator option" where
  "ts_language_lookaheads self state =
     (let it = \<lparr>language = self, data = int (large_index self state) - 1, group_end = 0, table_value = 0, group_count = 0,
                is_small_state = is_small self state, lookahead_actions = [], symbol = 65535, next_state = 0,
                lookahead_action_count = 0\<rparr>
      in if is_small self state then do {
           index \<leftarrow> small_index self state;
           group_count \<leftarrow> item (small_parse_table self) index;
           Some (it\<lparr>data := int index, group_end := int index + 1, group_count := group_count\<rparr>)
         }
         else Some it)"

text \<open>The end of \<open>ts_lookahead_iterator__next\<close>: the actions or the successor of the symbol.\<close>

definition set_actions :: "LookaheadIterator \<Rightarrow> LookaheadIterator option" where
  "set_actions self =
     (if ucast (symbol self) < token_count (language self) then do {
        entry \<leftarrow> entry_at (language self) (table_value self);
        Some (self\<lparr>lookahead_action_count := action_count entry, lookahead_actions := actions entry, next_state := 0\<rparr>)
      }
      else Some (self\<lparr>lookahead_action_count := 0, next_state := table_value self\<rparr>))"

text \<open>The case of a small state, and the loop of the other case.\<close>

definition next_small :: "LookaheadIterator \<Rightarrow> (bool \<times> LookaheadIterator) option" where
  "next_small self =
     (let self = self\<lparr>data := data self + 1\<rparr>;
          tbl = small_parse_table (language self)
      in if data self = group_end self then
           (if group_count self = 0 then Some (False, self)
            else do {
              value \<leftarrow> item_int tbl (data self);
              symbol_count \<leftarrow> item_int tbl (data self + 1);
              s \<leftarrow> item_int tbl (data self + 2);
              it \<leftarrow> set_actions (self\<lparr>group_count := group_count self - 1, table_value := value, data := data self + 2,
                      group_end := data self + 2 + uint symbol_count, symbol := s\<rparr>);
              Some (True, it)
            })
         else do {
           s \<leftarrow> item_int tbl (data self);
           Some (True, self\<lparr>symbol := s\<rparr>)
         })"

function next_large :: "LookaheadIterator \<Rightarrow> (bool \<times> LookaheadIterator) option" where
  "next_large self =
     (let self = self\<lparr>data := data self + 1, symbol := symbol self + 1\<rparr>
      in if symbol_count (language self) \<le> ucast (symbol self) then Some (False, self)
         else
           (case item_int (parse_table (language self)) (data self) of
              None \<Rightarrow> None
            | Some value \<Rightarrow>
                (let self = self\<lparr>table_value := value\<rparr>
                 in if value = 0 then next_large self
                    else map_option (Pair True) (set_actions self))))"
  by pat_completeness auto
termination
  by (relation "measure (\<lambda>it. nat (int (length (parse_table (language it))) - data it))")
    (auto simp: item_int_def item_def split: if_splits)

declare next_large.simps [simp del]

definition ts_lookahead_iterator__next :: "LookaheadIterator \<Rightarrow> (bool \<times> LookaheadIterator) option" where
  "ts_lookahead_iterator__next self = (if is_small_state self then next_small self else next_large self)"

definition ts_lookahead_iterator_new :: "TSLanguage \<Rightarrow> TSStateId \<Rightarrow> LookaheadIterator option option" where
  "ts_lookahead_iterator_new self state =
     (if state_count self \<le> ucast state then Some None else map_option Some (ts_language_lookaheads self state))"

definition ts_lookahead_iterator_reset ::
  "LookaheadIterator \<Rightarrow> TSLanguage \<Rightarrow> TSStateId \<Rightarrow> (bool \<times> LookaheadIterator) option" where
  "ts_lookahead_iterator_reset self lang state =
     (if state_count lang \<le> ucast state then Some (False, self)
      else map_option (Pair True) (ts_language_lookaheads lang state))"

definition ts_lookahead_iterator_reset_state ::
  "LookaheadIterator \<Rightarrow> TSStateId \<Rightarrow> (bool \<times> LookaheadIterator) option" where
  "ts_lookahead_iterator_reset_state self state =
     (if state_count (language self) \<le> ucast state then Some (False, self)
      else map_option (Pair True) (ts_language_lookaheads (language self) state))"

text \<open>All steps of an iterator, with fuel: \<open>None\<close> where an access is out of bounds or the fuel does not suffice.\<close>

fun iterate :: "nat \<Rightarrow> LookaheadIterator \<Rightarrow> LookaheadIterator list option" where
  "iterate 0 it = None"
| "iterate (Suc n) it =
     (case ts_lookahead_iterator__next it of
        None \<Rightarrow> None
      | Some (False, _) \<Rightarrow> Some []
      | Some (True, it) \<Rightarrow> map_option ((#) it) (iterate n it))"

section \<open>Symbols, fields and modes\<close>

definition ts_language_symbol_count :: "TSLanguage \<Rightarrow> u32" where
  "ts_language_symbol_count self = symbol_count self + alias_count self"

definition ts_language_symbol_metadata :: "TSLanguage \<Rightarrow> TSSymbol \<Rightarrow> TSSymbolMetadata option" where
  "ts_language_symbol_metadata self sy =
     (if sy = ts_builtin_sym_error then Some \<lparr>visible = True, named = True, supertype = False\<rparr>
      else if sy = ts_builtin_sym_error_repeat then Some \<lparr>visible = False, named = False, supertype = False\<rparr>
      else item (symbol_metadata self) (unat sy))"

definition ts_language_public_symbol :: "TSLanguage \<Rightarrow> TSSymbol \<Rightarrow> TSSymbol option" where
  "ts_language_public_symbol self sy =
     (if sy = ts_builtin_sym_error then Some sy else item (public_symbol_map self) (unat sy))"

text \<open>The inner option is a null pointer.\<close>

definition ts_language_symbol_name :: "TSLanguage \<Rightarrow> TSSymbol \<Rightarrow> string option option" where
  "ts_language_symbol_name self sy =
     (if sy = ts_builtin_sym_error then Some (Some ''ERROR'')
      else if sy = ts_builtin_sym_error_repeat then Some (Some ''_ERROR'')
      else if ucast sy < ts_language_symbol_count self then map_option Some (item (symbol_names self) (unat sy))
      else Some None)"

datatype TSSymbolType = TSSymbolTypeRegular | TSSymbolTypeAnonymous | TSSymbolTypeSupertype | TSSymbolTypeAuxiliary

definition ts_language_symbol_type :: "TSLanguage \<Rightarrow> TSSymbol \<Rightarrow> TSSymbolType option" where
  "ts_language_symbol_type self sy = do {
     m \<leftarrow> ts_language_symbol_metadata self sy;
     Some (if named m \<and> visible m then TSSymbolTypeRegular
           else if visible m then TSSymbolTypeAnonymous
           else if supertype m then TSSymbolTypeSupertype
           else TSSymbolTypeAuxiliary)
   }"

text \<open>
  Names are C strings without null characters; a name is passed with its length. \<open>strncmp\<close> compares up to that length,
  and only the sign of its result is specified, so it is an argument, and \<open>strncmp_ok\<close> what is specified.
\<close>

fun compare_chars :: "nat \<Rightarrow> string \<Rightarrow> string \<Rightarrow> int" where
  "compare_chars 0 a b = 0"
| "compare_chars (Suc n) [] [] = 0"
| "compare_chars (Suc n) [] (b # bs) = - of_char b"
| "compare_chars (Suc n) (a # as) [] = of_char a"
| "compare_chars (Suc n) (a # as) (b # bs) = (if a = b then compare_chars n as bs else of_char a - of_char b)"

type_synonym strncmp = "string \<Rightarrow> string \<Rightarrow> nat \<Rightarrow> int"

definition strncmp_ok :: "strncmp \<Rightarrow> bool" where
  "strncmp_ok strncmp \<longleftrightarrow> (\<forall>a b n. sgn (strncmp a b n) = sgn (compare_chars n a b))"

text \<open>Whether the character at an index is the null character at the end.\<close>

definition ends_at :: "string \<Rightarrow> nat \<Rightarrow> bool" where
  "ends_at name n \<longleftrightarrow> length name = n"

fun symbol_for_name_loop :: "strncmp \<Rightarrow> TSLanguage \<Rightarrow> string \<Rightarrow> bool \<Rightarrow> nat list \<Rightarrow> TSSymbol option" where
  "symbol_for_name_loop strncmp self name is_named [] = Some 0"
| "symbol_for_name_loop strncmp self name is_named (i # is) = do {
     m \<leftarrow> ts_language_symbol_metadata self (word_of_nat i);
     if \<not> visible m \<and> \<not> supertype m \<or> named m \<noteq> is_named then symbol_for_name_loop strncmp self name is_named is
     else do {
       symbol_name \<leftarrow> item (symbol_names self) i;
       if strncmp symbol_name name (length name) = 0 \<and> ends_at symbol_name (length name)
       then item (public_symbol_map self) i
       else symbol_for_name_loop strncmp self name is_named is
     }
   }"

definition ts_language_symbol_for_name :: "strncmp \<Rightarrow> TSLanguage \<Rightarrow> string \<Rightarrow> bool \<Rightarrow> TSSymbol option" where
  "ts_language_symbol_for_name strncmp self name is_named =
     (if is_named \<and> strncmp name ''ERROR'' (length name) = 0 then Some ts_builtin_sym_error
      else symbol_for_name_loop strncmp self name is_named
        [0..<unat (ucast (ts_language_symbol_count self) :: u16)])"

definition ts_language_field_name_for_id :: "TSLanguage \<Rightarrow> TSFieldId \<Rightarrow> string option option" where
  "ts_language_field_name_for_id self i =
     (if field_count self \<noteq> 0 \<and> ucast i \<le> field_count self then map_option Some (item (field_names self) (unat i))
      else Some None)"

fun field_id_loop :: "strncmp \<Rightarrow> TSLanguage \<Rightarrow> string \<Rightarrow> nat list \<Rightarrow> TSFieldId option" where
  "field_id_loop strncmp self name [] = Some 0"
| "field_id_loop strncmp self name (i # is) = do {
     field_name \<leftarrow> item (field_names self) i;
     let c = strncmp name field_name (length name);
     if c = 0 \<and> ends_at field_name (length name) then Some (word_of_nat i)
     else if c = - 1 then Some 0
     else field_id_loop strncmp self name is
   }"

definition ts_language_field_id_for_name :: "strncmp \<Rightarrow> TSLanguage \<Rightarrow> string \<Rightarrow> TSFieldId option" where
  "ts_language_field_id_for_name strncmp self name =
     field_id_loop strncmp self name [1..<unat (ucast (field_count self) :: u16) + 1]"

text \<open>
  For a language before version 15 the table of modes has no third component; reading it through the
  older type gives 0 there, and the table is given here with 0 in it.
\<close>

definition ts_language_lex_mode_for_state :: "TSLanguage \<Rightarrow> TSStateId \<Rightarrow> TSLexerMode option" where
  "ts_language_lex_mode_for_state self state = do {
     mode \<leftarrow> item (lex_modes self) (unat state);
     Some (if abi_version self < 15 then mode\<lparr>reserved_word_set_id := 0\<rparr> else mode)
   }"

fun reserved_word_loop :: "TSLanguage \<Rightarrow> TSSymbol \<Rightarrow> nat list \<Rightarrow> bool option" where
  "reserved_word_loop self sy [] = Some False"
| "reserved_word_loop self sy (i # is) = do {
     w \<leftarrow> item (reserved_words self) i;
     if w = sy then Some True else if w = 0 then Some False else reserved_word_loop self sy is
   }"

definition ts_language_is_reserved_word :: "TSLanguage \<Rightarrow> TSStateId \<Rightarrow> TSSymbol \<Rightarrow> bool option" where
  "ts_language_is_reserved_word self state sy = do {
     lex_mode \<leftarrow> ts_language_lex_mode_for_state self state;
     if 0 < reserved_word_set_id lex_mode then
       (let start = unat (reserved_word_set_id lex_mode) * unat (max_reserved_word_set_size self)
        in reserved_word_loop self sy [start..<start + unat (max_reserved_word_set_size self)])
     else Some False
   }"

definition ts_language_supertypes :: "TSLanguage \<Rightarrow> TSSymbol list" where
  "ts_language_supertypes self = (if 15 \<le> abi_version self then supertype_symbols self else [])"

text \<open>A slice of an array, and the entries it holds.\<close>

definition entries :: "'a list \<Rightarrow> TSMapSlice \<Rightarrow> 'a list" where
  "entries xs sl = take (unat (slice_length sl)) (drop (unat (slice_index sl)) xs)"

definition ts_language_subtypes :: "TSLanguage \<Rightarrow> TSSymbol \<Rightarrow> TSSymbol list option" where
  "ts_language_subtypes self sy =
     (if abi_version self < 15 then Some []
      else do {
        m \<leftarrow> ts_language_symbol_metadata self sy;
        if \<not> supertype m then Some []
        else do { slice \<leftarrow> item (supertype_map_slices self) (unat sy); Some (entries (supertype_map_entries self) slice) }
      })"

definition ts_language_field_map :: "TSLanguage \<Rightarrow> u32 \<Rightarrow> TSFieldMapEntry list option" where
  "ts_language_field_map self pid =
     (if field_count self = 0 then Some []
      else do { slice \<leftarrow> item (field_map_slices self) (unat pid); Some (entries (field_map_entries self) slice) })"

definition ts_language_state_is_primary :: "TSLanguage \<Rightarrow> TSStateId \<Rightarrow> bool option" where
  "ts_language_state_is_primary self state =
     (if 14 \<le> abi_version self then map_option (\<lambda>s. state = s) (item (primary_state_ids self) (unat state))
      else Some True)"

definition ts_language_enabled_external_tokens :: "TSLanguage \<Rightarrow> nat \<Rightarrow> bool list option" where
  "ts_language_enabled_external_tokens self external_scanner_state =
     (if external_scanner_state = 0 then None
      else Some (drop (unat (external_token_count self) * external_scanner_state) (external_scanner_states self)))"

definition ts_language_alias_sequence :: "TSLanguage \<Rightarrow> nat \<Rightarrow> TSSymbol list option" where
  "ts_language_alias_sequence self pid =
     (if pid \<noteq> 0 then Some (drop (pid * unat (max_alias_sequence_length self)) (alias_sequences self)) else None)"

definition ts_language_alias_at :: "TSLanguage \<Rightarrow> nat \<Rightarrow> nat \<Rightarrow> TSSymbol option" where
  "ts_language_alias_at self pid child =
     (if pid \<noteq> 0 then item (alias_sequences self) (pid * unat (max_alias_sequence_length self) + child) else Some 0)"

text \<open>
  The aliases of a symbol: its public symbol, or its group in \<open>alias_map\<close>, which is a sequence of a symbol, a count and
  as many aliases, ordered by the symbol and closed by 0.
\<close>

function alias_map_loop :: "u16 list \<Rightarrow> nat \<Rightarrow> TSSymbol \<Rightarrow> TSSymbol list option option" where
  "alias_map_loop amap idx original =
     (case item amap idx of
        None \<Rightarrow> None
      | Some sy \<Rightarrow>
          if sy = 0 \<or> original < sy then Some None
          else
            (case item amap (idx + 1) of
               None \<Rightarrow> None
             | Some count \<Rightarrow>
                 if sy = original then Some (Some (take (unat count) (drop (idx + 2) amap)))
                 else alias_map_loop amap (idx + 2 + unat count) original))"
  by pat_completeness auto
termination
  by (relation "measure (\<lambda>(m, i, s). length m - i)") (auto simp: item_def split: if_splits)

declare alias_map_loop.simps [simp del]

definition ts_language_aliases_for_symbol :: "TSLanguage \<Rightarrow> TSSymbol \<Rightarrow> TSSymbol list option" where
  "ts_language_aliases_for_symbol self original =
     (case alias_map_loop (alias_map self) 0 original of
        None \<Rightarrow> None
      | Some (Some aliases) \<Rightarrow> Some aliases
      | Some None \<Rightarrow> map_option (\<lambda>s. [s]) (item (public_symbol_map self) (unat original)))"

section \<open>Character sets of the generated lexers\<close>

record TSCharacterRange =
  range_from :: int
  range_to :: int

text \<open>The loop of \<open>set_contains\<close>: \<open>Inl\<close> where it returns, \<open>Inr\<close> the index that is left.\<close>

function set_contains_loop :: "TSCharacterRange list \<Rightarrow> nat \<Rightarrow> nat \<Rightarrow> int \<Rightarrow> (bool + nat) option" where
  "set_contains_loop ranges index sz c =
     (if 1 < sz then
        (let half_size = sz div 2; mid_index = index + half_size
         in case item ranges mid_index of
              None \<Rightarrow> None
            | Some r \<Rightarrow>
                if range_from r \<le> c \<and> c \<le> range_to r then Some (Inl True)
                else set_contains_loop ranges (if range_to r < c then mid_index else index) (sz - half_size) c)
      else Some (Inr index))"
  by pat_completeness auto
termination
  by (relation "measure (\<lambda>(r, i, n, c). n)") auto

declare set_contains_loop.simps [simp del]

definition set_contains :: "TSCharacterRange list \<Rightarrow> nat \<Rightarrow> int \<Rightarrow> bool option" where
  "set_contains ranges len c =
     (case set_contains_loop ranges 0 len c of
        None \<Rightarrow> None
      | Some (Inl b) \<Rightarrow> Some b
      | Some (Inr index) \<Rightarrow> map_option (\<lambda>r. range_from r \<le> c \<and> c \<le> range_to r) (item ranges index))"
end
