(* ===== verification/Language_Proofs.thy ===== *)
theory Language_Proofs
  imports Language
begin

text \<open>
  Properties of the look-ups in the tables of a language: the binary search in character sets, the names of
  fields, and the two ways to find the symbols that are valid in a state.
\<close>

section \<open>Conversions\<close>

lemma unat_widen [simp]: "unat (ucast (x :: u16) :: u32) = unat x"
  using unsigned_less [of x, where ?'a = nat] by (simp add: unsigned_ucast_eq take_bit_nat_eq_self)

lemma unat_narrow: "unat (x :: u32) < 65536 \<Longrightarrow> unat (ucast x :: u16) = unat x"
  by (simp add: unsigned_ucast_eq take_bit_nat_eq_self)

section \<open>Character sets\<close>

definition in_range :: "int \<Rightarrow> TSCharacterRange \<Rightarrow> bool" where
  "in_range c r \<longleftrightarrow> range_from r \<le> c \<and> c \<le> range_to r"

definition ranges_ascend :: "TSCharacterRange list \<Rightarrow> bool" where
  "ranges_ascend ranges \<longleftrightarrow> sorted_wrt (\<lambda>a b. range_to a < range_from b) ranges \<and>
     list_all (\<lambda>r. range_from r \<le> range_to r) ranges"

lemma ranges_ascend_less:
  assumes "ranges_ascend ranges" "i < j" "j < length ranges"
  shows "range_to (ranges ! i) < range_from (ranges ! j)"
  using assms by (simp add: ranges_ascend_def sorted_wrt_iff_nth_less)

lemma ranges_ascend_le:
  "ranges_ascend ranges \<Longrightarrow> i < length ranges \<Longrightarrow> range_from (ranges ! i) \<le> range_to (ranges ! i)"
  by (simp add: ranges_ascend_def list_all_length)

lemma set_contains_loop_found:
  assumes "ranges_ascend ranges" "index + sz \<le> length ranges" "0 < sz"
    and "\<forall>k < length ranges. in_range c (ranges ! k) \<longrightarrow> index \<le> k \<and> k < index + sz"
  shows "case set_contains_loop ranges index sz c of
      Some (Inl b) \<Rightarrow> b \<and> (\<exists>k < length ranges. in_range c (ranges ! k))
    | Some (Inr i) \<Rightarrow> i < length ranges \<and> (\<forall>k < length ranges. in_range c (ranges ! k) \<longrightarrow> k = i)
    | None \<Rightarrow> False"
  using assms
proof (induction ranges index sz c rule: set_contains_loop.induct)
  case (1 ranges index sz c)
  show ?case
  proof (cases "1 < sz")
    case False
    then show ?thesis using 1(3-5) by (subst set_contains_loop.simps) auto
  next
    case True
    let ?half = "sz div 2"
    let ?mid = "index + ?half"
    have mid: "?mid < length ranges" "0 < ?half" "?half \<le> sz - ?half" using True 1(3) by auto
    then have at_mid: "item ranges ?mid = Some (ranges ! ?mid)" by (simp add: item_def)
    show ?thesis
    proof (cases "in_range c (ranges ! ?mid)")
      case hit: True
      then show ?thesis
        using True at_mid mid by (subst set_contains_loop.simps) (auto simp: in_range_def Let_def)
    next
      case miss: False
      let ?i = "if range_to (ranges ! ?mid) < c then ?mid else index"
      have "?i \<le> k \<and> k < ?i + (sz - ?half)" if k: "k < length ranges" "in_range c (ranges ! k)" for k
      proof -
        have "range_to (ranges ! ?mid) < c \<Longrightarrow> \<not> k < ?mid"
          using ranges_ascend_less [OF 1(2), of k ?mid] ranges_ascend_le [OF 1(2), of ?mid] k mid(1)
          by (auto simp: in_range_def)
        moreover have "\<not> range_to (ranges ! ?mid) < c \<Longrightarrow> \<not> ?mid < k"
          using ranges_ascend_less [OF 1(2) _ k(1), of ?mid] k(2) unfolding in_range_def by (metis order_less_le_trans)
        moreover have "k \<noteq> ?mid" using k(2) miss by blast
        moreover have "index \<le> k \<and> k < index + sz" using 1(5) k by blast
        ultimately show ?thesis using mid(2,3) by auto
      qed
      then have "case set_contains_loop ranges ?i (sz - ?half) c of
          Some (Inl b) \<Rightarrow> b \<and> (\<exists>k < length ranges. in_range c (ranges ! k))
        | Some (Inr i) \<Rightarrow> i < length ranges \<and> (\<forall>k < length ranges. in_range c (ranges ! k) \<longrightarrow> k = i)
        | None \<Rightarrow> False"
        using True miss 1(2,3) mid by (intro 1(1) [OF True refl refl at_mid]) (auto simp: in_range_def)
      moreover have "set_contains_loop ranges index sz c = set_contains_loop ranges ?i (sz - ?half) c"
        using True at_mid miss unfolding in_range_def
        by (simp add: set_contains_loop.simps [of ranges index sz c] Let_def del: if_split_eq1) auto
      ultimately show ?thesis by (simp only:)
    qed
  qed
qed

text \<open>
  The binary search of the generated lexers decides membership in a set of characters that is given by a list
  of ascending ranges, and reads only inside the list.
\<close>

theorem set_contains_correct:
  assumes "ranges_ascend ranges" "ranges \<noteq> []"
  shows "set_contains ranges (length ranges) c = Some (\<exists>r \<in> set ranges. range_from r \<le> c \<and> c \<le> range_to r)"
proof -
  have ex: "(\<exists>r \<in> set ranges. range_from r \<le> c \<and> c \<le> range_to r) \<longleftrightarrow> (\<exists>k < length ranges. in_range c (ranges ! k))"
    unfolding in_range_def by (metis in_set_conv_nth)
  show ?thesis
    unfolding ex set_contains_def using set_contains_loop_found [OF assms(1), of 0 "length ranges" c] assms(2)
    by (auto simp: item_def in_range_def split: option.splits sum.splits)
qed

theorem set_contains_correct_witness:
  "set_contains [\<lparr>range_from = 48, range_to = 57\<rparr>, \<lparr>range_from = 65, range_to = 90\<rparr>, \<lparr>range_from = 97, range_to = 122\<rparr>] 3 70 =
     Some True"
  using set_contains_correct [of "[\<lparr>range_from = 48, range_to = 57\<rparr>, \<lparr>range_from = 65, range_to = 90\<rparr>,
      \<lparr>range_from = 97, range_to = 122\<rparr>]" 70]
  by (simp add: ranges_ascend_def numeral_3_eq_3)

section \<open>Names of fields\<close>

definition is_name :: "string \<Rightarrow> bool" where
  "is_name s \<longleftrightarrow> CHR 0x00 \<notin> set s"

lemma of_char_zero [simp]: "(of_char c :: int) = 0 \<longleftrightarrow> c = CHR 0x00"
  using of_char_eq_iff [of c "CHR 0x00", where ?'a = int] by simp

lemma compare_chars_swap: "compare_chars n b a = - compare_chars n a b"
  by (induction n a b rule: compare_chars.induct) auto

lemma compare_chars_mono: "compare_chars n a b \<noteq> 0 \<Longrightarrow> n \<le> m \<Longrightarrow> compare_chars m a b = compare_chars n a b"
proof (induction n arbitrary: a b m)
  case (Suc n)
  then obtain m' where "m = Suc m'" "n \<le> m'" by (cases m) auto
  then show ?case
    using Suc.prems(1) Suc.IH [of "tl a" "tl b" m'] by (cases a; cases b) (auto split: if_splits)
qed simp

lemma compare_chars_prefix:
  "is_name a \<Longrightarrow> compare_chars (length a) a b = 0 \<longleftrightarrow> take (length a) b = a"
proof (induction "length a" a b rule: compare_chars.induct)
  case (5 n a as b bs)
  then show ?case by (auto simp: is_name_def)
qed (auto simp: is_name_def)

definition name_less :: "string \<Rightarrow> string \<Rightarrow> bool" where
  "name_less a b \<longleftrightarrow> (\<exists>n. compare_chars n a b < 0)"

lemma name_less_compare:
  assumes "name_less f a" "compare_chars n a f < 0"
  shows False
proof -
  obtain m where m: "compare_chars m f a < 0" using assms(1) by (auto simp: name_less_def)
  have "compare_chars (max m n) f a < 0" "compare_chars (max m n) a f < 0"
    using m assms(2) compare_chars_mono [of m f a "max m n"] compare_chars_mono [of n a f "max m n"] by auto
  then show False using compare_chars_swap [of "max m n" a f] by simp
qed

lemma name_less_irrefl: "\<not> name_less a a"
  using compare_chars_swap [of _ a a] by (auto simp: name_less_def)

text \<open>The table of field names: entry 0 is unused, the others are ascending.\<close>

definition fields_ok :: "TSLanguage \<Rightarrow> bool" where
  "fields_ok self \<longleftrightarrow> length (field_names self) = unat (field_count self) + 1 \<and> field_count self < 65535 \<and>
     sorted_wrt name_less (tl (field_names self)) \<and> list_all is_name (tl (field_names self))"

lemma field_id_loop_from:
  assumes "strncmp_ok strncmp" "is_name nm" "sorted_wrt name_less fs" "drop k (field_names self) = fs"
    and "n = length (field_names self)" "k \<le> n"
  shows "field_id_loop strncmp self nm [k..<n] =
    Some (case List.find (\<lambda>i. field_names self ! i = nm) [k..<n] of None \<Rightarrow> 0 | Some i \<Rightarrow> word_of_nat i)"
  using assms(3,4,6)
proof (induction fs arbitrary: k)
  case Nil
  then show ?case using assms(5) by simp
next
  case (Cons f fs)
  have k: "k < n" "field_names self ! k = f" "drop (Suc k) (field_names self) = fs"
  proof -
    show "k < n" using Cons.prems(2) assms(5) by (cases "k < n") simp_all
    show "field_names self ! k = f" using Cons.prems(2) by (rule nth_via_drop)
    show "drop (Suc k) (field_names self) = fs" using Cons.prems(2) by (simp add: drop_Suc tl_drop [symmetric])
  qed
  let ?c = "strncmp nm f (length nm)"
  have sgn: "sgn ?c = sgn (compare_chars (length nm) nm f)" using assms(1) by (simp add: strncmp_ok_def)
  have "?c = 0 \<longleftrightarrow> take (length nm) f = nm"
    using sgn compare_chars_prefix [OF assms(2), of f] by (metis sgn_eq_0_iff)
  then have eq: "?c = 0 \<and> ends_at f (length nm) \<longleftrightarrow> f = nm" by (auto simp: ends_at_def)
  have step: "[k..<n] = k # [Suc k..<n]" using k(1) by (simp add: upt_rec)
  have at_k: "item (field_names self) k = Some f" using k(1,2) assms(5) by (simp add: item_def)
  show ?case
  proof (cases "f = nm")
    case True
    then show ?thesis using eq at_k k(2) unfolding step by simp
  next
    case other: False
    show ?thesis
    proof (cases "?c = - 1")
      case True
      then have "compare_chars (length nm) nm f < 0" using sgn by (simp add: sgn_if split: if_splits)
      then have "nm \<notin> set fs" using name_less_compare Cons.prems(1) by auto
      then have "field_names self ! i \<noteq> nm" if "Suc k \<le> i" "i < n" for i
      proof -
        have "field_names self ! i = fs ! (i - Suc k)" "i - Suc k < length fs"
          using that assms(5) nth_drop [of "Suc k" "field_names self" "i - Suc k"] k(3) by auto
        with \<open>nm \<notin> set fs\<close> show ?thesis by (metis nth_mem)
      qed
      then have "List.find (\<lambda>i. field_names self ! i = nm) [Suc k..<n] = None"
        by (auto simp: find_None_iff)
      then show ?thesis using True other eq at_k k(2) unfolding step by simp
    next
      case False
      then show ?thesis
        using Cons.IH [OF _ k(3)] Cons.prems(1) k(1,2) other eq at_k unfolding step by (auto simp: Let_def)
    qed
  qed
qed

text \<open>
  The names and the numbers of fields are inverse to each other: looking up the name of a field gives its number, and
  any other name gives 0. This holds for every \<open>strncmp\<close> that returns the sign the standard specifies, though
  the early exit of the search tests for -1 only.
\<close>

theorem field_names_round_trip:
  assumes "strncmp_ok strncmp" "fields_ok self"
  shows "(\<forall>i. 0 < i \<and> ucast i \<le> field_count self \<longrightarrow>
      (\<exists>nm. ts_language_field_name_for_id self i = Some (Some nm) \<and>
        ts_language_field_id_for_name strncmp self nm = Some i)) \<and>
    (\<forall>nm. is_name nm \<and> nm \<notin> set (tl (field_names self)) \<longrightarrow> ts_language_field_id_for_name strncmp self nm = Some 0)"
proof -
  let ?n = "length (field_names self)"
  have n: "?n = unat (field_count self) + 1" "unat (field_count self) < 65535"
    and sorted: "sorted_wrt name_less (tl (field_names self))" and names: "list_all is_name (tl (field_names self))"
    using assms(2) by (simp_all add: fields_ok_def word_less_nat_alt)
  have "unat (ucast (field_count self) :: u16) = unat (field_count self)"
    using n(2) by (intro unat_narrow) simp
  then have id: "ts_language_field_id_for_name strncmp self nm =
      Some (case List.find (\<lambda>i. field_names self ! i = nm) [1..<?n] of None \<Rightarrow> 0 | Some i \<Rightarrow> word_of_nat i)"
    if "is_name nm" for nm
    using field_id_loop_from [OF assms(1) that sorted, of 1 self ?n] n(1)
    by (simp add: ts_language_field_id_for_name_def drop_Suc)
  show ?thesis
  proof (intro conjI allI impI)
    fix i :: TSFieldId
    assume i: "0 < i \<and> ucast i \<le> field_count self"
    then have "unat (ucast i :: u32) \<le> unat (field_count self)" by (simp add: word_le_nat_alt)
    then have i_less: "0 < unat i" "unat i < ?n" using i n(1) by (auto simp: unat_gt_0)
    let ?nm = "field_names self ! unat i"
    have nm: "?nm = tl (field_names self) ! (unat i - 1)" using i_less by (simp add: nth_tl)
    then have "is_name ?nm" using names i_less by (simp add: list_all_length)
    moreover have "field_names self ! j \<noteq> ?nm" if "1 \<le> j" "j < unat i" for j
    proof -
      have "name_less (tl (field_names self) ! (j - 1)) (tl (field_names self) ! (unat i - 1))"
        using i_less that by (intro sorted_wrt_nth_less [OF sorted]) auto
      moreover have "field_names self ! j = tl (field_names self) ! (j - 1)" using that i_less by (simp add: nth_tl)
      ultimately show ?thesis using nm name_less_irrefl by metis
    qed
    then have "List.find (\<lambda>j. field_names self ! j = ?nm) [1..<?n] = Some (unat i)"
      using i_less by (auto simp: find_Some_iff intro!: exI [of _ "unat i - 1"])
    moreover have "ts_language_field_name_for_id self i = Some (Some ?nm)"
      using i i_less n(1) by (auto simp: ts_language_field_name_for_id_def item_def unat_eq_0 [symmetric])
    ultimately show "\<exists>nm. ts_language_field_name_for_id self i = Some (Some nm) \<and>
        ts_language_field_id_for_name strncmp self nm = Some i"
      using id by simp
  next
    fix nm
    assume nm: "is_name nm \<and> nm \<notin> set (tl (field_names self))"
    have "field_names self ! j \<noteq> nm" if "1 \<le> j" "j < ?n" for j
    proof -
      have "field_names self ! j = tl (field_names self) ! (j - 1)" "j - 1 < length (tl (field_names self))"
        using that by (simp_all add: nth_tl)
      then show ?thesis using nm by (metis nth_mem)
    qed
    then have "List.find (\<lambda>j. field_names self ! j = nm) [1..<?n] = None" by (auto simp: find_None_iff)
    then show "ts_language_field_id_for_name strncmp self nm = Some 0" using id nm by simp
  qed
qed

text \<open>A language without symbols, to build small ones from.\<close>

definition no_language :: TSLanguage where
  "no_language = \<lparr>abi_version = 15, symbol_count = 0, alias_count = 0, token_count = 0, external_token_count = 0,
     state_count = 0, large_state_count = 0, field_count = 0, max_alias_sequence_length = 0, parse_table = [],
     small_parse_table = [], small_parse_table_map = [], parse_actions = [], symbol_names = [], field_names = [],
     field_map_slices = [], field_map_entries = [], symbol_metadata = [], public_symbol_map = [], alias_map = [],
     alias_sequences = [], lex_modes = [], external_scanner_states = [], primary_state_ids = [], reserved_words = [],
     max_reserved_word_set_size = 0, supertype_symbols = [], supertype_map_slices = [], supertype_map_entries = []\<rparr>"

theorem field_names_round_trip_witness:
  "\<exists>nm. ts_language_field_name_for_id (no_language\<lparr>field_count := 2, field_names := [[], ''body'', ''name'']\<rparr>) 2 =
       Some (Some nm) \<and>
     ts_language_field_id_for_name (\<lambda>a b n. compare_chars n a b)
       (no_language\<lparr>field_count := 2, field_names := [[], ''body'', ''name'']\<rparr>) nm = Some 2"
proof -
  let ?l = "no_language\<lparr>field_count := 2, field_names := [[], ''body'', ''name'']\<rparr>"
  have "strncmp_ok (\<lambda>a b n. compare_chars n a b)" by (simp add: strncmp_ok_def)
  moreover have "name_less ''body'' ''name''"
    unfolding name_less_def by (intro exI [of _ "Suc 0"]) simp
  then have "fields_ok ?l" by (simp add: fields_ok_def is_name_def)
  ultimately show ?thesis
    using field_names_round_trip [of "\<lambda>a b n. compare_chars n a b" ?l] by (auto simp: no_language_def)
qed

text \<open>
  A name that is a prefix of \<open>ERROR\<close> is taken for that of the error symbol, whatever symbols the language has.
\<close>

lemma symbol_for_name_error_prefix:
  assumes "strncmp_ok strncmp" "\<exists>n. name = take n ''ERROR''"
  shows "ts_language_symbol_for_name strncmp self name True = Some ts_builtin_sym_error"
proof -
  have "is_name name" using assms(2) set_take_subset [of _ "''ERROR''"] by (fastforce simp: is_name_def)
  moreover have "take (length name) ''ERROR'' = name" using assms(2) by (auto simp: min_def)
  ultimately have "compare_chars (length name) name ''ERROR'' = 0" using compare_chars_prefix by blast
  then have "strncmp name ''ERROR'' (length name) = 0" using assms(1) by (metis sgn_eq_0_iff strncmp_ok_def)
  then show ?thesis by (simp add: ts_language_symbol_for_name_def)
qed
end
