(* ===== verification/Lookahead_Proofs.thy ===== *)
theory Lookahead_Proofs
  imports Language_Proofs
begin

text \<open>
  The rows of the parse table. A large state has an entry for every symbol; the row of a small state is a list of
  groups, each a value and the symbols that have it. Looking a symbol up and iterating over the symbols of a
  state agree for both.
\<close>

section \<open>Rows of small states\<close>

type_synonym group = "u16 \<times> TSSymbol list"

definition encode_group :: "group \<Rightarrow> u16 list" where
  "encode_group g = fst g # word_of_nat (length (snd g)) # snd g"

definition encode_groups :: "group list \<Rightarrow> u16 list" where
  "encode_groups gs = concat (map encode_group gs)"

lemma encode_groups_simps [simp]:
  "encode_groups [] = []"
  "encode_groups (g # gs) = fst g # word_of_nat (length (snd g)) # snd g @ encode_groups gs"
  by (simp_all add: encode_groups_def encode_group_def)

text \<open>The value of a symbol: that of the first group with it, or 0.\<close>

fun group_value :: "group list \<Rightarrow> TSSymbol \<Rightarrow> u16" where
  "group_value [] sy = 0"
| "group_value (g # gs) sy = (if sy \<in> set (snd g) then fst g else group_value gs sy)"

text \<open>
  What the generator promises of the row of a small state: groups that are not empty, with values that are not 0, each
  symbol in one group only; a group has terminals only, with an entry in the table of actions, or
  non-terminals only.
\<close>

definition group_ok :: "TSLanguage \<Rightarrow> group \<Rightarrow> bool" where
  "group_ok self g \<longleftrightarrow> fst g \<noteq> 0 \<and> snd g \<noteq> [] \<and> length (snd g) < 65536 \<and>
     list_all (\<lambda>sy. ucast sy < symbol_count self) (snd g) \<and>
     (list_all (\<lambda>sy. ucast sy < token_count self) (snd g) \<and> entry_at self (fst g) \<noteq> None \<or>
      list_all (\<lambda>sy. token_count self \<le> ucast sy) (snd g))"

definition small_row :: "TSLanguage \<Rightarrow> TSStateId \<Rightarrow> group list \<Rightarrow> bool" where
  "small_row self state gs \<longleftrightarrow> is_small self state \<and> length gs < 65536 \<and> list_all (group_ok self) gs \<and>
     distinct (concat (map snd gs)) \<and>
     (\<exists>a b. small_index self state = Some (length a) \<and>
        small_parse_table self = a @ word_of_nat (length gs) # encode_groups gs @ b)"

lemma unat_u16_of_nat [simp]: "n < 65536 \<Longrightarrow> unat (word_of_nat n :: u16) = n"
  by (simp add: unat_of_nat take_bit_nat_eq_self)

lemma item_append [simp]: "item (a @ x # b) (length a) = Some x"
  by (simp add: item_def)

lemma item_append_plus: "item (a @ b) (length a + n) = item b n"
  by (simp add: item_def nth_append)

lemma lookup_symbols_list:
  "\<exists>d'. lookup_symbols (a @ ss @ b) (length a) (length ss) sy = Some (sy \<in> set ss, d') \<and>
     (sy \<notin> set ss \<longrightarrow> d' = length a + length ss)"
proof (induction ss arbitrary: a)
  case (Cons s ss)
  from Cons.IH [of "a @ [s]"] show ?case by auto
qed simp

lemma lookup_groups_list:
  "list_all (\<lambda>g. length (snd g) < 65536) gs \<Longrightarrow>
     lookup_groups (a @ encode_groups gs @ b) (length a) (length gs) sy = Some (group_value gs sy)"
proof (induction gs arbitrary: a)
  case (Cons g gs)
  let ?a = "a @ [fst g, word_of_nat (length (snd g))]"
  have tbl: "a @ encode_groups (g # gs) @ b = ?a @ snd g @ encode_groups gs @ b" by simp
  have count: "item (a @ encode_groups (g # gs) @ b) (length a + 1) = Some (word_of_nat (length (snd g)))"
    unfolding item_append_plus by (simp add: item_def)
  obtain d where d: "lookup_symbols (a @ encode_groups (g # gs) @ b) (length a + 2) (length (snd g)) sy =
      Some (sy \<in> set (snd g), d)" "sy \<notin> set (snd g) \<longrightarrow> d = length (?a @ snd g)"
    using lookup_symbols_list [of ?a "snd g" "encode_groups gs @ b" sy] unfolding tbl by auto
  have "lookup_groups ((?a @ snd g) @ encode_groups gs @ b) (length (?a @ snd g)) (length gs) sy = Some (group_value gs sy)"
    using Cons.prems by (intro Cons.IH) simp
  then show ?case
    using Cons.prems d count by (cases "sy \<in> set (snd g)") (simp_all add: tbl)
qed simp

lemma lookup_small:
  assumes "small_row self state gs"
  shows "ts_language_lookup self state sy = Some (group_value gs sy)"
proof -
  obtain a b where ab: "small_index self state = Some (length a)"
    "small_parse_table self = a @ word_of_nat (length gs) # encode_groups gs @ b"
    using assms by (auto simp: small_row_def)
  have "list_all (\<lambda>g. length (snd g) < 65536) gs"
    using assms by (auto simp: small_row_def group_ok_def list_all_iff)
  then show ?thesis
    using assms ab lookup_groups_list [of gs "a @ [word_of_nat (length gs)]" b sy]
    by (simp add: small_row_def ts_language_lookup_def)
qed

section \<open>Iterating over a small state\<close>

text \<open>What a step of an iterator shows besides the symbol and its value.\<close>

definition shows_actions :: "TSLanguage \<Rightarrow> LookaheadIterator \<Rightarrow> bool" where
  "shows_actions self it \<longleftrightarrow>
     (if ucast (symbol it) < token_count self
      then \<exists>e. entry_at self (table_value it) = Some e \<and> lookahead_actions it = actions e \<and>
             lookahead_action_count it = action_count e
      else lookahead_action_count it = 0 \<and> next_state it = table_value it)"

definition small_at :: "TSLanguage \<Rightarrow> nat \<Rightarrow> nat \<Rightarrow> LookaheadIterator \<Rightarrow> bool" where
  "small_at self i j it \<longleftrightarrow> is_small_state it \<and> language it = self \<and> data it + 1 = int i \<and> group_end it = int j"

lemma item_int_nat [simp]: "item_int xs (int n) = item xs n"
  by (simp add: item_int_def)

lemma next_in_group:
  assumes "small_at self i j it" "i < j" "item (small_parse_table self) i = Some s"
  shows "ts_lookahead_iterator__next it = Some (True, it\<lparr>data := int i, symbol := s\<rparr>)"
  using assms by (simp add: ts_lookahead_iterator__next_def next_small_def small_at_def)

lemma iterate_in_group:
  assumes "small_at self (length a) (length a + length ss) it" "small_parse_table self = a @ ss @ b"
    and "\<And>s d. s \<in> set ss \<Longrightarrow> shows_actions self (it\<lparr>data := d, symbol := s\<rparr>)"
  shows "\<exists>its it'. iterate (length ss + n) it = map_option ((@) its) (iterate n it') \<and>
    map (\<lambda>i. (symbol i, table_value i)) its = map (\<lambda>s. (s, table_value it)) ss \<and> list_all (shows_actions self) its \<and>
    small_at self (length a + length ss) (length a + length ss) it' \<and> group_count it' = group_count it"
  using assms
proof (induction ss arbitrary: a it)
  case Nil
  then show ?case by (intro exI [of _ "[]"] exI [of _ it]) (simp add: option.map_id0 [unfolded id_def])
next
  case (Cons s ss)
  let ?it = "it\<lparr>data := int (length a), symbol := s\<rparr>"
  have "item (small_parse_table self) (length a) = Some s" using Cons.prems(2) by simp
  then have next_it: "ts_lookahead_iterator__next it = Some (True, ?it)"
    by (intro next_in_group [OF Cons.prems(1)]) simp_all
  have "small_at self (length (a @ [s])) (length (a @ [s]) + length ss) ?it" "small_parse_table self = (a @ [s]) @ ss @ b"
    using Cons.prems(1,2) by (simp_all add: small_at_def)
  then obtain its it' where its: "iterate (length ss + n) ?it = map_option ((@) its) (iterate n it')"
    "map (\<lambda>i. (symbol i, table_value i)) its = map (\<lambda>s. (s, table_value it)) ss" "list_all (shows_actions self) its"
    "small_at self (length a + length (s # ss)) (length a + length (s # ss)) it'" "group_count it' = group_count it"
    using Cons.IH [of "a @ [s]" ?it] Cons.prems(3) by auto
  then show ?case
    using next_it Cons.prems(3) [of s]
    by (intro exI [of _ "?it # its"] exI [of _ it']) (simp add: option.map_comp comp_def)
qed

lemma group_ok_actions:
  assumes "group_ok self g" "language it = self" "table_value it = fst g" "symbol it \<in> set (snd g)"
  shows "\<exists>it'. set_actions it = Some it' \<and> shows_actions self it' \<and>
    (\<forall>s \<in> set (snd g). \<forall>d. shows_actions self (it'\<lparr>data := d, symbol := s\<rparr>)) \<and>
    symbol it' = symbol it \<and> table_value it' = table_value it \<and> group_count it' = group_count it \<and>
    language it' = language it \<and> data it' = data it \<and> group_end it' = group_end it \<and> is_small_state it' = is_small_state it"
proof (cases "ucast (symbol it) < token_count self")
  case True
  then have "\<forall>s \<in> set (snd g). ucast s < token_count self" "\<exists>e. entry_at self (fst g) = Some e"
    using assms(1,4) by (auto simp: group_ok_def list_all_iff not_less [symmetric])
  with True assms(2-4) show ?thesis by (auto simp: set_actions_def shows_actions_def)
next
  case False
  then have "\<forall>s \<in> set (snd g). \<not> ucast s < token_count self"
    using assms(1,4) by (auto simp: group_ok_def list_all_iff not_less)
  with False assms(2-4) show ?thesis by (auto simp: set_actions_def shows_actions_def)
qed

lemma next_group:
  assumes "small_at self (length a) (length a) it" "small_parse_table self = a @ encode_groups (g # gs) @ b"
    and "group_ok self g" "group_count it = word_of_nat (length (g # gs))" "length (g # gs) < 65536"
  shows "\<exists>it'. ts_lookahead_iterator__next it = Some (True, it') \<and> symbol it' = hd (snd g) \<and> table_value it' = fst g \<and>
    (\<forall>s \<in> set (snd g). \<forall>d. shows_actions self (it'\<lparr>data := d, symbol := s\<rparr>)) \<and> shows_actions self it' \<and>
    small_at self (length a + 3) (length a + 2 + length (snd g)) it' \<and> group_count it' = word_of_nat (length gs)"
proof -
  have g: "snd g \<noteq> []" "length (snd g) < 65536" using assms(3) by (simp_all add: group_ok_def)
  have items: "item (small_parse_table self) (length a) = Some (fst g)"
    "item (small_parse_table self) (length a + 1) = Some (word_of_nat (length (snd g)))"
    "item (small_parse_table self) (length a + 2) = Some (hd (snd g))"
    using g(1) unfolding assms(2) by (simp_all add: item_append_plus item_def hd_conv_nth nth_append)
  let ?u = "it\<lparr>group_count := group_count it - 1, table_value := fst g, data := int (length a) + 2,
    group_end := int (length a) + 2 + int (length (snd g)), symbol := hd (snd g)\<rparr>"
  obtain it' where it': "set_actions ?u = Some it'" "shows_actions self it'"
    "\<forall>s \<in> set (snd g). \<forall>d. shows_actions self (it'\<lparr>data := d, symbol := s\<rparr>)"
    "symbol it' = hd (snd g)" "table_value it' = fst g" "group_count it' = group_count it - 1"
    "language it' = language it" "data it' = int (length a) + 2"
    "group_end it' = int (length a) + 2 + int (length (snd g))" "is_small_state it' = is_small_state it"
    using group_ok_actions [OF assms(3), of ?u] assms(1) g(1) by (auto simp: small_at_def)
  have "unat (group_count it) = length (g # gs)" unfolding assms(4) using assms(5) by (rule unat_u16_of_nat)
  then have "group_count it \<noteq> 0" by auto
  moreover have "group_count it - 1 = word_of_nat (length gs)" using assms(4) by simp
  moreover have "uint (word_of_nat (length (snd g)) :: u16) = int (length (snd g))"
    using g(2) by (simp add: uint_nat)
  moreover have "item_int (small_parse_table self) (int (length a) + 1) = Some (word_of_nat (length (snd g)))"
    "item_int (small_parse_table self) (int (length a) + 2) = Some (hd (snd g))"
    using items(2,3) item_int_nat [of "small_parse_table self" "length a + 1"]
      item_int_nat [of "small_parse_table self" "length a + 2"] by (simp_all add: ac_simps)
  ultimately have "ts_lookahead_iterator__next it = Some (True, it')"
    using assms(1) items(1) it'(1)
    by (simp add: ts_lookahead_iterator__next_def next_small_def small_at_def Let_def ac_simps)
  then show ?thesis
    using it' assms(1) \<open>group_count it - 1 = word_of_nat (length gs)\<close> by (auto simp: small_at_def)
qed

lemma iterate_groups:
  assumes "list_all (group_ok self) gs" "small_at self (length a) (length a) it" "group_count it = word_of_nat (length gs)"
    and "small_parse_table self = a @ encode_groups gs @ b" "length gs < 65536"
  shows "\<exists>its. iterate (Suc (length (concat (map snd gs)))) it = Some its \<and> list_all (shows_actions self) its \<and>
    map (\<lambda>i. (symbol i, table_value i)) its = concat (map (\<lambda>g. map (\<lambda>s. (s, fst g)) (snd g)) gs)"
  using assms
proof (induction gs arbitrary: a it)
  case Nil
  then have "ts_lookahead_iterator__next it = Some (False, it\<lparr>data := data it + 1\<rparr>)"
    by (simp add: ts_lookahead_iterator__next_def next_small_def small_at_def)
  then show ?case by simp
next
  case (Cons g gs)
  obtain s ss where ss: "snd g = s # ss" using Cons.prems(1) by (cases "snd g") (auto simp: group_ok_def)
  let ?a = "a @ [fst g, word_of_nat (length (snd g)), s]"
  obtain it1 where it1: "ts_lookahead_iterator__next it = Some (True, it1)" "symbol it1 = s" "table_value it1 = fst g"
    "\<forall>s \<in> set (snd g). \<forall>d. shows_actions self (it1\<lparr>data := d, symbol := s\<rparr>)" "shows_actions self it1"
    "small_at self (length ?a) (length ?a + length ss) it1" "group_count it1 = word_of_nat (length gs)"
    using next_group [OF Cons.prems(2,4) _ Cons.prems(3,5)] Cons.prems(1) ss by (auto simp: numeral_3_eq_3)
  have tbl: "small_parse_table self = ?a @ ss @ (encode_groups gs @ b)" using Cons.prems(4) ss by simp
  obtain its1 it2 where its1: "iterate (length ss + Suc (length (concat (map snd gs)))) it1 =
      map_option ((@) its1) (iterate (Suc (length (concat (map snd gs)))) it2)"
    "map (\<lambda>i. (symbol i, table_value i)) its1 = map (\<lambda>s. (s, fst g)) ss" "list_all (shows_actions self) its1"
    "small_at self (length (?a @ ss)) (length (?a @ ss)) it2" "group_count it2 = word_of_nat (length gs)"
    using iterate_in_group [OF it1(6) tbl, of "Suc (length (concat (map snd gs)))"] it1(3,4,7) ss by auto
  obtain its2 where its2: "iterate (Suc (length (concat (map snd gs)))) it2 = Some its2" "list_all (shows_actions self) its2"
    "map (\<lambda>i. (symbol i, table_value i)) its2 = concat (map (\<lambda>g. map (\<lambda>s. (s, fst g)) (snd g)) gs)"
    using Cons.IH [OF _ its1(4,5)] tbl Cons.prems(1,5) by auto
  have "length (concat (map snd (g # gs))) = Suc (length ss + length (concat (map snd gs)))" using ss by simp
  then show ?case
    using it1 its1 its2 ss by (intro exI [of _ "it1 # its1 @ its2"]) simp
qed

section \<open>Iterating over a large state\<close>

text \<open>The row of a large state lies in the table; its values for terminals have an entry in the table of actions.\<close>

definition large_row :: "TSLanguage \<Rightarrow> TSStateId \<Rightarrow> u16 list \<Rightarrow> bool" where
  "large_row self state r \<longleftrightarrow> \<not> is_small self state \<and> symbol_count self < 65535 \<and> length r = unat (symbol_count self) \<and>
     (\<exists>a b. parse_table self = a @ r @ b \<and> large_index self state = length a) \<and>
     large_index self state + unat (symbol_count self) < 2 ^ 32 \<and>
     (\<forall>i < length r. r ! i \<noteq> 0 \<longrightarrow> word_of_nat i < token_count self \<longrightarrow> entry_at self (r ! i) \<noteq> None)"

definition large_at :: "TSLanguage \<Rightarrow> nat \<Rightarrow> nat \<Rightarrow> LookaheadIterator \<Rightarrow> bool" where
  "large_at self base k it \<longleftrightarrow> \<not> is_small_state it \<and> language it = self \<and> data it + 1 = int (base + k) \<and>
     symbol it + 1 = word_of_nat k"

lemma lookup_large:
  assumes "large_row self state r" "unat sy < length r"
  shows "ts_language_lookup self state sy = Some (r ! unat sy)"
proof -
  obtain a b where ab: "parse_table self = a @ r @ b" "large_index self state = length a"
    and small: "length a + length r < 2 ^ 32"
    using assms(1) by (auto simp: large_row_def)
  have "unat (ucast state * symbol_count self + ucast sy :: u32) = length a + unat sy"
    using ab(2) small assms(2) unfolding large_index_def by (subst unat_add_u32) simp
  then show ?thesis
    using assms ab(1) by (simp add: ts_language_lookup_def large_row_def item_append_plus item_def nth_append)
qed

lemma next_large_step:
  assumes "large_row self state r" "large_at self (large_index self state) k it" "k \<le> length r"
  shows "ts_lookahead_iterator__next it =
    (let it = it\<lparr>data := int (large_index self state + k), symbol := word_of_nat k\<rparr>
     in if k = length r then Some (False, it)
        else let it = it\<lparr>table_value := r ! k\<rparr>
             in if r ! k = 0 then ts_lookahead_iterator__next it else map_option (Pair True) (set_actions it))"
proof -
  obtain a b where ab: "parse_table self = a @ r @ b" "large_index self state = length a"
    and r: "length r = unat (symbol_count self)" "symbol_count self < 65535"
    using assms(1) by (auto simp: large_row_def)
  have n: "length r < 65535" using r by (simp add: word_less_nat_alt)
  have "symbol_count self \<le> ucast (word_of_nat k :: u16) \<longleftrightarrow> length r \<le> k"
    using r(1) n assms(3) by (simp add: word_le_nat_alt)
  moreover have "item_int (parse_table self) (int (large_index self state + k)) = Some (r ! k)" if "k < length r"
    using that ab unfolding item_int_nat by (simp add: item_append_plus) (simp add: item_def nth_append)
  moreover have "data it + 1 = int (large_index self state + k)" "symbol it + 1 = word_of_nat k"
    "language it = self" "\<not> is_small_state it"
    using assms(2) by (simp_all add: large_at_def)
  ultimately show ?thesis
    using assms(3) by (simp add: ts_lookahead_iterator__next_def next_large.simps [of it] Let_def)
qed

lemma iterate_large:
  assumes "large_row self state r"
  shows "large_at self (large_index self state) k it \<Longrightarrow> k \<le> length r \<Longrightarrow>
    \<exists>its. iterate (Suc (length (filter (\<lambda>i. r ! i \<noteq> 0) [k..<length r]))) it = Some its \<and>
      list_all (shows_actions self) its \<and>
      map (\<lambda>i. (symbol i, table_value i)) its =
        map (\<lambda>i. (word_of_nat i, r ! i)) (filter (\<lambda>i. r ! i \<noteq> 0) [k..<length r])"
proof (induction "length r - k" arbitrary: k it)
  case 0
  then have "ts_lookahead_iterator__next it =
      Some (False, it\<lparr>data := int (large_index self state + k), symbol := word_of_nat k\<rparr>)"
    using next_large_step [OF assms, of k it] by (simp add: Let_def)
  then show ?case using 0 by simp
next
  case (Suc d)
  let ?it = "it\<lparr>data := int (large_index self state + k), symbol := word_of_nat k, table_value := r ! k\<rparr>"
  have k: "k < length r" "[k..<length r] = k # [Suc k..<length r]" using Suc.hyps(2) by (simp_all add: upt_rec)
  have at_it: "large_at self (large_index self state) (Suc k) ?it"
    using Suc.prems(1) by (simp add: large_at_def)
  have IH: "\<exists>its. iterate (Suc (length (filter (\<lambda>i. r ! i \<noteq> 0) [Suc k..<length r]))) it' = Some its \<and>
      list_all (shows_actions self) its \<and> map (\<lambda>i. (symbol i, table_value i)) its =
        map (\<lambda>i. (word_of_nat i, r ! i)) (filter (\<lambda>i. r ! i \<noteq> 0) [Suc k..<length r])"
    if "large_at self (large_index self state) (Suc k) it'" for it'
    using Suc.hyps(2) k(1) that by (intro Suc.hyps(1)) simp_all
  note step = next_large_step [OF assms Suc.prems]
  show ?case
  proof (cases "r ! k = 0")
    case True
    then have "ts_lookahead_iterator__next it = ts_lookahead_iterator__next ?it"
      using step k(1) by (simp add: Let_def)
    then show ?thesis using IH [OF at_it] True k(2) by simp
  next
    case False
    have "unat (word_of_nat k :: u16) = k" "unat (word_of_nat k :: u32) = k"
      using k(1) assms by (auto simp: large_row_def word_less_nat_alt)
    then have "ucast (word_of_nat k :: u16) < token_count self \<longleftrightarrow> word_of_nat k < token_count self"
      by (simp add: word_less_nat_alt)
    then obtain it' where it': "set_actions ?it = Some it'" "shows_actions self it'" "symbol it' = word_of_nat k"
      "table_value it' = r ! k" "large_at self (large_index self state) (Suc k) it'"
      using False assms k(1) at_it by (auto simp: large_row_def large_at_def set_actions_def shows_actions_def)
    then have "ts_lookahead_iterator__next it = Some (True, it')"
      using step k(1) False by (simp add: Let_def)
    then show ?thesis using IH [OF it'(5)] it' False k(2) by auto
  qed
qed

section \<open>The two agree\<close>

text \<open>The row of a state, of either kind.\<close>

definition row_ok :: "TSLanguage \<Rightarrow> TSStateId \<Rightarrow> bool" where
  "row_ok self state \<longleftrightarrow> symbol_count self < 65535 \<and> ((\<exists>gs. small_row self state gs) \<or> (\<exists>r. large_row self state r))"

lemma group_value_nonzero:
  assumes "distinct (concat (map snd gs))" "list_all (\<lambda>g. fst g \<noteq> 0) gs"
  shows "(sy, v) \<in> set (concat (map (\<lambda>g. map (\<lambda>s. (s, fst g)) (snd g)) gs)) \<longleftrightarrow> group_value gs sy = v \<and> v \<noteq> 0"
  using assms
proof (induction gs)
  case (Cons g gs)
  show ?case
  proof (cases "sy \<in> set (snd g)")
    case True
    with Cons.prems(1) have "(sy, v) \<notin> set (concat (map (\<lambda>g. map (\<lambda>s. (s, fst g)) (snd g)) gs))" by auto
    then show ?thesis using True Cons.prems(2) by auto
  next
    case False
    then show ?thesis using Cons by auto
  qed
qed simp

lemma iterates_row:
  assumes "row_ok self state"
  shows "\<exists>it n its. ts_language_lookaheads self state = Some it \<and> iterate n it = Some its \<and> list_all (shows_actions self) its \<and>
    distinct (map symbol its) \<and> (\<forall>sy v. (sy, v) \<in> set (map (\<lambda>i. (symbol i, table_value i)) its) \<longleftrightarrow>
      ucast sy < symbol_count self \<and> ts_language_lookup self state sy = Some v \<and> v \<noteq> 0)"
proof -
  consider gs where "small_row self state gs" | r where "large_row self state r"
    using assms by (auto simp: row_ok_def)
  then show ?thesis
  proof cases
    case 1
    obtain a b where ab: "small_index self state = Some (length a)"
      "small_parse_table self = a @ word_of_nat (length gs) # encode_groups gs @ b"
      and gs: "list_all (group_ok self) gs" "length gs < 65536" "distinct (concat (map snd gs))" "is_small self state"
      using 1 by (auto simp: small_row_def)
    let ?P = "concat (map (\<lambda>g. map (\<lambda>s. (s, fst g)) (snd g)) gs)"
    obtain it where it: "ts_language_lookaheads self state = Some it" "small_at self (length a + 1) (length a + 1) it"
      "group_count it = word_of_nat (length gs)"
      using ab gs(4) by (auto simp: ts_language_lookaheads_def small_at_def Let_def)
    obtain its where its: "iterate (Suc (length (concat (map snd gs)))) it = Some its" "list_all (shows_actions self) its"
      "map (\<lambda>i. (symbol i, table_value i)) its = ?P"
      using iterate_groups [OF gs(1), of "a @ [word_of_nat (length gs)]" it b] it ab(2) gs(2) by auto
    have "map fst ?P = concat (map snd gs)" by (induction gs) (auto simp: comp_def)
    then have "map symbol its = concat (map snd gs)" using arg_cong [OF its(3), of "map fst"] by (simp add: comp_def)
    moreover have "ucast sy < symbol_count self" if "(sy, v) \<in> set ?P" for sy v
      using that gs(1) by (auto simp: group_ok_def list_all_iff)
    moreover have "list_all (\<lambda>g. fst g \<noteq> 0) gs" using gs(1) by (auto simp: group_ok_def list_all_iff)
    then have "(sy, v) \<in> set ?P \<longleftrightarrow> ts_language_lookup self state sy = Some v \<and> v \<noteq> 0" for sy v
      using group_value_nonzero [OF gs(3)] lookup_small [OF 1] by simp
    ultimately have "distinct (map symbol its)" "\<forall>sy v. (sy, v) \<in> set (map (\<lambda>i. (symbol i, table_value i)) its) \<longleftrightarrow>
        ucast sy < symbol_count self \<and> ts_language_lookup self state sy = Some v \<and> v \<noteq> 0"
      using gs(3) unfolding its(3) by (simp, blast)
    with it(1) its(1,2) show ?thesis
      by (intro exI [of _ it] exI [of _ "Suc (length (concat (map snd gs)))"] exI [of _ its]) simp
  next
    case 2
    let ?is = "filter (\<lambda>i. r ! i \<noteq> 0) [0..<length r]"
    have n: "length r = unat (symbol_count self)" "length r < 65535"
      using 2 by (auto simp: large_row_def word_less_nat_alt)
    obtain it where it: "ts_language_lookaheads self state = Some it" "large_at self (large_index self state) 0 it"
      using 2 by (auto simp: ts_language_lookaheads_def large_at_def large_row_def Let_def)
    obtain its where its: "iterate (Suc (length ?is)) it = Some its" "list_all (shows_actions self) its"
      "map (\<lambda>i. (symbol i, table_value i)) its = map (\<lambda>i. (word_of_nat i, r ! i)) ?is"
      using iterate_large [OF 2 it(2)] by auto
    have "map symbol its = map word_of_nat ?is" using arg_cong [OF its(3), of "map fst"] by (simp add: comp_def)
    moreover have "inj_on (word_of_nat :: nat \<Rightarrow> u16) (set ?is)"
      using n(2) by (intro inj_on_inverseI [of _ unat]) simp
    ultimately have "distinct (map symbol its)" by (simp add: distinct_map)
    moreover have "(sy, v) \<in> set (map (\<lambda>i. (word_of_nat i, r ! i)) ?is) \<longleftrightarrow>
        ucast sy < symbol_count self \<and> ts_language_lookup self state sy = Some v \<and> v \<noteq> 0" for sy v
    proof -
      have "ucast sy < symbol_count self \<longleftrightarrow> unat sy < length r" using n(1) by (simp add: word_less_nat_alt)
      moreover have "(sy, v) \<in> set (map (\<lambda>i. (word_of_nat i, r ! i)) ?is) \<longleftrightarrow>
          unat sy < length r \<and> r ! unat sy = v \<and> v \<noteq> 0"
        using n(2) by (auto intro: image_eqI [of _ _ "unat sy"])
      ultimately show ?thesis using lookup_large [OF 2, of sy] by auto
    qed
    ultimately show ?thesis
      using it(1) its(1,2) unfolding its(3) [symmetric]
      by (intro exI [of _ it] exI [of _ "Suc (length ?is)"] exI [of _ its]) simp
  qed
qed

text \<open>
  C17. The iterator over the symbols that are valid in a state agrees with looking symbols up one by one,
  for the rows of large states and for the compressed rows of small ones: it ends, visits exactly the
  symbols with an entry, each once, and shows for each the value, the actions or the successor state that the look-up
  gives. Neither reads outside the tables.
\<close>

theorem lookaheads_agree_with_lookup:
  assumes "row_ok self state"
  shows "\<exists>it n its. ts_language_lookaheads self state = Some it \<and> iterate n it = Some its \<and> distinct (map symbol its) \<and>
    (\<forall>sy. ucast sy < symbol_count self \<longrightarrow>
      (sy \<in> symbol ` set its \<longleftrightarrow> ts_language_has_actions self state sy = Some True)) \<and>
    (\<forall>i \<in> set its. ts_language_lookup self state (symbol i) = Some (table_value i) \<and>
      (if ucast (symbol i) < token_count self
       then ts_language_table_entry self state (symbol i) = entry_at self (table_value i) \<and>
         (\<exists>e. entry_at self (table_value i) = Some e \<and> lookahead_actions i = actions e \<and>
            lookahead_action_count i = action_count e)
       else ts_language_next_state self state (symbol i) = Some (next_state i)))"
proof -
  obtain it n its where its: "ts_language_lookaheads self state = Some it" "iterate n it = Some its"
    "list_all (shows_actions self) its" "distinct (map symbol its)"
    and all_pairs: "\<forall>sy v. (sy, v) \<in> set (map (\<lambda>i. (symbol i, table_value i)) its) \<longleftrightarrow>
      ucast sy < symbol_count self \<and> ts_language_lookup self state sy = Some v \<and> v \<noteq> 0"
    using iterates_row [OF assms] by (elim exE conjE) (rule that)
  note pairs = spec [OF spec [OF all_pairs]]
  have "sy \<in> symbol ` set its \<longleftrightarrow> ts_language_has_actions self state sy = Some True" if "ucast sy < symbol_count self" for sy
  proof -
    have "sy \<in> symbol ` set its \<longleftrightarrow> (\<exists>v. (sy, v) \<in> set (map (\<lambda>i. (symbol i, table_value i)) its))" by auto
    then show ?thesis unfolding pairs using that by (auto simp: ts_language_has_actions_def)
  qed
  moreover have "ts_language_lookup self state (symbol i) = Some (table_value i) \<and>
      (if ucast (symbol i) < token_count self
       then ts_language_table_entry self state (symbol i) = entry_at self (table_value i) \<and>
         (\<exists>e. entry_at self (table_value i) = Some e \<and> lookahead_actions i = actions e \<and>
            lookahead_action_count i = action_count e)
       else ts_language_next_state self state (symbol i) = Some (next_state i))" if i: "i \<in> set its" for i
  proof -
    have v: "ucast (symbol i) < symbol_count self" "ts_language_lookup self state (symbol i) = Some (table_value i)"
      using pairs [of "symbol i" "table_value i"] i by auto
    have "symbol_count self < 65535" using assms by (simp add: row_ok_def)
    then have "unat (symbol i) < 65534" using v(1) by (simp add: word_less_nat_alt)
    then have "symbol i \<noteq> ts_builtin_sym_error" "symbol i \<noteq> ts_builtin_sym_error_repeat" by auto
    then show ?thesis
      using v(2) its(3) i
      by (auto simp: list_all_iff shows_actions_def ts_language_table_entry_def ts_language_next_state_def)
  qed
  ultimately show ?thesis using its by blast
qed

theorem lookaheads_agree_with_lookup_witness:
  "let l = no_language\<lparr>symbol_count := 3, token_count := 2, small_parse_table_map := [0], small_parse_table := [2, 1, 1, 1, 7, 1, 2],
         parse_actions := [Entry 0 False, Entry 1 True, Action AcceptInput]\<rparr>
   in \<exists>it n its. ts_language_lookaheads l 0 = Some it \<and> iterate n it = Some its \<and> {1, 2} \<subseteq> symbol ` set its \<and> 0 \<notin> symbol ` set its"
proof -
  let ?l = "no_language\<lparr>symbol_count := 3, token_count := 2, small_parse_table_map := [0],
    small_parse_table := [2, 1, 1, 1, 7, 1, 2], parse_actions := [Entry 0 False, Entry 1 True, Action AcceptInput]\<rparr>"
  have row: "small_row ?l 0 [(1, [1]), (7, [2])]"
    unfolding small_row_def
    by (auto simp: no_language_def is_small_def group_ok_def entry_at_def item_def small_index_def word_less_nat_alt
        word_le_nat_alt intro!: exI [of _ "[]"])
  then have "row_ok ?l 0" by (auto simp: row_ok_def no_language_def)
  then obtain it n its where its: "ts_language_lookaheads ?l 0 = Some it" "iterate n it = Some its"
    "\<forall>sy. ucast sy < symbol_count ?l \<longrightarrow> (sy \<in> symbol ` set its \<longleftrightarrow> ts_language_has_actions ?l 0 sy = Some True)"
    using lookaheads_agree_with_lookup [of ?l 0] by blast
  have "ts_language_has_actions ?l 0 sy = Some (sy \<in> {1, 2})" for sy
    unfolding ts_language_has_actions_def lookup_small [OF row] by simp
  then have "sy \<in> symbol ` set its \<longleftrightarrow> sy \<in> {1, 2}" if "unat sy < 3" for sy
    using its(3) that by (simp add: no_language_def word_less_nat_alt)
  from this [of 0] this [of 1] this [of 2] show ?thesis
    using its(1,2) unfolding Let_def by (intro exI [of _ it] exI [of _ n] exI [of _ its]) simp
qed
end
