(* ===== verification/Subtree.thy ===== *)
theory Subtree
  imports Points Language
begin

text \<open>
  Syntax trees: \<open>subtree.h\<close> and \<open>subtree.c\<close>. A tree is a leaf that is packed into one machine word, or heap data
  with the children in front of it. Trees are values here: where the code shares a tree and counts references, and
  copies it before it changes it (\<open>ts_subtree_make_mut\<close>), the model has two equal values; the count is a field
  that only \<open>ts_subtree_compress\<close> reads. The fields that the code overlays in a union are separate.
\<close>

section \<open>Data\<close>

record SubtreeInlineData =
  in_visible :: bool
  in_named :: bool
  in_extra :: bool
  in_has_changes :: bool
  in_is_missing :: bool
  in_is_keyword :: bool
  in_symbol :: u8
  in_parse_state :: TSStateId
  in_padding_columns :: u8
  in_padding_rows :: "4 word"
  in_lookahead_bytes :: "4 word"
  in_padding_bytes :: u8
  in_size_bytes :: u8

record SubtreeHeapData =
  ref_count :: u32
  h_padding :: Length
  h_size :: Length
  h_lookahead_bytes :: u32
  error_cost :: u32
  h_symbol :: TSSymbol
  h_parse_state :: TSStateId
  h_visible :: bool
  h_named :: bool
  h_extra :: bool
  fragile_left :: bool
  fragile_right :: bool
  h_has_changes :: bool
  has_external_tokens :: bool
  has_external_scanner_state_change :: bool
  depends_on_column :: bool
  h_is_missing :: bool
  h_is_keyword :: bool
  visible_child_count :: u32
  named_child_count :: u32
  visible_descendant_count :: u32
  h_dynamic_precedence :: int
  repeat_depth :: u16
  h_production_id :: u16
  first_leaf_symbol :: TSSymbol
  first_leaf_parse_state :: TSStateId
  external_scanner_state :: "u8 list"
  lookahead_char :: int

datatype Subtree = Inline SubtreeInlineData | Ptr SubtreeHeapData "Subtree list"

abbreviation TS_TREE_STATE_NONE :: TSStateId where
  "TS_TREE_STATE_NONE \<equiv> 65535"

abbreviation TS_MAX_INLINE_TREE_LENGTH :: u32 where
  "TS_MAX_INLINE_TREE_LENGTH \<equiv> 255"

definition ERROR_COST_PER_RECOVERY :: u32 where "ERROR_COST_PER_RECOVERY = 500"
definition ERROR_COST_PER_MISSING_TREE :: u32 where "ERROR_COST_PER_MISSING_TREE = 110"
definition ERROR_COST_PER_SKIPPED_TREE :: u32 where "ERROR_COST_PER_SKIPPED_TREE = 100"
definition ERROR_COST_PER_SKIPPED_LINE :: u32 where "ERROR_COST_PER_SKIPPED_LINE = 30"
definition ERROR_COST_PER_SKIPPED_CHAR :: u32 where "ERROR_COST_PER_SKIPPED_CHAR = 1"

section \<open>Reading a tree\<close>

fun ts_subtree_symbol :: "Subtree \<Rightarrow> TSSymbol" where
  "ts_subtree_symbol (Inline d) = ucast (in_symbol d)"
| "ts_subtree_symbol (Ptr h cs) = h_symbol h"

fun ts_subtree_visible :: "Subtree \<Rightarrow> bool" where
  "ts_subtree_visible (Inline d) = in_visible d"
| "ts_subtree_visible (Ptr h cs) = h_visible h"

fun ts_subtree_named :: "Subtree \<Rightarrow> bool" where
  "ts_subtree_named (Inline d) = in_named d"
| "ts_subtree_named (Ptr h cs) = h_named h"

fun ts_subtree_extra :: "Subtree \<Rightarrow> bool" where
  "ts_subtree_extra (Inline d) = in_extra d"
| "ts_subtree_extra (Ptr h cs) = h_extra h"

fun ts_subtree_has_changes :: "Subtree \<Rightarrow> bool" where
  "ts_subtree_has_changes (Inline d) = in_has_changes d"
| "ts_subtree_has_changes (Ptr h cs) = h_has_changes h"

fun ts_subtree_missing :: "Subtree \<Rightarrow> bool" where
  "ts_subtree_missing (Inline d) = in_is_missing d"
| "ts_subtree_missing (Ptr h cs) = h_is_missing h"

fun ts_subtree_is_keyword :: "Subtree \<Rightarrow> bool" where
  "ts_subtree_is_keyword (Inline d) = in_is_keyword d"
| "ts_subtree_is_keyword (Ptr h cs) = h_is_keyword h"

fun ts_subtree_parse_state :: "Subtree \<Rightarrow> TSStateId" where
  "ts_subtree_parse_state (Inline d) = in_parse_state d"
| "ts_subtree_parse_state (Ptr h cs) = h_parse_state h"

fun ts_subtree_lookahead_bytes :: "Subtree \<Rightarrow> u32" where
  "ts_subtree_lookahead_bytes (Inline d) = ucast (in_lookahead_bytes d)"
| "ts_subtree_lookahead_bytes (Ptr h cs) = h_lookahead_bytes h"

fun ts_subtree_children :: "Subtree \<Rightarrow> Subtree list" where
  "ts_subtree_children (Inline d) = []"
| "ts_subtree_children (Ptr h cs) = cs"

definition ts_subtree_child_count :: "Subtree \<Rightarrow> nat" where
  "ts_subtree_child_count t = length (ts_subtree_children t)"

fun ts_subtree_leaf_symbol :: "Subtree \<Rightarrow> TSSymbol" where
  "ts_subtree_leaf_symbol (Inline d) = ucast (in_symbol d)"
| "ts_subtree_leaf_symbol (Ptr h cs) = (if cs = [] then h_symbol h else first_leaf_symbol h)"

fun ts_subtree_leaf_parse_state :: "Subtree \<Rightarrow> TSStateId" where
  "ts_subtree_leaf_parse_state (Inline d) = in_parse_state d"
| "ts_subtree_leaf_parse_state (Ptr h cs) = (if cs = [] then h_parse_state h else first_leaf_parse_state h)"

fun ts_subtree_padding :: "Subtree \<Rightarrow> Length" where
  "ts_subtree_padding (Inline d) =
     \<lparr>bytes = ucast (in_padding_bytes d), extent = Point (ucast (in_padding_rows d)) (ucast (in_padding_columns d))\<rparr>"
| "ts_subtree_padding (Ptr h cs) = h_padding h"

fun ts_subtree_size :: "Subtree \<Rightarrow> Length" where
  "ts_subtree_size (Inline d) = \<lparr>bytes = ucast (in_size_bytes d), extent = Point 0 (ucast (in_size_bytes d))\<rparr>"
| "ts_subtree_size (Ptr h cs) = h_size h"

definition ts_subtree_total_size :: "Subtree \<Rightarrow> Length" where
  "ts_subtree_total_size t = length_add (ts_subtree_padding t) (ts_subtree_size t)"

definition ts_subtree_total_bytes :: "Subtree \<Rightarrow> u32" where
  "ts_subtree_total_bytes t = bytes (ts_subtree_total_size t)"

fun ts_subtree_repeat_depth :: "Subtree \<Rightarrow> u16" where
  "ts_subtree_repeat_depth (Inline d) = 0"
| "ts_subtree_repeat_depth (Ptr h cs) = repeat_depth h"

fun ts_subtree_is_repetition :: "Subtree \<Rightarrow> bool" where
  "ts_subtree_is_repetition (Inline d) = False"
| "ts_subtree_is_repetition (Ptr h cs) = (\<not> h_named h \<and> \<not> h_visible h \<and> cs \<noteq> [])"

fun ts_subtree_visible_descendant_count :: "Subtree \<Rightarrow> u32" where
  "ts_subtree_visible_descendant_count (Inline d) = 0"
| "ts_subtree_visible_descendant_count (Ptr h cs) = (if cs = [] then 0 else visible_descendant_count h)"

fun ts_subtree_visible_child_count :: "Subtree \<Rightarrow> u32" where
  "ts_subtree_visible_child_count (Inline d) = 0"
| "ts_subtree_visible_child_count (Ptr h cs) = (if cs = [] then 0 else visible_child_count h)"

text \<open>The direct reads of this field on a child with children.\<close>

fun ts_subtree_named_child_count :: "Subtree \<Rightarrow> u32" where
  "ts_subtree_named_child_count (Inline d) = 0"
| "ts_subtree_named_child_count (Ptr h cs) = (if cs = [] then 0 else named_child_count h)"

definition ts_subtree_error_cost :: "Subtree \<Rightarrow> u32" where
  "ts_subtree_error_cost t =
     (if ts_subtree_missing t then ERROR_COST_PER_MISSING_TREE + ERROR_COST_PER_RECOVERY
      else case t of Inline _ \<Rightarrow> 0 | Ptr h _ \<Rightarrow> error_cost h)"

fun ts_subtree_dynamic_precedence :: "Subtree \<Rightarrow> int" where
  "ts_subtree_dynamic_precedence (Inline d) = 0"
| "ts_subtree_dynamic_precedence (Ptr h cs) = (if cs = [] then 0 else h_dynamic_precedence h)"

fun ts_subtree_production_id :: "Subtree \<Rightarrow> u16" where
  "ts_subtree_production_id (Inline d) = 0"
| "ts_subtree_production_id (Ptr h cs) = (if cs = [] then 0 else h_production_id h)"

fun heap_flag :: "(SubtreeHeapData \<Rightarrow> bool) \<Rightarrow> Subtree \<Rightarrow> bool" where
  "heap_flag f (Inline d) = False"
| "heap_flag f (Ptr h cs) = f h"

definition ts_subtree_fragile_left :: "Subtree \<Rightarrow> bool" where
  "ts_subtree_fragile_left = heap_flag fragile_left"

definition ts_subtree_fragile_right :: "Subtree \<Rightarrow> bool" where
  "ts_subtree_fragile_right = heap_flag fragile_right"

definition ts_subtree_has_external_tokens :: "Subtree \<Rightarrow> bool" where
  "ts_subtree_has_external_tokens = heap_flag has_external_tokens"

definition ts_subtree_has_external_scanner_state_change :: "Subtree \<Rightarrow> bool" where
  "ts_subtree_has_external_scanner_state_change = heap_flag has_external_scanner_state_change"

definition ts_subtree_depends_on_column :: "Subtree \<Rightarrow> bool" where
  "ts_subtree_depends_on_column = heap_flag depends_on_column"

definition ts_subtree_is_fragile :: "Subtree \<Rightarrow> bool" where
  "ts_subtree_is_fragile = heap_flag (\<lambda>h. fragile_left h \<or> fragile_right h)"

definition ts_subtree_is_error :: "Subtree \<Rightarrow> bool" where
  "ts_subtree_is_error t \<longleftrightarrow> ts_subtree_symbol t = ts_builtin_sym_error"

definition ts_subtree_is_eof :: "Subtree \<Rightarrow> bool" where
  "ts_subtree_is_eof t \<longleftrightarrow> ts_subtree_symbol t = 0"

fun ts_subtree_set_extra :: "Subtree \<Rightarrow> bool \<Rightarrow> Subtree" where
  "ts_subtree_set_extra (Inline d) is_extra = Inline (d\<lparr>in_extra := is_extra\<rparr>)"
| "ts_subtree_set_extra (Ptr h cs) is_extra = Ptr (h\<lparr>h_extra := is_extra\<rparr>) cs"

text \<open>\<open>None\<close> is the null tree.\<close>

definition ts_subtree_external_scanner_state :: "Subtree option \<Rightarrow> u8 list" where
  "ts_subtree_external_scanner_state self =
     (case self of Some (Ptr h []) \<Rightarrow> if has_external_tokens h then external_scanner_state h else [] | _ \<Rightarrow> [])"

definition ts_subtree_external_scanner_state_eq :: "Subtree option \<Rightarrow> Subtree option \<Rightarrow> bool" where
  "ts_subtree_external_scanner_state_eq self other \<longleftrightarrow>
     ts_subtree_external_scanner_state self = ts_subtree_external_scanner_state other"

section \<open>Arrays of trees\<close>

text \<open>The loop of \<open>ts_subtree_array_reverse\<close> from an index up to the limit, by exchanging elements.\<close>

function reverse_loop :: "'a list \<Rightarrow> nat \<Rightarrow> nat \<Rightarrow> 'a list" where
  "reverse_loop xs i limit =
     (if i < limit
      then reverse_loop (xs[i := xs ! (length xs - 1 - i), length xs - 1 - i := xs ! i]) (i + 1) limit
      else xs)"
  by pat_completeness auto
termination by (relation "measure (\<lambda>(xs, i, limit). limit - i)") auto

declare reverse_loop.simps [simp del]

definition ts_subtree_array_reverse :: "Subtree list \<Rightarrow> Subtree list" where
  "ts_subtree_array_reverse self = reverse_loop self 0 (length self div 2)"

function remove_extras_loop :: "Subtree list \<Rightarrow> Subtree list \<Rightarrow> Subtree list \<times> Subtree list" where
  "remove_extras_loop self destination =
     (if self \<noteq> [] \<and> ts_subtree_extra (last self)
      then remove_extras_loop (butlast self) (destination @ [last self])
      else (self, destination))"
  by pat_completeness auto
termination by (relation "measure (\<lambda>(s, d). length s)") auto

declare remove_extras_loop.simps [simp del]

definition ts_subtree_array_remove_trailing_extras :: "Subtree list \<Rightarrow> Subtree list \<times> Subtree list" where
  "ts_subtree_array_remove_trailing_extras self =
     (let (self, destination) = remove_extras_loop self [] in (self, ts_subtree_array_reverse destination))"

section \<open>New trees\<close>

definition ts_subtree_can_inline :: "Length \<Rightarrow> Length \<Rightarrow> u32 \<Rightarrow> bool" where
  "ts_subtree_can_inline padding sz lookahead \<longleftrightarrow>
     bytes padding < TS_MAX_INLINE_TREE_LENGTH \<and> row (extent padding) < 16 \<and>
     column (extent padding) < TS_MAX_INLINE_TREE_LENGTH \<and> bytes sz < TS_MAX_INLINE_TREE_LENGTH \<and>
     row (extent sz) = 0 \<and> column (extent sz) < TS_MAX_INLINE_TREE_LENGTH \<and> lookahead < 16"

text \<open>Heap data with every field 0, from which an initializer sets some.\<close>

definition heap_zero :: SubtreeHeapData where
  "heap_zero = \<lparr>ref_count = 0, h_padding = length_zero, h_size = length_zero, h_lookahead_bytes = 0, error_cost = 0,
     h_symbol = 0, h_parse_state = 0, h_visible = False, h_named = False, h_extra = False, fragile_left = False,
     fragile_right = False, h_has_changes = False, has_external_tokens = False,
     has_external_scanner_state_change = False, depends_on_column = False, h_is_missing = False, h_is_keyword = False,
     visible_child_count = 0, named_child_count = 0, visible_descendant_count = 0, h_dynamic_precedence = 0,
     repeat_depth = 0, h_production_id = 0, first_leaf_symbol = 0, first_leaf_parse_state = 0,
     external_scanner_state = [], lookahead_char = 0\<rparr>"

text \<open>\<open>None\<close> where the symbol is outside the table of symbols.\<close>

definition ts_subtree_new_leaf ::
  "TSSymbol \<Rightarrow> Length \<Rightarrow> Length \<Rightarrow> u32 \<Rightarrow> TSStateId \<Rightarrow> bool \<Rightarrow> bool \<Rightarrow> bool \<Rightarrow> TSLanguage \<Rightarrow> Subtree option" where
  "ts_subtree_new_leaf sy padding sz lookahead state external column_dep keyword lang = do {
     metadata \<leftarrow> ts_language_symbol_metadata lang sy;
     let extra = (sy = 0);
     if sy \<le> 255 \<and> \<not> external \<and> ts_subtree_can_inline padding sz lookahead
     then Some (Inline \<lparr>in_visible = visible metadata, in_named = named metadata, in_extra = extra,
            in_has_changes = False, in_is_missing = False, in_is_keyword = keyword, in_symbol = ucast sy,
            in_parse_state = state, in_padding_columns = ucast (column (extent padding)),
            in_padding_rows = ucast (row (extent padding)), in_lookahead_bytes = ucast lookahead,
            in_padding_bytes = ucast (bytes padding), in_size_bytes = ucast (bytes sz)\<rparr>)
     else Some (Ptr (heap_zero\<lparr>ref_count := 1, h_padding := padding, h_size := sz, h_lookahead_bytes := lookahead,
            h_symbol := sy, h_parse_state := state, h_visible := visible metadata, h_named := named metadata,
            h_extra := extra, has_external_tokens := external, depends_on_column := column_dep,
            h_is_keyword := keyword\<rparr>) [])
   }"

text \<open>Also \<open>None\<close> where the assertion fails.\<close>

fun ts_subtree_set_symbol :: "Subtree \<Rightarrow> TSSymbol \<Rightarrow> TSLanguage \<Rightarrow> Subtree option" where
  "ts_subtree_set_symbol (Inline d) sy lang = do {
     metadata \<leftarrow> ts_language_symbol_metadata lang sy;
     if sy < 255
     then Some (Inline (d\<lparr>in_symbol := ucast sy, in_named := named metadata, in_visible := visible metadata\<rparr>))
     else None
   }"
| "ts_subtree_set_symbol (Ptr h cs) sy lang = do {
     metadata \<leftarrow> ts_language_symbol_metadata lang sy;
     Some (Ptr (h\<lparr>h_symbol := sy, h_named := named metadata, h_visible := visible metadata\<rparr>) cs)
   }"

text \<open>The error symbol does not fit an inline leaf, so the leaf is on the heap.\<close>

definition ts_subtree_new_error ::
  "int \<Rightarrow> Length \<Rightarrow> Length \<Rightarrow> u32 \<Rightarrow> TSStateId \<Rightarrow> TSLanguage \<Rightarrow> Subtree option" where
  "ts_subtree_new_error c padding sz bytes_scanned state lang = do {
     result \<leftarrow> ts_subtree_new_leaf ts_builtin_sym_error padding sz bytes_scanned state False False False lang;
     case result of
       Inline d \<Rightarrow> None
     | Ptr h cs \<Rightarrow> Some (Ptr (h\<lparr>fragile_left := True, fragile_right := True, lookahead_char := c\<rparr>) cs)
   }"

definition ts_subtree_new_missing_leaf :: "TSSymbol \<Rightarrow> Length \<Rightarrow> u32 \<Rightarrow> TSLanguage \<Rightarrow> Subtree option" where
  "ts_subtree_new_missing_leaf sy padding lookahead lang = do {
     result \<leftarrow> ts_subtree_new_leaf sy padding length_zero lookahead 0 False False False lang;
     Some (case result of
             Inline d \<Rightarrow> Inline (d\<lparr>in_is_missing := True\<rparr>)
           | Ptr h cs \<Rightarrow> Ptr (h\<lparr>h_is_missing := True\<rparr>) cs)
   }"

section \<open>Summarizing the children\<close>

text \<open>
  The state of the loop: the data of the node, the structural index and the end of the lookahead. The
  statements on a child are grouped by what they set.
\<close>

definition is_error_symbol :: "TSSymbol \<Rightarrow> bool" where
  "is_error_symbol sy \<longleftrightarrow> sy = ts_builtin_sym_error \<or> sy = ts_builtin_sym_error_repeat"

definition add_extent :: "nat \<Rightarrow> Subtree \<Rightarrow> SubtreeHeapData \<Rightarrow> SubtreeHeapData" where
  "add_extent i child h =
     (let h = (if row (extent (h_size h)) = 0 \<and> ts_subtree_depends_on_column child
               then h\<lparr>depends_on_column := True\<rparr> else h);
          h = (if ts_subtree_has_external_scanner_state_change child
               then h\<lparr>has_external_scanner_state_change := True\<rparr> else h)
      in if i = 0 then h\<lparr>h_padding := ts_subtree_padding child, h_size := ts_subtree_size child\<rparr>
         else h\<lparr>h_size := length_add (h_size h) (ts_subtree_total_size child)\<rparr>)"

definition add_cost :: "Subtree \<Rightarrow> SubtreeHeapData \<Rightarrow> SubtreeHeapData" where
  "add_cost child h =
     (let h = (if ts_subtree_symbol child \<noteq> ts_builtin_sym_error_repeat
               then h\<lparr>error_cost := error_cost h + ts_subtree_error_cost child\<rparr> else h)
      in if is_error_symbol (h_symbol h) \<and> \<not> ts_subtree_extra child \<and>
            \<not> (ts_subtree_is_error child \<and> ts_subtree_child_count child = 0)
         then (if ts_subtree_visible child
               then h\<lparr>error_cost := error_cost h + ERROR_COST_PER_SKIPPED_TREE\<rparr>
               else if 0 < ts_subtree_child_count child
               then h\<lparr>error_cost := error_cost h + ERROR_COST_PER_SKIPPED_TREE * ts_subtree_visible_child_count child\<rparr>
               else h)
         else h)"

text \<open>The alias of the child, if its production has aliases and gives it one.\<close>

definition child_alias :: "TSSymbol list option \<Rightarrow> nat \<Rightarrow> Subtree \<Rightarrow> TSSymbol option" where
  "child_alias alias_sequence structural_index child =
     (if \<not> ts_subtree_extra child \<and> ts_subtree_symbol child \<noteq> 0
      then (case alias_sequence of None \<Rightarrow> Some 0 | Some a \<Rightarrow> item a structural_index)
      else Some 0)"

definition count_child :: "bool \<Rightarrow> SubtreeHeapData \<Rightarrow> SubtreeHeapData" where
  "count_child is_named h =
     h\<lparr>visible_descendant_count := visible_descendant_count h + 1, visible_child_count := visible_child_count h + 1,
       named_child_count := named_child_count h + of_bool is_named\<rparr>"

definition add_counts :: "TSLanguage \<Rightarrow> TSSymbol list option \<Rightarrow> nat \<Rightarrow> Subtree \<Rightarrow> SubtreeHeapData \<Rightarrow> SubtreeHeapData option" where
  "add_counts lang alias_sequence structural_index child h =
     (let h = h\<lparr>h_dynamic_precedence := h_dynamic_precedence h + ts_subtree_dynamic_precedence child,
                visible_descendant_count := visible_descendant_count h + ts_subtree_visible_descendant_count child\<rparr>
      in do {
        a \<leftarrow> child_alias alias_sequence structural_index child;
        if a \<noteq> 0 then do {
          metadata \<leftarrow> ts_language_symbol_metadata lang a;
          Some (count_child (named metadata) h)
        }
        else if ts_subtree_visible child then Some (count_child (ts_subtree_named child) h)
        else if 0 < ts_subtree_child_count child
        then Some (h\<lparr>visible_child_count := visible_child_count h + ts_subtree_visible_child_count child,
                     named_child_count := named_child_count h + ts_subtree_named_child_count child\<rparr>)
        else Some h
      })"

definition add_flags :: "Subtree \<Rightarrow> SubtreeHeapData \<Rightarrow> SubtreeHeapData" where
  "add_flags child h =
     (let h = (if ts_subtree_has_external_tokens child then h\<lparr>has_external_tokens := True\<rparr> else h)
      in if ts_subtree_is_error child
         then h\<lparr>fragile_left := True, fragile_right := True, h_parse_state := TS_TREE_STATE_NONE\<rparr> else h)"

fun summarize_loop ::
  "TSLanguage \<Rightarrow> TSSymbol list option \<Rightarrow> nat \<Rightarrow> Subtree list \<Rightarrow> nat \<Rightarrow> u32 \<Rightarrow> SubtreeHeapData \<Rightarrow>
     (SubtreeHeapData \<times> u32) option" where
  "summarize_loop lang als i [] structural_index lookahead_end h = Some (h, lookahead_end)"
| "summarize_loop lang als i (child # cs) structural_index lookahead_end h =
     (let h = add_extent i child h;
          child_end = bytes (h_padding h) + bytes (h_size h) + ts_subtree_lookahead_bytes child;
          lookahead_end = (if child_end > lookahead_end then child_end else lookahead_end)
      in do {
        h \<leftarrow> add_counts lang als structural_index child (add_cost child h);
        summarize_loop lang als (i + 1) cs
          (if ts_subtree_extra child then structural_index else structural_index + 1) lookahead_end (add_flags child h)
      })"

definition summarize_start :: "SubtreeHeapData \<Rightarrow> SubtreeHeapData" where
  "summarize_start h =
     h\<lparr>named_child_count := 0, visible_child_count := 0, error_cost := 0, repeat_depth := 0, visible_descendant_count := 0,
       has_external_tokens := False, depends_on_column := False, has_external_scanner_state_change := False,
       h_dynamic_precedence := 0\<rparr>"

definition summarize_end :: "Subtree list \<Rightarrow> SubtreeHeapData \<Rightarrow> SubtreeHeapData" where
  "summarize_end cs h =
     (if cs \<noteq> [] then
        (let first_child = hd cs; last_child = last cs;
             h = h\<lparr>first_leaf_symbol := ts_subtree_leaf_symbol first_child,
                   first_leaf_parse_state := ts_subtree_leaf_parse_state first_child\<rparr>;
             h = (if ts_subtree_fragile_left first_child then h\<lparr>fragile_left := True\<rparr> else h);
             h = (if ts_subtree_fragile_right last_child then h\<lparr>fragile_right := True\<rparr> else h)
         in if 2 \<le> length cs \<and> \<not> h_visible h \<and> \<not> h_named h \<and> ts_subtree_symbol first_child = h_symbol h
            then (if ts_subtree_repeat_depth last_child < ts_subtree_repeat_depth first_child
                  then h\<lparr>repeat_depth := ts_subtree_repeat_depth first_child + 1\<rparr>
                  else h\<lparr>repeat_depth := ts_subtree_repeat_depth last_child + 1\<rparr>)
            else h)
      else h)"

definition summarize_data :: "TSLanguage \<Rightarrow> SubtreeHeapData \<Rightarrow> Subtree list \<Rightarrow> SubtreeHeapData option" where
  "summarize_data lang h cs = do {
     (h, lookahead_end) \<leftarrow>
       summarize_loop lang (ts_language_alias_sequence lang (unat (h_production_id h))) 0 cs 0 0 (summarize_start h);
     let h = h\<lparr>h_lookahead_bytes := lookahead_end - bytes (h_size h) - bytes (h_padding h)\<rparr>;
     let h = (if is_error_symbol (h_symbol h)
              then h\<lparr>error_cost := error_cost h + (ERROR_COST_PER_RECOVERY + ERROR_COST_PER_SKIPPED_CHAR * bytes (h_size h) +
                       ERROR_COST_PER_SKIPPED_LINE * row (extent (h_size h)))\<rparr> else h);
     Some (summarize_end cs h)
   }"

fun ts_subtree_summarize_children :: "TSLanguage \<Rightarrow> Subtree \<Rightarrow> Subtree option" where
  "ts_subtree_summarize_children lang (Inline d) = None"
| "ts_subtree_summarize_children lang (Ptr h cs) = map_option (\<lambda>h. Ptr h cs) (summarize_data lang h cs)"

definition ts_subtree_new_node :: "TSSymbol \<Rightarrow> Subtree list \<Rightarrow> u16 \<Rightarrow> TSLanguage \<Rightarrow> Subtree option" where
  "ts_subtree_new_node sy cs pid lang = do {
     metadata \<leftarrow> ts_language_symbol_metadata lang sy;
     ts_subtree_summarize_children lang
       (Ptr (heap_zero\<lparr>ref_count := 1, h_symbol := sy, h_visible := visible metadata, h_named := named metadata,
          fragile_left := is_error_symbol sy, fragile_right := is_error_symbol sy, h_production_id := pid\<rparr>) cs)
   }"

definition ts_subtree_new_error_node :: "Subtree list \<Rightarrow> bool \<Rightarrow> TSLanguage \<Rightarrow> Subtree option" where
  "ts_subtree_new_error_node cs extra lang =
     map_option (\<lambda>t. ts_subtree_set_extra t extra) (ts_subtree_new_node ts_builtin_sym_error cs 0 lang)"

section \<open>Compressing repetitions\<close>

text \<open>
  The loop of \<open>ts_subtree_compress\<close> walks down the first children and exchanges references on the way; the
  trees it has changed are summarized on the way back, the innermost first, each with the two nodes under it.
\<close>

fun can_rotate :: "TSSymbol \<Rightarrow> Subtree \<Rightarrow> bool" where
  "can_rotate sy (Inline d) = False"
| "can_rotate sy (Ptr h cs) = (2 \<le> length cs \<and> ref_count h \<le> 1 \<and> h_symbol h = sy)"

fun resummarize :: "TSLanguage \<Rightarrow> SubtreeHeapData \<Rightarrow> Subtree list \<Rightarrow> Subtree \<Rightarrow> Subtree option" where
  "resummarize lang h cs (Inline d) = None"
| "resummarize lang h cs (Ptr ch ccs) = do {
     grandchild \<leftarrow> ts_subtree_summarize_children lang (last ccs);
     child \<leftarrow> ts_subtree_summarize_children lang (Ptr ch (butlast ccs @ [grandchild]));
     ts_subtree_summarize_children lang (Ptr h (child # cs))
   }"

fun compress_loop :: "TSLanguage \<Rightarrow> TSSymbol \<Rightarrow> nat \<Rightarrow> Subtree \<Rightarrow> Subtree option" where
  "compress_loop lang sy (Suc n) (Ptr h (Ptr ch (Ptr gh gcs # ccs) # cs)) =
     (if ref_count h \<le> 1 \<and> cs \<noteq> [] \<and> can_rotate sy (Ptr ch (Ptr gh gcs # ccs)) \<and> can_rotate sy (Ptr gh gcs)
      then do {
        child \<leftarrow> compress_loop lang sy n (Ptr gh (butlast gcs @ [Ptr ch (last gcs # ccs)]));
        resummarize lang h cs child
      }
      else Some (Ptr h (Ptr ch (Ptr gh gcs # ccs) # cs)))"
| "compress_loop lang sy n t = Some t"

definition ts_subtree_compress :: "Subtree \<Rightarrow> nat \<Rightarrow> TSLanguage \<Rightarrow> Subtree option" where
  "ts_subtree_compress self count lang = compress_loop lang (ts_subtree_symbol self) count self"

section \<open>Comparing\<close>

text \<open>The stack of \<open>ts_subtree_compare\<close>, its top first; the right tree of a pair lies on top of the left one.\<close>

definition compare_roots :: "Subtree \<Rightarrow> Subtree \<Rightarrow> int" where
  "compare_roots left right =
     (if ts_subtree_symbol left < ts_subtree_symbol right then - 1
      else if ts_subtree_symbol right < ts_subtree_symbol left then 1
      else if ts_subtree_child_count left < ts_subtree_child_count right then - 1
      else if ts_subtree_child_count right < ts_subtree_child_count left then 1
      else 0)"

fun push_children :: "Subtree list \<Rightarrow> Subtree list \<Rightarrow> Subtree list \<Rightarrow> Subtree list" where
  "push_children (l # ls) (r # rs) stack = r # l # push_children ls rs stack"
| "push_children ls rs stack = stack"

lemma size_children: "sum_list (map (\<lambda>c. Suc (size c)) (ts_subtree_children t)) \<le> size t"
proof (cases t)
  case (Ptr h cs)
  have "sum_list (map (\<lambda>c. Suc (size c)) cs) = size_list size cs" by (induction cs) simp_all
  with Ptr show ?thesis by simp
qed simp

lemma size_child: "c \<in> set (ts_subtree_children t) \<Longrightarrow> size c < size t"
  using member_le_sum_list [of "Suc (size c)" "map (\<lambda>c. Suc (size c)) (ts_subtree_children t)"] size_children [of t]
  by (auto simp: Suc_le_eq)

lemma sum_list_push:
  "sum_list (map (\<lambda>c. Suc (size c)) (push_children ls rs stack)) \<le> sum_list (map (\<lambda>c. Suc (size c)) ls) +
     sum_list (map (\<lambda>c. Suc (size c)) rs) + sum_list (map (\<lambda>c. Suc (size c)) stack)"
  by (induction ls rs stack rule: push_children.induct) simp_all

function compare_loop :: "Subtree list \<Rightarrow> int" where
  "compare_loop (right # left # stack) =
     (if compare_roots left right \<noteq> 0 then compare_roots left right
      else compare_loop (push_children (ts_subtree_children left) (ts_subtree_children right) stack))"
| "compare_loop [] = 0"
| "compare_loop [t] = 0"
  by pat_completeness auto
termination
proof (relation "measure (\<lambda>stack. sum_list (map (\<lambda>c. Suc (size c)) stack))", goal_cases)
  case (2 right left stack)
  show ?case
    using size_children [of left] size_children [of right]
      sum_list_push [of "ts_subtree_children left" "ts_subtree_children right" stack] by simp
qed simp

definition ts_subtree_compare :: "Subtree \<Rightarrow> Subtree \<Rightarrow> int" where
  "ts_subtree_compare left right = compare_loop [right, left]"

section \<open>Editing\<close>

record Edit =
  e_start :: Length
  e_old_end :: Length
  e_new_end :: Length

text \<open>The new padding and size of a node.\<close>

definition edit_extent :: "Edit \<Rightarrow> Length \<Rightarrow> Length \<Rightarrow> Length \<times> Length" where
  "edit_extent edit padding sz =
     (let total_size = length_add padding sz;
          is_pure_insertion = (bytes (e_old_end edit) = bytes (e_start edit))
      in if bytes (e_old_end edit) \<le> bytes padding
         then (length_add (e_new_end edit) (length_sub padding (e_old_end edit)), sz)
         else if bytes (e_start edit) < bytes padding
         then (e_new_end edit, length_saturating_sub sz (length_sub (e_old_end edit) padding))
         else if bytes (e_start edit) < bytes total_size \<or> bytes (e_start edit) = bytes total_size \<and> is_pure_insertion
         then (padding, length_add (length_sub (e_new_end edit) padding) (length_saturating_sub total_size (e_old_end edit)))
         else (padding, sz))"

text \<open>
  The node with its new extent, marked as changed. A leaf that no longer fits the inline form moves to memory from the
  pool, of which not all fields are set: \<open>old\<close> is what that memory held.
\<close>

fun resize :: "SubtreeHeapData \<Rightarrow> Length \<Rightarrow> Length \<Rightarrow> Subtree \<Rightarrow> Subtree" where
  "resize old padding sz (Inline d) =
     (if ts_subtree_can_inline padding sz (ucast (in_lookahead_bytes d))
      then Inline (d\<lparr>in_padding_bytes := ucast (bytes padding), in_padding_rows := ucast (row (extent padding)),
             in_padding_columns := ucast (column (extent padding)), in_size_bytes := ucast (bytes sz),
             in_has_changes := True\<rparr>)
      else Ptr (old\<lparr>ref_count := 1, h_padding := padding, h_size := sz, h_lookahead_bytes := ucast (in_lookahead_bytes d),
             error_cost := 0, h_symbol := ucast (in_symbol d), h_parse_state := in_parse_state d,
             h_visible := in_visible d, h_named := in_named d, h_extra := in_extra d, fragile_left := False,
             fragile_right := False, h_has_changes := True, has_external_tokens := False, depends_on_column := False,
             h_is_missing := in_is_missing d, h_is_keyword := in_is_keyword d\<rparr>) [])"
| "resize old padding sz (Ptr h cs) =
     Ptr (h\<lparr>ref_count := 1, h_padding := padding, h_size := sz, h_has_changes := True\<rparr>) cs"

text \<open>
  The loop over the children: for each the edit in its own coordinates, or \<open>None\<close> where it is not edited. The
  insertion goes to the first child that touches the edit. \<open>row0\<close> is the row in which the padding of the parent ends.
\<close>

fun child_edits :: "bool \<Rightarrow> bool \<Rightarrow> bool \<Rightarrow> u32 \<Rightarrow> nat \<Rightarrow> Edit \<Rightarrow> Length \<Rightarrow> Subtree list \<Rightarrow> Edit option list" where
  "child_edits pure dep shifted row0 i edit child_left [] = []"
| "child_edits pure dep shifted row0 i edit child_left (child # cs) =
     (let child_size = ts_subtree_total_size child;
          child_right = length_add child_left child_size
      in if bytes child_right + ts_subtree_lookahead_bytes child < bytes (e_start edit)
         then None # child_edits pure dep shifted row0 (i + 1) edit child_right cs
         else if (bytes child_left > bytes (e_old_end edit) \<or>
                  bytes child_left = bytes (e_old_end edit) \<and> bytes child_size > 0 \<and> i > 0) \<and>
                 (\<not> dep \<or> row (extent child_left) > row0) \<and>
                 (\<not> ts_subtree_depends_on_column child \<or> \<not> shifted \<or>
                  row (extent child_left) > row (extent (e_old_end edit)))
         then map (\<lambda>_. None) (child # cs)
         else
           (let child_edit = \<lparr>e_start = length_saturating_sub (e_start edit) child_left,
                  e_old_end = length_saturating_sub (e_old_end edit) child_left,
                  e_new_end = length_saturating_sub (e_new_end edit) child_left\<rparr>
            in if bytes child_right > bytes (e_start edit) \<or> bytes child_right = bytes (e_start edit) \<and> pure
               then Some child_edit #
                      child_edits pure dep shifted row0 (i + 1) (edit\<lparr>e_new_end := e_start edit\<rparr>) child_right cs
               else Some (child_edit\<lparr>e_old_end := e_start child_edit, e_new_end := e_start child_edit\<rparr>) #
                      child_edits pure dep shifted row0 (i + 1) edit child_right cs))"

fun set_children :: "Subtree \<Rightarrow> Subtree list \<Rightarrow> Subtree" where
  "set_children (Inline d) cs = Inline d"
| "set_children (Ptr h _) cs = Ptr h cs"

definition is_untouched :: "Edit \<Rightarrow> Subtree \<Rightarrow> bool" where
  "is_untouched edit t \<longleftrightarrow>
     (let is_noop = (bytes (e_old_end edit) = bytes (e_start edit) \<and> bytes (e_new_end edit) = bytes (e_start edit));
          end_byte = ts_subtree_total_bytes t + ts_subtree_lookahead_bytes t
      in bytes (e_start edit) > end_byte \<or> is_noop \<and> bytes (e_start edit) = end_byte)"

definition edits_of_children :: "Edit \<Rightarrow> Subtree \<Rightarrow> Edit option list" where
  "edits_of_children edit t =
     child_edits (bytes (e_old_end edit) = bytes (e_start edit)) (ts_subtree_depends_on_column t)
       (column (extent (e_new_end edit)) \<noteq> column (extent (e_old_end edit)))
       (row (extent (fst (edit_extent edit (ts_subtree_padding t) (ts_subtree_size t))))) 0 edit length_zero
       (ts_subtree_children t)"

text \<open>
  The stack of the code holds references to nodes that are still to be edited; no two of them overlap, so the
  order does not matter, and the model edits a node and then its children.
\<close>

function edit_tree :: "SubtreeHeapData \<Rightarrow> Edit \<Rightarrow> Subtree \<Rightarrow> Subtree" where
  "edit_tree old edit t =
     (if is_untouched edit t then t
      else
        (let (padding, sz) = edit_extent edit (ts_subtree_padding t) (ts_subtree_size t)
         in set_children (resize old padding sz t)
              (map (\<lambda>(e, c). case e of None \<Rightarrow> c | Some e \<Rightarrow> edit_tree old e c)
                (zip (edits_of_children edit t) (ts_subtree_children t)))))"
  by pat_completeness auto
termination
proof (relation "measure (\<lambda>(old, e, t). size t)", goal_cases)
  case (2 old edit t p padding sz q e c e')
  then have "c \<in> set (ts_subtree_children t)" by (auto dest: set_zip_rightD)
  then show ?case using size_child by simp
qed simp

declare edit_tree.simps [simp del]

definition ts_subtree_edit :: "SubtreeHeapData \<Rightarrow> Subtree \<Rightarrow> TSInputEdit \<Rightarrow> Subtree" where
  "ts_subtree_edit old self input_edit =
     edit_tree old
       \<lparr>e_start = \<lparr>bytes = edit_start_byte input_edit, extent = edit_start_point input_edit\<rparr>,
        e_old_end = \<lparr>bytes = old_end_byte input_edit, extent = old_end_point input_edit\<rparr>,
        e_new_end = \<lparr>bytes = new_end_byte input_edit, extent = new_end_point input_edit\<rparr>\<rparr> self"

section \<open>External tokens\<close>

text \<open>
  The walk to the last token from an external scanner. Where no child has such a token, the loop of the source
  does not end, which is the result \<open>None\<close>.
\<close>

function last_external :: "Subtree \<Rightarrow> Subtree option" where
  "last_external t =
     (if ts_subtree_children t = [] then Some t
      else case List.find ts_subtree_has_external_tokens (rev (ts_subtree_children t)) of
             None \<Rightarrow> None
           | Some c \<Rightarrow> last_external c)"
  by pat_completeness auto
termination
proof (relation "measure size", goal_cases)
  case (2 t c)
  then have "c \<in> set (ts_subtree_children t)" by (auto simp: find_Some_iff) (metis length_rev nth_mem set_rev)
  then show ?case using size_child by simp
qed simp

declare last_external.simps [simp del]

text \<open>The inner option is the null tree.\<close>

definition ts_subtree_last_external_token :: "Subtree \<Rightarrow> Subtree option option" where
  "ts_subtree_last_external_token t =
     (if \<not> ts_subtree_has_external_tokens t then Some None else map_option Some (last_external t))"
end
