(* ===== verification/Subtree_Text.thy ===== *)
theory Subtree_Text
  imports Subtree
begin

text \<open>
  Trees and texts. A tree spans a text if the padding and the size of each node measure the white space in front of it
  and its own text, and the texts of the children, put together, are that of their parent. New leaves and nodes span
  the text they are made for, and \<open>ts_subtree_edit\<close> turns a tree that spans a text into one that spans the
  edited text.
\<close>

section \<open>The specification\<close>

text \<open>
  \<open>measured M t w\<close>: the node \<open>t\<close> is as long as \<open>w\<close>, and ends with its lookahead at most \<open>M\<close> bytes from its start.
\<close>

definition measured :: "nat \<Rightarrow> Subtree \<Rightarrow> u8 list \<Rightarrow> bool" where
  "measured M t w \<longleftrightarrow>
     (let k = unat (bytes (ts_subtree_padding t))
      in k \<le> length w \<and> ts_subtree_padding t = length_of (take k w) \<and> ts_subtree_size t = length_of (drop k w) \<and>
         length w + unat (ts_subtree_lookahead_bytes t) \<le> M)"

fun spans :: "nat \<Rightarrow> Subtree \<Rightarrow> u8 list \<Rightarrow> bool"
and spans_list :: "nat \<Rightarrow> Subtree list \<Rightarrow> u8 list \<Rightarrow> bool" where
  "spans M (Inline d) w = measured M (Inline d) w"
| "spans M (Ptr h cs) w =
     (measured M (Ptr h cs) w \<and>
      (cs = [] \<or> bytes (ts_subtree_padding (hd cs)) = bytes (h_padding h) \<and> spans_list M cs w))"
| "spans_list M [] w = (w = [])"
| "spans_list M (c # cs) w =
     (let k = unat (ts_subtree_total_bytes c) in spans M c (take k w) \<and> spans_list M cs (drop k w))"

lemma spans_measured: "spans M t w \<Longrightarrow> measured M t w"
  by (cases t) simp_all

lemma measured_total:
  assumes "measured M t w" and "M < 2 ^ 32"
  shows "ts_subtree_total_size t = length_of w" "unat (ts_subtree_total_bytes t) = length w"
proof -
  define k where "k = unat (bytes (ts_subtree_padding t))"
  have "length w < 2 ^ 32" "length (drop k w) < 2 ^ 32"
    using assms by (auto simp: measured_def Let_def)
  with assms(1) show "ts_subtree_total_size t = length_of w"
    using length_of_append [of "drop k w" "take k w"]
    by (auto simp: measured_def Let_def ts_subtree_total_size_def k_def)
  with \<open>length w < 2 ^ 32\<close> show "unat (ts_subtree_total_bytes t) = length w"
    by (simp add: ts_subtree_total_bytes_def)
qed

lemma spans_list_Cons:
  assumes "M < 2 ^ 32"
  shows "spans_list M (c # cs) w \<longleftrightarrow> (\<exists>u v. w = u @ v \<and> spans M c u \<and> spans_list M cs v)"
proof
  assume "\<exists>u v. w = u @ v \<and> spans M c u \<and> spans_list M cs v"
  then show "spans_list M (c # cs) w"
    using measured_total(2) [OF spans_measured assms] by (auto simp: Let_def)
qed (auto simp: Let_def intro: append_take_drop_id [symmetric])

lemma measured_mono: "measured M t w \<Longrightarrow> M \<le> M' \<Longrightarrow> measured M' t w"
  by (auto simp: measured_def Let_def)

lemma spans_mono:
  "spans M t w \<Longrightarrow> M \<le> M' \<Longrightarrow> spans M' t w"
  "spans_list M cs w \<Longrightarrow> M \<le> M' \<Longrightarrow> spans_list M' cs w"
  by (induction M t w and M cs w rule: spans_spans_list.induct) (auto simp: Let_def measured_mono)

section \<open>Editing texts\<close>

text \<open>
  What remains of \<open>u\<close>, which may be only the first part of the text, when the bytes from \<open>s\<close> to \<open>e\<close> are replaced; the new
  text belongs to \<open>u\<close> if the edit touches it.
\<close>

definition spliced :: "u8 list \<Rightarrow> nat \<Rightarrow> nat \<Rightarrow> u8 list \<Rightarrow> u8 list" where
  "spliced u s e new = take s u @ (if s < length u \<or> s = length u \<and> e = s then new else []) @ drop e u"

definition edit_at :: "Edit \<Rightarrow> u8 list \<Rightarrow> nat \<Rightarrow> nat \<Rightarrow> u8 list \<Rightarrow> bool" where
  "edit_at edit w s e new \<longleftrightarrow> s \<le> e \<and> e \<le> length w \<and> length w + length new < 2 ^ 32 \<and>
     e_start edit = length_of (take s w) \<and> e_old_end edit = length_of (take e w) \<and>
     e_new_end edit = length_of (take s w @ new)"

lemma splice_id [simp]: "spliced u s s [] = u"
  by (simp add: spliced_def)

lemma splice_behind: "length u < s \<Longrightarrow> s \<le> e \<Longrightarrow> spliced u s e new = u"
  by (simp add: spliced_def)

lemma length_splice: "s \<le> e \<Longrightarrow> length (spliced u s e new) \<le> length u + length new"
  by (auto simp: spliced_def)

lemma splice_append:
  assumes "s \<le> e" and "new = [] \<or> s < length u \<or> s = length u \<and> e = s"
  shows "spliced (u @ v) s e new = spliced u s e new @ spliced v (s - length u) (e - length u) []"
  using assms by (auto simp: spliced_def)

lemma splice_skip:
  assumes "s \<le> e" and "length u < s \<or> length u = s \<and> s < e"
  shows "spliced (u @ v) s e new = u @ spliced v (s - length u) (e - length u) new"
  using assms by (auto simp: spliced_def)

lemma sat_sub_length_of:
  assumes "length (a @ b) < 2 ^ 32"
  shows "length_saturating_sub (length_of (a @ b)) (length_of a) = length_of b"
    "length_saturating_sub (length_of a) (length_of (a @ b)) = length_zero"
proof -
  have "bytes (length_of (a @ b)) > bytes (length_of a) \<longleftrightarrow> b \<noteq> []"
    "\<not> bytes (length_of a) > bytes (length_of (a @ b))"
    using assms by (auto simp: of_nat_u32_less simp del: of_nat_add simp flip: of_nat_add)
  then show "length_saturating_sub (length_of (a @ b)) (length_of a) = length_of b"
    "length_saturating_sub (length_of a) (length_of (a @ b)) = length_zero"
    using length_sub_length_of [OF assms] by (auto simp: length_saturating_sub_def)
qed

lemma sat_sub_take:
  assumes "length w < 2 ^ 32" and "i \<le> length w"
  shows "length_saturating_sub (length_of (take i w)) (length_of (take j w)) = length_of (take (i - j) (drop j w))"
proof (cases "j \<le> i")
  case True
  then have "take i w = take j w @ take (i - j) (drop j w)"
    by (metis append_take_drop_id drop_take min.absorb1 take_take)
  then show ?thesis using sat_sub_length_of(1) [of "take j w" "take (i - j) (drop j w)"] assms by auto
next
  case False
  then have "take j w = take i w @ take (j - i) (drop i w)"
    by (metis append_take_drop_id drop_take min.absorb1 nat_le_linear take_take)
  then show ?thesis using False sat_sub_length_of(2) [of "take i w" "take (j - i) (drop i w)"] assms by auto
qed

text \<open>The edit in the coordinates of a child that starts behind \<open>a\<close>.\<close>

lemma edit_at_child:
  assumes "edit_at edit (a @ w) s e new" and "new = [] \<or> length a \<le> s"
  shows "edit_at \<lparr>e_start = length_saturating_sub (e_start edit) (length_of a),
      e_old_end = length_saturating_sub (e_old_end edit) (length_of a),
      e_new_end = length_saturating_sub (e_new_end edit) (length_of a)\<rparr> w (s - length a) (e - length a) new"
proof -
  have a: "length_of a = length_of (take (length a) (a @ w))" by simp
  have "length_saturating_sub (length_of (take s (a @ w) @ new)) (length_of a) = length_of (take (s - length a) w @ new)"
  proof (cases "length a \<le> s")
    case True
    then show ?thesis
      using sat_sub_length_of(1) [of a "take (s - length a) w @ new"] assms(1) by (auto simp: edit_at_def)
  next
    case False
    with assms sat_sub_take [of "a @ w" s "length a"] show ?thesis by (auto simp: edit_at_def)
  qed
  with assms sat_sub_take [of "a @ w" s "length a"] sat_sub_take [of "a @ w" e "length a"] show ?thesis
    by (auto simp: edit_at_def)
qed

section \<open>Editing a node\<close>

text \<open>How long the padding is after the edit.\<close>

definition new_padding :: "nat \<Rightarrow> nat \<Rightarrow> nat \<Rightarrow> nat \<Rightarrow> nat" where
  "new_padding k s e n = (if e \<le> k then s + n + (k - e) else if s < k then s + n else k)"

lemma edit_at_bytes:
  assumes "edit_at edit w s e new"
  shows "unat (bytes (e_start edit)) = s" "unat (bytes (e_old_end edit)) = e"
    "unat (bytes (e_new_end edit)) = s + length new"
  using assms by (auto simp: edit_at_def simp flip: of_nat_add)

lemma take_length_of_split:
  assumes "length w < 2 ^ 32" "i \<le> j" "j \<le> length w"
  shows "length_sub (length_of (take j w)) (length_of (take i w)) = length_of (take (j - i) (drop i w))"
proof -
  have "take j w = take i w @ take (j - i) (drop i w)"
    using assms(2) by (metis append_take_drop_id drop_take min.absorb1 take_take)
  then show ?thesis using length_sub_length_of [of "take i w" "take (j - i) (drop i w)"] assms by auto
qed

lemma edit_extent_measured:
  assumes m: "k \<le> length u" "length u < 2 ^ 32" and e: "edit_at edit (u @ z) s e new"
  shows "edit_extent edit (length_of (take k u)) (length_of (drop k u)) =
    (length_of (take (new_padding k s e (length new)) (spliced u s e new)),
     length_of (drop (new_padding k s e (length new)) (spliced u s e new)))"
proof -
  let ?w = "u @ z"
  have b: "unat (bytes (length_of (take k u))) = k" "unat (bytes (length_of u)) = length u"
    using m by simp_all
  have w: "length ?w + length new < 2 ^ 32" "s \<le> e" "e \<le> length ?w" using e by (simp_all add: edit_at_def)
  have total: "length_add (length_of (take k u)) (length_of (drop k u)) = length_of u"
    using length_of_append [of "drop k u" "take k u"] m by simp
  have old: "length_saturating_sub (length_of (take (length u) ?w)) (length_of (take e ?w)) = length_of (drop e u)"
    using sat_sub_take [of ?w "length u" e] w by simp
  have extent: "edit_extent edit (length_of (take k u)) (length_of (drop k u)) =
    (if e \<le> k then (length_add (e_new_end edit) (length_sub (length_of (take k u)) (e_old_end edit)), length_of (drop k u))
     else if s < k then (e_new_end edit, length_saturating_sub (length_of (drop k u)) (length_sub (e_old_end edit) (length_of (take k u))))
     else if s < length u \<or> s = length u \<and> e = s
     then (length_of (take k u), length_add (length_sub (e_new_end edit) (length_of (take k u)))
            (length_saturating_sub (length_of u) (e_old_end edit)))
     else (length_of (take k u), length_of (drop k u)))"
    unfolding edit_extent_def Let_def total word_le_nat_alt word_less_nat_alt word_unat_eq_iff edit_at_bytes [OF e] b ..
  have edit: "e_old_end edit = length_of (take e ?w)" "e_new_end edit = length_of (take s ?w @ new)"
    using e by (simp_all add: edit_at_def)
  consider "e \<le> k" | "s < k" "k < e" | "k \<le> s" "\<not> e \<le> k" "s < length u \<or> s = length u \<and> e = s"
    | "k \<le> s" "\<not> e \<le> k" "length u < s \<or> s = length u \<and> s < e" using w by linarith
  then show ?thesis
  proof cases
    case 1
    with m w have "length_sub (length_of (take k u)) (length_of (take e ?w)) = length_of (take (k - e) (drop e u))"
      using take_length_of_split [of u e k] by simp
    with 1 m w show ?thesis
      using length_of_append [of "take (k - e) (drop e u)" "take s u @ new"]
      by (auto simp: extent edit new_padding_def spliced_def)
  next
    case 2
    have "length_sub (length_of (take e ?w)) (length_of (take k u)) = length_of (take (e - k) (drop k ?w))"
      using take_length_of_split [of ?w k e] w m 2 by simp
    moreover have "length_saturating_sub (length_of (drop k u)) (length_of (take (e - k) (drop k ?w))) = length_of (drop e u)"
      using sat_sub_take [of "drop k ?w" "length u - k" "e - k"] w m 2 by simp
    ultimately show ?thesis using 2 m w
      by (auto simp: extent edit new_padding_def spliced_def)
  next
    case 3
    then have "take s ?w = take k u @ take (s - k) (drop k u)"
      by (auto simp: drop_take [symmetric]) (metis append_take_drop_id min.absorb1 take_take)
    then have "length_sub (length_of (take s ?w @ new)) (length_of (take k u)) = length_of (take (s - k) (drop k u) @ new)"
      using length_sub_length_of [of "take k u" "take (s - k) (drop k u) @ new"] w m by simp
    with 3 m w old show ?thesis
      using length_of_append [of "drop e u" "take (s - k) (drop k u) @ new"]
      by (auto simp: extent edit new_padding_def spliced_def drop_take)
  next
    case 4
    with m w show ?thesis
      by (auto simp: extent edit new_padding_def spliced_def)
  qed
qed


text \<open>A node with its new extent.\<close>

lemma ts_subtree_lookahead_resize [simp]:
  "ts_subtree_lookahead_bytes (resize old P S t) = ts_subtree_lookahead_bytes t"
  by (cases t) auto

lemma ts_subtree_children_resize [simp]: "ts_subtree_children (resize old P S t) = ts_subtree_children t"
  by (cases t) auto

lemma ucast_small: "x < 255 \<Longrightarrow> ucast (ucast (x :: u32) :: u8) = x" "x < 16 \<Longrightarrow> ucast (ucast (x :: u32) :: 4 word) = x"
  by (simp_all add: word_less_nat_alt word_unat_eq_iff unsigned_ucast_eq unsigned_take_bit_eq take_bit_nat_eq_self)

lemma inline_size:
  assumes "row (extent (length_of w)) = 0" and "length w < 2 ^ 32"
  shows "extent (length_of w) = Point 0 (of_nat (length w))"
  using assms newlines_le_length [of w] tail_column_no_newline [of w]
  by (simp add: length_of_def of_nat_u32_eq_0)

lemma resize_extent:
  assumes "length x < 2 ^ 32"
  shows "ts_subtree_padding (resize old P (length_of x) t) = P" "ts_subtree_size (resize old P (length_of x) t) = length_of x"
proof -
  have "ts_subtree_padding (resize old P (length_of x) t) = P \<and> ts_subtree_size (resize old P (length_of x) t) = length_of x"
  proof (cases t)
    case (Inline d)
    show ?thesis
    proof (cases "ts_subtree_can_inline P (length_of x) (ucast (in_lookahead_bytes d))")
      case True
      with Inline inline_size [OF _ assms] show ?thesis
        by (cases P; cases "extent P") (simp add: ts_subtree_can_inline_def ucast_small length_of_def)
    qed (simp add: Inline)
  qed simp
  then show "ts_subtree_padding (resize old P (length_of x) t) = P" "ts_subtree_size (resize old P (length_of x) t) = length_of x"
    by simp_all
qed

lemma new_padding_le:
  "k \<le> length u \<Longrightarrow> s \<le> e \<Longrightarrow> new_padding k s e (length new) \<le> length (spliced u s e new)"
  by (auto simp: new_padding_def spliced_def)

text \<open>\<open>padded k t\<close>: the padding of \<open>t\<close> is \<open>k\<close> bytes long.\<close>

abbreviation padded :: "nat \<Rightarrow> Subtree \<Rightarrow> bool" where
  "padded k t \<equiv> unat (bytes (ts_subtree_padding t)) = k"

definition resized :: "SubtreeHeapData \<Rightarrow> Edit \<Rightarrow> Subtree \<Rightarrow> Subtree" where
  "resized old edit t = (let (P, S) = edit_extent edit (ts_subtree_padding t) (ts_subtree_size t) in resize old P S t)"

lemma resized_measured:
  assumes m: "measured M t u" and k: "padded k t" and e: "edit_at edit (u @ z) s e new" and M: "M + length new < 2 ^ 32"
  shows "measured (M + length new) (resized old edit t) (spliced u s e new)"
    "padded (new_padding k s e (length new)) (resized old edit t)"
proof -
  let ?u = "spliced u s e new" and ?k = "new_padding k s e (length new)"
  have k': "k \<le> length u" "ts_subtree_padding t = length_of (take k u)" "ts_subtree_size t = length_of (drop k u)"
    "length u + unat (ts_subtree_lookahead_bytes t) \<le> M" using m k by (simp_all add: measured_def Let_def)
  have s: "s \<le> e" using e by (simp add: edit_at_def)
  have len: "length ?u \<le> length u + length new" by (rule length_splice [OF s])
  have r: "resized old edit t = resize old (length_of (take ?k ?u)) (length_of (drop ?k ?u)) t"
    using edit_extent_measured [OF k'(1) _ e] k' M by (simp add: resized_def)
  have le: "?k \<le> length ?u" by (rule new_padding_le [OF k'(1) s])
  then have "length (drop ?k ?u) < 2 ^ 32" "unat (of_nat ?k :: u32) = ?k" using len k' M by simp_all
  with le len k' show "measured (M + length new) (resized old edit t) ?u" "padded ?k (resized old edit t)"
    by (auto simp: r resize_extent measured_def Let_def)
qed

lemma set_children_reads [simp]:
  "ts_subtree_padding (set_children t cs) = ts_subtree_padding t" "ts_subtree_size (set_children t cs) = ts_subtree_size t"
  "ts_subtree_lookahead_bytes (set_children t cs) = ts_subtree_lookahead_bytes t"
  "measured M (set_children t cs) w = measured M t w"
  by (cases t; simp add: measured_def)+

lemma untouched_splice:
  assumes "measured M t u" "edit_at edit (u @ z) s e new" "M < 2 ^ 32" "is_untouched edit t"
  shows "spliced u s e new = u" "padded k t \<Longrightarrow> new_padding k s e (length new) = k"
proof -
  have "unat (ts_subtree_total_bytes t + ts_subtree_lookahead_bytes t) = length u + unat (ts_subtree_lookahead_bytes t)"
    using measured_total(2) [OF assms(1,3)] assms(1,3) by (simp add: unat_add_u32 measured_def Let_def)
  with assms(4) have "length u < s \<or> new = [] \<and> e = s"
    by (auto simp: is_untouched_def Let_def word_less_nat_alt word_unat_eq_iff edit_at_bytes [OF assms(2)])
  moreover have "s \<le> e" using assms(2) by (simp add: edit_at_def)
  ultimately show "spliced u s e new = u" "padded k t \<Longrightarrow> new_padding k s e (length new) = k"
    using assms(1) by (auto simp: splice_behind new_padding_def measured_def Let_def)
qed

section \<open>Editing the children\<close>

fun apply_edit :: "SubtreeHeapData \<Rightarrow> Edit option \<Rightarrow> Subtree \<Rightarrow> Subtree" where
  "apply_edit old None t = t"
| "apply_edit old (Some edit) t = edit_tree old edit t"

definition edit_all :: "SubtreeHeapData \<Rightarrow> Edit option list \<Rightarrow> Subtree list \<Rightarrow> Subtree list" where
  "edit_all old es cs = map2 (apply_edit old) es cs"

lemma edit_tree_unfold:
  "edit_tree old edit t =
     (if is_untouched edit t then t
      else set_children (resized old edit t) (edit_all old (edits_of_children edit t) (ts_subtree_children t)))"
proof -
  have "(case e of None \<Rightarrow> c | Some e \<Rightarrow> edit_tree old e c) = apply_edit old e c" for e c by (cases e) simp_all
  then show ?thesis
    by (subst edit_tree.simps) (simp add: resized_def edit_all_def split_beta)
qed

lemma edit_all_simps [simp]:
  "edit_all old (x # xs) (c # cs) = apply_edit old x c # edit_all old xs cs" "edit_all old [] cs = []"
  "edit_all old xs [] = []" "edit_all old (map (\<lambda>_. None) cs) cs = cs"
  by (simp_all add: edit_all_def) (induction cs, simp_all)

lemma edit_tree_padded:
  assumes "measured M t u" "padded k t" "edit_at edit (u @ z) s e new" "M + length new < 2 ^ 32"
  shows "padded (new_padding k s e (length new)) (edit_tree old edit t)"
  using untouched_splice(2) [OF assms(1,3)] resized_measured(2) [OF assms] assms(2,4)
  by (simp add: edit_tree_unfold)

lemma edit_at_delivered: "edit_at edit w s e new \<Longrightarrow> edit_at (edit\<lparr>e_new_end := e_start edit\<rparr>) w s e []"
  by (simp add: edit_at_def)

lemma edit_at_noop:
  "edit_at edit w s e new \<Longrightarrow> edit_at (edit\<lparr>e_old_end := e_start edit, e_new_end := e_start edit\<rparr>) w s s []"
  by (simp add: edit_at_def)

declare child_edits.simps(2) [simp del]

text \<open>The branches of the loop, by the positions in the text.\<close>

definition to_child :: "Edit \<Rightarrow> Length \<Rightarrow> Edit" where
  "to_child edit l = \<lparr>e_start = length_saturating_sub (e_start edit) l, e_old_end = length_saturating_sub (e_old_end edit) l,
     e_new_end = length_saturating_sub (e_new_end edit) l\<rparr>"

lemma child_edits_step:
  assumes c: "measured M c u" and e: "edit_at edit (a @ u @ z) s e new" and M: "M < 2 ^ 32" "length a + M < 2 ^ 32"
  obtains (before) "length a + length u < s"
      "child_edits pure dep shifted row0 i edit (length_of a) (c # cs) =
       None # child_edits pure dep shifted row0 (i + 1) edit (length_of (a @ u)) cs"
      "length a + length u + unat (ts_subtree_lookahead_bytes c) < s"
    | (behind) "e < length a \<or> e = length a \<and> 0 < length u \<and> 0 < i"
      "child_edits pure dep shifted row0 i edit (length_of a) (c # cs) = map (\<lambda>_. None) (c # cs)"
    | (inside) "s < length a + length u \<or> s = length a + length u \<and> pure"
      "child_edits pure dep shifted row0 i edit (length_of a) (c # cs) =
       Some (to_child edit (length_of a)) #
         child_edits pure dep shifted row0 (i + 1) (edit\<lparr>e_new_end := e_start edit\<rparr>) (length_of (a @ u)) cs"
    | (touching) "length a + length u < s \<or> length a + length u = s \<and> \<not> pure"
      "child_edits pure dep shifted row0 i edit (length_of a) (c # cs) =
       Some (to_child edit (length_of a)\<lparr>e_old_end := e_start (to_child edit (length_of a)),
               e_new_end := e_start (to_child edit (length_of a))\<rparr>) #
         child_edits pure dep shifted row0 (i + 1) edit (length_of (a @ u)) cs"
proof -
  have la: "length u + unat (ts_subtree_lookahead_bytes c) \<le> M" using c by (simp add: measured_def Let_def)
  have right: "length_add (length_of a) (length_of u) = length_of (a @ u)"
    using length_of_append [of u a] la M by simp
  have b: "unat (bytes (length_of a)) = length a" "unat (bytes (length_of (a @ u))) = length a + length u"
    "unat (bytes (length_of u)) = length u"
    "unat (bytes (length_of (a @ u)) + ts_subtree_lookahead_bytes c) = length a + length u + unat (ts_subtree_lookahead_bytes c)"
    using la M by (simp_all add: unat_add_u32 flip: of_nat_add)
  note nat = word_less_nat_alt word_unat_eq_iff edit_at_bytes [OF e] b unat_0
  define far where "far \<longleftrightarrow> (\<not> dep \<or> row (extent (length_of a)) > row0) \<and> (\<not> ts_subtree_depends_on_column c \<or> \<not> shifted \<or>
                  row (extent (length_of a)) > row (extent (e_old_end edit)))"
  have step: "child_edits pure dep shifted row0 i edit (length_of a) (c # cs) =
     (if length a + length u + unat (ts_subtree_lookahead_bytes c) < s
      then None # child_edits pure dep shifted row0 (i + 1) edit (length_of (a @ u)) cs
      else if (e < length a \<or> length a = e \<and> 0 < length u \<and> 0 < i) \<and> far
      then map (\<lambda>_. None) (c # cs)
      else if s < length a + length u \<or> length a + length u = s \<and> pure
      then Some (to_child edit (length_of a)) #
         child_edits pure dep shifted row0 (i + 1) (edit\<lparr>e_new_end := e_start edit\<rparr>) (length_of (a @ u)) cs
      else Some (to_child edit (length_of a)\<lparr>e_old_end := e_start (to_child edit (length_of a)),
               e_new_end := e_start (to_child edit (length_of a))\<rparr>) #
         child_edits pure dep shifted row0 (i + 1) edit (length_of (a @ u)) cs)"
    unfolding child_edits.simps Let_def measured_total(1) [OF c M(1)] right to_child_def [symmetric] nat far_def
    by (simp only: conj_assoc)
  let ?l = "length a + length u + unat (ts_subtree_lookahead_bytes c)"
  let ?b = "(e < length a \<or> length a = e \<and> 0 < length u \<and> 0 < i) \<and> far"
  let ?i = "s < length a + length u \<or> length a + length u = s \<and> pure"
  consider "?l < s" | "\<not> ?l < s" ?b | "\<not> ?l < s" "\<not> ?b" ?i | "\<not> ?l < s" "\<not> ?b" "\<not> ?i" by blast
  then show thesis
  proof cases
    case 1 show thesis by (rule before) (use 1 step in auto)
  next
    case 2 show thesis by (rule behind) (use 2 step in auto)
  next
    case 3 show thesis by (rule inside) (use 3 step in auto)
  next
    case 4 show thesis by (rule touching) (use 4 step in auto)
  qed
qed

text \<open>
  \<open>pending\<close>: the new text has not been given to a child yet, and can still be given to the child that starts at \<open>l\<close>.
\<close>

definition pending :: "u8 list \<Rightarrow> nat \<Rightarrow> nat \<Rightarrow> nat \<Rightarrow> bool \<Rightarrow> bool" where
  "pending new l s e first \<longleftrightarrow> new = [] \<or> l < s \<or> l = s \<and> (first \<or> s < e)"

lemma edit_all_spans:
  assumes "\<And>c edit s e new M u z. c \<in> set cs \<Longrightarrow> spans M c u \<Longrightarrow> edit_at edit (u @ z) s e new \<Longrightarrow>
      2 * (M + length new) < 2 ^ 32 \<Longrightarrow> spans (M + length new) (edit_tree old edit c) (spliced u s e new)"
    and "spans_list M cs v" and "edit_at edit (a @ v @ z) s e new" and "2 * (M + length new) < 2 ^ 32"
    and "length (a @ v) \<le> M" and "pure \<longleftrightarrow> e = s" and "pending new (length a) s e (i = 0 \<and> cs \<noteq> [])"
  shows "spans_list (M + length new) (edit_all old (child_edits pure dep shifted row0 i edit (length_of a) cs) cs)
    (spliced v (s - length a) (e - length a) new)"
  using assms
proof (induction cs arbitrary: v a i edit new)
  case Nil
  then show ?case by (auto simp: spliced_def pending_def)
next
  case (Cons c cs)
  let ?s = "s - length a" and ?e = "e - length a"
  have M: "M < 2 ^ 32" "M + length new < 2 ^ 32" using Cons.prems(4) by simp_all
  from Cons.prems(2) obtain u v' where v: "v = u @ v'" "spans M c u" "spans_list M cs v'"
    using spans_list_Cons [OF M(1)] by blast
  have e: "edit_at edit (a @ u @ v' @ z) s e new" "s \<le> e" using Cons.prems(3) v by (simp_all add: edit_at_def)
  have aM: "length a + M < 2 ^ 32" using Cons.prems(4,5) by simp
  have IH: "spans_list (M + length n) (edit_all old (child_edits pure dep shifted row0 (i + 1) ed (length_of (a @ u)) cs) cs)
      (spliced v' (?s - length u) (?e - length u) n)"
    if "edit_at ed (a @ u @ v' @ z) s e n" "length n \<le> length new" "pending n (length (a @ u)) s e False" for ed n
    using Cons.IH [of v' ed "a @ u" n "i + 1"] Cons.prems v that by (simp add: ac_simps)
  have child: "edit_at (to_child edit (length_of a)) (u @ v' @ z) ?s ?e new" if "new = [] \<or> length a \<le> s"
    using edit_at_child [OF _ that] e by (simp add: to_child_def)
  have c: "spans (M + length n) (edit_tree old ed c) (spliced u k l n)"
    if "edit_at ed (u @ v' @ z) k l n" "length n \<le> length new" for ed k l n
    using Cons.prems(1) [of c M u ed "v' @ z" k l n] that v Cons.prems(4) by simp
  have le: "new = [] \<or> length a \<le> s" using Cons.prems(7) by (auto simp: pending_def)
  show ?case
  proof (cases rule: child_edits_step [OF spans_measured [OF v(2)] e(1) M(1) aM, of pure dep shifted row0 i cs,
        case_names before behind inside touching])
    case before
    then have "spliced v ?s ?e new = u @ spliced v' (?s - length u) (?e - length u) new"
      using e(2) unfolding v by (intro splice_skip) auto
    with before IH [OF e(1)] v spans_mono(1) [OF v(2), of "M + length new"] show ?thesis
      by (simp only: edit_all_simps apply_edit.simps spans_list_Cons [OF M(2)]) (auto simp: pending_def)
  next
    case behind
    then have "new = []" using Cons.prems(7) e(2) by (auto simp: pending_def)
    moreover have "?s = 0" "?e = 0" using behind(1) e(2) by auto
    ultimately show ?thesis using behind(2) Cons.prems(2) by (simp only: edit_all_simps) simp
  next
    case inside
    then have "spliced v ?s ?e new = spliced u ?s ?e new @ spliced v' (?s - length u) (?e - length u) []"
      using e(2) le Cons.prems(6,7) unfolding v pending_def by (intro splice_append) auto
    moreover have "spans_list (M + length new) (edit_all old (child_edits pure dep shifted row0 (i + 1)
        (edit\<lparr>e_new_end := e_start edit\<rparr>) (length_of (a @ u)) cs) cs) (spliced v' (?s - length u) (?e - length u) [])"
      using IH [OF edit_at_delivered [OF e(1)]] spans_mono(2) [of M _ _ "M + length new"] by (simp add: pending_def)
    ultimately show ?thesis using inside(2) c [OF child [OF le]]
      by (simp only: edit_all_simps apply_edit.simps spans_list_Cons [OF M(2)]) auto
  next
    case touching
    then have "spliced v ?s ?e new = u @ spliced v' (?s - length u) (?e - length u) new"
      using e(2) le Cons.prems(6,7) unfolding v pending_def by (intro splice_skip) auto
    moreover have "pending new (length (a @ u)) s e False" using touching(1) Cons.prems(6) e(2) by (auto simp: pending_def)
    ultimately show ?thesis
      using touching(2) IH [OF e(1)] c [OF edit_at_noop [OF child [OF le]]] spans_mono(1) [of M _ _ "M + length new"]
      by (simp only: edit_all_simps apply_edit.simps spans_list_Cons [OF M(2)]) auto
  qed
qed

lemma edit_all_first:
  assumes c: "spans M c u" "padded k c" and e: "edit_at edit (u @ z) s e new" and M: "2 * (M + length new) < 2 ^ 32"
    and pure: "pure \<longleftrightarrow> e = s"
  shows "padded (new_padding k s e (length new))
    (hd (edit_all old (child_edits pure dep shifted row0 0 edit length_zero (c # cs)) (c # cs)))"
proof -
  note m = spans_measured [OF c(1)]
  have k: "k \<le> length u" using m c(2) by (simp add: measured_def Let_def)
  have M': "M < 2 ^ 32" "length [] + M < 2 ^ 32" "M + length new < 2 ^ 32" using M by simp_all
  have e0: "edit_at edit ([] @ u @ z) s e new" "s \<le> e" using e by (simp_all add: edit_at_def)
  have child: "edit_at (to_child edit (length_of [])) (u @ z) s e new"
    using edit_at_child [OF e0(1)] by (simp add: to_child_def)
  show ?thesis
  proof (cases rule: child_edits_step [OF m e0(1) M'(1,2), of pure dep shifted row0 0 cs,
        case_names before behind inside touching])
    case before
    then show ?thesis using k c(2) e0(2) by (simp add: new_padding_def)
  next
    case behind
    then show ?thesis by simp
  next
    case inside
    then show ?thesis using edit_tree_padded [OF m c(2) child M'(3)] by simp
  next
    case touching
    then have "new_padding k s e (length new) = k" using k pure e0(2) by (auto simp: new_padding_def)
    moreover have "new_padding k s s 0 = k" by (simp add: new_padding_def)
    ultimately show ?thesis
      using touching(2) edit_tree_padded [OF m c(2) edit_at_noop [OF child]] M'(1) by simp
  qed
qed

lemma spans_iff:
  "spans M t w \<longleftrightarrow> measured M t w \<and> (ts_subtree_children t = [] \<or>
     bytes (ts_subtree_padding (hd (ts_subtree_children t))) = bytes (ts_subtree_padding t) \<and>
     spans_list M (ts_subtree_children t) w)"
  by (cases t) simp_all

lemma length_child_edits: "length (child_edits pure dep shifted row0 i edit l cs) = length cs"
  by (induction cs arbitrary: pure dep shifted row0 i edit l) (simp_all add: child_edits.simps(2) Let_def)

lemma edit_tree_spans:
  assumes "spans M t u" and "edit_at edit (u @ z) s e new" and "2 * (M + length new) < 2 ^ 32"
  shows "spans (M + length new) (edit_tree old edit t) (spliced u s e new)"
  using assms
proof (induction t arbitrary: M u edit z s e new rule: measure_induct_rule [of size])
  case (less t)
  let ?u = "spliced u s e new" and ?M = "M + length new"
  let ?t = "set_children (resized old edit t) (edit_all old (edits_of_children edit t) (ts_subtree_children t))"
  have M: "M < 2 ^ 32" "?M < 2 ^ 32" using less.prems(3) by simp_all
  have m: "measured M t u" using spans_measured [OF less.prems(1)] .
  note r = resized_measured [OF m refl less.prems(2) M(2)]
  show ?case
  proof (cases "is_untouched edit t")
    case True
    with less.prems(1) untouched_splice(1) [OF m less.prems(2) M(1)] show ?thesis
      by (simp add: edit_tree_unfold spans_mono(1) [OF _ le_add1])
  next
    case False
    have "spans ?M ?t ?u"
    proof (cases "ts_subtree_children t")
      case Nil
      moreover have "ts_subtree_children (set_children r []) = []" for r by (cases r) simp_all
      ultimately show ?thesis using r(1) [of old] by (simp add: spans_iff)
    next
      case (Cons c cs)
      then obtain h where t: "t = Ptr h (c # cs)" by (cases t) simp_all
      have pure: "bytes (e_old_end edit) = bytes (e_start edit) \<longleftrightarrow> e = s"
        using edit_at_bytes [OF less.prems(2)] by (auto simp: word_unat_eq_iff)
      have sp: "spans_list M (c # cs) u" and pad: "bytes (ts_subtree_padding c) = bytes (ts_subtree_padding t)"
        using less.prems(1) by (simp_all add: t)
      obtain u1 u2 where u1: "u = u1 @ u2" "spans M c u1" using sp spans_list_Cons [OF M(1)] by blast
      let ?es = "edits_of_children edit t"
      have IH: "spans (M' + length n) (edit_tree old ed c') (spliced u' i j n)" if "c' \<in> set (c # cs)" "spans M' c' u'"
        "edit_at ed (u' @ z') i j n" "2 * (M' + length n) < 2 ^ 32" for c' M' u' ed z' i j n
        by (rule less.IH [OF _ that(2-4)]) (use that(1) size_child [of c' t] in \<open>simp add: t\<close>)
      have "spans_list ?M (edit_all old (child_edits (bytes (e_old_end edit) = bytes (e_start edit)) dep shifted row0 0 edit
          (length_of []) (c # cs)) (c # cs)) (spliced u (s - length ([] :: u8 list)) (e - length ([] :: u8 list)) new)"
        for dep shifted row0
        by (rule edit_all_spans [where z = z], erule (3) IH)
          (use sp less.prems(2,3) m pure in \<open>auto simp: pending_def measured_def Let_def\<close>)
      then have "spans_list ?M (edit_all old ?es (c # cs)) ?u" by (simp add: t edits_of_children_def)
      moreover have "padded (new_padding (unat (bytes (ts_subtree_padding t))) s e (length new)) (hd (edit_all old ?es (c # cs)))"
        using edit_all_first [OF u1(2) refl _ less.prems(3)] less.prems(2) pure pad
        by (simp add: t u1(1) edits_of_children_def)
      moreover have "length ?es = Suc (length cs)" by (simp add: t edits_of_children_def length_child_edits)
      ultimately show ?thesis using r [of old]
        by (simp add: spans_iff t resized_def split_beta word_unat_eq_iff measured_def Let_def)
    qed
    with False show ?thesis by (simp add: edit_tree_unfold)
  qed
qed

section \<open>Marking the nodes that an edit touches\<close>

text \<open>
  \<open>unaffected s e l t\<close>: for the node \<open>t\<close> at the offset \<open>l\<close>, no byte that its text and its lookahead consist of is replaced
  when those from \<open>s\<close> to \<open>e\<close> are; an empty node where the edit ends, which has looked ahead, does not count.
  \<open>edit_marked\<close> compares a tree with the edited one: each node is unchanged and unaffected, or marked, and then the
  same holds of its children.
\<close>

definition unaffected :: "nat \<Rightarrow> nat \<Rightarrow> nat \<Rightarrow> Subtree \<Rightarrow> bool" where
  "unaffected s e l t \<longleftrightarrow>
     (let n = unat (ts_subtree_total_bytes t); la = unat (ts_subtree_lookahead_bytes t)
      in n + la = 0 \<or> l + n + la \<le> s \<or> e < l \<or> e = l \<and> 0 < n)"

fun edit_marked :: "nat \<Rightarrow> nat \<Rightarrow> nat \<Rightarrow> Subtree \<Rightarrow> Subtree \<Rightarrow> bool"
and marked_list :: "nat \<Rightarrow> nat \<Rightarrow> nat \<Rightarrow> Subtree list \<Rightarrow> Subtree list \<Rightarrow> bool" where
  "edit_marked s e l (Inline d) r =
     (r = Inline d \<and> unaffected s e l (Inline d) \<or> ts_subtree_has_changes r \<and> ts_subtree_children r = [])"
| "edit_marked s e l (Ptr h cs) r =
     (r = Ptr h cs \<and> unaffected s e l (Ptr h cs) \<or>
      ts_subtree_has_changes r \<and> marked_list s e l cs (ts_subtree_children r))"
| "marked_list s e l [] rs = (rs = [])"
| "marked_list s e l (c # cs) [] = False"
| "marked_list s e l (c # cs) (r # rs) =
     (edit_marked s e l c r \<and> marked_list s e (l + unat (ts_subtree_total_bytes c)) cs rs)"

lemma edit_marked_iff:
  "edit_marked s e l t r \<longleftrightarrow> r = t \<and> unaffected s e l t \<or>
     ts_subtree_has_changes r \<and> marked_list s e l (ts_subtree_children t) (ts_subtree_children r)"
  by (cases t) simp_all

lemma marked_list_behind: "e < l \<Longrightarrow> marked_list s e l cs cs"
  by (induction cs arbitrary: l) (simp_all add: edit_marked_iff unaffected_def Let_def)

text \<open>The children in front of an edit are edited at a point.\<close>

lemma marked_at_point:
  "edit_marked x y l t r \<Longrightarrow> y = x \<Longrightarrow> spans M t u \<Longrightarrow> M < 2 ^ 32 \<Longrightarrow> l + length u \<le> x \<Longrightarrow>
     x = s \<or> u = [] \<and> x = l \<Longrightarrow> edit_marked s e l t r"
  "marked_list x y l cs rs \<Longrightarrow> y = x \<Longrightarrow> spans_list M cs u \<Longrightarrow> M < 2 ^ 32 \<Longrightarrow> l + length u \<le> x \<Longrightarrow>
     x = s \<or> u = [] \<and> x = l \<Longrightarrow> marked_list s e l cs rs"
proof (induction x y l t r and x y l cs rs arbitrary: u and u rule: edit_marked_marked_list.induct)
  case (1 x y l d r)
  then show ?case using measured_total(2) [OF spans_measured [OF 1(3)]] by (auto simp: unaffected_def Let_def)
next
  case (2 x y l h cs r)
  then show ?case using measured_total(2) [OF spans_measured [OF 2(4)]]
    by (auto simp: unaffected_def Let_def)
next
  case (5 x y l c cs r rs)
  obtain u1 u2 where u: "u = u1 @ u2" "spans M c u1" "spans_list M cs u2"
    using 5(5) spans_list_Cons [OF 5(6)] by blast
  have "unat (ts_subtree_total_bytes c) = length u1" by (rule measured_total(2) [OF spans_measured [OF u(2)] 5(6)])
  with 5(1) [OF _ 5(4) u(2) 5(6)] 5(2) [OF _ 5(4) u(3) 5(6)] 5(3,7,8) show ?case by (auto simp: u(1))
qed simp_all

lemma edit_all_marked:
  assumes "\<And>c edit s e l new u z. c \<in> set cs \<Longrightarrow> spans M c u \<Longrightarrow> edit_at edit (u @ z) (s - l) (e - l) new \<Longrightarrow>
      s \<le> e \<Longrightarrow> edit_marked s e l c (edit_tree old edit c)"
    and "spans_list M cs v" and "edit_at edit (a @ v @ z) (s - l) (e - l) new" and "2 * M < 2 ^ 32"
    and "length (a @ v) \<le> M" and "pure \<longleftrightarrow> e - l = s - l" and "s \<le> e" and "new = [] \<or> length a \<le> s - l"
    and "l' = l + length a"
  shows "marked_list s e l' cs (edit_all old (child_edits pure dep shifted row0 i edit (length_of a) cs) cs)"
  using assms
proof (induction cs arbitrary: v a i edit new l')
  case (Cons c cs)
  have M: "M < 2 ^ 32" "length a + M < 2 ^ 32" using Cons.prems(4,5) by simp_all
  from Cons.prems(2) obtain u v' where v: "v = u @ v'" "spans M c u" "spans_list M cs v'"
    using spans_list_Cons [OF M(1)] by blast
  have u: "unat (ts_subtree_total_bytes c) = length u" by (rule measured_total(2) [OF spans_measured [OF v(2)] M(1)])
  have e: "edit_at edit (a @ u @ v' @ z) (s - l) (e - l) new" using Cons.prems(3) v by simp
  have IH: "marked_list s e (l' + length u)
      (cs) (edit_all old (child_edits pure dep shifted row0 (i + 1) ed (length_of (a @ u)) cs) cs)"
    if "edit_at ed (a @ u @ v' @ z) (s - l) (e - l) n" "n = [] \<or> length (a @ u) \<le> s - l" for ed n
    using Cons.IH [of v' ed "a @ u" n "l' + length u" "i + 1"] Cons.prems v that by simp
  have child: "edit_at (to_child edit (length_of a)) (u @ v' @ z) (s - l') (e - l') new"
    using edit_at_child [OF e Cons.prems(8)] Cons.prems(9) by (simp add: to_child_def)
  have c: "edit_marked s' e' l' c (edit_tree old ed c)"
    if "edit_at ed (u @ v' @ z) (s' - l') (e' - l') n" "s' \<le> e'" for ed s' e' n
    using Cons.prems(1) [of c u ed "v' @ z"] that v by simp
  show ?case
  proof (cases rule: child_edits_step [OF spans_measured [OF v(2)] e M, of pure dep shifted row0 i cs,
        case_names before behind inside touching])
    case before
    with IH [OF e] u Cons.prems(9) show ?thesis by (auto simp: edit_marked_iff unaffected_def Let_def)
  next
    case behind
    then have "e < l' \<or> e = l' \<and> 0 < length u" using Cons.prems(9) by auto
    with behind(2) u show ?thesis by (auto simp: edit_marked_iff unaffected_def Let_def intro!: marked_list_behind)
  next
    case inside
    with IH [OF edit_at_delivered [OF e]] c [OF child Cons.prems(7)] u show ?thesis by simp
  next
    case touching
    then have le: "length a + length u \<le> s - l" by auto
    obtain x where x: "x - l' = s - l'" "l' + length u \<le> x" "x = s \<or> u = [] \<and> x = l'"
      using le Cons.prems(9) by (cases "l \<le> s") auto
    have "edit_marked s e l' c (edit_tree old (to_child edit (length_of a)\<lparr>e_old_end := e_start (to_child edit (length_of a)),
               e_new_end := e_start (to_child edit (length_of a))\<rparr>) c)"
      using c [of _ x x] edit_at_noop [OF child] x by (intro marked_at_point(1) [OF _ refl v(2) M(1) x(2,3)]) simp
    with touching(2) IH [OF e] le u show ?thesis by simp
  qed
qed simp

lemma edit_tree_marked:
  assumes "spans M t u" and "edit_at edit (u @ z) (s - l) (e - l) new" and "2 * M < 2 ^ 32" and "s \<le> e"
  shows "edit_marked s e l t (edit_tree old edit t)"
  using assms
proof (induction t arbitrary: u edit z s e l new rule: measure_induct_rule [of size])
  case (less t)
  have M: "M < 2 ^ 32" using less.prems(3) by simp
  have m: "measured M t u" using spans_measured [OF less.prems(1)] .
  note total = measured_total(2) [OF m M]
  show ?case
  proof (cases "is_untouched edit t")
    case True
    have "unat (ts_subtree_total_bytes t + ts_subtree_lookahead_bytes t) = length u + unat (ts_subtree_lookahead_bytes t)"
      using total m M by (simp add: unat_add_u32 measured_def Let_def)
    with True total have "unaffected s e l t"
      by (auto simp: is_untouched_def unaffected_def Let_def word_less_nat_alt word_unat_eq_iff edit_at_bytes [OF less.prems(2)])
    with True show ?thesis by (simp add: edit_tree_unfold edit_marked_iff)
  next
    case False
    let ?cs = "ts_subtree_children t"
    have changed: "ts_subtree_has_changes (set_children (resized old edit t) ds)" for ds
      by (cases t) (auto simp: resized_def split_beta)
    show ?thesis
    proof (cases ?cs)
      case Nil
      with False changed [of "[]"] show ?thesis
        by (cases "resized old edit t") (simp_all add: edit_tree_unfold edit_marked_iff)
    next
      case (Cons c cs)
      then obtain h where t: "t = Ptr h ?cs" by (cases t) simp_all
      have "marked_list s e l ?cs (edit_all old (child_edits (bytes (e_old_end edit) = bytes (e_start edit)) dep shifted row0 0
          edit (length_of []) ?cs) ?cs)" for dep shifted row0
      proof (rule edit_all_marked [where z = z and l = l and M = M and v = u and new = new])
        show "edit_marked s' e' l' c' (edit_tree old ed c')" if "c' \<in> set ?cs" "spans M c' u'"
          "edit_at ed (u' @ z') (s' - l') (e' - l') n" "s' \<le> e'" for c' u' ed z' s' e' l' n
          by (rule less.IH [OF size_child [OF that(1)] that(2,3) less.prems(3) that(4)])
        show "spans_list M ?cs u" using less.prems(1) Cons by (subst (asm) spans_iff) simp
        show "(bytes (e_old_end edit) = bytes (e_start edit)) = (e - l = s - l)"
          using edit_at_bytes [OF less.prems(2)] by (auto simp: word_unat_eq_iff)
      qed (use less.prems m in \<open>simp_all add: measured_def Let_def\<close>)
      then have "marked_list s e l ?cs (edit_all old (edits_of_children edit t) ?cs)" by (simp add: edits_of_children_def)
      moreover have "ts_subtree_children (set_children (resized old edit t) ds) = ds" for ds
        by (subst t) (simp add: resized_def split_beta)
      ultimately show ?thesis using False changed by (simp add: edit_tree_unfold edit_marked_iff)
    qed
  qed
qed

section \<open>Properties\<close>

lemma length_eta: "\<lparr>bytes = bytes x, extent = extent x\<rparr> = (x :: Length)"
  by (cases x) simp

lemma edit_at_edit_of:
  assumes "spans M t (pre @ removed @ post)" and "2 * (M + length new) < 2 ^ 32"
  shows "edit_at \<lparr>e_start = length_of pre, e_old_end = length_of (pre @ removed), e_new_end = length_of (pre @ new)\<rparr>
      ((pre @ removed @ post) @ []) (length pre) (length (pre @ removed)) new"
  using assms spans_measured [OF assms(1)] by (simp add: edit_at_def measured_def Let_def)

lemma ts_subtree_edit_edit_of:
  "ts_subtree_edit old t (edit_of pre removed new) =
     edit_tree old \<lparr>e_start = length_of pre, e_old_end = length_of (pre @ removed), e_new_end = length_of (pre @ new)\<rparr> t"
  by (simp add: ts_subtree_edit_def edit_of_def length_eta del: bytes_length_of)

text \<open>A node over the text \<open>a\<close>, newline, \<open>b\<close> with two leaves, the second of which has looked one byte ahead.\<close>

definition sample_leaf :: "u8 \<Rightarrow> 4 word \<Rightarrow> Subtree" where
  "sample_leaf n la = Inline \<lparr>in_visible = True, in_named = True, in_extra = False, in_has_changes = False,
     in_is_missing = False, in_is_keyword = False, in_symbol = 1, in_parse_state = 1, in_padding_columns = 0,
     in_padding_rows = ucast n, in_lookahead_bytes = la, in_padding_bytes = n, in_size_bytes = 1\<rparr>"

definition sample_node :: Subtree where
  "sample_node = Ptr (heap_zero\<lparr>h_symbol := 2, h_size := \<lparr>bytes = 3, extent = Point 1 1\<rparr>, h_lookahead_bytes := 1\<rparr>)
     [sample_leaf 0 0, sample_leaf 1 1]"

lemma sample_node_spans: "spans 4 sample_node [97, 10, 98]"
  by code_simp

text \<open>
  C2. Editing a tree is editing its text: if the tree spans \<open>pre @ removed @ post\<close>, each node and the text of each node, then
  after the edit that replaces \<open>removed\<close> by \<open>new\<close> it spans \<open>pre @ new @ post\<close>. So the padding and the size of every node, in
  bytes, rows and columns, again add up to those of its parent, also where leaves outgrow the inline form. The length
  of the texts and of the lookahead is below 2 GiB.
\<close>

theorem edit_spans_edited_text:
  assumes "spans M t (pre @ removed @ post)" and "2 * (M + length new) < 2 ^ 32"
  shows "spans (M + length new) (ts_subtree_edit old t (edit_of pre removed new)) (pre @ new @ post)"
  using edit_tree_spans [OF assms(1) edit_at_edit_of [OF assms] assms(2), of old]
  by (simp add: ts_subtree_edit_edit_of spliced_def)

theorem edit_spans_edited_text_witness:
  "spans 4 sample_node [97, 10, 98] \<and>
   spans 6 (ts_subtree_edit heap_zero sample_node (edit_of [97] [10] [99, 10])) [97, 99, 10, 98]"
  using edit_spans_edited_text [of 4 sample_node "[97]" "[10]" "[98]" "[99, 10]" heap_zero] sample_node_spans by simp

text \<open>
  C3. An edit marks what it invalidates: a node of the edited tree that is not marked as changed is the node of the
  old tree, with all its children, and neither its text nor the bytes the lexer had looked at behind it are replaced.
  The children of a marked node have the same property.
\<close>

theorem edit_marks_affected_nodes:
  assumes "spans M t (pre @ removed @ post)" and "2 * (M + length new) < 2 ^ 32"
  shows "edit_marked (length pre) (length (pre @ removed)) 0 t (ts_subtree_edit old t (edit_of pre removed new))"
  using edit_tree_marked [OF assms(1), where l = 0 and z = "[]" and s = "length pre" and e = "length (pre @ removed)"]
    edit_at_edit_of [OF assms] assms(2) by (simp add: ts_subtree_edit_edit_of)

theorem edit_marks_affected_nodes_witness:
  "spans 4 sample_node [97, 10, 98] \<and>
   edit_marked 1 2 0 sample_node (ts_subtree_edit heap_zero sample_node (edit_of [97] [10] [99, 10]))"
  using edit_marks_affected_nodes [of 4 sample_node "[97]" "[10]" "[98]" "[99, 10]" heap_zero] sample_node_spans
  by (simp flip: numeral_2_eq_2)

end
