(* ===== verification/Subtree_Nodes.thy ===== *)
theory Subtree_Nodes
  imports Subtree_Text Language_Proofs
begin

text \<open>
  New leaves and nodes. A leaf reads back what it was made from, in both forms. The fields that
  \<open>ts_subtree_summarize_children\<close> caches in a node are what a traversal of the whole tree would find: the text it spans,
  the end of its lookahead, its visible children, its first leaf, and whether a leaf below it comes from an external
  scanner.
\<close>

section \<open>The fields a step of the summary sets\<close>

lemma add_extent_reads:
  "visible_child_count (add_extent i c h) = visible_child_count h" "named_child_count (add_extent i c h) = named_child_count h"
  "visible_descendant_count (add_extent i c h) = visible_descendant_count h"
  "has_external_tokens (add_extent i c h) = has_external_tokens h"
  "h_production_id (add_extent i c h) = h_production_id h" "h_symbol (add_extent i c h) = h_symbol h" "h_extra (add_extent i c h) = h_extra h"
  by (simp_all add: add_extent_def Let_def)

lemma add_cost_reads:
  "h_padding (add_cost c h) = h_padding h" "h_size (add_cost c h) = h_size h"
  "visible_child_count (add_cost c h) = visible_child_count h" "named_child_count (add_cost c h) = named_child_count h"
  "visible_descendant_count (add_cost c h) = visible_descendant_count h"
  "has_external_tokens (add_cost c h) = has_external_tokens h"
  "h_production_id (add_cost c h) = h_production_id h" "h_symbol (add_cost c h) = h_symbol h" "h_extra (add_cost c h) = h_extra h"
  by (simp_all add: add_cost_def Let_def)

lemma add_counts_reads:
  assumes "add_counts lang als si c h = Some h'"
  shows "h_padding h' = h_padding h" "h_size h' = h_size h" "has_external_tokens h' = has_external_tokens h"
    "h_production_id h' = h_production_id h" "h_symbol h' = h_symbol h" "h_extra h' = h_extra h"
  using assms by (auto simp: add_counts_def count_child_def Let_def bind_eq_Some_conv split: if_splits)

lemma add_flags_reads:
  "h_padding (add_flags c h) = h_padding h" "h_size (add_flags c h) = h_size h"
  "visible_child_count (add_flags c h) = visible_child_count h" "named_child_count (add_flags c h) = named_child_count h"
  "visible_descendant_count (add_flags c h) = visible_descendant_count h"
  "has_external_tokens (add_flags c h) \<longleftrightarrow> has_external_tokens h \<or> ts_subtree_has_external_tokens c"
  "h_production_id (add_flags c h) = h_production_id h" "h_symbol (add_flags c h) = h_symbol h" "h_extra (add_flags c h) = h_extra h"
  by (auto simp: add_flags_def Let_def)

lemma summarize_end_reads:
  "h_padding (summarize_end cs h) = h_padding h" "h_size (summarize_end cs h) = h_size h"
  "h_lookahead_bytes (summarize_end cs h) = h_lookahead_bytes h"
  "visible_child_count (summarize_end cs h) = visible_child_count h"
  "named_child_count (summarize_end cs h) = named_child_count h"
  "visible_descendant_count (summarize_end cs h) = visible_descendant_count h"
  "has_external_tokens (summarize_end cs h) = has_external_tokens h"
  "h_production_id (summarize_end cs h) = h_production_id h" "h_symbol (summarize_end cs h) = h_symbol h" "h_extra (summarize_end cs h) = h_extra h"
  "cs \<noteq> [] \<Longrightarrow> first_leaf_symbol (summarize_end cs h) = ts_subtree_leaf_symbol (hd cs)"
  "cs \<noteq> [] \<Longrightarrow> first_leaf_parse_state (summarize_end cs h) = ts_subtree_leaf_parse_state (hd cs)"
  by (simp_all add: summarize_end_def Let_def)

lemma summarize_start_reads:
  "h_padding (summarize_start h) = h_padding h" "h_size (summarize_start h) = h_size h"
  "visible_child_count (summarize_start h) = 0" "named_child_count (summarize_start h) = 0"
  "visible_descendant_count (summarize_start h) = 0" "\<not> has_external_tokens (summarize_start h)"
  "h_production_id (summarize_start h) = h_production_id h" "h_symbol (summarize_start h) = h_symbol h" "h_extra (summarize_start h) = h_extra h"
  by (simp_all add: summarize_start_def)

lemmas summary_reads = add_extent_reads add_cost_reads add_flags_reads summarize_end_reads summarize_start_reads

text \<open>One round of the loop.\<close>

lemma summarize_loop_Cons:
  assumes "summarize_loop lang als i (c # cs) si le h = Some (h', le')"
  obtains h1 where "add_counts lang als si c (add_cost c (add_extent i c h)) = Some h1"
    "summarize_loop lang als (Suc i) cs (if ts_subtree_extra c then si else si + 1)
       (max le (bytes (h_padding (add_extent i c h)) + bytes (h_size (add_extent i c h)) + ts_subtree_lookahead_bytes c))
       (add_flags c h1) = Some (h', le')"
proof -
  have "(if y < x then x else y) = max y x" for x y :: u32 by (auto simp: max_def)
  with assms that show thesis by (auto simp: Let_def bind_eq_Some_conv)
qed

section \<open>The text of a node\<close>

text \<open>Where the lookahead of each child ends, from the start of the node.\<close>

fun lookahead_ends :: "nat \<Rightarrow> Subtree list \<Rightarrow> nat list" where
  "lookahead_ends l [] = []"
| "lookahead_ends l (c # cs) =
     (let r = l + unat (ts_subtree_total_bytes c)
      in (r + unat (ts_subtree_lookahead_bytes c)) # lookahead_ends r cs)"

lemma summarize_loop_text:
  assumes "summarize_loop lang als (Suc i) cs si le h = Some (h', le')" and "spans_list M cs v"
    and "h_padding h = length_of p" and "h_size h = length_of x" and "M < 2 ^ 32" and "length (p @ x @ v) < 2 ^ 32"
    and "\<forall>n \<in> set (lookahead_ends (length (p @ x)) cs). n < 2 ^ 32"
  shows "h_padding h' = length_of p \<and> h_size h' = length_of (x @ v) \<and>
    unat le' = fold max (lookahead_ends (length (p @ x)) cs) (unat le)"
  using assms
proof (induction cs arbitrary: v x i si le h)
  case (Cons c cs)
  obtain u w where u: "v = u @ w" "spans M c u" "spans_list M cs w"
    using Cons.prems(2) spans_list_Cons [OF Cons.prems(5)] by blast
  note t = measured_total [OF spans_measured [OF u(2)] Cons.prems(5)]
  have sz: "h_padding (add_extent (Suc i) c h) = length_of p" "h_size (add_extent (Suc i) c h) = length_of (x @ u)"
    using Cons.prems(3,4,6) t length_of_append [of u x] by (simp_all add: add_extent_def Let_def u(1))
  let ?le = "max le (bytes (length_of p) + bytes (length_of (x @ u)) + ts_subtree_lookahead_bytes c)"
  have le: "unat ?le = max (length p + length x + length u + unat (ts_subtree_lookahead_bytes c)) (unat le)"
    using Cons.prems(6,7) t by (simp add: u(1) Let_def max_def word_le_nat_alt unat_add_u32 flip: of_nat_add)
  from Cons.prems(1) obtain h1 where "add_counts lang als si c (add_cost c (add_extent (Suc i) c h)) = Some h1"
    "summarize_loop lang als (Suc (Suc i)) cs (if ts_subtree_extra c then si else si + 1) ?le (add_flags c h1) = Some (h', le')"
    unfolding sz [symmetric] by (rule summarize_loop_Cons)
  with Cons.IH [OF this(2) u(3), where x = "x @ u"] Cons.prems(5-7) sz t le show ?case
    by (simp add: u(1) summary_reads add_counts_reads Let_def add.assoc)
qed simp

lemma lookahead_ends_ge:
  assumes "spans_list M cs v" and "M < 2 ^ 32" and "l \<le> n"
  shows "l + length v \<le> fold max (lookahead_ends l cs) n"
  using assms
proof (induction cs arbitrary: v l n)
  case (Cons c cs)
  obtain u w where u: "v = u @ w" "spans M c u" "spans_list M cs w"
    using Cons.prems(1) spans_list_Cons [OF Cons.prems(2)] by blast
  note t = measured_total(2) [OF spans_measured [OF u(2)] Cons.prems(2)]
  show ?case
    using Cons.IH [OF u(3) Cons.prems(2), of "l + length u" "max (l + length u + unat (ts_subtree_lookahead_bytes c)) n"]
    by (simp add: u(1) t Let_def le_max_iff_disj)
qed simp

text \<open>The end of the lookahead of a node with these children.\<close>

definition lookahead_end :: "Subtree list \<Rightarrow> nat" where
  "lookahead_end cs = fold max (lookahead_ends 0 cs) 0"

lemma summarize_data_text:
  assumes sum: "summarize_data lang h cs = Some h'" and cs: "spans_list M cs w" "cs \<noteq> []"
    and M: "M < 2 ^ 32" "length w < 2 ^ 32" "\<forall>n \<in> set (lookahead_ends 0 cs). n < 2 ^ 32"
  shows "spans (max M (lookahead_end cs)) (Ptr h' cs) w \<and> length w + unat (h_lookahead_bytes h') = lookahead_end cs"
proof -
  obtain c ds where c: "cs = c # ds" using cs(2) by (cases cs) simp_all
  obtain u v where u: "w = u @ v" "spans M c u" "spans_list M ds v" using cs(1) spans_list_Cons [OF M(1)] c by blast
  let ?k = "unat (bytes (ts_subtree_padding c))" and ?la = "unat (ts_subtree_lookahead_bytes c)"
  let ?h = "add_extent 0 c (summarize_start h)"
  let ?le = "max 0 (bytes (h_padding ?h) + bytes (h_size ?h) + ts_subtree_lookahead_bytes c)"
  have k: "?k \<le> length u" "h_padding ?h = length_of (take ?k u)" "h_size ?h = length_of (drop ?k u)"
    using spans_measured [OF u(2)] by (simp_all add: measured_def Let_def add_extent_def)
  note t = measured_total(2) [OF spans_measured [OF u(2)] M(1)]
  have le: "unat ?le = max (length u + ?la) 0"
    using k M(2,3) t by (simp add: u(1) c Let_def unat_add_u32 flip: of_nat_add)
  obtain h1 le' where loop: "summarize_loop lang (ts_language_alias_sequence lang (unat (h_production_id h))) 0 (c # ds) 0 0
      (summarize_start h) = Some (h1, le')"
    and h': "h_padding h' = h_padding h1" "h_size h' = h_size h1"
      "h_lookahead_bytes h' = le' - bytes (h_size h1) - bytes (h_padding h1)"
    using sum by (auto simp: summarize_data_def c bind_eq_Some_conv Let_def summary_reads)
  from loop obtain h2 where "add_counts lang (ts_language_alias_sequence lang (unat (h_production_id h))) 0 c (add_cost c ?h) = Some h2"
    "summarize_loop lang (ts_language_alias_sequence lang (unat (h_production_id h))) (Suc 0) ds
       (if ts_subtree_extra c then 0 else 0 + 1) ?le (add_flags c h2) = Some (h1, le')"
    by (rule summarize_loop_Cons)
  with summarize_loop_text [OF this(2) u(3), where p = "take ?k u" and x = "drop ?k u"] k M t le
  have h1: "h_padding h1 = length_of (take ?k u)" "h_size h1 = length_of (drop ?k u @ v)"
    "unat le' = lookahead_end cs"
    by (simp_all add: summary_reads add_counts_reads c u(1) Let_def lookahead_end_def)
  have "length w \<le> lookahead_end cs"
    using lookahead_ends_ge [OF u(3) M(1), of "length u" "length u + ?la"] by (simp add: lookahead_end_def c u(1) t Let_def)
  then obtain d where d: "lookahead_end cs = length w + d" using le_Suc_ex by blast
  have b: "length w + d < 2 ^ 32" using h1(3) d unat_u32_bound [of le'] by simp
  then have "le' = of_nat (length w + d)" using h1(3) d by (simp add: word_unat_eq_iff del: of_nat_add)
  moreover note b
  moreover have "length w = ?k + length (drop ?k u @ v)" using k(1) by (simp add: u(1))
  ultimately have la: "unat (le' - bytes (h_size h1) - bytes (h_padding h1)) = d"
    using h1(1,2) k(1) by (simp add: min_def)
  have "measured (max M (lookahead_end cs)) (Ptr h' cs) w"
    using k M h1 la d by (simp add: measured_def Let_def u(1) min_def h')
  moreover have "bytes (ts_subtree_padding (hd cs)) = bytes (h_padding h')"
    using k h1 by (simp add: h' c)
  ultimately show ?thesis
    using la d spans_mono(2) [OF cs(1), of "max M (lookahead_end cs)"] by (simp add: h')
qed

section \<open>What a node caches\<close>

fun leaves :: "Subtree \<Rightarrow> Subtree list" where
  "leaves (Inline d) = [Inline d]"
| "leaves (Ptr h cs) = (if cs = [] then [Ptr h []] else concat (map leaves cs))"

text \<open>Whether a child is shown itself, and then whether it is named; otherwise its children stand in its place.\<close>

definition shown_as :: "TSLanguage \<Rightarrow> TSSymbol list option \<Rightarrow> nat \<Rightarrow> Subtree \<Rightarrow> bool option" where
  "shown_as lang als si c =
     (case child_alias als si c of
        None \<Rightarrow> None
      | Some a \<Rightarrow> if a \<noteq> 0 then map_option named (ts_language_symbol_metadata lang a)
                  else if ts_subtree_visible c then Some (ts_subtree_named c) else None)"

text \<open>The visible children of a node, as whether they are named, and the number of its visible descendants.\<close>

fun shown :: "TSLanguage \<Rightarrow> Subtree \<Rightarrow> bool list"
and shown_list :: "TSLanguage \<Rightarrow> TSSymbol list option \<Rightarrow> nat \<Rightarrow> Subtree list \<Rightarrow> bool list" where
  "shown lang (Inline d) = []"
| "shown lang (Ptr h cs) = shown_list lang (ts_language_alias_sequence lang (unat (h_production_id h))) 0 cs"
| "shown_list lang als si [] = []"
| "shown_list lang als si (c # cs) =
     (case shown_as lang als si c of Some is_named \<Rightarrow> [is_named] | None \<Rightarrow> shown lang c) @
     shown_list lang als (if ts_subtree_extra c then si else si + 1) cs"

fun descendants :: "TSLanguage \<Rightarrow> Subtree \<Rightarrow> nat"
and descendants_list :: "TSLanguage \<Rightarrow> TSSymbol list option \<Rightarrow> nat \<Rightarrow> Subtree list \<Rightarrow> nat" where
  "descendants lang (Inline d) = 0"
| "descendants lang (Ptr h cs) = descendants_list lang (ts_language_alias_sequence lang (unat (h_production_id h))) 0 cs"
| "descendants_list lang als si [] = 0"
| "descendants_list lang als si (c # cs) =
     (if shown_as lang als si c = None then 0 else 1) + descendants lang c +
     descendants_list lang als (if ts_subtree_extra c then si else si + 1) cs"

definition cache_exact :: "TSLanguage \<Rightarrow> SubtreeHeapData \<Rightarrow> Subtree list \<Rightarrow> bool" where
  "cache_exact lang h cs \<longleftrightarrow>
     visible_child_count h = of_nat (length (shown lang (Ptr h cs))) \<and>
     named_child_count h = of_nat (length (filter (\<lambda>n. n) (shown lang (Ptr h cs)))) \<and>
     visible_descendant_count h = of_nat (descendants lang (Ptr h cs)) \<and>
     (has_external_tokens h \<longleftrightarrow> list_ex ts_subtree_has_external_tokens (leaves (Ptr h cs))) \<and>
     first_leaf_symbol h = ts_subtree_symbol (hd (leaves (Ptr h cs))) \<and>
     first_leaf_parse_state h = ts_subtree_parse_state (hd (leaves (Ptr h cs)))"

fun summary_exact :: "TSLanguage \<Rightarrow> Subtree \<Rightarrow> bool" where
  "summary_exact lang (Inline d) = True"
| "summary_exact lang (Ptr h cs) = ((cs = [] \<or> cache_exact lang h cs) \<and> list_all (summary_exact lang) cs)"

lemma leaves_nonempty [simp]: "leaves t \<noteq> []"
proof (induction t)
  case (Ptr h cs)
  then show ?case by (cases cs) auto
qed simp

lemma cached_counts:
  assumes "summary_exact lang t"
  shows "ts_subtree_visible_child_count t = of_nat (length (shown lang t))"
    "ts_subtree_named_child_count t = of_nat (length (filter (\<lambda>n. n) (shown lang t)))"
    "ts_subtree_visible_descendant_count t = of_nat (descendants lang t)"
    "ts_subtree_has_external_tokens t \<longleftrightarrow> list_ex ts_subtree_has_external_tokens (leaves t)"
    "ts_subtree_leaf_symbol t = ts_subtree_symbol (hd (leaves t))"
    "ts_subtree_leaf_parse_state t = ts_subtree_parse_state (hd (leaves t))"
  using assms by (cases t; auto simp: cache_exact_def ts_subtree_has_external_tokens_def)+

lemma shown_no_children: "ts_subtree_children t = [] \<Longrightarrow> shown lang t = []"
  by (cases t) simp_all

lemma add_counts_counts:
  assumes add: "add_counts lang als si c h = Some h'" and c: "summary_exact lang c"
  shows "visible_child_count h' = visible_child_count h +
      of_nat (length (case shown_as lang als si c of Some n \<Rightarrow> [n] | None \<Rightarrow> shown lang c)) \<and>
    named_child_count h' = named_child_count h +
      of_nat (length (filter (\<lambda>n. n) (case shown_as lang als si c of Some n \<Rightarrow> [n] | None \<Rightarrow> shown lang c))) \<and>
    visible_descendant_count h' = visible_descendant_count h +
      of_nat ((if shown_as lang als si c = None then 0 else 1) + descendants lang c)"
proof -
  note counts = cached_counts(1-3) [OF c]
  from add obtain a where a: "child_alias als si c = Some a" by (auto simp: add_counts_def Let_def bind_eq_Some_conv)
  consider md where "a \<noteq> 0" "ts_language_symbol_metadata lang a = Some md" | "a = 0" "ts_subtree_visible c"
    | "a = 0" "\<not> ts_subtree_visible c" "ts_subtree_children c = []"
    | "a = 0" "\<not> ts_subtree_visible c" "ts_subtree_children c \<noteq> []"
    using add a by (auto simp: add_counts_def Let_def bind_eq_Some_conv split: if_splits)
  then show ?thesis
  proof cases
    case 1
    with add a show ?thesis by (auto simp: add_counts_def Let_def shown_as_def count_child_def counts)
  next
    case 2
    with add a show ?thesis by (auto simp: add_counts_def Let_def shown_as_def count_child_def counts)
  next
    case 3
    with add a shown_no_children [of c lang] show ?thesis
      by (auto simp: add_counts_def Let_def shown_as_def ts_subtree_child_count_def counts)
  next
    case 4
    with add a show ?thesis by (auto simp: add_counts_def Let_def shown_as_def ts_subtree_child_count_def counts)
  qed
qed

lemma summarize_loop_counts:
  assumes "summarize_loop lang als i cs si le h = Some (h', le')" and "list_all (summary_exact lang) cs"
  shows "visible_child_count h' = visible_child_count h + of_nat (length (shown_list lang als si cs)) \<and>
    named_child_count h' = named_child_count h + of_nat (length (filter (\<lambda>n. n) (shown_list lang als si cs))) \<and>
    visible_descendant_count h' = visible_descendant_count h + of_nat (descendants_list lang als si cs) \<and>
    (has_external_tokens h' \<longleftrightarrow> has_external_tokens h \<or> list_ex (\<lambda>c. list_ex ts_subtree_has_external_tokens (leaves c)) cs) \<and>
    h_production_id h' = h_production_id h \<and> h_symbol h' = h_symbol h"
  using assms
proof (induction cs arbitrary: i si le h)
  case (Cons c cs)
  from Cons.prems(1) obtain h1 where h1: "add_counts lang als si c (add_cost c (add_extent i c h)) = Some h1"
    "summarize_loop lang als (Suc i) cs (if ts_subtree_extra c then si else si + 1)
       (max le (bytes (h_padding (add_extent i c h)) + bytes (h_size (add_extent i c h)) + ts_subtree_lookahead_bytes c))
       (add_flags c h1) = Some (h', le')" by (rule summarize_loop_Cons)
  have c: "summary_exact lang c" "list_all (summary_exact lang) cs" using Cons.prems(2) by simp_all
  note counts = add_counts_counts [OF h1(1) c(1)] add_counts_reads [OF h1(1)] summary_reads cached_counts(4) [OF c(1)]
  show ?case using Cons.IH [OF h1(2) c(2)] by (simp add: counts add.assoc)
qed simp

lemma summarize_data_exact:
  assumes "summarize_data lang h cs = Some h'" and "list_all (summary_exact lang) cs"
  shows "summary_exact lang (Ptr h' cs) \<and> h_production_id h' = h_production_id h \<and> h_symbol h' = h_symbol h"
proof -
  obtain h1 le' where loop: "summarize_loop lang (ts_language_alias_sequence lang (unat (h_production_id h))) 0 cs 0 0
      (summarize_start h) = Some (h1, le')"
    and h': "h_production_id h' = h_production_id h1" "h_symbol h' = h_symbol h1"
      "visible_child_count h' = visible_child_count h1" "named_child_count h' = named_child_count h1"
      "visible_descendant_count h' = visible_descendant_count h1" "has_external_tokens h' = has_external_tokens h1"
      "cs \<noteq> [] \<Longrightarrow> first_leaf_symbol h' = ts_subtree_leaf_symbol (hd cs)"
      "cs \<noteq> [] \<Longrightarrow> first_leaf_parse_state h' = ts_subtree_leaf_parse_state (hd cs)"
    using assms(1) by (auto simp: summarize_data_def bind_eq_Some_conv Let_def summary_reads)
  have first: "hd (concat (map leaves cs)) = hd (leaves (hd cs))" if "cs \<noteq> []" using that by (cases cs) simp_all
  have "list_ex P (concat (map leaves cs)) \<longleftrightarrow> list_ex (\<lambda>c. list_ex P (leaves c)) cs" for P
    by (induction cs) simp_all
  moreover have "summary_exact lang (hd cs)" if "cs \<noteq> []" using assms(2) that by (cases cs) simp_all
  ultimately show ?thesis
    using summarize_loop_counts [OF loop assms(2)] assms(2) first
    by (auto simp: h' summary_reads cache_exact_def cached_counts(5,6))
qed

section \<open>Summaries exist\<close>

text \<open>The reads of aliases for these children, and of the metadata of an alias, are inside the tables.\<close>

fun aliases_known :: "TSLanguage \<Rightarrow> TSSymbol list option \<Rightarrow> nat \<Rightarrow> Subtree list \<Rightarrow> bool" where
  "aliases_known lang als si [] = True"
| "aliases_known lang als si (c # cs) =
     ((case child_alias als si c of None \<Rightarrow> False | Some a \<Rightarrow> a = 0 \<or> ts_language_symbol_metadata lang a \<noteq> None) \<and>
      aliases_known lang als (if ts_subtree_extra c then si else si + 1) cs)"

lemma no_aliases_known [simp]: "aliases_known lang None si cs"
  by (induction cs arbitrary: si) (simp_all add: child_alias_def)

lemma summarize_loop_total:
  "aliases_known lang als si cs \<Longrightarrow> \<exists>r. summarize_loop lang als i cs si le h = Some r"
proof (induction cs arbitrary: i si le h)
  case (Cons c cs)
  from Cons.prems have "add_counts lang als si c (add_cost c (add_extent i c h)) \<noteq> None"
    by (auto simp: add_counts_def Let_def split: option.splits if_splits)
  then obtain h1 where "add_counts lang als si c (add_cost c (add_extent i c h)) = Some h1" by blast
  with Cons show ?case by (simp add: Let_def)
qed simp

lemma summarize_data_total:
  assumes "aliases_known lang (ts_language_alias_sequence lang (unat (h_production_id h))) 0 cs"
  obtains h' where "summarize_data lang h cs = Some h'"
  using summarize_loop_total [OF assms, of 0 0 "summarize_start h"] by (auto simp: summarize_data_def Let_def)

lemma new_node_data:
  assumes "ts_language_symbol_metadata lang sy = Some md"
    and "aliases_known lang (ts_language_alias_sequence lang (unat pid)) 0 cs"
  obtains h h' where "ts_subtree_new_node sy cs pid lang = Some (Ptr h' cs)" "summarize_data lang h cs = Some h'"
    "h_symbol h = sy" "h_production_id h = pid"
proof -
  let ?h = "heap_zero\<lparr>ref_count := 1, h_symbol := sy, h_visible := visible md, h_named := named md,
          fragile_left := is_error_symbol sy, fragile_right := is_error_symbol sy, h_production_id := pid\<rparr>"
  obtain h' where "summarize_data lang ?h cs = Some h'" using summarize_data_total [of lang ?h cs] assms(2) by auto
  with that [of h' ?h] assms(1) show thesis by (simp add: ts_subtree_new_node_def)
qed

section \<open>The last external token\<close>

lemma find_first: "\<forall>y \<in> set ys. \<not> P y \<Longrightarrow> P c \<Longrightarrow> List.find P (ys @ c # xs) = Some c"
  by (induction ys) simp_all

lemma last_external_exact:
  assumes "summary_exact lang t" and "ts_subtree_has_external_tokens t"
  shows "last_external t = Some (last (filter ts_subtree_has_external_tokens (leaves t)))"
  using assms
proof (induction t rule: last_external.induct)
  case (1 t)
  let ?ext = ts_subtree_has_external_tokens
  show ?case
  proof (cases "ts_subtree_children t")
    case Nil
    then have "leaves t = [t]" by (cases t) simp_all
    with Nil 1(3) show ?thesis by (simp add: last_external.simps)
  next
    case (Cons d ds)
    then obtain h where t: "t = Ptr h (ts_subtree_children t)" "ts_subtree_children t \<noteq> []" by (cases t) simp_all
    let ?cs = "ts_subtree_children t"
    have exact: "summary_exact lang c" if "c \<in> set ?cs" for c
      using 1(2) that by (subst (asm) t(1)) (auto simp: list_all_iff)
    have lv: "leaves t = concat (map leaves ?cs)" using t(2) by (subst t(1)) simp
    have "\<exists>c \<in> set ?cs. ?ext c"
      using 1(3) cached_counts(4) [OF 1(2)] cached_counts(4) [OF exact] lv by (fastforce simp: list_ex_iff)
    then obtain c xs ys where c: "?cs = xs @ c # ys" "?ext c" "\<forall>y \<in> set ys. \<not> ?ext y" by (metis split_list_last_propE)
    have "filter ?ext (leaves y) = []" if "y \<in> set ys" for y
      using cached_counts(4) [OF exact, of y] c that by (auto simp: list_ex_iff filter_empty_conv)
    then have "filter ?ext (concat (map leaves ys)) = []" by (simp add: filter_empty_conv)
    moreover have "filter ?ext (leaves c) \<noteq> []"
      using cached_counts(4) [OF exact, of c] c by (auto simp: list_ex_iff filter_empty_conv)
    ultimately have "last (filter ?ext (leaves t)) = last (filter ?ext (leaves c))" by (simp add: lv c(1))
    moreover have find: "List.find ?ext (rev ?cs) = Some c"
      using find_first [of "rev ys" ?ext c "rev xs"] c(2,3) by (simp add: c(1))
    ultimately show ?thesis
      using 1(1) [OF t(2) find exact c(2)] c(1) t(2) by (simp add: last_external.simps [of t] find)
  qed
qed

section \<open>Compression\<close>

text \<open>While the loop of \<open>ts_subtree_compress\<close> descends, only the summaries of a node and of its last child are out of date.\<close>

lemma summarize_children_exact:
  assumes "ts_subtree_summarize_children lang t = Some t'" and "list_all (summary_exact lang) (ts_subtree_children t)"
  shows "summary_exact lang t' \<and> ts_subtree_children t' = ts_subtree_children t"
  using assms by (cases t) (auto dest!: summarize_data_exact)

lemma leaves_children: "ts_subtree_children t' = ts_subtree_children t \<Longrightarrow> ts_subtree_children t \<noteq> [] \<Longrightarrow> leaves t' = leaves t"
  by (cases t; cases t') auto

lemma summarize_children_leaves:
  assumes "ts_subtree_summarize_children lang t = Some t'" and "ts_subtree_children t \<noteq> []"
  shows "leaves t' = leaves t"
  using assms by (cases t) auto

definition spine_exact :: "TSLanguage \<Rightarrow> Subtree \<Rightarrow> bool" where
  "spine_exact lang t \<longleftrightarrow> 2 \<le> length (ts_subtree_children t) \<and> list_all (summary_exact lang) (butlast (ts_subtree_children t)) \<and>
     ts_subtree_children (last (ts_subtree_children t)) \<noteq> [] \<and>
     list_all (summary_exact lang) (ts_subtree_children (last (ts_subtree_children t)))"

lemma resummarize_exact:
  assumes "resummarize lang h cs child = Some t'" and "spine_exact lang child" and "leaves child = l"
  obtains c' h' where "t' = Ptr h' (c' # cs)" "summary_exact lang c'" "leaves c' = l"
    "list_all (summary_exact lang) cs \<Longrightarrow> summary_exact lang t'"
proof -
  obtain ch ccs where child: "child = Ptr ch ccs" using assms(1) by (cases child) simp_all
  then have "ccs \<noteq> []" using assms(2) by (auto simp: spine_exact_def)
  then obtain ds d where ccs: "ccs = ds @ [d]" by (metis rev_exhaust)
  from assms(1) obtain g c' where g: "ts_subtree_summarize_children lang d = Some g"
    "ts_subtree_summarize_children lang (Ptr ch (ds @ [g])) = Some c'"
    "ts_subtree_summarize_children lang (Ptr h (c' # cs)) = Some t'" by (auto simp: bind_eq_Some_conv child ccs)
  have d: "ts_subtree_children d \<noteq> []" "list_all (summary_exact lang) (ts_subtree_children d)"
    "list_all (summary_exact lang) ds" using assms(2) by (simp_all add: spine_exact_def child ccs)
  have c': "summary_exact lang c'"
    using summarize_children_exact [OF g(1)] summarize_children_exact [OF g(2)] d by simp
  have "leaves c' = l"
    using summarize_children_leaves [OF g(1)] summarize_children_leaves [OF g(2)] d(1) assms(3) by (simp add: child ccs)
  with c' show thesis using that [of _ c'] g(3) summarize_children_exact [OF g(3)] by auto
qed

lemma compress_loop_exact:
  assumes "compress_loop lang sy n t = Some t'" and "spine_exact lang t \<or> summary_exact lang t"
  shows "leaves t' = leaves t \<and> (spine_exact lang t \<longrightarrow> spine_exact lang t') \<and> (summary_exact lang t \<longrightarrow> summary_exact lang t')"
  using assms
proof (induction lang sy n t arbitrary: t' rule: compress_loop.induct)
  case (1 lang sy n h ch gh gcs ccs cs)
  let ?t = "Ptr h (Ptr ch (Ptr gh gcs # ccs) # cs)"
  let ?g = "Ptr gh (butlast gcs @ [Ptr ch (last gcs # ccs)])"
  show ?case
  proof (cases "ref_count h \<le> 1 \<and> cs \<noteq> [] \<and> can_rotate sy (Ptr ch (Ptr gh gcs # ccs)) \<and> can_rotate sy (Ptr gh gcs)")
    case True
    with "1.prems"(1) obtain c where c: "compress_loop lang sy n ?g = Some c" "resummarize lang h cs c = Some t'"
      by (auto simp: bind_eq_Some_conv)
    have exact: "summary_exact lang (Ptr ch (Ptr gh gcs # ccs))"
      using "1.prems"(2) True by (auto simp: spine_exact_def)
    have "gcs \<noteq> []" using True by auto
    then obtain gs g where gcs: "gcs = gs @ [g]" by (metis rev_exhaust)
    have "spine_exact lang ?g" "leaves ?g = leaves (Ptr ch (Ptr gh gcs # ccs))"
      using exact True by (simp_all add: spine_exact_def gcs)
    with "1.IH" [OF True c(1)] have c': "spine_exact lang c" "leaves c = leaves (Ptr ch (Ptr gh gcs # ccs))" by auto
    from resummarize_exact [OF c(2) c'(1) refl] obtain c2 h2
      where t': "t' = Ptr h2 (c2 # cs)" "summary_exact lang c2" "leaves c2 = leaves c"
        "list_all (summary_exact lang) cs \<Longrightarrow> summary_exact lang t'" by blast
    show ?thesis using t' c'(2) True by (auto simp: spine_exact_def)
  qed (use "1.prems" in \<open>auto split: if_splits\<close>)
qed auto

text \<open>
  The nodes of a repetition as the parser builds them: the aliases of the children are inside the tables, whether the production has aliases or not, no
  node of the repetition is an extra, and none ends in one (\<open>ts_parser__reduce\<close> takes trailing extras off).
\<close>

fun structural :: "Subtree \<Rightarrow> bool" where
  "structural c \<longleftrightarrow> \<not> ts_subtree_extra c \<and> ts_subtree_symbol c \<noteq> 0"

fun repetition_fits :: "TSLanguage \<Rightarrow> TSSymbol \<Rightarrow> Subtree \<Rightarrow> bool" where
  "repetition_fits lang sy (Inline d) = True"
| "repetition_fits lang sy (Ptr h cs) =
     ((h_symbol h = sy \<longrightarrow>
         aliases_known lang (ts_language_alias_sequence lang (unat (h_production_id h))) 0 cs \<and>
         structural (Ptr h cs) \<and> (cs \<noteq> [] \<longrightarrow> structural (last cs))) \<and>
      list_all (repetition_fits lang sy) cs)"

text \<open>The reads of the aliases depend only on which children are extras.\<close>

definition same_kinds :: "Subtree list \<Rightarrow> Subtree list \<Rightarrow> bool" where
  "same_kinds cs ds \<longleftrightarrow>
     map (\<lambda>c. (ts_subtree_extra c, ts_subtree_symbol c = 0)) cs = map (\<lambda>c. (ts_subtree_extra c, ts_subtree_symbol c = 0)) ds"

lemma same_kinds_simps [simp]:
  "same_kinds cs cs" "same_kinds cs ds \<Longrightarrow> same_kinds ds es \<Longrightarrow> same_kinds cs es" "same_kinds cs ds \<Longrightarrow> length cs = length ds"
  by (auto simp: same_kinds_def dest: map_eq_imp_length_eq)

lemma same_kinds_replace:
  assumes "structural c" "structural d"
  shows "same_kinds (c # cs) (d # cs)" "same_kinds (cs @ [c]) (cs @ [d])"
  using assms by (simp_all add: same_kinds_def)

lemma aliases_known_same: "same_kinds cs ds \<Longrightarrow> aliases_known lang als si cs = aliases_known lang als si ds"
proof (induction cs arbitrary: ds si)
  case (Cons c cs)
  then obtain d ds' where "ds = d # ds'" by (cases ds) (auto simp: same_kinds_def)
  with Cons show ?case by (simp add: same_kinds_def child_alias_def)
qed (simp add: same_kinds_def)

lemma summarize_loop_ids:
  "summarize_loop lang als i cs si le h = Some (h', le') \<Longrightarrow>
     h_production_id h' = h_production_id h \<and> h_symbol h' = h_symbol h \<and> h_extra h' = h_extra h"
proof (induction cs arbitrary: i si le h)
  case (Cons c cs)
  from Cons.prems obtain h1 where h1: "add_counts lang als si c (add_cost c (add_extent i c h)) = Some h1"
    "summarize_loop lang als (Suc i) cs (if ts_subtree_extra c then si else si + 1)
       (max le (bytes (h_padding (add_extent i c h)) + bytes (h_size (add_extent i c h)) + ts_subtree_lookahead_bytes c))
       (add_flags c h1) = Some (h', le')" by (rule summarize_loop_Cons)
  show ?case using Cons.IH [OF h1(2)] add_counts_reads [OF h1(1)] by (simp add: summary_reads)
qed simp

lemma summarize_data_ids:
  "summarize_data lang h cs = Some h' \<Longrightarrow>
     h_production_id h' = h_production_id h \<and> h_symbol h' = h_symbol h \<and> h_extra h' = h_extra h"
  by (auto simp: summarize_data_def bind_eq_Some_conv Let_def summary_reads split: if_splits dest!: summarize_loop_ids)

lemma summarize_fits:
  assumes "aliases_known lang (ts_language_alias_sequence lang (unat (h_production_id h))) 0 cs"
  obtains h' where "ts_subtree_summarize_children lang (Ptr h cs) = Some (Ptr h' cs)"
    "h_production_id h' = h_production_id h" "h_symbol h' = h_symbol h" "h_extra h' = h_extra h"
proof -
  obtain h' where h': "summarize_data lang h cs = Some h'" using summarize_data_total [OF assms] .
  with that summarize_data_ids [OF h'] show thesis by simp
qed

text \<open>The exchange of the references keeps the condition for the node that the loop goes on with.\<close>

lemma rotation_fits:
  assumes "repetition_fits lang sy (Ptr ch (Ptr gh (gs @ [g]) # ccs))" and "h_symbol ch = sy" "h_symbol gh = sy" "ccs \<noteq> []"
  shows "repetition_fits lang sy (Ptr gh (gs @ [Ptr ch (g # ccs)]))"
    and "aliases_known lang (ts_language_alias_sequence lang (unat (h_production_id ch))) 0 (g # ccs)"
    and "structural (Ptr ch (g # ccs))" "structural (Ptr gh gcs)"
proof -
  have s: "structural g" "structural (Ptr gh (gs @ [g]))" "structural (Ptr ch (g # ccs))" using assms by simp_all
  show c: "aliases_known lang (ts_language_alias_sequence lang (unat (h_production_id ch))) 0 (g # ccs)"
    using aliases_known_same [OF same_kinds_replace(1) [OF s(2,1)]] assms
    by (simp del: aliases_known.simps structural.simps)
  have "aliases_known lang (ts_language_alias_sequence lang (unat (h_production_id gh))) 0 (gs @ [Ptr ch (g # ccs)])"
    using aliases_known_same [OF same_kinds_replace(2) [OF s(3,1)]] assms
    by (simp del: aliases_known.simps structural.simps)
  with c s assms show "repetition_fits lang sy (Ptr gh (gs @ [Ptr ch (g # ccs)]))"
    by (simp del: aliases_known.simps)
  show "structural (Ptr ch (g # ccs))" "structural (Ptr gh gcs)" using s by simp_all
qed

lemma compress_loop_total:
  assumes "repetition_fits lang sy (Ptr h cs)" and "h_symbol h = sy"
  shows "\<exists>h' cs'. compress_loop lang sy n (Ptr h cs) = Some (Ptr h' cs') \<and> h_symbol h' = sy \<and>
    h_production_id h' = h_production_id h \<and> h_extra h' = h_extra h \<and> tl cs' = tl cs \<and> same_kinds cs' cs"
  using assms
proof (induction n arbitrary: h cs)
  case (Suc n)
  let ?row = "\<lambda>h. ts_language_alias_sequence lang (unat (h_production_id h))"
  show ?case
  proof (cases "\<exists>ch gh gcs ccs ds. cs = Ptr ch (Ptr gh gcs # ccs) # ds \<and> ref_count h \<le> 1 \<and> ds \<noteq> [] \<and>
      can_rotate sy (Ptr ch (Ptr gh gcs # ccs)) \<and> can_rotate sy (Ptr gh gcs)")
    case True
    then obtain ch gh gcs ccs ds where cs: "cs = Ptr ch (Ptr gh gcs # ccs) # ds" "ref_count h \<le> 1" "ds \<noteq> []"
      and rot: "can_rotate sy (Ptr ch (Ptr gh gcs # ccs))" "can_rotate sy (Ptr gh gcs)" by blast
    from rot have "gcs \<noteq> []" by auto
    then obtain gs g where gcs: "gcs = gs @ [g]" by (metis rev_exhaust)
    with rot have ne: "gs \<noteq> []" "ccs \<noteq> []" by auto
    let ?c = "\<lambda>ch. Ptr ch (g # ccs)"
    have fits: "repetition_fits lang sy (Ptr gh (gs @ [?c ch]))" "aliases_known lang (?row ch) 0 (g # ccs)"
      "structural (?c ch)" "\<And>xs. structural (Ptr gh xs)"
      using rotation_fits [of lang sy ch gh gs g ccs] Suc.prems rot ne by (simp_all add: cs(1) gcs del: structural.simps aliases_known.simps)
    obtain gh' gcs' where g': "compress_loop lang sy n (Ptr gh (gs @ [?c ch])) = Some (Ptr gh' gcs')" "h_symbol gh' = sy"
      "h_production_id gh' = h_production_id gh" "h_extra gh' = h_extra gh"
      "tl gcs' = tl (gs @ [?c ch])" "same_kinds gcs' (gs @ [?c ch])"
      using Suc.IH [OF fits(1)] rot by auto
    then have "length gcs' = length (gs @ [?c ch])" by simp
    with g'(5) obtain xs where xs: "gcs' = xs @ [?c ch]"
      using ne by (cases gcs'; cases gs) (auto simp: append_eq_Cons_conv)
    obtain ch' where ch': "ts_subtree_summarize_children lang (?c ch) = Some (?c ch')" "h_symbol ch' = h_symbol ch" "h_extra ch' = h_extra ch"
      using summarize_fits [OF fits(2)] by blast
    have c': "structural (?c ch')" using fits(3) ch' by simp
    have "same_kinds (xs @ [?c ch']) (gs @ [?c ch])"
      using same_kinds_simps(2) [OF same_kinds_replace(2) [OF c' fits(3)]] g'(6) xs by blast
    then have "aliases_known lang (?row gh') 0 (xs @ [?c ch'])"
      using aliases_known_same fits(1) rot g'(3) by (simp del: structural.simps aliases_known.simps)
    then obtain gh2 where gh2: "ts_subtree_summarize_children lang (Ptr gh' (xs @ [?c ch'])) = Some (Ptr gh2 (xs @ [?c ch']))"
      "h_symbol gh2 = sy" "h_extra gh2 = h_extra gh" using summarize_fits g'(2,4) by metis
    have kinds: "same_kinds (Ptr gh2 (xs @ [?c ch']) # ds) cs"
      unfolding cs(1) using fits(3,4) gh2 rot by (intro same_kinds_replace(1)) simp_all
    then have "aliases_known lang (?row h) 0 (Ptr gh2 (xs @ [?c ch']) # ds)"
      using aliases_known_same Suc.prems by (simp del: structural.simps aliases_known.simps)
    then obtain h' where "ts_subtree_summarize_children lang (Ptr h (Ptr gh2 (xs @ [?c ch']) # ds)) = Some (Ptr h' (Ptr gh2 (xs @ [?c ch']) # ds))"
      "h_production_id h' = h_production_id h" "h_symbol h' = h_symbol h" "h_extra h' = h_extra h" using summarize_fits by metis
    with g'(1) ch' gh2 kinds cs rot Suc.prems(2) show ?thesis by (auto simp: gcs xs)
  next
    case False
    then have "compress_loop lang sy (Suc n) (Ptr h cs) = Some (Ptr h cs)"
      by (cases "(lang, sy, Suc n, Ptr h cs)" rule: compress_loop.cases) auto
    with Suc.prems show ?thesis by simp
  qed
qed simp

section \<open>Properties\<close>

text \<open>A language with the symbols 1 and 2, an alias 3 for the first child of production 1, and a hidden repetition 4.\<close>

definition tree_language :: TSLanguage where
  "tree_language =
     (let hidden = \<lparr>visible = False, named = False, supertype = False\<rparr>;
          shown = \<lparr>visible = True, named = True, supertype = False\<rparr>
      in no_language\<lparr>max_alias_sequence_length := 2, symbol_metadata := [hidden, shown, shown, shown, hidden],
           alias_sequences := [0, 0, 3, 0]\<rparr>)"

lemma tree_language_metadata:
  "ts_language_symbol_metadata tree_language 1 = Some \<lparr>visible = True, named = True, supertype = False\<rparr>"
  "ts_language_symbol_metadata tree_language 2 = Some \<lparr>visible = True, named = True, supertype = False\<rparr>"
  by code_simp+

lemma ucast_u8_u16: "x \<le> 255 \<Longrightarrow> ucast (ucast (x :: u16) :: u8) = x"
  by (simp add: word_le_nat_alt word_unat_eq_iff unsigned_ucast_eq unsigned_take_bit_eq take_bit_nat_eq_self)

text \<open>
  A new leaf reads back as what it was made from, whether it is packed into a word of 64 bits or kept on the heap: symbol,
  padding, size, lookahead, state and flags, where the padding and the size measure texts \<open>p\<close> and \<open>x\<close>. The flag for a
  dependence on the column survives if only external tokens have it, as in \<open>ts_parser__lex\<close>; the packed form has no
  room for it.
\<close>

theorem new_leaf_reads_back:
  assumes "ts_language_symbol_metadata lang sy = Some md" and "length (p @ x) < 2 ^ 32"
  shows "\<exists>t. ts_subtree_new_leaf sy (length_of p) (length_of x) la st ext dep kw lang = Some t \<and>
    ts_subtree_symbol t = sy \<and> ts_subtree_padding t = length_of p \<and> ts_subtree_size t = length_of x \<and>
    ts_subtree_lookahead_bytes t = la \<and> ts_subtree_parse_state t = st \<and>
    ts_subtree_visible t = visible md \<and> ts_subtree_named t = named md \<and> ts_subtree_extra t = (sy = 0) \<and>
    ts_subtree_is_keyword t = kw \<and> ts_subtree_has_external_tokens t = ext \<and>
    ((dep \<longrightarrow> ext) \<longrightarrow> ts_subtree_depends_on_column t = dep) \<and>
    spans (length (p @ x) + unat la) t (p @ x)"
proof -
  obtain t where t: "ts_subtree_new_leaf sy (length_of p) (length_of x) la st ext dep kw lang = Some t"
    using assms(1) by (fastforce simp: ts_subtree_new_leaf_def Let_def)
  have p: "Point (row (extent (length_of p))) (column (extent (length_of p))) = extent (length_of p)" by simp
  have "ts_subtree_symbol t = sy \<and> ts_subtree_padding t = length_of p \<and> ts_subtree_size t = length_of x \<and>
    ts_subtree_lookahead_bytes t = la \<and> ts_subtree_parse_state t = st \<and>
    ts_subtree_visible t = visible md \<and> ts_subtree_named t = named md \<and> ts_subtree_extra t = (sy = 0) \<and>
    ts_subtree_is_keyword t = kw \<and> ts_subtree_has_external_tokens t = ext \<and>
    ((dep \<longrightarrow> ext) \<longrightarrow> ts_subtree_depends_on_column t = dep) \<and> ts_subtree_children t = []"
  proof (cases "sy \<le> 255 \<and> \<not> ext \<and> ts_subtree_can_inline (length_of p) (length_of x) la")
    case True
    then have "row (extent (length_of x)) = 0" by (simp add: ts_subtree_can_inline_def)
    then have "extent (length_of x) = Point 0 (of_nat (length x))" by (rule inline_size) (use assms(2) in simp)
    with True t assms(1) p show ?thesis
      by (auto simp: ts_subtree_new_leaf_def ts_subtree_can_inline_def ucast_small ucast_u8_u16 length_of_def
          ts_subtree_has_external_tokens_def ts_subtree_depends_on_column_def)
  next
    case False
    with t assms(1) show ?thesis
      by (auto simp: ts_subtree_new_leaf_def ts_subtree_has_external_tokens_def ts_subtree_depends_on_column_def)
  qed
  moreover from this have "spans (length (p @ x) + unat la) t (p @ x)"
    using assms(2) by (subst spans_iff) (simp add: measured_def Let_def)
  ultimately show ?thesis using t by blast
qed

theorem new_leaf_reads_back_witness:
  "\<exists>t. ts_subtree_new_leaf 1 (length_of [10]) (length_of [97]) 1 5 False False False tree_language = Some t \<and>
    spans 3 t [10, 97]"
  using new_leaf_reads_back [OF tree_language_metadata(1), of "[10]" "[97]" 1 5 False False False]
  by (auto simp flip: numeral_3_eq_3)


text \<open>
  C7. A new node spans the text of its children: it is created if the aliases of its production are in the tables, its
  padding is that of the first child, its size covers the rest, and its lookahead reaches exactly as far as that of
  any child.
\<close>

theorem new_node_spans_children:
  assumes "ts_language_symbol_metadata lang sy \<noteq> None"
    and "aliases_known lang (ts_language_alias_sequence lang (unat pid)) 0 cs"
    and "spans_list M cs w" "cs \<noteq> []" "M < 2 ^ 32" "length w < 2 ^ 32" "\<forall>n \<in> set (lookahead_ends 0 cs). n < 2 ^ 32"
  shows "\<exists>t. ts_subtree_new_node sy cs pid lang = Some t \<and> ts_subtree_symbol t = sy \<and> ts_subtree_children t = cs \<and>
    spans (max M (lookahead_end cs)) t w \<and> length w + unat (ts_subtree_lookahead_bytes t) = lookahead_end cs"
proof -
  from assms(1) obtain md where "ts_language_symbol_metadata lang sy = Some md" by blast
  then obtain h h' where h: "ts_subtree_new_node sy cs pid lang = Some (Ptr h' cs)" "summarize_data lang h cs = Some h'"
    "h_symbol h = sy" "h_production_id h = pid" using assms(2) by (rule new_node_data)
  with summarize_data_text [OF h(2) assms(3-7)] summarize_data_ids [OF h(2)] show ?thesis by simp
qed

theorem new_node_spans_children_witness:
  "spans_list 3 [sample_leaf 0 0, sample_leaf 1 1] [97, 10, 98] \<and>
   (\<exists>t. ts_subtree_new_node 2 [sample_leaf 0 0, sample_leaf 1 1] 1 tree_language = Some t \<and> spans 4 t [97, 10, 98] \<and>
     length ([97, 10, 98] :: u8 list) + unat (ts_subtree_lookahead_bytes t) = 4)"
proof -
  let ?cs = "[sample_leaf 0 0, sample_leaf 1 1]"
  have ok: "aliases_known tree_language (ts_language_alias_sequence tree_language (unat 1)) 0 ?cs"
    and sp: "spans_list 3 ?cs [97, 10, 98]" and ends: "lookahead_ends 0 ?cs = [1, 4]" by code_simp+
  have e: "lookahead_end ?cs = 4" "\<forall>n \<in> set (lookahead_ends 0 ?cs). n < 2 ^ 32"
    unfolding lookahead_end_def ends by simp_all
  have md: "ts_language_symbol_metadata tree_language 2 \<noteq> None" by (simp add: tree_language_metadata)
  show ?thesis using new_node_spans_children [OF md ok sp] sp e by auto
qed

text \<open>
  C6. What a node caches is what a traversal finds. If the caches of the children are exact, then those of the new node are:
  the numbers of its visible and of its named children, where hidden nodes are replaced by their children and aliases by what
  they stand for, the number of visible descendants, the first leaf, and whether some leaf is from an external scanner.
\<close>

theorem new_node_summary_exact:
  assumes "ts_language_symbol_metadata lang sy \<noteq> None"
    and "aliases_known lang (ts_language_alias_sequence lang (unat pid)) 0 cs"
    and "list_all (summary_exact lang) cs"
  shows "\<exists>t. ts_subtree_new_node sy cs pid lang = Some t \<and> summary_exact lang t \<and> ts_subtree_production_id t = (if cs = [] then 0 else pid)"
proof -
  from assms(1) obtain md where "ts_language_symbol_metadata lang sy = Some md" by blast
  then obtain h h' where h: "ts_subtree_new_node sy cs pid lang = Some (Ptr h' cs)" "summarize_data lang h cs = Some h'"
    "h_symbol h = sy" "h_production_id h = pid" using assms(2) by (rule new_node_data)
  with summarize_data_exact [OF h(2) assms(3)] show ?thesis by simp
qed

theorem new_node_summary_exact_witness:
  "\<exists>t. ts_subtree_new_node 2 [sample_leaf 0 0, sample_leaf 1 1] 1 tree_language = Some t \<and> summary_exact tree_language t"
proof -
  let ?cs = "[sample_leaf 0 0, sample_leaf 1 1]"
  have ok: "aliases_known tree_language (ts_language_alias_sequence tree_language (unat 1)) 0 ?cs"
    and ex: "list_all (summary_exact tree_language) ?cs" by code_simp+
  have md: "ts_language_symbol_metadata tree_language 2 \<noteq> None" by (simp add: tree_language_metadata)
  show ?thesis using new_node_summary_exact [OF md ok ex] by auto
qed

text \<open>
  The walk to the last external token ends, although nothing in its loop bounds it: in a tree with exact caches it reaches
  the last leaf that comes from an external scanner, and gives the null tree exactly if there is none.
\<close>

theorem last_external_token_found:
  assumes "summary_exact lang t"
  shows "ts_subtree_last_external_token t =
    Some (case filter ts_subtree_has_external_tokens (leaves t) of [] \<Rightarrow> None | x # xs \<Rightarrow> Some (last (x # xs)))"
proof (cases "ts_subtree_has_external_tokens t")
  case True
  then have "filter ts_subtree_has_external_tokens (leaves t) \<noteq> []"
    using cached_counts(4) [OF assms] by (auto simp: list_ex_iff filter_empty_conv)
  then show ?thesis
    using True last_external_exact [OF assms True] by (auto simp: ts_subtree_last_external_token_def split: list.split)
next
  case False
  then have "filter ts_subtree_has_external_tokens (leaves t) = []"
    using cached_counts(4) [OF assms] by (auto simp: list_ex_iff filter_empty_conv)
  then show ?thesis using False by (simp add: ts_subtree_last_external_token_def)
qed

text \<open>A node over an external token and a leaf.\<close>

definition external_leaf :: Subtree where
  "external_leaf = Ptr (heap_zero\<lparr>h_symbol := 1, has_external_tokens := True, external_scanner_state := [7]\<rparr>) []"

definition external_node :: Subtree where
  "external_node = Ptr (heap_zero\<lparr>h_symbol := 2, has_external_tokens := True, visible_child_count := 1, named_child_count := 1,
     visible_descendant_count := 1, first_leaf_symbol := 1\<rparr>) [external_leaf, sample_leaf 0 0]"

theorem last_external_token_found_witness:
  "summary_exact tree_language external_node \<and> ts_subtree_last_external_token external_node = Some (Some external_leaf)"
proof -
  have "summary_exact tree_language external_node" by code_simp
  moreover have "filter ts_subtree_has_external_tokens (leaves external_node) = [external_leaf]" by code_simp
  ultimately show ?thesis using last_external_token_found [of tree_language external_node] by simp
qed

text \<open>
  C27. Compressing a repetition rotates its nodes and keeps its contents: the loop returns a tree with the same leaves in the same
  order, and all caches are exact again when the last node has been summarized. The nodes of the repetition may belong to
  any productions whose aliases for these children are inside the tables; none is an extra or ends in one.
\<close>

theorem compress_keeps_leaves:
  assumes "summary_exact lang t" and "ts_subtree_children t \<noteq> []" and "repetition_fits lang (ts_subtree_symbol t) t"
  shows "\<exists>t'. ts_subtree_compress t n lang = Some t' \<and> leaves t' = leaves t \<and> summary_exact lang t' \<and>
    ts_subtree_symbol t' = ts_subtree_symbol t \<and> ts_subtree_child_count t' = ts_subtree_child_count t"
proof -
  obtain h cs where t: "t = Ptr h cs" using assms(2) by (cases t) simp_all
  obtain h' cs' where c: "compress_loop lang (h_symbol h) n t = Some (Ptr h' cs')" "h_symbol h' = h_symbol h"
    "same_kinds cs' cs" using compress_loop_total [of lang "h_symbol h" h cs n] assms(3) by (auto simp: t)
  then have "length cs' = length cs" by simp
  with c compress_loop_exact [OF c(1)] assms(1) show ?thesis
    by (simp add: t ts_subtree_compress_def ts_subtree_child_count_def)
qed

text \<open>A repetition with three levels; its nodes belong to a production with an alias.\<close>

definition repeat_node :: "u16 \<Rightarrow> Subtree \<Rightarrow> Subtree \<Rightarrow> Subtree" where
  "repeat_node pid a b = (case ts_subtree_new_node 4 [a, b] pid tree_language of Some t \<Rightarrow> t | None \<Rightarrow> a)"

abbreviation sample_repeat :: "Subtree \<Rightarrow> Subtree \<Rightarrow> Subtree" where
  "sample_repeat \<equiv> repeat_node 0"

definition sample_repetition :: Subtree where
  "sample_repetition =
     repeat_node 1 (repeat_node 1 (repeat_node 1 (sample_leaf 0 0) (sample_leaf 1 0)) (sample_leaf 1 0)) (sample_leaf 1 1)"

theorem compress_keeps_leaves_witness:
  "\<exists>t'. ts_subtree_compress sample_repetition 5 tree_language = Some t' \<and> leaves t' = leaves sample_repetition \<and>
     t' \<noteq> sample_repetition"
proof -
  have "summary_exact tree_language sample_repetition" "ts_subtree_children sample_repetition \<noteq> []"
    "repetition_fits tree_language (ts_subtree_symbol sample_repetition) sample_repetition"
    "ts_subtree_compress sample_repetition 5 tree_language \<noteq> Some sample_repetition" by code_simp+
  then show ?thesis using compress_keeps_leaves [of tree_language sample_repetition 5] by auto
qed

end
