(* ===== verification/Subtree_Compare.thy ===== *)
theory Subtree_Compare
  imports Subtree "HOL-Library.List_Lexorder" "HOL-Library.Product_Lexorder"
begin

text \<open>
  Comparing trees and arrays of trees. \<open>ts_subtree_compare\<close> works off a stack of pairs; it is the lexicographic order on
  the symbols and numbers of children of the nodes in preorder, so that it is a total order on the shapes of trees. The
  exchange loop of \<open>ts_subtree_array_reverse\<close> reverses a list.
\<close>

section \<open>The specification\<close>

datatype shape = Shape TSSymbol "shape list"

fun shape_of :: "Subtree \<Rightarrow> shape" where
  "shape_of (Inline d) = Shape (ucast (in_symbol d)) []"
| "shape_of (Ptr h cs) = Shape (h_symbol h) (map shape_of cs)"

fun preorder :: "Subtree \<Rightarrow> (TSSymbol \<times> nat) list" where
  "preorder (Inline d) = [(ucast (in_symbol d), 0)]"
| "preorder (Ptr h cs) = (h_symbol h, length cs) # concat (map preorder cs)"

definition sign_of :: "'a::linorder \<Rightarrow> 'a \<Rightarrow> int" where
  "sign_of x y = (if x < y then - 1 else if y < x then 1 else 0)"

lemma preorder_node:
  "preorder t = (ts_subtree_symbol t, ts_subtree_child_count t) # concat (map preorder (ts_subtree_children t))"
  by (cases t) (simp_all add: ts_subtree_child_count_def)

lemma shape_node: "shape_of t = Shape (ts_subtree_symbol t) (map shape_of (ts_subtree_children t))"
  by (cases t) simp_all

text \<open>The sequence determines the shape, also in front of other sequences.\<close>

lemma preorder_inj:
  "preorder l @ xs = preorder r @ ys \<longleftrightarrow> shape_of l = shape_of r \<and> xs = ys"
proof (induction l arbitrary: r xs ys rule: measure_induct_rule [of size])
  case (less l)
  have children: "concat (map preorder ls) @ xs = concat (map preorder rs) @ ys \<longleftrightarrow> map shape_of ls = map shape_of rs \<and> xs = ys"
    if "length ls = length rs" "set ls \<subseteq> set (ts_subtree_children l)" for ls rs
    using that
  proof (induction ls rs rule: list_induct2)
    case (Cons a ls b rs)
    then show ?case using less.IH [of a "concat (map preorder ls) @ xs" b "concat (map preorder rs) @ ys"] size_child [of a l] by auto
  qed simp
  show ?case
  proof (cases "ts_subtree_child_count l = ts_subtree_child_count r")
    case True
    then show ?thesis using children [of "ts_subtree_children l" "ts_subtree_children r"]
      unfolding preorder_node [of l] preorder_node [of r] shape_node [of l] shape_node [of r]
      by (auto simp: ts_subtree_child_count_def)
  next
    case False
    then show ?thesis unfolding preorder_node [of l] preorder_node [of r] shape_node [of l] shape_node [of r]
      by (auto simp: ts_subtree_child_count_def dest: map_eq_imp_length_eq)
  qed
qed

section \<open>The stack\<close>

definition stack_of :: "(Subtree \<times> Subtree) list \<Rightarrow> Subtree list" where
  "stack_of ps = concat (map (\<lambda>(l, r). [r, l]) ps)"

lemma stack_of_Cons: "stack_of ((l, r) # ps) = r # l # stack_of ps"
  by (simp add: stack_of_def)

lemma push_children_zip: "length ls = length rs \<Longrightarrow> push_children ls rs (stack_of ps) = stack_of (zip ls rs @ ps)"
  by (induction ls rs rule: list_induct2) (simp_all add: stack_of_def)

lemma compare_roots_sign:
  "compare_roots l r = sign_of (ts_subtree_symbol l, ts_subtree_child_count l) (ts_subtree_symbol r, ts_subtree_child_count r)"
  by (auto simp: compare_roots_def sign_of_def)

lemma sign_of_Cons: "sign_of (x # xs) (y # ys) = (if sign_of x y \<noteq> 0 then sign_of x y else sign_of xs ys)"
  by (auto simp: sign_of_def)

lemma sign_of_eq_0 [simp]: "sign_of x y = 0 \<longleftrightarrow> x = y"
  by (auto simp: sign_of_def)

lemma compare_loop_lexicographic:
  "compare_loop (stack_of ps) = sign_of (concat (map (preorder \<circ> fst) ps)) (concat (map (preorder \<circ> snd) ps))"
proof (induction "stack_of ps" arbitrary: ps rule: compare_loop.induct)
  case (1 right left stack)
  then obtain qs where ps: "ps = (left, right) # qs" "stack = stack_of qs" by (cases ps) (auto simp: stack_of_def)
  let ?l = "ts_subtree_children left" and ?r = "ts_subtree_children right"
  show ?case
  proof (cases "compare_roots left right = 0")
    case True
    then have eq: "ts_subtree_symbol left = ts_subtree_symbol right" "length ?l = length ?r"
      by (auto simp: compare_roots_sign ts_subtree_child_count_def)
    note push = push_children_zip [OF eq(2), of qs]
    from eq 1(1) [OF _ push [folded ps(2)]] True show ?thesis
      by (simp add: ps(1) stack_of_Cons push preorder_node [of left] preorder_node [of right] sign_of_Cons compare_roots_sign
          ts_subtree_child_count_def map_fst_zip map_snd_zip flip: map_map)
  next
    case False
    then show ?thesis
      by (simp add: ps stack_of_def preorder_node [of left] preorder_node [of right] sign_of_Cons compare_roots_sign)
  qed
next
  case 2
  then have "ps = []" by (cases ps) (auto simp: stack_of_def)
  then show ?case by (simp add: stack_of_def sign_of_def)
next
  case (3 t)
  then show ?case by (cases ps) (auto simp: stack_of_def)
qed

section \<open>Arrays\<close>

lemma reverse_loop_correct:
  assumes "xs = as @ bs @ cs" and "length as = i" and "length cs = i" and "limit = length xs div 2" and "i \<le> limit"
  shows "reverse_loop xs i limit = as @ rev bs @ cs"
  using assms
proof (induction "limit - i" arbitrary: i xs as bs cs)
  case 0
  then have "length bs \<le> 1" by simp
  then have "rev bs = bs" by (cases bs rule: rev_cases; cases bs) auto
  with 0 show ?case by (simp add: reverse_loop.simps)
next
  case (Suc n)
  then have "2 \<le> length bs" by auto
  then obtain b ds d where bs: "bs = b # ds @ [d]" by (cases bs; cases "tl bs" rule: rev_cases) auto
  let ?xs = "xs[i := xs ! (length xs - 1 - i), length xs - 1 - i := xs ! i]"
  have xs: "?xs = (as @ [d]) @ ds @ (b # cs)"
    using Suc.prems by (auto simp: bs nth_append list_update_append)
  have "reverse_loop ?xs (i + 1) limit = (as @ [d]) @ rev ds @ (b # cs)"
  proof (rule Suc.hyps(1) [OF _ xs])
    show "n = limit - (i + 1)" "i + 1 \<le> limit" using Suc.hyps(2) by linarith+
    show "limit = length ?xs div 2" using Suc.prems(4) by simp
  qed (use Suc.prems in simp_all)
  moreover have "i < limit" using Suc.hyps(2) by simp
  ultimately show ?case by (subst reverse_loop.simps) (simp add: bs)
qed

lemma array_reverse: "ts_subtree_array_reverse self = rev self"
  using reverse_loop_correct [of self "[]" self "[]" 0] by (simp add: ts_subtree_array_reverse_def)

lemma remove_extras_loop_correct:
  "remove_extras_loop self dest =
     (rev (dropWhile ts_subtree_extra (rev self)), dest @ takeWhile ts_subtree_extra (rev self))"
proof (induction self arbitrary: dest rule: rev_induct)
  case (snoc x xs)
  then show ?case by (subst remove_extras_loop.simps) simp
qed (simp add: remove_extras_loop.simps)

section \<open>Properties\<close>

text \<open>
  C28. \<open>ts_subtree_compare\<close> is the lexicographic order of the preorder sequences of symbols and child counts, with the results
  -1, 0 and 1; it is 0 exactly for trees of the same shape and symbols, and exchanging the arguments negates it.
\<close>

theorem compare_is_lexicographic:
  "ts_subtree_compare left right = sign_of (preorder left) (preorder right) \<and>
   (ts_subtree_compare left right = 0 \<longleftrightarrow> shape_of left = shape_of right) \<and>
   ts_subtree_compare right left = - ts_subtree_compare left right"
proof -
  have c: "ts_subtree_compare l r = sign_of (preorder l) (preorder r)" for l r
    using compare_loop_lexicographic [of "[(l, r)]"] by (simp add: ts_subtree_compare_def stack_of_def)
  moreover have "preorder left = preorder right \<longleftrightarrow> shape_of left = shape_of right"
    using preorder_inj [of left "[]" right "[]"] by simp
  moreover have "sign_of (preorder right) (preorder left) = - sign_of (preorder left) (preorder right)"
    by (auto simp: sign_of_def)
  ultimately show ?thesis by simp
qed

text \<open>
  Taking the trailing extras off an array splits it: the two parts together, in order, are the old array, the second holds
  extras only, and the first is empty or ends with a tree that is none.
\<close>

theorem trailing_extras_split:
  "\<exists>xs ys. ts_subtree_array_remove_trailing_extras self = (xs, ys) \<and> xs @ ys = self \<and> list_all ts_subtree_extra ys \<and>
     (xs = [] \<or> \<not> ts_subtree_extra (last xs)) \<and> ts_subtree_array_reverse ys = rev ys"
proof -
  have "rev (dropWhile P (rev self)) @ rev (takeWhile P (rev self)) = self" for P
    by (metis rev_append rev_rev_ident takeWhile_dropWhile_id)
  moreover have "\<not> P (last (rev (dropWhile P (rev self))))" if "dropWhile P (rev self) \<noteq> []" for P
    using hd_dropWhile [OF that] that by (simp add: last_rev)
  ultimately show ?thesis
    by (auto simp: ts_subtree_array_remove_trailing_extras_def remove_extras_loop_correct array_reverse list_all_iff
        dest: set_takeWhileD)
qed

end
