(* ===== verification/Stack.thy ===== *)
theory Stack
  imports Subtree
begin

text \<open>
  The parse stack: \<open>stack.c\<close> and \<open>stack.h\<close>. The stack of a generalized LR parser is a graph: several versions share nodes, and a
  node has a link to each of its predecessors, with the tree that lies between them. Nodes live in a store, a list in
  which an address is an index; a new node gets a new address. The code counts references to give memory back,
  which has no counterpart here: nodes that are not reachable any more stay in the store.

  Reads outside an array fail an assertion in the code and are \<open>None\<close> here, and so is the read of a field through a null
  tree. The null tree itself is \<open>None\<close> of type \<open>Subtree option\<close>. Walks over the graph have fuel: the graph could have
  cycles.
\<close>

section \<open>Data\<close>

abbreviation MAX_LINK_COUNT :: nat where "MAX_LINK_COUNT \<equiv> 8"
abbreviation MAX_ITERATOR_COUNT :: nat where "MAX_ITERATOR_COUNT \<equiv> 64"
abbreviation ERROR_STATE :: TSStateId where "ERROR_STATE \<equiv> 0"

record StackLink =
  link_node :: nat
  link_subtree :: "Subtree option"
  link_is_pending :: bool

record StackNode =
  node_state :: TSStateId
  node_position :: Length
  links :: "StackLink list"
  node_error_cost :: u32
  node_count :: u32
  node_dynamic_precedence :: int

record StackIterator =
  it_node :: nat
  it_subtrees :: "Subtree list"
  subtree_count :: u32
  it_is_pending :: bool

record StackSummaryEntry =
  sum_position :: Length
  sum_depth :: u32
  sum_state :: TSStateId

record StackSlice =
  slice_subtrees :: "Subtree list"
  slice_version :: nat

datatype StackStatus = StackStatusActive | StackStatusPaused | StackStatusHalted

record StackHead =
  head_node :: nat
  summary :: "StackSummaryEntry list option"
  node_count_at_last_error :: u32
  last_external_token :: "Subtree option"
  lookahead_when_paused :: "Subtree option"
  head_status :: StackStatus

record Stack =
  heads :: "StackHead list"
  slices :: "StackSlice list"
  nodes :: "StackNode list"
  base_node :: nat

text \<open>Which action a callback of an iteration asks for.\<close>

record StackAction =
  action_pop :: bool
  action_stop :: bool

section \<open>Nodes\<close>

definition stack__subtree_node_count :: "Subtree \<Rightarrow> u32" where
  "stack__subtree_node_count t =
     ts_subtree_visible_descendant_count t + (if ts_subtree_visible t then 1 else 0) +
     (if ts_subtree_symbol t = ts_builtin_sym_error_repeat then 1 else 0)"

definition stack_node_new :: "(nat \<times> StackNode) option \<Rightarrow> Subtree option \<Rightarrow> bool \<Rightarrow> TSStateId \<Rightarrow> StackNode" where
  "stack_node_new previous subtree pending state =
     (case previous of
        None \<Rightarrow> \<lparr>node_state = state, node_position = length_zero, links = [], node_error_cost = 0, node_count = 0,
                  node_dynamic_precedence = 0\<rparr>
      | Some (p, prev) \<Rightarrow>
          (let node = \<lparr>node_state = state, node_position = node_position prev,
                 links = [\<lparr>link_node = p, link_subtree = subtree, link_is_pending = pending\<rparr>],
                 node_error_cost = node_error_cost prev, node_count = node_count prev,
                 node_dynamic_precedence = node_dynamic_precedence prev\<rparr>
           in case subtree of
                None \<Rightarrow> node
              | Some t \<Rightarrow> node\<lparr>node_error_cost := node_error_cost node + ts_subtree_error_cost t,
                  node_position := length_add (node_position node) (ts_subtree_total_size t),
                  node_count := node_count node + stack__subtree_node_count t,
                  node_dynamic_precedence := node_dynamic_precedence node + ts_subtree_dynamic_precedence t\<rparr>))"

text \<open>
  Equal pointers are equal values here. Two pointers to equal values give the same answer: every comparison below them
  then holds.
\<close>

definition stack__subtree_is_equivalent :: "Subtree option \<Rightarrow> Subtree option \<Rightarrow> bool" where
  "stack__subtree_is_equivalent left right \<longleftrightarrow>
     (case (left, right) of
        (None, None) \<Rightarrow> True
      | (Some l, Some r) \<Rightarrow>
          l = r \<or>
          ts_subtree_symbol l = ts_subtree_symbol r \<and>
          (0 < ts_subtree_error_cost l \<and> 0 < ts_subtree_error_cost r \<or>
           bytes (ts_subtree_padding l) = bytes (ts_subtree_padding r) \<and>
           bytes (ts_subtree_size l) = bytes (ts_subtree_size r) \<and>
           ts_subtree_child_count l = ts_subtree_child_count r \<and>
           ts_subtree_extra l = ts_subtree_extra r \<and>
           ts_subtree_external_scanner_state_eq left right)
      | _ \<Rightarrow> False)"

definition mergeable :: "StackNode \<Rightarrow> StackNode \<Rightarrow> bool" where
  "mergeable m n \<longleftrightarrow> node_state m = node_state n \<and> bytes (node_position m) = bytes (node_position n) \<and>
     node_error_cost m = node_error_cost n"

text \<open>The loop over the links: the first that takes the new link in.\<close>

fun find_link :: "StackNode list \<Rightarrow> StackLink \<Rightarrow> StackNode \<Rightarrow> nat \<Rightarrow> StackLink list \<Rightarrow> (nat \<times> StackLink) option option" where
  "find_link store link target i [] = Some None"
| "find_link store link target i (existing # ls) =
     (if stack__subtree_is_equivalent (link_subtree existing) (link_subtree link)
      then if link_node existing = link_node link then Some (Some (i, existing))
           else do {
             node \<leftarrow> item store (link_node existing);
             if mergeable node target then Some (Some (i, existing)) else find_link store link target (i + 1) ls
           }
      else find_link store link target (i + 1) ls)"

text \<open>The inner loop over the links of a node, whose number never exceeds \<open>MAX_LINK_COUNT\<close>.\<close>

fun merge_links ::
  "(StackNode list \<Rightarrow> nat \<Rightarrow> StackLink \<Rightarrow> StackNode list option) \<Rightarrow> StackNode list \<Rightarrow> nat \<Rightarrow> nat \<Rightarrow> nat list \<Rightarrow>
     StackNode list option" where
  "merge_links add store self other [] = Some store"
| "merge_links add store self other (j # js) = do {
     node \<leftarrow> item store other;
     if j < length (links node) then do {
       store \<leftarrow> add store self (links node ! j);
       merge_links add store self other js
     }
     else Some store
   }"

definition subtree_precedence :: "Subtree option \<Rightarrow> int" where
  "subtree_precedence t = (case t of None \<Rightarrow> 0 | Some t \<Rightarrow> ts_subtree_dynamic_precedence t)"

text \<open>Two equivalent links between the same nodes: the tree with the higher precedence stays.\<close>

definition replace_link :: "StackNode list \<Rightarrow> nat \<Rightarrow> nat \<Rightarrow> StackLink \<Rightarrow> StackLink \<Rightarrow> StackNode list option" where
  "replace_link store self i existing link = do {
     new_tree \<leftarrow> link_subtree link;
     old_tree \<leftarrow> link_subtree existing;
     node \<leftarrow> item store self;
     target \<leftarrow> item store (link_node link);
     Some (if ts_subtree_dynamic_precedence new_tree > ts_subtree_dynamic_precedence old_tree
           then store[self := node\<lparr>links := (links node)[i := existing\<lparr>link_subtree := Some new_tree\<rparr>],
                  node_dynamic_precedence := node_dynamic_precedence target + ts_subtree_dynamic_precedence new_tree\<rparr>]
           else store)
   }"

definition raise_precedence :: "StackNode list \<Rightarrow> nat \<Rightarrow> StackLink \<Rightarrow> StackNode list option" where
  "raise_precedence store self link = do {
     node \<leftarrow> item store self;
     target \<leftarrow> item store (link_node link);
     let precedence = node_dynamic_precedence target + subtree_precedence (link_subtree link);
     Some (if precedence > node_dynamic_precedence node
           then store[self := node\<lparr>node_dynamic_precedence := precedence\<rparr>] else store)
   }"

definition append_link :: "StackNode list \<Rightarrow> nat \<Rightarrow> StackNode \<Rightarrow> StackNode \<Rightarrow> StackLink \<Rightarrow> StackNode list" where
  "append_link store self node target link =
     (if length (links node) = MAX_LINK_COUNT then store
      else
        (let count = node_count target +
               (case link_subtree link of None \<Rightarrow> 0 | Some t \<Rightarrow> stack__subtree_node_count t);
             precedence = node_dynamic_precedence target + subtree_precedence (link_subtree link);
             node = node\<lparr>links := links node @ [link]\<rparr>;
             node = (if count > node_count node then node\<lparr>node_count := count\<rparr> else node);
             node = (if precedence > node_dynamic_precedence node then node\<lparr>node_dynamic_precedence := precedence\<rparr> else node)
         in store[self := node]))"

fun stack_node_add_link :: "nat \<Rightarrow> StackNode list \<Rightarrow> nat \<Rightarrow> StackLink \<Rightarrow> StackNode list option" where
  "stack_node_add_link 0 store self link = None"
| "stack_node_add_link (Suc fuel) store self link =
     (if link_node link = self then Some store
      else do {
        node \<leftarrow> item store self;
        target \<leftarrow> item store (link_node link);
        found \<leftarrow> find_link store link target 0 (links node);
        case found of
          None \<Rightarrow> Some (append_link store self node target link)
        | Some (i, existing) \<Rightarrow>
            if link_node existing = link_node link then replace_link store self i existing link
            else do {
              store \<leftarrow> merge_links (stack_node_add_link fuel) store (link_node existing) (link_node link) [0..<MAX_LINK_COUNT];
              raise_precedence store self link
            }
      })"

section \<open>Versions\<close>

definition ts_stack__add_version :: "Stack \<Rightarrow> nat \<Rightarrow> nat \<Rightarrow> (Stack \<times> nat) option" where
  "ts_stack__add_version self original node = do {
     head \<leftarrow> item (heads self) original;
     Some (self\<lparr>heads := heads self @ [\<lparr>head_node = node, summary = None,
               node_count_at_last_error = node_count_at_last_error head, last_external_token = last_external_token head,
               lookahead_when_paused = None, head_status = StackStatusActive\<rparr>]\<rparr>,
           length (heads self))
   }"

text \<open>The loop of \<open>ts_stack__add_slice\<close> from the last slice to the first: the last one whose version is at the node.\<close>

fun find_slice :: "StackHead list \<Rightarrow> StackSlice list \<Rightarrow> nat \<Rightarrow> nat \<Rightarrow> (nat \<times> nat) option option" where
  "find_slice hs sl node 0 = Some None"
| "find_slice hs sl node (Suc i) = do {
     sl_i \<leftarrow> item sl i;
     head \<leftarrow> item hs (slice_version sl_i);
     if head_node head = node then Some (Some (i, slice_version sl_i)) else find_slice hs sl node i
   }"

definition ts_stack__add_slice :: "Stack \<Rightarrow> nat \<Rightarrow> nat \<Rightarrow> Subtree list \<Rightarrow> Stack option" where
  "ts_stack__add_slice self original node subtrees = do {
     found \<leftarrow> find_slice (heads self) (slices self) node (length (slices self));
     case found of
       Some (i, version) \<Rightarrow>
         Some (self\<lparr>slices := take (i + 1) (slices self) @ [\<lparr>slice_subtrees = subtrees, slice_version = version\<rparr>] @
                      drop (i + 1) (slices self)\<rparr>)
     | None \<Rightarrow> do {
         (self, version) \<leftarrow> ts_stack__add_version self original node;
         Some (self\<lparr>slices := slices self @ [\<lparr>slice_subtrees = subtrees, slice_version = version\<rparr>]\<rparr>)
       }
   }"

section \<open>Iterating over the paths\<close>

text \<open>An iterator moves along a link.\<close>

definition follow_link :: "bool \<Rightarrow> StackLink \<Rightarrow> StackIterator \<Rightarrow> StackIterator" where
  "follow_link include_subtrees link it =
     (let it = it\<lparr>it_node := link_node link\<rparr>
      in case link_subtree link of
           Some t \<Rightarrow>
             (let it = (if include_subtrees then it\<lparr>it_subtrees := it_subtrees it @ [t]\<rparr> else it)
              in if ts_subtree_extra t then it
                 else
                   (let it = it\<lparr>subtree_count := subtree_count it + 1\<rparr>
                    in if link_is_pending link then it else it\<lparr>it_is_pending := False\<rparr>))
         | None \<Rightarrow> it\<lparr>subtree_count := subtree_count it + 1, it_is_pending := False\<rparr>)"

text \<open>
  The loop over the links of a node from the second on, which pushes new iterators until there are
  \<open>MAX_ITERATOR_COUNT\<close>. \<open>n\<close> is the number of iterators in front of the new ones.
\<close>

fun push_iterators :: "bool \<Rightarrow> nat \<Rightarrow> StackIterator \<Rightarrow> StackLink list \<Rightarrow> StackIterator list \<Rightarrow> StackIterator list" where
  "push_iterators inc n it [] new = new"
| "push_iterators inc n it (link # ls) new =
     (if n + length new \<ge> MAX_ITERATOR_COUNT then push_iterators inc n it ls new
      else push_iterators inc n it ls (new @ [follow_link inc link it]))"

text \<open>
  One round of the outer loop. The array of iterators is in three parts: those this round is through with, those it has still
  to look at, and the new ones, which wait for the next round. A callback gets the iterator and its node, and changes a payload.
\<close>

fun iter_round ::
  "('p \<Rightarrow> StackIterator \<Rightarrow> StackNode \<Rightarrow> 'p \<times> StackAction) \<Rightarrow> bool \<Rightarrow> nat \<Rightarrow> StackIterator list \<Rightarrow> StackIterator list \<Rightarrow>
     StackIterator list \<Rightarrow> Stack \<times> 'p \<Rightarrow> (StackIterator list \<times> Stack \<times> 'p) option" where
  "iter_round callback inc version past [] new (self, payload) = Some (past @ new, self, payload)"
| "iter_round callback inc version past (it # its) new (self, payload) = do {
     node \<leftarrow> item (nodes self) (it_node it);
     let (payload, action) = callback payload it node;
     let should_stop = (action_stop action \<or> links node = []);
     self \<leftarrow> (if action_pop action
             then ts_stack__add_slice self version (it_node it) (ts_subtree_array_reverse (it_subtrees it))
             else Some self);
     if should_stop then iter_round callback inc version past its new (self, payload)
     else iter_round callback inc version (past @ [follow_link inc (hd (links node)) it]) its
            (push_iterators inc (length past + 1 + length its) it (tl (links node)) new) (self, payload)
   }"

fun iter_loop ::
  "nat \<Rightarrow> ('p \<Rightarrow> StackIterator \<Rightarrow> StackNode \<Rightarrow> 'p \<times> StackAction) \<Rightarrow> bool \<Rightarrow> nat \<Rightarrow> StackIterator list \<Rightarrow> Stack \<times> 'p \<Rightarrow>
     (Stack \<times> 'p) option" where
  "iter_loop fuel callback inc version [] (self, payload) = Some (self, payload)"
| "iter_loop 0 callback inc version its (self, payload) = None"
| "iter_loop (Suc fuel) callback inc version its (self, payload) = do {
     (its, self, payload) \<leftarrow> iter_round callback inc version [] its [] (self, payload);
     iter_loop fuel callback inc version its (self, payload)
   }"

definition stack__iter ::
  "nat \<Rightarrow> Stack \<Rightarrow> nat \<Rightarrow> ('p \<Rightarrow> StackIterator \<Rightarrow> StackNode \<Rightarrow> 'p \<times> StackAction) \<Rightarrow> 'p \<Rightarrow> int \<Rightarrow> (Stack \<times> 'p) option" where
  "stack__iter fuel self version callback payload goal_subtree_count = do {
     let self = self\<lparr>slices := []\<rparr>;
     head \<leftarrow> item (heads self) version;
     iter_loop fuel callback (goal_subtree_count \<ge> 0) version
       [\<lparr>it_node = head_node head, it_subtrees = [], subtree_count = 0, it_is_pending = True\<rparr>] (self, payload)
   }"

section \<open>Reading and changing a version\<close>

definition ts_stack_version_count :: "Stack \<Rightarrow> nat" where
  "ts_stack_version_count self = length (heads self)"

definition ts_stack_halted_version_count :: "Stack \<Rightarrow> nat" where
  "ts_stack_halted_version_count self = length (filter (\<lambda>h. head_status h = StackStatusHalted) (heads self))"

definition stack_top :: "Stack \<Rightarrow> nat \<Rightarrow> (StackHead \<times> StackNode) option" where
  "stack_top self version = do {
     head \<leftarrow> item (heads self) version;
     node \<leftarrow> item (nodes self) (head_node head);
     Some (head, node)
   }"

definition ts_stack_state :: "Stack \<Rightarrow> nat \<Rightarrow> TSStateId option" where
  "ts_stack_state self version = map_option (\<lambda>(head, node). node_state node) (stack_top self version)"

definition ts_stack_position :: "Stack \<Rightarrow> nat \<Rightarrow> Length option" where
  "ts_stack_position self version = map_option (\<lambda>(head, node). node_position node) (stack_top self version)"

definition ts_stack_last_external_token :: "Stack \<Rightarrow> nat \<Rightarrow> Subtree option option" where
  "ts_stack_last_external_token self version = map_option last_external_token (item (heads self) version)"

definition update_head :: "Stack \<Rightarrow> nat \<Rightarrow> (StackHead \<Rightarrow> StackHead) \<Rightarrow> Stack option" where
  "update_head self version f = do {
     head \<leftarrow> item (heads self) version;
     Some (self\<lparr>heads := (heads self)[version := f head]\<rparr>)
   }"

definition ts_stack_set_last_external_token :: "Stack \<Rightarrow> nat \<Rightarrow> Subtree option \<Rightarrow> Stack option" where
  "ts_stack_set_last_external_token self version token = update_head self version (last_external_token_update (\<lambda>_. token))"

text \<open>The array of links is cleared when a node is made, so that a node without links has a null tree in the first place.\<close>

definition ts_stack_error_cost :: "Stack \<Rightarrow> nat \<Rightarrow> u32 option" where
  "ts_stack_error_cost self version = do {
     (head, node) \<leftarrow> stack_top self version;
     Some (if head_status head = StackStatusPaused \<or>
              node_state node = ERROR_STATE \<and> (case links node of [] \<Rightarrow> True | link # _ \<Rightarrow> link_subtree link = None)
           then node_error_cost node + ERROR_COST_PER_RECOVERY else node_error_cost node)
   }"

definition ts_stack_node_count_since_error :: "Stack \<Rightarrow> nat \<Rightarrow> (Stack \<times> u32) option" where
  "ts_stack_node_count_since_error self version = do {
     (head, node) \<leftarrow> stack_top self version;
     let last_error = (if node_count node < node_count_at_last_error head then node_count node else node_count_at_last_error head);
     self \<leftarrow> update_head self version (node_count_at_last_error_update (\<lambda>_. last_error));
     Some (self, node_count node - last_error)
   }"

definition ts_stack_push :: "Stack \<Rightarrow> nat \<Rightarrow> Subtree option \<Rightarrow> bool \<Rightarrow> TSStateId \<Rightarrow> Stack option" where
  "ts_stack_push self version subtree pending state = do {
     (head, node) \<leftarrow> stack_top self version;
     let new_node = stack_node_new (Some (head_node head, node)) subtree pending state;
     let head = (if subtree = None then head\<lparr>node_count_at_last_error := node_count new_node\<rparr> else head);
     Some (self\<lparr>nodes := nodes self @ [new_node],
             heads := (heads self)[version := head\<lparr>head_node := length (nodes self)\<rparr>]\<rparr>)
   }"

section \<open>Removing and ordering versions\<close>

definition array_erase :: "'a list \<Rightarrow> nat \<Rightarrow> 'a list" where
  "array_erase xs i = take i xs @ drop (i + 1) xs"

definition ts_stack_remove_version :: "Stack \<Rightarrow> nat \<Rightarrow> Stack option" where
  "ts_stack_remove_version self version =
     (if version < length (heads self) then Some (self\<lparr>heads := array_erase (heads self) version\<rparr>) else None)"

definition ts_stack_renumber_version :: "Stack \<Rightarrow> nat \<Rightarrow> nat \<Rightarrow> Stack option" where
  "ts_stack_renumber_version self v1 v2 =
     (if v1 = v2 then Some self
      else if v2 < v1 \<and> v1 < length (heads self) then
        (let source = heads self ! v1; target = heads self ! v2;
             source = (if summary source = None then source\<lparr>summary := summary target\<rparr> else source)
         in Some (self\<lparr>heads := array_erase ((heads self)[v2 := source]) v1\<rparr>))
      else None)"

definition ts_stack_swap_versions :: "Stack \<Rightarrow> nat \<Rightarrow> nat \<Rightarrow> Stack option" where
  "ts_stack_swap_versions self v1 v2 = do {
     head1 \<leftarrow> item (heads self) v1;
     head2 \<leftarrow> item (heads self) v2;
     Some (self\<lparr>heads := (heads self)[v1 := head2, v2 := head1]\<rparr>)
   }"

definition ts_stack_copy_version :: "Stack \<Rightarrow> nat \<Rightarrow> (Stack \<times> nat) option" where
  "ts_stack_copy_version self version = do {
     head \<leftarrow> item (heads self) version;
     Some (self\<lparr>heads := heads self @ [head\<lparr>summary := None\<rparr>]\<rparr>, length (heads self))
   }"

definition ts_stack_can_merge :: "Stack \<Rightarrow> nat \<Rightarrow> nat \<Rightarrow> bool option" where
  "ts_stack_can_merge self version1 version2 = do {
     (head1, node1) \<leftarrow> stack_top self version1;
     (head2, node2) \<leftarrow> stack_top self version2;
     Some (head_status head1 = StackStatusActive \<and> head_status head2 = StackStatusActive \<and> mergeable node1 node2 \<and>
       ts_subtree_external_scanner_state_eq (last_external_token head1) (last_external_token head2))
   }"

definition ts_stack_merge :: "nat \<Rightarrow> Stack \<Rightarrow> nat \<Rightarrow> nat \<Rightarrow> (Stack \<times> bool) option" where
  "ts_stack_merge fuel self version1 version2 = do {
     can_merge \<leftarrow> ts_stack_can_merge self version1 version2;
     if \<not> can_merge then Some (self, False)
     else do {
       head1 \<leftarrow> item (heads self) version1;
       head2 \<leftarrow> item (heads self) version2;
       store \<leftarrow> merge_links (stack_node_add_link fuel) (nodes self) (head_node head1) (head_node head2) [0..<MAX_LINK_COUNT];
       node1 \<leftarrow> item store (head_node head1);
       let head1 = (if node_state node1 = ERROR_STATE then head1\<lparr>node_count_at_last_error := node_count node1\<rparr> else head1);
       self \<leftarrow> ts_stack_remove_version (self\<lparr>nodes := store, heads := (heads self)[version1 := head1]\<rparr>) version2;
       Some (self, True)
     }
   }"

section \<open>Popping\<close>

definition pop_count_callback :: "u32 \<Rightarrow> StackIterator \<Rightarrow> StackNode \<Rightarrow> u32 \<times> StackAction" where
  "pop_count_callback goal it node =
     (goal, if subtree_count it = goal then \<lparr>action_pop = True, action_stop = True\<rparr>
            else \<lparr>action_pop = False, action_stop = False\<rparr>)"

definition ts_stack_pop_count :: "nat \<Rightarrow> Stack \<Rightarrow> nat \<Rightarrow> u32 \<Rightarrow> (Stack \<times> StackSlice list) option" where
  "ts_stack_pop_count fuel self version count =
     map_option (\<lambda>(self, _). (self, slices self))
       (stack__iter fuel self version pop_count_callback count (sint count))"

definition pop_pending_callback :: "unit \<Rightarrow> StackIterator \<Rightarrow> StackNode \<Rightarrow> unit \<times> StackAction" where
  "pop_pending_callback payload it node =
     ((), if 1 \<le> subtree_count it
          then if it_is_pending it then \<lparr>action_pop = True, action_stop = True\<rparr>
               else \<lparr>action_pop = False, action_stop = True\<rparr>
          else \<lparr>action_pop = False, action_stop = False\<rparr>)"

text \<open>The array of slices that is returned is that of the stack itself, with the version of the first slice changed.\<close>

definition ts_stack_pop_pending :: "nat \<Rightarrow> Stack \<Rightarrow> nat \<Rightarrow> (Stack \<times> StackSlice list) option" where
  "ts_stack_pop_pending fuel self version = do {
     (self, _) \<leftarrow> stack__iter fuel self version pop_pending_callback () 0;
     case slices self of
       [] \<Rightarrow> Some (self, [])
     | first # rest \<Rightarrow> do {
         self \<leftarrow> ts_stack_renumber_version self (slice_version first) version;
         let pop = first\<lparr>slice_version := version\<rparr> # rest;
         Some (self\<lparr>slices := pop\<rparr>, pop)
       }
   }"

definition pop_error_callback :: "bool \<Rightarrow> StackIterator \<Rightarrow> StackNode \<Rightarrow> bool \<times> StackAction" where
  "pop_error_callback found_error it node =
     (case it_subtrees it of
        [] \<Rightarrow> (found_error, \<lparr>action_pop = False, action_stop = False\<rparr>)
      | t # _ \<Rightarrow> if \<not> found_error \<and> ts_subtree_is_error t then (True, \<lparr>action_pop = True, action_stop = True\<rparr>)
                 else (found_error, \<lparr>action_pop = False, action_stop = True\<rparr>))"

definition ts_stack_pop_error :: "nat \<Rightarrow> Stack \<Rightarrow> nat \<Rightarrow> (Stack \<times> Subtree list) option" where
  "ts_stack_pop_error fuel self version = do {
     (head, node) \<leftarrow> stack_top self version;
     if \<exists>link \<in> set (links node). (case link_subtree link of None \<Rightarrow> False | Some t \<Rightarrow> ts_subtree_is_error t)
     then do {
       (self, _) \<leftarrow> stack__iter fuel self version pop_error_callback False 1;
       case slices self of
         [] \<Rightarrow> Some (self, [])
       | [popped] \<Rightarrow> do {
           self \<leftarrow> ts_stack_renumber_version self (slice_version popped) version;
           Some (self, slice_subtrees popped)
         }
       | _ \<Rightarrow> None
     }
     else Some (self, [])
   }"

definition pop_all_callback :: "unit \<Rightarrow> StackIterator \<Rightarrow> StackNode \<Rightarrow> unit \<times> StackAction" where
  "pop_all_callback payload it node = ((), \<lparr>action_pop = (links node = []), action_stop = False\<rparr>)"

definition ts_stack_pop_all :: "nat \<Rightarrow> Stack \<Rightarrow> nat \<Rightarrow> (Stack \<times> StackSlice list) option" where
  "ts_stack_pop_all fuel self version =
     map_option (\<lambda>(self, _). (self, slices self)) (stack__iter fuel self version pop_all_callback () 0)"

section \<open>Summaries\<close>

text \<open>The loop over the entries from the last: whether the depth has this state already.\<close>

fun in_summary :: "u32 \<Rightarrow> TSStateId \<Rightarrow> StackSummaryEntry list \<Rightarrow> bool" where
  "in_summary depth state [] = False"
| "in_summary depth state (entry # es) =
     (if sum_depth entry < depth then False
      else if sum_depth entry = depth \<and> sum_state entry = state then True
      else in_summary depth state es)"

definition summarize_stack_callback ::
  "u32 \<Rightarrow> StackSummaryEntry list \<Rightarrow> StackIterator \<Rightarrow> StackNode \<Rightarrow> StackSummaryEntry list \<times> StackAction" where
  "summarize_stack_callback max_depth sm it node =
     (if subtree_count it > max_depth then (sm, \<lparr>action_pop = False, action_stop = True\<rparr>)
      else if in_summary (subtree_count it) (node_state node) (rev sm) then (sm, \<lparr>action_pop = False, action_stop = False\<rparr>)
      else (sm @ [\<lparr>sum_position = node_position node, sum_depth = subtree_count it, sum_state = node_state node\<rparr>],
            \<lparr>action_pop = False, action_stop = False\<rparr>))"

definition ts_stack_record_summary :: "nat \<Rightarrow> Stack \<Rightarrow> nat \<Rightarrow> u32 \<Rightarrow> Stack option" where
  "ts_stack_record_summary fuel self version max_depth = do {
     (self, sm) \<leftarrow> stack__iter fuel self version (summarize_stack_callback max_depth) [] (- 1);
     update_head self version (summary_update (\<lambda>_. Some sm))
   }"

definition ts_stack_get_summary :: "Stack \<Rightarrow> nat \<Rightarrow> StackSummaryEntry list option option" where
  "ts_stack_get_summary self version = map_option summary (item (heads self) version)"

definition ts_stack_dynamic_precedence :: "Stack \<Rightarrow> nat \<Rightarrow> int option" where
  "ts_stack_dynamic_precedence self version = map_option (\<lambda>(head, node). node_dynamic_precedence node) (stack_top self version)"

fun advanced_loop :: "nat \<Rightarrow> StackNode list \<Rightarrow> u32 \<Rightarrow> StackNode \<Rightarrow> bool option" where
  "advanced_loop 0 store last_error node = None"
| "advanced_loop (Suc fuel) store last_error node =
     (case links node of
        [] \<Rightarrow> Some False
      | link # _ \<Rightarrow>
          (case link_subtree link of
             None \<Rightarrow> Some False
           | Some t \<Rightarrow>
               if 0 < ts_subtree_total_bytes t then Some True
               else if node_count node > last_error \<and> ts_subtree_error_cost t = 0
               then do { node \<leftarrow> item store (link_node link); advanced_loop fuel store last_error node }
               else Some False))"

definition ts_stack_has_advanced_since_error :: "nat \<Rightarrow> Stack \<Rightarrow> nat \<Rightarrow> bool option" where
  "ts_stack_has_advanced_since_error fuel self version = do {
     (head, node) \<leftarrow> stack_top self version;
     if node_error_cost node = 0 then Some True else advanced_loop fuel (nodes self) (node_count_at_last_error head) node
   }"

section \<open>The status of a version\<close>

definition ts_stack_halt :: "Stack \<Rightarrow> nat \<Rightarrow> Stack option" where
  "ts_stack_halt self version = update_head self version (head_status_update (\<lambda>_. StackStatusHalted))"

definition ts_stack_pause :: "Stack \<Rightarrow> nat \<Rightarrow> Subtree option \<Rightarrow> Stack option" where
  "ts_stack_pause self version lookahead = do {
     (head, node) \<leftarrow> stack_top self version;
     update_head self version (\<lambda>h. h\<lparr>node_count_at_last_error := node_count node, lookahead_when_paused := lookahead,
       head_status := StackStatusPaused\<rparr>)
   }"

definition has_status :: "StackStatus \<Rightarrow> Stack \<Rightarrow> nat \<Rightarrow> bool option" where
  "has_status status self version = map_option (\<lambda>h. head_status h = status) (item (heads self) version)"

definition ts_stack_is_active :: "Stack \<Rightarrow> nat \<Rightarrow> bool option" where
  "ts_stack_is_active = has_status StackStatusActive"

definition ts_stack_is_halted :: "Stack \<Rightarrow> nat \<Rightarrow> bool option" where
  "ts_stack_is_halted = has_status StackStatusHalted"

definition ts_stack_is_paused :: "Stack \<Rightarrow> nat \<Rightarrow> bool option" where
  "ts_stack_is_paused = has_status StackStatusPaused"

definition ts_stack_resume :: "Stack \<Rightarrow> nat \<Rightarrow> (Stack \<times> Subtree option) option" where
  "ts_stack_resume self version = do {
     head \<leftarrow> item (heads self) version;
     if head_status head \<noteq> StackStatusPaused then None
     else do {
       self \<leftarrow> update_head self version (\<lambda>h. h\<lparr>lookahead_when_paused := None, head_status := StackStatusActive\<rparr>);
       Some (self, lookahead_when_paused head)
     }
   }"

definition ts_stack_clear :: "Stack \<Rightarrow> Stack" where
  "ts_stack_clear self =
     self\<lparr>heads := [\<lparr>head_node = base_node self, summary = None, node_count_at_last_error = 0, last_external_token = None,
       lookahead_when_paused = None, head_status = StackStatusActive\<rparr>]\<rparr>"

definition ts_stack_new :: Stack where
  "ts_stack_new = ts_stack_clear \<lparr>heads = [], slices = [], nodes = [stack_node_new None None False 1], base_node = 0\<rparr>"

end
