(* ===== verification/Stack_Proofs.thy ===== *)
theory Stack_Proofs
  imports Stack
begin

text \<open>
  The invariant of the parse stack. Along every link of the graph the byte positions and the error costs add up, so that they do along
  every path from a version to the base. It is stated for the stacks that the operations reach, as a transition system.
\<close>

section \<open>The invariant\<close>

definition tree_bytes :: "Subtree option \<Rightarrow> u32" where
  "tree_bytes t = (case t of None \<Rightarrow> 0 | Some t \<Rightarrow> ts_subtree_total_bytes t)"

definition tree_cost :: "Subtree option \<Rightarrow> u32" where
  "tree_cost t = (case t of None \<Rightarrow> 0 | Some t \<Rightarrow> ts_subtree_error_cost t)"

definition link_ok :: "StackNode list \<Rightarrow> StackNode \<Rightarrow> StackLink \<Rightarrow> bool" where
  "link_ok ns node l \<longleftrightarrow> link_node l < length ns \<and>
     bytes (node_position node) = bytes (node_position (ns ! link_node l)) + tree_bytes (link_subtree l) \<and>
     node_error_cost node = node_error_cost (ns ! link_node l) + tree_cost (link_subtree l)"

definition node_ok :: "StackNode list \<Rightarrow> StackNode \<Rightarrow> bool" where
  "node_ok ns node \<longleftrightarrow> length (links node) \<le> MAX_LINK_COUNT \<and> list_all (link_ok ns node) (links node)"

definition store_ok :: "StackNode list \<Rightarrow> bool" where
  "store_ok ns \<longleftrightarrow> list_all (node_ok ns) ns \<and>
     (\<forall>i < length ns. links (ns ! i) = [] \<longrightarrow> bytes (node_position (ns ! i)) = 0 \<and> node_error_cost (ns ! i) = 0)"

definition stack_ok :: "Stack \<Rightarrow> bool" where
  "stack_ok s \<longleftrightarrow> store_ok (nodes s) \<and> base_node s < length (nodes s) \<and>
     (\<forall>h \<in> set (heads s). head_node h < length (nodes s))"

lemma item_Some_iff: "item xs i = Some x \<longleftrightarrow> i < length xs \<and> xs ! i = x"
  by (auto simp: item_def)

lemma store_ok_node: "store_ok ns \<Longrightarrow> i < length ns \<Longrightarrow> node_ok ns (ns ! i)"
  by (auto simp: store_ok_def list_all_length)

section \<open>Stores that differ in their links only\<close>

definition same_keys :: "StackNode list \<Rightarrow> StackNode list \<Rightarrow> bool" where
  "same_keys ns ns' \<longleftrightarrow> length ns' = length ns \<and>
     (\<forall>i < length ns. node_state (ns' ! i) = node_state (ns ! i) \<and> node_position (ns' ! i) = node_position (ns ! i) \<and>
        node_error_cost (ns' ! i) = node_error_cost (ns ! i) \<and> length (links (ns ! i)) \<le> length (links (ns' ! i)))"

lemma same_keys_refl [simp]: "same_keys ns ns"
  by (simp add: same_keys_def)

lemma same_keys_trans: "same_keys a b \<Longrightarrow> same_keys b c \<Longrightarrow> same_keys a c"
  by (auto simp: same_keys_def) (meson order_trans)

lemma link_ok_same_keys: "same_keys ns ns' \<Longrightarrow> link_ok ns' node l = link_ok ns node l"
  by (auto simp: same_keys_def link_ok_def)

lemma link_ok_key:
  "bytes (node_position m) = bytes (node_position n) \<Longrightarrow> node_error_cost m = node_error_cost n \<Longrightarrow> link_ok ns m l = link_ok ns n l"
  by (simp add: link_ok_def)

text \<open>A store in which one node gets other links.\<close>

lemma store_ok_update:
  assumes "store_ok ns" and "i < length ns"
    and "node_state node = node_state (ns ! i)" "node_position node = node_position (ns ! i)"
      "node_error_cost node = node_error_cost (ns ! i)" "length (links (ns ! i)) \<le> length (links node)"
    and "length (links node) \<le> MAX_LINK_COUNT" "\<And>l. l \<in> set (links node) \<Longrightarrow> link_ok ns (ns ! i) l"
  shows "store_ok (ns[i := node]) \<and> same_keys ns (ns[i := node])"
proof -
  have keys: "same_keys ns (ns[i := node])" using assms(2-6) by (auto simp: same_keys_def nth_list_update)
  have "node_ok (ns[i := node]) (ns[i := node] ! j)" if "j < length ns" for j
    using store_ok_node [OF assms(1) that] assms(2-8) that
    by (auto simp: node_ok_def list_all_iff link_ok_same_keys [OF keys] nth_list_update link_ok_key [of node "ns ! i"])
  moreover have "links (ns[i := node] ! j) = [] \<longrightarrow> bytes (node_position (ns[i := node] ! j)) = 0 \<and>
      node_error_cost (ns[i := node] ! j) = 0" if "j < length ns" for j
    using assms(1-6) that by (auto simp: store_ok_def nth_list_update)
  ultimately show ?thesis using keys by (simp add: store_ok_def list_all_length)
qed

section \<open>Adding links\<close>

lemma find_link_Some:
  "find_link ns link target i ls = Some (Some (j, existing)) \<Longrightarrow>
     i \<le> j \<and> j < i + length ls \<and> existing = ls ! (j - i) \<and>
     stack__subtree_is_equivalent (link_subtree existing) (link_subtree link) \<and>
     (link_node existing \<noteq> link_node link \<longrightarrow>
        link_node existing < length ns \<and> mergeable (ns ! link_node existing) target)"
proof (induction ls arbitrary: i)
  case (Cons l ls)
  let ?eq = "stack__subtree_is_equivalent (link_subtree l) (link_subtree link)"
  let ?merge = "link_node l < length ns \<and> mergeable (ns ! link_node l) target"
  show ?case
  proof (cases "?eq \<and> (link_node l = link_node link \<or> ?merge)")
    case True
    with Cons.prems have "j = i" "existing = l" by (auto simp: item_def split: if_splits)
    with True show ?thesis by auto
  next
    case False
    with Cons.prems have "find_link ns link target (i + 1) ls = Some (Some (j, existing))"
      by (auto simp: item_def split: if_splits)
    from Cons.IH [OF this] show ?thesis by (auto simp: Suc_diff_le nth_Cons')
  qed
qed simp

lemma replace_link_ok:
  assumes "store_ok ns" "self < length ns" "link_ok ns (ns ! self) link" "i < length (links (ns ! self))"
    "existing = links (ns ! self) ! i" "link_node existing = link_node link"
    and "replace_link ns self i existing link = Some ns'"
  shows "store_ok ns' \<and> same_keys ns ns'"
proof -
  obtain t where t: "link_subtree link = Some t" using assms(7) by (auto simp: replace_link_def bind_eq_Some_conv)
  have "link_ok ns (ns ! self) (existing\<lparr>link_subtree := Some t\<rparr>)" using assms(3,6) t by (simp add: link_ok_def)
  moreover have "link_ok ns (ns ! self) l" if "l \<in> set (links (ns ! self))" for l
    using store_ok_node [OF assms(1,2)] that by (simp add: node_ok_def list_all_iff)
  ultimately have "link_ok ns (ns ! self) l" if "l \<in> set ((links (ns ! self))[i := existing\<lparr>link_subtree := Some t\<rparr>])" for l
    using that set_update_subset_insert [of "links (ns ! self)" i "existing\<lparr>link_subtree := Some t\<rparr>"] by auto
  moreover have "length (links (ns ! self)) \<le> MAX_LINK_COUNT"
    using store_ok_node [OF assms(1,2)] by (simp add: node_ok_def)
  ultimately have "store_ok (ns[self := (ns ! self)\<lparr>links := (links (ns ! self))[i := existing\<lparr>link_subtree := Some t\<rparr>],
      node_dynamic_precedence := p\<rparr>]) \<and> same_keys ns (ns[self := (ns ! self)\<lparr>links := (links (ns ! self))[i :=
      existing\<lparr>link_subtree := Some t\<rparr>], node_dynamic_precedence := p\<rparr>])" for p
    by (intro store_ok_update [OF assms(1,2)]) auto
  then show ?thesis
    using assms(1,7) t by (auto simp: replace_link_def bind_eq_Some_conv item_Some_iff split: if_splits)
qed

lemma append_link_ok:
  assumes "store_ok ns" "self < length ns" "link_ok ns (ns ! self) link"
  shows "store_ok (append_link ns self (ns ! self) target link) \<and> same_keys ns (append_link ns self (ns ! self) target link)"
proof (cases "length (links (ns ! self)) = MAX_LINK_COUNT")
  case False
  have "node_ok ns (ns ! self)" by (rule store_ok_node [OF assms(1,2)])
  then have "length (links (ns ! self)) < MAX_LINK_COUNT" "\<forall>l \<in> set (links (ns ! self) @ [link]). link_ok ns (ns ! self) l"
    using False assms(3) by (auto simp: node_ok_def list_all_iff)
  then show ?thesis
    unfolding append_link_def Let_def if_not_P [OF False]
    by (intro store_ok_update [OF assms(1,2)]) (auto split: if_splits)
qed (simp add: append_link_def assms)

lemma raise_precedence_ok:
  assumes "store_ok ns" "raise_precedence ns self link = Some ns'"
  shows "store_ok ns' \<and> same_keys ns ns'"
proof -
  obtain p where "self < length ns" "ns' = ns \<or> ns' = ns[self := (ns ! self)\<lparr>node_dynamic_precedence := p\<rparr>]"
    using assms(2) by (auto simp: raise_precedence_def bind_eq_Some_conv item_Some_iff Let_def split: if_splits)
  moreover from this have "node_ok ns (ns ! self)" using store_ok_node [OF assms(1)] by simp
  ultimately show ?thesis
    using store_ok_update [OF assms(1), of self "(ns ! self)\<lparr>node_dynamic_precedence := p\<rparr>"] assms(1)
    by (auto simp: node_ok_def list_all_iff)
qed

text \<open>A property of adding one link carries over to the loop that adds the links of another node.\<close>

lemma merge_links_ok:
  assumes "\<And>ns self link ns'. store_ok ns \<Longrightarrow> self < length ns \<Longrightarrow> link_ok ns (ns ! self) link \<Longrightarrow> add ns self link = Some ns' \<Longrightarrow>
      store_ok ns' \<and> same_keys ns ns'"
    and "store_ok ns" "self < length ns" "mergeable (ns ! self) (ns ! other)" and "merge_links add ns self other js = Some ns'"
  shows "store_ok ns' \<and> same_keys ns ns'"
  using assms(2-)
proof (induction js arbitrary: ns)
  case (Cons j js)
  show ?case
  proof (cases "j < length (links (ns ! other))")
    case True
    from Cons.prems(4) True obtain ns2 where ns2: "other < length ns" "add ns self (links (ns ! other) ! j) = Some ns2"
      "merge_links add ns2 self other js = Some ns'" by (auto simp: bind_eq_Some_conv item_Some_iff)
    have "link_ok ns (ns ! other) (links (ns ! other) ! j)"
      using store_ok_node [OF Cons.prems(1) ns2(1)] True by (simp add: node_ok_def list_all_length)
    then have "link_ok ns (ns ! self) (links (ns ! other) ! j)"
      using Cons.prems(3) by (simp add: mergeable_def link_ok_key [of "ns ! self" "ns ! other"])
    from assms(1) [OF Cons.prems(1,2) this ns2(2)] have ok: "store_ok ns2" "same_keys ns ns2" by simp_all
    then have "mergeable (ns2 ! self) (ns2 ! other)" "self < length ns2"
      using Cons.prems(2,3) ns2(1) by (simp_all add: same_keys_def mergeable_def)
    with Cons.IH [OF ok(1) _ _ ns2(3)] ok(2) show ?thesis by (auto intro: same_keys_trans)
  qed (use Cons.prems in \<open>auto simp: bind_eq_Some_conv item_Some_iff\<close>)
qed simp

lemma add_link_ok:
  assumes "store_ok ns" "self < length ns" "link_ok ns (ns ! self) link" "stack_node_add_link fuel ns self link = Some ns'"
  shows "store_ok ns' \<and> same_keys ns ns'"
  using assms
proof (induction fuel arbitrary: ns self link ns')
  case (Suc fuel)
  show ?case
  proof (cases "link_node link = self")
    case False
    let ?target = "ns ! link_node link"
    from Suc.prems(3) have target: "item ns (link_node link) = Some ?target" by (simp add: link_ok_def item_def)
    have node: "item ns self = Some (ns ! self)" using Suc.prems(2) by (simp add: item_def)
    from Suc.prems(4) False obtain found where found: "find_link ns link ?target 0 (links (ns ! self)) = Some found"
      by (auto simp: bind_eq_Some_conv target node)
    show ?thesis
    proof (cases found)
      case None
      with Suc.prems False found append_link_ok [of ns self link] show ?thesis by (auto simp: target node)
    next
      case (Some p)
      obtain i existing where p: "p = (i, existing)" by (cases p)
      from find_link_Some [of ns link ?target 0 _ i existing] found Some p
      have e: "i < length (links (ns ! self))" "existing = links (ns ! self) ! i"
        "link_node existing \<noteq> link_node link \<Longrightarrow> link_node existing < length ns \<and> mergeable (ns ! link_node existing) ?target"
        by auto
      show ?thesis
      proof (cases "link_node existing = link_node link")
        case True
        with Suc.prems False found Some p e replace_link_ok [of ns self link i existing ns'] show ?thesis
          by (auto simp: target node)
      next
        case differ: False
        with Suc.prems(4) False found Some p obtain ns2
          where ns2: "merge_links (stack_node_add_link fuel) ns (link_node existing) (link_node link) [0..<MAX_LINK_COUNT] = Some ns2"
            "raise_precedence ns2 self link = Some ns'" by (auto simp: target node bind_eq_Some_conv)
        from merge_links_ok [OF Suc.IH Suc.prems(1) _ _ ns2(1)] e(3) [OF differ]
        have "store_ok ns2" "same_keys ns ns2" by auto
        with raise_precedence_ok [OF _ ns2(2)] show ?thesis by (auto intro: same_keys_trans)
      qed
    qed
  qed (use Suc.prems in auto)
qed simp

section \<open>The operations\<close>

lemma node_ok_append:
  assumes "store_ok ns" "i < length ns" shows "node_ok (ns @ ms) (ns ! i)"
  using store_ok_node [OF assms] by (auto simp: node_ok_def list_all_iff link_ok_def nth_append)

lemma push_ok:
  assumes "stack_ok s" and "ts_stack_push s v t p st = Some s'"
  shows "stack_ok s'"
proof -
  obtain head where head: "v < length (heads s)" "heads s ! v = head" "head_node head < length (nodes s)"
    using assms(2) by (auto simp: ts_stack_push_def stack_top_def bind_eq_Some_conv item_Some_iff)
  let ?new = "stack_node_new (Some (head_node head, nodes s ! head_node head)) t p st"
  have new: "node_ok (nodes s @ [?new]) ?new" "links ?new \<noteq> []"
    using head(3) by (cases t; auto simp: node_ok_def link_ok_def stack_node_new_def tree_bytes_def tree_cost_def nth_append
        length_add_def ts_subtree_total_bytes_def Let_def)+
  have st: "store_ok (nodes s)" using assms(1) by (simp add: stack_ok_def)
  have "node_ok (nodes s @ [?new]) ((nodes s @ [?new]) ! i)" if "i < Suc (length (nodes s))" for i
    using new(1) node_ok_append [OF st, of i "[?new]"] that by (cases "i = length (nodes s)") (auto simp: nth_append)
  moreover have "links ((nodes s @ [?new]) ! i) = [] \<longrightarrow> bytes (node_position ((nodes s @ [?new]) ! i)) = 0 \<and>
      node_error_cost ((nodes s @ [?new]) ! i) = 0" if "i < Suc (length (nodes s))" for i
    using new(2) st that by (cases "i = length (nodes s)") (auto simp: nth_append store_ok_def)
  ultimately have "store_ok (nodes s @ [?new])" by (simp add: store_ok_def list_all_length)
  then show ?thesis
    using assms head by (auto simp: stack_ok_def ts_stack_push_def stack_top_def bind_eq_Some_conv item_Some_iff Let_def less_Suc_eq
        dest!: set_update_subset_insert [THEN subsetD] split: if_splits)
qed

text \<open>An operation that keeps the store and only has heads at nodes of the old ones keeps the invariant.\<close>

lemma stack_ok_heads:
  assumes "stack_ok s" "nodes s' = nodes s" "base_node s' = base_node s"
    and "head_node ` set (heads s') \<subseteq> {i. i < length (nodes s)}"
  shows "stack_ok s'"
  using assms by (auto simp: stack_ok_def)

lemma update_head_ok:
  assumes "stack_ok s" "update_head s v f = Some s'" "\<And>h. head_node (f h) = head_node h"
  shows "stack_ok s'"
proof (rule stack_ok_heads [OF assms(1)])
  show "head_node ` set (heads s') \<subseteq> {i. i < length (nodes s)}"
    using assms by (auto simp: update_head_def bind_eq_Some_conv item_Some_iff stack_ok_def
        dest!: set_update_subset_insert [THEN subsetD])
qed (use assms in \<open>auto simp: update_head_def bind_eq_Some_conv stack_ok_def\<close>)

lemma array_erase_subset: "set (array_erase xs i) \<subseteq> set xs"
  by (auto simp: array_erase_def dest: in_set_takeD in_set_dropD)

lemma remove_version_ok:
  assumes "stack_ok s" "ts_stack_remove_version s v = Some s'"
  shows "stack_ok s'"
proof (rule stack_ok_heads [OF assms(1)])
  show "head_node ` set (heads s') \<subseteq> {i. i < length (nodes s)}"
    using assms(1,2) array_erase_subset by (fastforce simp: ts_stack_remove_version_def stack_ok_def split: if_splits)
qed (use assms in \<open>auto simp: ts_stack_remove_version_def split: if_splits\<close>)

lemma renumber_version_ok:
  assumes "stack_ok s" "ts_stack_renumber_version s v1 v2 = Some s'"
  shows "stack_ok s'"
proof (cases "v1 = v2")
  case False
  let ?src = "heads s ! v1"
  let ?head = "if summary ?src = None then ?src\<lparr>summary := summary (heads s ! v2)\<rparr> else ?src"
  from assms(2) False have v: "v2 < v1" "v1 < length (heads s)" and s': "s' = s\<lparr>heads := array_erase ((heads s)[v2 := ?head]) v1\<rparr>"
    by (auto simp: ts_stack_renumber_version_def Let_def split: if_splits)
  have "head_node ?head < length (nodes s)" using assms(1) v by (auto simp: stack_ok_def)
  moreover have "set (heads s') \<subseteq> insert ?head (set (heads s))"
    using array_erase_subset [of "(heads s)[v2 := ?head]" v1] set_update_subset_insert [of "heads s" v2 ?head] by (auto simp: s')
  ultimately show ?thesis using assms(1) by (intro stack_ok_heads [OF assms(1)]) (auto simp: s' stack_ok_def)
qed (use assms in \<open>simp add: ts_stack_renumber_version_def\<close>)

lemma swap_versions_ok:
  assumes "stack_ok s" "ts_stack_swap_versions s v1 v2 = Some s'"
  shows "stack_ok s'"
proof (rule stack_ok_heads [OF assms(1)])
  show "head_node ` set (heads s') \<subseteq> {i. i < length (nodes s)}"
    using assms by (auto simp: ts_stack_swap_versions_def bind_eq_Some_conv item_Some_iff stack_ok_def
        dest!: set_update_subset_insert [THEN subsetD])
qed (use assms in \<open>auto simp: ts_stack_swap_versions_def bind_eq_Some_conv stack_ok_def\<close>)

lemma copy_version_ok:
  assumes "stack_ok s" "ts_stack_copy_version s v = Some (s', w)"
  shows "stack_ok s'"
  using assms by (auto simp: ts_stack_copy_version_def bind_eq_Some_conv item_Some_iff stack_ok_def)

lemma merge_ok:
  assumes "stack_ok s" "ts_stack_merge fuel s v1 v2 = Some (s', b)"
  shows "stack_ok s'"
proof (cases b)
  case True
  define head1 where "head1 = heads s ! v1"
  define head2 where "head2 = heads s ! v2"
  from True assms(2) obtain store where v: "v1 < length (heads s)" "v2 < length (heads s)"
    and m: "mergeable (nodes s ! head_node head1) (nodes s ! head_node head2)"
      "merge_links (stack_node_add_link fuel) (nodes s) (head_node head1) (head_node head2) [0..<MAX_LINK_COUNT] = Some store"
    and s': "ts_stack_remove_version (s\<lparr>nodes := store, heads := (heads s)[v1 :=
        if node_state (store ! head_node head1) = ERROR_STATE
        then head1\<lparr>node_count_at_last_error := node_count (store ! head_node head1)\<rparr> else head1]\<rparr>) v2 = Some s'"
    by (auto simp: ts_stack_merge_def ts_stack_can_merge_def stack_top_def bind_eq_Some_conv item_Some_iff Let_def
        head1_def head2_def split: if_splits)
  define h where "h = (if node_state (store ! head_node head1) = ERROR_STATE
        then head1\<lparr>node_count_at_last_error := node_count (store ! head_node head1)\<rparr> else head1)"
  have h: "head_node h = head_node head1" "ts_stack_remove_version (s\<lparr>nodes := store, heads := (heads s)[v1 := h]\<rparr>) v2 = Some s'"
    using s' by (simp_all add: h_def)
  have n1: "head_node head1 < length (nodes s)" using assms(1) v by (auto simp: stack_ok_def head1_def)
  have "store_ok (nodes s)" using assms(1) by (simp add: stack_ok_def)
  with merge_links_ok [OF add_link_ok _ n1 m] have "store_ok store" "same_keys (nodes s) store" by auto
  then have "stack_ok (s\<lparr>nodes := store, heads := (heads s)[v1 := h]\<rparr>)" using assms(1) h(1) n1 by (auto simp: stack_ok_def same_keys_def dest!: set_update_subset_insert [THEN subsetD])
  with h(2) show ?thesis by (rule remove_version_ok [rotated])
next
  case False
  with assms(1,2) show ?thesis by (auto simp: ts_stack_merge_def bind_eq_Some_conv Let_def split: if_splits)
qed

section \<open>Iteration keeps the invariant\<close>

lemma add_slice_ok:
  assumes "stack_ok s" "ts_stack__add_slice s v n ts = Some s'" "n < length (nodes s)"
  shows "stack_ok s' \<and> nodes s' = nodes s"
  using assms
  by (auto simp: ts_stack__add_slice_def ts_stack__add_version_def bind_eq_Some_conv stack_ok_def split: option.splits)

lemma it_node_follow [simp]: "it_node (follow_link inc l it) = link_node l"
  by (auto simp: follow_link_def Let_def split: option.split)

lemma push_iterators_nodes:
  "it \<in> set (push_iterators inc n it0 ls new) \<Longrightarrow> it \<in> set new \<or> it_node it \<in> link_node ` set ls"
  by (induction inc n it0 ls new rule: push_iterators.induct) (auto split: if_splits)

definition in_store :: "StackNode list \<Rightarrow> StackIterator list \<Rightarrow> bool" where
  "in_store ns its \<longleftrightarrow> (\<forall>it \<in> set its. it_node it < length ns)"

lemma iter_round_ok:
  assumes "iter_round callback inc v past its new (s, p) = Some (its', s', p')" "stack_ok s" "in_store (nodes s) (past @ its @ new)"
  shows "stack_ok s' \<and> nodes s' = nodes s \<and> in_store (nodes s) its'"
  using assms
proof (induction callback inc v past its new "(s, p)" arbitrary: s p rule: iter_round.induct)
  case (2 callback inc v past it its new s p)
  let ?n = "nodes s ! it_node it"
  have n: "it_node it < length (nodes s)" using "2.prems"(3) by (simp add: in_store_def)
  obtain p1 action where act: "callback p it ?n = (p1, action)" by fastforce
  from "2.prems"(1) n act obtain s1 where
    s1: "(if action_pop action then ts_stack__add_slice s v (it_node it) (ts_subtree_array_reverse (it_subtrees it)) else Some s) = Some s1"
    and rest: "(if action_stop action \<or> links ?n = [] then iter_round callback inc v past its new (s1, p1)
       else iter_round callback inc v (past @ [follow_link inc (hd (links ?n)) it]) its
              (push_iterators inc (length past + 1 + length its) it (tl (links ?n)) new) (s1, p1)) = Some (its', s', p')"
    by (auto simp: item_def bind_eq_Some_conv Let_def)
  have ok: "stack_ok s1" "nodes s1 = nodes s"
    using s1 add_slice_ok [OF "2.prems"(2) _ n] "2.prems"(2) by (auto split: if_splits)
  have "list_all (link_ok (nodes s) ?n) (links ?n)"
    using "2.prems"(2) store_ok_node [OF _ n] by (simp add: stack_ok_def node_ok_def)
  then have ln: "link_node l < length (nodes s)" if "l \<in> set (links ?n)" for l
    using that by (simp add: list_all_iff link_ok_def)
  show ?case
  proof (cases "action_stop action \<or> links ?n = []")
    case True
    then show ?thesis
      using "2.hyps"(1) [of ?n "(p1, action)" p1 action "action_stop action \<or> links ?n = []" s1] s1 rest ok "2.prems"(3) n act
      by (auto simp: item_def in_store_def)
  next
    case False
    have "in_store (nodes s) ((past @ [follow_link inc (hd (links ?n)) it]) @ its @
        push_iterators inc (length past + 1 + length its) it (tl (links ?n)) new)"
      using "2.prems"(3) False ln by (auto simp: in_store_def dest!: push_iterators_nodes list.set_sel(2) [rotated])
    with False show ?thesis
      using "2.hyps"(2) [of ?n "(p1, action)" p1 action "action_stop action \<or> links ?n = []" s1] s1 rest ok n act
      by (auto simp: item_def)
  qed
qed auto

lemma iter_loop_ok:
  assumes "iter_loop fuel callback inc v its (s, p) = Some (s', p')" "stack_ok s" "in_store (nodes s) its"
  shows "stack_ok s' \<and> nodes s' = nodes s"
  using assms
proof (induction fuel callback inc v its "(s, p)" arbitrary: s p rule: iter_loop.induct)
  case (3 fuel callback inc v it its s p)
  then obtain its1 s1 p1 where r: "iter_round callback inc v [] (it # its) [] (s, p) = Some (its1, s1, p1)"
    "iter_loop fuel callback inc v its1 (s1, p1) = Some (s', p')" by (auto simp: bind_eq_Some_conv)
  from iter_round_ok [OF r(1) "3.prems"(2)] "3.prems"(3)
  have "stack_ok s1" "nodes s1 = nodes s" "in_store (nodes s) its1" by auto
  with "3.hyps" [OF r(1) refl refl r(2)] show ?case by simp
qed auto

lemma iter_ok:
  assumes "stack__iter fuel s v callback p goal = Some (s', p')" "stack_ok s"
  shows "stack_ok s' \<and> nodes s' = nodes s"
  using assms iter_loop_ok
  by (fastforce simp: stack__iter_def bind_eq_Some_conv Let_def item_Some_iff stack_ok_def in_store_def)

section \<open>Reachable stacks\<close>

text \<open>The stacks that the interface of \<open>stack.h\<close> can lead to, for all arguments and any fuel that is enough.\<close>

inductive stack_reachable :: "Stack \<Rightarrow> bool" where
  new: "stack_reachable ts_stack_new"
| clear: "stack_reachable s \<Longrightarrow> stack_reachable (ts_stack_clear s)"
| push: "stack_reachable s \<Longrightarrow> ts_stack_push s v t p st = Some s' \<Longrightarrow> stack_reachable s'"
| pop_count: "stack_reachable s \<Longrightarrow> ts_stack_pop_count fuel s v n = Some (s', sl) \<Longrightarrow> stack_reachable s'"
| pop_pending: "stack_reachable s \<Longrightarrow> ts_stack_pop_pending fuel s v = Some (s', sl) \<Longrightarrow> stack_reachable s'"
| pop_error: "stack_reachable s \<Longrightarrow> ts_stack_pop_error fuel s v = Some (s', ts) \<Longrightarrow> stack_reachable s'"
| pop_all: "stack_reachable s \<Longrightarrow> ts_stack_pop_all fuel s v = Some (s', sl) \<Longrightarrow> stack_reachable s'"
| summary: "stack_reachable s \<Longrightarrow> ts_stack_record_summary fuel s v d = Some s' \<Longrightarrow> stack_reachable s'"
| remove: "stack_reachable s \<Longrightarrow> ts_stack_remove_version s v = Some s' \<Longrightarrow> stack_reachable s'"
| renumber: "stack_reachable s \<Longrightarrow> ts_stack_renumber_version s v w = Some s' \<Longrightarrow> stack_reachable s'"
| swap: "stack_reachable s \<Longrightarrow> ts_stack_swap_versions s v w = Some s' \<Longrightarrow> stack_reachable s'"
| copy: "stack_reachable s \<Longrightarrow> ts_stack_copy_version s v = Some (s', w) \<Longrightarrow> stack_reachable s'"
| merge: "stack_reachable s \<Longrightarrow> ts_stack_merge fuel s v w = Some (s', b) \<Longrightarrow> stack_reachable s'"
| count_since_error: "stack_reachable s \<Longrightarrow> ts_stack_node_count_since_error s v = Some (s', c) \<Longrightarrow> stack_reachable s'"
| token: "stack_reachable s \<Longrightarrow> ts_stack_set_last_external_token s v t = Some s' \<Longrightarrow> stack_reachable s'"
| halt: "stack_reachable s \<Longrightarrow> ts_stack_halt s v = Some s' \<Longrightarrow> stack_reachable s'"
| pause: "stack_reachable s \<Longrightarrow> ts_stack_pause s v t = Some s' \<Longrightarrow> stack_reachable s'"
| resume: "stack_reachable s \<Longrightarrow> ts_stack_resume s v = Some (s', t) \<Longrightarrow> stack_reachable s'"

lemma pop_pending_ok:
  assumes "stack_ok s" "ts_stack_pop_pending fuel s v = Some (s', sl)"
  shows "stack_ok s'"
proof -
  obtain s1 where s1: "stack__iter fuel s v pop_pending_callback () 0 = Some (s1, ())"
    using assms(2) by (auto simp: ts_stack_pop_pending_def bind_eq_Some_conv)
  note ok = conjunct1 [OF iter_ok [OF s1 assms(1)]]
  have "s' = s1 \<or> (\<exists>s2 x. ts_stack_renumber_version s1 x v = Some s2 \<and> s' = s2\<lparr>slices := sl\<rparr>)"
    using assms(2) s1 by (auto simp: ts_stack_pop_pending_def bind_eq_Some_conv Let_def split: list.splits)
  then show ?thesis using ok renumber_version_ok [OF ok] by (auto simp: stack_ok_def)
qed

lemma pop_error_ok:
  assumes "stack_ok s" "ts_stack_pop_error fuel s v = Some (s', ts)"
  shows "stack_ok s'"
proof -
  consider "s' = s" | s1 p where "stack__iter fuel s v pop_error_callback False 1 = Some (s1, p)"
      "(case slices s1 of [] \<Rightarrow> Some (s1, []) | [popped] \<Rightarrow> do {
           self \<leftarrow> ts_stack_renumber_version s1 (slice_version popped) v;
           Some (self, slice_subtrees popped) } | _ \<Rightarrow> None) = Some (s', ts)"
    using assms(2) by (auto simp: ts_stack_pop_error_def bind_eq_Some_conv split: if_splits)
  then show ?thesis
  proof cases
    case (2 s1 p)
    have "stack_ok s1" using iter_ok [OF 2(1) assms(1)] by simp
    with 2(2) renumber_version_ok show ?thesis
      by (cases "slices s1"; cases "tl (slices s1)") (auto simp: bind_eq_Some_conv)
  qed (use assms(1) in simp)
qed

lemma reachable_ok: "stack_reachable s \<Longrightarrow> stack_ok s"
proof (induction rule: stack_reachable.induct)
  case new
  show ?case by (simp add: ts_stack_new_def ts_stack_clear_def stack_ok_def store_ok_def stack_node_new_def node_ok_def length_zero_def)
next
  case (clear s)
  then show ?case by (simp add: ts_stack_clear_def stack_ok_def)
next
  case (push s v t p st s')
  show ?case by (rule push_ok [OF push.IH push.hyps(2)])
next
  case (pop_count s fuel v n s' sl)
  then show ?case by (auto simp: ts_stack_pop_count_def dest: iter_ok)
next
  case (pop_pending s fuel v s' sl)
  show ?case by (rule pop_pending_ok [OF pop_pending.IH pop_pending.hyps(2)])
next
  case (pop_error s fuel v s' ts)
  show ?case by (rule pop_error_ok [OF pop_error.IH pop_error.hyps(2)])
next
  case (pop_all s fuel v s' sl)
  then show ?case by (auto simp: ts_stack_pop_all_def dest: iter_ok)
next
  case (summary s fuel v d s')
  then obtain s1 sm where s1: "stack__iter fuel s v (summarize_stack_callback d) [] (- 1) = Some (s1, sm)"
    "update_head s1 v (summary_update (\<lambda>_. Some sm)) = Some s'" by (auto simp: ts_stack_record_summary_def bind_eq_Some_conv)
  show ?case by (rule update_head_ok [OF _ s1(2)]) (use iter_ok [OF s1(1) summary.IH] in simp_all)
next
  case (remove s v s')
  show ?case by (rule remove_version_ok [OF remove.IH remove.hyps(2)])
next
  case (renumber s v w s')
  show ?case by (rule renumber_version_ok [OF renumber.IH renumber.hyps(2)])
next
  case (swap s v w s')
  show ?case by (rule swap_versions_ok [OF swap.IH swap.hyps(2)])
next
  case (copy s v s' w)
  show ?case by (rule copy_version_ok [OF copy.IH copy.hyps(2)])
next
  case (merge s fuel v w s' b)
  show ?case by (rule merge_ok [OF merge.IH merge.hyps(2)])
next
  case (count_since_error s v s' c)
  from count_since_error.hyps(2) obtain e where "update_head s v (node_count_at_last_error_update (\<lambda>_. e)) = Some s'"
    by (auto simp: ts_stack_node_count_since_error_def bind_eq_Some_conv Let_def)
  then show ?case by (rule update_head_ok [OF count_since_error.IH]) simp
next
  case (token s v t s')
  from token.hyps(2) show ?case
    unfolding ts_stack_set_last_external_token_def by (rule update_head_ok [OF token.IH]) simp
next
  case (halt s v s')
  from halt.hyps(2) show ?case unfolding ts_stack_halt_def by (rule update_head_ok [OF halt.IH]) simp
next
  case (pause s v t s')
  from pause.hyps(2) obtain c where "update_head s v (\<lambda>h. h\<lparr>node_count_at_last_error := c, lookahead_when_paused := t,
      head_status := StackStatusPaused\<rparr>) = Some s'" by (auto simp: ts_stack_pause_def bind_eq_Some_conv)
  then show ?case by (rule update_head_ok [OF pause.IH]) simp
next
  case (resume s v s' t)
  from resume.hyps(2) have "update_head s v (\<lambda>h. h\<lparr>lookahead_when_paused := None, head_status := StackStatusActive\<rparr>) = Some s'"
    by (auto simp: ts_stack_resume_def bind_eq_Some_conv split: if_splits)
  then show ?case by (rule update_head_ok [OF resume.IH]) simp
qed

section \<open>Paths\<close>

text \<open>\<open>path ns n ls m\<close>: the links \<open>ls\<close> lead from the node \<open>n\<close> to the node \<open>m\<close>.\<close>

fun path :: "StackNode list \<Rightarrow> nat \<Rightarrow> StackLink list \<Rightarrow> nat \<Rightarrow> bool" where
  "path ns n [] m = (n = m)"
| "path ns n (l # ls) m = (l \<in> set (links (ns ! n)) \<and> path ns (link_node l) ls m)"

lemma path_sums:
  assumes "store_ok ns" "n < length ns" "path ns n ls m" "links (ns ! m) = []"
  shows "bytes (node_position (ns ! n)) = sum_list (map (tree_bytes \<circ> link_subtree) ls) \<and>
    node_error_cost (ns ! n) = sum_list (map (tree_cost \<circ> link_subtree) ls)"
  using assms(2,3)
proof (induction ls arbitrary: n)
  case Nil
  with assms(1,4) show ?case by (auto simp: store_ok_def)
next
  case (Cons l ls)
  then have "link_ok ns (ns ! n) l"
    using store_ok_node [OF assms(1) Cons.prems(1)] by (auto simp: node_ok_def list_all_iff)
  with Cons show ?case by (auto simp: link_ok_def add.commute)
qed

text \<open>
  C5. In every stack that the operations can reach, by any sequence of pushes, pops, merges and the other calls, a version's position
  in bytes is the sum of the sizes of the trees on each path from its top to the base, and so is the error cost of its
  top node. So merging versions never joins paths that disagree, and no node has more than 8 links.
\<close>

theorem stack_paths_add_up:
  assumes "stack_reachable s" and "stack_top s v = Some (head, node)"
  shows "length (links node) \<le> MAX_LINK_COUNT \<and>
    (\<forall>ls m. path (nodes s) (head_node head) ls m \<and> links (nodes s ! m) = [] \<longrightarrow>
       map_option bytes (ts_stack_position s v) = Some (sum_list (map (tree_bytes \<circ> link_subtree) ls)) \<and>
       node_error_cost node = sum_list (map (tree_cost \<circ> link_subtree) ls))"
proof -
  have ok: "store_ok (nodes s)" using reachable_ok [OF assms(1)] by (simp add: stack_ok_def)
  have n: "head_node head < length (nodes s)" "node = nodes s ! head_node head"
    using assms(2) by (auto simp: stack_top_def bind_eq_Some_conv item_Some_iff)
  then show ?thesis
    using path_sums [OF ok n(1)] store_ok_node [OF ok n(1)] assms(2) by (auto simp: ts_stack_position_def node_ok_def)
qed

text \<open>A stack with one leaf of two bytes, behind one byte of white space.\<close>

definition stack_leaf :: Subtree where
  "stack_leaf = Inline \<lparr>in_visible = True, in_named = True, in_extra = False, in_has_changes = False,
     in_is_missing = False, in_is_keyword = False, in_symbol = 1, in_parse_state = 1, in_padding_columns = 1,
     in_padding_rows = 0, in_lookahead_bytes = 0, in_padding_bytes = 1, in_size_bytes = 2\<rparr>"

definition sample_stack :: Stack where
  "sample_stack = (case ts_stack_push ts_stack_new 0 (Some stack_leaf) False 5 of Some s \<Rightarrow> s | None \<Rightarrow> ts_stack_new)"

lemma sample_stack_push: "ts_stack_push ts_stack_new 0 (Some stack_leaf) False 5 = Some sample_stack"
  by code_simp

theorem stack_paths_add_up_witness:
  "stack_reachable sample_stack \<and> map_option bytes (ts_stack_position sample_stack 0) = Some 3"
proof -
  have r: "stack_reachable sample_stack" by (rule push [OF new sample_stack_push])
  have top: "stack_top sample_stack 0 = Some (heads sample_stack ! 0, nodes sample_stack ! 1)" by code_simp
  let ?ls = "[\<lparr>link_node = 0, link_subtree = Some stack_leaf, link_is_pending = False\<rparr>]"
  have p: "path (nodes sample_stack) (head_node (heads sample_stack ! 0)) ?ls 0" "links (nodes sample_stack ! 0) = []"
    and b: "tree_bytes (Some stack_leaf) = 3" by code_simp+
  from conjunct2 [OF stack_paths_add_up [OF r top], rule_format, OF conjI [OF p]] r b show ?thesis by simp
qed

end
