(* ===== verification/Stack_Pop.thy ===== *)
theory Stack_Pop
  imports Stack_Proofs Subtree_Compare "HOL-Library.Multiset"
begin

text \<open>
  Popping from the parse stack. \<open>stack__iter\<close> walks all paths from a node at once, with an array of iterators that it changes in
  place; its result is what a recursive traversal of the graph finds.
\<close>

section \<open>The specification\<close>

definition counted :: "StackLink \<Rightarrow> nat" where
  "counted l = (case link_subtree l of None \<Rightarrow> 1 | Some t \<Rightarrow> if ts_subtree_extra t then 0 else 1)"

definition trees_of :: "StackLink \<Rightarrow> Subtree list" where
  "trees_of l = (case link_subtree l of None \<Rightarrow> [] | Some t \<Rightarrow> [t])"

text \<open>
  The nodes at which \<open>r\<close> trees that are no extras have been popped, once for each path, with the trees on the path, the lowest
  first. The first argument bounds the length of the paths, and \<open>within\<close> says that it does so.
\<close>

fun pops :: "nat \<Rightarrow> StackNode list \<Rightarrow> nat \<Rightarrow> nat \<Rightarrow> (nat \<times> Subtree list) list" where
  "pops 0 ns r n = []"
| "pops (Suc d) ns r n =
     (if r = 0 then [(n, [])]
      else concat (map (\<lambda>l. map (\<lambda>(m, ts). (m, ts @ trees_of l)) (pops d ns (r - counted l) (link_node l))) (links (ns ! n))))"

fun within :: "nat \<Rightarrow> StackNode list \<Rightarrow> nat \<Rightarrow> nat \<Rightarrow> bool" where
  "within 0 ns r n = False"
| "within (Suc d) ns r n = (r = 0 \<or> list_all (\<lambda>l. within d ns (r - counted l) (link_node l)) (links (ns ! n)))"

text \<open>The number of paths, with those that end at the base before \<open>r\<close> trees are popped.\<close>

fun width :: "nat \<Rightarrow> StackNode list \<Rightarrow> nat \<Rightarrow> nat \<Rightarrow> nat" where
  "width 0 ns r n = 1"
| "width (Suc d) ns r n =
     (if r = 0 \<or> links (ns ! n) = [] then 1 else sum_list (map (\<lambda>l. width d ns (r - counted l) (link_node l)) (links (ns ! n))))"

lemma width_pos: "1 \<le> width d ns r n"
proof (induction d arbitrary: r n)
  case (Suc d)
  show ?case
  proof (cases "links (ns ! n)")
    case (Cons l ls)
    then show ?thesis using Suc [of "r - counted l" "link_node l"] by simp
  qed simp
qed simp

text \<open>What a slice stands for: the node of its version and its trees.\<close>

definition slice_view :: "Stack \<Rightarrow> StackSlice \<Rightarrow> nat \<times> Subtree list" where
  "slice_view s sl = (head_node (heads s ! slice_version sl), slice_subtrees sl)"

definition popped :: "Stack \<Rightarrow> (nat \<times> Subtree list) multiset" where
  "popped s = mset (map (slice_view s) (slices s))"

text \<open>Each slice has a version behind the old ones, and there is one version for each node.\<close>

definition slices_ok :: "StackHead list \<Rightarrow> Stack \<Rightarrow> bool" where
  "slices_ok hs s \<longleftrightarrow> (\<exists>new. heads s = hs @ new \<and> distinct (map head_node new)) \<and>
     slice_version ` set (slices s) = {length hs..<length (heads s)}"

section \<open>Slices\<close>

lemma find_slice_spec:
  assumes "\<forall>sl \<in> set sls. slice_version sl < length hs" and "i \<le> length sls"
  shows "(\<exists>j. find_slice hs sls n i = Some (Some (j, slice_version (sls ! j))) \<and> j < i \<and> head_node (hs ! slice_version (sls ! j)) = n) \<or>
    find_slice hs sls n i = Some None \<and> (\<forall>j < i. head_node (hs ! slice_version (sls ! j)) \<noteq> n)"
  using assms(2)
proof (induction i)
  case (Suc i)
  then have "slice_version (sls ! i) < length hs" using assms(1) by simp
  with Suc show ?case by (auto simp: item_def less_Suc_eq)
qed simp

lemma add_slice_popped:
  assumes ok: "slices_ok hs s" and v: "v < length hs"
  shows "\<exists>s'. ts_stack__add_slice s v n ts = Some s' \<and> slices_ok hs s' \<and> nodes s' = nodes s \<and> popped s' = add_mset (n, ts) (popped s)"
proof -
  from ok obtain new where new: "heads s = hs @ new" "distinct (map head_node new)"
    and vs: "slice_version ` set (slices s) = {length hs..<length (heads s)}" by (auto simp: slices_ok_def)
  have bound: "\<forall>sl \<in> set (slices s). slice_version sl < length (heads s)"
    using vs by (metis atLeastLessThan_iff imageI)
  from find_slice_spec [OF bound order_refl, of n]
  show ?thesis
  proof
    assume "\<exists>j. find_slice (heads s) (slices s) n (length (slices s)) = Some (Some (j, slice_version (slices s ! j))) \<and>
      j < length (slices s) \<and> head_node (heads s ! slice_version (slices s ! j)) = n"
    then obtain j where j: "find_slice (heads s) (slices s) n (length (slices s)) = Some (Some (j, slice_version (slices s ! j)))"
      "j < length (slices s)" "head_node (heads s ! slice_version (slices s ! j)) = n" by blast
    let ?sl = "\<lparr>slice_subtrees = ts, slice_version = slice_version (slices s ! j)\<rparr>"
    let ?s = "s\<lparr>slices := take (j + 1) (slices s) @ [?sl] @ drop (j + 1) (slices s)\<rparr>"
    have "mset (take (j + 1) (slices s)) + mset (drop (j + 1) (slices s)) = mset (slices s)"
      by (metis append_take_drop_id mset_append)
    then have m: "mset (slices ?s) = add_mset ?sl (mset (slices s))" by simp
    have "set (slices ?s) = insert ?sl (set (slices s))" using arg_cong [OF m, of set_mset] by simp
    moreover have "slice_version (slices s ! j) \<in> slice_version ` set (slices s)" using j(2) by simp
    ultimately have "slice_version ` set (slices ?s) = slice_version ` set (slices s)" by (simp add: insert_absorb)
    then have "slices_ok hs ?s" using ok by (simp add: slices_ok_def)
    moreover have "slice_view ?s = slice_view s" by (simp add: slice_view_def fun_eq_iff)
    then have "popped ?s = add_mset (n, ts) (popped s)"
      unfolding popped_def mset_map m using j(3) by (simp add: slice_view_def)
    ultimately show ?thesis using j(1) by (auto simp: ts_stack__add_slice_def)
  next
    assume none: "find_slice (heads s) (slices s) n (length (slices s)) = Some None \<and>
      (\<forall>j < length (slices s). head_node (heads s ! slice_version (slices s ! j)) \<noteq> n)"
    obtain s' where s': "ts_stack__add_slice s v n ts = Some s'" "nodes s' = nodes s"
      "slices s' = slices s @ [\<lparr>slice_subtrees = ts, slice_version = length (heads s)\<rparr>]"
      "\<exists>h. head_node h = n \<and> heads s' = heads s @ [h]"
      using none v new(1) by (auto simp: ts_stack__add_slice_def ts_stack__add_version_def item_def)
    then obtain h where h: "head_node h = n" "heads s' = heads s @ [h]" by blast
    have "head_node (heads s ! i) \<noteq> n" if "i \<in> {length hs..<length (heads s)}" for i
      using that none unfolding vs [symmetric] by (auto simp: in_set_conv_nth)
    then have "n \<notin> set (map head_node new)"
      using new(1) by (auto simp: in_set_conv_nth) (metis atLeastLessThan_iff le_add1 length_append nat_add_left_cancel_less nth_append_length_plus)
    then have "slices_ok hs s'"
      using new vs h by (auto simp: slices_ok_def s'(3) atLeastLessThanSuc)
    moreover have same: "map (slice_view s') (slices s) = map (slice_view s) (slices s)"
      using bound by (auto simp: slice_view_def h(2) nth_append)
    have "popped s' = add_mset (n, ts) (popped s)"
      unfolding popped_def s'(3) map_append same mset_append by (simp add: slice_view_def h)
    ultimately show ?thesis using s'(1,2) by auto
  qed
qed

section \<open>Iterators\<close>

definition it_ok :: "nat \<Rightarrow> nat \<Rightarrow> StackNode list \<Rightarrow> StackIterator \<Rightarrow> bool" where
  "it_ok d goal ns it \<longleftrightarrow> it_node it < length ns \<and> unat (subtree_count it) \<le> goal \<and>
     within d ns (goal - unat (subtree_count it)) (it_node it)"

text \<open>What is still to be popped from an iterator, and how many paths it stands for.\<close>

definition it_pops :: "nat \<Rightarrow> nat \<Rightarrow> StackNode list \<Rightarrow> StackIterator \<Rightarrow> (nat \<times> Subtree list) multiset" where
  "it_pops d goal ns it =
     mset (map (\<lambda>(m, ts). (m, ts @ rev (it_subtrees it))) (pops d ns (goal - unat (subtree_count it)) (it_node it)))"

definition it_width :: "nat \<Rightarrow> nat \<Rightarrow> StackNode list \<Rightarrow> StackIterator \<Rightarrow> nat" where
  "it_width d goal ns it = width d ns (goal - unat (subtree_count it)) (it_node it)"

lemma follow_link_reads:
  assumes "unat (subtree_count it) < goal" "goal < 2 ^ 32"
  shows "it_subtrees (follow_link True l it) = it_subtrees it @ trees_of l"
    "unat (subtree_count (follow_link True l it)) = unat (subtree_count it) + counted l"
proof -
  have "unat (subtree_count it + 1) = unat (subtree_count it) + 1" using assms by (simp add: unat_add_u32)
  then show "it_subtrees (follow_link True l it) = it_subtrees it @ trees_of l"
    "unat (subtree_count (follow_link True l it)) = unat (subtree_count it) + counted l"
    by (auto simp: follow_link_def trees_of_def counted_def Let_def split: option.split)
qed

lemma counted_le: "counted l \<le> 1"
  by (auto simp: counted_def split: option.split)

lemma rev_trees_of [simp]: "rev (trees_of l) = trees_of l"
  by (auto simp: trees_of_def split: option.split)

lemma push_iterators_all:
  "n + length new + length ls \<le> MAX_ITERATOR_COUNT \<Longrightarrow>
     push_iterators inc n it ls new = new @ map (\<lambda>l. follow_link inc l it) ls"
  by (induction inc n it ls new rule: push_iterators.induct) auto

lemma mset_map_concat: "mset (map f (concat xss)) = sum_list (map (\<lambda>xs. mset (map f xs)) xss)"
  by (induction xss) simp_all

text \<open>One step of an iterator that has not reached its goal: it is replaced by one iterator for each link.\<close>

lemma iterator_step:
  assumes "it_ok (Suc d) goal ns it" "unat (subtree_count it) \<noteq> goal" "goal < 2 ^ 32" "store_ok ns"
  shows "\<And>l. l \<in> set (links (ns ! it_node it)) \<Longrightarrow> it_ok d goal ns (follow_link True l it)"
    "it_pops (Suc d) goal ns it = sum_list (map (\<lambda>l. it_pops d goal ns (follow_link True l it)) (links (ns ! it_node it)))"
    "links (ns ! it_node it) \<noteq> [] \<Longrightarrow>
      it_width (Suc d) goal ns it = sum_list (map (\<lambda>l. it_width d goal ns (follow_link True l it)) (links (ns ! it_node it)))"
proof -
  let ?n = "ns ! it_node it" and ?r = "goal - unat (subtree_count it)"
  have lt: "unat (subtree_count it) < goal" using assms(1,2) by (simp add: it_ok_def)
  note reads = follow_link_reads [OF lt assms(3)]
  have r: "?r \<noteq> 0" using lt by simp
  have node: "node_ok ns ?n" using store_ok_node [OF assms(4)] assms(1) by (simp add: it_ok_def)
  show "it_ok d goal ns (follow_link True l it)" if "l \<in> set (links ?n)" for l
    using that assms(1) r node counted_le [of l] lt reads(2) [of l]
    by (auto simp: it_ok_def list_all_iff node_ok_def link_ok_def)
  show "it_width (Suc d) goal ns it = sum_list (map (\<lambda>l. it_width d goal ns (follow_link True l it)) (links ?n))"
    if "links ?n \<noteq> []"
    using that r by (simp add: it_width_def reads)
  show "it_pops (Suc d) goal ns it = sum_list (map (\<lambda>l. it_pops d goal ns (follow_link True l it)) (links ?n))"
    using r by (simp add: it_pops_def reads mset_map_concat comp_def split_beta del: mset_map cong: map_cong)
qed

section \<open>The loops\<close>

lemma sum_width_ge: "length its \<le> sum_list (map (it_width d goal ns) its)"
proof (induction its)
  case (Cons it its)
  then show ?case using width_pos [of d ns "goal - unat (subtree_count it)" "it_node it"] by (simp add: it_width_def)
qed simp

lemma iter_round_pops:
  assumes "list_all (it_ok d (unat goal) (nodes s)) (past @ new)" "list_all (it_ok (Suc d) (unat goal) (nodes s)) its"
    and "store_ok (nodes s)" "slices_ok hs s" "v < length hs"
    and "sum_list (map (it_width d (unat goal) (nodes s)) (past @ new)) + sum_list (map (it_width (Suc d) (unat goal) (nodes s)) its)
      \<le> MAX_ITERATOR_COUNT"
  shows "\<exists>its' s'. iter_round pop_count_callback True v past its new (s, goal) = Some (its', s', goal) \<and>
    list_all (it_ok d (unat goal) (nodes s)) its' \<and> nodes s' = nodes s \<and> slices_ok hs s' \<and>
    sum_list (map (it_width d (unat goal) (nodes s)) its') \<le> MAX_ITERATOR_COUNT \<and>
    popped s' + sum_list (map (it_pops d (unat goal) (nodes s)) its') =
      popped s + sum_list (map (it_pops d (unat goal) (nodes s)) (past @ new)) +
      sum_list (map (it_pops (Suc d) (unat goal) (nodes s)) its)"
  using assms
proof (induction its arbitrary: past new s)
  case (Cons it its)
  let ?ns = "nodes s" and ?g = "unat goal"
  let ?n = "?ns ! it_node it"
  have it: "it_ok (Suc d) ?g ?ns it" using Cons.prems(2) by simp
  then have node: "item ?ns (it_node it) = Some ?n" by (simp add: it_ok_def item_def)
  consider (pop) "subtree_count it = goal" | (dead) "subtree_count it \<noteq> goal" "links ?n = []"
    | (walk) "subtree_count it \<noteq> goal" "links ?n \<noteq> []" by blast
  then show ?case
  proof cases
    case pop
    obtain s1 where s1: "ts_stack__add_slice s v (it_node it) (rev (it_subtrees it)) = Some s1" "slices_ok hs s1" "nodes s1 = ?ns"
      "popped s1 = add_mset (it_node it, rev (it_subtrees it)) (popped s)"
      using add_slice_popped [OF Cons.prems(4,5)] by blast
    have "it_pops (Suc d) ?g ?ns it = {#(it_node it, rev (it_subtrees it))#}" using pop by (simp add: it_pops_def)
    moreover have "iter_round pop_count_callback True v past (it # its) new (s, goal) =
        iter_round pop_count_callback True v past its new (s1, goal)"
      using pop by (simp add: node pop_count_callback_def Let_def array_reverse s1(1))
    ultimately show ?thesis
      using Cons.IH [where past = past and new = new and s = s1] Cons.prems s1(2-4) by simp
  next
    case dead
    then have "it_pops (Suc d) ?g ?ns it = {#}" using it by (auto simp: it_pops_def it_ok_def word_unat_eq_iff)
    moreover have "iter_round pop_count_callback True v past (it # its) new (s, goal) =
        iter_round pop_count_callback True v past its new (s, goal)"
      using dead by (simp add: node pop_count_callback_def Let_def)
    ultimately show ?thesis using Cons.IH [where past = past and new = new and s = s] Cons.prems by simp
  next
    case walk
    have "unat (subtree_count it) \<noteq> ?g" using walk(1) by (simp add: word_unat_eq_iff)
    note step = iterator_step [OF it this unat_u32_bound Cons.prems(3)]
    let ?f = "\<lambda>l. follow_link True l it"
    obtain l ls where ls: "links ?n = l # ls" using walk(2) by (cases "links ?n") auto
    have W: "sum_list (map (it_width d ?g ?ns) ((past @ [?f l]) @ new @ map ?f ls)) + sum_list (map (it_width (Suc d) ?g ?ns) its)
        \<le> MAX_ITERATOR_COUNT"
      using Cons.prems(6) step(3) [OF walk(2)] by (simp add: ls comp_def)
    have "length ((past @ [?f l]) @ new @ map ?f ls) + length its \<le> MAX_ITERATOR_COUNT"
      using W sum_width_ge [of "(past @ [?f l]) @ new @ map ?f ls" d ?g ?ns] sum_width_ge [of its "Suc d" ?g ?ns] by linarith
    then have "push_iterators True (length past + 1 + length its) it ls new = new @ map ?f ls"
      by (intro push_iterators_all) simp
    then have "iter_round pop_count_callback True v past (it # its) new (s, goal) =
        iter_round pop_count_callback True v (past @ [?f l]) its (new @ map ?f ls) (s, goal)"
      using walk by (simp add: node pop_count_callback_def Let_def ls)
    moreover have "list_all (it_ok d ?g ?ns) ((past @ [?f l]) @ new @ map ?f ls)"
      using Cons.prems(1) step(1) by (auto simp: ls list_all_iff)
    ultimately show ?thesis
      using Cons.IH [where past = "past @ [?f l]" and new = "new @ map ?f ls" and s = s] Cons.prems(2-5) W step(2) by (simp add: ls comp_def ac_simps)
  qed
qed simp

lemma iter_loop_pops:
  assumes "list_all (it_ok d (unat goal) (nodes s)) its" "store_ok (nodes s)" "slices_ok hs s" "v < length hs"
    and "sum_list (map (it_width d (unat goal) (nodes s)) its) \<le> MAX_ITERATOR_COUNT"
  shows "\<exists>s'. iter_loop d pop_count_callback True v its (s, goal) = Some (s', goal) \<and> nodes s' = nodes s \<and> slices_ok hs s' \<and>
    popped s' = popped s + sum_list (map (it_pops d (unat goal) (nodes s)) its)"
  using assms
proof (induction d arbitrary: its s)
  case 0
  then show ?case by (cases its) (simp_all add: it_ok_def)
next
  case (Suc d)
  show ?case
  proof (cases its)
    case (Cons it its1)
    from iter_round_pops [of d goal s "[]" "[]" its hs v] Suc.prems obtain its' s' where
      r: "iter_round pop_count_callback True v [] its [] (s, goal) = Some (its', s', goal)"
      "list_all (it_ok d (unat goal) (nodes s)) its'" "nodes s' = nodes s" "slices_ok hs s'"
      "sum_list (map (it_width d (unat goal) (nodes s)) its') \<le> MAX_ITERATOR_COUNT"
      "popped s' + sum_list (map (it_pops d (unat goal) (nodes s)) its') =
        popped s + sum_list (map (it_pops (Suc d) (unat goal) (nodes s)) its)" by auto
    from Suc.IH [of s' its'] r Suc.prems(2,4) Cons show ?thesis by (auto simp: Cons)
  qed (use Suc.prems in simp)
qed

lemma pop_count_pops:
  assumes "stack_reachable s" and "v < length (heads s)" and "0 \<le> sint n"
    and "within fuel (nodes s) (unat n) (head_node (heads s ! v))"
    and "width fuel (nodes s) (unat n) (head_node (heads s ! v)) \<le> MAX_ITERATOR_COUNT"
  shows "\<exists>s'. ts_stack_pop_count fuel s v n = Some (s', slices s') \<and> nodes s' = nodes s \<and> slices_ok (heads s) s' \<and>
    popped s' = mset (pops fuel (nodes s) (unat n) (head_node (heads s ! v)))"
proof -
  have ok: "stack_ok s" by (rule reachable_ok [OF assms(1)])
  let ?s = "s\<lparr>slices := []\<rparr>"
  let ?it = "\<lparr>it_node = head_node (heads s ! v), it_subtrees = [], subtree_count = 0, it_is_pending = True\<rparr>"
  have "slices_ok (heads s) ?s" by (simp add: slices_ok_def)
  moreover have "it_ok fuel (unat n) (nodes s) ?it" using assms(2,4) ok by (simp add: it_ok_def stack_ok_def)
  moreover have "store_ok (nodes s)" using ok by (simp add: stack_ok_def)
  ultimately show ?thesis
    using iter_loop_pops [of fuel n ?s "[?it]" "heads s" v] assms(2,3,5)
    by (auto simp: ts_stack_pop_count_def stack__iter_def item_def it_width_def it_pops_def popped_def Let_def)
qed

text \<open>A ranking that decreases along the links bounds the paths.\<close>

definition ranked :: "(nat \<Rightarrow> nat) \<Rightarrow> StackNode list \<Rightarrow> bool" where
  "ranked rank ns \<longleftrightarrow> (\<forall>n < length ns. \<forall>l \<in> set (links (ns ! n)). rank (link_node l) < rank n)"

lemma within_ranked:
  assumes "ranked rank ns" "store_ok ns" "n < length ns" "rank n < d"
  shows "within d ns r n"
  using assms(3,4)
proof (induction d arbitrary: n r)
  case (Suc d)
  have "within d ns (r - counted l) (link_node l)" if "l \<in> set (links (ns ! n))" for l
  proof (rule Suc.IH)
    show "link_node l < length ns" using store_ok_node [OF assms(2) Suc.prems(1)] that by (simp add: node_ok_def list_all_iff link_ok_def)
    show "rank (link_node l) < d" using assms(1) Suc.prems that unfolding ranked_def by fastforce
  qed
  then show ?case by (simp add: list_all_iff)
qed simp

text \<open>
  It also bounds the rounds of every walk, whatever the callback does and however many iterators are dropped: all iterators
  go down by one link in each round.
\<close>

definition low :: "(nat \<Rightarrow> nat) \<Rightarrow> nat \<Rightarrow> StackNode list \<Rightarrow> StackIterator list \<Rightarrow> bool" where
  "low rank d ns its \<longleftrightarrow> (\<forall>it \<in> set its. it_node it < length ns \<and> rank (it_node it) < d)"

lemma iter_round_ends:
  assumes "ranked rank (nodes s)" "store_ok (nodes s)" "slices_ok hs s" "v < length hs"
    and "low rank d (nodes s) (past @ new)" "low rank (Suc d) (nodes s) its"
  shows "\<exists>its' s' p'. iter_round callback inc v past its new (s, p) = Some (its', s', p') \<and>
    low rank d (nodes s) its' \<and> nodes s' = nodes s \<and> slices_ok hs s'"
  using assms
proof (induction its arbitrary: past new s p)
  case (Cons it its)
  let ?n = "nodes s ! it_node it"
  have it: "it_node it < length (nodes s)" "rank (it_node it) \<le> d" using Cons.prems(6) by (auto simp: low_def)
  have down: "link_node l < length (nodes s) \<and> rank (link_node l) < d" if "l \<in> set (links ?n)" for l
    using that it Cons.prems(1) store_ok_node [OF Cons.prems(2) it(1)] unfolding ranked_def
    by (fastforce simp: node_ok_def list_all_iff link_ok_def)
  obtain p1 action where act: "callback p it ?n = (p1, action)" by fastforce
  obtain s1 where s1: "(if action_pop action then ts_stack__add_slice s v (it_node it) (ts_subtree_array_reverse (it_subtrees it))
      else Some s) = Some s1" "slices_ok hs s1" "nodes s1 = nodes s"
    using add_slice_popped [OF Cons.prems(3,4)] Cons.prems(3) by (cases "action_pop action") fastforce+
  note rest = Cons.IH [of s1, unfolded s1(3), OF Cons.prems(1,2) s1(2) Cons.prems(4)]
  show ?case
  proof (cases "action_stop action \<or> links ?n = []")
    case True
    with rest [of past new p1] Cons.prems(5,6) it act s1(1) show ?thesis by (auto simp: item_def Let_def low_def)
  next
    case False
    have "low rank d (nodes s) ((past @ [follow_link inc (hd (links ?n)) it]) @
        push_iterators inc (length past + 1 + length its) it (tl (links ?n)) new)"
      using Cons.prems(5) False down by (auto simp: low_def dest!: push_iterators_nodes list.set_sel(2) [rotated])
    with rest [of "past @ [follow_link inc (hd (links ?n)) it]" _ p1] Cons.prems(6) it act s1(1) False show ?thesis
      by (auto simp: item_def Let_def low_def)
  qed
qed auto

lemma iter_loop_ends:
  assumes "ranked rank (nodes s)" "store_ok (nodes s)" "slices_ok hs s" "v < length hs" "low rank d (nodes s) its"
  shows "\<exists>s' p'. iter_loop d callback inc v its (s, p) = Some (s', p')"
  using assms
proof (induction d arbitrary: its s p)
  case 0
  then show ?case by (cases its) (auto simp: low_def)
next
  case (Suc d)
  show ?case
  proof (cases its)
    case (Cons it its1)
    have "low rank d (nodes s) ([] @ [])" by (simp add: low_def)
    from iter_round_ends [OF Suc.prems(1-4) this Suc.prems(5), of callback inc p] obtain its' s' p' where
      r: "iter_round callback inc v [] its [] (s, p) = Some (its', s', p')" "low rank d (nodes s) its'" "nodes s' = nodes s" "slices_ok hs s'"
      by blast
    from Suc.IH [of s' its' p'] r Suc.prems(1,2,4) Cons show ?thesis by auto
  qed simp
qed

lemma iter_ends:
  assumes "stack_ok s" and "v < length (heads s)" and "ranked rank (nodes s)"
  shows "\<exists>s' p'. stack__iter (Suc (rank (head_node (heads s ! v)))) s v callback p goal = Some (s', p')"
proof -
  let ?h = "head_node (heads s ! v)"
  let ?it = "\<lparr>it_node = ?h, it_subtrees = [], subtree_count = 0, it_is_pending = True\<rparr>"
  have "slices_ok (heads s) (s\<lparr>slices := []\<rparr>)" by (simp add: slices_ok_def)
  moreover have "?h < length (nodes s)" "store_ok (nodes s)" using assms(1,2) by (auto simp: stack_ok_def)
  ultimately have "\<exists>s' p'. iter_loop (Suc (rank ?h)) callback (0 \<le> goal) v [?it] (s\<lparr>slices := []\<rparr>, p) = Some (s', p')"
    using assms(2,3) by (intro iter_loop_ends) (auto simp: low_def)
  then show ?thesis using assms(2) by (simp add: stack__iter_def item_def Let_def del: iter_loop.simps)
qed

section \<open>Properties\<close>

text \<open>
  C4. \<open>ts_stack_pop_count\<close> pops every path once: for a stack whose paths from the version's top end within the fuel and are at most
  \<open>MAX_ITERATOR_COUNT\<close>, it returns, and the slices are those of a recursive traversal, each with the trees of its path in
  order and with extras, for each path on which \<open>n\<close> trees that are no extras lie above the node. The versions that
  existed stay as they are; there is one new version for each node that is reached.
\<close>

theorem pop_count_finds_all_paths:
  assumes "stack_reachable s" and "v < length (heads s)" and "0 \<le> sint n"
    and "within fuel (nodes s) (unat n) (head_node (heads s ! v))"
    and "width fuel (nodes s) (unat n) (head_node (heads s ! v)) \<le> MAX_ITERATOR_COUNT"
  shows "\<exists>s'. ts_stack_pop_count fuel s v n = Some (s', slices s') \<and> nodes s' = nodes s \<and> slices_ok (heads s) s' \<and>
    popped s' = mset (pops fuel (nodes s) (unat n) (head_node (heads s ! v)))"
  by (rule pop_count_pops [OF assms])

theorem pop_count_finds_all_paths_witness:
  "\<exists>s'. ts_stack_pop_count 3 sample_stack 0 1 = Some (s', slices s') \<and> popped s' = {#(0, [stack_leaf])#}"
proof -
  have r: "stack_reachable sample_stack" by (rule push [OF new sample_stack_push])
  have "within 3 (nodes sample_stack) (unat (1 :: u32)) (head_node (heads sample_stack ! 0))"
    "width 3 (nodes sample_stack) (unat (1 :: u32)) (head_node (heads sample_stack ! 0)) \<le> MAX_ITERATOR_COUNT"
    "0 < length (heads sample_stack)" "0 \<le> sint (1 :: u32)"
    "pops 3 (nodes sample_stack) (unat (1 :: u32)) (head_node (heads sample_stack ! 0)) = [(0, [stack_leaf])]" by code_simp+
  then show ?thesis using pop_count_finds_all_paths [OF r, of 0 1 3] by auto
qed

text \<open>
  C26. The walks over the graph of the stack end if it has no cycle: for each ranking of the nodes that decreases along the links, one
  round more than the rank of the version's top is enough, for every callback and however many paths there are, also where the
  code drops iterators because there are more than \<open>MAX_ITERATOR_COUNT\<close>. So popping any number of trees and popping
  all of them return a result.
\<close>

theorem stack_walks_terminate:
  assumes "stack_reachable s" and "v < length (heads s)" and "ranked rank (nodes s)"
  shows "(\<exists>s' p'. stack__iter (Suc (rank (head_node (heads s ! v)))) s v callback p goal = Some (s', p')) \<and>
    (\<exists>s'. ts_stack_pop_count (Suc (rank (head_node (heads s ! v)))) s v n = Some (s', slices s')) \<and>
    (\<exists>s'. ts_stack_pop_all (Suc (rank (head_node (heads s ! v)))) s v = Some (s', slices s'))"
proof -
  have ok: "stack_ok s" by (rule reachable_ok [OF assms(1)])
  note ends = iter_ends [OF ok assms(2,3)]
  from ends [of callback p goal] ends [of pop_count_callback n "sint n"] ends [of pop_all_callback "()" 0] show ?thesis
    by (auto simp: ts_stack_pop_count_def ts_stack_pop_all_def)
qed

theorem stack_walks_terminate_witness:
  "ranked id (nodes sample_stack) \<and> (\<exists>s'. ts_stack_pop_count 2 sample_stack 0 7 = Some (s', slices s'))"
proof -
  have r: "stack_reachable sample_stack" by (rule push [OF new sample_stack_push])
  have "list_all (\<lambda>n. list_all (\<lambda>l. id (link_node l) < id n) (links (nodes sample_stack ! n))) [0..<length (nodes sample_stack)]"
    by code_simp
  then have rk: "ranked id (nodes sample_stack)" by (simp add: ranked_def list_all_iff)
  have f: "0 < length (heads sample_stack)" "Suc (id (head_node (heads sample_stack ! 0))) = 2" by code_simp+
  show ?thesis using stack_walks_terminate [OF r f(1) rk, of pop_count_callback 7 0 7] rk unfolding f(2) by blast
qed

text \<open>
  C29. Popping undoes pushing: after a tree that is no extra has been pushed on a version, popping one tree gives one slice with
  that tree, at a new version whose top is the node from before the push. The old version is left where it was.
\<close>

theorem push_pop_round_trip:
  assumes "stack_reachable s" and "ts_stack_push s v (Some t) pending state = Some s1" and "\<not> ts_subtree_extra t"
  shows "\<exists>s2. ts_stack_pop_count 2 s1 v 1 = Some (s2, [\<lparr>slice_subtrees = [t], slice_version = length (heads s)\<rparr>]) \<and>
    head_node (heads s2 ! length (heads s)) = head_node (heads s ! v) \<and> take (length (heads s)) (heads s2) = heads s1"
proof -
  have ok: "stack_ok s" by (rule reachable_ok [OF assms(1)])
  from assms(2) obtain node where v: "v < length (heads s)" and h1: "heads s1 = (heads s)[v := (heads s ! v)\<lparr>head_node := length (nodes s)\<rparr>]"
    and n1: "nodes s1 = nodes s @ [node]" "links node = [\<lparr>link_node = head_node (heads s ! v), link_subtree = Some t, link_is_pending = pending\<rparr>]"
    by (auto simp: ts_stack_push_def stack_top_def bind_eq_Some_conv item_Some_iff Let_def stack_node_new_def)
  have r1: "stack_reachable s1" by (rule push [OF assms(1,2)])
  have len: "length (heads s1) = length (heads s)" by (simp add: h1)
  have top: "head_node (heads s1 ! v) = length (nodes s)" using v by (simp add: h1)
  have link: "counted \<lparr>link_node = a, link_subtree = Some t, link_is_pending = b\<rparr> = 1"
    "trees_of \<lparr>link_node = a, link_subtree = Some t, link_is_pending = b\<rparr> = [t]" for a b
    using assms(3) by (simp_all add: counted_def trees_of_def)
  have p: "pops 2 (nodes s1) (unat (1 :: u32)) (head_node (heads s1 ! v)) = [(head_node (heads s ! v), [t])]"
    "within 2 (nodes s1) (unat (1 :: u32)) (head_node (heads s1 ! v))"
    "width 2 (nodes s1) (unat (1 :: u32)) (head_node (heads s1 ! v)) \<le> MAX_ITERATOR_COUNT"
    by (simp_all add: top n1 numeral_2_eq_2 link nth_append)
  have "0 \<le> sint (1 :: u32)" by simp
  from pop_count_pops [OF r1 _ this p(2,3)] p(1) v len obtain s2 where
    s2: "ts_stack_pop_count 2 s1 v 1 = Some (s2, slices s2)" "slices_ok (heads s1) s2" "popped s2 = {#(head_node (heads s ! v), [t])#}"
    by auto
  from s2(3) have "map (slice_view s2) (slices s2) = [(head_node (heads s ! v), [t])]"
    unfolding popped_def by (simp only: mset_single_iff)
  then obtain sl where sl: "slices s2 = [sl]" "slice_view s2 sl = (head_node (heads s ! v), [t])" by auto
  obtain new where new: "heads s2 = heads s1 @ new" "{slice_version sl} = {length (heads s1)..<length (heads s2)}"
    using s2(2) sl(1) by (auto simp: slices_ok_def)
  then have "{length (heads s1)..<length (heads s2)} \<noteq> {}" by (metis insert_not_empty)
  then have "length (heads s1) \<in> {slice_version sl}" unfolding new(2) by simp
  then have "slice_version sl = length (heads s1)" by simp
  with sl s2(1) new(1) len show ?thesis by (cases sl) (auto simp: slice_view_def)
qed

theorem push_pop_round_trip_witness:
  "\<exists>s2. ts_stack_pop_count 2 sample_stack 0 1 = Some (s2, [\<lparr>slice_subtrees = [stack_leaf], slice_version = length (heads ts_stack_new)\<rparr>])"
proof -
  have "\<not> ts_subtree_extra stack_leaf" by code_simp
  from push_pop_round_trip [OF new sample_stack_push this] show ?thesis by blast
qed

end
