(* ===== verification/Tree.thy ===== *)
theory Tree
  imports Subtree Ranges
begin

text \<open>
  Trees and their nodes as the library gives them out: \<open>tree.h\<close>, \<open>tree.c\<close> and the constructors and accessors of
  \<open>node.c\<close>. The code points into the arrays of children of a tree; a pointer is modelled by the path from the root of
  the tree to the element, which is its address, with the value there. No node of the heap occurs twice in one tree, so
  that the address of an element and its path determine each other.
\<close>

record Slot =
  slot_path :: "nat list"
  slot_tree :: Subtree

definition slot_child :: "Slot \<Rightarrow> nat \<Rightarrow> Slot option" where
  "slot_child s i =
     map_option (\<lambda>c. \<lparr>slot_path = slot_path s @ [i], slot_tree = c\<rparr>) (item (ts_subtree_children (slot_tree s)) i)"

record TSTree =
  t_root :: Subtree
  t_language :: TSLanguage
  t_included_ranges :: "TSRange list"

text \<open>The four words of \<open>context\<close> are fields of their own.\<close>

record TSNode =
  n_start_byte :: u32
  n_start_row :: u32
  n_start_column :: u32
  n_alias :: u32
  n_id :: "Slot option"
  n_tree :: "TSTree option"

section \<open>Nodes\<close>

definition ts_node_new :: "TSTree option \<Rightarrow> Slot option \<Rightarrow> Length \<Rightarrow> TSSymbol \<Rightarrow> TSNode" where
  "ts_node_new tree subtree position al =
     \<lparr>n_start_byte = bytes position, n_start_row = row (extent position), n_start_column = column (extent position),
      n_alias = ucast al, n_id = subtree, n_tree = tree\<rparr>"

definition ts_node__null :: TSNode where
  "ts_node__null = ts_node_new None None length_zero 0"

definition ts_node_start_byte :: "TSNode \<Rightarrow> u32" where
  "ts_node_start_byte self = n_start_byte self"

definition ts_node_start_point :: "TSNode \<Rightarrow> TSPoint" where
  "ts_node_start_point self = Point (n_start_row self) (n_start_column self)"

definition ts_node__alias :: "TSNode \<Rightarrow> u32" where
  "ts_node__alias self = n_alias self"

definition ts_node_is_null :: "TSNode \<Rightarrow> bool" where
  "ts_node_is_null self \<longleftrightarrow> n_id self = None"

section \<open>Trees\<close>

definition ts_tree_new :: "Subtree \<Rightarrow> TSLanguage \<Rightarrow> TSRange list \<Rightarrow> TSTree" where
  "ts_tree_new rt lang ranges = \<lparr>t_root = rt, t_language = lang, t_included_ranges = ranges\<rparr>"

definition ts_tree_copy :: "TSTree \<Rightarrow> TSTree" where
  "ts_tree_copy self = ts_tree_new (t_root self) (t_language self) (t_included_ranges self)"

definition root_slot :: "TSTree \<Rightarrow> Slot" where
  "root_slot self = \<lparr>slot_path = [], slot_tree = t_root self\<rparr>"

definition ts_tree_root_node :: "TSTree \<Rightarrow> TSNode" where
  "ts_tree_root_node self = ts_node_new (Some self) (Some (root_slot self)) (ts_subtree_padding (t_root self)) 0"

definition ts_tree_root_node_with_offset :: "TSTree \<Rightarrow> u32 \<Rightarrow> TSPoint \<Rightarrow> TSNode" where
  "ts_tree_root_node_with_offset self offset_bytes offset_extent =
     (let offset = \<lparr>bytes = offset_bytes, extent = offset_extent\<rparr>
      in ts_node_new (Some self) (Some (root_slot self)) (length_add offset (ts_subtree_padding (t_root self))) 0)"

definition ts_tree_language :: "TSTree \<Rightarrow> TSLanguage" where
  "ts_tree_language self = t_language self"

text \<open>The argument \<open>old\<close> is the memory that \<open>ts_subtree_edit\<close> takes from the pool.\<close>

definition ts_tree_edit :: "SubtreeHeapData \<Rightarrow> TSTree \<Rightarrow> TSInputEdit \<Rightarrow> TSTree" where
  "ts_tree_edit old self edit =
     self\<lparr>t_included_ranges := map (\<lambda>r. ts_range_edit r edit) (t_included_ranges self),
          t_root := ts_subtree_edit old (t_root self) edit\<rparr>"

definition ts_tree_included_ranges :: "TSTree \<Rightarrow> TSRange list" where
  "ts_tree_included_ranges self = t_included_ranges self"

end
