(* ===== verification/Tree_Cursor.thy ===== *)
theory Tree_Cursor
  imports Tree
begin

text \<open>
  Tree cursors: \<open>tree_cursor.h\<close> and \<open>tree_cursor.c\<close>. A cursor is a stack of entries, from the node it was made for down
  to the current node, hidden nodes on the way included. \<open>None\<close> is a read outside an array. Indices of children are
  numbers below \<open>2 ^ 32\<close>, which only the backward iterator wraps around.
\<close>

section \<open>Data\<close>

record TreeCursorEntry =
  e_subtree :: Slot
  e_position :: Length
  e_child_index :: nat
  e_structural_child_index :: nat
  e_descendant_index :: u32

record TreeCursor =
  c_tree :: TSTree
  c_stack :: "TreeCursorEntry list"
  root_alias_symbol :: TSSymbol

datatype TreeCursorStep = TreeCursorStepNone | TreeCursorStepHidden | TreeCursorStepVisible

record CursorChildIterator =
  it_parent :: "Slot option"
  it_tree :: TSTree
  it_position :: Length
  it_child_index :: nat
  it_structural_child_index :: nat
  it_descendant_index :: u32
  it_alias_sequence :: "TSSymbol list option"

abbreviation cursor_language :: "TreeCursor \<Rightarrow> TSLanguage" where
  "cursor_language self \<equiv> t_language (c_tree self)"

abbreviation entry_tree :: "TreeCursorEntry \<Rightarrow> Subtree" where
  "entry_tree e \<equiv> slot_tree (e_subtree e)"

definition ts_tree_cursor_init :: "TSNode \<Rightarrow> TreeCursor option" where
  "ts_tree_cursor_init node = do {
     tree \<leftarrow> n_tree node;
     subtree \<leftarrow> n_id node;
     Some \<lparr>c_tree = tree,
           c_stack = [\<lparr>e_subtree = subtree,
                       e_position = \<lparr>bytes = ts_node_start_byte node, extent = ts_node_start_point node\<rparr>,
                       e_child_index = 0, e_structural_child_index = 0, e_descendant_index = 0\<rparr>],
           root_alias_symbol = ucast (n_alias node)\<rparr>
   }"

definition ts_tree_cursor_new :: "TSNode \<Rightarrow> TreeCursor option" where
  "ts_tree_cursor_new node = ts_tree_cursor_init node"

definition ts_tree_cursor_reset :: "TreeCursor \<Rightarrow> TSNode \<Rightarrow> TreeCursor option" where
  "ts_tree_cursor_reset self node = ts_tree_cursor_init node"

section \<open>Iterating over children\<close>

definition ts_tree_cursor_is_entry_visible :: "TreeCursor \<Rightarrow> nat \<Rightarrow> bool option" where
  "ts_tree_cursor_is_entry_visible self index = do {
     entry \<leftarrow> item (c_stack self) index;
     if index = 0 \<or> ts_subtree_visible (entry_tree entry) then Some True
     else if \<not> ts_subtree_extra (entry_tree entry) then do {
       parent_entry \<leftarrow> item (c_stack self) (index - 1);
       a \<leftarrow> ts_language_alias_at (cursor_language self) (unat (ts_subtree_production_id (entry_tree parent_entry)))
             (e_structural_child_index entry);
       Some (a \<noteq> 0)
     }
     else Some False
   }"

definition ts_tree_cursor_iterate_children :: "TreeCursor \<Rightarrow> CursorChildIterator option" where
  "ts_tree_cursor_iterate_children self =
     (if c_stack self = [] then None
      else (let last_entry = last (c_stack self)
            in if ts_subtree_child_count (entry_tree last_entry) = 0
               then Some \<lparr>it_parent = None, it_tree = c_tree self, it_position = length_zero, it_child_index = 0,
                          it_structural_child_index = 0, it_descendant_index = 0, it_alias_sequence = None\<rparr>
               else do {
                 vis \<leftarrow> ts_tree_cursor_is_entry_visible self (length (c_stack self) - 1);
                 Some \<lparr>it_parent = Some (e_subtree last_entry), it_tree = c_tree self,
                       it_position = e_position last_entry, it_child_index = 0, it_structural_child_index = 0,
                       it_descendant_index = (if vis then e_descendant_index last_entry + 1 else e_descendant_index last_entry),
                       it_alias_sequence = ts_language_alias_sequence (cursor_language self)
                         (unat (ts_subtree_production_id (entry_tree last_entry)))\<rparr>
               }))"

text \<open>Whether the alias of a child, read for one that is not extra, or its own flag shows it.\<close>

definition iterator_visible :: "CursorChildIterator \<Rightarrow> Subtree \<Rightarrow> bool option" where
  "iterator_visible self child =
     (case it_alias_sequence self of
        Some alias_sequence \<Rightarrow>
          if ts_subtree_extra child then Some (ts_subtree_visible child)
          else map_option (\<lambda>a. ts_subtree_visible child \<or> a \<noteq> 0) (item alias_sequence (it_structural_child_index self))
      | None \<Rightarrow> Some (ts_subtree_visible child))"

text \<open>The inner option is \<open>None\<close> where the iterator returns false.\<close>

definition ts_tree_cursor_child_iterator_next ::
  "CursorChildIterator \<Rightarrow> (CursorChildIterator \<times> TreeCursorEntry \<times> bool) option option" where
  "ts_tree_cursor_child_iterator_next self =
     (case it_parent self of
        None \<Rightarrow> Some None
      | Some parent \<Rightarrow>
          let children = ts_subtree_children (slot_tree parent)
          in if it_child_index self = length children then Some None
             else do {
               child \<leftarrow> slot_child parent (it_child_index self);
               let c = slot_tree child;
               let result = \<lparr>e_subtree = child, e_position = it_position self, e_child_index = it_child_index self,
                             e_structural_child_index = it_structural_child_index self,
                             e_descendant_index = it_descendant_index self\<rparr>;
               vis \<leftarrow> iterator_visible self c;
               let position = length_add (it_position self) (ts_subtree_size c);
               let next_index = it_child_index self + 1;
               Some (Some
                 (self\<lparr>it_structural_child_index :=
                         (if ts_subtree_extra c then it_structural_child_index self else it_structural_child_index self + 1),
                       it_descendant_index := it_descendant_index self + ts_subtree_visible_descendant_count c + of_bool vis,
                       it_position := (if next_index < length children
                                       then length_add position (ts_subtree_padding (children ! next_index))
                                       else position),
                       it_child_index := next_index\<rparr>, result, vis))
             })"

definition length_backtrack :: "Length \<Rightarrow> Length \<Rightarrow> Length" where
  "length_backtrack a b =
     (if length_is_undefined a \<or> row (extent b) \<noteq> 0 then LENGTH_UNDEFINED
      else \<lparr>bytes = bytes a - bytes b, extent = Point (row (extent a)) (column (extent a) - column (extent b))\<rparr>)"

text \<open>A number below \<open>2 ^ 32\<close> cast to \<open>int8_t\<close> is -1 where its low byte is 255.\<close>

definition ts_tree_cursor_child_iterator_previous ::
  "CursorChildIterator \<Rightarrow> (CursorChildIterator \<times> TreeCursorEntry \<times> bool) option option" where
  "ts_tree_cursor_child_iterator_previous self =
     (case it_parent self of
        None \<Rightarrow> Some None
      | Some parent \<Rightarrow>
          let children = ts_subtree_children (slot_tree parent)
          in if it_child_index self mod 256 = 255 then Some None
             else do {
               child \<leftarrow> slot_child parent (it_child_index self);
               let c = slot_tree child;
               let result = \<lparr>e_subtree = child, e_position = it_position self, e_child_index = it_child_index self,
                             e_structural_child_index = it_structural_child_index self, e_descendant_index = 0\<rparr>;
               vis \<leftarrow> iterator_visible self c;
               let position = length_backtrack (it_position self) (ts_subtree_padding c);
               let previous_index = (if it_child_index self = 0 then 2 ^ 32 - 1 else it_child_index self - 1);
               Some (Some
                 (self\<lparr>it_structural_child_index :=
                         (if \<not> ts_subtree_extra c \<and> it_alias_sequence self \<noteq> None
                          then it_structural_child_index self - 1 else it_structural_child_index self),
                       it_position := (if previous_index < length children
                                       then length_backtrack position (ts_subtree_size (children ! previous_index))
                                       else position),
                       it_child_index := previous_index\<rparr>, result, vis))
             })"

section \<open>Termination of the loops\<close>

text \<open>How many rounds a forward and a backward iterator have left.\<close>

definition forward_left :: "CursorChildIterator \<Rightarrow> nat" where
  "forward_left self =
     (case it_parent self of None \<Rightarrow> 0 | Some parent \<Rightarrow> length (ts_subtree_children (slot_tree parent)) - it_child_index self)"

definition backward_left :: "CursorChildIterator \<Rightarrow> nat" where
  "backward_left self = (if it_child_index self = 2 ^ 32 - 1 then 0 else it_child_index self + 1)"

lemma next_left:
  "ts_tree_cursor_child_iterator_next self = Some (Some (self', entry, vis)) \<Longrightarrow> forward_left self' < forward_left self"
  by (auto simp: ts_tree_cursor_child_iterator_next_def forward_left_def slot_child_def item_def Let_def bind_eq_Some_conv
      split: option.splits if_splits)

lemma previous_left:
  "ts_tree_cursor_child_iterator_previous self = Some (Some (self', entry, vis)) \<Longrightarrow> backward_left self' < backward_left self"
  by (auto simp: ts_tree_cursor_child_iterator_previous_def backward_left_def Let_def bind_eq_Some_conv
      split: option.splits if_splits)

lemma child_smaller: "c \<in> set (ts_subtree_children t) \<Longrightarrow> size c < size t"
  by (cases t) (auto dest: size_list_estimation' [OF _ le_refl, where f = size])

text \<open>An iterator yields entries for the children of its node, which are smaller than the node.\<close>

definition yields :: "CursorChildIterator \<Rightarrow> TreeCursorEntry \<Rightarrow> bool" where
  "yields it entry \<longleftrightarrow>
     (\<exists>parent. it_parent it = Some parent \<and> entry_tree entry \<in> set (ts_subtree_children (slot_tree parent)))"

lemma next_yields:
  "ts_tree_cursor_child_iterator_next self = Some (Some (self', entry, vis)) \<Longrightarrow>
     yields self entry \<and> (yields self' e \<longrightarrow> yields self e)"
  by (auto simp: ts_tree_cursor_child_iterator_next_def yields_def slot_child_def item_def Let_def bind_eq_Some_conv
      split: option.splits if_splits)

lemma yields_smaller:
  assumes "ts_tree_cursor_iterate_children self = Some it" and "yields it entry"
  shows "size (entry_tree entry) < size (entry_tree (last (c_stack self)))"
  using assms by (auto simp: ts_tree_cursor_iterate_children_def yields_def Let_def bind_eq_Some_conv child_smaller
      split: if_splits)

section \<open>Children\<close>

function first_child_loop :: "CursorChildIterator \<Rightarrow> (TreeCursorEntry \<times> TreeCursorStep) option option" where
  "first_child_loop it =
     (case ts_tree_cursor_child_iterator_next it of
        None \<Rightarrow> None
      | Some None \<Rightarrow> Some None
      | Some (Some (it', entry, vis)) \<Rightarrow>
          if vis then Some (Some (entry, TreeCursorStepVisible))
          else if 0 < ts_subtree_visible_child_count (entry_tree entry) then Some (Some (entry, TreeCursorStepHidden))
          else first_child_loop it')"
  by pat_completeness auto
termination by (relation "measure forward_left") (auto dest: next_left)

declare first_child_loop.simps [simp del]

text \<open>The stack with the entry the loop has found.\<close>

definition push_step ::
  "TreeCursor \<Rightarrow> (TreeCursorEntry \<times> TreeCursorStep) option \<Rightarrow> TreeCursorStep \<times> TreeCursor" where
  "push_step self found =
     (case found of
        None \<Rightarrow> (TreeCursorStepNone, self)
      | Some (entry, step) \<Rightarrow> (step, self\<lparr>c_stack := c_stack self @ [entry]\<rparr>))"

definition ts_tree_cursor_goto_first_child_internal :: "TreeCursor \<Rightarrow> (TreeCursorStep \<times> TreeCursor) option" where
  "ts_tree_cursor_goto_first_child_internal self = do {
     iterator \<leftarrow> ts_tree_cursor_iterate_children self;
     map_option (push_step self) (first_child_loop iterator)
   }"

lemma first_child_loop_yields:
  "first_child_loop it = Some (Some (entry, step)) \<Longrightarrow> yields it entry"
proof (induction it rule: first_child_loop.induct)
  case (1 it)
  from "1.prems" obtain it' e v where n: "ts_tree_cursor_child_iterator_next it = Some (Some (it', e, v))"
    and r: "entry = e \<or> \<not> v \<and> \<not> 0 < ts_subtree_visible_child_count (entry_tree e) \<and>
      first_child_loop it' = Some (Some (entry, step))"
    by (subst (asm) first_child_loop.simps) (auto split: option.splits if_splits)
  with "1.IH" [OF n refl refl refl] next_yields [OF n] show ?case by blast
qed

lemma first_child_internal_smaller:
  assumes "ts_tree_cursor_goto_first_child_internal self = Some (step, self')" and "step \<noteq> TreeCursorStepNone"
  shows "size (entry_tree (last (c_stack self'))) < size (entry_tree (last (c_stack self)))"
  using assms by (auto simp: ts_tree_cursor_goto_first_child_internal_def push_step_def bind_eq_Some_conv
      split: option.splits intro!: yields_smaller first_child_loop_yields)

function ts_tree_cursor_goto_first_child :: "TreeCursor \<Rightarrow> (bool \<times> TreeCursor) option" where
  "ts_tree_cursor_goto_first_child self =
     (case ts_tree_cursor_goto_first_child_internal self of
        None \<Rightarrow> None
      | Some (TreeCursorStepHidden, self) \<Rightarrow> ts_tree_cursor_goto_first_child self
      | Some (TreeCursorStepVisible, self) \<Rightarrow> Some (True, self)
      | Some (TreeCursorStepNone, self) \<Rightarrow> Some (False, self))"
  by pat_completeness auto
termination
  by (relation "measure (\<lambda>self. size (entry_tree (last (c_stack self))))")
    (auto dest: first_child_internal_smaller)

declare ts_tree_cursor_goto_first_child.simps [simp del]

text \<open>The loop keeps the last entry that would be gone to.\<close>

function last_child_loop ::
  "CursorChildIterator \<Rightarrow> (TreeCursorEntry \<times> TreeCursorStep) option \<Rightarrow> (TreeCursorEntry \<times> TreeCursorStep) option option" where
  "last_child_loop it found =
     (case ts_tree_cursor_child_iterator_next it of
        None \<Rightarrow> None
      | Some None \<Rightarrow> Some found
      | Some (Some (it', entry, vis)) \<Rightarrow>
          if vis then last_child_loop it' (Some (entry, TreeCursorStepVisible))
          else if 0 < ts_subtree_visible_child_count (entry_tree entry)
          then last_child_loop it' (Some (entry, TreeCursorStepHidden))
          else last_child_loop it' found)"
  by pat_completeness auto
termination by (relation "measure (\<lambda>(it, found). forward_left it)") (auto dest: next_left)

declare last_child_loop.simps [simp del]

definition ts_tree_cursor_goto_last_child_internal :: "TreeCursor \<Rightarrow> (TreeCursorStep \<times> TreeCursor) option" where
  "ts_tree_cursor_goto_last_child_internal self = do {
     iterator \<leftarrow> ts_tree_cursor_iterate_children self;
     map_option (push_step self) (last_child_loop iterator None)
   }"

lemma last_child_loop_yields:
  "last_child_loop it found = Some (Some (entry, step)) \<Longrightarrow> found \<noteq> Some (entry, step) \<Longrightarrow> yields it entry"
proof (induction it found rule: last_child_loop.induct)
  case (1 it found)
  from "1.prems" obtain it' e v where n: "ts_tree_cursor_child_iterator_next it = Some (Some (it', e, v))"
    by (subst (asm) last_child_loop.simps) (auto split: option.splits if_splits)
  with "1.prems" "1.IH" [OF n refl refl refl] next_yields [OF n] show ?case
    by (subst (asm) last_child_loop.simps) (auto split: if_splits)
qed

lemma last_child_internal_smaller:
  assumes "ts_tree_cursor_goto_last_child_internal self = Some (step, self')" and "step \<noteq> TreeCursorStepNone"
  shows "size (entry_tree (last (c_stack self'))) < size (entry_tree (last (c_stack self)))"
  using assms by (auto simp: ts_tree_cursor_goto_last_child_internal_def push_step_def bind_eq_Some_conv
      split: option.splits intro!: yields_smaller last_child_loop_yields)

function ts_tree_cursor_goto_last_child :: "TreeCursor \<Rightarrow> (bool \<times> TreeCursor) option" where
  "ts_tree_cursor_goto_last_child self =
     (case ts_tree_cursor_goto_last_child_internal self of
        None \<Rightarrow> None
      | Some (TreeCursorStepHidden, self) \<Rightarrow> ts_tree_cursor_goto_last_child self
      | Some (TreeCursorStepVisible, self) \<Rightarrow> Some (True, self)
      | Some (TreeCursorStepNone, self) \<Rightarrow> Some (False, self))"
  by pat_completeness auto
termination
  by (relation "measure (\<lambda>self. size (entry_tree (last (c_stack self))))")
    (auto dest: last_child_internal_smaller)

declare ts_tree_cursor_goto_last_child.simps [simp del]

text \<open>
  The search for the child at a position. A round of the inner loop ends with the entry that is visible, with the hidden
  entry to descend into, or without one; the number counts the visible children that are passed.
\<close>

datatype GoalStep = GoalFound TreeCursorEntry u32 | GoalDescend TreeCursorEntry u32 | GoalMissed

function goal_loop :: "u32 \<Rightarrow> TSPoint \<Rightarrow> CursorChildIterator \<Rightarrow> u32 \<Rightarrow> GoalStep option" where
  "goal_loop goal_byte goal_point it visible_child_index =
     (case ts_tree_cursor_child_iterator_next it of
        None \<Rightarrow> None
      | Some None \<Rightarrow> Some GoalMissed
      | Some (Some (it', entry, vis)) \<Rightarrow>
          let entry_end = length_add (e_position entry) (ts_subtree_size (entry_tree entry));
              at_goal = (goal_byte < bytes entry_end \<and> point_gt (extent entry_end) goal_point);
              n = ts_subtree_visible_child_count (entry_tree entry)
          in if at_goal then
               (if vis then Some (GoalFound entry visible_child_index)
                else if 0 < n then Some (GoalDescend entry visible_child_index)
                else goal_loop goal_byte goal_point it' visible_child_index)
             else if vis then goal_loop goal_byte goal_point it' (visible_child_index + 1)
             else goal_loop goal_byte goal_point it' (visible_child_index + n))"
  by pat_completeness auto
termination by (relation "measure (\<lambda>(b, p, it, n). forward_left it)") (auto dest: next_left)

declare goal_loop.simps [simp del]

lemma goal_loop_yields:
  "goal_loop goal_byte goal_point it n = Some (GoalDescend entry m) \<Longrightarrow> yields it entry"
proof (induction goal_byte goal_point it n rule: goal_loop.induct)
  case (1 goal_byte goal_point it n)
  from "1.prems" obtain it' e v where n: "ts_tree_cursor_child_iterator_next it = Some (Some (it', e, v))"
    by (subst (asm) goal_loop.simps) (auto split: option.splits)
  with "1.prems" "1.IH" [OF n refl refl refl refl refl refl] next_yields [OF n] show ?case
    by (subst (asm) goal_loop.simps) (auto simp: Let_def split: if_splits)
qed

function goal_descend ::
  "u32 \<Rightarrow> TSPoint \<Rightarrow> TreeCursor \<Rightarrow> u32 \<Rightarrow> (u32 \<times> TreeCursor) option option" where
  "goal_descend goal_byte goal_point self visible_child_index =
     (case ts_tree_cursor_iterate_children self of
        None \<Rightarrow> None
      | Some iterator \<Rightarrow>
          (case goal_loop goal_byte goal_point iterator visible_child_index of
             None \<Rightarrow> None
           | Some (GoalFound entry n) \<Rightarrow> Some (Some (n, self\<lparr>c_stack := c_stack self @ [entry]\<rparr>))
           | Some (GoalDescend entry n) \<Rightarrow>
               goal_descend goal_byte goal_point (self\<lparr>c_stack := c_stack self @ [entry]\<rparr>) n
           | Some GoalMissed \<Rightarrow> Some None))"
  by pat_completeness auto
termination
  by (relation "measure (\<lambda>(b, p, self, n). size (entry_tree (last (c_stack self))))")
    (auto intro!: yields_smaller goal_loop_yields)

declare goal_descend.simps [simp del]

text \<open>The result is the index of the child among the visible ones, or -1 with the stack as it was.\<close>

definition ts_tree_cursor_goto_first_child_for_byte_and_point ::
  "TreeCursor \<Rightarrow> u32 \<Rightarrow> TSPoint \<Rightarrow> (int \<times> TreeCursor) option" where
  "ts_tree_cursor_goto_first_child_for_byte_and_point self goal_byte goal_point =
     map_option (\<lambda>r. case r of None \<Rightarrow> (- 1, self) | Some (n, self') \<Rightarrow> (uint n, self'))
       (goal_descend goal_byte goal_point self 0)"

definition ts_tree_cursor_goto_first_child_for_byte :: "TreeCursor \<Rightarrow> u32 \<Rightarrow> (int \<times> TreeCursor) option" where
  "ts_tree_cursor_goto_first_child_for_byte self goal_byte =
     ts_tree_cursor_goto_first_child_for_byte_and_point self goal_byte POINT_ZERO"

definition ts_tree_cursor_goto_first_child_for_point :: "TreeCursor \<Rightarrow> TSPoint \<Rightarrow> (int \<times> TreeCursor) option" where
  "ts_tree_cursor_goto_first_child_for_point self goal_point =
     ts_tree_cursor_goto_first_child_for_byte_and_point self 0 goal_point"

section \<open>Siblings\<close>

text \<open>The two functions that \<open>advance\<close> points to.\<close>

datatype Direction = Forward | Backward

definition advance_by :: "Direction \<Rightarrow> CursorChildIterator \<Rightarrow> (CursorChildIterator \<times> TreeCursorEntry \<times> bool) option option" where
  "advance_by dir it =
     (case dir of Forward \<Rightarrow> ts_tree_cursor_child_iterator_next it | Backward \<Rightarrow> ts_tree_cursor_child_iterator_previous it)"

definition rounds_left :: "Direction \<Rightarrow> CursorChildIterator \<Rightarrow> nat" where
  "rounds_left dir it = (case dir of Forward \<Rightarrow> forward_left it | Backward \<Rightarrow> backward_left it)"

lemma advance_left: "advance_by dir it = Some (Some (it', entry, vis)) \<Longrightarrow> rounds_left dir it' < rounds_left dir it"
  by (auto simp: advance_by_def rounds_left_def dest: next_left previous_left split: Direction.splits)

function advance_loop :: "Direction \<Rightarrow> CursorChildIterator \<Rightarrow> (TreeCursorEntry \<times> TreeCursorStep) option option" where
  "advance_loop dir it =
     (case advance_by dir it of
        None \<Rightarrow> None
      | Some None \<Rightarrow> Some None
      | Some (Some (it', entry, vis)) \<Rightarrow>
          if vis then Some (Some (entry, TreeCursorStepVisible))
          else if ts_subtree_visible_child_count (entry_tree entry) \<noteq> 0 then Some (Some (entry, TreeCursorStepHidden))
          else advance_loop dir it')"
  by pat_completeness auto
termination by (relation "measure (\<lambda>(dir, it). rounds_left dir it)") (auto dest: advance_left)

declare advance_loop.simps [simp del]

text \<open>The first call of \<open>advance\<close> passes the entry that is popped; where it fails it is not visible.\<close>

function sibling_loop :: "Direction \<Rightarrow> nat \<Rightarrow> TreeCursor \<Rightarrow> (TreeCursorStep \<times> TreeCursor) option option" where
  "sibling_loop dir initial_size self =
     (if 1 < length (c_stack self) then
        (let entry = last (c_stack self); self = self\<lparr>c_stack := butlast (c_stack self)\<rparr>
         in case ts_tree_cursor_iterate_children self of
              None \<Rightarrow> None
            | Some iterator \<Rightarrow>
                (let iterator = iterator\<lparr>it_child_index := e_child_index entry,
                       it_structural_child_index := e_structural_child_index entry,
                       it_position := e_position entry, it_descendant_index := e_descendant_index entry\<rparr>
                 in case advance_by dir iterator of
                      None \<Rightarrow> None
                    | Some advanced \<Rightarrow>
                        (let (iterator, vis) = (case advanced of None \<Rightarrow> (iterator, False) | Some (it', e, v) \<Rightarrow> (it', v))
                         in if vis \<and> length (c_stack self) + 1 < initial_size then Some None
                            else (case advance_loop dir iterator of
                                    None \<Rightarrow> None
                                  | Some (Some found) \<Rightarrow> Some (Some (push_step self (Some found)))
                                  | Some None \<Rightarrow> sibling_loop dir initial_size self))))
      else Some None)"
  by pat_completeness auto
termination by (relation "measure (\<lambda>(dir, n, self). length (c_stack self))") auto

declare sibling_loop.simps [simp del]

definition ts_tree_cursor_goto_sibling_internal :: "TreeCursor \<Rightarrow> Direction \<Rightarrow> (TreeCursorStep \<times> TreeCursor) option" where
  "ts_tree_cursor_goto_sibling_internal self dir =
     map_option (\<lambda>r. case r of None \<Rightarrow> (TreeCursorStepNone, self) | Some found \<Rightarrow> found)
       (sibling_loop dir (length (c_stack self)) self)"

definition ts_tree_cursor_goto_next_sibling_internal :: "TreeCursor \<Rightarrow> (TreeCursorStep \<times> TreeCursor) option" where
  "ts_tree_cursor_goto_next_sibling_internal self = ts_tree_cursor_goto_sibling_internal self Forward"

definition ts_tree_cursor_goto_next_sibling :: "TreeCursor \<Rightarrow> (bool \<times> TreeCursor) option" where
  "ts_tree_cursor_goto_next_sibling self =
     (case ts_tree_cursor_goto_next_sibling_internal self of
        None \<Rightarrow> None
      | Some (TreeCursorStepHidden, self) \<Rightarrow> map_option (\<lambda>(b, self). (True, self)) (ts_tree_cursor_goto_first_child self)
      | Some (TreeCursorStepVisible, self) \<Rightarrow> Some (True, self)
      | Some (TreeCursorStepNone, self) \<Rightarrow> Some (False, self))"

fun total_sizes :: "Length \<Rightarrow> Subtree list \<Rightarrow> Length" where
  "total_sizes position [] = position"
| "total_sizes position (c # cs) = total_sizes (length_add position (ts_subtree_total_size c)) cs"

text \<open>The start of a child, computed from its parent.\<close>

definition restored_position :: "TreeCursorEntry \<Rightarrow> nat \<Rightarrow> Length option" where
  "restored_position parent i =
     (let position = e_position parent; children = ts_subtree_children (entry_tree parent)
      in if 0 < i then do {
           first \<leftarrow> item children 0;
           child \<leftarrow> item children i;
           Some (length_add (total_sizes (length_add position (ts_subtree_size first)) (drop 1 (take i children)))
                   (ts_subtree_padding child))
         }
         else Some position)"

definition ts_tree_cursor_goto_previous_sibling_internal :: "TreeCursor \<Rightarrow> (TreeCursorStep \<times> TreeCursor) option" where
  "ts_tree_cursor_goto_previous_sibling_internal self = do {
     (step, self) \<leftarrow> ts_tree_cursor_goto_sibling_internal self Backward;
     if step = TreeCursorStepNone then Some (step, self)
     else do {
       let entry = last (c_stack self);
       if \<not> length_is_undefined (e_position entry) then Some (step, self)
       else do {
         parent \<leftarrow> item (c_stack self) (length (c_stack self) - 2);
         position \<leftarrow> restored_position parent (e_child_index entry);
         Some (step, self\<lparr>c_stack := butlast (c_stack self) @ [entry\<lparr>e_position := position\<rparr>]\<rparr>)
       }
     }
   }"

definition ts_tree_cursor_goto_previous_sibling :: "TreeCursor \<Rightarrow> (bool \<times> TreeCursor) option" where
  "ts_tree_cursor_goto_previous_sibling self =
     (case ts_tree_cursor_goto_previous_sibling_internal self of
        None \<Rightarrow> None
      | Some (TreeCursorStepHidden, self) \<Rightarrow> map_option (\<lambda>(b, self). (True, self)) (ts_tree_cursor_goto_last_child self)
      | Some (TreeCursorStepVisible, self) \<Rightarrow> Some (True, self)
      | Some (TreeCursorStepNone, self) \<Rightarrow> Some (False, self))"

section \<open>Ancestors and descendants\<close>

text \<open>The indices below the argument, from the highest.\<close>

fun parent_loop :: "TreeCursor \<Rightarrow> nat \<Rightarrow> nat option option" where
  "parent_loop self 0 = Some None"
| "parent_loop self (Suc i) = do {
     vis \<leftarrow> ts_tree_cursor_is_entry_visible self i;
     if vis then Some (Some i) else parent_loop self i
   }"

definition ts_tree_cursor_goto_parent :: "TreeCursor \<Rightarrow> (bool \<times> TreeCursor) option" where
  "ts_tree_cursor_goto_parent self =
     (if c_stack self = [] then None
      else map_option (\<lambda>r. case r of None \<Rightarrow> (False, self) | Some i \<Rightarrow> (True, self\<lparr>c_stack := take (i + 1) (c_stack self)\<rparr>))
             (parent_loop self (length (c_stack self) - 1)))"

text \<open>The first loop ascends: \<open>Inl\<close> the cursor where the search ends without finding the goal.\<close>

function ascend_loop :: "u32 \<Rightarrow> TreeCursor \<Rightarrow> (TreeCursor + TreeCursor) option" where
  "ascend_loop goal self =
     (if c_stack self = [] then None
      else (let i = length (c_stack self) - 1; entry = last (c_stack self)
            in case ts_tree_cursor_is_entry_visible self i of
                 None \<Rightarrow> None
               | Some vis \<Rightarrow>
                   (let next_descendant_index =
                      e_descendant_index entry + of_bool vis + ts_subtree_visible_descendant_count (entry_tree entry)
                    in if e_descendant_index entry \<le> goal \<and> goal < next_descendant_index then Some (Inr self)
                       else if length (c_stack self) \<le> 1 then Some (Inl self)
                       else ascend_loop goal (self\<lparr>c_stack := butlast (c_stack self)\<rparr>))))"
  by pat_completeness auto
termination by (relation "measure (\<lambda>(goal, self). length (c_stack self))") auto

declare ascend_loop.simps [simp del]

text \<open>The child that holds the goal, with its visibility.\<close>

function containing_loop :: "u32 \<Rightarrow> CursorChildIterator \<Rightarrow> (TreeCursorEntry \<times> bool) option option" where
  "containing_loop goal it =
     (case ts_tree_cursor_child_iterator_next it of
        None \<Rightarrow> None
      | Some None \<Rightarrow> Some None
      | Some (Some (it', entry, vis)) \<Rightarrow>
          if goal < it_descendant_index it' then Some (Some (entry, vis)) else containing_loop goal it')"
  by pat_completeness auto
termination by (relation "measure (\<lambda>(goal, it). forward_left it)") (auto dest: next_left)

declare containing_loop.simps [simp del]

lemma containing_loop_yields: "containing_loop goal it = Some (Some (entry, vis)) \<Longrightarrow> yields it entry"
proof (induction goal it rule: containing_loop.induct)
  case (1 goal it)
  from "1.prems" obtain it' e v where n: "ts_tree_cursor_child_iterator_next it = Some (Some (it', e, v))"
    by (subst (asm) containing_loop.simps) (auto split: option.splits)
  with "1.prems" "1.IH" [OF n refl refl refl] next_yields [OF n] show ?case
    by (subst (asm) containing_loop.simps) (auto split: if_splits)
qed

function descend_loop :: "u32 \<Rightarrow> TreeCursor \<Rightarrow> TreeCursor option" where
  "descend_loop goal self =
     (case ts_tree_cursor_iterate_children self of
        None \<Rightarrow> None
      | Some iterator \<Rightarrow>
          if goal < it_descendant_index iterator then Some self
          else (case containing_loop goal iterator of
                  None \<Rightarrow> None
                | Some None \<Rightarrow> Some self
                | Some (Some (entry, vis)) \<Rightarrow>
                    let self = self\<lparr>c_stack := c_stack self @ [entry]\<rparr>
                    in if vis \<and> e_descendant_index entry = goal then Some self else descend_loop goal self))"
  by pat_completeness auto
termination
  by (relation "measure (\<lambda>(goal, self). size (entry_tree (last (c_stack self))))")
    (auto intro!: yields_smaller containing_loop_yields)

declare descend_loop.simps [simp del]

definition ts_tree_cursor_goto_descendant :: "TreeCursor \<Rightarrow> u32 \<Rightarrow> TreeCursor option" where
  "ts_tree_cursor_goto_descendant self goal = do {
     r \<leftarrow> ascend_loop goal self;
     case r of Inl self \<Rightarrow> Some self | Inr self \<Rightarrow> descend_loop goal self
   }"

definition ts_tree_cursor_current_descendant_index :: "TreeCursor \<Rightarrow> u32 option" where
  "ts_tree_cursor_current_descendant_index self =
     (if c_stack self = [] then None else Some (e_descendant_index (last (c_stack self))))"

section \<open>The current node\<close>

definition entry_alias :: "TreeCursor \<Rightarrow> nat \<Rightarrow> TSSymbol option" where
  "entry_alias self i = do {
     entry \<leftarrow> item (c_stack self) i;
     parent_entry \<leftarrow> item (c_stack self) (i - 1);
     ts_language_alias_at (cursor_language self) (unat (ts_subtree_production_id (entry_tree parent_entry)))
       (e_structural_child_index entry)
   }"

definition ts_tree_cursor_current_node :: "TreeCursor \<Rightarrow> TSNode option" where
  "ts_tree_cursor_current_node self =
     (if c_stack self = [] then None
      else do {
        let last_entry = last (c_stack self);
        let is_extra = ts_subtree_extra (entry_tree last_entry);
        a \<leftarrow> (if 1 < length (c_stack self) \<and> \<not> is_extra then entry_alias self (length (c_stack self) - 1)
              else Some (if is_extra then 0 else root_alias_symbol self));
        Some (ts_node_new (Some (c_tree self)) (Some (e_subtree last_entry)) (e_position last_entry) a)
      })"

fun depth_loop :: "TreeCursor \<Rightarrow> nat list \<Rightarrow> nat option" where
  "depth_loop self [] = Some 0"
| "depth_loop self (i # is) = do {
     vis \<leftarrow> ts_tree_cursor_is_entry_visible self i;
     n \<leftarrow> depth_loop self is;
     Some (of_bool vis + n)
   }"

definition ts_tree_cursor_current_depth :: "TreeCursor \<Rightarrow> nat option" where
  "ts_tree_cursor_current_depth self = depth_loop self [1..<length (c_stack self)]"

text \<open>The indices below the argument, from the highest.\<close>

fun parent_node_loop :: "TreeCursor \<Rightarrow> nat \<Rightarrow> TSNode option" where
  "parent_node_loop self 0 = Some ts_node__null"
| "parent_node_loop self (Suc i) = do {
     entry \<leftarrow> item (c_stack self) i;
     a \<leftarrow> (if 0 < i then entry_alias self i else Some 0);
     if i = 0 \<or> a \<noteq> 0 \<or> ts_subtree_visible (entry_tree entry)
     then Some (ts_node_new (Some (c_tree self)) (Some (e_subtree entry)) (e_position entry) a)
     else parent_node_loop self i
   }"

definition ts_tree_cursor_parent_node :: "TreeCursor \<Rightarrow> TSNode option" where
  "ts_tree_cursor_parent_node self = parent_node_loop self (length (c_stack self) - 1)"

section \<open>Fields and the status for queries\<close>

definition entry_field_map :: "TreeCursor \<Rightarrow> nat \<Rightarrow> TSFieldMapEntry list option" where
  "entry_field_map self i = do {
     parent_entry \<leftarrow> item (c_stack self) (i - 1);
     ts_language_field_map (cursor_language self) (ucast (ts_subtree_production_id (entry_tree parent_entry)))
   }"

text \<open>The first field of the production that is not inherited and is at the index of the child.\<close>

definition field_at :: "TSFieldMapEntry list \<Rightarrow> nat \<Rightarrow> TSFieldMapEntry option" where
  "field_at field_map si = List.find (\<lambda>m. \<not> inherited m \<and> unat (child_index m) = si) field_map"

fun field_id_up :: "TreeCursor \<Rightarrow> nat \<Rightarrow> TSFieldId option" where
  "field_id_up self 0 = Some 0"
| "field_id_up self (Suc j) =
     (let i = Suc j
      in do {
        entry \<leftarrow> item (c_stack self) i;
        stop \<leftarrow> (if i \<noteq> length (c_stack self) - 1 then ts_tree_cursor_is_entry_visible self i else Some False);
        if stop \<or> ts_subtree_extra (entry_tree entry) then Some 0
        else do {
          field_map \<leftarrow> entry_field_map self i;
          case field_at field_map (e_structural_child_index entry) of
            Some m \<Rightarrow> Some (field_id m)
          | None \<Rightarrow> field_id_up self j
        }
      })"

definition ts_tree_cursor_current_field_id :: "TreeCursor \<Rightarrow> TSFieldId option" where
  "ts_tree_cursor_current_field_id self = field_id_up self (length (c_stack self) - 1)"

definition ts_tree_cursor_current_field_name :: "TreeCursor \<Rightarrow> string option option" where
  "ts_tree_cursor_current_field_name self = do {
     i \<leftarrow> ts_tree_cursor_current_field_id self;
     if i \<noteq> 0 then map_option Some (item (field_names (cursor_language self)) (unat i)) else Some None
   }"

record CursorStatus =
  st_field_id :: TSFieldId
  has_later_siblings :: bool
  has_later_named_siblings :: bool
  can_have_later_siblings_with_this_field :: bool
  st_supertypes :: "TSSymbol list"

text \<open>The symbol of a child under its alias: the macro \<open>subtree_symbol\<close>.\<close>

definition subtree_symbol :: "TSSymbol list option \<Rightarrow> Subtree \<Rightarrow> nat \<Rightarrow> TSSymbol option" where
  "subtree_symbol alias_sequence t si =
     (case alias_sequence of
        Some als \<Rightarrow>
          if ts_subtree_extra t then Some (ts_subtree_symbol t)
          else map_option (\<lambda>a. if a \<noteq> 0 then a else ts_subtree_symbol t) (item als si)
      | None \<Rightarrow> Some (ts_subtree_symbol t))"

text \<open>The loop over the later siblings, from the structural index of the first of them.\<close>

fun later_loop :: "TSLanguage \<Rightarrow> TSSymbol list option \<Rightarrow> nat \<Rightarrow> Subtree list \<Rightarrow> CursorStatus \<Rightarrow> CursorStatus option" where
  "later_loop lang als si [] st = Some st"
| "later_loop lang als si (sibling # cs) st = do {
     sy \<leftarrow> subtree_symbol als sibling si;
     metadata \<leftarrow> ts_language_symbol_metadata lang sy;
     let si' = (if ts_subtree_extra sibling then si else si + 1);
     if visible metadata then
       (let st = st\<lparr>has_later_siblings := True\<rparr>
        in if has_later_named_siblings st then Some st
           else if named metadata then Some (st\<lparr>has_later_named_siblings := True\<rparr>)
           else later_loop lang als si' cs st)
     else if 0 < ts_subtree_visible_child_count sibling then
       (let st = st\<lparr>has_later_siblings := True\<rparr>
        in if has_later_named_siblings st then Some st
           else if 0 < ts_subtree_named_child_count sibling then Some (st\<lparr>has_later_named_siblings := True\<rparr>)
           else later_loop lang als si' cs st)
     else later_loop lang als si' cs st
   }"

text \<open>What a round reads in the field map of the production.\<close>

definition status_fields :: "TSFieldMapEntry list \<Rightarrow> nat \<Rightarrow> CursorStatus \<Rightarrow> CursorStatus" where
  "status_fields field_map si st =
     (let st = (if st_field_id st = 0
                then (case field_at field_map si of Some m \<Rightarrow> st\<lparr>st_field_id := field_id m\<rparr> | None \<Rightarrow> st)
                else st)
      in if st_field_id st \<noteq> 0 \<and> list_ex (\<lambda>m. field_id m = st_field_id st \<and> si < unat (child_index m)) field_map
         then st\<lparr>can_have_later_siblings_with_this_field := True\<rparr> else st)"

fun status_loop :: "TreeCursor \<Rightarrow> nat \<Rightarrow> nat \<Rightarrow> CursorStatus \<Rightarrow> CursorStatus option" where
  "status_loop self max_supertypes 0 st = Some st"
| "status_loop self max_supertypes (Suc j) st =
     (let i = Suc j; lang = cursor_language self
      in do {
        entry \<leftarrow> item (c_stack self) i;
        parent_entry \<leftarrow> item (c_stack self) j;
        let als = ts_language_alias_sequence lang (unat (ts_subtree_production_id (entry_tree parent_entry)));
        let si = e_structural_child_index entry;
        entry_symbol \<leftarrow> subtree_symbol als (entry_tree entry) si;
        entry_metadata \<leftarrow> ts_language_symbol_metadata lang entry_symbol;
        if i \<noteq> length (c_stack self) - 1 \<and> visible entry_metadata then Some st
        else do {
          let st = (if supertype entry_metadata \<and> length (st_supertypes st) < max_supertypes
                    then st\<lparr>st_supertypes := st_supertypes st @ [entry_symbol]\<rparr> else st);
          st \<leftarrow> (if \<not> has_later_siblings st
                 then later_loop lang als (if ts_subtree_extra (entry_tree entry) then si else si + 1)
                        (drop (e_child_index entry + 1) (ts_subtree_children (entry_tree parent_entry))) st
                 else Some st);
          st \<leftarrow> (if \<not> ts_subtree_extra (entry_tree entry)
                 then map_option (\<lambda>field_map. status_fields field_map si st) (entry_field_map self i)
                 else Some st);
          status_loop self max_supertypes j st
        }
      })"

definition ts_tree_cursor_current_status :: "TreeCursor \<Rightarrow> nat \<Rightarrow> CursorStatus option" where
  "ts_tree_cursor_current_status self max_supertypes =
     status_loop self max_supertypes (length (c_stack self) - 1)
       \<lparr>st_field_id = 0, has_later_siblings = False, has_later_named_siblings = False,
        can_have_later_siblings_with_this_field = False, st_supertypes = []\<rparr>"

section \<open>Copies\<close>

definition ts_tree_cursor_copy :: "TreeCursor \<Rightarrow> TreeCursor" where
  "ts_tree_cursor_copy self =
     \<lparr>c_tree = c_tree self, c_stack = c_stack self, root_alias_symbol = root_alias_symbol self\<rparr>"

definition ts_tree_cursor_reset_to :: "TreeCursor \<Rightarrow> TreeCursor \<Rightarrow> TreeCursor" where
  "ts_tree_cursor_reset_to dst src =
     dst\<lparr>c_tree := c_tree src, root_alias_symbol := root_alias_symbol src, c_stack := c_stack src\<rparr>"

definition ts_tree_cursor_current_subtree :: "TreeCursor \<Rightarrow> Subtree option" where
  "ts_tree_cursor_current_subtree self = (if c_stack self = [] then None else Some (entry_tree (last (c_stack self))))"

end
