(* ===== verification/Cursor_Paths.thy ===== *)
theory Cursor_Paths
  imports Tree_Cursor Subtree_Nodes
begin

text \<open>
  What a cursor walks over. A node is a path from the node of the cursor, and the stack of a cursor is determined by the
  path of its current node. The visible children of a node are those of its children that are shown and, in place of the
  others, their visible children in turn; the visible descendants are the shown nodes below it in preorder.
\<close>

section \<open>Paths\<close>

fun subtree_at :: "Subtree \<Rightarrow> nat list \<Rightarrow> Subtree option" where
  "subtree_at t [] = Some t"
| "subtree_at t (k # p) = do { c \<leftarrow> item (ts_subtree_children t) k; subtree_at c p }"

definition structural_index :: "Subtree \<Rightarrow> nat \<Rightarrow> nat" where
  "structural_index t k = length (filter (\<lambda>c. \<not> ts_subtree_extra c) (take k (ts_subtree_children t)))"

definition alias_of :: "TSLanguage \<Rightarrow> Subtree \<Rightarrow> nat \<Rightarrow> TSSymbol" where
  "alias_of lang t k =
     (case ts_language_alias_at lang (unat (ts_subtree_production_id t)) (structural_index t k) of Some a \<Rightarrow> a | None \<Rightarrow> 0)"

definition child_shown :: "TSLanguage \<Rightarrow> Subtree \<Rightarrow> nat \<Rightarrow> bool" where
  "child_shown lang t k =
     (let c = ts_subtree_children t ! k in ts_subtree_visible c \<or> \<not> ts_subtree_extra c \<and> alias_of lang t k \<noteq> 0)"

lemma nth_child_smaller: "k < ts_subtree_child_count t \<Longrightarrow> size (ts_subtree_children t ! k) < size t"
  by (simp add: child_smaller ts_subtree_child_count_def)

function child_paths :: "TSLanguage \<Rightarrow> Subtree \<Rightarrow> nat list list" where
  "child_paths lang t =
     concat (map (\<lambda>k. if child_shown lang t k then [[k]] else map ((#) k) (child_paths lang (ts_subtree_children t ! k)))
       [0..<ts_subtree_child_count t])"
  by pat_completeness auto
termination by (relation "measure (\<lambda>(lang, t). size t)") (auto simp: nth_child_smaller)

function visible_paths :: "TSLanguage \<Rightarrow> Subtree \<Rightarrow> nat list list" where
  "visible_paths lang t =
     concat (map (\<lambda>k. (if child_shown lang t k then [[k]] else []) @ map ((#) k) (visible_paths lang (ts_subtree_children t ! k)))
       [0..<ts_subtree_child_count t])"
  by pat_completeness auto
termination by (relation "measure (\<lambda>(lang, t). size t)") (auto simp: nth_child_smaller)

declare child_paths.simps [simp del] visible_paths.simps [simp del]

text \<open>The parts of the lists that come from the child at an index, and from the children between two indices.\<close>

definition child_part :: "TSLanguage \<Rightarrow> Subtree \<Rightarrow> nat \<Rightarrow> nat list list" where
  "child_part lang t k = (if child_shown lang t k then [[k]] else map ((#) k) (child_paths lang (ts_subtree_children t ! k)))"

definition visible_part :: "TSLanguage \<Rightarrow> Subtree \<Rightarrow> nat \<Rightarrow> nat list list" where
  "visible_part lang t k =
     (if child_shown lang t k then [[k]] else []) @ map ((#) k) (visible_paths lang (ts_subtree_children t ! k))"

definition child_paths_from :: "TSLanguage \<Rightarrow> Subtree \<Rightarrow> nat \<Rightarrow> nat list list" where
  "child_paths_from lang t i = concat (map (child_part lang t) [i..<ts_subtree_child_count t])"

definition visible_before :: "TSLanguage \<Rightarrow> Subtree \<Rightarrow> nat \<Rightarrow> nat list list" where
  "visible_before lang t i = concat (map (visible_part lang t) [0..<i])"

lemma child_paths_from_0 [code]: "child_paths lang t = child_paths_from lang t 0"
  by (subst child_paths.simps) (simp add: child_paths_from_def child_part_def [abs_def])

lemma visible_paths_before [code]: "visible_paths lang t = visible_before lang t (ts_subtree_child_count t)"
  by (subst visible_paths.simps) (simp add: visible_before_def visible_part_def [abs_def])

lemma child_paths_from_step:
  "i < ts_subtree_child_count t \<Longrightarrow> child_paths_from lang t i = child_part lang t i @ child_paths_from lang t (Suc i)"
  by (simp add: child_paths_from_def upt_conv_Cons)

lemma child_paths_from_end [simp]: "ts_subtree_child_count t \<le> i \<Longrightarrow> child_paths_from lang t i = []"
  by (simp add: child_paths_from_def)

lemma visible_before_step [simp]:
  "visible_before lang t 0 = []" "visible_before lang t (Suc i) = visible_before lang t i @ visible_part lang t i"
  by (simp_all add: visible_before_def)

lemma structural_index_Suc:
  "k < ts_subtree_child_count t \<Longrightarrow>
     structural_index t (Suc k) = (if ts_subtree_extra (ts_subtree_children t ! k) then structural_index t k
                                   else Suc (structural_index t k))"
  by (simp add: structural_index_def ts_subtree_child_count_def take_Suc_conv_app_nth)

lemma structural_index_0 [simp]: "structural_index t 0 = 0"
  by (simp add: structural_index_def)

section \<open>Trees whose caches are exact\<close>

text \<open>
  The reads of the alias tables for the nodes of the tree are inside the tables, and a node for the end of the input is
  extra, as \<open>ts_subtree_new_leaf\<close> makes it.
\<close>

fun aliases_fit :: "TSLanguage \<Rightarrow> Subtree \<Rightarrow> bool" where
  "aliases_fit lang (Inline d) = True"
| "aliases_fit lang (Ptr h cs) =
     (aliases_known lang (ts_language_alias_sequence lang (unat (h_production_id h))) 0 cs \<and>
      list_all (\<lambda>c. ts_subtree_symbol c = 0 \<longrightarrow> ts_subtree_extra c) cs \<and> list_all (aliases_fit lang) cs)"

text \<open>A tree as the parser builds it, with fewer than \<open>2 ^ 32\<close> visible nodes.\<close>

definition readable :: "TSLanguage \<Rightarrow> Subtree \<Rightarrow> bool" where
  "readable lang t \<longleftrightarrow> summary_exact lang t \<and> aliases_fit lang t \<and> descendants lang t < 2 ^ 32"

lemma aliases_known_nth:
  assumes "aliases_known lang als si cs" and "k < length cs"
  shows "case child_alias als (si + length (filter (\<lambda>c. \<not> ts_subtree_extra c) (take k cs))) (cs ! k) of
    None \<Rightarrow> False | Some a \<Rightarrow> a = 0 \<or> ts_language_symbol_metadata lang a \<noteq> None"
  using assms
proof (induction cs arbitrary: si k)
  case (Cons c cs)
  show ?case
  proof (cases k)
    case 0
    with Cons.prems show ?thesis by simp
  next
    case (Suc n)
    then show ?thesis
      using Cons.IH [of "if ts_subtree_extra c then si else si + 1" n] Cons.prems by (auto split: if_splits)
  qed
qed simp

lemma alias_sequence_at:
  "ts_language_alias_at lang pid i =
     (case ts_language_alias_sequence lang pid of None \<Rightarrow> Some 0 | Some a \<Rightarrow> item a i)"
  by (auto simp: ts_language_alias_at_def ts_language_alias_sequence_def item_def less_diff_conv2 add.commute)

text \<open>The alias of a child that is not extra is read inside the table.\<close>

lemma alias_of_read:
  assumes "aliases_fit lang t" and "k < ts_subtree_child_count t" and "\<not> ts_subtree_extra (ts_subtree_children t ! k)"
  shows "ts_language_alias_at lang (unat (ts_subtree_production_id t)) (structural_index t k) = Some (alias_of lang t k)"
    "child_alias (ts_language_alias_sequence lang (unat (ts_subtree_production_id t))) (structural_index t k)
       (ts_subtree_children t ! k) = Some (alias_of lang t k)"
    "alias_of lang t k \<noteq> 0 \<longrightarrow> ts_language_symbol_metadata lang (alias_of lang t k) \<noteq> None"
proof -
  obtain h cs where t: "t = Ptr h cs" "k < length cs"
    using assms(2) by (cases t) (simp_all add: ts_subtree_child_count_def)
  then have "cs \<noteq> []" by auto
  let ?als = "ts_language_alias_sequence lang (unat (h_production_id h))"
  have "ts_subtree_symbol (cs ! k) \<noteq> 0" using assms t by (auto simp: list_all_length)
  then have c: "child_alias ?als si (cs ! k) = ts_language_alias_at lang (unat (h_production_id h)) si" for si
    using assms(3) t by (simp add: child_alias_def alias_sequence_at)
  have "aliases_known lang ?als 0 cs" using assms(1) t by simp
  note aliases_known_nth [OF this t(2)]
  with t \<open>cs \<noteq> []\<close> c show "ts_language_alias_at lang (unat (ts_subtree_production_id t)) (structural_index t k) = Some (alias_of lang t k)"
    "child_alias (ts_language_alias_sequence lang (unat (ts_subtree_production_id t))) (structural_index t k)
       (ts_subtree_children t ! k) = Some (alias_of lang t k)"
    "alias_of lang t k \<noteq> 0 \<longrightarrow> ts_language_symbol_metadata lang (alias_of lang t k) \<noteq> None"
    by (auto simp: alias_of_def structural_index_def split: option.splits)
qed

lemma shown_as_child:
  assumes "aliases_fit lang t" and "k < ts_subtree_child_count t"
  shows "shown_as lang (ts_language_alias_sequence lang (unat (ts_subtree_production_id t))) (structural_index t k)
    (ts_subtree_children t ! k) \<noteq> None \<longleftrightarrow> child_shown lang t k"
proof (cases "ts_subtree_extra (ts_subtree_children t ! k)")
  case True
  then show ?thesis by (simp add: shown_as_def child_alias_def child_shown_def Let_def)
next
  case False
  with alias_of_read [OF assms False] show ?thesis by (auto simp: shown_as_def child_shown_def Let_def)
qed

text \<open>The summary counts the visible children and descendants.\<close>

lemma counts_from:
  assumes fit: "aliases_fit lang t"
    and below: "\<And>k. k < ts_subtree_child_count t \<Longrightarrow>
      length (shown lang (ts_subtree_children t ! k)) = length (child_paths lang (ts_subtree_children t ! k)) \<and>
      descendants lang (ts_subtree_children t ! k) = length (visible_paths lang (ts_subtree_children t ! k))"
    and i: "i \<le> ts_subtree_child_count t"
  shows "let als = ts_language_alias_sequence lang (unat (ts_subtree_production_id t));
      cs = drop i (ts_subtree_children t)
    in length (shown_list lang als (structural_index t i) cs) = length (child_paths_from lang t i) \<and>
      descendants_list lang als (structural_index t i) cs =
        length (concat (map (visible_part lang t) [i..<ts_subtree_child_count t]))"
  using i
proof (induction "ts_subtree_child_count t - i" arbitrary: i)
  case 0
  then show ?case by (simp add: ts_subtree_child_count_def)
next
  case (Suc n)
  then have i: "i < ts_subtree_child_count t" by simp
  then have d: "drop i (ts_subtree_children t) = ts_subtree_children t ! i # drop (Suc i) (ts_subtree_children t)"
    by (simp add: ts_subtree_child_count_def Cons_nth_drop_Suc)
  have u: "[i..<ts_subtree_child_count t] = i # [Suc i..<ts_subtree_child_count t]" using i by (simp add: upt_conv_Cons)
  have IH: "let als = ts_language_alias_sequence lang (unat (ts_subtree_production_id t));
      cs = drop (Suc i) (ts_subtree_children t)
    in length (shown_list lang als (structural_index t (Suc i)) cs) = length (child_paths_from lang t (Suc i)) \<and>
      descendants_list lang als (structural_index t (Suc i)) cs =
        length (concat (map (visible_part lang t) [Suc i..<ts_subtree_child_count t]))"
    using Suc i by (intro Suc.hyps(1)) auto
  then show ?case
    using shown_as_child [OF fit i] below [OF i] i
    by (auto simp: Let_def d u child_paths_from_step [OF i] child_part_def visible_part_def structural_index_Suc [OF i]
        split: option.splits)
qed

lemma counts_paths:
  "aliases_fit lang t \<Longrightarrow>
     length (shown lang t) = length (child_paths lang t) \<and> descendants lang t = length (visible_paths lang t)"
proof (induction t)
  case (Inline d)
  show ?case by (simp add: child_paths_from_0 visible_paths_before ts_subtree_child_count_def)
next
  case (Ptr h cs)
  have "let als = ts_language_alias_sequence lang (unat (ts_subtree_production_id (Ptr h cs)));
      ds = drop 0 (ts_subtree_children (Ptr h cs))
    in length (shown_list lang als (structural_index (Ptr h cs) 0) ds) = length (child_paths_from lang (Ptr h cs) 0) \<and>
      descendants_list lang als (structural_index (Ptr h cs) 0) ds =
        length (concat (map (visible_part lang (Ptr h cs)) [0..<ts_subtree_child_count (Ptr h cs)]))"
    using Ptr by (intro counts_from) (auto simp: ts_subtree_child_count_def list_all_length)
  then show ?case
    by (cases "cs = []") (simp_all add: child_paths_from_0 visible_paths_before visible_before_def Let_def)
qed

lemma visible_part_le:
  "k < ts_subtree_child_count t \<Longrightarrow> length (visible_paths lang (ts_subtree_children t ! k)) \<le> length (visible_paths lang t)"
proof -
  assume "k < ts_subtree_child_count t"
  then have "length (visible_part lang t k) \<le> length (visible_paths lang t)"
    by (auto simp: visible_paths_before visible_before_def length_concat intro: member_le_sum_list)
  then show ?thesis by (simp add: visible_part_def)
qed

lemma child_paths_le: "length (child_paths lang t) \<le> length (visible_paths lang t)"
proof (induction t)
  case (Ptr h cs)
  have "length (child_part lang (Ptr h cs) k) \<le> length (visible_part lang (Ptr h cs) k)"
    if "k \<in> set [0..<ts_subtree_child_count (Ptr h cs)]" for k
    using Ptr [of "cs ! k"] that by (auto simp: child_part_def visible_part_def ts_subtree_child_count_def)
  then have "(\<Sum>k\<leftarrow>[0..<ts_subtree_child_count (Ptr h cs)]. length (child_part lang (Ptr h cs) k)) \<le>
      (\<Sum>k\<leftarrow>[0..<ts_subtree_child_count (Ptr h cs)]. length (visible_part lang (Ptr h cs) k))"
    by (rule sum_list_mono)
  then show ?case
    by (simp add: child_paths_from_0 child_paths_from_def visible_paths_before visible_before_def length_concat comp_def)
qed (simp add: child_paths_from_0 ts_subtree_child_count_def)

lemma readable_child:
  assumes "readable lang t" and "k < ts_subtree_child_count t"
  shows "readable lang (ts_subtree_children t ! k)"
proof -
  obtain h cs where t: "t = Ptr h cs" "k < length cs"
    using assms(2) by (cases t) (simp_all add: ts_subtree_child_count_def)
  then have fit: "aliases_fit lang (cs ! k)" "summary_exact lang (cs ! k)"
    using assms(1) by (auto simp: readable_def list_all_length)
  have "descendants lang (cs ! k) \<le> descendants lang t"
    using visible_part_le [OF assms(2), of lang] counts_paths [OF fit(1)] counts_paths [of lang t] assms(1) t
    by (simp add: readable_def)
  with fit assms(1) t show ?thesis by (simp add: readable_def)
qed

lemma readable_counts:
  assumes "readable lang t"
  shows "unat (ts_subtree_visible_child_count t) = length (child_paths lang t)"
    "unat (ts_subtree_visible_descendant_count t) = length (visible_paths lang t)"
proof -
  have t: "summary_exact lang t" "aliases_fit lang t" "descendants lang t < 2 ^ 32" using assms by (simp_all add: readable_def)
  note c = counts_paths [OF t(2)] cached_counts(1,3) [OF t(1)] child_paths_le [of lang t]
  show "unat (ts_subtree_visible_descendant_count t) = length (visible_paths lang t)" using t(3) c by simp
  show "unat (ts_subtree_visible_child_count t) = length (child_paths lang t)" using t(3) c by simp
qed

lemma readable_hidden:
  "readable lang t \<Longrightarrow> 0 < ts_subtree_visible_child_count t \<longleftrightarrow> child_paths lang t \<noteq> []"
  using readable_counts(1) [of lang t] by (auto simp: word_greater_zero_iff unat_gt_0 [symmetric])

section \<open>The stack of a cursor\<close>

text \<open>Where the iterator over the children of a node stands before an index.\<close>

fun iter_position :: "Length \<Rightarrow> Subtree \<Rightarrow> nat \<Rightarrow> Length" where
  "iter_position p t 0 = p"
| "iter_position p t (Suc i) =
     (let q = length_add (iter_position p t i) (ts_subtree_size (ts_subtree_children t ! i))
      in if Suc i < ts_subtree_child_count t then length_add q (ts_subtree_padding (ts_subtree_children t ! Suc i)) else q)"

definition descendants_before :: "TSLanguage \<Rightarrow> bool \<Rightarrow> TreeCursorEntry \<Rightarrow> nat \<Rightarrow> u32" where
  "descendants_before lang vis e i =
     e_descendant_index e + of_bool vis + of_nat (length (visible_before lang (entry_tree e) i))"

definition child_entry :: "TSLanguage \<Rightarrow> bool \<Rightarrow> TreeCursorEntry \<Rightarrow> nat \<Rightarrow> TreeCursorEntry" where
  "child_entry lang vis e i =
     \<lparr>e_subtree = \<lparr>slot_path = slot_path (e_subtree e) @ [i], slot_tree = ts_subtree_children (entry_tree e) ! i\<rparr>,
      e_position = iter_position (e_position e) (entry_tree e) i, e_child_index = i,
      e_structural_child_index = structural_index (entry_tree e) i, e_descendant_index = descendants_before lang vis e i\<rparr>"

definition iter_at :: "TSTree \<Rightarrow> bool \<Rightarrow> TreeCursorEntry \<Rightarrow> nat \<Rightarrow> CursorChildIterator" where
  "iter_at tree vis e i =
     \<lparr>it_parent = Some (e_subtree e), it_tree = tree, it_position = iter_position (e_position e) (entry_tree e) i,
      it_child_index = i, it_structural_child_index = structural_index (entry_tree e) i,
      it_descendant_index = descendants_before (t_language tree) vis e i,
      it_alias_sequence = ts_language_alias_sequence (t_language tree) (unat (ts_subtree_production_id (entry_tree e)))\<rparr>"

fun stack_at :: "TSLanguage \<Rightarrow> bool \<Rightarrow> TreeCursorEntry \<Rightarrow> nat list \<Rightarrow> TreeCursorEntry list" where
  "stack_at lang vis e [] = [e]"
| "stack_at lang vis e (k # p) = e # stack_at lang (child_shown lang (entry_tree e) k) (child_entry lang vis e k) p"

text \<open>The entry at a path, and whether it is shown; the node of the cursor always is.\<close>

fun entry_at_path :: "TSLanguage \<Rightarrow> bool \<Rightarrow> TreeCursorEntry \<Rightarrow> nat list \<Rightarrow> TreeCursorEntry \<times> bool" where
  "entry_at_path lang vis e [] = (e, vis)"
| "entry_at_path lang vis e (k # p) =
     entry_at_path lang (child_shown lang (entry_tree e) k) (child_entry lang vis e k) p"

definition cursor_at :: "TSTree \<Rightarrow> TreeCursorEntry \<Rightarrow> TSSymbol \<Rightarrow> nat list \<Rightarrow> TreeCursor" where
  "cursor_at tree e a p = \<lparr>c_tree = tree, c_stack = stack_at (t_language tree) True e p, root_alias_symbol = a\<rparr>"

lemma entry_tree_child [simp]: "entry_tree (child_entry lang vis e k) = ts_subtree_children (entry_tree e) ! k"
  by (simp add: child_entry_def)

lemma stack_at_nonempty [simp]: "stack_at lang vis e p \<noteq> []"
  by (cases p) simp_all

lemma length_stack_at [simp]: "length (stack_at lang vis e p) = Suc (length p)"
  by (induction p arbitrary: vis e) simp_all

lemma entry_at_path_append:
  "entry_at_path lang vis e (p @ q) = (let (e', v) = entry_at_path lang vis e p in entry_at_path lang v e' q)"
  by (induction p arbitrary: vis e) simp_all

lemma stack_at_snoc:
  "stack_at lang vis e (p @ [k]) =
     stack_at lang vis e p @ [let (e', v) = entry_at_path lang vis e p in child_entry lang v e' k]"
  by (induction p arbitrary: vis e) (simp_all add: Let_def)

lemma last_stack_at: "last (stack_at lang vis e p) = fst (entry_at_path lang vis e p)"
  by (induction p arbitrary: vis e) (simp_all add: Let_def)

lemma entry_at_path_tree:
  "subtree_at (entry_tree e) p = Some t \<Longrightarrow> entry_tree (fst (entry_at_path lang vis e p)) = t"
  by (induction p arbitrary: vis e) (auto simp: item_def bind_eq_Some_conv split: if_splits)

lemma subtree_at_append:
  "subtree_at t (p @ q) = do { s \<leftarrow> subtree_at t p; subtree_at s q }"
  by (induction p arbitrary: t) (simp_all add: bind_assoc)

lemma readable_at: "readable lang t \<Longrightarrow> subtree_at t p = Some s \<Longrightarrow> readable lang s"
  by (induction p arbitrary: t)
    (auto simp: item_def bind_eq_Some_conv split: if_splits dest: readable_child [unfolded ts_subtree_child_count_def])

section \<open>Steps of the iterator\<close>

lemma iterator_visible_at:
  assumes "readable (t_language tree) (entry_tree e)" and "i < ts_subtree_child_count (entry_tree e)"
  shows "iterator_visible (iter_at tree vis e i) (ts_subtree_children (entry_tree e) ! i) =
    Some (child_shown (t_language tree) (entry_tree e) i)"
proof (cases "ts_subtree_extra (ts_subtree_children (entry_tree e) ! i)")
  case True
  then show ?thesis by (simp add: iterator_visible_def iter_at_def child_shown_def Let_def split: option.split)
next
  case False
  have "aliases_fit (t_language tree) (entry_tree e)" using assms(1) by (simp add: readable_def)
  from alias_of_read(1) [OF this assms(2) False] False show ?thesis
    by (auto simp: iterator_visible_def iter_at_def child_shown_def Let_def alias_sequence_at split: option.splits)
qed

lemma descendants_before_Suc:
  assumes "readable lang (entry_tree e)" and "i < ts_subtree_child_count (entry_tree e)"
  shows "descendants_before lang vis e (Suc i) =
    descendants_before lang vis e i + ts_subtree_visible_descendant_count (ts_subtree_children (entry_tree e) ! i) +
      of_bool (child_shown lang (entry_tree e) i)"
proof -
  let ?c = "ts_subtree_children (entry_tree e) ! i"
  have "summary_exact lang ?c" "aliases_fit lang ?c" using readable_child [OF assms] by (simp_all add: readable_def)
  then have "ts_subtree_visible_descendant_count ?c = of_nat (length (visible_paths lang ?c))"
    using cached_counts(3) counts_paths by fastforce
  then show ?thesis by (simp add: descendants_before_def visible_part_def)
qed

lemma next_iter_at:
  assumes "readable (t_language tree) (entry_tree e)" and "i < ts_subtree_child_count (entry_tree e)"
  shows "ts_tree_cursor_child_iterator_next (iter_at tree vis e i) =
    Some (Some (iter_at tree vis e (Suc i), child_entry (t_language tree) vis e i, child_shown (t_language tree) (entry_tree e) i))"
  using assms(2) iterator_visible_at [OF assms, of vis] descendants_before_Suc [OF assms, of vis] structural_index_Suc [OF assms(2)]
  by (simp add: ts_tree_cursor_child_iterator_next_def iter_at_def child_entry_def slot_child_def item_def Let_def
      ts_subtree_child_count_def)

lemma next_iter_end:
  "ts_subtree_child_count (entry_tree e) = i \<Longrightarrow> ts_tree_cursor_child_iterator_next (iter_at tree vis e i) = Some None"
  by (auto simp: ts_tree_cursor_child_iterator_next_def iter_at_def Let_def ts_subtree_child_count_def)

lemma item_stack_at:
  "i \<le> length p \<Longrightarrow> item (stack_at lang vis e p) i = Some (fst (entry_at_path lang vis e (take i p)))"
proof (induction p arbitrary: vis e i)
  case (Cons k p)
  then show ?case by (cases i) (simp_all add: item_def)
qed (simp add: item_def)

lemma valid_prefix: "subtree_at t (p @ q) = Some s \<Longrightarrow> \<exists>r. subtree_at t p = Some r \<and> subtree_at r q = Some s"
  by (simp add: subtree_at_append bind_eq_Some_conv)

lemma entry_visible_at:
  assumes "readable (t_language tree) (entry_tree e)" and "subtree_at (entry_tree e) p = Some t" and "i \<le> length p"
  shows "ts_tree_cursor_is_entry_visible (cursor_at tree e a p) i =
    Some (snd (entry_at_path (t_language tree) True e (take i p)))"
proof (cases i)
  case 0
  then show ?thesis by (simp add: ts_tree_cursor_is_entry_visible_def cursor_at_def item_stack_at)
next
  case (Suc j)
  let ?lang = "t_language tree"
  have p: "p = (take j p @ [p ! j]) @ drop (Suc j) p" "take (Suc j) p = take j p @ [p ! j]"
    using assms(3) Suc by (simp_all add: take_Suc_conv_app_nth id_take_nth_drop)
  obtain s where "subtree_at (entry_tree e) (take j p @ [p ! j]) = Some s"
    using assms(2) by (subst (asm) p(1)) (blast dest: valid_prefix)
  then obtain r where r: "subtree_at (entry_tree e) (take j p) = Some r" "p ! j < ts_subtree_child_count r"
    by (auto simp: subtree_at_append bind_eq_Some_conv item_def ts_subtree_child_count_def split: if_splits)
  obtain e' v where e': "entry_at_path ?lang True e (take j p) = (e', v)" by fastforce
  have t: "entry_tree e' = r" using entry_at_path_tree [OF r(1), of ?lang True] e' by simp
  have rd: "aliases_fit ?lang r" using readable_at [OF assms(1) r(1)] by (simp add: readable_def)
  have it: "item (stack_at ?lang True e p) i = Some (child_entry ?lang v e' (p ! j))" "item (stack_at ?lang True e p) (i - 1) = Some e'"
    using assms(3) Suc e' by (simp_all add: item_stack_at p(2) entry_at_path_append)
  show ?thesis
  proof (cases "ts_subtree_extra (ts_subtree_children r ! (p ! j))")
    case True
    then show ?thesis
      using it Suc p(2) e' t by (simp add: ts_tree_cursor_is_entry_visible_def cursor_at_def entry_at_path_append child_shown_def Let_def)
  next
    case False
    then show ?thesis
      using it Suc p(2) e' t alias_of_read(1) [OF rd r(2) False]
      by (simp add: ts_tree_cursor_is_entry_visible_def cursor_at_def entry_at_path_append child_shown_def Let_def child_entry_def)
  qed
qed

text \<open>The iterator over the children of the current node.\<close>

lemma iterate_children_at:
  assumes "readable (t_language tree) (entry_tree e)" and "subtree_at (entry_tree e) p = Some t"
    and "ts_subtree_child_count t \<noteq> 0" and "entry_at_path (t_language tree) True e p = (e', v)"
  shows "ts_tree_cursor_iterate_children (cursor_at tree e a p) = Some (iter_at tree v e' 0)"
  using entry_visible_at [OF assms(1,2) order_refl, of a] entry_at_path_tree [OF assms(2), of "t_language tree" True] assms(3,4)
  by (simp add: ts_tree_cursor_iterate_children_def cursor_at_def last_stack_at Let_def iter_at_def descendants_before_def
      of_bool_def)

section \<open>Going to children\<close>

text \<open>The entry of a child on a path, with what the search for it reports.\<close>

definition found_at :: "TSLanguage \<Rightarrow> bool \<Rightarrow> TreeCursorEntry \<Rightarrow> nat list \<Rightarrow> TreeCursorEntry \<times> TreeCursorStep" where
  "found_at lang vis e p =
     (child_entry lang vis e (hd p), if tl p = [] then TreeCursorStepVisible else TreeCursorStepHidden)"

lemma child_paths_from_nonempty: "[] \<notin> set (child_paths_from lang t i)"
  by (auto simp: child_paths_from_def child_part_def)

lemma child_paths_nonempty: "[] \<notin> set (child_paths lang t)"
  by (subst child_paths_from_0) (rule child_paths_from_nonempty)

lemma found_part:
  assumes "readable lang (entry_tree e)" and "i < ts_subtree_child_count (entry_tree e)"
  shows "child_part lang (entry_tree e) i = [] \<longleftrightarrow>
      \<not> child_shown lang (entry_tree e) i \<and> \<not> 0 < ts_subtree_visible_child_count (ts_subtree_children (entry_tree e) ! i)"
    and "q \<in> set (child_part lang (entry_tree e) i) \<Longrightarrow>
      found_at lang vis e q = (child_entry lang vis e i,
        if child_shown lang (entry_tree e) i then TreeCursorStepVisible else TreeCursorStepHidden)"
  using readable_hidden [OF readable_child [OF assms]] child_paths_nonempty [of lang "ts_subtree_children (entry_tree e) ! i"]
  by (auto simp: child_part_def found_at_def split: if_splits)

lemma first_child_loop_at:
  assumes "readable (t_language tree) (entry_tree e)" and "i \<le> ts_subtree_child_count (entry_tree e)"
  shows "first_child_loop (iter_at tree vis e i) =
    Some (case child_paths_from (t_language tree) (entry_tree e) i of [] \<Rightarrow> None | q # _ \<Rightarrow> Some (found_at (t_language tree) vis e q))"
  using assms(2)
proof (induction "ts_subtree_child_count (entry_tree e) - i" arbitrary: i)
  case 0
  then show ?case by (subst first_child_loop.simps) (simp add: next_iter_end)
next
  case (Suc n)
  then have i: "i < ts_subtree_child_count (entry_tree e)" by simp
  have IH: "first_child_loop (iter_at tree vis e (Suc i)) =
    Some (case child_paths_from (t_language tree) (entry_tree e) (Suc i) of [] \<Rightarrow> None
      | q # _ \<Rightarrow> Some (found_at (t_language tree) vis e q))"
    using Suc i by (intro Suc.hyps(1)) auto
  show ?case
    using found_part [OF assms(1) i] IH
    by (cases "child_part (t_language tree) (entry_tree e) i"; subst first_child_loop.simps)
      (auto simp: next_iter_at [OF assms(1) i] child_paths_from_step [OF i])
qed

lemma advance_loop_forward: "advance_loop Forward it = first_child_loop it"
proof (induction it rule: first_child_loop.induct)
  case (1 it)
  then show ?case
    by (subst first_child_loop.simps, subst advance_loop.simps)
      (auto simp: advance_by_def word_greater_zero_iff split: option.split)
qed

lemma last_child_loop_at:
  assumes "readable (t_language tree) (entry_tree e)" and "i \<le> ts_subtree_child_count (entry_tree e)"
  shows "last_child_loop (iter_at tree vis e i) found =
    Some (let qs = child_paths_from (t_language tree) (entry_tree e) i
          in if qs = [] then found else Some (found_at (t_language tree) vis e (last qs)))"
  using assms(2)
proof (induction "ts_subtree_child_count (entry_tree e) - i" arbitrary: i found)
  case 0
  then show ?case by (subst last_child_loop.simps) (simp add: next_iter_end)
next
  case (Suc n)
  then have i: "i < ts_subtree_child_count (entry_tree e)" by simp
  have IH: "last_child_loop (iter_at tree vis e (Suc i)) found =
    Some (let qs = child_paths_from (t_language tree) (entry_tree e) (Suc i)
          in if qs = [] then found else Some (found_at (t_language tree) vis e (last qs)))" for found
    using Suc i by (intro Suc.hyps(1)) auto
  show ?case
    using found_part [OF assms(1) i] IH
    by (subst last_child_loop.simps)
      (auto simp: next_iter_at [OF assms(1) i] child_paths_from_step [OF i] Let_def)
qed

lemma push_found_at:
  assumes "entry_at_path (t_language tree) True e p = (e', v)" and "q \<noteq> []"
  shows "push_step (cursor_at tree e a p) (Some (found_at (t_language tree) v e' q)) =
    (if tl q = [] then TreeCursorStepVisible else TreeCursorStepHidden, cursor_at tree e a (p @ [hd q]))"
  using assms by (simp add: push_step_def found_at_def cursor_at_def stack_at_snoc)

lemma first_child_internal_at:
  assumes "readable (t_language tree) (entry_tree e)" and "subtree_at (entry_tree e) p = Some t"
  shows "ts_tree_cursor_goto_first_child_internal (cursor_at tree e a p) =
    Some (case child_paths (t_language tree) t of
            [] \<Rightarrow> (TreeCursorStepNone, cursor_at tree e a p)
          | q # _ \<Rightarrow> (if tl q = [] then TreeCursorStepVisible else TreeCursorStepHidden, cursor_at tree e a (p @ [hd q])))"
proof (cases "ts_subtree_child_count t = 0")
  case True
  have "entry_tree (last (c_stack (cursor_at tree e a p))) = t"
    by (simp add: cursor_at_def last_stack_at entry_at_path_tree [OF assms(2)])
  with True show ?thesis
    by (simp add: ts_tree_cursor_goto_first_child_internal_def ts_tree_cursor_iterate_children_def child_paths_from_0 Let_def
        first_child_loop.simps ts_tree_cursor_child_iterator_next_def push_step_def cursor_at_def)
next
  case False
  obtain e' v where e': "entry_at_path (t_language tree) True e p = (e', v)" by fastforce
  have t: "entry_tree e' = t" using entry_at_path_tree [OF assms(2), of "t_language tree" True] e' by simp
  have r: "readable (t_language tree) (entry_tree e')" using readable_at [OF assms] t by simp
  show ?thesis
    using first_child_loop_at [OF r, of 0 v] push_found_at [OF e'] child_paths_nonempty [of "t_language tree" t]
    by (auto simp: ts_tree_cursor_goto_first_child_internal_def iterate_children_at [OF assms False e'] t
        child_paths_from_0 push_step_def split: list.split)
qed

text \<open>Splitting the visible children at one of them splits them at the child it comes from.\<close>

lemma concat_map_split:
  "concat (map f xs) = us @ v # ws \<Longrightarrow>
     \<exists>as x bs us' ws'. xs = as @ x # bs \<and> f x = us' @ v # ws' \<and> us = concat (map f as) @ us' \<and> ws = ws' @ concat (map f bs)"
proof (induction xs arbitrary: us)
  case (Cons x xs)
  show ?case
  proof (cases "length us < length (f x)")
    case True
    then obtain zs where zs: "f x = us @ zs" "zs @ concat (map f xs) = v # ws" "zs \<noteq> []"
      using Cons.prems by (auto simp: append_eq_append_conv2)
    then obtain zs' where "zs = v # zs'" by (cases zs) simp_all
    with zs show ?thesis by (intro exI [of _ "[]"] exI [of _ x] exI [of _ xs] exI [of _ us] exI [of _ zs']) simp
  next
    case False
    then obtain us' where us: "us = f x @ us'" "concat (map f xs) = us' @ v # ws"
      using Cons.prems by (auto simp: append_eq_append_conv2 Cons_eq_append_conv)
    then obtain as y bs us'' ws' where "xs = as @ y # bs" "f y = us'' @ v # ws'"
      "us' = concat (map f as) @ us''" "ws = ws' @ concat (map f bs)" using Cons.IH by blast
    with us(1) show ?thesis
      by (intro exI [of _ "x # as"] exI [of _ y] exI [of _ bs] exI [of _ us''] exI [of _ ws']) simp
  qed
qed simp

lemma child_paths_split:
  assumes "child_paths_from lang t i = qs @ q # rs"
  obtains k xs ys where "i \<le> k" "k < ts_subtree_child_count t" "child_part lang t k = xs @ q # ys"
    "qs = concat (map (child_part lang t) [i..<k]) @ xs" "rs = ys @ child_paths_from lang t (Suc k)"
proof -
  obtain as k bs xs ys where *: "[i..<ts_subtree_child_count t] = as @ k # bs" "child_part lang t k = xs @ q # ys"
    "qs = concat (map (child_part lang t) as) @ xs" "rs = ys @ concat (map (child_part lang t) bs)"
    using concat_map_split [OF assms [unfolded child_paths_from_def]] by blast
  have "k \<in> set [i..<ts_subtree_child_count t]" by (simp only: *(1)) simp
  then have k: "i \<le> k" "k < ts_subtree_child_count t" by simp_all
  have "length as < length [i..<ts_subtree_child_count t]" by (simp only: *(1)) simp
  moreover have "[i..<ts_subtree_child_count t] ! length as = k" by (simp only: *(1)) simp
  ultimately have "i + length as = k" by simp
  moreover have "as = take (length as) [i..<ts_subtree_child_count t]" "bs = drop (Suc (length as)) [i..<ts_subtree_child_count t]"
    by (simp_all only: *(1)) simp_all
  ultimately have "as = [i..<k]" "bs = [Suc k..<ts_subtree_child_count t]" using k by auto
  with *(2-4) show thesis by (intro that [OF k, of xs ys]) (simp_all add: child_paths_from_def)
qed

lemma child_paths_hd:
  assumes "child_paths lang t = q # qs" and "tl q \<noteq> []"
  shows "hd q < ts_subtree_child_count t \<and>
    (\<exists>rs. child_paths lang (ts_subtree_children t ! hd q) = tl q # rs)"
proof -
  have "child_paths_from lang t 0 = [] @ q # qs" using assms(1) child_paths_from_0 by simp
  then obtain k ys where "k < ts_subtree_child_count t" "child_part lang t k = q # ys"
    by (rule child_paths_split) simp
  with assms(2) show ?thesis by (auto simp: child_part_def split: if_splits)
qed

text \<open>From a node the cursor goes to its first visible child.\<close>

lemma goto_first_child_at:
  assumes "readable (t_language tree) (entry_tree e)" and "subtree_at (entry_tree e) p = Some t"
  shows "ts_tree_cursor_goto_first_child (cursor_at tree e a p) =
    Some (case child_paths (t_language tree) t of
            [] \<Rightarrow> (False, cursor_at tree e a p) | q # _ \<Rightarrow> (True, cursor_at tree e a (p @ q)))"
  using assms(2)
proof (induction t arbitrary: p rule: measure_induct_rule [where f = size])
  case (less t)
  note step = first_child_internal_at [OF assms(1) less.prems, of a]
  show ?case
  proof (cases "child_paths (t_language tree) t")
    case Nil
    with step show ?thesis by (subst ts_tree_cursor_goto_first_child.simps) simp
  next
    case (Cons q qs)
    then have "q \<noteq> []" using child_paths_nonempty [of "t_language tree" t] by auto
    show ?thesis
    proof (cases "tl q = []")
      case True
      with \<open>q \<noteq> []\<close> have "q = [hd q]" by (cases q) simp_all
      with step True Cons show ?thesis by (subst ts_tree_cursor_goto_first_child.simps) simp
    next
      case False
      obtain rs where k: "hd q < ts_subtree_child_count t"
        and rs: "child_paths (t_language tree) (ts_subtree_children t ! hd q) = tl q # rs"
        using child_paths_hd [OF Cons False] by blast
      have "subtree_at (entry_tree e) (p @ [hd q]) = Some (ts_subtree_children t ! hd q)"
        using less.prems k by (simp add: subtree_at_append item_def ts_subtree_child_count_def)
      from less.IH [OF nth_child_smaller [OF k] this] rs step False Cons \<open>q \<noteq> []\<close> show ?thesis
        by (subst ts_tree_cursor_goto_first_child.simps) simp
    qed
  qed
qed

end
