(* ===== verification/Cursor_Walk.thy ===== *)
theory Cursor_Walk
  imports Cursor_Paths
begin

text \<open>
  The moves of a cursor as moves between paths: to the first and the last visible child, to the next visible sibling, to
  the parent and to a descendant by its number.
\<close>

section \<open>Siblings\<close>

text \<open>The way from a node to one of its visible children: the nodes between are hidden.\<close>

fun way :: "TSLanguage \<Rightarrow> Subtree \<Rightarrow> nat list \<Rightarrow> bool" where
  "way lang t [] = False"
| "way lang t (k # q) =
     (k < ts_subtree_child_count t \<and>
      (if q = [] then child_shown lang t k else \<not> child_shown lang t k \<and> way lang (ts_subtree_children t ! k) q))"

text \<open>The visible children of a node after one of them, and after a hidden node between.\<close>

fun after :: "TSLanguage \<Rightarrow> Subtree \<Rightarrow> nat list \<Rightarrow> nat list list" where
  "after lang t [] = []"
| "after lang t (k # q) = map ((#) k) (after lang (ts_subtree_children t ! k) q) @ child_paths_from lang t (Suc k)"

lemma after_snoc:
  "subtree_at t q = Some s \<Longrightarrow> after lang t (q @ [k]) = map ((@) q) (child_paths_from lang s (Suc k)) @ after lang t q"
  by (induction q arbitrary: t) (auto simp: item_def bind_eq_Some_conv comp_def map_idI split: if_splits)

lemma child_paths_after:
  "child_paths lang t = qs @ q # rs \<Longrightarrow> way lang t q \<and> after lang t q = rs"
proof (induction q arbitrary: t qs rs)
  case Nil
  then show ?case using child_paths_nonempty [of lang t] by auto
next
  case (Cons k q)
  from Cons.prems obtain xs ys where k: "k < ts_subtree_child_count t" "child_part lang t k = xs @ (k # q) # ys"
    "rs = ys @ child_paths_from lang t (Suc k)"
  proof -
    have "child_paths_from lang t 0 = qs @ (k # q) # rs" using Cons.prems child_paths_from_0 by simp
    then show thesis
    proof (rule child_paths_split)
      fix k' xs ys
      assume "k' < ts_subtree_child_count t" "child_part lang t k' = xs @ (k # q) # ys"
        "rs = ys @ child_paths_from lang t (Suc k')"
      moreover from this(2) have "k # q \<in> set (child_part lang t k')" by simp
      then have "k' = k" by (auto simp: child_part_def split: if_splits)
      ultimately show thesis using that by blast
    qed
  qed
  show ?case
  proof (cases "child_shown lang t k")
    case True
    with k have "q = []" "ys = []" by (auto simp: child_part_def Cons_eq_append_conv)
    with True k show ?thesis by simp
  next
    case False
    with k(2) obtain us vs where "child_paths lang (ts_subtree_children t ! k) = us @ q # vs" "ys = map ((#) k) vs"
      by (auto simp: child_part_def map_eq_append_conv)
    with Cons.IH [OF this(1)] False k show ?thesis by auto
  qed
qed

lemma way_valid: "way lang t q \<Longrightarrow> \<exists>s. subtree_at t q = Some s"
  by (induction q arbitrary: t) (auto simp: item_def ts_subtree_child_count_def split: if_splits)

lemma way_hidden:
  "way lang (entry_tree e) (q @ q') \<Longrightarrow> q \<noteq> [] \<Longrightarrow> snd (entry_at_path lang v e q) \<longleftrightarrow> q' = []"
proof (induction q arbitrary: v e)
  case (Cons k q)
  then show ?case by (cases "q = []") (auto split: if_splits)
qed simp

text \<open>Passing the current node: the iterator is set to its entry.\<close>

lemma sibling_loop_step:
  assumes "readable (t_language tree) (entry_tree e)" and "subtree_at (entry_tree e) (p @ [j]) = Some s"
    and "subtree_at (entry_tree e) p = Some t" and "entry_at_path (t_language tree) True e p = (e', v)"
  shows "sibling_loop Forward n (cursor_at tree e a (p @ [j])) =
    (if child_shown (t_language tree) t j \<and> length p + 2 < n then Some None
     else case child_paths_from (t_language tree) t (Suc j) of
            [] \<Rightarrow> sibling_loop Forward n (cursor_at tree e a p)
          | q # _ \<Rightarrow> Some (Some (if tl q = [] then TreeCursorStepVisible else TreeCursorStepHidden, cursor_at tree e a (p @ [hd q]))))"
proof -
  let ?lang = "t_language tree"
  have j: "j < ts_subtree_child_count t"
    using assms(2,3) by (simp add: subtree_at_append item_def ts_subtree_child_count_def split: if_splits)
  have t: "entry_tree e' = t" using entry_at_path_tree [OF assms(3), of ?lang True] assms(4) by simp
  have r: "readable ?lang (entry_tree e')" using readable_at [OF assms(1,3)] t by simp
  have pop: "(cursor_at tree e a (p @ [j]))\<lparr>c_stack := butlast (c_stack (cursor_at tree e a (p @ [j])))\<rparr> = cursor_at tree e a p"
    "last (c_stack (cursor_at tree e a (p @ [j]))) = child_entry ?lang v e' j"
    "length (c_stack (cursor_at tree e a p)) = Suc (length p)" "length (c_stack (cursor_at tree e a (p @ [j]))) = Suc (Suc (length p))"
    using assms(4) by (simp_all add: cursor_at_def stack_at_snoc)
  have it: "ts_tree_cursor_iterate_children (cursor_at tree e a p) = Some (iter_at tree v e' 0)"
    using iterate_children_at [OF assms(1,3) _ assms(4)] j by simp
  have set: "(iter_at tree v e' 0)\<lparr>it_child_index := e_child_index (child_entry ?lang v e' j),
      it_structural_child_index := e_structural_child_index (child_entry ?lang v e' j),
      it_position := e_position (child_entry ?lang v e' j), it_descendant_index := e_descendant_index (child_entry ?lang v e' j)\<rparr>
    = iter_at tree v e' j"
    by (simp add: iter_at_def child_entry_def)
  have nxt: "advance_by Forward (iter_at tree v e' j) =
      Some (Some (iter_at tree v e' (Suc j), child_entry ?lang v e' j, child_shown ?lang t j))"
    using next_iter_at [OF r] j t by (simp add: advance_by_def)
  have loop: "advance_loop Forward (iter_at tree v e' (Suc j)) =
      Some (case child_paths_from ?lang t (Suc j) of [] \<Rightarrow> None | q # _ \<Rightarrow> Some (found_at ?lang v e' q))"
    using first_child_loop_at [OF r, of "Suc j" v] j t by (simp add: advance_loop_forward)
  have ne: "q \<noteq> []" if "child_paths_from ?lang t (Suc j) = q # qs" for q qs
    using child_paths_from_nonempty [of ?lang t "Suc j"] that by auto
  show ?thesis
    by (subst sibling_loop.simps)
      (simp add: pop it set nxt loop push_found_at [OF assms(4) ne] Let_def split: list.split)
qed

lemma sibling_loop_stop:
  assumes rd: "readable (t_language tree) (entry_tree e)" and r: "subtree_at (entry_tree e) r = Some t"
    and vis: "snd (entry_at_path (t_language tree) True e r)" and n: "Suc (length r) < n"
  shows "sibling_loop Forward n (cursor_at tree e a r) = Some None"
proof (cases r rule: rev_cases)
  case Nil
  then show ?thesis by (subst sibling_loop.simps) (simp add: cursor_at_def)
next
  case (snoc p j)
  with r obtain s where s: "subtree_at (entry_tree e) p = Some s" "subtree_at (entry_tree e) (p @ [j]) = Some t"
    by (auto simp: subtree_at_append bind_eq_Some_conv)
  obtain e' v where e': "entry_at_path (t_language tree) True e p = (e', v)" by fastforce
  have "entry_tree e' = s" using entry_at_path_tree [OF s(1), of "t_language tree" True] e' by simp
  then have "child_shown (t_language tree) s j" using vis e' snoc by (simp add: entry_at_path_append)
  with sibling_loop_step [OF rd s(2,1) e', of n a] n snoc show ?thesis by simp
qed

text \<open>
  The loop has found a node from which the path goes on to the first visible child below it, if the node is hidden.
\<close>

definition lands ::
  "TSTree \<Rightarrow> TreeCursorEntry \<Rightarrow> TSSymbol \<Rightarrow> nat list \<Rightarrow> Subtree \<Rightarrow> nat list \<Rightarrow> (TreeCursorStep \<times> TreeCursor) option option \<Rightarrow> bool" where
  "lands tree e a r t p result \<longleftrightarrow>
     (\<exists>u k w s. p = u @ k # w \<and> subtree_at t (u @ [k]) = Some s \<and>
        (w \<noteq> [] \<longrightarrow> (\<exists>ws. child_paths (t_language tree) s = w # ws)) \<and>
        result = Some (Some (if w = [] then TreeCursorStepVisible else TreeCursorStepHidden, cursor_at tree e a (r @ u @ [k]))))"

text \<open>
  The loop ascends through hidden nodes until it finds a sibling of one of them, and stops at the visible ancestor \<open>r\<close>.
\<close>

lemma sibling_loop_at:
  assumes rd: "readable (t_language tree) (entry_tree e)" and r: "subtree_at (entry_tree e) r = Some t"
    and vis: "snd (entry_at_path (t_language tree) True e r)"
  shows "subtree_at t q = Some s \<Longrightarrow> q \<noteq> [] \<Longrightarrow>
    (\<And>q1 q2. q = q1 @ q2 \<Longrightarrow> q1 \<noteq> [] \<Longrightarrow> q2 \<noteq> [] \<Longrightarrow> \<not> snd (entry_at_path (t_language tree) True e (r @ q1))) \<Longrightarrow>
    length r + length q < n \<Longrightarrow> (snd (entry_at_path (t_language tree) True e (r @ q)) \<Longrightarrow> n = Suc (length r + length q)) \<Longrightarrow>
    (case after (t_language tree) t q of
       [] \<Rightarrow> sibling_loop Forward n (cursor_at tree e a (r @ q)) = Some None
     | p # _ \<Rightarrow> lands tree e a r t p (sibling_loop Forward n (cursor_at tree e a (r @ q))))"
proof (induction q arbitrary: s rule: rev_induct)
  case (snoc j q)
  let ?lang = "t_language tree"
  obtain s' where s': "subtree_at t q = Some s'" "j < ts_subtree_child_count s'"
    using snoc.prems(1) by (auto simp: subtree_at_append bind_eq_Some_conv item_def ts_subtree_child_count_def split: if_splits)
  have at: "subtree_at (entry_tree e) (r @ q) = Some s'" "subtree_at (entry_tree e) ((r @ q) @ [j]) = Some s"
    using r s' snoc.prems(1) by (simp_all add: subtree_at_append)
  obtain e' v where e': "entry_at_path ?lang True e (r @ q) = (e', v)" by fastforce
  have t': "entry_tree e' = s'" using entry_at_path_tree [OF at(1), of ?lang True] e' by simp
  have "snd (entry_at_path ?lang True e (r @ q @ [j])) = child_shown ?lang s' j"
    using e' t' by (simp add: entry_at_path_append Let_def split: prod.splits)
  then have pass: "\<not> (child_shown ?lang s' j \<and> length (r @ q) + 2 < n)" using snoc.prems(5) by auto
  note step = sibling_loop_step [OF rd at(2) at(1) e', of n a]
  show ?case
  proof (cases "child_paths_from ?lang s' (Suc j)")
    case Nil
    then have "sibling_loop Forward n (cursor_at tree e a (r @ q @ [j])) = sibling_loop Forward n (cursor_at tree e a (r @ q))"
      "after ?lang t (q @ [j]) = after ?lang t q"
      using step pass by (auto simp: after_snoc [OF s'(1)])
    moreover have "sibling_loop Forward n (cursor_at tree e a r) = Some None"
      using sibling_loop_stop [OF rd r vis] snoc.prems(4) by simp
    moreover have "\<not> snd (entry_at_path ?lang True e (r @ q))" if "q \<noteq> []" using snoc.prems(3) [of q "[j]"] that by simp
    ultimately show ?thesis
      using snoc.IH [OF s'(1)] snoc.prems(3,4) by (cases "q = []") (auto split: list.splits)
  next
    case (Cons p ps)
    have "child_paths_from ?lang s' (Suc j) = [] @ p # ps" using Cons by simp
    then obtain k ys where k: "k < ts_subtree_child_count s'" "child_part ?lang s' k = p # ys" by (rule child_paths_split) simp
    then have p: "p = k # tl p" "tl p \<noteq> [] \<longrightarrow> (\<exists>ws. child_paths ?lang (ts_subtree_children s' ! k) = tl p # ws)"
      by (auto simp: child_part_def split: if_splits)
    have "sibling_loop Forward n (cursor_at tree e a (r @ q @ [j])) =
        Some (Some (if tl p = [] then TreeCursorStepVisible else TreeCursorStepHidden, cursor_at tree e a (r @ q @ [k])))"
      using step pass Cons p(1) by (cases p) auto
    moreover have "subtree_at t (q @ [k]) = Some (ts_subtree_children s' ! k)"
      using s'(1) k(1) by (simp add: subtree_at_append item_def ts_subtree_child_count_def)
    moreover have "after ?lang t (q @ [j]) = (q @ k # tl p) # map ((@) q) ps @ after ?lang t q"
      using Cons p(1) by (simp add: after_snoc [OF s'(1)])
    moreover have "lands tree e a r t (q @ k # tl p) (sibling_loop Forward n (cursor_at tree e a (r @ q @ [j])))"
      unfolding lands_def using p(2) calculation(1,2)
      by (intro exI [of _ q] exI [of _ k] exI [of _ "tl p"] exI [of _ "ts_subtree_children s' ! k"]) simp
    ultimately show ?thesis by simp
  qed
qed simp

lemma goto_next_sibling_at:
  assumes rd: "readable (t_language tree) (entry_tree e)" and r: "subtree_at (entry_tree e) r = Some t"
    and vis: "snd (entry_at_path (t_language tree) True e r)" and q: "child_paths (t_language tree) t = qs @ q # rs"
  shows "ts_tree_cursor_goto_next_sibling (cursor_at tree e a (r @ q)) =
    Some (case rs of [] \<Rightarrow> (False, cursor_at tree e a (r @ q)) | p # _ \<Rightarrow> (True, cursor_at tree e a (r @ p)))"
proof -
  let ?lang = "t_language tree" and ?c = "cursor_at tree e a (r @ q)"
  have w: "way ?lang t q" "after ?lang t q = rs" using child_paths_after [OF q] by simp_all
  obtain s where s: "subtree_at t q = Some s" "q \<noteq> []" using way_valid [OF w(1)] w(1) by (cases q) auto
  obtain e' v where e': "entry_at_path ?lang True e r = (e', v)" by fastforce
  have t: "entry_tree e' = t" using entry_at_path_tree [OF r, of ?lang True] e' by simp
  have hidden: "snd (entry_at_path ?lang True e (r @ q1)) \<longleftrightarrow> q2 = []" if "q = q1 @ q2" "q1 \<noteq> []" for q1 q2
    using way_hidden [of ?lang e' q1 q2 v] w(1) that e' t by (simp add: entry_at_path_append)
  have len: "length (c_stack ?c) = Suc (length r + length q)" by (simp add: cursor_at_def)
  note loop = sibling_loop_at [OF rd r vis s, where n = "length (c_stack ?c)" and a = a, unfolded w(2) len]
  show ?thesis
  proof (cases rs)
    case Nil
    with loop hidden show ?thesis
      by (auto simp: ts_tree_cursor_goto_next_sibling_def ts_tree_cursor_goto_next_sibling_internal_def
          ts_tree_cursor_goto_sibling_internal_def len)
  next
    case (Cons p ps)
    with loop hidden have "lands tree e a r t p (sibling_loop Forward (Suc (length r + length q)) ?c)" by simp
    then obtain u k w s' ws where p: "p = u @ k # w"
      and l: "sibling_loop Forward (Suc (length r + length q)) ?c =
        Some (Some (if w = [] then TreeCursorStepVisible else TreeCursorStepHidden, cursor_at tree e a (r @ u @ [k])))"
      and s': "subtree_at t (u @ [k]) = Some s'" "w \<noteq> [] \<longrightarrow> child_paths ?lang s' = w # ws"
      unfolding lands_def by metis
    have "subtree_at (entry_tree e) (r @ u @ [k]) = Some s'" using r s'(1) by (simp add: subtree_at_append)
    note goto_first_child_at [OF rd this, of a]
    with s'(2) l Cons p show ?thesis
      by (auto simp: ts_tree_cursor_goto_next_sibling_def ts_tree_cursor_goto_next_sibling_internal_def
          ts_tree_cursor_goto_sibling_internal_def len)
  qed
qed

section \<open>Parents\<close>

lemma parent_loop_at:
  assumes rd: "readable (t_language tree) (entry_tree e)" and r: "subtree_at (entry_tree e) (r @ q) = Some s"
    and vis: "snd (entry_at_path (t_language tree) True e r)"
    and hidden: "\<And>i. 0 < i \<Longrightarrow> i < length q \<Longrightarrow> \<not> snd (entry_at_path (t_language tree) True e (r @ take i q))"
  shows "i < length q \<Longrightarrow> parent_loop (cursor_at tree e a (r @ q)) (Suc (length r + i)) = Some (Some (length r))"
proof (induction i)
  case 0
  then show ?case using entry_visible_at [OF rd r, of "length r" a] vis by simp
next
  case (Suc i)
  then show ?case
    using entry_visible_at [OF rd r, of "length r + Suc i" a] hidden [of "Suc i"] by simp
qed

lemma take_stack_at: "take (Suc (length r)) (stack_at lang vis e (r @ q)) = stack_at lang vis e r"
  by (induction r arbitrary: vis e) (cases q; simp)+

lemma goto_parent_at:
  assumes rd: "readable (t_language tree) (entry_tree e)" and r: "subtree_at (entry_tree e) r = Some t"
    and vis: "snd (entry_at_path (t_language tree) True e r)" and q: "q \<in> set (child_paths (t_language tree) t)"
  shows "ts_tree_cursor_goto_parent (cursor_at tree e a (r @ q)) = Some (True, cursor_at tree e a r)"
proof -
  let ?lang = "t_language tree"
  obtain qs rs where "child_paths ?lang t = qs @ q # rs" using q by (auto simp: in_set_conv_decomp)
  then have w: "way ?lang t q" using child_paths_after by blast
  obtain s where s: "subtree_at (entry_tree e) (r @ q) = Some s" "q \<noteq> []"
    using way_valid [OF w] w r by (cases q) (auto simp: subtree_at_append)
  obtain e' v where e': "entry_at_path ?lang True e r = (e', v)" by fastforce
  have t: "entry_tree e' = t" using entry_at_path_tree [OF r, of ?lang True] e' by simp
  have "\<not> snd (entry_at_path ?lang True e (r @ take i q))" if "0 < i" "i < length q" for i
    using way_hidden [of ?lang e' "take i q" "drop i q" v] w that e' t by (cases q) (auto simp: entry_at_path_append)
  from parent_loop_at [OF rd s(1) vis this, of "length q - 1" a] s(2)
  have "parent_loop (cursor_at tree e a (r @ q)) (length r + length q) = Some (Some (length r))"
    by (cases q) (simp_all del: parent_loop.simps)
  then show ?thesis by (simp add: ts_tree_cursor_goto_parent_def cursor_at_def take_stack_at)
qed

section \<open>The last child\<close>

lemma last_child_internal_at:
  assumes "readable (t_language tree) (entry_tree e)" and "subtree_at (entry_tree e) p = Some t"
  shows "ts_tree_cursor_goto_last_child_internal (cursor_at tree e a p) =
    Some (let qs = child_paths (t_language tree) t
          in if qs = [] then (TreeCursorStepNone, cursor_at tree e a p)
             else (if tl (last qs) = [] then TreeCursorStepVisible else TreeCursorStepHidden,
                   cursor_at tree e a (p @ [hd (last qs)])))"
proof (cases "ts_subtree_child_count t = 0")
  case True
  have "entry_tree (last (c_stack (cursor_at tree e a p))) = t"
    by (simp add: cursor_at_def last_stack_at entry_at_path_tree [OF assms(2)])
  with True show ?thesis
    by (simp add: ts_tree_cursor_goto_last_child_internal_def ts_tree_cursor_iterate_children_def child_paths_from_0 Let_def
        last_child_loop.simps ts_tree_cursor_child_iterator_next_def push_step_def cursor_at_def)
next
  case False
  obtain e' v where e': "entry_at_path (t_language tree) True e p = (e', v)" by fastforce
  have t: "entry_tree e' = t" using entry_at_path_tree [OF assms(2), of "t_language tree" True] e' by simp
  have r: "readable (t_language tree) (entry_tree e')" using readable_at [OF assms] t by simp
  have "last (child_paths (t_language tree) t) \<noteq> []" if "child_paths (t_language tree) t \<noteq> []"
    using child_paths_nonempty [of "t_language tree" t] last_in_set [OF that] by metis
  then show ?thesis
    using last_child_loop_at [OF r, of 0 v None] push_found_at [OF e']
    by (simp add: ts_tree_cursor_goto_last_child_internal_def iterate_children_at [OF assms False e'] t
        child_paths_from_0 push_step_def Let_def)
qed

lemma child_paths_last:
  assumes "child_paths lang t \<noteq> []" and "q = last (child_paths lang t)" and "tl q \<noteq> []"
  shows "hd q < ts_subtree_child_count t \<and> child_paths lang (ts_subtree_children t ! hd q) \<noteq> [] \<and>
    last (child_paths lang (ts_subtree_children t ! hd q)) = tl q"
proof -
  have "child_paths_from lang t 0 = butlast (child_paths lang t) @ q # []"
    using assms(1,2) child_paths_from_0 by (simp add: butlast_snoc_last)
  then obtain k xs where "k < ts_subtree_child_count t" "child_part lang t k = xs @ [q]"
    by (rule child_paths_split) simp
  with assms(3) show ?thesis by (auto simp: child_part_def map_eq_append_conv split: if_splits)
qed

lemma goto_last_child_at:
  assumes "readable (t_language tree) (entry_tree e)" and "subtree_at (entry_tree e) p = Some t"
  shows "ts_tree_cursor_goto_last_child (cursor_at tree e a p) =
    Some (let qs = child_paths (t_language tree) t
          in if qs = [] then (False, cursor_at tree e a p) else (True, cursor_at tree e a (p @ last qs)))"
  using assms(2)
proof (induction t arbitrary: p rule: measure_induct_rule [where f = size])
  case (less t)
  note step = last_child_internal_at [OF assms(1) less.prems, of a]
  show ?case
  proof (cases "child_paths (t_language tree) t = []")
    case True
    with step show ?thesis by (subst ts_tree_cursor_goto_last_child.simps) simp
  next
    case False
    define q where "q = last (child_paths (t_language tree) t)"
    then have "q \<noteq> []" using child_paths_nonempty [of "t_language tree" t] last_in_set [OF False] by metis
    then obtain k w where kw: "q = k # w" by (cases q) simp_all
    show ?thesis
    proof (cases "w = []")
      case True
      with step kw False show ?thesis
        by (subst ts_tree_cursor_goto_last_child.simps) (simp add: q_def [symmetric] Let_def)
    next
      case w: False
      with child_paths_last [OF False q_def] kw have k: "k < ts_subtree_child_count t"
        "child_paths (t_language tree) (ts_subtree_children t ! k) \<noteq> []"
        "last (child_paths (t_language tree) (ts_subtree_children t ! k)) = w" by simp_all
      have "subtree_at (entry_tree e) (p @ [k]) = Some (ts_subtree_children t ! k)"
        using less.prems k by (simp add: subtree_at_append item_def ts_subtree_child_count_def)
      from less.IH [OF nth_child_smaller [OF k(1)] this] k(2,3) step kw w False show ?thesis
        by (subst ts_tree_cursor_goto_last_child.simps) (simp add: q_def [symmetric] Let_def)
    qed
  qed
qed

end
