(* ===== verification/Cursor_Descendants.thy ===== *)
theory Cursor_Descendants
  imports Cursor_Paths
begin

text \<open>
  Descendants by their number: the visible nodes below a node are numbered in preorder, the node itself first if it is
  shown, and the cursor goes to a number from any node.
\<close>

section \<open>Numbers\<close>

text \<open>The visible nodes of a subtree, itself first.\<close>

definition visible_span :: "TSLanguage \<Rightarrow> bool \<Rightarrow> Subtree \<Rightarrow> nat list list" where
  "visible_span lang vis t = (if vis then [[]] else []) @ visible_paths lang t"

fun number :: "TSLanguage \<Rightarrow> bool \<Rightarrow> Subtree \<Rightarrow> nat list \<Rightarrow> nat" where
  "number lang vis t [] = 0"
| "number lang vis t (k # p) =
     of_bool vis + length (visible_before lang t k) + number lang (child_shown lang t k) (ts_subtree_children t ! k) p"

lemma visible_part_span:
  "visible_part lang t k = map ((#) k) (visible_span lang (child_shown lang t k) (ts_subtree_children t ! k))"
  by (simp add: visible_part_def visible_span_def)

lemma visible_before_split:
  "k < ts_subtree_child_count t \<Longrightarrow>
     \<exists>zs. visible_paths lang t = visible_before lang t k @ visible_part lang t k @ zs"
proof -
  assume "k < ts_subtree_child_count t"
  then have "[0..<ts_subtree_child_count t] = [0..<k] @ k # [Suc k..<ts_subtree_child_count t]"
    by (metis le0 less_imp_add_positive less_imp_le upt_add_eq_append upt_conv_Cons)
  then show ?thesis by (simp add: visible_paths_before visible_before_def)
qed

lemma span_child:
  assumes "k < ts_subtree_child_count t" and "g < length (visible_part lang t k)"
  shows "of_bool vis + length (visible_before lang t k) + g < length (visible_span lang vis t)"
    "visible_span lang vis t ! (of_bool vis + length (visible_before lang t k) + g) = visible_part lang t k ! g"
  using visible_before_split [OF assms(1), of lang] assms(2) by (auto simp: visible_span_def nth_append)

lemma span_at:
  assumes "subtree_at t p = Some s" and "g < length (visible_span lang (snd (entry_at_path lang vis e p)) s)" and "entry_tree e = t"
  shows "number lang vis t p + g < length (visible_span lang vis t) \<and>
    visible_span lang vis t ! (number lang vis t p + g) = p @ visible_span lang (snd (entry_at_path lang vis e p)) s ! g"
  using assms
proof (induction p arbitrary: t vis e)
  case (Cons k p)
  then have k: "k < ts_subtree_child_count t" "subtree_at (ts_subtree_children t ! k) p = Some s"
    by (auto simp: item_def bind_eq_Some_conv ts_subtree_child_count_def split: if_splits)
  let ?n = "number lang (child_shown lang t k) (ts_subtree_children t ! k) p"
  have IH: "?n + g < length (visible_span lang (child_shown lang t k) (ts_subtree_children t ! k))"
    "visible_span lang (child_shown lang t k) (ts_subtree_children t ! k) ! (?n + g) =
       p @ visible_span lang (snd (entry_at_path lang vis e (k # p))) s ! g"
    using Cons.IH [OF k(2), of "child_shown lang t k" "child_entry lang vis e k"] Cons.prems by simp_all
  have "?n + g < length (visible_part lang t k)" using IH(1) by (simp add: visible_part_span)
  from span_child [OF k(1) this, of vis] IH show ?case by (simp add: visible_part_span add.assoc)
qed simp

lemma number_le:
  assumes "subtree_at t p = Some s" and "entry_tree e = t"
  shows "number lang vis t p + length (visible_span lang (snd (entry_at_path lang vis e p)) s) \<le> length (visible_span lang vis t)"
  using assms
proof (induction p arbitrary: t vis e)
  case (Cons k p)
  then have k: "k < ts_subtree_child_count t" "subtree_at (ts_subtree_children t ! k) p = Some s"
    by (auto simp: item_def bind_eq_Some_conv ts_subtree_child_count_def split: if_splits)
  have "of_bool vis + length (visible_before lang t k) + length (visible_part lang t k) \<le> length (visible_span lang vis t)"
    using visible_before_split [OF k(1), of lang] by (auto simp: visible_span_def)
  then show ?case
    using Cons.IH [OF k(2), of "child_entry lang vis e k" "child_shown lang t k"] Cons.prems by (simp add: visible_part_span)
qed simp

text \<open>The number of an entry.\<close>

lemma descendant_index_at:
  "entry_tree e = t \<Longrightarrow>
     e_descendant_index (fst (entry_at_path lang vis e p)) = e_descendant_index e + of_nat (number lang vis t p)"
proof (induction p arbitrary: t vis e)
  case (Cons k p)
  from Cons.IH [of "child_entry lang vis e k"] Cons.prems show ?case
    by (simp add: child_entry_def descendants_before_def)
qed simp

section \<open>Descending\<close>

lemma unat_descendants_before:
  assumes "unat (e_descendant_index e) + of_bool vis + length (visible_paths lang (entry_tree e)) < 2 ^ 32"
    and "i \<le> ts_subtree_child_count (entry_tree e)"
  shows "unat (descendants_before lang vis e i) =
    unat (e_descendant_index e) + of_bool vis + length (visible_before lang (entry_tree e) i)"
proof -
  have "length (visible_before lang (entry_tree e) i) \<le> length (visible_paths lang (entry_tree e))"
    using visible_before_split [of i "entry_tree e" lang] assms(2)
    by (cases "i = ts_subtree_child_count (entry_tree e)") (auto simp: visible_paths_before)
  with assms(1) show ?thesis
    by (cases vis) (auto simp: descendants_before_def unat_add_u32)
qed

lemma containing_loop_at:
  assumes rd: "readable (t_language tree) (entry_tree e)"
    and small: "unat (e_descendant_index e) + of_bool vis + length (visible_paths (t_language tree) (entry_tree e)) < 2 ^ 32"
    and goal: "unat goal = unat (e_descendant_index e) + of_bool vis + m"
    and m: "m < length (visible_paths (t_language tree) (entry_tree e))"
  shows "i \<le> ts_subtree_child_count (entry_tree e) \<Longrightarrow> length (visible_before (t_language tree) (entry_tree e) i) \<le> m \<Longrightarrow>
    \<exists>k < ts_subtree_child_count (entry_tree e).
      containing_loop goal (iter_at tree vis e i) =
        Some (Some (child_entry (t_language tree) vis e k, child_shown (t_language tree) (entry_tree e) k)) \<and>
      length (visible_before (t_language tree) (entry_tree e) k) \<le> m \<and>
      m < length (visible_before (t_language tree) (entry_tree e) (Suc k))"
proof (induction "ts_subtree_child_count (entry_tree e) - i" arbitrary: i)
  case 0
  then show ?case using m by (simp add: visible_paths_before)
next
  case (Suc n)
  let ?lang = "t_language tree"
  have i: "i < ts_subtree_child_count (entry_tree e)" using Suc by simp
  have past: "goal < it_descendant_index (iter_at tree vis e (Suc i)) \<longleftrightarrow> m < length (visible_before ?lang (entry_tree e) (Suc i))"
    using unat_descendants_before [OF small, of "Suc i"] i goal by (simp add: iter_at_def word_less_nat_alt)
  show ?case
  proof (cases "m < length (visible_before ?lang (entry_tree e) (Suc i))")
    case True
    then show ?thesis
      using past i Suc.prems(2) by (subst containing_loop.simps) (auto simp: next_iter_at [OF rd i] intro!: exI [of _ i])
  next
    case False
    then have "containing_loop goal (iter_at tree vis e i) = containing_loop goal (iter_at tree vis e (Suc i))"
      using past by (subst containing_loop.simps) (simp add: next_iter_at [OF rd i])
    with Suc.hyps(1) [of "Suc i"] Suc.hyps(2) i False show ?thesis by simp
  qed
qed

text \<open>A node with children that is not the goal: the loop enters the child that holds the goal.\<close>

lemma descend_step:
  assumes rd: "readable (t_language tree) (entry_tree e)" and at: "subtree_at (entry_tree e) p = Some t"
    and e': "entry_at_path (t_language tree) True e p = (e', v)" and ne: "ts_subtree_child_count t \<noteq> 0"
    and small: "unat (e_descendant_index e') + of_bool v + length (visible_paths (t_language tree) t) < 2 ^ 32"
    and goal: "unat goal = unat (e_descendant_index e') + of_bool v + m" "m < length (visible_paths (t_language tree) t)"
  obtains k j where "k < ts_subtree_child_count t"
    "j < length (visible_span (t_language tree) (child_shown (t_language tree) t k) (ts_subtree_children t ! k))"
    "visible_span (t_language tree) v t ! (of_bool v + m) =
       k # visible_span (t_language tree) (child_shown (t_language tree) t k) (ts_subtree_children t ! k) ! j"
    "unat goal = unat (e_descendant_index (child_entry (t_language tree) v e' k)) + j"
    "descend_loop goal (cursor_at tree e a p) =
       (if child_shown (t_language tree) t k \<and> j = 0 then Some (cursor_at tree e a (p @ [k]))
        else descend_loop goal (cursor_at tree e a (p @ [k])))"
proof -
  let ?lang = "t_language tree"
  have t: "entry_tree e' = t" using entry_at_path_tree [OF at, of ?lang True] e' by simp
  have r: "readable ?lang (entry_tree e')" using readable_at [OF rd at] t by simp
  obtain k where k: "k < ts_subtree_child_count t"
    and found: "containing_loop goal (iter_at tree v e' 0) = Some (Some (child_entry ?lang v e' k, child_shown ?lang t k))"
    and between: "length (visible_before ?lang t k) \<le> m" "m < length (visible_before ?lang t (Suc k))"
    using containing_loop_at [OF r _ goal(1), of 0] small goal(2) t by auto
  let ?e = "child_entry ?lang v e' k"
  define j where "j = m - length (visible_before ?lang t k)"
  have j: "j < length (visible_part ?lang t k)" "m = length (visible_before ?lang t k) + j" using between by (auto simp: j_def)
  have "unat (e_descendant_index ?e) = unat (e_descendant_index e') + of_bool v + length (visible_before ?lang t k)"
    using unat_descendants_before [of e' v ?lang k] small k t by (simp add: child_entry_def)
  then have g: "unat goal = unat (e_descendant_index ?e) + j" using goal(1) j(2) by simp
  then have "e_descendant_index ?e = goal \<longleftrightarrow> j = 0" by (auto simp: word_unat_eq_iff)
  moreover have "(cursor_at tree e a p)\<lparr>c_stack := c_stack (cursor_at tree e a p) @ [?e]\<rparr> = cursor_at tree e a (p @ [k])"
    using e' by (simp add: cursor_at_def stack_at_snoc)
  moreover have "\<not> goal < it_descendant_index (iter_at tree v e' 0)"
    using unat_descendants_before [of e' v ?lang 0] small goal(1) t by (simp add: iter_at_def word_less_nat_alt)
  ultimately have "descend_loop goal (cursor_at tree e a p) =
      (if child_shown ?lang t k \<and> j = 0 then Some (cursor_at tree e a (p @ [k]))
       else descend_loop goal (cursor_at tree e a (p @ [k])))"
    using found by (subst descend_loop.simps) (simp add: iterate_children_at [OF rd at ne e'] Let_def)
  moreover note span_child [OF k j(1), of v]
  ultimately show thesis using k g j by (intro that [of k j]) (simp_all add: visible_part_span add.assoc)
qed

lemma descend_loop_at:
  assumes rd: "readable (t_language tree) (entry_tree e)"
  shows "subtree_at (entry_tree e) p = Some t \<Longrightarrow> entry_at_path (t_language tree) True e p = (e', v) \<Longrightarrow>
    unat (e_descendant_index e') + length (visible_span (t_language tree) v t) < 2 ^ 32 \<Longrightarrow>
    unat goal = unat (e_descendant_index e') + m \<Longrightarrow> m < length (visible_span (t_language tree) v t) \<Longrightarrow>
    descend_loop goal (cursor_at tree e a p) = Some (cursor_at tree e a (p @ visible_span (t_language tree) v t ! m))"
proof (induction t arbitrary: p e' v m rule: measure_induct_rule [where f = size])
  case (less t)
  let ?lang = "t_language tree"
  have t: "entry_tree e' = t" using entry_at_path_tree [OF less.prems(1), of ?lang True] less.prems(2) by simp
  have small: "unat (e_descendant_index e') + of_bool v + length (visible_paths ?lang t) < 2 ^ 32"
    using less.prems(3) by (cases v) (simp_all add: visible_span_def)
  consider "ts_subtree_child_count t = 0" | "ts_subtree_child_count t \<noteq> 0" "v" "m = 0"
    | m' where "ts_subtree_child_count t \<noteq> 0" "m = of_bool v + m'"
    by (cases v; cases m) (auto simp: of_bool_def)
  then show ?case
  proof cases
    case 1
    then have "visible_span ?lang v t = [[]]" "m = 0"
      using less.prems(5) by (auto simp: visible_span_def visible_paths_before split: if_splits)
    moreover have "entry_tree (last (c_stack (cursor_at tree e a p))) = t"
      by (simp add: cursor_at_def last_stack_at entry_at_path_tree [OF less.prems(1)])
    ultimately show ?thesis
      using 1 by (subst descend_loop.simps)
        (simp add: ts_tree_cursor_iterate_children_def Let_def containing_loop.simps ts_tree_cursor_child_iterator_next_def cursor_at_def)
  next
    case 2
    have "goal < it_descendant_index (iter_at tree v e' 0)"
      using unat_descendants_before [of e' v ?lang 0] small t 2 less.prems(4) by (simp add: iter_at_def word_less_nat_alt)
    with 2 show ?thesis
      by (subst descend_loop.simps) (simp add: iterate_children_at [OF rd less.prems(1) 2(1) less.prems(2)] visible_span_def)
  next
    case (3 m')
    have m': "unat goal = unat (e_descendant_index e') + of_bool v + m'" "m' < length (visible_paths ?lang t)"
      using less.prems(4,5) 3(2) by (auto simp: visible_span_def split: if_splits)
    show ?thesis
    proof (rule descend_step [OF rd less.prems(1,2) 3(1) small m', of a])
      fix k j
      let ?e = "child_entry ?lang v e' k" and ?c = "ts_subtree_children t ! k" and ?b = "child_shown ?lang t k"
      assume k: "k < ts_subtree_child_count t" and j: "j < length (visible_span ?lang ?b ?c)"
        and path: "visible_span ?lang v t ! (of_bool v + m') = k # visible_span ?lang ?b ?c ! j"
        and goal: "unat goal = unat (e_descendant_index ?e) + j"
        and step: "descend_loop goal (cursor_at tree e a p) =
          (if ?b \<and> j = 0 then Some (cursor_at tree e a (p @ [k])) else descend_loop goal (cursor_at tree e a (p @ [k])))"
      have c: "subtree_at (entry_tree e) (p @ [k]) = Some ?c" "entry_at_path ?lang True e (p @ [k]) = (?e, ?b)"
        using less.prems(1,2) k t by (simp_all add: subtree_at_append item_def ts_subtree_child_count_def entry_at_path_append)
      have "unat (e_descendant_index ?e) + length (visible_span ?lang ?b ?c) < 2 ^ 32"
        using unat_descendants_before [of e' v ?lang k] small k t visible_before_split [OF k, of ?lang]
        by (auto simp: child_entry_def visible_part_span)
      from less.IH [OF nth_child_smaller [OF k] c this goal j] step path 3(2) show ?thesis by (auto simp: visible_span_def)
    qed
  qed
qed

section \<open>Ascending\<close>

text \<open>The number of a node with those of its descendants.\<close>

definition holds_number :: "TSLanguage \<Rightarrow> TreeCursorEntry \<Rightarrow> nat list \<Rightarrow> Subtree \<Rightarrow> nat \<Rightarrow> bool" where
  "holds_number lang e p t g \<longleftrightarrow>
     number lang True (entry_tree e) p \<le> g \<and>
     g < number lang True (entry_tree e) p + length (visible_span lang (snd (entry_at_path lang True e p)) t)"

lemma ascend_holds:
  assumes rd: "readable (t_language tree) (entry_tree e)" and "e_descendant_index e = 0"
    and small: "length (visible_span (t_language tree) True (entry_tree e)) < 2 ^ 32"
    and p: "subtree_at (entry_tree e) p = Some t"
  shows "ascend_loop goal (cursor_at tree e a p) =
    (if holds_number (t_language tree) e p t (unat goal) then Some (Inr (cursor_at tree e a p))
     else if p = [] then Some (Inl (cursor_at tree e a p)) else ascend_loop goal (cursor_at tree e a (butlast p)))"
proof -
  let ?lang = "t_language tree"
  obtain e' v where e': "entry_at_path ?lang True e p = (e', v)" by fastforce
  have t: "entry_tree e' = t" using entry_at_path_tree [OF p, of ?lang True] e' by simp
  have le: "number ?lang True (entry_tree e) p + length (visible_span ?lang v t) < 2 ^ 32"
    using number_le [OF p refl, of ?lang True] small e' by simp
  have idx: "unat (e_descendant_index e') = number ?lang True (entry_tree e) p"
    using descendant_index_at [OF refl, where e = e and lang = ?lang and vis = True and p = p] e' le assms(2) by simp
  have "unat (e_descendant_index e' + of_bool v + ts_subtree_visible_descendant_count t) =
      number ?lang True (entry_tree e) p + length (visible_span ?lang v t)"
    using readable_counts(2) [OF readable_at [OF rd p]] idx le by (cases v) (simp_all add: visible_span_def unat_add_u32)
  then have h: "e_descendant_index e' \<le> goal \<and> goal < e_descendant_index e' + of_bool v + ts_subtree_visible_descendant_count t \<longleftrightarrow>
      holds_number ?lang e p t (unat goal)"
    using idx e' by (simp add: holds_number_def word_le_nat_alt word_less_nat_alt)
  have pop: "(cursor_at tree e a p)\<lparr>c_stack := butlast (c_stack (cursor_at tree e a p))\<rparr> = cursor_at tree e a (butlast p)"
    if "p \<noteq> []" using that by (cases p rule: rev_cases) (simp_all add: cursor_at_def stack_at_snoc)
  have c: "c_stack (cursor_at tree e a p) \<noteq> []" "length (c_stack (cursor_at tree e a p)) = Suc (length p)"
    "last (c_stack (cursor_at tree e a p)) = e'" using e' by (simp_all add: cursor_at_def last_stack_at)
  show ?thesis
    using entry_visible_at [OF rd p order_refl, of a] e'
    by (subst ascend_loop.simps) (simp add: c h t pop Let_def)
qed

lemma ascend_loop_at:
  assumes rd: "readable (t_language tree) (entry_tree e)" and z: "e_descendant_index e = 0"
    and small: "length (visible_span (t_language tree) True (entry_tree e)) < 2 ^ 32"
    and goal: "unat goal < length (visible_span (t_language tree) True (entry_tree e))"
  shows "subtree_at (entry_tree e) p = Some t \<Longrightarrow>
    \<exists>p' t'. ascend_loop goal (cursor_at tree e a p) = Some (Inr (cursor_at tree e a p')) \<and>
      subtree_at (entry_tree e) p' = Some t' \<and> holds_number (t_language tree) e p' t' (unat goal)"
proof (induction p arbitrary: t rule: rev_induct)
  case Nil
  then have "holds_number (t_language tree) e [] t (unat goal)" using goal by (simp add: holds_number_def)
  with Nil ascend_holds [OF rd z small Nil, of goal a] show ?case by (auto intro!: exI [of _ "[]"])
next
  case (snoc k p)
  then obtain s where s: "subtree_at (entry_tree e) p = Some s" by (auto simp: subtree_at_append bind_eq_Some_conv)
  show ?case
  proof (cases "holds_number (t_language tree) e (p @ [k]) t (unat goal)")
    case True
    with snoc.prems ascend_holds [OF rd z small snoc.prems, of goal a] show ?thesis by auto
  next
    case False
    with ascend_holds [OF rd z small snoc.prems, of goal a]
    have "ascend_loop goal (cursor_at tree e a (p @ [k])) = ascend_loop goal (cursor_at tree e a p)" by simp
    with snoc.IH [OF s] show ?thesis by simp
  qed
qed

lemma goto_descendant_at:
  assumes rd: "readable (t_language tree) (entry_tree e)" and z: "e_descendant_index e = 0"
    and small: "length (visible_span (t_language tree) True (entry_tree e)) < 2 ^ 32"
    and goal: "unat goal < length (visible_span (t_language tree) True (entry_tree e))"
    and p: "subtree_at (entry_tree e) p = Some t"
  shows "ts_tree_cursor_goto_descendant (cursor_at tree e a p) goal =
    Some (cursor_at tree e a (visible_span (t_language tree) True (entry_tree e) ! unat goal))"
proof -
  let ?lang = "t_language tree"
  obtain p' t' where asc: "ascend_loop goal (cursor_at tree e a p) = Some (Inr (cursor_at tree e a p'))"
    and p': "subtree_at (entry_tree e) p' = Some t'" and h: "holds_number ?lang e p' t' (unat goal)"
    using ascend_loop_at [OF rd z small goal p] by blast
  obtain e' v where e': "entry_at_path ?lang True e p' = (e', v)" by fastforce
  let ?n = "number ?lang True (entry_tree e) p'"
  define m where "m = unat goal - ?n"
  have m: "m < length (visible_span ?lang v t')" "unat goal = ?n + m" using h e' by (auto simp: holds_number_def m_def)
  have le: "?n + length (visible_span ?lang v t') < 2 ^ 32" using number_le [OF p' refl, of ?lang True] small e' by simp
  then have "unat (e_descendant_index e') = ?n"
    using descendant_index_at [OF refl, where e = e and lang = ?lang and vis = True and p = p'] e' z by simp
  then have "descend_loop goal (cursor_at tree e a p') = Some (cursor_at tree e a (p' @ visible_span ?lang v t' ! m))"
    using m le by (intro descend_loop_at [OF rd p' e']) simp_all
  moreover have "visible_span ?lang True (entry_tree e) ! unat goal = p' @ visible_span ?lang v t' ! m"
    using span_at [OF p' _ refl, of m ?lang True] m e' by simp
  ultimately show ?thesis by (simp add: ts_tree_cursor_goto_descendant_def asc)
qed

end
