(* ===== verification/Cursor_Text.thy ===== *)
theory Cursor_Text
  imports Cursor_Walk Cursor_Descendants
begin

text \<open>
  The cursor on a tree: what its moves reach, and where in the text it stands.
\<close>

section \<open>New cursors\<close>

definition root_entry :: "TSTree \<Rightarrow> TreeCursorEntry" where
  "root_entry tree =
     \<lparr>e_subtree = root_slot tree, e_position = ts_subtree_padding (t_root tree), e_child_index = 0,
      e_structural_child_index = 0, e_descendant_index = 0\<rparr>"

text \<open>The cursor of a tree at a path.\<close>

definition tree_cursor :: "TSTree \<Rightarrow> nat list \<Rightarrow> TreeCursor" where
  "tree_cursor tree p = cursor_at tree (root_entry tree) 0 p"

lemma tree_cursor_new: "ts_tree_cursor_new (ts_tree_root_node tree) = Some (tree_cursor tree [])"
  by (simp add: ts_tree_cursor_new_def ts_tree_cursor_init_def ts_tree_root_node_def ts_node_new_def ts_node_start_byte_def
      ts_node_start_point_def tree_cursor_def cursor_at_def root_entry_def)

lemma root_entry_tree [simp]: "entry_tree (root_entry tree) = t_root tree" "e_descendant_index (root_entry tree) = 0"
  by (simp_all add: root_entry_def root_slot_def)

text \<open>A visible node is shown and exists.\<close>

lemma visible_path_at:
  "p \<in> set (visible_span lang v (entry_tree e)) \<Longrightarrow>
     snd (entry_at_path lang v e p) \<and> (\<exists>s. subtree_at (entry_tree e) p = Some s)"
proof (induction p arbitrary: v e)
  case Nil
  have "[] \<notin> set (visible_paths lang (entry_tree e))"
    by (subst visible_paths_before) (auto simp: visible_before_def visible_part_def)
  with Nil show ?case by (auto simp: visible_span_def split: if_splits)
next
  case (Cons k p)
  then have "k # p \<in> set (visible_paths lang (entry_tree e))" by (auto simp: visible_span_def split: if_splits)
  then have "k # p \<in> set (visible_before lang (entry_tree e) (ts_subtree_child_count (entry_tree e)))"
    by (subst (asm) visible_paths_before)
  then have k: "k < ts_subtree_child_count (entry_tree e)"
    "p \<in> set (visible_span lang (child_shown lang (entry_tree e) k) (ts_subtree_children (entry_tree e) ! k))"
    by (auto simp: visible_before_def visible_part_span)
  from Cons.IH [of "child_shown lang (entry_tree e) k" "child_entry lang v e k"] k show ?case
    by (auto simp: item_def ts_subtree_child_count_def)
qed

section \<open>Positions\<close>

abbreviation padding_bytes :: "Subtree \<Rightarrow> nat" where
  "padding_bytes t \<equiv> unat (bytes (ts_subtree_padding t))"

text \<open>
  The part \<open>u\<close> of the text that the child at an index spans, and the position of the child: the end of what is in front of
  its own text. The text of the parent is behind \<open>pre\<close>.
\<close>

lemma iter_position_text:
  assumes sp: "spans M t w" and M: "M < 2 ^ 32"
  shows "i < ts_subtree_child_count t \<Longrightarrow>
    \<exists>a u b. w = a @ u @ b \<and> spans M (ts_subtree_children t ! i) u \<and> spans_list M (drop (Suc i) (ts_subtree_children t)) b \<and>
      iter_position (length_of (pre @ take (padding_bytes t) w)) t i =
        length_of (pre @ a @ take (padding_bytes (ts_subtree_children t ! i)) u)"
proof (induction i)
  case 0
  then obtain h c cs where t: "t = Ptr h (c # cs)"
    by (cases t) (auto simp: ts_subtree_child_count_def gr0_conv_Suc length_Suc_conv)
  then have "spans_list M (c # cs) w" "bytes (ts_subtree_padding c) = bytes (h_padding h)" using sp by simp_all
  then obtain u b where u: "w = u @ b" "spans M c u" "spans_list M cs b" "padding_bytes c = padding_bytes t"
    using spans_list_Cons [OF M] t by auto
  then have "take (padding_bytes t) w = take (padding_bytes c) u"
    using spans_measured [OF u(2)] by (simp add: measured_def Let_def)
  with u t have "w = [] @ u @ b \<and> spans M (ts_subtree_children t ! 0) u \<and> spans_list M (drop (Suc 0) (ts_subtree_children t)) b \<and>
      iter_position (length_of (pre @ take (padding_bytes t) w)) t 0 =
        length_of (pre @ [] @ take (padding_bytes (ts_subtree_children t ! 0)) u)" by auto
  then show ?case by blast
next
  case (Suc i)
  let ?c = "ts_subtree_children t ! i" and ?d = "ts_subtree_children t ! Suc i"
  obtain a u b where u: "w = a @ u @ b" "spans M ?c u" "spans_list M (drop (Suc i) (ts_subtree_children t)) b"
    "iter_position (length_of (pre @ take (padding_bytes t) w)) t i = length_of (pre @ a @ take (padding_bytes ?c) u)"
    using Suc by auto
  have "drop (Suc i) (ts_subtree_children t) = ?d # drop (Suc (Suc i)) (ts_subtree_children t)"
    using Suc.prems by (simp add: ts_subtree_child_count_def Cons_nth_drop_Suc)
  then obtain x y where x: "b = x @ y" "spans M ?d x" "spans_list M (drop (Suc (Suc i)) (ts_subtree_children t)) y"
    using u(3) spans_list_Cons [OF M] by auto
  have c: "ts_subtree_size ?c = length_of (drop (padding_bytes ?c) u)" "length u \<le> M"
    and d: "ts_subtree_padding ?d = length_of (take (padding_bytes ?d) x)" "length x \<le> M"
    using spans_measured [OF u(2)] spans_measured [OF x(2)] by (simp_all add: measured_def Let_def)
  have "length_add (length_of (pre @ a @ take (padding_bytes ?c) u)) (ts_subtree_size ?c) = length_of (pre @ a @ u)"
    using length_of_append [of "drop (padding_bytes ?c) u" "pre @ a @ take (padding_bytes ?c) u"] c M by simp
  moreover have "length_add (length_of (pre @ a @ u)) (ts_subtree_padding ?d) =
      length_of (pre @ (a @ u) @ take (padding_bytes ?d) x)"
    using length_of_append [of "take (padding_bytes ?d) x" "pre @ a @ u"] d M by simp
  ultimately show ?case
    using u(1,4) x Suc.prems by (intro exI [of _ "a @ u"] exI [of _ x] exI [of _ y]) (simp add: Let_def)
qed

lemma position_in_text:
  assumes "spans M (entry_tree e) w" and "M < 2 ^ 32" and "subtree_at (entry_tree e) p = Some s"
    and "e_position e = length_of (pre @ take (padding_bytes (entry_tree e)) w)"
  shows "\<exists>a u b. w = a @ u @ b \<and> spans M s u \<and>
    e_position (fst (entry_at_path lang v e p)) = length_of (pre @ a @ take (padding_bytes s) u)"
  using assms
proof (induction p arbitrary: e w v pre)
  case Nil
  then show ?case by (intro exI [of _ "[]"] exI [of _ w]) simp
next
  case (Cons k p)
  then have k: "k < ts_subtree_child_count (entry_tree e)" "subtree_at (ts_subtree_children (entry_tree e) ! k) p = Some s"
    by (auto simp: item_def bind_eq_Some_conv ts_subtree_child_count_def split: if_splits)
  let ?e = "child_entry lang v e k"
  obtain a u b where u: "w = a @ u @ b" "spans M (ts_subtree_children (entry_tree e) ! k) u"
    "e_position ?e = length_of ((pre @ a) @ take (padding_bytes (ts_subtree_children (entry_tree e) ! k)) u)"
    using iter_position_text [OF Cons.prems(1) assms(2) k(1), of pre] Cons.prems(4) by (auto simp: child_entry_def)
  obtain a' u' b' where "u = a' @ u' @ b'" "spans M s u'"
    "e_position (fst (entry_at_path lang (child_shown lang (entry_tree e) k) ?e p)) =
       length_of ((pre @ a) @ a' @ take (padding_bytes s) u')"
    using Cons.IH [of ?e u "pre @ a" "child_shown lang (entry_tree e) k"] u assms(2) k(2) by auto
  with u(1) show ?case by (intro exI [of _ "a @ a'"] exI [of _ u'] exI [of _ "b' @ b"]) simp
qed

section \<open>The alias of the current node\<close>

lemma aliases_fit_at: "aliases_fit lang t \<Longrightarrow> subtree_at t p = Some s \<Longrightarrow> aliases_fit lang s"
proof (induction p arbitrary: t)
  case (Cons k p)
  then show ?case by (cases t) (auto simp: item_def bind_eq_Some_conv list_all_length split: if_splits)
qed simp

text \<open>The alias of a node below the root is that of its parent's production, if the node is not extra.\<close>

definition shown_alias :: "TSLanguage \<Rightarrow> Subtree \<Rightarrow> nat list \<Rightarrow> TSSymbol" where
  "shown_alias lang t p =
     (case (subtree_at t p, subtree_at t (butlast p)) of
        (Some s, Some r) \<Rightarrow> if p = [] \<or> ts_subtree_extra s then 0 else alias_of lang r (last p)
      | _ \<Rightarrow> 0)"

lemma current_node_at:
  assumes "aliases_fit (t_language tree) (t_root tree)" and "subtree_at (t_root tree) p = Some s"
    and "entry_at_path (t_language tree) True (root_entry tree) p = (e, v)"
  shows "ts_tree_cursor_current_node (tree_cursor tree p) =
    Some (ts_node_new (Some tree) (Some (e_subtree e)) (e_position e) (shown_alias (t_language tree) (t_root tree) p))"
proof (cases p rule: rev_cases)
  case Nil
  with assms(3) show ?thesis
    by (simp add: ts_tree_cursor_current_node_def tree_cursor_def cursor_at_def shown_alias_def)
next
  case (snoc q k)
  let ?lang = "t_language tree" and ?e = "root_entry tree"
  obtain t where t: "subtree_at (t_root tree) q = Some t" "k < ts_subtree_child_count t" "ts_subtree_children t ! k = s"
    using assms(2) snoc by (auto simp: subtree_at_append bind_eq_Some_conv item_def ts_subtree_child_count_def split: if_splits)
  obtain e' v' where e': "entry_at_path ?lang True ?e q = (e', v')" by fastforce
  have t': "entry_tree e' = t" using entry_at_path_tree [of ?e q t ?lang True] t(1) e' by simp
  have it: "item (stack_at ?lang True ?e p) (length p) = Some e" "item (stack_at ?lang True ?e p) (length p - 1) = Some e'"
    using e' snoc assms(3) by (simp_all add: item_stack_at entry_at_path_append)
  have e: "e = child_entry ?lang v' e' k" "last (stack_at ?lang True ?e p) = e"
    using assms(3) e' snoc by (simp_all add: entry_at_path_append last_stack_at)
  show ?thesis
    using alias_of_read(1) [OF aliases_fit_at [OF assms(1) t(1)] t(2)] t t' e it snoc assms(2)
    by (auto simp: ts_tree_cursor_current_node_def entry_alias_def tree_cursor_def cursor_at_def shown_alias_def child_entry_def)
qed

section \<open>Properties\<close>

text \<open>A tree with a hidden node, over a text with line breaks.\<close>

definition sample_tree :: TSTree where
  "sample_tree =
     (let c = sample_repeat (sample_leaf 1 0) (sample_leaf 1 1)
      in ts_tree_new (case ts_subtree_new_node 2 [sample_leaf 0 0, c] 1 tree_language of Some t \<Rightarrow> t | None \<Rightarrow> c) tree_language [])"

lemma sample_tree_reads:
  "readable (t_language sample_tree) (t_root sample_tree)" "subtree_at (t_root sample_tree) [] = Some (t_root sample_tree)"
  "child_paths (t_language sample_tree) (t_root sample_tree) = [[0], [1, 0], [1, 1]]"
  "visible_span (t_language sample_tree) True (t_root sample_tree) = [[], [0], [1, 0], [1, 1]]"
  "spans 6 (t_root sample_tree) [97, 10, 98, 10, 99]"
proof -
  have "summary_exact (t_language sample_tree) (t_root sample_tree)" "aliases_fit (t_language sample_tree) (t_root sample_tree)"
    "descendants (t_language sample_tree) (t_root sample_tree) = 3" by code_simp+
  then show "readable (t_language sample_tree) (t_root sample_tree)" by (simp add: readable_def)
  show "subtree_at (t_root sample_tree) [] = Some (t_root sample_tree)" by simp
  show "child_paths (t_language sample_tree) (t_root sample_tree) = [[0], [1, 0], [1, 1]]" by code_simp
  show "visible_span (t_language sample_tree) True (t_root sample_tree) = [[], [0], [1, 0], [1, 1]]" by code_simp
  show "spans 6 (t_root sample_tree) [97, 10, 98, 10, 99]" by code_simp
qed

lemma cursor_walk:
  assumes "readable (t_language tree) (t_root tree)" and "r \<in> set (visible_span (t_language tree) True (t_root tree))"
    and "subtree_at (t_root tree) r = Some t" and "qs = child_paths (t_language tree) t"
  shows "ts_tree_cursor_goto_first_child (tree_cursor tree r) =
      Some (if qs = [] then (False, tree_cursor tree r) else (True, tree_cursor tree (r @ hd qs)))"
    and "ts_tree_cursor_goto_last_child (tree_cursor tree r) =
      Some (if qs = [] then (False, tree_cursor tree r) else (True, tree_cursor tree (r @ last qs)))"
    and "i < length qs \<Longrightarrow> ts_tree_cursor_goto_next_sibling (tree_cursor tree (r @ qs ! i)) =
      Some (if Suc i < length qs then (True, tree_cursor tree (r @ qs ! Suc i)) else (False, tree_cursor tree (r @ qs ! i)))"
    and "i < length qs \<Longrightarrow> ts_tree_cursor_goto_parent (tree_cursor tree (r @ qs ! i)) = Some (True, tree_cursor tree r)"
proof -
  let ?e = "root_entry tree"
  have rd: "readable (t_language tree) (entry_tree ?e)" "subtree_at (entry_tree ?e) r = Some t" using assms(1,3) by simp_all
  have vis: "snd (entry_at_path (t_language tree) True ?e r)"
    using visible_path_at [of r "t_language tree" True ?e] assms(2) by simp
  show "ts_tree_cursor_goto_first_child (tree_cursor tree r) =
      Some (if qs = [] then (False, tree_cursor tree r) else (True, tree_cursor tree (r @ hd qs)))"
    using goto_first_child_at [OF rd, of 0] by (simp add: tree_cursor_def assms(4) split: list.split)
  show "ts_tree_cursor_goto_last_child (tree_cursor tree r) =
      Some (if qs = [] then (False, tree_cursor tree r) else (True, tree_cursor tree (r @ last qs)))"
    using goto_last_child_at [OF rd, of 0] by (simp add: tree_cursor_def assms(4) Let_def)
  assume i: "i < length qs"
  then have split: "child_paths (t_language tree) t = take i qs @ qs ! i # drop (Suc i) qs"
    by (simp add: assms(4) [symmetric] id_take_nth_drop [symmetric])
  show "ts_tree_cursor_goto_next_sibling (tree_cursor tree (r @ qs ! i)) =
      Some (if Suc i < length qs then (True, tree_cursor tree (r @ qs ! Suc i)) else (False, tree_cursor tree (r @ qs ! i)))"
    using goto_next_sibling_at [OF rd vis split, of 0]
    by (auto simp: tree_cursor_def Cons_nth_drop_Suc [symmetric] split: list.split)
  show "ts_tree_cursor_goto_parent (tree_cursor tree (r @ qs ! i)) = Some (True, tree_cursor tree r)"
    using goto_parent_at [OF rd vis, of "qs ! i" 0] i by (simp add: tree_cursor_def assms(4))
qed

text \<open>
  C8. A cursor moves between the visible nodes of a tree, and hidden nodes never show. On a visible node \<open>r\<close> whose visible
  children are at \<open>qs\<close>, the moves to a child find the first and the last of them and fail if there is none; from each
  child the next sibling is the next of them, the last has none, and the parent is \<open>r\<close>. A move that fails
  leaves the cursor where it was, and all entries of the stack are again those of the path.
\<close>

theorem cursor_walks_visible_nodes:
  assumes "readable (t_language tree) (t_root tree)" and "r \<in> set (visible_span (t_language tree) True (t_root tree))"
    and "subtree_at (t_root tree) r = Some t" and "qs = child_paths (t_language tree) t"
  shows "ts_tree_cursor_goto_first_child (tree_cursor tree r) =
      Some (if qs = [] then (False, tree_cursor tree r) else (True, tree_cursor tree (r @ hd qs))) \<and>
    ts_tree_cursor_goto_last_child (tree_cursor tree r) =
      Some (if qs = [] then (False, tree_cursor tree r) else (True, tree_cursor tree (r @ last qs))) \<and>
    (\<forall>i < length qs.
      ts_tree_cursor_goto_next_sibling (tree_cursor tree (r @ qs ! i)) =
        Some (if Suc i < length qs then (True, tree_cursor tree (r @ qs ! Suc i)) else (False, tree_cursor tree (r @ qs ! i))) \<and>
      ts_tree_cursor_goto_parent (tree_cursor tree (r @ qs ! i)) = Some (True, tree_cursor tree r))"
  using cursor_walk [OF assms] by blast

theorem cursor_walks_visible_nodes_witness:
  "ts_tree_cursor_goto_first_child (tree_cursor sample_tree []) = Some (True, tree_cursor sample_tree [0]) \<and>
   ts_tree_cursor_goto_next_sibling (tree_cursor sample_tree [0]) = Some (True, tree_cursor sample_tree [1, 0]) \<and>
   ts_tree_cursor_goto_next_sibling (tree_cursor sample_tree [1, 1]) = Some (False, tree_cursor sample_tree [1, 1]) \<and>
   ts_tree_cursor_goto_parent (tree_cursor sample_tree [1, 1]) = Some (True, tree_cursor sample_tree [])"
proof -
  have r: "[] \<in> set (visible_span (t_language sample_tree) True (t_root sample_tree))" by (simp add: sample_tree_reads(4))
  note walk = cursor_walks_visible_nodes [OF sample_tree_reads(1) r sample_tree_reads(2) refl, unfolded sample_tree_reads(3)]
  from walk have "\<forall>i < 3. ts_tree_cursor_goto_next_sibling (tree_cursor sample_tree ([] @ [[0], [1, 0], [1, 1]] ! i)) =
        Some (if Suc i < 3 then (True, tree_cursor sample_tree ([] @ [[0], [1, 0], [1, 1]] ! Suc i))
              else (False, tree_cursor sample_tree ([] @ [[0], [1, 0], [1, 1]] ! i))) \<and>
      ts_tree_cursor_goto_parent (tree_cursor sample_tree ([] @ [[0], [1, 0], [1, 1]] ! i)) = Some (True, tree_cursor sample_tree [])"
    by simp
  from this [rule_format, of 0] this [rule_format, of 2] walk show ?thesis by simp
qed

text \<open>
  C9. A cursor goes to a descendant by its number in preorder, from any node: the root has the number 0, and the nodes below
  it follow as they start in the text. The loops over the cached counts, which are words of 32 bits, end on that node.
\<close>

theorem goto_descendant_by_number:
  assumes "readable (t_language tree) (t_root tree)" and "subtree_at (t_root tree) p = Some t"
    and "length (visible_span (t_language tree) True (t_root tree)) < 2 ^ 32"
    and "unat goal < length (visible_span (t_language tree) True (t_root tree))"
  shows "ts_tree_cursor_goto_descendant (tree_cursor tree p) goal =
    Some (tree_cursor tree (visible_span (t_language tree) True (t_root tree) ! unat goal))"
  using goto_descendant_at [of tree "root_entry tree" goal p t 0] assms by (simp add: tree_cursor_def)

theorem goto_descendant_by_number_witness:
  "ts_tree_cursor_goto_descendant (tree_cursor sample_tree []) 2 = Some (tree_cursor sample_tree [1, 0])"
  using goto_descendant_by_number [OF sample_tree_reads(1,2), of 2] sample_tree_reads(4) by simp

text \<open>
  C10. The cursor stands where its node is: if the tree spans a text, the node of the cursor starts behind the text \<open>a\<close> in
  front of it and the white space of its own part \<open>u\<close>, in bytes, rows and columns.
\<close>

theorem cursor_position_in_text:
  assumes "spans M (t_root tree) w" and "M < 2 ^ 32" and "subtree_at (t_root tree) p = Some s"
    and "aliases_fit (t_language tree) (t_root tree)"
  shows "\<exists>n a u b. ts_tree_cursor_current_node (tree_cursor tree p) = Some n \<and> w = a @ u @ b \<and> spans M s u \<and>
    map_option slot_tree (n_id n) = Some s \<and> ts_node__alias n = ucast (shown_alias (t_language tree) (t_root tree) p) \<and>
    \<lparr>bytes = ts_node_start_byte n, extent = ts_node_start_point n\<rparr> = length_of (a @ take (padding_bytes s) u)"
proof -
  obtain e v where e: "entry_at_path (t_language tree) True (root_entry tree) p = (e, v)" by fastforce
  have "e_position (root_entry tree) = length_of ([] @ take (padding_bytes (entry_tree (root_entry tree))) w)"
    using spans_measured [OF assms(1)] by (simp add: measured_def Let_def root_entry_def root_slot_def)
  with position_in_text [of M "root_entry tree" w p s "[]" "t_language tree" True] assms(1-3) e obtain a u b
    where u: "w = a @ u @ b" "spans M s u" "e_position e = length_of (a @ take (padding_bytes s) u)" by auto
  have t: "entry_tree e = s" using entry_at_path_tree [of "root_entry tree" p s "t_language tree" True] assms(3) e by simp
  let ?n = "ts_node_new (Some tree) (Some (e_subtree e)) (e_position e) (shown_alias (t_language tree) (t_root tree) p)"
  have "map_option slot_tree (n_id ?n) = Some s" "ts_node__alias ?n = ucast (shown_alias (t_language tree) (t_root tree) p)"
    "\<lparr>bytes = ts_node_start_byte ?n, extent = ts_node_start_point ?n\<rparr> = length_of (a @ take (padding_bytes s) u)"
    using u(3) t by (simp_all add: ts_node_new_def ts_node_start_byte_def ts_node_start_point_def ts_node__alias_def)
  with u(1,2) current_node_at [OF assms(4,3) e] show ?thesis by blast
qed

theorem cursor_position_in_text_witness:
  "\<exists>n a u b. ts_tree_cursor_current_node (tree_cursor sample_tree [1, 1]) = Some n \<and> [97, 10, 98, 10, 99] = a @ u @ b \<and>
    spans 6 (sample_leaf 1 1) u \<and>
    \<lparr>bytes = ts_node_start_byte n, extent = ts_node_start_point n\<rparr> = length_of (a @ take (padding_bytes (sample_leaf 1 1)) u)"
proof -
  have "subtree_at (t_root sample_tree) [1, 1] = Some (sample_leaf 1 1)" by code_simp
  moreover have "aliases_fit (t_language sample_tree) (t_root sample_tree)" using sample_tree_reads(1) by (simp add: readable_def)
  ultimately show ?thesis using cursor_position_in_text [OF sample_tree_reads(5), of "[1, 1]" "sample_leaf 1 1"] by auto
qed

section \<open>Going back\<close>

text \<open>
  The move to the previous sibling does not mirror the others. The backward iterator stops before a child whose index ends
  with the byte 255, so the child with the index 256 has no previous sibling.
\<close>

theorem previous_sibling_lost:
  assumes "readable (t_language tree) (t_root tree)" and "256 < ts_subtree_child_count (t_root tree)"
  shows "ts_tree_cursor_goto_previous_sibling (tree_cursor tree [256]) = Some (False, tree_cursor tree [256])"
proof -
  let ?e = "root_entry tree" and ?lang = "t_language tree" and ?c = "tree_cursor tree [256]"
  have rd: "readable ?lang (entry_tree ?e)" "256 < ts_subtree_child_count (entry_tree ?e)" using assms by simp_all
  have pop: "?c\<lparr>c_stack := butlast (c_stack ?c)\<rparr> = tree_cursor tree []" "last (c_stack ?c) = child_entry ?lang True ?e 256"
    "length (c_stack ?c) = 2" "length (c_stack (tree_cursor tree [])) = 1"
    by (simp_all add: tree_cursor_def cursor_at_def)
  have it: "ts_tree_cursor_iterate_children (tree_cursor tree []) = Some (iter_at tree True ?e 0)"
    using iterate_children_at [OF rd(1), of "[]" "t_root tree" ?e True 0] assms(2) by (simp add: tree_cursor_def)
  have set: "(iter_at tree True ?e 0)\<lparr>it_child_index := e_child_index (child_entry ?lang True ?e 256),
      it_structural_child_index := e_structural_child_index (child_entry ?lang True ?e 256),
      it_position := e_position (child_entry ?lang True ?e 256),
      it_descendant_index := e_descendant_index (child_entry ?lang True ?e 256)\<rparr> = iter_at tree True ?e 256"
    by (simp add: iter_at_def child_entry_def)
  obtain i' e' v where prev: "advance_by Backward (iter_at tree True ?e 256) = Some (Some (i', e', v))"
    "it_parent i' = Some (e_subtree ?e)" "it_child_index i' = 255"
    using iterator_visible_at [OF rd, of True] assms(2)
    by (simp add: advance_by_def ts_tree_cursor_child_iterator_previous_def iter_at_def slot_child_def item_def Let_def
        ts_subtree_child_count_def root_entry_def root_slot_def)
  have "advance_loop Backward i' = Some None"
    by (subst advance_loop.simps) (simp add: advance_by_def ts_tree_cursor_child_iterator_previous_def prev(2,3))
  moreover have "sibling_loop Backward 2 (tree_cursor tree []) = Some None"
    by (subst sibling_loop.simps) (simp add: pop)
  ultimately have "sibling_loop Backward 2 ?c = Some None"
    by (subst sibling_loop.simps) (simp add: pop it set prev Let_def)
  then show ?thesis
    by (simp add: ts_tree_cursor_goto_previous_sibling_def ts_tree_cursor_goto_previous_sibling_internal_def
        ts_tree_cursor_goto_sibling_internal_def pop)
qed

text \<open>
  Behind an extra node the structural index is one too high: the second child of this tree is shown under the alias 3, and
  no longer when the cursor comes back to it.
\<close>

definition extra_tree :: TSTree where
  "extra_tree =
     (let lang = tree_language\<lparr>max_alias_sequence_length := 3, alias_sequences := [0, 0, 0, 0, 3, 0]\<rparr>;
          cs = [sample_leaf 0 0, sample_leaf 1 0, ts_subtree_set_extra (sample_leaf 1 0) True, sample_leaf 1 1]
      in ts_tree_new (case ts_subtree_new_node 2 cs 1 lang of Some t \<Rightarrow> t | None \<Rightarrow> sample_leaf 0 0) lang [])"

theorem previous_sibling_alias:
  "(case ts_tree_cursor_goto_previous_sibling (tree_cursor extra_tree [2]) of
      Some (True, c) \<Rightarrow> map_option ts_node__alias (ts_tree_cursor_current_node c) | _ \<Rightarrow> None) = Some 0 \<and>
   map_option ts_node__alias (ts_tree_cursor_current_node (tree_cursor extra_tree [1])) = Some 3"
  by code_simp

text \<open>The number of the node is reset to 0 on the way back, whatever it is.\<close>

theorem previous_sibling_number:
  "(case ts_tree_cursor_goto_previous_sibling (tree_cursor extra_tree [3]) of
      Some (True, c) \<Rightarrow> ts_tree_cursor_current_descendant_index c | _ \<Rightarrow> None) = Some 0 \<and>
   ts_tree_cursor_current_descendant_index (tree_cursor extra_tree [2]) = Some 3"
  by code_simp

end
