(* ===== verification/Node.thy ===== *)
theory Node
  imports Tree
begin

text \<open>
  Nodes: the rest of \<open>node.c\<close>. A node is a position in a tree with its alias; its relatives are found by walking over the
  children from the root or from the node, hidden nodes on the way included. \<open>None\<close> is a read outside an array or
  through a null pointer; the null node is a value.
\<close>

section \<open>Reading a node\<close>

definition ts_node__subtree :: "TSNode \<Rightarrow> Subtree option" where
  "ts_node__subtree self = map_option slot_tree (n_id self)"

text \<open>Equality of two ids, which are addresses, and of two trees as words: a packed leaf, or the address of the heap data.\<close>

definition same_id :: "TSNode \<Rightarrow> TSNode \<Rightarrow> bool" where
  "same_id a b \<longleftrightarrow> map_option slot_path (n_id a) = map_option slot_path (n_id b)"

definition same_ptr :: "Slot \<Rightarrow> Slot \<Rightarrow> bool" where
  "same_ptr a b =
     (case (slot_tree a, slot_tree b) of
        (Inline d, Inline d') \<Rightarrow> d = d' | (Ptr h cs, Ptr h' cs') \<Rightarrow> slot_path a = slot_path b | _ \<Rightarrow> False)"

definition ts_node_language :: "TSNode \<Rightarrow> TSLanguage option" where
  "ts_node_language self = map_option t_language (n_tree self)"

definition ts_node_end_byte :: "TSNode \<Rightarrow> u32 option" where
  "ts_node_end_byte self = do { t \<leftarrow> ts_node__subtree self; Some (ts_node_start_byte self + bytes (ts_subtree_size t)) }"

definition ts_node_end_point :: "TSNode \<Rightarrow> TSPoint option" where
  "ts_node_end_point self =
     do { t \<leftarrow> ts_node__subtree self; Some (point_add (ts_node_start_point self) (extent (ts_subtree_size t))) }"

text \<open>The symbol a node is shown as: its alias, if it has one.\<close>

definition shown_symbol :: "TSNode \<Rightarrow> TSSymbol option" where
  "shown_symbol self = do {
     t \<leftarrow> ts_node__subtree self;
     let a = ucast (ts_node__alias self);
     Some (if a \<noteq> 0 then a else ts_subtree_symbol t)
   }"

definition ts_node_symbol :: "TSNode \<Rightarrow> TSSymbol option" where
  "ts_node_symbol self = do { lang \<leftarrow> ts_node_language self; sy \<leftarrow> shown_symbol self; ts_language_public_symbol lang sy }"

definition ts_node_type :: "TSNode \<Rightarrow> string option option" where
  "ts_node_type self = do { lang \<leftarrow> ts_node_language self; sy \<leftarrow> shown_symbol self; ts_language_symbol_name lang sy }"

definition ts_node_grammar_symbol :: "TSNode \<Rightarrow> TSSymbol option" where
  "ts_node_grammar_symbol self = map_option ts_subtree_symbol (ts_node__subtree self)"

definition ts_node_grammar_type :: "TSNode \<Rightarrow> string option option" where
  "ts_node_grammar_type self =
     do { lang \<leftarrow> ts_node_language self; sy \<leftarrow> ts_node_grammar_symbol self; ts_language_symbol_name lang sy }"

definition ts_node_is_extra :: "TSNode \<Rightarrow> bool option" where
  "ts_node_is_extra self = map_option ts_subtree_extra (ts_node__subtree self)"

definition ts_node_is_named :: "TSNode \<Rightarrow> bool option" where
  "ts_node_is_named self = do {
     t \<leftarrow> ts_node__subtree self;
     lang \<leftarrow> ts_node_language self;
     let a = ucast (ts_node__alias self);
     if a \<noteq> 0 then map_option named (ts_language_symbol_metadata lang a) else Some (ts_subtree_named t)
   }"

definition ts_node_is_missing :: "TSNode \<Rightarrow> bool option" where
  "ts_node_is_missing self = map_option ts_subtree_missing (ts_node__subtree self)"

definition ts_node_has_changes :: "TSNode \<Rightarrow> bool option" where
  "ts_node_has_changes self = map_option ts_subtree_has_changes (ts_node__subtree self)"

definition ts_node_has_error :: "TSNode \<Rightarrow> bool option" where
  "ts_node_has_error self = map_option (\<lambda>t. 0 < ts_subtree_error_cost t) (ts_node__subtree self)"

definition ts_node_is_error :: "TSNode \<Rightarrow> bool option" where
  "ts_node_is_error self = map_option (\<lambda>sy. sy = ts_builtin_sym_error) (ts_node_symbol self)"

definition ts_node_descendant_count :: "TSNode \<Rightarrow> u32 option" where
  "ts_node_descendant_count self = map_option (\<lambda>t. ts_subtree_visible_descendant_count t + 1) (ts_node__subtree self)"

definition ts_node_parse_state :: "TSNode \<Rightarrow> TSStateId option" where
  "ts_node_parse_state self = map_option ts_subtree_parse_state (ts_node__subtree self)"

definition ts_node_next_parse_state :: "TSNode \<Rightarrow> TSStateId option" where
  "ts_node_next_parse_state self = do {
     lang \<leftarrow> ts_node_language self;
     state \<leftarrow> ts_node_parse_state self;
     if state = TS_TREE_STATE_NONE then Some TS_TREE_STATE_NONE
     else do { sy \<leftarrow> ts_node_grammar_symbol self; ts_language_next_state lang state sy }
   }"

definition ts_node_child_count :: "TSNode \<Rightarrow> u32 option" where
  "ts_node_child_count self = map_option ts_subtree_visible_child_count (ts_node__subtree self)"

definition ts_node_named_child_count :: "TSNode \<Rightarrow> u32 option" where
  "ts_node_named_child_count self = map_option ts_subtree_named_child_count (ts_node__subtree self)"

definition ts_node_edit :: "TSNode \<Rightarrow> TSInputEdit \<Rightarrow> TSNode" where
  "ts_node_edit self edit =
     (let (point, byte) = ts_point_edit (ts_node_start_point self) (ts_node_start_byte self) edit
      in self\<lparr>n_start_byte := byte, n_start_row := row point, n_start_column := column point\<rparr>)"

section \<open>Iterating over children\<close>

record NodeChildIterator =
  ni_parent :: "Slot option"
  ni_tree :: "TSTree option"
  ni_position :: Length
  ni_child_index :: nat
  ni_structural_child_index :: nat
  ni_alias_sequence :: "TSSymbol list option"

definition ts_node_iterate_children :: "TSNode \<Rightarrow> NodeChildIterator option" where
  "ts_node_iterate_children node = do {
     slot \<leftarrow> n_id node;
     tree \<leftarrow> n_tree node;
     if ts_subtree_child_count (slot_tree slot) = 0
     then Some \<lparr>ni_parent = None, ni_tree = n_tree node, ni_position = length_zero, ni_child_index = 0,
                ni_structural_child_index = 0, ni_alias_sequence = None\<rparr>
     else Some \<lparr>ni_parent = Some slot, ni_tree = n_tree node,
                ni_position = \<lparr>bytes = ts_node_start_byte node, extent = ts_node_start_point node\<rparr>,
                ni_child_index = 0, ni_structural_child_index = 0,
                ni_alias_sequence = ts_language_alias_sequence (t_language tree) (unat (ts_subtree_production_id (slot_tree slot)))\<rparr>
   }"

definition ts_node_child_iterator_done :: "NodeChildIterator \<Rightarrow> Slot \<Rightarrow> bool" where
  "ts_node_child_iterator_done self parent \<longleftrightarrow> ni_child_index self = ts_subtree_child_count (slot_tree parent)"

text \<open>The inner option is \<open>None\<close> where the iterator returns false.\<close>

definition ts_node_child_iterator_next :: "NodeChildIterator \<Rightarrow> (NodeChildIterator \<times> TSNode) option option" where
  "ts_node_child_iterator_next self =
     (case ni_parent self of
        None \<Rightarrow> Some None
      | Some parent \<Rightarrow>
          if ts_node_child_iterator_done self parent then Some None
          else do {
            child \<leftarrow> slot_child parent (ni_child_index self);
            let c = slot_tree child;
            alias_symbol \<leftarrow> (if \<not> ts_subtree_extra c
              then (case ni_alias_sequence self of Some als \<Rightarrow> item als (ni_structural_child_index self) | None \<Rightarrow> Some 0)
              else Some 0);
            let position = (if 0 < ni_child_index self then length_add (ni_position self) (ts_subtree_padding c) else ni_position self);
            Some (Some
              (self\<lparr>ni_structural_child_index :=
                      (if ts_subtree_extra c then ni_structural_child_index self else ni_structural_child_index self + 1),
                    ni_position := length_add position (ts_subtree_size c), ni_child_index := ni_child_index self + 1\<rparr>,
               ts_node_new (ni_tree self) (Some child) position alias_symbol))
          })"

text \<open>How many nodes there are in a tree, and in the children that an iterator has left: the measure of the loops.\<close>

fun node_total :: "Subtree \<Rightarrow> nat" where
  "node_total (Inline d) = 1"
| "node_total (Ptr h cs) = Suc (sum_list (map node_total cs))"

definition total_left :: "NodeChildIterator \<Rightarrow> nat" where
  "total_left self =
     (case ni_parent self of None \<Rightarrow> 0
      | Some parent \<Rightarrow> sum_list (map node_total (drop (ni_child_index self) (ts_subtree_children (slot_tree parent)))))"

definition total_of :: "TSNode \<Rightarrow> nat" where
  "total_of node = (case n_id node of None \<Rightarrow> 0 | Some s \<Rightarrow> node_total (slot_tree s))"

lemma node_total_pos [simp]: "0 < node_total t"
  by (cases t) simp_all

lemma node_total_children: "sum_list (map node_total (ts_subtree_children t)) < node_total t"
  by (cases t) simp_all

lemma iterate_left: "ts_node_iterate_children node = Some it \<Longrightarrow> total_left it < total_of node"
  by (auto simp: ts_node_iterate_children_def total_left_def total_of_def bind_eq_Some_conv node_total_children split: if_splits)

lemma node_next_left:
  "ts_node_child_iterator_next it = Some (Some (it', child)) \<Longrightarrow>
     0 < total_of child \<and> total_of child + total_left it' = total_left it"
  by (auto simp: ts_node_child_iterator_next_def ts_node_child_iterator_done_def total_left_def total_of_def slot_child_def item_def
      ts_node_new_def bind_eq_Some_conv Let_def Cons_nth_drop_Suc [symmetric] split: option.splits if_splits)

text \<open>The two facts in the form that the termination proofs use.\<close>

lemma node_next_less: "ts_node_child_iterator_next it = Some (Some (it', child)) \<Longrightarrow> total_left it' < total_left it"
  using node_next_left by fastforce

lemma node_enter_less:
  "ts_node_child_iterator_next it = Some (Some (it', child)) \<Longrightarrow> ts_node_iterate_children child = Some it'' \<Longrightarrow>
     total_left it'' + total_left it' < total_left it"
  using node_next_left [of it it' child] iterate_left [of child it''] by simp

lemma node_inside_less:
  "ts_node_child_iterator_next it = Some (Some (it', child)) \<Longrightarrow> Some it'' = ts_node_iterate_children child \<Longrightarrow>
     total_left it'' < total_left it"
  using node_enter_less [of it it' child it''] by simp

section \<open>Children\<close>

definition ts_node__is_relevant :: "TSNode \<Rightarrow> bool \<Rightarrow> bool option" where
  "ts_node__is_relevant self include_anonymous = do {
     tree \<leftarrow> ts_node__subtree self;
     if include_anonymous then Some (ts_subtree_visible tree \<or> ts_node__alias self \<noteq> 0)
     else do {
       let a = (ucast (ts_node__alias self) :: TSSymbol);
       if a \<noteq> 0 then do {
         lang \<leftarrow> ts_node_language self;
         map_option named (ts_language_symbol_metadata lang a)
       }
       else Some (ts_subtree_visible tree \<and> ts_subtree_named tree)
     }
   }"

definition ts_node__relevant_child_count :: "TSNode \<Rightarrow> bool \<Rightarrow> u32 option" where
  "ts_node__relevant_child_count self include_anonymous = do {
     tree \<leftarrow> ts_node__subtree self;
     Some (if 0 < ts_subtree_child_count tree
           then (if include_anonymous then ts_subtree_visible_child_count tree else ts_subtree_named_child_count tree)
           else 0)
   }"

text \<open>
  The search for the child with an index: the inner loop finds it, or the hidden node that holds it with the index there,
  or neither.
\<close>

datatype ChildStep = ChildFound TSNode | ChildInside TSNode u32 | ChildMissing

function child_loop :: "bool \<Rightarrow> u32 \<Rightarrow> NodeChildIterator \<Rightarrow> u32 \<Rightarrow> ChildStep option" where
  "child_loop include_anonymous wanted it index =
     (case ts_node_child_iterator_next it of
        None \<Rightarrow> None
      | Some None \<Rightarrow> Some ChildMissing
      | Some (Some (it', child)) \<Rightarrow>
          (case ts_node__is_relevant child include_anonymous of
             None \<Rightarrow> None
           | Some relevant \<Rightarrow>
               if relevant then
                 (if index = wanted then Some (ChildFound child) else child_loop include_anonymous wanted it' (index + 1))
               else
                 (case ts_node__relevant_child_count child include_anonymous of
                    None \<Rightarrow> None
                  | Some grandchild_count \<Rightarrow>
                      if wanted - index < grandchild_count then Some (ChildInside child (wanted - index))
                      else child_loop include_anonymous wanted it' (index + grandchild_count))))"
  by pat_completeness auto
termination by (relation "measure (\<lambda>(b, n, it, i). total_left it)") (auto dest: node_next_less)

declare child_loop.simps [simp del]

lemma child_loop_cases:
  assumes "child_loop b n it i = Some (ChildInside child m)"
  shows "\<exists>it' c. ts_node_child_iterator_next it = Some (Some (it', c)) \<and>
    (child = c \<or> (\<exists>i'. child_loop b n it' i' = Some (ChildInside child m)))"
  using assms by (subst (asm) child_loop.simps) (auto split: option.splits if_splits)

lemma child_loop_inside: "child_loop b n it i = Some (ChildInside child m) \<Longrightarrow> total_of child \<le> total_left it"
proof (induction it arbitrary: i rule: measure_induct_rule [where f = total_left])
  case (less it)
  obtain it' c where nx: "ts_node_child_iterator_next it = Some (Some (it', c))"
    and "child = c \<or> (\<exists>i'. child_loop b n it' i' = Some (ChildInside child m))"
    using child_loop_cases [OF less.prems] by blast
  then show ?case using less.IH [of it'] node_next_less [OF nx] node_next_left [OF nx] by fastforce
qed

function ts_node__child :: "TSNode \<Rightarrow> u32 \<Rightarrow> bool \<Rightarrow> TSNode option" where
  "ts_node__child self wanted include_anonymous =
     (case ts_node_iterate_children self of
        None \<Rightarrow> None
      | Some it \<Rightarrow>
          (case child_loop include_anonymous wanted it 0 of
             None \<Rightarrow> None
           | Some (ChildFound child) \<Rightarrow> Some child
           | Some (ChildInside child n) \<Rightarrow> ts_node__child child n include_anonymous
           | Some ChildMissing \<Rightarrow> Some ts_node__null))"
  by pat_completeness auto
termination
  by (relation "measure (\<lambda>(self, n, b). total_of self)") (auto dest!: child_loop_inside iterate_left)

declare ts_node__child.simps [simp del]

definition ts_node_child :: "TSNode \<Rightarrow> u32 \<Rightarrow> TSNode option" where
  "ts_node_child self wanted = ts_node__child self wanted True"

definition ts_node_named_child :: "TSNode \<Rightarrow> u32 \<Rightarrow> TSNode option" where
  "ts_node_named_child self wanted = ts_node__child self wanted False"

section \<open>Children and descendants at a place\<close>

text \<open>
  The search for the first child that ends behind a byte. The second iterator is the one the code keeps to go on with when
  the node it has entered holds no such child.
\<close>

definition keep_iterator :: "NodeChildIterator \<Rightarrow> TSNode \<Rightarrow> NodeChildIterator option \<Rightarrow> NodeChildIterator option" where
  "keep_iterator it child last_iterator =
     (case ts_node__subtree child of
        Some t \<Rightarrow> if ni_child_index it < ts_subtree_child_count t then Some it else last_iterator
      | None \<Rightarrow> last_iterator)"

definition optional_left :: "NodeChildIterator option \<Rightarrow> nat" where
  "optional_left l = (case l of None \<Rightarrow> 0 | Some it \<Rightarrow> Suc (2 * total_left it))"

lemma keep_iterator_less:
  assumes "ts_node_child_iterator_next it = Some (Some (it', child))" and "ts_node_iterate_children child = Some it''"
  shows "2 * total_left it'' + optional_left (keep_iterator it' child l) < 2 * total_left it + optional_left l"
  using node_enter_less [OF assms] by (auto simp: keep_iterator_def optional_left_def split: option.split)

function first_for_byte_loop ::
  "u32 \<Rightarrow> bool \<Rightarrow> NodeChildIterator \<Rightarrow> NodeChildIterator option \<Rightarrow> TSNode option" where
  "first_for_byte_loop goal include_anonymous it last_iterator =
     (case ts_node_child_iterator_next it of
        None \<Rightarrow> None
      | Some None \<Rightarrow>
          (case last_iterator of
             Some it' \<Rightarrow> first_for_byte_loop goal include_anonymous it' None
           | None \<Rightarrow> Some ts_node__null)
      | Some (Some (it', child)) \<Rightarrow>
          (case (ts_node_end_byte child, ts_node_child_count child) of
             (Some child_end, Some n) \<Rightarrow>
               if goal < child_end then
                 (case ts_node__is_relevant child include_anonymous of
                    None \<Rightarrow> None
                  | Some relevant \<Rightarrow>
                      if relevant then Some child
                      else if 0 < n then
                        (case ts_node_iterate_children child of
                           None \<Rightarrow> None
                         | Some it'' \<Rightarrow>
                             first_for_byte_loop goal include_anonymous it'' (keep_iterator it' child last_iterator))
                      else first_for_byte_loop goal include_anonymous it' last_iterator)
               else first_for_byte_loop goal include_anonymous it' last_iterator
           | _ \<Rightarrow> None))"
  by pat_completeness auto
termination
  by (relation "measure (\<lambda>(goal, b, it, l). 2 * total_left it + optional_left l)")
    (auto dest: node_next_less keep_iterator_less simp: optional_left_def)

declare first_for_byte_loop.simps [simp del]

definition ts_node__first_child_for_byte :: "TSNode \<Rightarrow> u32 \<Rightarrow> bool \<Rightarrow> TSNode option" where
  "ts_node__first_child_for_byte self goal include_anonymous = do {
     it \<leftarrow> ts_node_iterate_children self;
     first_for_byte_loop goal include_anonymous it None
   }"

definition ts_node_first_child_for_byte :: "TSNode \<Rightarrow> u32 \<Rightarrow> TSNode option" where
  "ts_node_first_child_for_byte self byte = ts_node__first_child_for_byte self byte True"

definition ts_node_first_named_child_for_byte :: "TSNode \<Rightarrow> u32 \<Rightarrow> TSNode option" where
  "ts_node_first_named_child_for_byte self byte = ts_node__first_child_for_byte self byte False"

text \<open>
  The search for the smallest node around a range. The two versions differ in the order on places, with \<open>lt\<close> for the
  comparisons of bytes or points; the inner loop gives the child that is entered, if any.
\<close>

function range_loop ::
  "(Length \<Rightarrow> 'a) \<Rightarrow> (TSNode \<Rightarrow> 'a) \<Rightarrow> ('a \<Rightarrow> 'a \<Rightarrow> bool) \<Rightarrow> 'a \<Rightarrow> 'a \<Rightarrow> NodeChildIterator \<Rightarrow> TSNode option option" where
  "range_loop place start lt range_start range_end it =
     (case ts_node_child_iterator_next it of
        None \<Rightarrow> None
      | Some None \<Rightarrow> Some None
      | Some (Some (it', child)) \<Rightarrow>
          let node_end = place (ni_position it')
          in if lt node_end range_end then range_loop place start lt range_start range_end it'
             else if (if start child = node_end then lt node_end range_start
                      else lt node_end range_start \<or> node_end = range_start)
             then range_loop place start lt range_start range_end it'
             else if lt range_start (start child) then Some None
             else Some (Some child))"
  by pat_completeness auto
termination by (relation "measure (\<lambda>(p, s, lt, a, b, it). total_left it)") (auto dest: node_next_less)

declare range_loop.simps [simp del]

lemma range_loop_cases:
  assumes "range_loop place start lt a b it = Some (Some child)"
  shows "\<exists>it' c. ts_node_child_iterator_next it = Some (Some (it', c)) \<and>
    (child = c \<or> range_loop place start lt a b it' = Some (Some child))"
  using assms by (subst (asm) range_loop.simps) (auto simp: Let_def split: option.splits if_splits)

lemma range_loop_inside:
  "range_loop place start lt a b it = Some (Some child) \<Longrightarrow> total_of child \<le> total_left it"
proof (induction it rule: measure_induct_rule [where f = total_left])
  case (less it)
  obtain it' c where nx: "ts_node_child_iterator_next it = Some (Some (it', c))"
    and "child = c \<or> range_loop place start lt a b it' = Some (Some child)"
    using range_loop_cases [OF less.prems] by blast
  then show ?case using less.IH [of it'] node_next_less [OF nx] node_next_left [OF nx] by fastforce
qed

function range_descend ::
  "(Length \<Rightarrow> 'a) \<Rightarrow> (TSNode \<Rightarrow> 'a) \<Rightarrow> ('a \<Rightarrow> 'a \<Rightarrow> bool) \<Rightarrow> 'a \<Rightarrow> 'a \<Rightarrow> bool \<Rightarrow> TSNode \<Rightarrow> TSNode \<Rightarrow> TSNode option" where
  "range_descend place start lt range_start range_end include_anonymous node last_visible_node =
     (case ts_node_iterate_children node of
        None \<Rightarrow> None
      | Some it \<Rightarrow>
          (case range_loop place start lt range_start range_end it of
             None \<Rightarrow> None
           | Some None \<Rightarrow> Some last_visible_node
           | Some (Some child) \<Rightarrow>
               (case ts_node__is_relevant child include_anonymous of
                  None \<Rightarrow> None
                | Some relevant \<Rightarrow>
                    range_descend place start lt range_start range_end include_anonymous child
                      (if relevant then child else last_visible_node))))"
  by pat_completeness auto
termination
  by (relation "measure (\<lambda>(p, s, lt, a, b, i, node, l). total_of node)") (auto dest!: range_loop_inside iterate_left)

declare range_descend.simps [simp del]

definition ts_node__descendant_for_byte_range :: "TSNode \<Rightarrow> u32 \<Rightarrow> u32 \<Rightarrow> bool \<Rightarrow> TSNode option" where
  "ts_node__descendant_for_byte_range self range_start range_end include_anonymous =
     (if range_end < range_start then Some ts_node__null
      else range_descend bytes ts_node_start_byte (<) range_start range_end include_anonymous self self)"

definition ts_node__descendant_for_point_range :: "TSNode \<Rightarrow> TSPoint \<Rightarrow> TSPoint \<Rightarrow> bool \<Rightarrow> TSNode option" where
  "ts_node__descendant_for_point_range self range_start range_end include_anonymous =
     (if point_gt range_start range_end then Some ts_node__null
      else range_descend extent ts_node_start_point point_lt range_start range_end include_anonymous self self)"

definition ts_node_descendant_for_byte_range :: "TSNode \<Rightarrow> u32 \<Rightarrow> u32 \<Rightarrow> TSNode option" where
  "ts_node_descendant_for_byte_range self a b = ts_node__descendant_for_byte_range self a b True"

definition ts_node_named_descendant_for_byte_range :: "TSNode \<Rightarrow> u32 \<Rightarrow> u32 \<Rightarrow> TSNode option" where
  "ts_node_named_descendant_for_byte_range self a b = ts_node__descendant_for_byte_range self a b False"

definition ts_node_descendant_for_point_range :: "TSNode \<Rightarrow> TSPoint \<Rightarrow> TSPoint \<Rightarrow> TSNode option" where
  "ts_node_descendant_for_point_range self a b = ts_node__descendant_for_point_range self a b True"

definition ts_node_named_descendant_for_point_range :: "TSNode \<Rightarrow> TSPoint \<Rightarrow> TSPoint \<Rightarrow> TSNode option" where
  "ts_node_named_descendant_for_point_range self a b = ts_node__descendant_for_point_range self a b False"

section \<open>Parents\<close>

text \<open>
  The child of a node that holds a descendant: one round of the inner loop per child; entering a hidden child is a round of
  the outer loop.
\<close>

function with_descendant_loop :: "TSNode \<Rightarrow> u32 \<Rightarrow> NodeChildIterator \<Rightarrow> TSNode option" where
  "with_descendant_loop descendant to_byte it =
     (let from_byte = ts_node_start_byte descendant; is_empty = (from_byte = to_byte)
      in case ts_node_child_iterator_next it of
           None \<Rightarrow> None
         | Some None \<Rightarrow> Some ts_node__null
         | Some (Some (it', self)) \<Rightarrow>
             (if from_byte < ts_node_start_byte self then Some ts_node__null
              else if same_id self descendant then Some self
              else
                (case (ts_node_child_count self, ts_node__is_relevant self True, ts_node_iterate_children self) of
                   (Some n, Some relevant, Some inside) \<Rightarrow>
                     (let here = bytes (ni_position it');
                          further = (if (if is_empty then here \<le> to_byte else here < to_byte) \<or> n = 0
                                     then with_descendant_loop descendant to_byte it'
                                     else if relevant then Some self
                                     else with_descendant_loop descendant to_byte inside)
                      in if is_empty \<and> to_byte \<le> here \<and> 0 < n
                         then (case with_descendant_loop descendant to_byte inside of
                                 None \<Rightarrow> None
                               | Some child \<Rightarrow> if \<not> ts_node_is_null child then Some (if relevant then self else child) else further)
                         else further)
                 | _ \<Rightarrow> None)))"
  by pat_completeness auto
termination
  by (relation "measure (\<lambda>(d, e, it). total_left it)") (auto dest: node_next_less node_inside_less)

declare with_descendant_loop.simps [simp del]

definition ts_node_child_with_descendant :: "TSNode \<Rightarrow> TSNode \<Rightarrow> TSNode option" where
  "ts_node_child_with_descendant self descendant = do {
     to_byte \<leftarrow> ts_node_end_byte descendant;
     it \<leftarrow> ts_node_iterate_children self;
     with_descendant_loop descendant to_byte it
   }"

text \<open>What is found is below the node, so the walk from the root to a node ends.\<close>

lemma with_descendant_cases:
  assumes "with_descendant_loop d e it = Some r"
  shows "r = ts_node__null \<or> (\<exists>it' c. ts_node_child_iterator_next it = Some (Some (it', c)) \<and>
    (r = c \<or> with_descendant_loop d e it' = Some r \<or>
     (\<exists>inside. ts_node_iterate_children c = Some inside \<and> with_descendant_loop d e inside = Some r)))"
  using assms
  by (subst (asm) with_descendant_loop.simps) (auto simp: Let_def split: option.splits if_splits)

lemma with_descendant_total: "with_descendant_loop d e it = Some r \<Longrightarrow> total_of r \<le> total_left it"
proof (induction it rule: measure_induct_rule [where f = total_left])
  case (less it)
  from with_descendant_cases [OF less.prems] show ?case
  proof (elim disjE exE conjE)
    assume "r = ts_node__null"
    then show ?thesis by (simp add: total_of_def ts_node__null_def ts_node_new_def)
  next
    fix it' c
    assume nx: "ts_node_child_iterator_next it = Some (Some (it', c))" and "r = c"
    then show ?thesis using node_next_left [OF nx] by simp
  next
    fix it' c
    assume nx: "ts_node_child_iterator_next it = Some (Some (it', c))" and "with_descendant_loop d e it' = Some r"
    then show ?thesis using less.IH [of it'] node_next_less [OF nx] by simp
  next
    fix it' c inside
    assume nx: "ts_node_child_iterator_next it = Some (Some (it', c))" "ts_node_iterate_children c = Some inside"
      and "with_descendant_loop d e inside = Some r"
    then show ?thesis using less.IH [of inside] node_enter_less [OF nx] by simp
  qed
qed

lemma child_with_descendant_total:
  "ts_node_child_with_descendant node d = Some r \<Longrightarrow> total_of r < total_of node"
  by (auto simp: ts_node_child_with_descendant_def bind_eq_Some_conv dest!: with_descendant_total iterate_left)

function parent_walk :: "TSNode \<Rightarrow> TSNode \<Rightarrow> TSNode option" where
  "parent_walk self node =
     (case ts_node_child_with_descendant node self of
        None \<Rightarrow> None
      | Some next_node \<Rightarrow>
          if same_id next_node self \<or> ts_node_is_null next_node then Some node else parent_walk self next_node)"
  by pat_completeness auto
termination by (relation "measure (\<lambda>(self, node). total_of node)") (auto dest: child_with_descendant_total)

declare parent_walk.simps [simp del]

definition ts_node_parent :: "TSNode \<Rightarrow> TSNode option" where
  "ts_node_parent self = do {
     tree \<leftarrow> n_tree self;
     let node = ts_tree_root_node tree;
     if same_id node self then Some ts_node__null else parent_walk self node
   }"

section \<open>Siblings\<close>

text \<open>The children below the index, from the last.\<close>

lemma slot_child_total: "slot_child s i = Some c \<Longrightarrow> node_total (slot_tree c) < node_total (slot_tree s)"
proof -
  assume "slot_child s i = Some c"
  then have "slot_tree c \<in> set (ts_subtree_children (slot_tree s))" by (auto simp: slot_child_def item_def split: if_splits)
  then have "node_total (slot_tree c) \<le> sum_list (map node_total (ts_subtree_children (slot_tree s)))"
    by (simp add: member_le_sum_list)
  with node_total_children [of "slot_tree s"] show ?thesis by simp
qed

function trailing_loop :: "Slot \<Rightarrow> nat \<Rightarrow> Slot \<Rightarrow> bool" where
  "trailing_loop self 0 other = False"
| "trailing_loop self (Suc i) other =
     (case slot_child self i of
        None \<Rightarrow> False
      | Some child \<Rightarrow>
          if 0 < ts_subtree_total_bytes (slot_tree child) then False
          else same_ptr child other \<or> trailing_loop child (ts_subtree_child_count (slot_tree child)) other \<or>
               trailing_loop self i other)"
  by pat_completeness auto
termination
  by (relation "measures [\<lambda>(s, i, x). node_total (slot_tree s), \<lambda>(s, i, x). i]") (auto dest: slot_child_total)

definition ts_subtree_has_trailing_empty_descendant :: "Slot \<Rightarrow> Slot \<Rightarrow> bool" where
  "ts_subtree_has_trailing_empty_descendant self other =
     trailing_loop self (ts_subtree_child_count (slot_tree self)) other"

text \<open>
  A round of the outer loops: \<open>Inl\<close> the node to go on with and the node kept for later, each with whether it is relevant,
  or \<open>Inr\<close> the result. The inner loop gives the closest child on the side of the sibling, whether it is relevant, and the
  child that holds the target.
\<close>

type_synonym sibling_state = "TSNode \<times> TSNode \<times> bool"

function earlier_loop ::
  "Slot \<Rightarrow> TSNode \<Rightarrow> u32 \<Rightarrow> bool \<Rightarrow> NodeChildIterator \<Rightarrow> TSNode \<Rightarrow> bool \<Rightarrow> (TSNode \<times> bool \<times> TSNode option) option" where
  "earlier_loop slot self target_end include_anonymous it earlier relevant =
     (case ts_node_child_iterator_next it of
        None \<Rightarrow> None
      | Some None \<Rightarrow> Some (earlier, relevant, None)
      | Some (Some (it', child)) \<Rightarrow>
          (case n_id child of
             None \<Rightarrow> None
           | Some child_slot \<Rightarrow>
               if same_id child self then Some (earlier, relevant, None)
               else if target_end < bytes (ni_position it') then Some (earlier, relevant, Some child)
               else if bytes (ni_position it') = target_end \<and>
                       (ts_subtree_total_bytes (slot_tree slot) \<noteq> 0 \<or>
                        ts_subtree_has_trailing_empty_descendant child_slot slot)
               then Some (earlier, relevant, Some child)
               else
                 (case (ts_node__is_relevant child include_anonymous, ts_node__relevant_child_count child include_anonymous) of
                    (Some child_relevant, Some n) \<Rightarrow>
                      if child_relevant then earlier_loop slot self target_end include_anonymous it' child True
                      else if 0 < n then earlier_loop slot self target_end include_anonymous it' child False
                      else earlier_loop slot self target_end include_anonymous it' earlier relevant
                  | _ \<Rightarrow> None)))"
  by pat_completeness auto
termination by (relation "measure (\<lambda>(s, n, t, b, it, e, r). total_left it)") (auto dest: node_next_less)

declare earlier_loop.simps [simp del]

definition earlier_round :: "TSNode \<Rightarrow> bool \<Rightarrow> sibling_state \<Rightarrow> (sibling_state + TSNode) option" where
  "earlier_round self include_anonymous st =
     (let (node, earlier_node, earlier_node_is_relevant) = st
      in if ts_node_is_null node then Some (Inr ts_node__null)
         else do {
           slot \<leftarrow> n_id self;
           target_end \<leftarrow> ts_node_end_byte self;
           it \<leftarrow> ts_node_iterate_children node;
           (earlier_child, earlier_child_is_relevant, found) \<leftarrow>
             earlier_loop slot self target_end include_anonymous it ts_node__null False;
           Some (case found of
                   Some child \<Rightarrow>
                     Inl (if \<not> ts_node_is_null earlier_child then (child, earlier_child, earlier_child_is_relevant)
                          else (child, earlier_node, earlier_node_is_relevant))
                 | None \<Rightarrow>
                     if earlier_child_is_relevant then Inr earlier_child
                     else if \<not> ts_node_is_null earlier_child then Inl (earlier_child, earlier_node, earlier_node_is_relevant)
                     else if earlier_node_is_relevant then Inr earlier_node
                     else Inl (earlier_node, ts_node__null, False))
         })"

function later_loop_node ::
  "Slot \<Rightarrow> TSNode \<Rightarrow> u32 \<Rightarrow> bool \<Rightarrow> NodeChildIterator \<Rightarrow> TSNode \<Rightarrow> (TSNode \<times> bool \<times> TSNode) option" where
  "later_loop_node slot self target_end include_anonymous it containing =
     (case ts_node_child_iterator_next it of
        None \<Rightarrow> None
      | Some None \<Rightarrow> Some (ts_node__null, False, containing)
      | Some (Some (it', child)) \<Rightarrow>
          if bytes (ni_position it') \<le> target_end then later_loop_node slot self target_end include_anonymous it' containing
          else
            (case n_id child of
               None \<Rightarrow> None
             | Some child_slot \<Rightarrow>
                 (let from_byte = ts_node_start_byte self; child_start = ts_node_start_byte child;
                      contains_target = (if from_byte = target_end then child_start < from_byte else child_start \<le> from_byte)
                  in if contains_target then
                       later_loop_node slot self target_end include_anonymous it' (if \<not> same_ptr child_slot slot then child else containing)
                     else
                       (case (ts_node__is_relevant child include_anonymous, ts_node__relevant_child_count child include_anonymous) of
                          (Some child_relevant, Some n) \<Rightarrow>
                            if child_relevant then Some (child, True, containing)
                            else if 0 < n then Some (child, False, containing)
                            else later_loop_node slot self target_end include_anonymous it' containing
                        | _ \<Rightarrow> None))))"
  by pat_completeness auto
termination by (relation "measure (\<lambda>(s, n, t, b, it, c). total_left it)") (auto dest: node_next_less)

declare later_loop_node.simps [simp del]

definition later_round :: "TSNode \<Rightarrow> bool \<Rightarrow> sibling_state \<Rightarrow> (sibling_state + TSNode) option" where
  "later_round self include_anonymous st =
     (let (node, later_node, later_node_is_relevant) = st
      in if ts_node_is_null node then Some (Inr ts_node__null)
         else do {
           slot \<leftarrow> n_id self;
           target_end \<leftarrow> ts_node_end_byte self;
           it \<leftarrow> ts_node_iterate_children node;
           (later_child, later_child_is_relevant, containing) \<leftarrow>
             later_loop_node slot self target_end include_anonymous it ts_node__null;
           Some (if \<not> ts_node_is_null containing then
                   Inl (if \<not> ts_node_is_null later_child then (containing, later_child, later_child_is_relevant)
                        else (containing, later_node, later_node_is_relevant))
                 else if later_child_is_relevant then Inr later_child
                 else if \<not> ts_node_is_null later_child then Inl (later_child, later_node, later_node_is_relevant)
                 else if later_node_is_relevant then Inr later_node
                 else Inl (later_node, later_node, later_node_is_relevant))
         })"

text \<open>Nothing bounds the outer loops: \<open>None\<close> where they run forever, \<open>Some None\<close> where a read is outside an array.\<close>

partial_function (option) sibling_rounds ::
  "(sibling_state \<Rightarrow> (sibling_state + TSNode) option) \<Rightarrow> sibling_state \<Rightarrow> TSNode option option" where
  "sibling_rounds step st =
     (case step st of
        None \<Rightarrow> Some None
      | Some (Inr node) \<Rightarrow> Some (Some node)
      | Some (Inl st') \<Rightarrow> sibling_rounds step st')"

declare sibling_rounds.simps [code]

definition start_rounds :: "(sibling_state \<Rightarrow> (sibling_state + TSNode) option) \<Rightarrow> TSNode \<Rightarrow> TSNode option option" where
  "start_rounds step self =
     (case ts_node_parent self of
        None \<Rightarrow> Some None
      | Some node \<Rightarrow> sibling_rounds step (node, ts_node__null, False))"

definition ts_node__prev_sibling :: "TSNode \<Rightarrow> bool \<Rightarrow> TSNode option option" where
  "ts_node__prev_sibling self include_anonymous = start_rounds (earlier_round self include_anonymous) self"

definition ts_node__next_sibling :: "TSNode \<Rightarrow> bool \<Rightarrow> TSNode option option" where
  "ts_node__next_sibling self include_anonymous = start_rounds (later_round self include_anonymous) self"

definition ts_node_next_sibling :: "TSNode \<Rightarrow> TSNode option option" where
  "ts_node_next_sibling self = ts_node__next_sibling self True"

definition ts_node_next_named_sibling :: "TSNode \<Rightarrow> TSNode option option" where
  "ts_node_next_named_sibling self = ts_node__next_sibling self False"

definition ts_node_prev_sibling :: "TSNode \<Rightarrow> TSNode option option" where
  "ts_node_prev_sibling self = ts_node__prev_sibling self True"

definition ts_node_prev_named_sibling :: "TSNode \<Rightarrow> TSNode option option" where
  "ts_node_prev_named_sibling self = ts_node__prev_sibling self False"

section \<open>Fields\<close>

text \<open>The entries of a field in the map of a production, which is sorted by field: the two scans of its ends.\<close>

definition field_slice :: "TSFieldId \<Rightarrow> TSFieldMapEntry list \<Rightarrow> TSFieldMapEntry list" where
  "field_slice f field_map =
     rev (dropWhile (\<lambda>m. f < field_id m) (rev (dropWhile (\<lambda>m. field_id m < f) field_map)))"

definition node_field_map :: "TSNode \<Rightarrow> TSFieldMapEntry list option" where
  "node_field_map self = do {
     lang \<leftarrow> ts_node_language self;
     t \<leftarrow> ts_node__subtree self;
     ts_language_field_map lang (ucast (ts_subtree_production_id t))
   }"

text \<open>The entries and the iterator with which the search in a node starts: \<open>Some None\<close> where it gives the null node at once.\<close>

definition field_start :: "TSNode \<Rightarrow> TSFieldId \<Rightarrow> (NodeChildIterator \<times> TSFieldMapEntry list) option option" where
  "field_start self f =
     (case ts_node_child_count self of
        None \<Rightarrow> None
      | Some n \<Rightarrow>
          if f = 0 \<or> n = 0 then Some None
          else do {
            field_map \<leftarrow> node_field_map self;
            it \<leftarrow> ts_node_iterate_children self;
            Some (if field_slice f field_map = [] then None else Some (it, field_slice f field_map))
          })"

lemma field_start_less:
  assumes "ts_node_child_iterator_next it = Some (Some (it', child))" and "field_start child f = Some (Some (it'', fm))"
  shows "total_left it'' < total_left it"
  using node_enter_less [OF assms(1)] assms(2) by (auto simp: field_start_def bind_eq_Some_conv split: option.splits if_splits)

text \<open>
  The scan of the children. An inherited entry is looked up in the child; the last one takes the place of the search, as the
  code jumps back to its start.
\<close>

function field_loop :: "TSFieldId \<Rightarrow> NodeChildIterator \<Rightarrow> TSFieldMapEntry list \<Rightarrow> TSNode option" where
  "field_loop f it [] = Some ts_node__null"
| "field_loop f it (m # ms) =
     (case ts_node_child_iterator_next it of
        None \<Rightarrow> None
      | Some None \<Rightarrow> Some ts_node__null
      | Some (Some (it', child)) \<Rightarrow>
          (case (ts_node_is_extra child, ts_node__is_relevant child True, ts_node_child_count child) of
             (Some extra, Some relevant, Some n) \<Rightarrow>
               if extra \<or> ni_structural_child_index it' - 1 < unat (child_index m) then field_loop f it' (m # ms)
               else if inherited m then
                 (case field_start child f of
                    None \<Rightarrow> None
                  | Some None \<Rightarrow> if ms = [] then Some ts_node__null else field_loop f it' ms
                  | Some (Some (it'', fm)) \<Rightarrow>
                      (case field_loop f it'' fm of
                         None \<Rightarrow> None
                       | Some result \<Rightarrow> if ms = [] \<or> \<not> ts_node_is_null result then Some result else field_loop f it' ms))
               else if relevant then Some child
               else if 0 < n then ts_node_child child 0
               else field_loop f it' ms
           | _ \<Rightarrow> None))"
  by pat_completeness auto
termination
  by (relation "measure (\<lambda>(f, it, ms). total_left it)") (auto dest: node_next_less field_start_less)

declare field_loop.simps [simp del]

definition ts_node_child_by_field_id :: "TSNode \<Rightarrow> TSFieldId \<Rightarrow> TSNode option" where
  "ts_node_child_by_field_id self f = do {
     start \<leftarrow> field_start self f;
     case start of None \<Rightarrow> Some ts_node__null | Some (it, fm) \<Rightarrow> field_loop f it fm
   }"

definition ts_node_child_by_field_name :: "strncmp \<Rightarrow> TSNode \<Rightarrow> string \<Rightarrow> TSNode option" where
  "ts_node_child_by_field_name strncmp self name = do {
     lang \<leftarrow> ts_node_language self;
     f \<leftarrow> ts_language_field_id_for_name strncmp lang name;
     ts_node_child_by_field_id self f
   }"

text \<open>The index is that of the child among the ones that are not extra, less 1: -1 stands for \<open>UINT32_MAX\<close>.\<close>

definition ts_node__field_name_from_language :: "TSNode \<Rightarrow> int \<Rightarrow> string option option" where
  "ts_node__field_name_from_language self i = do {
     lang \<leftarrow> ts_node_language self;
     field_map \<leftarrow> node_field_map self;
     case List.find (\<lambda>m. \<not> inherited m \<and> uint (child_index m) = i) field_map of
       Some m \<Rightarrow> map_option Some (item (field_names lang) (unat (field_id m)))
     | None \<Rightarrow> Some None
   }"

text \<open>
  The name of the field of a child. The two functions of the source differ in which children they count. A name that is
  found for a hidden node on the way holds for the child, unless a later one replaces it.
\<close>

datatype FieldStep = FieldFound "string option" | FieldInside TSNode u32 "string option" | FieldMissing

function field_name_loop ::
  "bool \<Rightarrow> TSNode \<Rightarrow> u32 \<Rightarrow> string option \<Rightarrow> NodeChildIterator \<Rightarrow> u32 \<Rightarrow> FieldStep option" where
  "field_name_loop include_anonymous result wanted inherited_field_name it index =
     (case ts_node_child_iterator_next it of
        None \<Rightarrow> None
      | Some None \<Rightarrow> Some FieldMissing
      | Some (Some (it', child)) \<Rightarrow>
          (case (ts_node__is_relevant child include_anonymous, ts_node__relevant_child_count child include_anonymous,
                 ts_node_is_extra child) of
             (Some relevant, Some grandchild_count, Some extra) \<Rightarrow>
               (let name = map_option (\<lambda>n. if n \<noteq> None then n else inherited_field_name)
                      (ts_node__field_name_from_language result (int (ni_structural_child_index it') - 1))
                in if relevant then
                     (if index = wanted then (if extra then Some (FieldFound None) else map_option FieldFound name)
                      else field_name_loop include_anonymous result wanted inherited_field_name it' (index + 1))
                   else if wanted - index < grandchild_count then map_option (FieldInside child (wanted - index)) name
                   else field_name_loop include_anonymous result wanted inherited_field_name it' (index + grandchild_count))
           | _ \<Rightarrow> None))"
  by pat_completeness auto
termination by (relation "measure (\<lambda>(b, r, w, n, it, i). total_left it)") (auto dest: node_next_less)

declare field_name_loop.simps [simp del]

lemma field_name_cases:
  assumes "field_name_loop b result w name it i = Some (FieldInside child j n)"
  shows "\<exists>it' c. ts_node_child_iterator_next it = Some (Some (it', c)) \<and>
    (child = c \<or> (\<exists>i'. field_name_loop b result w name it' i' = Some (FieldInside child j n)))"
  using assms by (subst (asm) field_name_loop.simps) (auto simp: Let_def split: option.splits if_splits)

lemma field_name_inside:
  "field_name_loop b result w name it i = Some (FieldInside child j n) \<Longrightarrow> total_of child \<le> total_left it"
proof (induction it arbitrary: i rule: measure_induct_rule [where f = total_left])
  case (less it)
  obtain it' c where nx: "ts_node_child_iterator_next it = Some (Some (it', c))"
    and c: "child = c \<or> (\<exists>i'. field_name_loop b result w name it' i' = Some (FieldInside child j n))"
    using field_name_cases [OF less.prems] by blast
  then show ?case using less.IH [of it'] node_next_less [OF nx] node_next_left [OF nx] by fastforce
qed

function field_name_descend :: "bool \<Rightarrow> TSNode \<Rightarrow> u32 \<Rightarrow> string option \<Rightarrow> string option option" where
  "field_name_descend include_anonymous result wanted inherited_field_name =
     (case ts_node_iterate_children result of
        None \<Rightarrow> None
      | Some it \<Rightarrow>
          (case field_name_loop include_anonymous result wanted inherited_field_name it 0 of
             None \<Rightarrow> None
           | Some (FieldFound name) \<Rightarrow> Some name
           | Some (FieldInside child i name) \<Rightarrow> field_name_descend include_anonymous child i name
           | Some FieldMissing \<Rightarrow> Some None))"
  by pat_completeness auto
termination
  by (relation "measure (\<lambda>(b, r, w, n). total_of r)") (auto dest!: field_name_inside iterate_left)

declare field_name_descend.simps [simp del]

definition ts_node_field_name_for_child :: "TSNode \<Rightarrow> u32 \<Rightarrow> string option option" where
  "ts_node_field_name_for_child self wanted = field_name_descend True self wanted None"

definition ts_node_field_name_for_named_child :: "TSNode \<Rightarrow> u32 \<Rightarrow> string option option" where
  "ts_node_field_name_for_named_child self wanted = field_name_descend False self wanted None"

end
