(* ===== verification/Node_Children.thy ===== *)
theory Node_Children
  imports Node Cursor_Text
begin

text \<open>
  Nodes found by an index are the nodes that a cursor walks over: the node at a path, the steps of the iterator over its
  children, and the search for the child with an index.
\<close>

section \<open>The node at a path\<close>

definition path_entry :: "TSTree \<Rightarrow> nat list \<Rightarrow> TreeCursorEntry" where
  "path_entry tree p = fst (entry_at_path (t_language tree) True (root_entry tree) p)"

definition node_at :: "TSTree \<Rightarrow> nat list \<Rightarrow> TSNode" where
  "node_at tree p =
     ts_node_new (Some tree) (Some (e_subtree (path_entry tree p))) (e_position (path_entry tree p))
       (shown_alias (t_language tree) (t_root tree) p)"

lemma cursor_node_at:
  assumes "readable (t_language tree) (t_root tree)" and "subtree_at (t_root tree) p = Some s"
  shows "ts_tree_cursor_current_node (tree_cursor tree p) = Some (node_at tree p)"
  using current_node_at [of tree p s] assms by (cases "entry_at_path (t_language tree) True (root_entry tree) p")
    (simp add: node_at_def path_entry_def readable_def)

lemma path_entry_tree: "subtree_at (t_root tree) p = Some s \<Longrightarrow> entry_tree (path_entry tree p) = s"
  using entry_at_path_tree [of "root_entry tree" p s] by (simp add: path_entry_def)

lemma path_entry_path: "slot_path (e_subtree (path_entry tree p)) = p"
proof -
  have "slot_path (e_subtree (fst (entry_at_path lang v e p))) = slot_path (e_subtree e) @ p" for lang v e
    by (induction p arbitrary: v e) (simp_all add: child_entry_def)
  then show ?thesis by (simp add: path_entry_def root_entry_def root_slot_def)
qed

lemma path_entry_child:
  assumes "subtree_at (t_root tree) p = Some t"
  shows "e_subtree (path_entry tree (p @ [i])) = \<lparr>slot_path = p @ [i], slot_tree = ts_subtree_children t ! i\<rparr>"
    "e_position (path_entry tree (p @ [i])) = iter_position (e_position (path_entry tree p)) t i"
  using path_entry_tree [OF assms] path_entry_path [of tree p]
  by (cases "entry_at_path (t_language tree) True (root_entry tree) p";
      simp add: path_entry_def entry_at_path_append child_entry_def)+

lemma shown_alias_child:
  assumes "subtree_at (t_root tree) p = Some t" and "i < ts_subtree_child_count t"
  shows "shown_alias (t_language tree) (t_root tree) (p @ [i]) =
    (if ts_subtree_extra (ts_subtree_children t ! i) then 0 else alias_of (t_language tree) t i)"
  using assms by (simp add: shown_alias_def subtree_at_append item_def ts_subtree_child_count_def)

lemma node_at_reads:
  assumes "subtree_at (t_root tree) p = Some s"
  shows "ts_node__subtree (node_at tree p) = Some s" "ts_node_language (node_at tree p) = Some (t_language tree)"
    "n_tree (node_at tree p) = Some tree" "ts_node_child_count (node_at tree p) = Some (ts_subtree_visible_child_count s)"
    "n_id (node_at tree p) = Some (e_subtree (path_entry tree p))"
  using path_entry_tree [OF assms]
  by (simp_all add: node_at_def ts_node_new_def ts_node__subtree_def ts_node_language_def ts_node_child_count_def)

lemma ucast_symbol_0 [simp]: "(ucast (a :: u16) :: u32) = 0 \<longleftrightarrow> a = 0"
  by (simp add: word_unat_eq_iff unsigned_ucast_eq unsigned_take_bit_eq take_bit_nat_eq_self_iff)

lemma relevant_child:
  assumes "subtree_at (t_root tree) p = Some t" and "i < ts_subtree_child_count t"
  shows "ts_node__is_relevant (node_at tree (p @ [i])) True = Some (child_shown (t_language tree) t i)"
proof -
  have c: "subtree_at (t_root tree) (p @ [i]) = Some (ts_subtree_children t ! i)"
    using assms by (simp add: subtree_at_append item_def ts_subtree_child_count_def)
  have "ts_node__alias (node_at tree (p @ [i])) = ucast (shown_alias (t_language tree) (t_root tree) (p @ [i]))"
    by (simp add: node_at_def ts_node_new_def ts_node__alias_def)
  with node_at_reads [OF c] shown_alias_child [OF assms] show ?thesis
    by (auto simp: ts_node__is_relevant_def child_shown_def Let_def)
qed

section \<open>The iterator over the children\<close>

fun end_position :: "Length \<Rightarrow> Subtree \<Rightarrow> nat \<Rightarrow> Length" where
  "end_position pos t 0 = pos"
| "end_position pos t (Suc i) = length_add (iter_position pos t i) (ts_subtree_size (ts_subtree_children t ! i))"

definition node_iter :: "TSTree \<Rightarrow> nat list \<Rightarrow> Subtree \<Rightarrow> nat \<Rightarrow> NodeChildIterator" where
  "node_iter tree p t i =
     \<lparr>ni_parent = Some (e_subtree (path_entry tree p)), ni_tree = Some tree,
      ni_position = end_position (e_position (path_entry tree p)) t i, ni_child_index = i,
      ni_structural_child_index = structural_index t i,
      ni_alias_sequence = ts_language_alias_sequence (t_language tree) (unat (ts_subtree_production_id t))\<rparr>"

lemma iterate_node_at:
  assumes "subtree_at (t_root tree) p = Some t" and "ts_subtree_child_count t \<noteq> 0"
  shows "ts_node_iterate_children (node_at tree p) = Some (node_iter tree p t 0)"
  using path_entry_tree [OF assms(1)] assms(2)
  by (simp add: ts_node_iterate_children_def node_at_def ts_node_new_def ts_node_start_byte_def ts_node_start_point_def node_iter_def)

lemma iterate_leaf_at:
  assumes "subtree_at (t_root tree) p = Some t" and "ts_subtree_child_count t = 0"
  shows "\<exists>it. ts_node_iterate_children (node_at tree p) = Some it \<and> ts_node_child_iterator_next it = Some None"
  using path_entry_tree [OF assms(1)] assms(2)
  by (simp add: ts_node_iterate_children_def node_at_reads(3,5) [OF assms(1)] ts_node_child_iterator_next_def)

lemma node_next_at:
  assumes rd: "readable (t_language tree) (t_root tree)" and p: "subtree_at (t_root tree) p = Some t"
    and i: "i < ts_subtree_child_count t"
  shows "ts_node_child_iterator_next (node_iter tree p t i) = Some (Some (node_iter tree p t (Suc i), node_at tree (p @ [i])))"
proof -
  have fit: "aliases_fit (t_language tree) t" using readable_at [OF rd p] by (simp add: readable_def)
  let ?e = "path_entry tree p" and ?c = "ts_subtree_children t ! i"
  have child: "slot_child (e_subtree ?e) i = Some \<lparr>slot_path = p @ [i], slot_tree = ?c\<rparr>"
    using i path_entry_tree [OF p] path_entry_path [of tree p] by (simp add: slot_child_def item_def ts_subtree_child_count_def)
  have pos: "(if 0 < i then length_add (end_position (e_position ?e) t i) (ts_subtree_padding ?c)
      else end_position (e_position ?e) t i) = iter_position (e_position ?e) t i"
    using i by (cases i) (simp_all add: Let_def)
  have al: "(if \<not> ts_subtree_extra ?c
      then (case ts_language_alias_sequence (t_language tree) (unat (ts_subtree_production_id t)) of
              Some als \<Rightarrow> item als (structural_index t i) | None \<Rightarrow> Some 0)
      else Some 0) = Some (shown_alias (t_language tree) (t_root tree) (p @ [i]))"
    using alias_of_read(1) [OF fit i] shown_alias_child [OF p i] by (auto simp: alias_sequence_at split: option.splits)
  show ?thesis
    using i child pos al path_entry_tree [OF p] structural_index_Suc [OF i]
    by (cases "ts_language_alias_sequence (t_language tree) (unat (ts_subtree_production_id t))"; cases "ts_subtree_extra ?c"; cases i)
      (auto simp: ts_node_child_iterator_next_def ts_node_child_iterator_done_def node_iter_def node_at_def path_entry_child [OF p] Let_def)
qed

lemma node_next_end:
  "subtree_at (t_root tree) p = Some t \<Longrightarrow> ts_subtree_child_count t = i \<Longrightarrow>
     ts_node_child_iterator_next (node_iter tree p t i) = Some None"
  using path_entry_tree [of tree p t]
  by (simp add: ts_node_child_iterator_next_def ts_node_child_iterator_done_def node_iter_def)

section \<open>The child with an index\<close>

text \<open>What the search reports for a path: the child, or the hidden node on the way with the index of the path there.\<close>

definition child_step :: "TSTree \<Rightarrow> nat list \<Rightarrow> Subtree \<Rightarrow> nat list \<Rightarrow> ChildStep \<Rightarrow> bool" where
  "child_step tree p t q step \<longleftrightarrow>
     (case step of
        ChildFound child \<Rightarrow> tl q = [] \<and> child = node_at tree (p @ [hd q])
      | ChildInside child n \<Rightarrow>
          tl q \<noteq> [] \<and> child = node_at tree (p @ [hd q]) \<and>
          (let qs = child_paths (t_language tree) (ts_subtree_children t ! hd q) in unat n < length qs \<and> qs ! unat n = tl q)
      | ChildMissing \<Rightarrow> False)"

text \<open>What it reports for the path at an index of a list.\<close>

definition child_result :: "TSTree \<Rightarrow> nat list \<Rightarrow> Subtree \<Rightarrow> nat list list \<Rightarrow> nat \<Rightarrow> ChildStep option \<Rightarrow> bool" where
  "child_result tree p t qs k result \<longleftrightarrow>
     (\<exists>step. result = Some step \<and> (if k < length qs then child_step tree p t (qs ! k) step else step = ChildMissing))"

lemma child_result_append:
  "length xs \<le> k \<Longrightarrow> child_result tree p t (xs @ ys) k r = child_result tree p t ys (k - length xs) r"
  by (simp add: child_result_def nth_append less_diff_conv2 add.commute)

lemma child_loop_step:
  assumes rd: "readable (t_language tree) (t_root tree)" and p: "subtree_at (t_root tree) p = Some t"
    and i: "i < ts_subtree_child_count t"
  shows "child_loop True wanted (node_iter tree p t i) index =
    (if child_shown (t_language tree) t i then
       (if index = wanted then Some (ChildFound (node_at tree (p @ [i]))) else child_loop True wanted (node_iter tree p t (Suc i)) (index + 1))
     else if unat (wanted - index) < length (child_paths (t_language tree) (ts_subtree_children t ! i))
     then Some (ChildInside (node_at tree (p @ [i])) (wanted - index))
     else child_loop True wanted (node_iter tree p t (Suc i)) (index + of_nat (length (child_paths (t_language tree) (ts_subtree_children t ! i)))))"
proof -
  let ?c = "ts_subtree_children t ! i"
  have c: "subtree_at (t_root tree) (p @ [i]) = Some ?c"
    using p i by (simp add: subtree_at_append item_def ts_subtree_child_count_def)
  have u: "unat (ts_subtree_visible_child_count ?c) = length (child_paths (t_language tree) ?c)"
    using readable_counts(1) [OF readable_at [OF rd c]] .
  then have n: "ts_subtree_visible_child_count ?c = of_nat (length (child_paths (t_language tree) ?c))"
    using unat_u32_bound [of "ts_subtree_visible_child_count ?c"] by (simp add: word_unat_eq_iff)
  have "ts_node__relevant_child_count (node_at tree (p @ [i])) True = Some (ts_subtree_visible_child_count ?c)"
    using node_at_reads(1) [OF c] by (cases ?c) (simp_all add: ts_node__relevant_child_count_def ts_subtree_child_count_def)
  then show ?thesis
    using node_next_at [OF rd p i] relevant_child [OF p i] u
    by (subst child_loop.simps) (simp add: n word_less_nat_alt)
qed

lemma child_loop_at:
  assumes rd: "readable (t_language tree) (t_root tree)" and p: "subtree_at (t_root tree) p = Some t"
  shows "i \<le> ts_subtree_child_count t \<Longrightarrow> unat index \<le> unat wanted \<Longrightarrow>
    unat index + length (child_paths_from (t_language tree) t i) < 2 ^ 32 \<Longrightarrow>
    child_result tree p t (child_paths_from (t_language tree) t i) (unat wanted - unat index)
      (child_loop True wanted (node_iter tree p t i) index)"
proof (induction "ts_subtree_child_count t - i" arbitrary: i index)
  case 0
  then show ?case using node_next_end [OF p, of i] by (subst child_loop.simps) (simp add: child_result_def)
next
  case (Suc n)
  let ?lang = "t_language tree" and ?c = "ts_subtree_children t ! i" and ?k = "unat wanted - unat index"
  have i: "i < ts_subtree_child_count t" using Suc by simp
  note step = child_paths_from_step [OF i, of ?lang] and loop = child_loop_step [OF rd p i, of wanted index]
  note IH = Suc.hyps(1) [of "Suc i"]
  have k: "unat (wanted - index) = ?k" using Suc.prems(2) by (simp add: unat_sub word_le_nat_alt)
  show ?case
  proof (cases "child_shown ?lang t i")
    case True
    then have qs: "child_paths_from ?lang t i = [[i]] @ child_paths_from ?lang t (Suc i)" using step by (simp add: child_part_def)
    show ?thesis
    proof (cases "index = wanted")
      case eq: True
      then show ?thesis using True loop qs by (simp add: child_result_def child_step_def)
    next
      case False
      then have lt: "unat index < unat wanted" using Suc.prems(2) by (simp add: word_unat_eq_iff)
      then have one: "unat (index + 1) = unat index + 1" using unat_u32_bound [of wanted] by (simp add: unat_add_u32)
      have "child_result tree p t (child_paths_from ?lang t i) ?k r =
          child_result tree p t (child_paths_from ?lang t (Suc i)) (unat wanted - unat (index + 1)) r" for r
        unfolding qs using lt one by (subst child_result_append) simp_all
      with IH [of "index + 1"] Suc i one lt qs loop True False show ?thesis by simp
    qed
  next
    case False
    let ?m = "length (child_paths ?lang ?c)"
    have qs: "child_paths_from ?lang t i = map ((#) i) (child_paths ?lang ?c) @ child_paths_from ?lang t (Suc i)"
      using False step by (simp add: child_part_def)
    show ?thesis
    proof (cases "?k < ?m")
      case True
      have "child_paths ?lang ?c ! ?k \<noteq> []" using child_paths_nonempty [of ?lang ?c] nth_mem [OF True] by metis
      then show ?thesis using True False loop k qs by (simp add: child_result_def child_step_def nth_append Let_def)
    next
      case past: False
      have idx: "unat (index + of_nat ?m) = unat index + ?m" using Suc.prems(3) qs by (simp add: unat_add_u32)
      have "child_result tree p t (child_paths_from ?lang t i) ?k r =
          child_result tree p t (child_paths_from ?lang t (Suc i)) (unat wanted - unat (index + of_nat ?m)) r" for r
        unfolding qs using past idx by (subst child_result_append) simp_all
      with IH [of "index + of_nat ?m"] Suc i idx past qs loop False k show ?thesis by simp
    qed
  qed
qed

lemma node_child_at:
  assumes rd: "readable (t_language tree) (t_root tree)"
  shows "subtree_at (t_root tree) p = Some t \<Longrightarrow>
    ts_node__child (node_at tree p) wanted True =
      Some (let qs = child_paths (t_language tree) t
            in if unat wanted < length qs then node_at tree (p @ qs ! unat wanted) else ts_node__null)"
proof (induction t arbitrary: p wanted rule: measure_induct_rule [where f = size])
  case (less t)
  let ?lang = "t_language tree" and ?qs = "child_paths (t_language tree) t"
  show ?case
  proof (cases "ts_subtree_child_count t = 0")
    case True
    with iterate_leaf_at [OF less.prems] show ?thesis
      by (subst ts_node__child.simps) (auto simp: child_loop.simps child_paths_from_0)
  next
    case False
    note it = iterate_node_at [OF less.prems False]
    have "length ?qs < 2 ^ 32"
      using child_paths_le [of ?lang t] readable_at [OF rd less.prems] counts_paths [of ?lang t] by (simp add: readable_def)
    then have "child_result tree p t ?qs (unat wanted) (child_loop True wanted (node_iter tree p t 0) 0)"
      using child_loop_at [OF rd less.prems, of 0 0 wanted] child_paths_from_0 [of ?lang t] by simp
    then obtain step where step: "child_loop True wanted (node_iter tree p t 0) 0 = Some step"
      "if unat wanted < length ?qs then child_step tree p t (?qs ! unat wanted) step else step = ChildMissing"
      by (auto simp: child_result_def)
    show ?thesis
    proof (cases step)
      case (ChildFound child)
      then have k: "unat wanted < length ?qs" "tl (?qs ! unat wanted) = []" "child = node_at tree (p @ [hd (?qs ! unat wanted)])"
        using step(2) by (auto simp: child_step_def split: if_splits)
      have "?qs ! unat wanted \<noteq> []" using child_paths_nonempty [of ?lang t] nth_mem [OF k(1)] by metis
      with k(2) have "?qs ! unat wanted = [hd (?qs ! unat wanted)]" by (cases "?qs ! unat wanted") simp_all
      with ChildFound k it step(1) show ?thesis by (subst ts_node__child.simps) simp
    next
      case (ChildInside child n)
      let ?q = "?qs ! unat wanted"
      have k: "unat wanted < length ?qs" "tl ?q \<noteq> []" "child = node_at tree (p @ [hd ?q])"
        and n: "unat n < length (child_paths ?lang (ts_subtree_children t ! hd ?q))"
          "child_paths ?lang (ts_subtree_children t ! hd ?q) ! unat n = tl ?q"
        using step(2) ChildInside by (auto simp: child_step_def Let_def split: if_splits)
      have q: "?q = hd ?q # tl ?q" using k(2) by (cases ?q) simp_all
      have "way ?lang t ?q" using child_paths_after id_take_nth_drop [OF k(1)] by metis
      with q have h: "hd ?q < ts_subtree_child_count t" by (metis way.simps(2))
      have "subtree_at (t_root tree) (p @ [hd ?q]) = Some (ts_subtree_children t ! hd ?q)"
        using less.prems h by (simp add: subtree_at_append item_def ts_subtree_child_count_def)
      from less.IH [OF nth_child_smaller [OF h] this, of n] n q k it step(1) ChildInside show ?thesis
        by (subst ts_node__child.simps) (simp add: Let_def)
    next
      case ChildMissing
      with it step show ?thesis by (subst ts_node__child.simps) (auto simp: child_step_def split: if_splits)
    qed
  qed
qed

end
