(* ===== verification/Node_Text.thy ===== *)
theory Node_Text
  imports Node_Children "HOL-Library.Sublist"
begin

text \<open>
  Nodes found by their place in the text: where the node at a path starts and ends, the parent of a node, and the smallest
  node around a range.
\<close>

section \<open>Places\<close>

definition total_nat :: "Subtree \<Rightarrow> nat" where
  "total_nat t = unat (ts_subtree_total_bytes t)"

text \<open>Where the text of the children of a node starts, and of the node at a path, white space included.\<close>

definition child_offset :: "Subtree \<Rightarrow> nat \<Rightarrow> nat" where
  "child_offset t k = sum_list (map total_nat (take k (ts_subtree_children t)))"

fun text_offset :: "Subtree \<Rightarrow> nat list \<Rightarrow> nat" where
  "text_offset t [] = 0"
| "text_offset t (k # p) = child_offset t k + text_offset (ts_subtree_children t ! k) p"

definition start_of :: "Subtree \<Rightarrow> nat list \<Rightarrow> nat" where
  "start_of t p = (case subtree_at t p of Some s \<Rightarrow> text_offset t p + padding_bytes s | None \<Rightarrow> 0)"

definition end_of :: "Subtree \<Rightarrow> nat list \<Rightarrow> nat" where
  "end_of t p = (case subtree_at t p of Some s \<Rightarrow> text_offset t p + total_nat s | None \<Rightarrow> 0)"

lemma spans_list_total: "spans_list M cs w \<Longrightarrow> M < 2 ^ 32 \<Longrightarrow> sum_list (map total_nat cs) = length w"
proof (induction cs arbitrary: w)
  case (Cons c cs)
  then obtain u v where "w = u @ v" "spans M c u" "spans_list M cs v" using spans_list_Cons by blast
  with Cons.IH [of v] Cons.prems(2) measured_total(2) [OF spans_measured] show ?case by (auto simp: total_nat_def)
qed simp

lemma spans_nth:
  assumes "spans_list M cs w" and "M < 2 ^ 32" and "k < length cs"
  shows "spans M (cs ! k) (take (total_nat (cs ! k)) (drop (sum_list (map total_nat (take k cs))) w))"
  using assms
proof (induction cs arbitrary: w k)
  case (Cons c cs)
  obtain u v where u: "w = u @ v" "spans M c u" "spans_list M cs v" using Cons.prems(1) spans_list_Cons [OF assms(2)] by blast
  have "length u = total_nat c" using measured_total(2) [OF spans_measured [OF u(2)] assms(2)] by (simp add: total_nat_def)
  with Cons.IH [OF u(3) assms(2)] u Cons.prems(3) show ?case by (cases k) auto
qed simp

text \<open>The facts that the children of a node that spans a text have.\<close>

lemma spans_children:
  assumes "spans M t w" and "M < 2 ^ 32" and "k < ts_subtree_child_count t"
  shows "\<exists>u. spans M (ts_subtree_children t ! k) u" "child_offset t (Suc k) \<le> total_nat t"
    "padding_bytes t \<le> child_offset t k + padding_bytes (ts_subtree_children t ! k)"
proof -
  obtain h cs where "t = Ptr h cs" "k < length cs" using assms(3) by (cases t) (simp_all add: ts_subtree_child_count_def)
  then have t: "t = Ptr h cs" "k < length cs" "cs \<noteq> []" by auto
  then have sp: "spans_list M cs w" "bytes (ts_subtree_padding (hd cs)) = bytes (h_padding h)" using assms(1) by auto
  note c = spans_nth [OF sp(1) assms(2) t(2)]
  then show "\<exists>u. spans M (ts_subtree_children t ! k) u" using t(1) by auto
  have "sum_list (map total_nat cs) = total_nat t"
    using spans_list_total [OF sp(1) assms(2)] measured_total(2) [OF spans_measured [OF assms(1)] assms(2)] by (simp add: total_nat_def)
  moreover have "sum_list (map total_nat cs) = sum_list (map total_nat (take (Suc k) cs)) + sum_list (map total_nat (drop (Suc k) cs))"
    by (metis append_take_drop_id map_append sum_list_append)
  ultimately show "child_offset t (Suc k) \<le> total_nat t" using t by (simp add: child_offset_def)
  have "padding_bytes (hd cs) \<le> total_nat (hd cs)"
    using spans_measured [OF spans_nth [OF sp(1) assms(2), of 0]] t(3) by (simp add: measured_def Let_def hd_conv_nth)
  then show "padding_bytes t \<le> child_offset t k + padding_bytes (ts_subtree_children t ! k)"
    using t sp(2) by (cases k) (auto simp: child_offset_def hd_conv_nth neq_Nil_conv)
qed

lemma text_offset_append:
  "subtree_at t p = Some s \<Longrightarrow> text_offset t (p @ q) = text_offset t p + text_offset s q"
  by (induction p arbitrary: t) (auto simp: item_def bind_eq_Some_conv split: if_splits)

lemma spans_at:
  "spans M t w \<Longrightarrow> M < 2 ^ 32 \<Longrightarrow> subtree_at t p = Some s \<Longrightarrow> \<exists>u. spans M s u"
proof (induction p arbitrary: t w)
  case (Cons k p)
  then show ?case
    using spans_children(1) [of M t w k] by (auto simp: item_def bind_eq_Some_conv ts_subtree_child_count_def split: if_splits)
qed auto

text \<open>A node starts and ends inside its ancestors, and behind the children in front of it.\<close>

lemma below_place:
  assumes "spans M t w" and "M < 2 ^ 32" and "subtree_at t q = Some s"
  shows "padding_bytes t \<le> text_offset t q + padding_bytes s \<and> text_offset t q + total_nat s \<le> total_nat t"
  using assms
proof (induction q arbitrary: t w)
  case (Cons k q)
  then have k: "k < ts_subtree_child_count t" "subtree_at (ts_subtree_children t ! k) q = Some s"
    by (auto simp: item_def bind_eq_Some_conv ts_subtree_child_count_def split: if_splits)
  note c = spans_children [OF Cons.prems(1,2) k(1)]
  then obtain u where "spans M (ts_subtree_children t ! k) u" by blast
  from Cons.IH [OF this Cons.prems(2) k(2)] c(2,3) k(1) show ?case
    by (simp add: child_offset_def take_Suc_conv_app_nth ts_subtree_child_count_def)
qed simp

lemma nested_places:
  assumes "spans M t w" and "M < 2 ^ 32" and "subtree_at t (p @ q) = Some s"
  shows "start_of t p \<le> start_of t (p @ q)" "end_of t (p @ q) \<le> end_of t p"
proof -
  obtain r where r: "subtree_at t p = Some r" "subtree_at r q = Some s" using valid_prefix [OF assms(3)] by blast
  obtain u where "spans M r u" using spans_at [OF assms(1,2) r(1)] by blast
  from below_place [OF this assms(2) r(2)] text_offset_append [OF r(1), of q] r(1) assms(3)
  show "start_of t p \<le> start_of t (p @ q)" "end_of t (p @ q) \<le> end_of t p" by (simp_all add: start_of_def end_of_def)
qed

lemma child_offset_mono: "i \<le> j \<Longrightarrow> child_offset t i \<le> child_offset t j"
proof -
  assume "i \<le> j"
  then have "take j (ts_subtree_children t) = take i (ts_subtree_children t) @ take (j - i) (drop i (ts_subtree_children t))"
    by (metis le_add_diff_inverse take_add)
  then show ?thesis by (simp add: child_offset_def)
qed

lemma sibling_places:
  assumes "subtree_at t p = Some r" and "i < j" and "j < ts_subtree_child_count r"
  shows "end_of t (p @ [i]) \<le> start_of t (p @ [j])"
proof -
  have "child_offset r i + total_nat (ts_subtree_children r ! i) = child_offset r (Suc i)"
    using assms(2,3) by (simp add: child_offset_def take_Suc_conv_app_nth ts_subtree_child_count_def)
  also have "\<dots> \<le> child_offset r j" using assms(2) by (simp add: child_offset_mono)
  finally show ?thesis
    using assms by (simp add: start_of_def end_of_def text_offset_append subtree_at_append item_def ts_subtree_child_count_def)
qed

text \<open>The bytes that the code computes are those places.\<close>

lemma total_bytes_split: "ts_subtree_total_bytes t = bytes (ts_subtree_padding t) + bytes (ts_subtree_size t)"
  by (simp add: ts_subtree_total_bytes_def ts_subtree_total_size_def length_add_def)

lemma iter_position_bytes:
  assumes "spans M t w" and "bytes pos = base + bytes (ts_subtree_padding t)"
  shows "i < ts_subtree_child_count t \<Longrightarrow>
    bytes (iter_position pos t i) = base + of_nat (child_offset t i) + bytes (ts_subtree_padding (ts_subtree_children t ! i))"
proof (induction i)
  case 0
  then obtain h cs where "t = Ptr h cs" "cs \<noteq> []" by (cases t) (auto simp: ts_subtree_child_count_def)
  with assms show ?case by (auto simp: child_offset_def hd_conv_nth)
next
  case (Suc i)
  have "of_nat (child_offset t (Suc i)) = of_nat (child_offset t i) + ts_subtree_total_bytes (ts_subtree_children t ! i)"
    using Suc.prems by (simp add: child_offset_def take_Suc_conv_app_nth ts_subtree_child_count_def total_nat_def)
  with Suc show ?case by (simp add: Let_def length_add_def total_bytes_split)
qed

lemma path_entry_bytes:
  assumes "spans M (t_root tree) w" and "M < 2 ^ 32" and "subtree_at (t_root tree) p = Some s"
  shows "bytes (e_position (path_entry tree p)) = of_nat (text_offset (t_root tree) p) + bytes (ts_subtree_padding s)"
  using assms(3)
proof (induction p arbitrary: s rule: rev_induct)
  case Nil
  then show ?case by (simp add: path_entry_def root_entry_def)
next
  case (snoc k p)
  then obtain t where t: "subtree_at (t_root tree) p = Some t" "k < ts_subtree_child_count t" "ts_subtree_children t ! k = s"
    by (auto simp: subtree_at_append bind_eq_Some_conv item_def ts_subtree_child_count_def split: if_splits)
  obtain u where "spans M t u" using spans_at [OF assms(1,2) t(1)] by blast
  from iter_position_bytes [OF this snoc.IH [OF t(1)] t(2)] t show ?case
    by (simp add: path_entry_child [OF t(1)] text_offset_append add.assoc)
qed

lemma places_at:
  assumes "spans M (t_root tree) w" and "M < 2 ^ 32" and "subtree_at (t_root tree) p = Some s"
  shows "unat (ts_node_start_byte (node_at tree p)) = start_of (t_root tree) p"
    "unat (ts_node_start_byte (node_at tree p) + bytes (ts_subtree_size s)) = end_of (t_root tree) p"
    "start_of (t_root tree) p \<le> end_of (t_root tree) p" "end_of (t_root tree) p < 2 ^ 32"
proof -
  obtain u where "spans M s u" using spans_at [OF assms] by blast
  then have m: "padding_bytes s \<le> total_nat s"
    using measured_total(2) [OF spans_measured assms(2)] spans_measured by (auto simp: measured_def Let_def total_nat_def)
  have "total_nat (t_root tree) \<le> M"
    using measured_total(2) [OF spans_measured [OF assms(1)] assms(2)] spans_measured [OF assms(1)]
    by (simp add: measured_def Let_def total_nat_def)
  then have le: "text_offset (t_root tree) p + total_nat s < 2 ^ 32"
    using below_place [OF assms] assms(2) by linarith
  have b: "ts_node_start_byte (node_at tree p) = of_nat (text_offset (t_root tree) p) + bytes (ts_subtree_padding s)"
    using path_entry_bytes [OF assms] by (simp add: node_at_def ts_node_new_def ts_node_start_byte_def)
  then show "unat (ts_node_start_byte (node_at tree p)) = start_of (t_root tree) p"
    using assms(3) le m by (simp add: start_of_def unat_add_u32)
  have "ts_node_start_byte (node_at tree p) + bytes (ts_subtree_size s) = of_nat (text_offset (t_root tree) p + total_nat s)"
    by (simp add: b total_nat_def total_bytes_split add.assoc)
  then show "unat (ts_node_start_byte (node_at tree p) + bytes (ts_subtree_size s)) = end_of (t_root tree) p"
    using assms(3) le by (simp add: end_of_def del: of_nat_add)
  show "start_of (t_root tree) p \<le> end_of (t_root tree) p" "end_of (t_root tree) p < 2 ^ 32"
    using assms(3) le m by (simp_all add: start_of_def end_of_def)
qed

section \<open>The smallest node around a range\<close>

definition shown_at :: "TSTree \<Rightarrow> nat list \<Rightarrow> bool" where
  "shown_at tree p = snd (entry_at_path (t_language tree) True (root_entry tree) p)"

text \<open>
  The node at a path is shown and lies around the bytes from \<open>a\<close> to \<open>b\<close>. An empty range stands for the byte behind it: where two nodes
  meet, only the second is around the empty range between them.
\<close>

definition around :: "TSTree \<Rightarrow> nat \<Rightarrow> nat \<Rightarrow> nat list \<Rightarrow> bool" where
  "around tree a b p \<longleftrightarrow>
     (\<exists>s. subtree_at (t_root tree) p = Some s) \<and> shown_at tree p \<and>
     start_of (t_root tree) p \<le> a \<and> b \<le> end_of (t_root tree) p \<and> a < end_of (t_root tree) p"

text \<open>All paths of a tree, and that no node without text stands at a byte.\<close>

fun tree_paths :: "Subtree \<Rightarrow> nat list list" where
  "tree_paths (Inline d) = [[]]"
| "tree_paths (Ptr h cs) = [] # concat (map2 (\<lambda>k. map ((#) k)) [0..<length cs] (map tree_paths cs))"

definition no_empty_at :: "TSTree \<Rightarrow> nat \<Rightarrow> bool" where
  "no_empty_at tree a \<longleftrightarrow>
     list_all (\<lambda>p. \<not> (start_of (t_root tree) p = a \<and> end_of (t_root tree) p = a)) (tree_paths (t_root tree))"

lemma tree_paths_all: "subtree_at t p = Some s \<Longrightarrow> p \<in> set (tree_paths t)"
proof (induction p arbitrary: t)
  case Nil
  then show ?case by (cases t) auto
next
  case (Cons k p)
  obtain h cs where t: "t = Ptr h cs" using Cons.prems by (cases t) (auto simp: item_def split: if_splits)
  with Cons.prems have k: "k < length cs" "subtree_at (cs ! k) p = Some s" by (auto simp: bind_eq_Some_conv item_def split: if_splits)
  then have "(k, tree_paths (cs ! k)) \<in> set (zip [0..<length cs] (map tree_paths cs))"
    by (auto simp: set_zip intro!: exI [of _ k])
  with Cons.IH [OF k(2)] show ?case unfolding t by force
qed

lemma no_empty_atD:
  "no_empty_at tree a \<Longrightarrow> subtree_at (t_root tree) p = Some s \<Longrightarrow> \<not> (start_of (t_root tree) p = a \<and> end_of (t_root tree) p = a)"
  using tree_paths_all by (auto simp: no_empty_at_def list_all_iff)

lemma shown_at_child:
  assumes "subtree_at (t_root tree) p = Some t"
  shows "shown_at tree (p @ [k]) = child_shown (t_language tree) t k"
  using path_entry_tree [OF assms]
  by (cases "entry_at_path (t_language tree) True (root_entry tree) p")
    (simp add: shown_at_def path_entry_def entry_at_path_append)

lemma child_at: "subtree_at t p = Some s \<Longrightarrow> k < ts_subtree_child_count s \<Longrightarrow> subtree_at t (p @ [k]) = Some (ts_subtree_children s ! k)"
  by (simp add: subtree_at_append item_def ts_subtree_child_count_def)

lemma node_iter_end:
  assumes sp: "spans M (t_root tree) w" "M < 2 ^ 32" and p: "subtree_at (t_root tree) p = Some t" and k: "k < ts_subtree_child_count t"
  shows "unat (bytes (ni_position (node_iter tree p t (Suc k)))) = end_of (t_root tree) (p @ [k])"
proof -
  have "ts_node_start_byte (node_at tree (p @ [k])) = bytes (iter_position (e_position (path_entry tree p)) t k)"
    by (simp add: node_at_def ts_node_new_def ts_node_start_byte_def path_entry_child [OF p])
  with places_at(2) [OF sp child_at [OF p k]] show ?thesis by (simp add: node_iter_def length_add_def)
qed

lemma range_loop_at:
  assumes rd: "readable (t_language tree) (t_root tree)" and sp: "spans M (t_root tree) w" "M < 2 ^ 32"
    and p: "subtree_at (t_root tree) p = Some t" and ab: "a \<le> b" "a = b \<Longrightarrow> no_empty_at tree (unat a)"
  shows "i \<le> ts_subtree_child_count t \<Longrightarrow>
    range_loop bytes ts_node_start_byte (<) a b (node_iter tree p t i) =
      Some (case List.find (\<lambda>k. unat b \<le> end_of (t_root tree) (p @ [k]) \<and> unat a < end_of (t_root tree) (p @ [k])) [i..<ts_subtree_child_count t] of
              None \<Rightarrow> None
            | Some k \<Rightarrow> if unat a < start_of (t_root tree) (p @ [k]) then None else Some (node_at tree (p @ [k])))"
proof (induction "ts_subtree_child_count t - i" arbitrary: i)
  case 0
  then show ?case using node_next_end [OF p, of i] by (subst range_loop.simps) simp
next
  case (Suc n)
  then have i: "i < ts_subtree_child_count t" by simp
  have IH: "range_loop bytes ts_node_start_byte (<) a b (node_iter tree p t (Suc i)) =
      Some (case List.find (\<lambda>k. unat b \<le> end_of (t_root tree) (p @ [k]) \<and> unat a < end_of (t_root tree) (p @ [k])) [Suc i..<ts_subtree_child_count t] of
              None \<Rightarrow> None
            | Some k \<Rightarrow> if unat a < start_of (t_root tree) (p @ [k]) then None else Some (node_at tree (p @ [k])))"
    using Suc i by (intro Suc.hyps(1)) auto
  have u: "[i..<ts_subtree_child_count t] = i # [Suc i..<ts_subtree_child_count t]" using i by (simp add: upt_conv_Cons)
  note e = node_iter_end [OF sp p i] and s = places_at(1) [OF sp child_at [OF p i]]
  have ab': "unat a \<le> unat b" "unat a = unat b \<Longrightarrow> \<not> (start_of (t_root tree) (p @ [i]) = unat a \<and> end_of (t_root tree) (p @ [i]) = unat a)"
    using ab no_empty_atD [OF _ child_at [OF p i]] by (auto simp: word_le_nat_alt word_unat_eq_iff)
  show ?case
    using IH e s ab' by (subst range_loop.simps)
      (auto simp: node_next_at [OF rd p i] u Let_def word_less_nat_alt word_unat_eq_iff)
qed

text \<open>A node around the range goes through the child that the loop finds.\<close>

lemma around_child:
  assumes sp: "spans M (t_root tree) w" "M < 2 ^ 32" and p: "subtree_at (t_root tree) p = Some t"
    and q: "around tree a b (p @ k # z)"
  shows "k < ts_subtree_child_count t \<and>
    List.find (\<lambda>k. b \<le> end_of (t_root tree) (p @ [k]) \<and> a < end_of (t_root tree) (p @ [k])) [0..<ts_subtree_child_count t] = Some k \<and>
    start_of (t_root tree) (p @ [k]) \<le> a"
proof -
  obtain s where s: "subtree_at (t_root tree) ((p @ [k]) @ z) = Some s" using q by (auto simp: around_def)
  then have k: "k < ts_subtree_child_count t"
    using p by (auto simp: subtree_at_append bind_eq_Some_conv item_def ts_subtree_child_count_def split: if_splits)
  have n: "b \<le> end_of (t_root tree) (p @ [k])" "a < end_of (t_root tree) (p @ [k])" "start_of (t_root tree) (p @ [k]) \<le> a"
    using nested_places [OF sp s] q by (simp_all add: around_def)
  have "\<not> a < end_of (t_root tree) (p @ [j])" if "j < k" for j
    using sibling_places [OF p that k] n(3) by simp
  moreover have "[0..<ts_subtree_child_count t] = [0..<k] @ k # [Suc k..<ts_subtree_child_count t]"
    using k by (metis le0 less_imp_add_positive less_imp_le upt_add_eq_append upt_conv_Cons)
  ultimately have "List.find (\<lambda>k. b \<le> end_of (t_root tree) (p @ [k]) \<and> a < end_of (t_root tree) (p @ [k])) [0..<ts_subtree_child_count t] = Some k"
    using n(1,2) find_first [of "[0..<k]"] by simp
  with k n(3) show ?thesis by blast
qed

lemma range_descend_stop:
  assumes rd: "readable (t_language tree) (t_root tree)" and sp: "spans M (t_root tree) w" "M < 2 ^ 32"
    and p: "subtree_at (t_root tree) p = Some t" and ab: "a \<le> b" "a = b \<Longrightarrow> no_empty_at tree (unat a)"
    and none: "\<not> (\<exists>k. List.find (\<lambda>k. unat b \<le> end_of (t_root tree) (p @ [k]) \<and> unat a < end_of (t_root tree) (p @ [k])) [0..<ts_subtree_child_count t] = Some k \<and>
      start_of (t_root tree) (p @ [k]) \<le> unat a)"
  shows "range_descend bytes ts_node_start_byte (<) a b True (node_at tree p) l = Some l"
proof (cases "ts_subtree_child_count t = 0")
  case True
  then show ?thesis
    using iterate_leaf_at [OF p] by (subst range_descend.simps) (auto simp: range_loop.simps)
next
  case False
  then show ?thesis
    using iterate_node_at [OF p] range_loop_at [OF rd sp p ab, of 0] none
    by (subst range_descend.simps) (auto split: option.splits)
qed

lemma range_descend_at:
  assumes rd: "readable (t_language tree) (t_root tree)" and sp: "spans M (t_root tree) w" "M < 2 ^ 32" and ab: "a \<le> b" "a = b \<Longrightarrow> no_empty_at tree (unat a)"
  shows "subtree_at (t_root tree) p = Some t \<Longrightarrow>
    \<exists>q. range_descend bytes ts_node_start_byte (<) a b True (node_at tree p) (node_at tree l) = Some (node_at tree q) \<and>
      (q = l \<or> (\<exists>z. z \<noteq> [] \<and> q = p @ z \<and> around tree (unat a) (unat b) q)) \<and>
      (\<forall>z. z \<noteq> [] \<and> around tree (unat a) (unat b) (p @ z) \<longrightarrow> prefix (p @ z) q)"
proof (induction t arbitrary: p l rule: measure_induct_rule [where f = size])
  case (less t)
  let ?find = "List.find (\<lambda>k. unat b \<le> end_of (t_root tree) (p @ [k]) \<and> unat a < end_of (t_root tree) (p @ [k])) [0..<ts_subtree_child_count t]"
  note through = around_child [OF sp less.prems]
  show ?case
  proof (cases "\<exists>k. ?find = Some k \<and> start_of (t_root tree) (p @ [k]) \<le> unat a")
    case False
    then have "range_descend bytes ts_node_start_byte (<) a b True (node_at tree p) (node_at tree l) = Some (node_at tree l)"
      by (intro range_descend_stop [OF rd sp less.prems ab])
    moreover have "\<not> around tree (unat a) (unat b) (p @ z)" if "z \<noteq> []" for z
      using through [of "unat a" "unat b" "hd z" "tl z"] that False by auto
    ultimately show ?thesis by blast
  next
    case True
    then obtain k where k: "?find = Some k" "start_of (t_root tree) (p @ [k]) \<le> unat a" by blast
    then have kn: "k < ts_subtree_child_count t" "unat b \<le> end_of (t_root tree) (p @ [k])" "unat a < end_of (t_root tree) (p @ [k])"
      by (auto simp: find_Some_iff)
    let ?l = "if child_shown (t_language tree) t k then p @ [k] else l"
    note c = child_at [OF less.prems kn(1)]
    have step: "range_descend bytes ts_node_start_byte (<) a b True (node_at tree p) (node_at tree l) =
        range_descend bytes ts_node_start_byte (<) a b True (node_at tree (p @ [k])) (node_at tree ?l)"
      using iterate_node_at [OF less.prems] range_loop_at [OF rd sp less.prems ab, of 0] kn k relevant_child [OF less.prems kn(1)]
      by (subst range_descend.simps) auto
    obtain q where q: "range_descend bytes ts_node_start_byte (<) a b True (node_at tree (p @ [k])) (node_at tree ?l) = Some (node_at tree q)"
      "q = ?l \<or> (\<exists>z. z \<noteq> [] \<and> q = (p @ [k]) @ z \<and> around tree (unat a) (unat b) q)"
      "\<And>z. z \<noteq> [] \<Longrightarrow> around tree (unat a) (unat b) ((p @ [k]) @ z) \<Longrightarrow> prefix ((p @ [k]) @ z) q"
      using less.IH [OF nth_child_smaller [OF kn(1)] c, of ?l] by blast
    have here: "around tree (unat a) (unat b) (p @ [k]) \<longleftrightarrow> child_shown (t_language tree) t k"
      using k kn c by (auto simp: around_def shown_at_child [OF less.prems])
    have "prefix (p @ z) q" if z: "z \<noteq> []" "around tree (unat a) (unat b) (p @ z)" for z
    proof -
      have zk: "z = k # tl z" using through [of "unat a" "unat b" "hd z" "tl z"] z k(1) by auto
      show ?thesis
      proof (cases "tl z = []")
        case True
        then show ?thesis using q(2) zk z here by (auto simp: prefix_def)
      next
        case False
        then show ?thesis using q(3) [OF False] zk z by simp
      qed
    qed
    moreover have "q = l \<or> (\<exists>z. z \<noteq> [] \<and> q = p @ z \<and> around tree (unat a) (unat b) q)"
      using q(2) here by (auto split: if_splits)
    ultimately show ?thesis using step q(1) by auto
  qed
qed

section \<open>Parents\<close>

lemma same_id_at:
  assumes "subtree_at (t_root tree) p = Some s" and "subtree_at (t_root tree) q = Some t"
  shows "same_id (node_at tree p) (node_at tree q) \<longleftrightarrow> p = q"
  using node_at_reads(5) [OF assms(1)] node_at_reads(5) [OF assms(2)] path_entry_path by (simp add: same_id_def)

lemma iterate_at:
  "subtree_at (t_root tree) p = Some s \<Longrightarrow> \<exists>it. ts_node_iterate_children (node_at tree p) = Some it"
  using iterate_node_at [of tree p s] iterate_leaf_at [of tree p s] by blast

text \<open>
  One step of the search for a node that is not empty: the children in front of it end before it does, and the one that
  holds it does not.
\<close>

lemma with_descendant_loop_step:
  assumes rd: "readable (t_language tree) (t_root tree)" and sp: "spans M (t_root tree) w" "M < 2 ^ 32"
    and p: "subtree_at (t_root tree) p = Some t" and ik: "i \<le> k" and k: "k < ts_subtree_child_count t"
    and d: "subtree_at (t_root tree) (p @ k # z) = Some s" "start_of (t_root tree) (p @ k # z) < end_of (t_root tree) (p @ k # z)"
    and z: "z \<noteq> [] \<Longrightarrow> ts_subtree_visible_child_count (ts_subtree_children t ! k) \<noteq> 0"
    and fin: "unat to_byte = end_of (t_root tree) (p @ k # z)"
  shows "with_descendant_loop (node_at tree (p @ k # z)) to_byte (node_iter tree p t i) =
    (if i < k then with_descendant_loop (node_at tree (p @ k # z)) to_byte (node_iter tree p t (Suc i))
     else if z = [] \<or> child_shown (t_language tree) t k then Some (node_at tree (p @ [k]))
     else do { it \<leftarrow> ts_node_iterate_children (node_at tree (p @ [k])); with_descendant_loop (node_at tree (p @ k # z)) to_byte it })"
proof -
  have i: "i < ts_subtree_child_count t" using ik k by simp
  note c = child_at [OF p i]
  have d': "subtree_at (t_root tree) ((p @ [k]) @ z) = Some s" using d(1) by simp
  have here: "unat (bytes (ni_position (node_iter tree p t (Suc i)))) = end_of (t_root tree) (p @ [i])"
    by (rule node_iter_end [OF sp p i])
  have start: "unat (ts_node_start_byte (node_at tree (p @ k # z))) = start_of (t_root tree) (p @ k # z)"
    "unat (ts_node_start_byte (node_at tree (p @ [i]))) = start_of (t_root tree) (p @ [i])"
    by (rule places_at(1) [OF sp d(1)], rule places_at(1) [OF sp c])
  note nest = nested_places [OF sp d'] and order = places_at(3) [OF sp c]
  have front: "end_of (t_root tree) (p @ [i]) \<le> start_of (t_root tree) (p @ [k])" if "i < k"
    using sibling_places [OF p that k] .
  have same: "same_id (node_at tree (p @ [i])) (node_at tree (p @ k # z)) \<longleftrightarrow> i = k \<and> z = []"
    using same_id_at [OF c d(1)] by auto
  have ne: "ts_node_start_byte (node_at tree (p @ k # z)) \<noteq> to_byte" using start(1) fin d(2) by auto
  obtain it where it: "ts_node_iterate_children (node_at tree (p @ [i])) = Some it" using iterate_at [OF c] by blast
  note reads = node_next_at [OF rd p i] node_at_reads(4) [OF c] relevant_child [OF p i] it same ne
  show ?thesis
  proof (cases "i < k")
    case True
    have "\<not> ts_node_start_byte (node_at tree (p @ k # z)) < ts_node_start_byte (node_at tree (p @ [i]))"
      "bytes (ni_position (node_iter tree p t (Suc i))) < to_byte"
      using front [OF True] nest order start here fin d(2) by (simp_all add: word_less_nat_alt)
    with True reads show ?thesis by (subst with_descendant_loop.simps) (simp add: Let_def)
  next
    case False
    with ik have eq: "i = k" by simp
    have "\<not> ts_node_start_byte (node_at tree (p @ k # z)) < ts_node_start_byte (node_at tree (p @ [i]))"
      "\<not> bytes (ni_position (node_iter tree p t (Suc i))) < to_byte"
      using nest start here fin eq by (simp_all add: word_less_nat_alt)
    with eq reads z show ?thesis by (subst with_descendant_loop.simps) (auto simp: Let_def)
  qed
qed

lemma with_descendant_loop_to:
  assumes "readable (t_language tree) (t_root tree)" and "spans M (t_root tree) w" "M < 2 ^ 32"
    and "subtree_at (t_root tree) p = Some t" and "k < ts_subtree_child_count t"
    and "subtree_at (t_root tree) (p @ k # z) = Some s" "start_of (t_root tree) (p @ k # z) < end_of (t_root tree) (p @ k # z)"
    and "z \<noteq> [] \<Longrightarrow> ts_subtree_visible_child_count (ts_subtree_children t ! k) \<noteq> 0"
    and "unat to_byte = end_of (t_root tree) (p @ k # z)"
  shows "i \<le> k \<Longrightarrow> with_descendant_loop (node_at tree (p @ k # z)) to_byte (node_iter tree p t i) =
    with_descendant_loop (node_at tree (p @ k # z)) to_byte (node_iter tree p t k)"
proof (induction "k - i" arbitrary: i)
  case (Suc n)
  then have "i < k" by simp
  with Suc.hyps(1) [of "Suc i"] Suc.hyps(2) with_descendant_loop_step [OF assms(1-4) Suc.prems assms(5-9)] show ?case by simp
qed simp

lemma way_child_paths: "way lang t q \<Longrightarrow> q \<in> set (child_paths lang t)"
proof (induction q arbitrary: t)
  case (Cons k q)
  then have "k # q \<in> set (child_part lang t k)" by (cases "q = []") (auto simp: child_part_def)
  with Cons.prems show ?case by (subst child_paths_from_0) (auto simp: child_paths_from_def)
qed simp

text \<open>The way to a shown node goes through the shown nodes above it.\<close>

lemma way_prefix:
  assumes "subtree_at t y = Some s" and "y \<noteq> []" and "entry_tree e = t" and "snd (entry_at_path lang v e y)"
  shows "\<exists>a b. y = a @ b \<and> way lang t a"
  using assms
proof (induction y arbitrary: t v e)
  case (Cons k y)
  then have k: "k < ts_subtree_child_count t" "subtree_at (ts_subtree_children t ! k) y = Some s"
    by (auto simp: item_def bind_eq_Some_conv ts_subtree_child_count_def split: if_splits)
  show ?case
  proof (cases "child_shown lang t k")
    case True
    with k have "k # y = [k] @ y \<and> way lang t [k]" by simp
    then show ?thesis by blast
  next
    case False
    have "y \<noteq> []" using Cons.prems(3,4) False by auto
    with Cons.IH [OF k(2), of "child_entry lang v e k" "child_shown lang t k"] Cons.prems(3,4)
    obtain a b where ab: "y = a @ b" "way lang (ts_subtree_children t ! k) a" by auto
    then have "k # y = (k # a) @ b \<and> way lang t (k # a)" using k(1) False by auto
    then show ?thesis by blast
  qed
qed simp

lemma shown_way:
  assumes "subtree_at (t_root tree) p = Some t" and "subtree_at t y = Some s" and "y \<noteq> []" and "shown_at tree (p @ y)"
  shows "\<exists>a b. y = a @ b \<and> way (t_language tree) t a"
  using way_prefix [OF assms(2,3), of "path_entry tree p"] path_entry_tree [OF assms(1)] assms(4)
  by (cases "entry_at_path (t_language tree) True (root_entry tree) p") (auto simp: shown_at_def path_entry_def entry_at_path_append)

text \<open>The search from a node ends on the first shown node on the way.\<close>

lemma with_descendant_way:
  assumes rd: "readable (t_language tree) (t_root tree)" and sp: "spans M (t_root tree) w" "M < 2 ^ 32"
    and p: "subtree_at (t_root tree) p = Some t" and a: "way (t_language tree) t a"
    and d: "subtree_at (t_root tree) (p @ a @ b) = Some s" "start_of (t_root tree) (p @ a @ b) < end_of (t_root tree) (p @ a @ b)"
    and b: "b \<noteq> [] \<Longrightarrow> \<exists>u. subtree_at t a = Some u \<and> child_paths (t_language tree) u \<noteq> []"
    and fin: "unat to_byte = end_of (t_root tree) (p @ a @ b)"
  shows "with_descendant_loop (node_at tree (p @ a @ b)) to_byte (node_iter tree p t 0) = Some (node_at tree (p @ a))"
  using p a d b fin
proof (induction a arbitrary: p t)
  case (Cons k a)
  let ?lang = "t_language tree" and ?c = "ts_subtree_children t ! k"
  have k: "k < ts_subtree_child_count t" "if a = [] then child_shown ?lang t k else \<not> child_shown ?lang t k \<and> way ?lang ?c a"
    using Cons.prems(2) by auto
  note c = child_at [OF Cons.prems(1) k(1)]
  have inside: "\<exists>u. subtree_at ?c a = Some u \<and> child_paths ?lang u \<noteq> []" if "b \<noteq> []"
    using Cons.prems(5) [OF that] k(1) by (auto simp: item_def ts_subtree_child_count_def)
  have "child_paths ?lang ?c \<noteq> []" if "a @ b \<noteq> []"
    using k(2) way_child_paths [of ?lang ?c a] inside that by (cases "a = []") auto
  then have n: "a @ b \<noteq> [] \<Longrightarrow> ts_subtree_visible_child_count ?c \<noteq> 0"
    using readable_hidden [OF readable_at [OF rd c]] by auto
  have d: "subtree_at (t_root tree) (p @ k # (a @ b)) = Some s"
    "start_of (t_root tree) (p @ k # (a @ b)) < end_of (t_root tree) (p @ k # (a @ b))"
    "unat to_byte = end_of (t_root tree) (p @ k # (a @ b))" using Cons.prems(3,4,6) by simp_all
  have step: "with_descendant_loop (node_at tree (p @ k # (a @ b))) to_byte (node_iter tree p t 0) =
    (if a @ b = [] \<or> child_shown ?lang t k then Some (node_at tree (p @ [k]))
     else do { it \<leftarrow> ts_node_iterate_children (node_at tree (p @ [k]));
               with_descendant_loop (node_at tree (p @ k # (a @ b))) to_byte it })"
    using with_descendant_loop_to [OF rd sp Cons.prems(1) k(1) d(1,2) n d(3), of 0]
      with_descendant_loop_step [OF rd sp Cons.prems(1) order_refl k(1) d(1,2) n d(3)] by simp
  show ?case
  proof (cases "a = []")
    case True
    then show ?thesis using step k(2) by simp
  next
    case False
    then have "ts_subtree_child_count ?c \<noteq> 0" using k(2) by (cases a) auto
    from iterate_node_at [OF c this] Cons.IH [OF c _ _ _ inside] k(2) False step Cons.prems(3,4,6) show ?thesis by simp
  qed
qed simp

lemma node_end_at:
  assumes "spans M (t_root tree) w" "M < 2 ^ 32" and "subtree_at (t_root tree) p = Some s"
  shows "\<exists>e. ts_node_end_byte (node_at tree p) = Some e \<and> unat e = end_of (t_root tree) p"
  using places_at(2) [OF assms] by (simp add: ts_node_end_byte_def node_at_reads(1) [OF assms(3)])

lemma child_with_descendant_at:
  assumes rd: "readable (t_language tree) (t_root tree)" and sp: "spans M (t_root tree) w" "M < 2 ^ 32"
    and p: "subtree_at (t_root tree) p = Some t" and a: "way (t_language tree) t a"
    and d: "subtree_at (t_root tree) (p @ a @ b) = Some s" "start_of (t_root tree) (p @ a @ b) < end_of (t_root tree) (p @ a @ b)"
    and b: "b \<noteq> [] \<Longrightarrow> \<exists>u. subtree_at t a = Some u \<and> child_paths (t_language tree) u \<noteq> []"
  shows "ts_node_child_with_descendant (node_at tree p) (node_at tree (p @ a @ b)) = Some (node_at tree (p @ a))"
proof -
  obtain e where e: "ts_node_end_byte (node_at tree (p @ a @ b)) = Some e" "unat e = end_of (t_root tree) (p @ a @ b)"
    using node_end_at [OF sp d(1)] by blast
  have "ts_subtree_child_count t \<noteq> 0" using a by (cases a) auto
  from iterate_node_at [OF p this] with_descendant_way [OF rd sp p a d b e(2)] e(1) show ?thesis
    by (simp add: ts_node_child_with_descendant_def)
qed

lemma node_at_not_null: "\<not> ts_node_is_null (node_at tree p)"
  by (simp add: ts_node_is_null_def node_at_def ts_node_new_def)

lemma parent_walk_at:
  assumes rd: "readable (t_language tree) (t_root tree)" and sp: "spans M (t_root tree) w" "M < 2 ^ 32"
    and r: "subtree_at (t_root tree) r = Some t" "shown_at tree r" and q: "way (t_language tree) t q"
    and d: "start_of (t_root tree) (r @ q) < end_of (t_root tree) (r @ q)"
  shows "r = p @ x \<Longrightarrow> parent_walk (node_at tree (r @ q)) (node_at tree p) = Some (node_at tree r)"
proof (induction x arbitrary: p rule: measure_induct_rule [where f = length])
  case (less x)
  let ?lang = "t_language tree"
  obtain s where s: "subtree_at (t_root tree) (r @ q) = Some s"
    using way_valid [OF q] r(1) by (auto simp: subtree_at_append)
  have q0: "q \<noteq> []" using q by auto
  obtain v where v: "subtree_at (t_root tree) p = Some v" "subtree_at v x = Some t"
    using valid_prefix [of "t_root tree" p x t] r(1) less.prems by blast
  show ?case
  proof (cases "x = []")
    case True
    with less.prems v r(1) have "r = p" "v = t" by simp_all
    with child_with_descendant_at [OF rd sp r(1) q, of "[]" s] s d same_id_at [OF s s] show ?thesis
      by (subst parent_walk.simps) simp
  next
    case False
    from shown_way [OF v False] r(2) less.prems obtain a b where ab: "x = a @ b" "way ?lang v a" by auto
    obtain u where u: "subtree_at v a = Some u" "subtree_at u b = Some t" using valid_prefix [of v a b t] v(2) ab(1) by auto
    have pa: "subtree_at (t_root tree) (p @ a) = Some u" using v(1) u(1) by (simp add: subtree_at_append)
    have "\<exists>c. way ?lang u c"
      using q shown_way [OF pa u(2)] u(2) less.prems ab(1) r(2) by (cases "b = []") auto
    then have paths: "child_paths ?lang u \<noteq> []" using way_child_paths by fastforce
    have "ts_node_child_with_descendant (node_at tree p) (node_at tree (p @ a @ b @ q)) = Some (node_at tree (p @ a))"
      using child_with_descendant_at [OF rd sp v(1) ab(2), of "b @ q" s] s d less.prems ab(1) u(1) paths by simp
    moreover have "\<not> same_id (node_at tree (p @ a)) (node_at tree (r @ q))"
      using same_id_at [OF pa s] less.prems ab(1) q0 by simp
    moreover have "parent_walk (node_at tree (r @ q)) (node_at tree (p @ a)) = Some (node_at tree r)"
      using less.IH [of b "p @ a"] less.prems ab by (cases a) auto
    ultimately show ?thesis using less.prems ab(1) node_at_not_null by (subst parent_walk.simps) simp
  qed
qed

lemma root_node_at: "ts_tree_root_node tree = node_at tree []"
  by (simp add: ts_tree_root_node_def node_at_def path_entry_def root_entry_def shown_alias_def)

lemma node_parent_at:
  assumes rd: "readable (t_language tree) (t_root tree)" and sp: "spans M (t_root tree) w" "M < 2 ^ 32"
    and r: "subtree_at (t_root tree) r = Some t" "shown_at tree r" and q: "q \<in> set (child_paths (t_language tree) t)"
    and d: "start_of (t_root tree) (r @ q) < end_of (t_root tree) (r @ q)"
  shows "ts_node_parent (node_at tree (r @ q)) = Some (node_at tree r)"
proof -
  have w: "way (t_language tree) t q" using q child_paths_after by (metis in_set_conv_decomp)
  obtain s where s: "subtree_at (t_root tree) (r @ q) = Some s" "q \<noteq> []"
    using way_valid [OF w] r(1) w by (cases q) (auto simp: subtree_at_append)
  have "\<not> same_id (node_at tree []) (node_at tree (r @ q))" using same_id_at [OF _ s(1), of "[]"] s(2) by simp
  with parent_walk_at [OF rd sp r w d, of "[]"] node_at_reads(3) [OF s(1)] show ?thesis
    by (simp add: ts_node_parent_def root_node_at)
qed

section \<open>Properties\<close>

text \<open>
  C11. A node and a cursor agree on the children of a node: the node counts as many as the cursor walks over, and gives
  the same node for each index, with the same place and the same alias, or the null node for an index behind the last.
\<close>

theorem node_child_is_cursor_child:
  assumes "readable (t_language tree) (t_root tree)" and "subtree_at (t_root tree) p = Some t"
    and "ts_tree_cursor_current_node (tree_cursor tree p) = Some n" and "qs = child_paths (t_language tree) t"
  shows "ts_node_child_count n = Some (of_nat (length qs)) \<and>
    ts_node_child n i =
      (if unat i < length qs then ts_tree_cursor_current_node (tree_cursor tree (p @ qs ! unat i)) else Some ts_node__null)"
proof -
  have n: "n = node_at tree p" using cursor_node_at [OF assms(1,2)] assms(3) by simp
  have u: "unat (ts_subtree_visible_child_count t) = length qs"
    using readable_counts(1) [OF readable_at [OF assms(1,2)]] assms(4) by simp
  then have "ts_subtree_visible_child_count t = of_nat (length qs)"
    using unat_u32_bound [of "ts_subtree_visible_child_count t"] by (simp add: word_unat_eq_iff)
  then have count: "ts_node_child_count n = Some (of_nat (length qs))" using node_at_reads(4) [OF assms(2)] n by simp
  have child: "ts_node_child n i = Some (if unat i < length qs then node_at tree (p @ qs ! unat i) else ts_node__null)"
    using node_child_at [OF assms(1,2), of i] n assms(4) by (simp add: ts_node_child_def)
  have "ts_tree_cursor_current_node (tree_cursor tree (p @ qs ! unat i)) = Some (node_at tree (p @ qs ! unat i))"
    if k: "unat i < length qs"
  proof -
    have "way (t_language tree) t (qs ! unat i)" using child_paths_after id_take_nth_drop [OF k] assms(4) by metis
    then show ?thesis using way_valid [of "t_language tree" t "qs ! unat i"] cursor_node_at [OF assms(1)] assms(2)
      by (auto simp: subtree_at_append)
  qed
  with count child show ?thesis by simp
qed

theorem node_child_is_cursor_child_witness:
  "ts_node_child_count (ts_tree_root_node sample_tree) = Some 3 \<and>
   ts_node_child (ts_tree_root_node sample_tree) 2 = ts_tree_cursor_current_node (tree_cursor sample_tree [1, 1]) \<and>
   ts_node_child (ts_tree_root_node sample_tree) 3 = Some ts_node__null"
proof -
  have n: "ts_tree_cursor_current_node (tree_cursor sample_tree []) = Some (ts_tree_root_node sample_tree)"
    using cursor_node_at [OF sample_tree_reads(1,2)] root_node_at by simp
  note child = node_child_is_cursor_child [OF sample_tree_reads(1,2) n refl, unfolded sample_tree_reads(3)]
  from child [of 2] child [of 3] show ?thesis by simp
qed

text \<open>
  C12. The parent of the child of a node is the node: the search from the root, which compares bytes and goes through
  hidden nodes, ends on it for every child whose text is not empty.
\<close>

theorem parent_of_child:
  assumes "readable (t_language tree) (t_root tree)" and "spans M (t_root tree) w" and "M < 2 ^ 32"
    and "r \<in> set (visible_span (t_language tree) True (t_root tree))"
    and "ts_tree_cursor_current_node (tree_cursor tree r) = Some n"
    and "ts_node_child n i = Some c" and "\<not> ts_node_is_null c" and "ts_node_end_byte c \<noteq> Some (ts_node_start_byte c)"
  shows "ts_node_parent c = Some n"
proof -
  obtain t where t: "subtree_at (t_root tree) r = Some t" "shown_at tree r"
    using visible_path_at [of r "t_language tree" True "root_entry tree"] assms(4) by (auto simp: shown_at_def)
  have n: "n = node_at tree r" using cursor_node_at [OF assms(1) t(1)] assms(5) by simp
  let ?qs = "child_paths (t_language tree) t"
  have i: "unat i < length ?qs" and c: "c = node_at tree (r @ ?qs ! unat i)"
    using node_child_at [OF assms(1) t(1), of i] n assms(6,7)
    by (auto simp: ts_node_child_def ts_node_is_null_def ts_node__null_def ts_node_new_def Let_def split: if_splits)
  have "way (t_language tree) t (?qs ! unat i)" using child_paths_after id_take_nth_drop [OF i] by metis
  then obtain s where s: "subtree_at (t_root tree) (r @ ?qs ! unat i) = Some s"
    using way_valid [of "t_language tree" t] t(1) by (fastforce simp: subtree_at_append)
  have "start_of (t_root tree) (r @ ?qs ! unat i) \<noteq> end_of (t_root tree) (r @ ?qs ! unat i)"
    using node_end_at [OF assms(2,3) s] places_at(1) [OF assms(2,3) s] assms(8) c by (auto simp: word_unat_eq_iff)
  with places_at(3) [OF assms(2,3) s] have "start_of (t_root tree) (r @ ?qs ! unat i) < end_of (t_root tree) (r @ ?qs ! unat i)"
    by simp
  from node_parent_at [OF assms(1-3) t nth_mem [OF i] this] c n show ?thesis by simp
qed

theorem parent_of_child_witness:
  "\<exists>c. ts_node_child (ts_tree_root_node sample_tree) 2 = Some c \<and> ts_node_parent c = Some (ts_tree_root_node sample_tree)"
proof -
  have n: "ts_tree_cursor_current_node (tree_cursor sample_tree []) = Some (ts_tree_root_node sample_tree)"
    using cursor_node_at [OF sample_tree_reads(1,2)] root_node_at by simp
  have r: "[] \<in> set (visible_span (t_language sample_tree) True (t_root sample_tree))" by (simp add: sample_tree_reads(4))
  have s: "subtree_at (t_root sample_tree) [1, 1] = Some (sample_leaf 1 1)" by code_simp
  let ?c = "node_at sample_tree [1, 1]"
  have "ts_node_child (ts_tree_root_node sample_tree) 2 = Some ?c"
    using node_child_at [OF sample_tree_reads(1,2), of 2] by (simp add: ts_node_child_def root_node_at sample_tree_reads(3))
  moreover have "bytes (ts_subtree_size (sample_leaf 1 1)) \<noteq> 0" by code_simp
  then have "ts_node_end_byte ?c \<noteq> Some (ts_node_start_byte ?c)" using node_at_reads(1) [OF s] by (simp add: ts_node_end_byte_def)
  ultimately show ?thesis
    using parent_of_child [OF sample_tree_reads(1,5) _ r n, of 2 ?c] node_at_not_null by auto
qed

text \<open>
  C14. The descendant for a range of bytes is the smallest visible node around the range: the node itself or a node below it
  around the range, and every visible node below it around the range is that node or one of its ancestors. An empty range
  stands for the byte behind it, so between two nodes that meet it is the second one that is found, whichever is smaller; for it, no node
  without text may stand there. Ranges that end before they start give the null node.
\<close>

theorem descendant_for_byte_range_smallest:
  assumes "readable (t_language tree) (t_root tree)" and "spans M (t_root tree) w" and "M < 2 ^ 32"
    and "subtree_at (t_root tree) p = Some t" and "ts_tree_cursor_current_node (tree_cursor tree p) = Some n"
    and "a \<le> b" and "a = b \<Longrightarrow> no_empty_at tree (unat a)"
  shows "(\<exists>q. ts_node_descendant_for_byte_range n a b = ts_tree_cursor_current_node (tree_cursor tree q) \<and>
      (q = p \<or> strict_prefix p q \<and> around tree (unat a) (unat b) q) \<and>
      (\<forall>v. strict_prefix p v \<and> around tree (unat a) (unat b) v \<longrightarrow> prefix v q)) \<and>
    (a \<noteq> b \<longrightarrow> ts_node_descendant_for_byte_range n b a = Some ts_node__null)"
proof -
  have n: "n = node_at tree p" using cursor_node_at [OF assms(1,4)] assms(5) by simp
  obtain q where q: "range_descend bytes ts_node_start_byte (<) a b True n n = Some (node_at tree q)"
    "q = p \<or> (\<exists>z. z \<noteq> [] \<and> q = p @ z \<and> around tree (unat a) (unat b) q)"
    "\<forall>z. z \<noteq> [] \<and> around tree (unat a) (unat b) (p @ z) \<longrightarrow> prefix (p @ z) q"
    using range_descend_at [OF assms(1-3,6,7,4), of p] n by blast
  obtain s where "subtree_at (t_root tree) q = Some s" using q(2) assms(4) by (auto simp: around_def)
  then have "ts_tree_cursor_current_node (tree_cursor tree q) = Some (node_at tree q)" by (rule cursor_node_at [OF assms(1)])
  with q assms(6) have "ts_node_descendant_for_byte_range n a b = ts_tree_cursor_current_node (tree_cursor tree q)"
    by (simp add: ts_node_descendant_for_byte_range_def ts_node__descendant_for_byte_range_def)
  moreover have "q = p \<or> strict_prefix p q \<and> around tree (unat a) (unat b) q" using q(2) by (auto simp: strict_prefix_def)
  moreover have "\<forall>v. strict_prefix p v \<and> around tree (unat a) (unat b) v \<longrightarrow> prefix v q"
    using q(3) by (auto simp: strict_prefix_def prefix_def)
  ultimately show ?thesis
    using assms(6) by (auto simp: ts_node_descendant_for_byte_range_def ts_node__descendant_for_byte_range_def)
qed

theorem descendant_for_byte_range_smallest_witness:
  "\<exists>q. ts_node_descendant_for_byte_range (ts_tree_root_node sample_tree) 2 2 = ts_tree_cursor_current_node (tree_cursor sample_tree q) \<and>
     prefix [1, 0] q \<and> around sample_tree 2 2 q"
proof -
  have n: "ts_tree_cursor_current_node (tree_cursor sample_tree []) = Some (ts_tree_root_node sample_tree)"
    using cursor_node_at [OF sample_tree_reads(1,2)] root_node_at by simp
  have "subtree_at (t_root sample_tree) [1, 0] = Some (sample_leaf 1 0)" "shown_at sample_tree [1, 0]"
    "start_of (t_root sample_tree) [1, 0] = 2" "end_of (t_root sample_tree) [1, 0] = 3" by code_simp+
  then have "around sample_tree 2 2 [1, 0]" by (simp add: around_def)
  moreover have "strict_prefix [] [1 :: nat, 0]" by (simp add: strict_prefix_def)
  moreover have "no_empty_at sample_tree (unat (2 :: u32))" by code_simp
  ultimately show ?thesis
    using descendant_for_byte_range_smallest [OF sample_tree_reads(1,5) _ sample_tree_reads(2) n, of 2 2] by fastforce
qed

end
