(* ===== verification/Node_Siblings.thy ===== *)
theory Node_Siblings
  imports Node_Text
begin

text \<open>
  The siblings of a node: the searches from the parent, over hidden nodes, give the neighbours of the node among the
  visible children, which are the ones a cursor moves to.
\<close>

section \<open>The children before a child\<close>

definition parts_before :: "TSLanguage \<Rightarrow> Subtree \<Rightarrow> nat \<Rightarrow> nat list list" where
  "parts_before lang t k = concat (map (child_part lang t) [0..<k])"

fun before :: "TSLanguage \<Rightarrow> Subtree \<Rightarrow> nat list \<Rightarrow> nat list list" where
  "before lang t [] = []"
| "before lang t (k # q) = parts_before lang t k @ map ((#) k) (before lang (ts_subtree_children t ! k) q)"

lemma child_paths_around: "way lang t q \<Longrightarrow> child_paths lang t = before lang t q @ q # after lang t q"
proof (induction q arbitrary: t)
  case (Cons k q)
  then have k: "k < ts_subtree_child_count t" by simp
  have "child_part lang t k = map ((#) k) (before lang (ts_subtree_children t ! k) q @ q # after lang (ts_subtree_children t ! k) q)"
    using Cons by (cases "q = []") (auto simp: child_part_def)
  moreover have "[0..<ts_subtree_child_count t] = [0..<k] @ k # [Suc k..<ts_subtree_child_count t]"
    using upt_add_eq_append [of 0 k "ts_subtree_child_count t - k"] upt_conv_Cons [OF k] k by simp
  ultimately show ?case by (simp add: child_paths_from_0 child_paths_from_def parts_before_def)
qed simp

lemma child_paths_neighbours:
  assumes "i < length (child_paths lang t)"
  shows "way lang t (child_paths lang t ! i)" "before lang t (child_paths lang t ! i) = take i (child_paths lang t)"
    "after lang t (child_paths lang t ! i) = drop (Suc i) (child_paths lang t)"
proof -
  let ?qs = "child_paths lang t"
  have qs: "?qs = take i ?qs @ ?qs ! i # drop (Suc i) ?qs" by (rule id_take_nth_drop [OF assms])
  then show w: "way lang t (?qs ! i)" and a: "after lang t (?qs ! i) = drop (Suc i) ?qs"
    using child_paths_after by metis+
  have "before lang t (?qs ! i) @ ?qs ! i # drop (Suc i) ?qs = take i ?qs @ ?qs ! i # drop (Suc i) ?qs"
    using child_paths_around [OF w] a qs by simp
  then show "before lang t (?qs ! i) = take i ?qs" by simp
qed

text \<open>The last child before an index that is shown or holds shown nodes.\<close>

fun last_part :: "TSLanguage \<Rightarrow> Subtree \<Rightarrow> nat \<Rightarrow> nat option" where
  "last_part lang t 0 = None"
| "last_part lang t (Suc k) = (if child_part lang t k \<noteq> [] then Some k else last_part lang t k)"

lemma last_part_some:
  "last_part lang t k = Some j \<Longrightarrow> j < k \<and> child_part lang t j \<noteq> [] \<and> last (parts_before lang t k) = last (child_part lang t j)"
  by (induction k) (auto simp: parts_before_def less_Suc_eq split: if_splits)

lemma last_part_none: "parts_before lang t k = [] \<longleftrightarrow> last_part lang t k = None"
  by (induction k) (auto simp: parts_before_def)

section \<open>What a search keeps\<close>

text \<open>The node that is kept for later, by its path, and the path that it stands for in the end.\<close>

definition hold :: "TSTree \<Rightarrow> nat list option \<Rightarrow> TSNode \<times> bool" where
  "hold tree kept = (case kept of None \<Rightarrow> (ts_node__null, False) | Some h \<Rightarrow> (node_at tree h, shown_at tree h))"

definition inside_paths :: "TSTree \<Rightarrow> nat list \<Rightarrow> nat list list" where
  "inside_paths tree h =
     (if shown_at tree h then [h]
      else case subtree_at (t_root tree) h of None \<Rightarrow> [] | Some u \<Rightarrow> map ((@) h) (child_paths (t_language tree) u))"

lemma inside_part:
  assumes "subtree_at (t_root tree) p = Some t" and "j < ts_subtree_child_count t"
  shows "inside_paths tree (p @ [j]) = map ((@) p) (child_part (t_language tree) t j)"
  using child_at [OF assms] shown_at_child [OF assms(1), of j] by (simp add: inside_paths_def child_part_def)

lemma null_is_null: "ts_node_is_null ts_node__null"
  by (simp add: ts_node_is_null_def ts_node__null_def ts_node_new_def)

lemma relevant_count:
  assumes rd: "readable (t_language tree) (t_root tree)" and p: "subtree_at (t_root tree) p = Some t"
    and i: "i < ts_subtree_child_count t"
  shows "\<exists>n. ts_node__relevant_child_count (node_at tree (p @ [i])) True = Some n \<and>
    (0 < n \<longleftrightarrow> child_paths (t_language tree) (ts_subtree_children t ! i) \<noteq> [])"
  using node_at_reads(1) [OF child_at [OF p i]] readable_hidden [OF readable_at [OF rd child_at [OF p i]]]
  by (cases "ts_subtree_children t ! i") (auto simp: ts_node__relevant_child_count_def ts_subtree_child_count_def)

section \<open>The previous sibling\<close>

lemma earlier_loop_pass:
  assumes rd: "readable (t_language tree) (t_root tree)" and sp: "spans M (t_root tree) w" "M < 2 ^ 32"
    and p: "subtree_at (t_root tree) p = Some t" and i: "i < ts_subtree_child_count t"
    and d: "subtree_at (t_root tree) d = Some s" "start_of (t_root tree) d < end_of (t_root tree) d"
    and front: "end_of (t_root tree) (p @ [i]) \<le> start_of (t_root tree) d"
    and fin: "unat target_end = end_of (t_root tree) d"
  shows "earlier_loop slot (node_at tree d) target_end True (node_iter tree p t i) e r =
    (if child_part (t_language tree) t i \<noteq> []
     then earlier_loop slot (node_at tree d) target_end True (node_iter tree p t (Suc i)) (node_at tree (p @ [i])) (shown_at tree (p @ [i]))
     else earlier_loop slot (node_at tree d) target_end True (node_iter tree p t (Suc i)) e r)"
proof -
  note c = child_at [OF p i]
  have "\<not> same_id (node_at tree (p @ [i])) (node_at tree d)" using same_id_at [OF c d(1)] front d(2) by auto
  moreover have "bytes (ni_position (node_iter tree p t (Suc i))) < target_end"
    using node_iter_end [OF sp p i] front d(2) fin by (simp add: word_less_nat_alt)
  moreover obtain n where "ts_node__relevant_child_count (node_at tree (p @ [i])) True = Some n"
    "0 < n \<longleftrightarrow> child_paths (t_language tree) (ts_subtree_children t ! i) \<noteq> []" using relevant_count [OF rd p i] by blast
  ultimately show ?thesis
    using node_next_at [OF rd p i] node_at_reads(5) [OF c] relevant_child [OF p i] shown_at_child [OF p, of i]
    by (subst earlier_loop.simps) (auto simp: child_part_def)
qed

lemma earlier_loop_to:
  assumes rd: "readable (t_language tree) (t_root tree)" and sp: "spans M (t_root tree) w" "M < 2 ^ 32"
    and p: "subtree_at (t_root tree) p = Some t" and k: "k \<le> ts_subtree_child_count t"
    and d: "subtree_at (t_root tree) d = Some s" "start_of (t_root tree) d < end_of (t_root tree) d"
    and front: "\<And>i. i < k \<Longrightarrow> end_of (t_root tree) (p @ [i]) \<le> start_of (t_root tree) d"
    and fin: "unat target_end = end_of (t_root tree) d"
  shows "i \<le> k \<Longrightarrow> hold tree (map_option (\<lambda>j. p @ [j]) (last_part (t_language tree) t i)) = (e, r) \<Longrightarrow>
    \<exists>e' r'. hold tree (map_option (\<lambda>j. p @ [j]) (last_part (t_language tree) t k)) = (e', r') \<and>
      earlier_loop slot (node_at tree d) target_end True (node_iter tree p t i) e r =
      earlier_loop slot (node_at tree d) target_end True (node_iter tree p t k) e' r'"
proof (induction "k - i" arbitrary: i e r)
  case (Suc n)
  then have i: "i < k" "i < ts_subtree_child_count t" using k by simp_all
  note step = earlier_loop_pass [OF rd sp p i(2) d front [OF i(1)] fin, of slot e r]
  show ?case
  proof (cases "child_part (t_language tree) t i = []")
    case True
    with Suc.hyps(1) [of "Suc i" e r] Suc.hyps(2) Suc.prems i step show ?thesis by simp
  next
    case False
    with Suc.hyps(1) [of "Suc i" "node_at tree (p @ [i])" "shown_at tree (p @ [i])"] Suc.hyps(2) i step show ?thesis
      by (simp add: hold_def)
  qed
qed auto

text \<open>The search in a hidden node before the target finds the last shown node in it.\<close>

lemma child_paths_parts: "child_paths lang t = parts_before lang t (ts_subtree_child_count t)"
  by (simp add: child_paths_from_0 child_paths_from_def parts_before_def)

lemma node_parts:
  assumes "subtree_at (t_root tree) p = Some t" "ts_subtree_child_count t \<noteq> 0" and "subtree_at (t_root tree) d = Some s"
    and "spans M (t_root tree) w" "M < 2 ^ 32"
  shows "\<exists>slot te. n_id (node_at tree d) = Some slot \<and> slot_path slot = d \<and> slot_tree slot = s \<and>
    ts_node_end_byte (node_at tree d) = Some te \<and> unat te = end_of (t_root tree) d \<and>
    ts_node_iterate_children (node_at tree p) = Some (node_iter tree p t 0) \<and> \<not> ts_node_is_null (node_at tree p)"
  using node_end_at [OF assms(4,5,3)] node_at_reads(5) [OF assms(3)] iterate_node_at [OF assms(1,2)] node_at_not_null
    path_entry_path path_entry_tree [OF assms(3)] by fastforce

lemma earlier_inside:
  assumes rd: "readable (t_language tree) (t_root tree)" and sp: "spans M (t_root tree) w" "M < 2 ^ 32"
    and d: "subtree_at (t_root tree) d = Some s" "start_of (t_root tree) d < end_of (t_root tree) d"
  shows "subtree_at (t_root tree) h = Some u \<Longrightarrow> child_paths (t_language tree) u \<noteq> [] \<Longrightarrow>
    end_of (t_root tree) h \<le> start_of (t_root tree) d \<Longrightarrow>
    sibling_rounds (earlier_round (node_at tree d) True) (node_at tree h, e, r) =
      Some (Some (node_at tree (h @ last (child_paths (t_language tree) u))))"
proof (induction u arbitrary: h rule: measure_induct_rule [where f = size])
  case (less u)
  let ?lang = "t_language tree" and ?n = "ts_subtree_child_count u"
  have n: "?n \<noteq> 0" using less.prems(2) child_paths_parts [of ?lang u] by (auto simp: parts_before_def)
  obtain slot te where it: "n_id (node_at tree d) = Some slot" "ts_node_end_byte (node_at tree d) = Some te"
    "unat te = end_of (t_root tree) d" "ts_node_iterate_children (node_at tree h) = Some (node_iter tree h u 0)"
    using node_parts [OF less.prems(1) n d(1) sp] by blast
  obtain j where j: "last_part ?lang u ?n = Some j" using less.prems(2) last_part_none [of ?lang u ?n] child_paths_parts by fastforce
  have front: "end_of (t_root tree) (h @ [i]) \<le> start_of (t_root tree) d" if "i < ?n" for i
    using nested_places(2) [OF sp child_at [OF less.prems(1) that]] less.prems(3) by simp
  have jn: "j < ?n" "child_part ?lang u j \<noteq> []" "last (child_paths ?lang u) = last (child_part ?lang u j)"
    using last_part_some [OF j] child_paths_parts by simp_all
  have loop: "earlier_loop slot (node_at tree d) te True (node_iter tree h u 0) ts_node__null False =
      Some (node_at tree (h @ [j]), child_shown ?lang u j, None)"
    using earlier_loop_to [OF rd sp less.prems(1) order_refl d front it(3), of 0 ts_node__null False slot] j
      node_next_end [OF less.prems(1) refl] shown_at_child [OF less.prems(1), of j]
    by (auto simp: hold_def earlier_loop.simps)
  then have round: "earlier_round (node_at tree d) True (node_at tree h, e, r) =
      Some (if child_shown ?lang u j then Inr (node_at tree (h @ [j])) else Inl (node_at tree (h @ [j]), e, r))"
    using it node_at_not_null by (simp add: earlier_round_def)
  show ?case
  proof (cases "child_shown ?lang u j")
    case True
    then show ?thesis using round jn by (simp add: sibling_rounds.simps child_part_def)
  next
    case False
    with jn have "child_paths ?lang (ts_subtree_children u ! j) \<noteq> []" by (simp add: child_part_def)
    from less.IH [OF nth_child_smaller [OF jn(1)] child_at [OF less.prems(1) jn(1)] this front [OF jn(1)]] False round jn this
    show ?thesis by (simp add: sibling_rounds.simps [of _ "(node_at tree h, e, r)"] child_part_def last_map)
  qed
qed

lemma earlier_loop_at:
  assumes rd: "readable (t_language tree) (t_root tree)" and sp: "spans M (t_root tree) w" "M < 2 ^ 32"
    and p: "subtree_at (t_root tree) p = Some t" and k: "k < ts_subtree_child_count t"
    and d: "subtree_at (t_root tree) (p @ k # z) = Some s" "start_of (t_root tree) (p @ k # z) < end_of (t_root tree) (p @ k # z)"
    and slot: "slot_tree slot = s" and fin: "unat target_end = end_of (t_root tree) (p @ k # z)"
    and e: "hold tree (map_option (\<lambda>j. p @ [j]) (last_part (t_language tree) t k)) = (e, r)"
  shows "earlier_loop slot (node_at tree (p @ k # z)) target_end True (node_iter tree p t 0) ts_node__null False =
    Some (e, r, if z = [] then None else Some (node_at tree (p @ [k])))"
proof -
  have d': "subtree_at (t_root tree) ((p @ [k]) @ z) = Some s" using d(1) by simp
  note nest = nested_places [OF sp d'] and c = child_at [OF p k]
  have front: "end_of (t_root tree) (p @ [i]) \<le> start_of (t_root tree) (p @ k # z)" if "i < k" for i
    using sibling_places [OF p that k] nest(1) by simp
  have "total_nat s \<noteq> 0" using d by (simp add: start_of_def end_of_def)
  then have total: "ts_subtree_total_bytes s \<noteq> 0" by (auto simp: total_nat_def)
  have "same_id (node_at tree (p @ [k])) (node_at tree (p @ k # z)) \<longleftrightarrow> z = []" using same_id_at [OF c d(1)] by auto
  moreover have "target_end \<le> bytes (ni_position (node_iter tree p t (Suc k)))"
    using node_iter_end [OF sp p k] nest(2) fin by (simp add: word_le_nat_alt)
  ultimately have "earlier_loop slot (node_at tree (p @ k # z)) target_end True (node_iter tree p t k) e r =
      Some (e, r, if z = [] then None else Some (node_at tree (p @ [k])))"
    using node_next_at [OF rd p k] node_at_reads(5) [OF c] slot total by (subst earlier_loop.simps) auto
  with earlier_loop_to [OF rd sp p less_imp_le [OF k] d front fin, of 0 ts_node__null False slot] e show ?thesis
    by (simp add: hold_def)
qed

text \<open>What the search gives in the end: the last of some paths, or of those inside the node that is kept.\<close>

definition last_result :: "TSTree \<Rightarrow> nat list list \<Rightarrow> TSNode" where
  "last_result tree qs = (if qs = [] then ts_node__null else node_at tree (last qs))"

definition kept_paths :: "TSTree \<Rightarrow> nat list option \<Rightarrow> nat list list" where
  "kept_paths tree kept = (case kept of None \<Rightarrow> [] | Some h \<Rightarrow> inside_paths tree h)"

definition kept_before :: "TSTree \<Rightarrow> nat list \<Rightarrow> nat list option \<Rightarrow> bool" where
  "kept_before tree d kept \<longleftrightarrow>
     (case kept of None \<Rightarrow> True
      | Some h \<Rightarrow> (\<exists>u. subtree_at (t_root tree) h = Some u) \<and> inside_paths tree h \<noteq> [] \<and>
          end_of (t_root tree) h \<le> start_of (t_root tree) d)"

lemma earlier_kept:
  assumes rd: "readable (t_language tree) (t_root tree)" and sp: "spans M (t_root tree) w" "M < 2 ^ 32"
    and d: "subtree_at (t_root tree) d = Some s" "start_of (t_root tree) d < end_of (t_root tree) d"
    and kept: "kept_before tree d kept" "hold tree kept = (e, False)"
  shows "sibling_rounds (earlier_round (node_at tree d) True) (e, e', r') = Some (Some (last_result tree (kept_paths tree kept)))"
proof (cases kept)
  case None
  then show ?thesis
    using kept by (simp add: hold_def sibling_rounds.simps earlier_round_def null_is_null last_result_def kept_paths_def split: if_splits)
next
  case (Some h)
  then obtain u where u: "subtree_at (t_root tree) h = Some u" "end_of (t_root tree) h \<le> start_of (t_root tree) d"
    "\<not> shown_at tree h" "e = node_at tree h" "inside_paths tree h \<noteq> []" using kept by (auto simp: kept_before_def hold_def)
  then have "child_paths (t_language tree) u \<noteq> []" by (simp add: inside_paths_def)
  from earlier_inside [OF rd sp d u(1) this u(2)] u Some this show ?thesis
    by (simp add: last_result_def kept_paths_def inside_paths_def last_map)
qed

text \<open>What is kept after the children before an index.\<close>

definition keep_last :: "TSTree \<Rightarrow> nat list \<Rightarrow> Subtree \<Rightarrow> nat \<Rightarrow> nat list option \<Rightarrow> nat list option" where
  "keep_last tree p t k kept =
     (case last_part (t_language tree) t k of None \<Rightarrow> kept | Some j \<Rightarrow> Some (p @ [j]))"

lemma keep_last_paths:
  assumes "subtree_at (t_root tree) p = Some t" and "k < ts_subtree_child_count t"
  shows "last_result tree (kept_paths tree (keep_last tree p t k kept) @ xs) =
    last_result tree (kept_paths tree kept @ map ((@) p) (parts_before (t_language tree) t k) @ xs)"
proof (cases "last_part (t_language tree) t k")
  case None
  then show ?thesis using last_part_none [of "t_language tree" t k] by (simp add: keep_last_def)
next
  case (Some j)
  note j = last_part_some [OF Some]
  have "parts_before (t_language tree) t k \<noteq> []" using Some last_part_none [of "t_language tree" t k] by simp
  with Some j assms inside_part [of tree p t j] show ?thesis
    by (simp add: keep_last_def kept_paths_def last_result_def last_append last_map)
qed

lemma keep_last_before:
  assumes sp: "spans M (t_root tree) w" "M < 2 ^ 32" and p: "subtree_at (t_root tree) p = Some t" and k: "k < ts_subtree_child_count t"
    and d: "subtree_at (t_root tree) (p @ k # z) = Some s" and kept: "kept_before tree (p @ k # z) kept"
  shows "kept_before tree (p @ k # z) (keep_last tree p t k kept)"
proof (cases "last_part (t_language tree) t k")
  case (Some j)
  note j = last_part_some [OF Some]
  have "subtree_at (t_root tree) ((p @ [k]) @ z) = Some s" using d by simp
  from nested_places(1) [OF sp this] sibling_places [OF p _ k, of j] j
  have "end_of (t_root tree) (p @ [j]) \<le> start_of (t_root tree) (p @ k # z)" by simp
  with Some j k child_at [OF p, of j] inside_part [OF p, of j] show ?thesis by (simp add: keep_last_def kept_before_def)
qed (simp add: keep_last_def kept)

lemma earlier_round_at:
  assumes rd: "readable (t_language tree) (t_root tree)" and sp: "spans M (t_root tree) w" "M < 2 ^ 32"
    and p: "subtree_at (t_root tree) p = Some t" and k: "k < ts_subtree_child_count t"
    and d: "subtree_at (t_root tree) (p @ k # z) = Some s" "start_of (t_root tree) (p @ k # z) < end_of (t_root tree) (p @ k # z)"
    and e: "hold tree kept = (e, r)" and e2: "hold tree (keep_last tree p t k kept) = (e2, r2)"
  shows "\<exists>e' r'. earlier_round (node_at tree (p @ k # z)) True (node_at tree p, e, r) =
    Some (if z \<noteq> [] then Inl (node_at tree (p @ [k]), e2, r2) else if r2 then Inr e2 else Inl (e2, e', r'))"
proof -
  have n: "ts_subtree_child_count t \<noteq> 0" using k by simp
  obtain slot te where it: "n_id (node_at tree (p @ k # z)) = Some slot" "slot_tree slot = s"
    "ts_node_end_byte (node_at tree (p @ k # z)) = Some te" "unat te = end_of (t_root tree) (p @ k # z)"
    "ts_node_iterate_children (node_at tree p) = Some (node_iter tree p t 0)"
    using node_parts [OF p n d(1) sp] by blast
  obtain e1 r1 where e1: "hold tree (map_option (\<lambda>j. p @ [j]) (last_part (t_language tree) t k)) = (e1, r1)" by fastforce
  note loop = earlier_loop_at [OF rd sp p k d it(2,4) e1]
  have "ts_node_is_null e1 \<longleftrightarrow> last_part (t_language tree) t k = None"
    using e1 node_at_not_null null_is_null by (auto simp: hold_def split: option.splits)
  with loop it e1 e2 e node_at_not_null null_is_null show ?thesis
    by (cases "last_part (t_language tree) t k") (auto simp: earlier_round_def keep_last_def hold_def split: option.splits)
qed

text \<open>A round that ends on what is kept: it is shown, or the search goes on inside it.\<close>

lemma earlier_end:
  assumes rd: "readable (t_language tree) (t_root tree)" and sp: "spans M (t_root tree) w" "M < 2 ^ 32"
    and d: "subtree_at (t_root tree) d = Some s" "start_of (t_root tree) d < end_of (t_root tree) d"
    and kept: "kept_before tree d kept" "hold tree kept = (e, r)"
    and step: "earlier_round (node_at tree d) True st = Some (if r then Inr e else Inl (e, e', r'))"
  shows "sibling_rounds (earlier_round (node_at tree d) True) st = Some (Some (last_result tree (kept_paths tree kept)))"
proof (cases r)
  case False
  then show ?thesis using earlier_kept [OF rd sp d kept(1), of e e' r'] kept(2) step by (simp add: sibling_rounds.simps [of _ st])
next
  case True
  then obtain h where "kept = Some h" "shown_at tree h" "e = node_at tree h"
    using kept(2) by (auto simp: hold_def split: option.splits)
  then show ?thesis using step True
    by (simp add: sibling_rounds.simps [of _ st] last_result_def kept_paths_def inside_paths_def)
qed

lemma earlier_rounds_at:
  assumes rd: "readable (t_language tree) (t_root tree)" and sp: "spans M (t_root tree) w" "M < 2 ^ 32"
  shows "subtree_at (t_root tree) p = Some t \<Longrightarrow> subtree_at (t_root tree) (p @ y) = Some s \<Longrightarrow> y \<noteq> [] \<Longrightarrow>
    start_of (t_root tree) (p @ y) < end_of (t_root tree) (p @ y) \<Longrightarrow> kept_before tree (p @ y) kept \<Longrightarrow> hold tree kept = (e, r) \<Longrightarrow>
    sibling_rounds (earlier_round (node_at tree (p @ y)) True) (node_at tree p, e, r) =
      Some (Some (last_result tree (kept_paths tree kept @ map ((@) p) (before (t_language tree) t y))))"
proof (induction y arbitrary: p t kept e r)
  case (Cons k z)
  let ?lang = "t_language tree" and ?kept = "keep_last tree p t k kept"
  have k: "k < ts_subtree_child_count t"
    using Cons.prems(1,2) by (auto simp: subtree_at_append bind_eq_Some_conv item_def ts_subtree_child_count_def split: if_splits)
  obtain e2 r2 where e2: "hold tree ?kept = (e2, r2)" by fastforce
  obtain e' r' where round: "earlier_round (node_at tree (p @ k # z)) True (node_at tree p, e, r) =
      Some (if z \<noteq> [] then Inl (node_at tree (p @ [k]), e2, r2) else if r2 then Inr e2 else Inl (e2, e', r'))"
    using earlier_round_at [OF rd sp Cons.prems(1) k Cons.prems(2,4,6) e2] by blast
  have kb: "kept_before tree (p @ k # z) ?kept"
    by (rule keep_last_before [OF sp Cons.prems(1) k Cons.prems(2,5)])
  show ?case
  proof (cases "z = []")
    case True
    with earlier_end [OF rd sp Cons.prems(2,4) kb e2, of "(node_at tree p, e, r)" e' r'] round
      keep_last_paths [OF Cons.prems(1) k, of kept "[]"] show ?thesis by simp
  next
    case False
    have "sibling_rounds (earlier_round (node_at tree ((p @ [k]) @ z)) True) (node_at tree (p @ [k]), e2, r2) =
        Some (Some (last_result tree (kept_paths tree ?kept @ map (\<lambda>a. p @ k # a) (before ?lang (ts_subtree_children t ! k) z))))"
      using Cons.IH [OF child_at [OF Cons.prems(1) k] _ False _ _ e2] Cons.prems(2,4) kb by simp
    then show ?thesis
      using keep_last_paths [OF Cons.prems(1) k, of kept] round False
      by (simp add: sibling_rounds.simps [of _ "(node_at tree p, e, r)"] comp_def)
  qed
qed simp

lemma prev_sibling_at:
  assumes rd: "readable (t_language tree) (t_root tree)" and sp: "spans M (t_root tree) w" "M < 2 ^ 32"
    and r: "subtree_at (t_root tree) r = Some t" "shown_at tree r" and i: "i < length (child_paths (t_language tree) t)"
    and d: "start_of (t_root tree) (r @ child_paths (t_language tree) t ! i) < end_of (t_root tree) (r @ child_paths (t_language tree) t ! i)"
  shows "ts_node_prev_sibling (node_at tree (r @ child_paths (t_language tree) t ! i)) =
    Some (Some (if i = 0 then ts_node__null else node_at tree (r @ child_paths (t_language tree) t ! (i - 1))))"
proof -
  let ?qs = "child_paths (t_language tree) t"
  have w: "way (t_language tree) t (?qs ! i)" and b: "before (t_language tree) t (?qs ! i) = take i ?qs"
    by (rule child_paths_neighbours [OF i])+
  obtain s where s: "subtree_at (t_root tree) (r @ ?qs ! i) = Some s" "?qs ! i \<noteq> []"
    using way_valid [OF w] r(1) w by (cases "?qs ! i") (auto simp: subtree_at_append)
  have "last (map ((@) r) (take i ?qs)) = r @ ?qs ! (i - 1)" if "i \<noteq> 0"
    using that i by (subst last_conv_nth) (auto simp: last_conv_nth)
  then show ?thesis
    using node_parent_at [OF rd sp r nth_mem [OF i] d] earlier_rounds_at [OF rd sp r(1) s d, of None ts_node__null False] b i
    by (auto simp: ts_node_prev_sibling_def ts_node__prev_sibling_def start_rounds_def kept_before_def hold_def kept_paths_def last_result_def)
qed

section \<open>The next sibling\<close>

text \<open>The first child from an index on that is shown or holds shown nodes, and the places of the shown nodes in it.\<close>

definition first_part :: "TSLanguage \<Rightarrow> Subtree \<Rightarrow> nat \<Rightarrow> nat option" where
  "first_part lang t i = List.find (\<lambda>j. child_part lang t j \<noteq> []) [i..<ts_subtree_child_count t]"

lemma first_part_step:
  "i < ts_subtree_child_count t \<Longrightarrow> first_part lang t i = (if child_part lang t i \<noteq> [] then Some i else first_part lang t (Suc i))"
  by (simp add: first_part_def upt_conv_Cons)

lemma first_part_cases:
  "case first_part lang t i of
     None \<Rightarrow> child_paths_from lang t i = []
   | Some j \<Rightarrow> i \<le> j \<and> j < ts_subtree_child_count t \<and> child_part lang t j \<noteq> [] \<and>
       hd (child_paths_from lang t i) = hd (child_part lang t j) \<and> child_paths_from lang t i \<noteq> [] \<and>
       set (child_part lang t j) \<subseteq> set (child_paths_from lang t i)"
proof (induction "ts_subtree_child_count t - i" arbitrary: i)
  case 0
  then show ?case by (simp add: first_part_def)
next
  case (Suc n)
  then have i: "i < ts_subtree_child_count t" and n: "n = ts_subtree_child_count t - Suc i" by simp_all
  from Suc.hyps(1) [OF n] i show ?case
    by (cases "first_part lang t (Suc i)") (auto simp: first_part_step [OF i] child_paths_from_step [OF i])
qed

lemma child_part_valid:
  assumes "v \<in> set (child_part lang t j)" and "j < ts_subtree_child_count t"
  shows "\<exists>z s. v = j # z \<and> subtree_at t v = Some s"
proof (cases "child_shown lang t j")
  case True
  then show ?thesis using assms by (simp add: child_part_def item_def ts_subtree_child_count_def)
next
  case False
  then obtain z where z: "v = j # z" "z \<in> set (child_paths lang (ts_subtree_children t ! j))" using assms by (auto simp: child_part_def)
  then obtain xs ys where "child_paths lang (ts_subtree_children t ! j) = xs @ z # ys" by (auto simp: in_set_conv_decomp)
  then have "way lang (ts_subtree_children t ! j) z" using child_paths_after by blast
  with way_valid z(1) assms(2) show ?thesis by (fastforce simp: item_def ts_subtree_child_count_def)
qed

lemma after_places:
  assumes sp: "spans M (t_root tree) w" "M < 2 ^ 32"
  shows "subtree_at (t_root tree) p = Some t \<Longrightarrow> subtree_at (t_root tree) (p @ q) = Some s \<Longrightarrow>
    v \<in> set (after (t_language tree) t q) \<Longrightarrow>
    end_of (t_root tree) (p @ q) \<le> start_of (t_root tree) (p @ v) \<and> (\<exists>u. subtree_at (t_root tree) (p @ v) = Some u)"
proof (induction q arbitrary: p t v)
  case (Cons k q)
  let ?c = "ts_subtree_children t ! k" and ?lang = "t_language tree"
  have k: "k < ts_subtree_child_count t"
    using Cons.prems(1,2) by (auto simp: subtree_at_append bind_eq_Some_conv item_def ts_subtree_child_count_def split: if_splits)
  note c = child_at [OF Cons.prems(1) k]
  have d: "subtree_at (t_root tree) ((p @ [k]) @ q) = Some s" using Cons.prems(2) by simp
  from Cons.prems(3) consider u where "v = k # u" "u \<in> set (after ?lang ?c q)"
    | j where "k < j" "j < ts_subtree_child_count t" "v \<in> set (child_part ?lang t j)"
    by (auto simp: child_paths_from_def Suc_le_eq)
  then show ?case
  proof cases
    case 1
    then show ?thesis using Cons.IH [OF c d] by auto
  next
    case 2
    obtain z u where v: "v = j # z" "subtree_at t v = Some u" using child_part_valid [OF 2(3,2)] by blast
    have u: "subtree_at (t_root tree) ((p @ [j]) @ z) = Some u" using v Cons.prems(1) by (simp add: subtree_at_append)
    have "end_of (t_root tree) (p @ k # q) \<le> end_of (t_root tree) (p @ [k])" using nested_places(2) [OF sp d] by simp
    also have "\<dots> \<le> start_of (t_root tree) (p @ [j])" by (rule sibling_places [OF Cons.prems(1) 2(1,2)])
    also have "\<dots> \<le> start_of (t_root tree) (p @ v)" using nested_places(1) [OF sp u] v(1) by simp
    finally show ?thesis using u v(1) by auto
  qed
qed simp

text \<open>Paths below a node whose text is not empty, and a child that holds such nodes behind the target.\<close>

definition solid :: "TSTree \<Rightarrow> nat list list \<Rightarrow> bool" where
  "solid tree qs \<longleftrightarrow> (\<forall>q \<in> set qs. start_of (t_root tree) q < end_of (t_root tree) q)"

lemma solid_part_end:
  assumes sp: "spans M (t_root tree) w" "M < 2 ^ 32" and p: "subtree_at (t_root tree) p = Some t" and i: "i < ts_subtree_child_count t"
    and part: "child_part (t_language tree) t i \<noteq> []" "solid tree (map ((@) p) (child_part (t_language tree) t i))"
  shows "start_of (t_root tree) (p @ [i]) < end_of (t_root tree) (p @ [i])"
proof -
  obtain v where v: "v \<in> set (child_part (t_language tree) t i)" using part(1) by (meson list.set_sel(1))
  obtain z s where z: "v = i # z" "subtree_at t v = Some s" using child_part_valid [OF v i] by blast
  have "subtree_at (t_root tree) ((p @ [i]) @ z) = Some s" using z p by (simp add: subtree_at_append)
  from nested_places [OF sp this] part(2) v z(1) show ?thesis by (fastforce simp: solid_def)
qed

lemma later_loop_behind:
  assumes rd: "readable (t_language tree) (t_root tree)" and sp: "spans M (t_root tree) w" "M < 2 ^ 32"
    and p: "subtree_at (t_root tree) p = Some t" and d: "subtree_at (t_root tree) d = Some s" "start_of (t_root tree) d < end_of (t_root tree) d"
    and fin: "unat target_end = end_of (t_root tree) d"
  shows "i \<le> ts_subtree_child_count t \<Longrightarrow>
    (\<And>j. i \<le> j \<Longrightarrow> j < ts_subtree_child_count t \<Longrightarrow> end_of (t_root tree) d \<le> start_of (t_root tree) (p @ [j])) \<Longrightarrow>
    solid tree (map ((@) p) (child_paths_from (t_language tree) t i)) \<Longrightarrow>
    hold tree (map_option (\<lambda>j. p @ [j]) (first_part (t_language tree) t i)) = (e, r) \<Longrightarrow>
    later_loop_node slot (node_at tree d) target_end True (node_iter tree p t i) containing = Some (e, r, containing)"
proof (induction "ts_subtree_child_count t - i" arbitrary: i)
  case 0
  then show ?case using node_next_end [OF p, of i] by (subst later_loop_node.simps) (simp add: first_part_def hold_def)
next
  case (Suc n)
  let ?lang = "t_language tree"
  have i: "i < ts_subtree_child_count t" using Suc by simp
  note c = child_at [OF p i] and parts = child_paths_from_step [OF i, of ?lang]
  have start: "\<not> ts_node_start_byte (node_at tree (p @ [i])) \<le> ts_node_start_byte (node_at tree d)"
    "ts_node_start_byte (node_at tree d) \<noteq> target_end"
    using places_at(1) [OF sp c] places_at(1) [OF sp d(1)] Suc.prems(2) [OF order_refl i] d(2) fin by (auto simp: word_le_nat_alt)
  obtain m where m: "ts_node__relevant_child_count (node_at tree (p @ [i])) True = Some m"
    "0 < m \<longleftrightarrow> child_paths ?lang (ts_subtree_children t ! i) \<noteq> []" using relevant_count [OF rd p i] by blast
  note reads = node_next_at [OF rd p i] node_at_reads(5) [OF c] relevant_child [OF p i] shown_at_child [OF p, of i] start m
  show ?case
  proof (cases "child_part ?lang t i = []")
    case True
    have "later_loop_node slot (node_at tree d) target_end True (node_iter tree p t (Suc i)) containing = Some (e, r, containing)"
      using Suc.hyps(1) [of "Suc i"] Suc.hyps(2) Suc.prems True i first_part_step [OF i, of ?lang] parts by simp
    then show ?thesis
      using reads True by (subst later_loop_node.simps) (auto simp: Let_def child_part_def split: if_splits)
  next
    case False
    have "solid tree (map ((@) p) (child_part ?lang t i))" using Suc.prems(3) parts by (simp add: solid_def)
    from solid_part_end [OF sp p i False this] Suc.prems(2) [OF order_refl i]
    have "\<not> bytes (ni_position (node_iter tree p t (Suc i))) \<le> target_end"
      using node_iter_end [OF sp p i] fin by (simp add: word_le_nat_alt)
    with reads False Suc.prems(4) first_part_step [OF i, of ?lang] show ?thesis
      by (subst later_loop_node.simps) (auto simp: Let_def hold_def child_part_def split: if_splits)
  qed
qed

definition first_result :: "TSTree \<Rightarrow> nat list list \<Rightarrow> TSNode" where
  "first_result tree qs = (if qs = [] then ts_node__null else node_at tree (hd qs))"

definition kept_after :: "TSTree \<Rightarrow> nat list \<Rightarrow> nat list option \<Rightarrow> bool" where
  "kept_after tree d kept \<longleftrightarrow>
     (case kept of None \<Rightarrow> True
      | Some h \<Rightarrow> (\<exists>u. subtree_at (t_root tree) h = Some u) \<and> inside_paths tree h \<noteq> [] \<and> solid tree (inside_paths tree h) \<and>
          end_of (t_root tree) d \<le> start_of (t_root tree) h)"

lemma later_inside:
  assumes rd: "readable (t_language tree) (t_root tree)" and sp: "spans M (t_root tree) w" "M < 2 ^ 32"
    and d: "subtree_at (t_root tree) d = Some s" "start_of (t_root tree) d < end_of (t_root tree) d"
  shows "subtree_at (t_root tree) h = Some u \<Longrightarrow> child_paths (t_language tree) u \<noteq> [] \<Longrightarrow>
    solid tree (map ((@) h) (child_paths (t_language tree) u)) \<Longrightarrow> end_of (t_root tree) d \<le> start_of (t_root tree) h \<Longrightarrow>
    sibling_rounds (later_round (node_at tree d) True) (node_at tree h, e, r) =
      Some (Some (node_at tree (h @ hd (child_paths (t_language tree) u))))"
proof (induction u arbitrary: h rule: measure_induct_rule [where f = size])
  case (less u)
  let ?lang = "t_language tree" and ?n = "ts_subtree_child_count u"
  have n: "?n \<noteq> 0" using less.prems(2) child_paths_parts [of ?lang u] by (auto simp: parts_before_def)
  obtain slot te where it: "n_id (node_at tree d) = Some slot" "ts_node_end_byte (node_at tree d) = Some te"
    "unat te = end_of (t_root tree) d" "ts_node_iterate_children (node_at tree h) = Some (node_iter tree h u 0)"
    using node_parts [OF less.prems(1) n d(1) sp] by blast
  obtain j where j: "first_part ?lang u 0 = Some j" "j < ?n" "child_part ?lang u j \<noteq> []"
    "hd (child_paths ?lang u) = hd (child_part ?lang u j)" "set (child_part ?lang u j) \<subseteq> set (child_paths ?lang u)"
    using first_part_cases [of ?lang u 0] less.prems(2) by (auto simp: child_paths_from_0 split: option.splits)
  have behind: "end_of (t_root tree) d \<le> start_of (t_root tree) (h @ [i])" if "i < ?n" for i
    using nested_places(1) [OF sp child_at [OF less.prems(1) that]] less.prems(4) by simp
  have "solid tree (map ((@) h) (child_paths_from ?lang u 0))" using less.prems(3) by (simp add: child_paths_from_0)
  then have "later_loop_node slot (node_at tree d) te True (node_iter tree h u 0) ts_node__null =
      Some (node_at tree (h @ [j]), child_shown ?lang u j, ts_node__null)"
    using later_loop_behind [OF rd sp less.prems(1) d it(3), of 0] behind j(1) shown_at_child [OF less.prems(1), of j]
    by (simp add: hold_def)
  then have round: "later_round (node_at tree d) True (node_at tree h, e, r) =
      Some (if child_shown ?lang u j then Inr (node_at tree (h @ [j])) else Inl (node_at tree (h @ [j]), e, r))"
    using it node_at_not_null null_is_null by (simp add: later_round_def)
  show ?case
  proof (cases "child_shown ?lang u j")
    case True
    then show ?thesis using round j by (simp add: sibling_rounds.simps child_part_def)
  next
    case False
    with j have c: "child_paths ?lang (ts_subtree_children u ! j) \<noteq> []" by (simp add: child_part_def)
    have "solid tree (map ((@) (h @ [j])) (child_paths ?lang (ts_subtree_children u ! j)))"
      using less.prems(3) j(5) False by (auto simp: solid_def child_part_def)
    from less.IH [OF nth_child_smaller [OF j(2)] child_at [OF less.prems(1) j(2)] c this behind [OF j(2)]] False round j c
    show ?thesis by (simp add: sibling_rounds.simps [of _ "(node_at tree h, e, r)"] child_part_def list.map_sel(1))
  qed
qed

lemma later_end:
  assumes rd: "readable (t_language tree) (t_root tree)" and sp: "spans M (t_root tree) w" "M < 2 ^ 32"
    and d: "subtree_at (t_root tree) d = Some s" "start_of (t_root tree) d < end_of (t_root tree) d"
    and kept: "kept_after tree d kept" "hold tree kept = (e, r)"
    and step: "later_round (node_at tree d) True st = Some (if r then Inr e else Inl (e, e', r'))"
  shows "sibling_rounds (later_round (node_at tree d) True) st = Some (Some (first_result tree (kept_paths tree kept)))"
proof (cases kept)
  case None
  then show ?thesis using kept(2) step
    by (simp add: hold_def sibling_rounds.simps later_round_def null_is_null first_result_def kept_paths_def split: if_splits)
next
  case (Some h)
  then obtain u where u: "subtree_at (t_root tree) h = Some u" "end_of (t_root tree) d \<le> start_of (t_root tree) h"
    "r = shown_at tree h" "e = node_at tree h" "inside_paths tree h \<noteq> []" "solid tree (inside_paths tree h)"
    using kept by (auto simp: kept_after_def hold_def)
  show ?thesis
  proof (cases r)
    case True
    then show ?thesis using step u Some
      by (simp add: sibling_rounds.simps [of _ st] first_result_def kept_paths_def inside_paths_def)
  next
    case False
    then have "inside_paths tree h = map ((@) h) (child_paths (t_language tree) u)" using u by (simp add: inside_paths_def)
    with later_inside [OF rd sp d u(1) _ _ u(2), of e' r'] u False step Some show ?thesis
      by (simp add: sibling_rounds.simps [of _ st] first_result_def kept_paths_def list.map_sel(1))
  qed
qed

text \<open>The children up to the one that holds the target: only that one can hold text behind it.\<close>

definition beyond :: "TSTree \<Rightarrow> nat list \<Rightarrow> nat \<Rightarrow> nat list \<Rightarrow> bool" where
  "beyond tree p k z \<longleftrightarrow> end_of (t_root tree) (p @ k # z) < end_of (t_root tree) (p @ [k])"

lemma later_loop_pass:
  assumes rd: "readable (t_language tree) (t_root tree)" and sp: "spans M (t_root tree) w" "M < 2 ^ 32"
    and p: "subtree_at (t_root tree) p = Some t" and k: "k < ts_subtree_child_count t"
    and d: "subtree_at (t_root tree) (p @ k # z) = Some s" "start_of (t_root tree) (p @ k # z) < end_of (t_root tree) (p @ k # z)"
    and slot: "slot_path slot = p @ k # z" and fin: "unat target_end = end_of (t_root tree) (p @ k # z)"
  shows "i \<le> k \<Longrightarrow> later_loop_node slot (node_at tree (p @ k # z)) target_end True (node_iter tree p t i) ts_node__null =
    later_loop_node slot (node_at tree (p @ k # z)) target_end True (node_iter tree p t (Suc k))
      (if beyond tree p k z then node_at tree (p @ [k]) else ts_node__null)"
proof (induction "k - i" arbitrary: i)
  case 0
  then have i: "i = k" by simp
  note c = child_at [OF p k]
  have d': "subtree_at (t_root tree) ((p @ [k]) @ z) = Some s" using d(1) by simp
  have here: "bytes (ni_position (node_iter tree p t (Suc k))) \<le> target_end \<longleftrightarrow> \<not> beyond tree p k z"
    using node_iter_end [OF sp p k] fin nested_places(2) [OF sp d'] by (auto simp: word_le_nat_alt beyond_def)
  have start: "ts_node_start_byte (node_at tree (p @ [k])) \<le> ts_node_start_byte (node_at tree (p @ k # z))"
    "ts_node_start_byte (node_at tree (p @ k # z)) \<noteq> target_end"
    using places_at(1) [OF sp c] places_at(1) [OF sp d(1)] nested_places(1) [OF sp d'] fin d(2) by (auto simp: word_le_nat_alt)
  have "\<not> same_ptr (e_subtree (path_entry tree (p @ [k]))) slot" if "beyond tree p k z"
  proof -
    have z: "z \<noteq> []" using that by (auto simp: beyond_def)
    then have "ts_subtree_children (ts_subtree_children t ! k) \<noteq> []"
      using d' p k by (cases z) (auto simp: subtree_at_append item_def ts_subtree_child_count_def bind_eq_Some_conv split: if_splits)
    then show ?thesis using z slot path_entry_path [of tree "p @ [k]"] path_entry_tree [OF c]
      by (cases "ts_subtree_children t ! k"; cases "slot_tree slot") (auto simp: same_ptr_def)
  qed
  with here start node_next_at [OF rd p k] node_at_reads(5) [OF c] show ?case
    unfolding i by (subst later_loop_node.simps) (auto simp: Let_def)
next
  case (Suc n)
  then have i: "i < k" "i < ts_subtree_child_count t" using k by simp_all
  have d': "subtree_at (t_root tree) ((p @ [k]) @ z) = Some s" using d(1) by simp
  have "bytes (ni_position (node_iter tree p t (Suc i))) \<le> target_end"
    using node_iter_end [OF sp p i(2)] sibling_places [OF p i(1) k] nested_places(1) [OF sp d'] d(2) fin by (simp add: word_le_nat_alt)
  with Suc.hyps(1) [of "Suc i"] Suc.hyps(2) i node_next_at [OF rd p i(2)] show ?case
    by (subst later_loop_node.simps) simp
qed

definition keep_first :: "TSTree \<Rightarrow> nat list \<Rightarrow> Subtree \<Rightarrow> nat \<Rightarrow> nat list option \<Rightarrow> nat list option" where
  "keep_first tree p t i kept = (case first_part (t_language tree) t i of None \<Rightarrow> kept | Some j \<Rightarrow> Some (p @ [j]))"

lemma keep_first_paths:
  assumes "subtree_at (t_root tree) p = Some t"
  shows "first_result tree (xs @ kept_paths tree (keep_first tree p t i kept)) =
    first_result tree (xs @ map ((@) p) (child_paths_from (t_language tree) t i) @ kept_paths tree kept)"
  using first_part_cases [of "t_language tree" t i] inside_part [OF assms]
  by (cases "first_part (t_language tree) t i")
    (auto simp: keep_first_def kept_paths_def first_result_def hd_append list.map_sel(1))

lemma later_round_at:
  assumes rd: "readable (t_language tree) (t_root tree)" and sp: "spans M (t_root tree) w" "M < 2 ^ 32"
    and p: "subtree_at (t_root tree) p = Some t" and k: "k < ts_subtree_child_count t"
    and d: "subtree_at (t_root tree) (p @ k # z) = Some s" "start_of (t_root tree) (p @ k # z) < end_of (t_root tree) (p @ k # z)"
    and solid: "solid tree (map ((@) p) (child_paths_from (t_language tree) t (Suc k)))"
    and e: "hold tree kept = (e, r)" and e2: "hold tree (keep_first tree p t (Suc k) kept) = (e2, r2)"
  shows "\<exists>e' r'. later_round (node_at tree (p @ k # z)) True (node_at tree p, e, r) =
    Some (if beyond tree p k z then Inl (node_at tree (p @ [k]), e2, r2) else if r2 then Inr e2 else Inl (e2, e', r'))"
proof -
  have n: "ts_subtree_child_count t \<noteq> 0" using k by simp
  obtain slot te where it: "n_id (node_at tree (p @ k # z)) = Some slot" "slot_path slot = p @ k # z"
    "ts_node_end_byte (node_at tree (p @ k # z)) = Some te" "unat te = end_of (t_root tree) (p @ k # z)"
    "ts_node_iterate_children (node_at tree p) = Some (node_iter tree p t 0)"
    using node_parts [OF p n d(1) sp] by blast
  have d': "subtree_at (t_root tree) ((p @ [k]) @ z) = Some s" using d(1) by simp
  have behind: "end_of (t_root tree) (p @ k # z) \<le> start_of (t_root tree) (p @ [j])" if "Suc k \<le> j" "j < ts_subtree_child_count t" for j
    using sibling_places [OF p _ that(2), of k] nested_places(2) [OF sp d'] that(1) by simp
  let ?inside = "if beyond tree p k z then node_at tree (p @ [k]) else ts_node__null"
  obtain e1 r1 where e1: "hold tree (map_option (\<lambda>j. p @ [j]) (first_part (t_language tree) t (Suc k))) = (e1, r1)" by fastforce
  have loop: "later_loop_node slot (node_at tree (p @ k # z)) te True (node_iter tree p t 0) ts_node__null = Some (e1, r1, ?inside)"
    using later_loop_pass [OF rd sp p k d it(2,4), of 0] later_loop_behind [OF rd sp p d it(4) _ behind solid e1] k by simp
  have "ts_node_is_null e1 \<longleftrightarrow> first_part (t_language tree) t (Suc k) = None"
    using e1 node_at_not_null null_is_null by (auto simp: hold_def split: option.splits)
  with loop it e1 e2 e node_at_not_null null_is_null show ?thesis
    by (cases "first_part (t_language tree) t (Suc k)"; cases "beyond tree p k z")
      (auto simp: later_round_def keep_first_def hold_def split: option.splits)
qed

lemma keep_first_after:
  assumes sp: "spans M (t_root tree) w" "M < 2 ^ 32" and p: "subtree_at (t_root tree) p = Some t" and k: "k < ts_subtree_child_count t"
    and d: "subtree_at (t_root tree) (p @ k # z) = Some s" and kept: "kept_after tree (p @ k # z) kept"
    and solid: "solid tree (map ((@) p) (child_paths_from (t_language tree) t (Suc k)))"
  shows "kept_after tree (p @ k # z) (keep_first tree p t (Suc k) kept)"
proof (cases "first_part (t_language tree) t (Suc k)")
  case (Some j)
  with first_part_cases [of "t_language tree" t "Suc k"]
  have j: "k < j" "j < ts_subtree_child_count t" "child_part (t_language tree) t j \<noteq> []"
    "set (child_part (t_language tree) t j) \<subseteq> set (child_paths_from (t_language tree) t (Suc k))" by auto
  have "subtree_at (t_root tree) ((p @ [k]) @ z) = Some s" using d by simp
  from nested_places(2) [OF sp this] sibling_places [OF p j(1,2)]
  have "end_of (t_root tree) (p @ k # z) \<le> start_of (t_root tree) (p @ [j])" by simp
  moreover have "solid tree (map ((@) p) (child_part (t_language tree) t j))" using solid j(4) by (auto simp: solid_def)
  ultimately show ?thesis
    using Some j child_at [OF p j(2)] inside_part [OF p j(2)] by (simp add: keep_first_def kept_after_def)
qed (simp add: keep_first_def kept)

lemma later_rounds_at:
  assumes rd: "readable (t_language tree) (t_root tree)" and sp: "spans M (t_root tree) w" "M < 2 ^ 32"
  shows "subtree_at (t_root tree) p = Some t \<Longrightarrow> subtree_at (t_root tree) (p @ y) = Some s \<Longrightarrow> y \<noteq> [] \<Longrightarrow>
    start_of (t_root tree) (p @ y) < end_of (t_root tree) (p @ y) \<Longrightarrow> kept_after tree (p @ y) kept \<Longrightarrow> hold tree kept = (e, r) \<Longrightarrow>
    solid tree (map ((@) p) (after (t_language tree) t y)) \<Longrightarrow>
    sibling_rounds (later_round (node_at tree (p @ y)) True) (node_at tree p, e, r) =
      Some (Some (first_result tree (map ((@) p) (after (t_language tree) t y) @ kept_paths tree kept)))"
proof (induction y arbitrary: p t kept e r)
  case (Cons k z)
  let ?lang = "t_language tree" and ?kept = "keep_first tree p t (Suc k) kept" and ?c = "ts_subtree_children t ! k"
  have k: "k < ts_subtree_child_count t"
    using Cons.prems(1,2) by (auto simp: subtree_at_append bind_eq_Some_conv item_def ts_subtree_child_count_def split: if_splits)
  note c = child_at [OF Cons.prems(1) k]
  have d: "subtree_at (t_root tree) ((p @ [k]) @ z) = Some s" using Cons.prems(2) by simp
  have solid: "solid tree (map ((@) p) (child_paths_from ?lang t (Suc k)))" "solid tree (map ((@) (p @ [k])) (after ?lang ?c z))"
    using Cons.prems(7) by (auto simp: solid_def)
  obtain e2 r2 where e2: "hold tree ?kept = (e2, r2)" by fastforce
  obtain e' r' where round: "later_round (node_at tree (p @ k # z)) True (node_at tree p, e, r) =
      Some (if beyond tree p k z then Inl (node_at tree (p @ [k]), e2, r2) else if r2 then Inr e2 else Inl (e2, e', r'))"
    using later_round_at [OF rd sp Cons.prems(1) k Cons.prems(2,4) solid(1) Cons.prems(6) e2] by blast
  have ka: "kept_after tree (p @ k # z) ?kept" by (rule keep_first_after [OF sp Cons.prems(1) k Cons.prems(2,5) solid(1)])
  show ?case
  proof (cases "beyond tree p k z")
    case True
    then have z: "z \<noteq> []" by (auto simp: beyond_def)
    have "sibling_rounds (later_round (node_at tree (p @ k # z)) True) (node_at tree (p @ [k]), e2, r2) =
        Some (Some (first_result tree (map (\<lambda>a. p @ k # a) (after ?lang ?c z) @ kept_paths tree ?kept)))"
      using Cons.IH [OF c d z _ _ e2 solid(2)] Cons.prems(4) ka by simp
    with True round keep_first_paths [OF Cons.prems(1), of _ "Suc k" kept] show ?thesis
      by (simp add: sibling_rounds.simps [of _ "(node_at tree p, e, r)"] comp_def)
  next
    case False
    have "after ?lang ?c z = []"
    proof (rule ccontr)
      assume "after ?lang ?c z \<noteq> []"
      then obtain v where v: "v \<in> set (after ?lang ?c z)" by (meson list.set_sel(1))
      from after_places [OF sp c d v] nested_places(2) [OF sp, of "p @ [k]" v] solid(2) v False show False
        by (fastforce simp: solid_def beyond_def)
    qed
    with later_end [OF rd sp Cons.prems(2,4) ka e2, of "(node_at tree p, e, r)" e' r'] round False
      keep_first_paths [OF Cons.prems(1), of "[]" "Suc k" kept] show ?thesis by simp
  qed
qed simp

lemma next_sibling_at:
  assumes rd: "readable (t_language tree) (t_root tree)" and sp: "spans M (t_root tree) w" "M < 2 ^ 32"
    and r: "subtree_at (t_root tree) r = Some t" "shown_at tree r" and i: "i < length (child_paths (t_language tree) t)"
    and solid: "solid tree (map ((@) r) (child_paths (t_language tree) t))"
  shows "ts_node_next_sibling (node_at tree (r @ child_paths (t_language tree) t ! i)) =
    Some (Some (if Suc i < length (child_paths (t_language tree) t) then node_at tree (r @ child_paths (t_language tree) t ! Suc i)
                else ts_node__null))"
proof -
  let ?qs = "child_paths (t_language tree) t"
  have w: "way (t_language tree) t (?qs ! i)" and a: "after (t_language tree) t (?qs ! i) = drop (Suc i) ?qs"
    by (rule child_paths_neighbours [OF i])+
  obtain s where s: "subtree_at (t_root tree) (r @ ?qs ! i) = Some s" "?qs ! i \<noteq> []"
    using way_valid [OF w] r(1) w by (cases "?qs ! i") (auto simp: subtree_at_append)
  have d: "start_of (t_root tree) (r @ ?qs ! i) < end_of (t_root tree) (r @ ?qs ! i)" using solid nth_mem [OF i] by (auto simp: solid_def)
  have "solid tree (map ((@) r) (drop (Suc i) ?qs))" using solid set_drop_subset [of "Suc i" ?qs] by (auto simp: solid_def)
  with node_parent_at [OF rd sp r nth_mem [OF i] d] later_rounds_at [OF rd sp r(1) s d, of None ts_node__null False] a
  show ?thesis
    by (auto simp: ts_node_next_sibling_def ts_node__next_sibling_def start_rounds_def kept_after_def hold_def kept_paths_def
        first_result_def hd_map hd_drop_conv_nth)
qed

section \<open>Properties\<close>

text \<open>
  C13. The siblings of a node are its neighbours among the visible children of its parent, the nodes that a cursor walks
  over, and the null node at either end: the previous one for every child with text, the next one where all
  the children have text. The searches end, though nothing in the code bounds their rounds.
\<close>

theorem siblings_of_child:
  assumes "readable (t_language tree) (t_root tree)" and "spans M (t_root tree) w" and "M < 2 ^ 32"
    and "r \<in> set (visible_span (t_language tree) True (t_root tree))"
    and "subtree_at (t_root tree) r = Some t" and "qs = child_paths (t_language tree) t" and "i < length qs"
    and "ts_tree_cursor_current_node (tree_cursor tree (r @ qs ! i)) = Some c"
    and "start_of (t_root tree) (r @ qs ! i) < end_of (t_root tree) (r @ qs ! i)"
  shows "ts_node_prev_sibling c =
      Some (if i = 0 then Some ts_node__null else ts_tree_cursor_current_node (tree_cursor tree (r @ qs ! (i - 1)))) \<and>
    (solid tree (map ((@) r) qs) \<longrightarrow>
      ts_node_next_sibling c =
        Some (if Suc i < length qs then ts_tree_cursor_current_node (tree_cursor tree (r @ qs ! Suc i)) else Some ts_node__null))"
proof -
  have r: "shown_at tree r"
    using visible_path_at [of r "t_language tree" True "root_entry tree"] assms(4) by (simp add: shown_at_def)
  have node: "ts_tree_cursor_current_node (tree_cursor tree (r @ qs ! j)) = Some (node_at tree (r @ qs ! j))" if "j < length qs" for j
    using way_valid [OF child_paths_neighbours(1)] that assms(6) cursor_node_at [OF assms(1)] assms(5)
    by (fastforce simp: subtree_at_append)
  have c: "c = node_at tree (r @ qs ! i)" using node [OF assms(7)] assms(8) by simp
  have i: "i < length (child_paths (t_language tree) t)" using assms(6,7) by simp
  from prev_sibling_at [OF assms(1-3,5) r i] next_sibling_at [OF assms(1-3,5) r i] assms(6,7,9) node [of "i - 1"] node [of "Suc i"] c
  show ?thesis by (cases "i = 0") (simp_all split del: if_split, simp_all)
qed

theorem siblings_of_child_witness:
  "\<exists>c. ts_tree_cursor_current_node (tree_cursor sample_tree [1, 0]) = Some c \<and>
     ts_node_prev_sibling c = Some (ts_tree_cursor_current_node (tree_cursor sample_tree [0])) \<and>
     ts_node_next_sibling c = Some (ts_tree_cursor_current_node (tree_cursor sample_tree [1, 1]))"
proof -
  have r: "[] \<in> set (visible_span (t_language sample_tree) True (t_root sample_tree))" by (simp add: sample_tree_reads(4))
  have c: "ts_tree_cursor_current_node (tree_cursor sample_tree [1, 0]) \<noteq> None"
    "start_of (t_root sample_tree) [1, 0] < end_of (t_root sample_tree) [1, 0]"
    "solid sample_tree [[0], [1, 0], [1, 1]]" by code_simp+
  then obtain c where c': "ts_tree_cursor_current_node (tree_cursor sample_tree [1, 0]) = Some c" by blast
  from siblings_of_child [OF sample_tree_reads(1,5) _ r sample_tree_reads(2) sample_tree_reads(3) [symmetric], of 1 c] c c' show ?thesis
    by auto
qed

section \<open>Where nodes and cursors differ\<close>

definition test_leaf :: "bool \<Rightarrow> u8 \<Rightarrow> Subtree" where
  "test_leaf vis n = Inline \<lparr>in_visible = vis, in_named = vis, in_extra = False, in_has_changes = False,
     in_is_missing = (n = 0), in_is_keyword = False, in_symbol = (if vis then 1 else 0), in_parse_state = 1, in_padding_columns = 0,
     in_padding_rows = 0, in_lookahead_bytes = 0, in_padding_bytes = 0, in_size_bytes = n\<rparr>"

definition test_tree :: "TSLanguage \<Rightarrow> Subtree list \<Rightarrow> TSTree" where
  "test_tree lang cs =
     ts_tree_new (case ts_subtree_new_node 2 cs 1 lang of Some t \<Rightarrow> t | None \<Rightarrow> test_leaf True 0) lang []"

text \<open>A child without text at the end of a node, such as a missing token, is not its next sibling, though the cursor goes there.\<close>

theorem next_sibling_skips_empty:
  "(let tree = test_tree (tree_language\<lparr>alias_sequences := [0, 0, 0, 0]\<rparr>) [test_leaf True 1, test_leaf True 0]
    in map_option ts_node_next_sibling (ts_tree_cursor_current_node (tree_cursor tree [0])) = Some (Some (Some ts_node__null)) \<and>
       ts_tree_cursor_goto_next_sibling (tree_cursor tree [0]) = Some (True, tree_cursor tree [1]))"
  by code_simp

text \<open>
  The search for the first child behind a byte gives up in a hidden node with as many children as there are nodes up to it,
  though the child behind that node would do.
\<close>

theorem first_child_for_byte_missed:
  "(let tree = test_tree (tree_language\<lparr>max_alias_sequence_length := 3, alias_sequences := replicate 6 0\<rparr>)
      [test_leaf True 1, sample_repeat (test_leaf True 1) (test_leaf False 1), test_leaf True 1];
        root = ts_tree_root_node tree
    in ts_node_first_child_for_byte root 2 = Some ts_node__null \<and>
       map_option ts_node_end_byte (ts_node_child root 2) = Some (Some 4))"
  by code_simp

text \<open>
  The named child at the index 0 is taken from inside the first child, which is shown under an anonymous alias and so is a
  child of its own, while the count of named children leaves out what is inside it.
\<close>

theorem named_child_inside_anonymous:
  "(let lang = tree_language\<lparr>symbol_metadata := [\<lparr>visible = False, named = False, supertype = False\<rparr>,
          \<lparr>visible = True, named = True, supertype = False\<rparr>, \<lparr>visible = True, named = True, supertype = False\<rparr>,
          \<lparr>visible = True, named = False, supertype = False\<rparr>, \<lparr>visible = False, named = False, supertype = False\<rparr>],
          alias_sequences := [0, 0, 3, 0]\<rparr>;
        root = ts_tree_root_node (test_tree lang [sample_repeat (test_leaf True 1) (test_leaf True 1), test_leaf True 1])
    in ts_node_named_child_count root = Some 1 \<and>
       map_option (map_option slot_path \<circ> n_id) (ts_node_named_child root 0) = Some (Some [0, 0]) \<and>
       map_option (map_option slot_path \<circ> n_id) (ts_node_child root 0) = Some (Some [0]))"
  by code_simp

end
