(* ===== verification/Reusable_Node.thy ===== *)
theory Reusable_Node
  imports Node_Text
begin

text \<open>
  The walk over an old tree for nodes that can be used again: \<open>reusable_node.h\<close>. The parser moves it along with the
  text: it skips a node, or enters it to look at its children. The stack is a list with the top first; \<open>None\<close> is a
  read outside an array or a failed assertion.
\<close>

section \<open>Model\<close>

record StackEntry =
  se_tree :: Subtree
  se_child_index :: nat
  se_byte_offset :: u32

record ReusableNode =
  rn_stack :: "StackEntry list"
  rn_last_external_token :: "Subtree option"

definition reusable_node_new :: ReusableNode where
  "reusable_node_new = \<lparr>rn_stack = [], rn_last_external_token = None\<rparr>"

definition reusable_node_clear :: "ReusableNode \<Rightarrow> ReusableNode" where
  "reusable_node_clear self = self\<lparr>rn_stack := [], rn_last_external_token := None\<rparr>"

definition reusable_node_tree :: "ReusableNode \<Rightarrow> Subtree option" where
  "reusable_node_tree self = (case rn_stack self of [] \<Rightarrow> None | e # st \<Rightarrow> Some (se_tree e))"

definition reusable_node_byte_offset :: "ReusableNode \<Rightarrow> u32" where
  "reusable_node_byte_offset self = (case rn_stack self of [] \<Rightarrow> UINT32_MAX | e # st \<Rightarrow> se_byte_offset e)"

text \<open>The loop that pops entries until one has a child behind the popped one: the stack then, and the index of that child.\<close>

fun advance_pop :: "StackEntry list \<Rightarrow> StackEntry list \<times> nat" where
  "advance_pop [] = ([], 0)"
| "advance_pop [popped] = ([], se_child_index popped + 1)"
| "advance_pop (popped # e # st) =
     (if ts_subtree_child_count (se_tree e) \<le> se_child_index popped + 1 then advance_pop (e # st)
      else (e # st, se_child_index popped + 1))"

definition reusable_node_advance :: "ReusableNode \<Rightarrow> ReusableNode option" where
  "reusable_node_advance self =
     (case rn_stack self of
        [] \<Rightarrow> None
      | last_entry # _ \<Rightarrow> do {
          let byte_offset = se_byte_offset last_entry + ts_subtree_total_bytes (se_tree last_entry);
          token \<leftarrow> (if ts_subtree_has_external_tokens (se_tree last_entry)
                   then ts_subtree_last_external_token (se_tree last_entry) else Some (rn_last_external_token self));
          case advance_pop (rn_stack self) of
            ([], next_index) \<Rightarrow> Some (self\<lparr>rn_stack := [], rn_last_external_token := token\<rparr>)
          | (e # st, next_index) \<Rightarrow> do {
              child \<leftarrow> item (ts_subtree_children (se_tree e)) next_index;
              Some (self\<lparr>rn_stack := \<lparr>se_tree = child, se_child_index = next_index, se_byte_offset = byte_offset\<rparr> # e # st,
                         rn_last_external_token := token\<rparr>)
            }
        })"

definition reusable_node_descend :: "ReusableNode \<Rightarrow> (bool \<times> ReusableNode) option" where
  "reusable_node_descend self =
     (case rn_stack self of
        [] \<Rightarrow> None
      | last_entry # st \<Rightarrow>
          (case ts_subtree_children (se_tree last_entry) of
             [] \<Rightarrow> Some (False, self)
           | child # _ \<Rightarrow>
               Some (True, self\<lparr>rn_stack := \<lparr>se_tree = child, se_child_index = 0, se_byte_offset = se_byte_offset last_entry\<rparr> #
                                  rn_stack self\<rparr>)))"

lemma reusable_descend_smaller:
  "reusable_node_descend self = Some (True, self') \<Longrightarrow> size (se_tree (hd (rn_stack self'))) < size (se_tree (hd (rn_stack self)))"
  by (auto simp: reusable_node_descend_def size_child split: list.splits)

function descend_all :: "ReusableNode \<Rightarrow> ReusableNode option" where
  "descend_all self =
     (case reusable_node_descend self of
        None \<Rightarrow> None
      | Some (True, self') \<Rightarrow> descend_all self'
      | Some (False, self') \<Rightarrow> Some self')"
  by pat_completeness auto
termination by (relation "measure (\<lambda>self. size (se_tree (hd (rn_stack self))))") (auto dest: reusable_descend_smaller)

declare descend_all.simps [simp del]

definition reusable_node_advance_past_leaf :: "ReusableNode \<Rightarrow> ReusableNode option" where
  "reusable_node_advance_past_leaf self = do { self' \<leftarrow> descend_all self; reusable_node_advance self' }"

definition reusable_node_reset :: "ReusableNode \<Rightarrow> Subtree \<Rightarrow> ReusableNode option" where
  "reusable_node_reset self tree = do {
     let self = (reusable_node_clear self)\<lparr>rn_stack := [\<lparr>se_tree = tree, se_child_index = 0, se_byte_offset = 0\<rparr>]\<rparr>;
     (entered, self) \<leftarrow> reusable_node_descend self;
     Some (if entered then self else reusable_node_clear self)
   }"

section \<open>The leaves in front of the walk and behind it\<close>

fun passed :: "StackEntry list \<Rightarrow> Subtree list" where
  "passed [] = []"
| "passed [e] = []"
| "passed (e # f # st) = passed (f # st) @ concat (map leaves (take (se_child_index e) (ts_subtree_children (se_tree f))))"

fun left_over :: "StackEntry list \<Rightarrow> Subtree list" where
  "left_over [] = []"
| "left_over [e] = []"
| "left_over (e # f # st) =
     concat (map leaves (drop (Suc (se_child_index e)) (ts_subtree_children (se_tree f)))) @ left_over (f # st)"

definition bytes_of :: "Subtree list \<Rightarrow> u32" where
  "bytes_of ts = sum_list (map ts_subtree_total_bytes ts)"

fun entries_ok :: "Subtree \<Rightarrow> StackEntry list \<Rightarrow> bool" where
  "entries_ok t [] = True"
| "entries_ok t [e] = (se_tree e = t \<and> se_byte_offset e = 0)"
| "entries_ok t (e # f # st) =
     (se_child_index e < ts_subtree_child_count (se_tree f) \<and>
      se_tree e = ts_subtree_children (se_tree f) ! se_child_index e \<and>
      se_byte_offset e = bytes_of (passed (e # f # st)) \<and> entries_ok t (f # st))"

text \<open>The bytes of a node are those of its leaves.\<close>

lemma bytes_of_append [simp]: "bytes_of (xs @ ys) = bytes_of xs + bytes_of ys"
  by (simp add: bytes_of_def)

lemma bytes_of_nat: "bytes_of cs = of_nat (sum_list (map total_nat cs))"
  by (induction cs) (simp_all add: bytes_of_def total_nat_def)

lemma spans_leaves:
  shows "spans M t w \<Longrightarrow> M < 2 ^ 32 \<Longrightarrow> bytes_of (leaves t) = ts_subtree_total_bytes t"
    and "spans_list M cs w \<Longrightarrow> M < 2 ^ 32 \<Longrightarrow> bytes_of (concat (map leaves cs)) = bytes_of cs"
proof (induction M t w and M cs w rule: spans_spans_list.induct)
  case (2 M h cs w)
  show ?case
  proof (cases "cs = []")
    case False
    then have cs: "spans_list M cs w" using "2.prems"(1) by simp
    have "unat (ts_subtree_total_bytes (Ptr h cs)) = length w"
      using measured_total(2) [OF spans_measured [OF "2.prems"(1)] "2.prems"(2)] .
    also have "\<dots> = sum_list (map total_nat cs)" using spans_list_total [OF cs "2.prems"(2)] by simp
    finally have "of_nat (unat (ts_subtree_total_bytes (Ptr h cs))) = bytes_of cs" unfolding bytes_of_nat by (rule arg_cong)
    with "2.IH" [OF cs "2.prems"(2)] False show ?thesis by simp
  qed (simp add: bytes_of_def)
qed (simp_all add: bytes_of_def Let_def)

lemma children_leaves: "ts_subtree_children t \<noteq> [] \<Longrightarrow> leaves t = concat (map leaves (ts_subtree_children t))"
  by (cases t) simp_all

lemma entries_leaves:
  "entries_ok t (e # st) \<Longrightarrow> leaves t = passed (e # st) @ leaves (se_tree e) @ left_over (e # st)"
proof (induction st arbitrary: e)
  case (Cons f st)
  let ?cs = "ts_subtree_children (se_tree f)" and ?i = "se_child_index e"
  have i: "?i < length ?cs" "se_tree e = ?cs ! ?i" "entries_ok t (f # st)"
    using Cons.prems by (simp_all add: ts_subtree_child_count_def)
  then have "leaves (se_tree f) = concat (map leaves (take ?i ?cs @ ?cs ! ?i # drop (Suc ?i) ?cs))"
    using children_leaves [of "se_tree f"] id_take_nth_drop [OF i(1)] by (cases ?cs) auto
  with Cons.IH [OF i(3)] i(2) show ?case by simp
qed simp

lemma entries_inside:
  assumes "spans M t w" and "M < 2 ^ 32" and "summary_exact lang t"
  shows "entries_ok t (e # st) \<Longrightarrow> (\<exists>u. spans M (se_tree e) u) \<and> summary_exact lang (se_tree e)"
proof (induction st arbitrary: e)
  case Nil
  then show ?case using assms by auto
next
  case (Cons f st)
  then have "(\<exists>u. spans M (se_tree f) u) \<and> summary_exact lang (se_tree f)" by simp
  then obtain u where u: "spans M (se_tree f) u" "summary_exact lang (se_tree f)" by blast
  have i: "se_child_index e < ts_subtree_child_count (se_tree f)"
    "se_tree e = ts_subtree_children (se_tree f) ! se_child_index e" using Cons.prems by simp_all
  have "summary_exact lang (se_tree e)"
    using u(2) i by (cases "se_tree f") (auto simp: list_all_length ts_subtree_child_count_def)
  with spans_children(1) [OF u(1) assms(2) i(1)] i(2) show ?case by simp
qed

lemma advance_pop_ok:
  "entries_ok t (e # st) \<Longrightarrow>
     (case advance_pop (e # st) of
        ([], n) \<Rightarrow> leaves t = passed (e # st) @ leaves (se_tree e)
      | (f # st', n) \<Rightarrow> entries_ok t (f # st') \<and> n < ts_subtree_child_count (se_tree f) \<and>
          passed (f # st') @ concat (map leaves (take n (ts_subtree_children (se_tree f)))) = passed (e # st) @ leaves (se_tree e))"
proof (induction "e # st" arbitrary: e st rule: advance_pop.induct)
  case (3 popped f st)
  let ?cs = "ts_subtree_children (se_tree f)" and ?i = "se_child_index popped"
  have i: "?i < length ?cs" "se_tree popped = ?cs ! ?i" "entries_ok t (f # st)"
    using "3.prems" by (simp_all add: ts_subtree_child_count_def)
  then have take: "concat (map leaves (take (Suc ?i) ?cs)) = concat (map leaves (take ?i ?cs)) @ leaves (se_tree popped)"
    by (simp add: take_Suc_conv_app_nth)
  show ?case
  proof (cases "ts_subtree_child_count (se_tree f) \<le> ?i + 1")
    case True
    then have "take (Suc ?i) ?cs = ?cs" by (simp add: ts_subtree_child_count_def)
    then have "leaves (se_tree f) = concat (map leaves (take ?i ?cs)) @ leaves (se_tree popped)"
      using take children_leaves [of "se_tree f"] i(1) by (cases ?cs) auto
    with "3.hyps" [OF True i(3)] True show ?thesis by (auto split: list.splits prod.splits)
  next
    case False
    with i take show ?thesis by simp
  qed
qed simp

text \<open>The token that was scanned last in front of some leaves.\<close>

definition last_token :: "Subtree list \<Rightarrow> Subtree option" where
  "last_token ts =
     (let es = filter ts_subtree_has_external_tokens ts in if es = [] then None else Some (last es))"

lemma last_token_append: "last_token (xs @ ys) = (if last_token ys = None then last_token xs else last_token ys)"
  by (simp add: last_token_def Let_def last_append)

lemma last_token_leaves:
  assumes "summary_exact lang t"
  shows "ts_subtree_has_external_tokens t \<longleftrightarrow> last_token (leaves t) \<noteq> None"
    and "ts_subtree_has_external_tokens t \<Longrightarrow> ts_subtree_last_external_token t = Some (last_token (leaves t))"
proof -
  show some: "ts_subtree_has_external_tokens t \<longleftrightarrow> last_token (leaves t) \<noteq> None"
    using cached_counts(4) [OF assms] by (auto simp: last_token_def Let_def list_ex_iff filter_empty_conv)
  assume "ts_subtree_has_external_tokens t"
  with some last_external_exact [OF assms] show "ts_subtree_last_external_token t = Some (last_token (leaves t))"
    by (auto simp: ts_subtree_last_external_token_def last_token_def Let_def split: if_splits)
qed

section \<open>The walk\<close>

text \<open>The states of a walk over a tree, and what a state means: the leaves behind it and its last token.\<close>

inductive walks :: "Subtree \<Rightarrow> ReusableNode \<Rightarrow> bool" for t where
  reset: "reusable_node_reset self t = Some self' \<Longrightarrow> walks t self'"
| advance: "walks t self \<Longrightarrow> reusable_node_advance self = Some self' \<Longrightarrow> walks t self'"
| descend: "walks t self \<Longrightarrow> reusable_node_descend self = Some (b, self') \<Longrightarrow> walks t self'"

definition stands :: "Subtree \<Rightarrow> Subtree list \<Rightarrow> ReusableNode \<Rightarrow> bool" where
  "stands t pre self \<longleftrightarrow>
     rn_last_external_token self = last_token pre \<and>
     (case rn_stack self of [] \<Rightarrow> leaves t = pre
      | e # st \<Rightarrow> entries_ok t (e # st) \<and> passed (e # st) = pre \<and> se_byte_offset e = bytes_of pre)"

lemma entries_offset: "entries_ok t (e # st) \<Longrightarrow> se_byte_offset e = bytes_of (passed (e # st))"
  by (cases st) (simp_all add: bytes_of_def)

lemma stands_reset:
  assumes "reusable_node_reset self t = Some self'" and "ts_subtree_children t \<noteq> []"
  shows "stands t [] self'"
proof -
  obtain c cs where "ts_subtree_children t = c # cs" using assms(2) by (cases "ts_subtree_children t") auto
  then show ?thesis
    using assms(1)
    by (auto simp: reusable_node_reset_def reusable_node_descend_def reusable_node_clear_def stands_def last_token_def
        ts_subtree_child_count_def bytes_of_def)
qed

lemma stands_descend:
  assumes "stands t pre self" and "reusable_node_descend self = Some (b, self')"
  shows "stands t pre self'"
proof -
  obtain e st where e: "rn_stack self = e # st" using assms(2) by (cases "rn_stack self") (auto simp: reusable_node_descend_def)
  have "se_byte_offset e = bytes_of (passed (e # st))" "passed (e # st) = pre" "entries_ok t (e # st)"
    using assms(1) e by (auto simp: stands_def)
  with assms e show ?thesis
    by (cases "ts_subtree_children (se_tree e)") (auto simp: stands_def reusable_node_descend_def ts_subtree_child_count_def)
qed

lemma stands_advance:
  assumes "stands t pre self" and "rn_stack self = e # st"
    and "spans M t w" and "M < 2 ^ 32" and "summary_exact lang t"
  shows "\<exists>self'. reusable_node_advance self = Some self' \<and> stands t (pre @ leaves (se_tree e)) self'"
proof -
  have e: "entries_ok t (e # st)" "passed (e # st) = pre" "se_byte_offset e = bytes_of pre"
    "rn_last_external_token self = last_token pre" using assms(1,2) by (auto simp: stands_def)
  obtain u where u: "spans M (se_tree e) u" "summary_exact lang (se_tree e)" using entries_inside [OF assms(3-5) e(1)] by blast
  have offset: "se_byte_offset e + ts_subtree_total_bytes (se_tree e) = bytes_of (pre @ leaves (se_tree e))"
    using spans_leaves(1) [OF u(1) assms(4)] e(3) by simp
  have token: "(if ts_subtree_has_external_tokens (se_tree e) then ts_subtree_last_external_token (se_tree e)
      else Some (rn_last_external_token self)) = Some (last_token (pre @ leaves (se_tree e)))"
    using last_token_leaves [OF u(2)] e(4) by (auto simp: last_token_append)
  obtain st' n where pop: "advance_pop (e # st) = (st', n)" by fastforce
  note pop_ok = advance_pop_ok [OF e(1), unfolded pop]
  show ?thesis
  proof (cases st')
    case Nil
    with pop_ok pop assms(2) token e(2) show ?thesis by (auto simp: reusable_node_advance_def stands_def Let_def)
  next
    case (Cons f fs)
    with pop_ok have f: "entries_ok t (f # fs)" "n < ts_subtree_child_count (se_tree f)"
      "passed (f # fs) @ concat (map leaves (take n (ts_subtree_children (se_tree f)))) = pre @ leaves (se_tree e)"
      using e(2) by simp_all
    with Cons pop assms(2) token offset show ?thesis
      by (auto simp: reusable_node_advance_def stands_def Let_def item_def ts_subtree_child_count_def)
  qed
qed

lemma walks_stands:
  assumes "spans M t w" and "M < 2 ^ 32" and "summary_exact lang t" and "ts_subtree_children t \<noteq> []"
  shows "walks t self \<Longrightarrow> \<exists>pre. stands t pre self"
proof (induction rule: walks.induct)
  case (reset self self')
  then show ?case using stands_reset [OF _ assms(4)] by blast
next
  case (advance self self')
  then obtain pre where pre: "stands t pre self" by blast
  obtain e st where "rn_stack self = e # st" using advance.hyps(2) by (cases "rn_stack self") (auto simp: reusable_node_advance_def)
  from stands_advance [OF pre this assms(1-3)] advance.hyps(2) show ?case by auto
next
  case (descend self b self')
  then show ?case using stands_descend by blast
qed

text \<open>Entering nodes as long as they have children ends on the first leaf.\<close>

lemma stands_descend_all:
  "stands t pre self \<Longrightarrow> rn_stack self = e # st \<Longrightarrow>
     \<exists>self' e' st'. descend_all self = Some self' \<and> stands t pre self' \<and> rn_stack self' = e' # st' \<and>
       leaves (se_tree e') = [hd (leaves (se_tree e))]"
proof (induction self arbitrary: e st rule: descend_all.induct)
  case (1 self)
  show ?case
  proof (cases "ts_subtree_children (se_tree e)")
    case Nil
    then have "leaves (se_tree e) = [se_tree e]" by (cases "se_tree e") simp_all
    with 1 Nil show ?thesis by (subst descend_all.simps) (simp add: reusable_node_descend_def)
  next
    case (Cons c cs)
    let ?self = "self\<lparr>rn_stack := \<lparr>se_tree = c, se_child_index = 0, se_byte_offset = se_byte_offset e\<rparr> # e # st\<rparr>"
    have d: "reusable_node_descend self = Some (True, ?self)" using Cons 1(3) by (simp add: reusable_node_descend_def)
    have "hd (leaves (se_tree e)) = hd (leaves c)" using children_leaves [of "se_tree e"] Cons by simp
    with 1(1) [OF d refl refl stands_descend [OF 1(2) d]] d show ?thesis by (subst descend_all.simps) simp
  qed
qed

section \<open>Properties\<close>

text \<open>
  What the parser sees of the walk: the leaves of the old tree that it has passed, at which byte it stands, and the last
  token of the external scanner before that.
\<close>

definition located :: "Subtree \<Rightarrow> Subtree list \<Rightarrow> ReusableNode \<Rightarrow> bool" where
  "located t pre self \<longleftrightarrow>
     rn_last_external_token self = last_token pre \<and>
     (case reusable_node_tree self of
        None \<Rightarrow> pre = leaves t \<and> reusable_node_byte_offset self = UINT32_MAX
      | Some cur \<Rightarrow> prefix (pre @ leaves cur) (leaves t) \<and> reusable_node_byte_offset self = bytes_of pre)"

lemma stands_located: "stands t pre self \<Longrightarrow> located t pre self"
  using entries_leaves
  by (auto simp: stands_def located_def reusable_node_tree_def reusable_node_byte_offset_def prefix_def split: list.splits)

text \<open>
  C15. The walk over an old tree keeps its place in the text: in every state it has passed some of the leaves, in order and without
  gaps, and stands at the byte behind them with the last external token among them. Skipping a node passes the leaves
  of the node, entering it passes none, and going past a leaf passes exactly the first one; no step fails.
\<close>

theorem reusable_node_walk:
  assumes "spans M t w" and "M < 2 ^ 32" and "summary_exact lang t" and "ts_subtree_children t \<noteq> []" and "walks t self"
  shows "\<exists>pre. located t pre self \<and>
    (\<forall>cur. reusable_node_tree self = Some cur \<longrightarrow>
      (\<exists>self'. reusable_node_advance self = Some self' \<and> located t (pre @ leaves cur) self') \<and>
      (\<exists>self'. reusable_node_descend self = Some (ts_subtree_children cur \<noteq> [], self') \<and> located t pre self') \<and>
      (\<exists>self'. reusable_node_advance_past_leaf self = Some self' \<and> located t (pre @ [hd (leaves cur)]) self'))"
proof -
  obtain pre where pre: "stands t pre self" using walks_stands [OF assms] by blast
  have "(\<exists>self'. reusable_node_advance self = Some self' \<and> located t (pre @ leaves cur) self') \<and>
      (\<exists>self'. reusable_node_descend self = Some (ts_subtree_children cur \<noteq> [], self') \<and> located t pre self') \<and>
      (\<exists>self'. reusable_node_advance_past_leaf self = Some self' \<and> located t (pre @ [hd (leaves cur)]) self')"
    if cur: "reusable_node_tree self = Some cur" for cur
  proof (intro conjI)
    obtain e st where e: "rn_stack self = e # st" "se_tree e = cur" using cur by (auto simp: reusable_node_tree_def split: list.splits)
    show "\<exists>self'. reusable_node_advance self = Some self' \<and> located t (pre @ leaves cur) self'"
      using stands_advance [OF pre e(1) assms(1-3)] e(2) stands_located by blast
    have "\<exists>self'. reusable_node_descend self = Some (ts_subtree_children cur \<noteq> [], self')"
      using e by (auto simp: reusable_node_descend_def split: list.splits)
    then show "\<exists>self'. reusable_node_descend self = Some (ts_subtree_children cur \<noteq> [], self') \<and> located t pre self'"
      using stands_descend [OF pre] stands_located by blast
    obtain self1 e' st' where d: "descend_all self = Some self1" "stands t pre self1" "rn_stack self1 = e' # st'"
      "leaves (se_tree e') = [hd (leaves cur)]" using stands_descend_all [OF pre e(1)] e(2) by blast
    show "\<exists>self'. reusable_node_advance_past_leaf self = Some self' \<and> located t (pre @ [hd (leaves cur)]) self'"
      using stands_advance [OF d(2,3) assms(1-3)] d stands_located by (auto simp: reusable_node_advance_past_leaf_def)
  qed
  with stands_located [OF pre] show ?thesis by blast
qed

theorem reusable_node_walk_witness:
  "\<exists>self self'. walks (t_root sample_tree) self \<and> reusable_node_byte_offset self = 1 \<and>
     reusable_node_advance self = Some self' \<and> reusable_node_tree self' = None"
proof -
  let ?t = "t_root sample_tree"
  have t: "summary_exact (t_language sample_tree) ?t" "ts_subtree_children ?t \<noteq> []"
    using sample_tree_reads(1) by (simp add: readable_def) code_simp
  have reads: "(case reusable_node_reset reusable_node_new ?t of None \<Rightarrow> None | Some s \<Rightarrow> reusable_node_advance s) \<noteq> None" by code_simp
  then obtain s0 s1 where s: "reusable_node_reset reusable_node_new ?t = Some s0" "reusable_node_advance s0 = Some s1"
    by (auto split: option.splits)
  have w: "walks ?t s1" using s walks.intros by blast
  have c: "map_option reusable_node_byte_offset (Option.bind (reusable_node_reset reusable_node_new ?t) reusable_node_advance) = Some 1"
    "map_option reusable_node_tree (Option.bind (Option.bind (reusable_node_reset reusable_node_new ?t) reusable_node_advance)
      reusable_node_advance) = Some None" by code_simp+
  obtain cur where cur: "reusable_node_tree s1 = Some cur"
    using c s by (cases "reusable_node_tree s1") (auto simp: reusable_node_tree_def reusable_node_advance_def split: list.splits)
  from reusable_node_walk [OF sample_tree_reads(5) _ t w] cur obtain s2 where "reusable_node_advance s1 = Some s2" by auto
  with w c s show ?thesis by auto
qed

end
