(* ===== verification/Changed_Ranges.thy ===== *)
theory Changed_Ranges
  imports Tree_Cursor
begin

text \<open>
  The ranges in which two trees differ: the rest of \<open>get_changed_ranges.c\<close>, and \<open>ts_tree_get_changed_ranges\<close>. Two iterators
  walk over the trees, each at a node or in the white space in front of one, and are kept at the same place and depth.
\<close>

section \<open>Iterators\<close>

record Iterator =
  i_cursor :: TreeCursor
  i_language :: TSLanguage
  visible_depth :: u32
  in_padding :: bool
  prev_external_token :: "Subtree option"

abbreviation i_stack :: "Iterator \<Rightarrow> TreeCursorEntry list" where
  "i_stack self \<equiv> c_stack (i_cursor self)"

definition set_stack :: "TreeCursorEntry list \<Rightarrow> Iterator \<Rightarrow> Iterator" where
  "set_stack st self = self\<lparr>i_cursor := (i_cursor self)\<lparr>c_stack := st\<rparr>\<rparr>"

definition iterator_new :: "TreeCursor \<Rightarrow> Slot \<Rightarrow> TSLanguage \<Rightarrow> Iterator" where
  "iterator_new cursor tree lang =
     \<lparr>i_cursor = cursor\<lparr>c_stack := [\<lparr>e_subtree = tree, e_position = length_zero, e_child_index = 0,
                                      e_structural_child_index = 0, e_descendant_index = 0\<rparr>]\<rparr>,
      i_language = lang, visible_depth = 1, in_padding = False, prev_external_token = None\<rparr>"

definition iterator_done :: "Iterator \<Rightarrow> bool" where
  "iterator_done self \<longleftrightarrow> i_stack self = []"

definition iterator_start_position :: "Iterator \<Rightarrow> Length option" where
  "iterator_start_position self =
     (if i_stack self = [] then None
      else let entry = last (i_stack self)
           in Some (if in_padding self then e_position entry
                    else length_add (e_position entry) (ts_subtree_padding (entry_tree entry))))"

definition iterator_end_position :: "Iterator \<Rightarrow> Length option" where
  "iterator_end_position self =
     (if i_stack self = [] then None
      else let entry = last (i_stack self); result = length_add (e_position entry) (ts_subtree_padding (entry_tree entry))
           in Some (if in_padding self then result else length_add result (ts_subtree_size (entry_tree entry))))"

text \<open>The alias of the entry at an index that is not 0, which is read for extra nodes too.\<close>

definition stack_alias :: "TSLanguage \<Rightarrow> TreeCursorEntry list \<Rightarrow> nat \<Rightarrow> TSSymbol option" where
  "stack_alias lang st i = do {
     entry \<leftarrow> item st i;
     parent \<leftarrow> item st (i - 1);
     ts_language_alias_at lang (unat (ts_subtree_production_id (entry_tree parent))) (e_structural_child_index entry)
   }"

definition iterator_tree_is_visible :: "Iterator \<Rightarrow> bool option" where
  "iterator_tree_is_visible self =
     (if i_stack self = [] then None
      else if ts_subtree_visible (entry_tree (last (i_stack self))) then Some True
      else if 1 < length (i_stack self)
      then map_option (\<lambda>a. a \<noteq> 0) (stack_alias (i_language self) (i_stack self) (length (i_stack self) - 1))
      else Some False)"

text \<open>The innermost visible node, its alias and its first byte, white space included: \<open>None\<close> in front where there is none.\<close>

fun visible_state_loop :: "TSLanguage \<Rightarrow> TreeCursorEntry list \<Rightarrow> nat \<Rightarrow> TSSymbol \<Rightarrow> (Subtree option \<times> TSSymbol \<times> u32) option" where
  "visible_state_loop lang st i al =
     (case item st i of
        None \<Rightarrow> None
      | Some entry \<Rightarrow>
          (case (if 0 < i then stack_alias lang st i else Some al) of
             None \<Rightarrow> None
           | Some al' \<Rightarrow>
               if ts_subtree_visible (entry_tree entry) \<or> al' \<noteq> 0
               then Some (Some (entry_tree entry), al', bytes (e_position entry))
               else (case i of 0 \<Rightarrow> Some (None, al', 0) | Suc j \<Rightarrow> visible_state_loop lang st j al')))"

declare visible_state_loop.simps [simp del]

definition iterator_get_visible_state :: "Iterator \<Rightarrow> (Subtree option \<times> TSSymbol \<times> u32) option" where
  "iterator_get_visible_state self =
     (let i = length (i_stack self) - 1
      in if in_padding self then
           (if i = 0 then Some (None, 0, 0) else visible_state_loop (i_language self) (i_stack self) (i - 1) 0)
         else visible_state_loop (i_language self) (i_stack self) i 0)"

definition iterator_ascend :: "Iterator \<Rightarrow> Iterator option" where
  "iterator_ascend self =
     (if iterator_done self then Some self
      else do {
        vis \<leftarrow> iterator_tree_is_visible self;
        let self = (if vis \<and> \<not> in_padding self then self\<lparr>visible_depth := visible_depth self - 1\<rparr> else self);
        let self = (if 0 < e_child_index (last (i_stack self)) then self\<lparr>in_padding := False\<rparr> else self);
        Some (set_stack (butlast (i_stack self)) self)
      })"

text \<open>
  The scan of the children for the first one that ends behind the goal: its entry and where it starts behind its white space;
  also the last external token of the ones before it.
\<close>

fun scan_children ::
  "Slot \<Rightarrow> u32 \<Rightarrow> nat \<Rightarrow> Length \<Rightarrow> nat \<Rightarrow> Subtree option \<Rightarrow> Subtree list \<Rightarrow>
     ((TreeCursorEntry \<times> Length) option \<times> Subtree option) option" where
  "scan_children parent goal i position si token [] = Some (None, token)"
| "scan_children parent goal i position si token (child # cs) =
     (let child_left = length_add position (ts_subtree_padding child);
          child_right = length_add child_left (ts_subtree_size child)
      in if goal < bytes child_right
         then Some (Some (\<lparr>e_subtree = \<lparr>slot_path = slot_path parent @ [i], slot_tree = child\<rparr>, e_position = position,
                           e_child_index = i, e_structural_child_index = si, e_descendant_index = 0\<rparr>, child_left), token)
         else (case ts_subtree_last_external_token child of
                 None \<Rightarrow> None
               | Some last_external_token \<Rightarrow>
                   scan_children parent goal (i + 1) child_right (if ts_subtree_extra child then si else si + 1)
                     (if last_external_token \<noteq> None then last_external_token else token) cs))"

lemma scan_children_member:
  "scan_children parent goal i position si token cs = Some (Some (entry, left), token') \<Longrightarrow> entry_tree entry \<in> set cs"
  by (induction cs arbitrary: i position si token) (auto simp: Let_def split: if_splits option.splits)

definition scan_top :: "u32 \<Rightarrow> Iterator \<Rightarrow> ((TreeCursorEntry \<times> Length) option \<times> Subtree option) option" where
  "scan_top goal self =
     (if i_stack self = [] then None
      else let entry = last (i_stack self)
           in scan_children (e_subtree entry) goal 0 (e_position entry) 0 (prev_external_token self)
                (ts_subtree_children (entry_tree entry)))"

definition push_entry :: "TreeCursorEntry \<Rightarrow> Iterator \<Rightarrow> Iterator" where
  "push_entry entry self = set_stack (i_stack self @ [entry]) self"

lemma scan_top_smaller:
  "scan_top goal self = Some (Some (entry, left), token) \<Longrightarrow>
     size (entry_tree (last (i_stack (push_entry entry self')))) < size (entry_tree (last (i_stack self)))"
  by (auto simp: scan_top_def push_entry_def set_stack_def Let_def size_child dest!: scan_children_member split: if_splits)

function descend_to :: "u32 \<Rightarrow> Iterator \<Rightarrow> (bool \<times> Iterator) option" where
  "descend_to goal self =
     (case scan_top goal self of
        None \<Rightarrow> None
      | Some (None, token) \<Rightarrow> Some (False, self\<lparr>prev_external_token := token\<rparr>)
      | Some (Some (entry, child_left), token) \<Rightarrow>
          (let self' = push_entry entry (self\<lparr>prev_external_token := token\<rparr>)
           in case iterator_tree_is_visible self' of
                None \<Rightarrow> None
              | Some True \<Rightarrow>
                  Some (True, if goal < bytes child_left then self'\<lparr>in_padding := True\<rparr>
                              else self'\<lparr>visible_depth := visible_depth self' + 1\<rparr>)
              | Some False \<Rightarrow> descend_to goal self'))"
  by pat_completeness auto
termination
  by (relation "measure (\<lambda>(goal, self). size (entry_tree (last (i_stack self))))") (auto dest: scan_top_smaller)

declare descend_to.simps [simp del]

definition iterator_descend :: "Iterator \<Rightarrow> u32 \<Rightarrow> (bool \<times> Iterator) option" where
  "iterator_descend self goal_position = (if in_padding self then Some (False, self) else descend_to goal_position self)"

text \<open>Going to the next node: the entries whose parents have no further children are popped.\<close>

definition step_to :: "TreeCursorEntry \<Rightarrow> Iterator \<Rightarrow> Iterator option" where
  "step_to entry self = do {
     let self = push_entry entry self;
     vis \<leftarrow> iterator_tree_is_visible self;
     if vis then Some (if 0 < bytes (ts_subtree_padding (entry_tree entry)) then self\<lparr>in_padding := True\<rparr>
                       else self\<lparr>visible_depth := visible_depth self + 1\<rparr>)
     else map_option snd (iterator_descend self 0)
   }"

definition next_entry :: "TreeCursorEntry \<Rightarrow> TreeCursorEntry \<Rightarrow> Subtree \<Rightarrow> TreeCursorEntry" where
  "next_entry parent entry next_child =
     \<lparr>e_subtree = \<lparr>slot_path = slot_path (e_subtree parent) @ [e_child_index entry + 1], slot_tree = next_child\<rparr>,
      e_position = length_add (e_position entry) (ts_subtree_total_size (entry_tree entry)),
      e_child_index = e_child_index entry + 1,
      e_structural_child_index =
        (if ts_subtree_extra (entry_tree entry) then e_structural_child_index entry else e_structural_child_index entry + 1),
      e_descendant_index = 0\<rparr>"

function advance_from :: "Iterator \<Rightarrow> Iterator option" where
  "advance_from self =
     (case iterator_tree_is_visible self of
        None \<Rightarrow> None
      | Some vis \<Rightarrow>
          (let entry = last (i_stack self); st = butlast (i_stack self);
               self' = set_stack st (if vis then self\<lparr>visible_depth := visible_depth self - 1\<rparr> else self)
           in if st = [] then Some self'
              else
                (case ts_subtree_last_external_token (entry_tree entry) of
                   None \<Rightarrow> None
                 | Some token \<Rightarrow>
                     (let self' = (if token \<noteq> None then self'\<lparr>prev_external_token := token\<rparr> else self'); parent = last st
                      in case item (ts_subtree_children (entry_tree parent)) (e_child_index entry + 1) of
                           Some next_child \<Rightarrow> step_to (next_entry parent entry next_child) self'
                         | None \<Rightarrow> advance_from self'))))"
  by pat_completeness auto
termination
  by (relation "measure (\<lambda>self. length (i_stack self))")
    (auto simp: set_stack_def iterator_tree_is_visible_def length_greater_0_conv [symmetric] simp del: length_greater_0_conv split: if_splits)

declare advance_from.simps [simp del]

definition iterator_advance :: "Iterator \<Rightarrow> Iterator option" where
  "iterator_advance self =
     (if in_padding self then do {
        let self = self\<lparr>in_padding := False\<rparr>;
        vis \<leftarrow> iterator_tree_is_visible self;
        if vis then Some (self\<lparr>visible_depth := visible_depth self + 1\<rparr>) else map_option snd (iterator_descend self 0)
      }
      else advance_from self)"

section \<open>Comparing nodes\<close>

datatype IteratorComparison = IteratorDiffers | IteratorMayDiffer | IteratorMatches

definition nodes_may_differ :: "Subtree \<Rightarrow> Subtree \<Rightarrow> u32 \<Rightarrow> u32 \<Rightarrow> Subtree option \<Rightarrow> Subtree option \<Rightarrow> bool" where
  "nodes_may_differ old_tree new_tree old_start new_start old_token new_token \<longleftrightarrow>
     old_start \<noteq> new_start \<or> ts_subtree_symbol old_tree = ts_builtin_sym_error \<or>
     bytes (ts_subtree_size old_tree) \<noteq> bytes (ts_subtree_size new_tree) \<or>
     ts_subtree_parse_state old_tree = TS_TREE_STATE_NONE \<or> ts_subtree_parse_state new_tree = TS_TREE_STATE_NONE \<or>
     (ts_subtree_parse_state old_tree = 0) \<noteq> (ts_subtree_parse_state new_tree = 0) \<or>
     ts_subtree_error_cost old_tree \<noteq> ts_subtree_error_cost new_tree \<or>
     ts_subtree_has_external_tokens old_tree \<noteq> ts_subtree_has_external_tokens new_tree \<or> ts_subtree_has_changes old_tree \<or>
     ts_subtree_has_external_tokens old_tree \<and> \<not> ts_subtree_external_scanner_state_eq old_token new_token"

text \<open>
  The symbols of both trees are read in front of the tests for null, so that the case of an iterator without a visible node is a
  read through a null pointer.
\<close>

definition iterator_compare :: "Iterator \<Rightarrow> Iterator \<Rightarrow> IteratorComparison option" where
  "iterator_compare old_iter new_iter = do {
     (old, old_alias_symbol, old_start) \<leftarrow> iterator_get_visible_state old_iter;
     (new, new_alias_symbol, new_start) \<leftarrow> iterator_get_visible_state new_iter;
     old_tree \<leftarrow> old;
     new_tree \<leftarrow> new;
     Some (if old_alias_symbol \<noteq> new_alias_symbol \<or> ts_subtree_symbol old_tree \<noteq> ts_subtree_symbol new_tree then IteratorDiffers
           else if nodes_may_differ old_tree new_tree old_start new_start (prev_external_token old_iter) (prev_external_token new_iter)
           then IteratorMayDiffer else IteratorMatches)
   }"

section \<open>The loop over both trees\<close>

text \<open>
  Nothing in the code bounds the loops below: \<open>None\<close> where one runs forever, \<open>Some None\<close> where a read fails.
\<close>

definition and_then :: "'a option option \<Rightarrow> ('a \<Rightarrow> 'b option option) \<Rightarrow> 'b option option" where
  "and_then m f = (case m of None \<Rightarrow> None | Some None \<Rightarrow> Some None | Some (Some x) \<Rightarrow> f x)"

partial_function (option) catch_up :: "u32 \<Rightarrow> Iterator \<Rightarrow> Iterator option option" where
  "catch_up next_byte self =
     (case iterator_end_position self of
        None \<Rightarrow> Some (Some self)
      | Some end_position \<Rightarrow>
          if bytes end_position \<le> next_byte
          then (case iterator_advance self of None \<Rightarrow> Some None | Some self' \<Rightarrow> catch_up next_byte self')
          else Some (Some self))"

partial_function (option) level_with :: "u32 \<Rightarrow> Iterator \<Rightarrow> Iterator option option" where
  "level_with depth self =
     (if depth < visible_depth self
      then (case iterator_ascend self of None \<Rightarrow> Some None | Some self' \<Rightarrow> level_with depth self')
      else Some (Some self))"

declare catch_up.simps [code] level_with.simps [code]

text \<open>What a round does for each result of the comparison: whether there is a change, and up to where.\<close>

definition changed_step ::
  "IteratorComparison \<Rightarrow> Iterator \<Rightarrow> Iterator \<Rightarrow> Length \<Rightarrow> Length \<Rightarrow> (bool \<times> Length \<times> Iterator \<times> Iterator) option" where
  "changed_step comparison old_iter new_iter position next_pos =
     (case comparison of
        IteratorMatches \<Rightarrow> do { e \<leftarrow> iterator_end_position old_iter; Some (False, e, old_iter, new_iter) }
      | IteratorMayDiffer \<Rightarrow> do {
          (old_entered, old_iter) \<leftarrow> iterator_descend old_iter (bytes position);
          (new_entered, new_iter) \<leftarrow> iterator_descend new_iter (bytes position);
          old_end \<leftarrow> iterator_end_position old_iter;
          new_end \<leftarrow> iterator_end_position new_iter;
          Some (if old_entered then
                  (if new_entered then (False, next_pos, old_iter, new_iter) else (True, old_end, old_iter, new_iter))
                else if new_entered then (True, new_end, old_iter, new_iter)
                else (False, length_min old_end new_end, old_iter, new_iter))
        }
      | IteratorDiffers \<Rightarrow> do {
          old_end \<leftarrow> iterator_end_position old_iter;
          new_end \<leftarrow> iterator_end_position new_iter;
          Some (True, length_min old_end new_end, old_iter, new_iter)
        })"

definition skip_differences :: "TSRangeArray \<Rightarrow> nat \<Rightarrow> u32 \<Rightarrow> nat" where
  "skip_differences differences index byte =
     index + length (takeWhile (\<lambda>r. end_byte r \<le> byte) (drop index differences))"

record ChangedState =
  old_iter :: Iterator
  new_iter :: Iterator
  cs_position :: Length
  cs_next_position :: Length
  difference_index :: nat
  results :: TSRangeArray

definition changed_round :: "TSRangeArray \<Rightarrow> ChangedState \<Rightarrow> ChangedState option option" where
  "changed_round differences st =
     and_then (Some (do {
       comparison \<leftarrow> iterator_compare (old_iter st) (new_iter st);
       old_end \<leftarrow> iterator_end_position (old_iter st);
       let comparison =
         (if comparison = IteratorMatches \<and>
             ts_range_array_intersects differences (difference_index st) (bytes (cs_position st)) (bytes old_end)
          then IteratorMayDiffer else comparison);
       changed_step comparison (old_iter st) (new_iter st) (cs_position st) (cs_next_position st)
     }))
     (\<lambda>(is_changed, next_pos, old, new).
       and_then (catch_up (bytes next_pos) old) (\<lambda>old.
       and_then (catch_up (bytes next_pos) new) (\<lambda>new.
       and_then (level_with (visible_depth new) old) (\<lambda>old.
       and_then (level_with (visible_depth old) new) (\<lambda>new.
         Some (Some
           \<lparr>old_iter = old, new_iter = new, cs_position = next_pos, cs_next_position = next_pos,
            difference_index = skip_differences differences (difference_index st) (bytes next_pos),
            results = (if is_changed then ts_range_array_add (results st) (cs_position st) next_pos else results st)\<rparr>))))))"

partial_function (option) changed_rounds :: "TSRangeArray \<Rightarrow> ChangedState \<Rightarrow> ChangedState option option" where
  "changed_rounds differences st =
     (case changed_round differences st of
        None \<Rightarrow> None
      | Some None \<Rightarrow> Some None
      | Some (Some st') \<Rightarrow>
          if iterator_done (old_iter st') \<or> iterator_done (new_iter st') then Some (Some st') else changed_rounds differences st')"

declare changed_rounds.simps [code]

definition add_difference :: "TSRangeArray \<Rightarrow> Length \<Rightarrow> Length \<Rightarrow> TSRangeArray" where
  "add_difference rs a b =
     (if bytes a < bytes b then ts_range_array_add rs a b
      else if bytes b < bytes a then ts_range_array_add rs b a else rs)"

definition ts_subtree_get_changed_ranges ::
  "Slot \<Rightarrow> Slot \<Rightarrow> TreeCursor \<Rightarrow> TreeCursor \<Rightarrow> TSLanguage \<Rightarrow> TSRangeArray \<Rightarrow>
     (TSRangeArray \<times> TreeCursor \<times> TreeCursor) option option" where
  "ts_subtree_get_changed_ranges old_tree new_tree cursor1 cursor2 lang differences =
     and_then (Some (do {
       let old = iterator_new cursor1 old_tree lang;
       let new = iterator_new cursor2 new_tree lang;
       position \<leftarrow> iterator_start_position old;
       next_pos \<leftarrow> iterator_start_position new;
       Some \<lparr>old_iter = old, new_iter = new,
             cs_position = (if bytes position < bytes next_pos then next_pos else position),
             cs_next_position = (if bytes next_pos < bytes position then position else next_pos),
             difference_index = 0, results = add_difference [] position next_pos\<rparr>
     }))
     (\<lambda>st. and_then (changed_rounds differences st) (\<lambda>st.
       Some (Some (add_difference (results st) (ts_subtree_total_size (slot_tree old_tree)) (ts_subtree_total_size (slot_tree new_tree)),
                   i_cursor (old_iter st), i_cursor (new_iter st)))))"

definition ts_tree_get_changed_ranges :: "TSTree \<Rightarrow> TSTree \<Rightarrow> TSRangeArray option option" where
  "ts_tree_get_changed_ranges old_tree new_tree =
     and_then (Some (do {
       cursor1 \<leftarrow> ts_tree_cursor_init (ts_tree_root_node old_tree);
       cursor2 \<leftarrow> ts_tree_cursor_init (ts_tree_root_node new_tree);
       differences \<leftarrow> ts_range_array_get_changed_ranges (t_included_ranges old_tree) (t_included_ranges new_tree) [];
       Some (cursor1, cursor2, differences)
     }))
     (\<lambda>(cursor1, cursor2, differences).
       and_then (ts_subtree_get_changed_ranges (root_slot old_tree) (root_slot new_tree) cursor1 cursor2 (t_language old_tree) differences)
         (\<lambda>(ranges, c1, c2). Some (Some ranges)))"

end
