(* ===== verification/Changed_Proofs.thy ===== *)
theory Changed_Proofs
  imports Changed_Ranges Reusable_Node
begin

text \<open>
  A tree that is compared with itself has no changed ranges, and the comparison ends: the iterators move together, and every
  round of the loop leaves them fewer nodes.
\<close>

section \<open>Iterators that read inside their arrays\<close>

text \<open>The aliases of all children are read inside the table, those of extra nodes included.\<close>

fun alias_reads :: "TSLanguage \<Rightarrow> Subtree \<Rightarrow> bool" where
  "alias_reads lang (Inline d) = True"
| "alias_reads lang (Ptr h cs) =
     (list_all (\<lambda>k. ts_language_alias_at lang (unat (h_production_id h)) (structural_index (Ptr h cs) k) \<noteq> None) [0..<length cs] \<and>
      list_all (alias_reads lang) cs)"

definition comparable :: "TSLanguage \<Rightarrow> Subtree \<Rightarrow> bool" where
  "comparable lang t \<longleftrightarrow> alias_reads lang t \<and> summary_exact lang t"

lemma comparable_child:
  assumes "comparable lang t" and "k < ts_subtree_child_count t"
  shows "comparable lang (ts_subtree_children t ! k)"
    "ts_language_alias_at lang (unat (ts_subtree_production_id t)) (structural_index t k) \<noteq> None"
  using assms by (cases t; auto simp: comparable_def list_all_length ts_subtree_child_count_def split: if_splits)+

lemma comparable_token: "comparable lang t \<Longrightarrow> \<exists>token. ts_subtree_last_external_token t = Some token"
  using last_token_leaves(2) [of lang t] by (cases "ts_subtree_has_external_tokens t") (auto simp: comparable_def ts_subtree_last_external_token_def)

text \<open>An entry that stands for a child of another one.\<close>

definition child_of :: "TreeCursorEntry \<Rightarrow> TreeCursorEntry \<Rightarrow> bool" where
  "child_of p e \<longleftrightarrow>
     e_child_index e < ts_subtree_child_count (entry_tree p) \<and>
     entry_tree e = ts_subtree_children (entry_tree p) ! e_child_index e \<and>
     e_structural_child_index e = structural_index (entry_tree p) (e_child_index e)"

fun chained :: "TreeCursorEntry list \<Rightarrow> bool" where
  "chained (p # e # st) = (child_of p e \<and> chained (e # st))"
| "chained _ = True"

lemma chained_snoc: "st \<noteq> [] \<Longrightarrow> chained (st @ [e]) \<longleftrightarrow> chained st \<and> child_of (last st) e"
  by (induction st rule: chained.induct) auto

lemma chained_nth: "chained st \<Longrightarrow> Suc i < length st \<Longrightarrow> child_of (st ! i) (st ! Suc i)"
proof (induction st arbitrary: i rule: chained.induct)
  case (1 p e st)
  then show ?case by (cases i) auto
qed auto

definition iter_ok :: "TSLanguage \<Rightarrow> Iterator \<Rightarrow> bool" where
  "iter_ok lang self \<longleftrightarrow>
     i_language self = lang \<and> chained (i_stack self) \<and> (\<forall>e \<in> set (i_stack self). comparable lang (entry_tree e)) \<and>
     (i_stack self \<noteq> [] \<longrightarrow> ts_subtree_visible (entry_tree (hd (i_stack self)))) \<and>
     (in_padding self \<longrightarrow> 1 < length (i_stack self))"

lemma set_stack_simps [simp]:
  "i_stack (set_stack st self) = st" "i_language (set_stack st self) = i_language self" "in_padding (set_stack st self) = in_padding self"
  "visible_depth (set_stack st self) = visible_depth self" "prev_external_token (set_stack st self) = prev_external_token self"
  by (simp_all add: set_stack_def)

lemma push_simps [simp]:
  "i_stack (push_entry e self) = i_stack self @ [e]" "i_language (push_entry e self) = i_language self"
  "in_padding (push_entry e self) = in_padding self" "visible_depth (push_entry e self) = visible_depth self"
  by (simp_all add: push_entry_def)

lemma iter_ok_frame [simp]:
  "iter_ok lang (self\<lparr>visible_depth := d\<rparr>) = iter_ok lang self"
  "iter_ok lang (self\<lparr>prev_external_token := x\<rparr>) = iter_ok lang self"
  by (simp_all add: iter_ok_def)

lemma iter_ok_padding: "iter_ok lang self \<Longrightarrow> iter_ok lang (self\<lparr>in_padding := False\<rparr>)"
  by (simp add: iter_ok_def)

lemma iter_ok_push:
  assumes "iter_ok lang self" and "i_stack self \<noteq> []" and "child_of (last (i_stack self)) e"
  shows "iter_ok lang (push_entry e self)"
proof -
  have "comparable lang (entry_tree e)"
    using assms comparable_child(1) by (simp add: iter_ok_def child_of_def)
  with assms chained_snoc [of "i_stack self" e] show ?thesis by (auto simp: iter_ok_def)
qed

lemma iter_ok_pop: "iter_ok lang self \<Longrightarrow> \<not> in_padding self \<Longrightarrow> iter_ok lang (set_stack (butlast (i_stack self)) self)"
proof (cases "i_stack self" rule: rev_cases)
  case (snoc st e)
  assume "iter_ok lang self" "\<not> in_padding self"
  with snoc chained_snoc [of st e] show ?thesis by (cases "st = []") (auto simp: iter_ok_def)
qed (simp add: iter_ok_def)

text \<open>The reads of an alias succeed, and so do the test for a visible node and the search for the innermost one.\<close>

lemma stack_alias_read:
  assumes "iter_ok lang self" and "Suc i < length (i_stack self)"
  shows "\<exists>a. stack_alias lang (i_stack self) (Suc i) = Some a"
proof -
  have c: "child_of (i_stack self ! i) (i_stack self ! Suc i)" using assms by (intro chained_nth) (auto simp: iter_ok_def)
  have "comparable lang (entry_tree (i_stack self ! i))" using assms by (auto simp: iter_ok_def)
  from comparable_child(2) [OF this, of "e_child_index (i_stack self ! Suc i)"] c assms(2) show ?thesis
    by (auto simp: stack_alias_def item_def child_of_def)
qed

lemma tree_is_visible_read:
  assumes "iter_ok lang self" and "i_stack self \<noteq> []"
  shows "\<exists>v. iterator_tree_is_visible self = Some v"
proof (cases "1 < length (i_stack self)")
  case True
  then have "Suc (length (i_stack self) - 2) = length (i_stack self) - 1" by simp
  with stack_alias_read [OF assms(1), of "length (i_stack self) - 2"] True assms show ?thesis
    by (auto simp: iterator_tree_is_visible_def iter_ok_def)
qed (use assms in \<open>auto simp: iterator_tree_is_visible_def\<close>)

lemma visible_state_read:
  assumes "iter_ok lang self"
  shows "i < length (i_stack self) \<Longrightarrow> \<exists>t al' b. visible_state_loop lang (i_stack self) i al = Some (Some t, al', b)"
proof (induction i arbitrary: al)
  case 0
  then have "ts_subtree_visible (entry_tree (i_stack self ! 0))" using assms by (auto simp: iter_ok_def hd_conv_nth)
  with 0 show ?case by (subst visible_state_loop.simps) (simp add: item_def)
next
  case (Suc i)
  obtain a where "stack_alias lang (i_stack self) (Suc i) = Some a" using stack_alias_read [OF assms Suc.prems] by blast
  with Suc.IH [of a] Suc.prems show ?case by (subst visible_state_loop.simps) (auto simp: item_def)
qed

lemma compare_same:
  assumes "iter_ok lang self" and "i_stack self \<noteq> []"
  shows "iterator_compare self self = Some IteratorMayDiffer \<or> iterator_compare self self = Some IteratorMatches"
proof -
  let ?i = "length (i_stack self) - 1"
  have "\<exists>t al b. iterator_get_visible_state self = Some (Some t, al, b)"
    using visible_state_read [OF assms(1), of "?i - 1" 0] visible_state_read [OF assms(1), of ?i 0] assms
    by (auto simp: iterator_get_visible_state_def iter_ok_def Let_def)
  then show ?thesis by (auto simp: iterator_compare_def split: if_splits)
qed

section \<open>Progress\<close>

text \<open>The nodes that an iterator has left: those below its node, and the siblings behind the entries of its stack.\<close>

definition later_total :: "TreeCursorEntry \<Rightarrow> TreeCursorEntry \<Rightarrow> nat" where
  "later_total p e = sum_list (map node_total (drop (Suc (e_child_index e)) (ts_subtree_children (entry_tree p))))"

fun behind_total :: "TreeCursorEntry list \<Rightarrow> nat" where
  "behind_total (p # e # st) = later_total p e + behind_total (e # st)"
| "behind_total _ = 0"

definition below_total :: "Subtree \<Rightarrow> nat" where
  "below_total t = sum_list (map node_total (ts_subtree_children t))"

definition nodes_left :: "Iterator \<Rightarrow> nat" where
  "nodes_left self = below_total (entry_tree (last (i_stack self))) + behind_total (i_stack self)"

lemma behind_snoc: "st \<noteq> [] \<Longrightarrow> behind_total (st @ [e]) = behind_total st + later_total (last st) e"
  by (induction st rule: behind_total.induct) auto

lemma nodes_left_frame [simp]:
  "nodes_left (self\<lparr>visible_depth := d\<rparr>) = nodes_left self" "nodes_left (self\<lparr>prev_external_token := x\<rparr>) = nodes_left self"
  "nodes_left (self\<lparr>in_padding := b\<rparr>) = nodes_left self"
  by (simp_all add: nodes_left_def)

lemma below_total_less: "below_total t < node_total t"
  using node_total_children [of t] by (simp add: below_total_def)

lemma child_total:
  assumes "child_of p e"
  shows "below_total (entry_tree e) + later_total p e < below_total (entry_tree p)"
proof -
  let ?cs = "ts_subtree_children (entry_tree p)" and ?k = "e_child_index e"
  have k: "?k < length ?cs" "entry_tree e = ?cs ! ?k" using assms by (simp_all add: child_of_def ts_subtree_child_count_def)
  have "below_total (entry_tree p) = sum_list (map node_total (take ?k ?cs @ ?cs ! ?k # drop (Suc ?k) ?cs))"
    using id_take_nth_drop [OF k(1)] by (simp add: below_total_def)
  then show ?thesis using below_total_less [of "?cs ! ?k"] k(2) by (simp add: later_total_def)
qed

lemma nodes_left_push:
  assumes "i_stack self \<noteq> []" and "child_of (last (i_stack self)) e"
  shows "nodes_left (push_entry e self) < nodes_left self"
  using child_total [OF assms(2)] behind_snoc [OF assms(1)] by (simp add: nodes_left_def)

text \<open>The scan of the children gives an entry for one of them.\<close>

lemma scan_children_ok:
  assumes "\<forall>c \<in> set cs. comparable lang c"
  shows "\<exists>found token'. scan_children parent goal i position si token cs = Some (found, token') \<and>
    (\<forall>e left. found = Some (e, left) \<longrightarrow>
      (\<exists>j < length cs. e_child_index e = i + j \<and> entry_tree e = cs ! j \<and>
        e_structural_child_index e = si + length (filter (\<lambda>c. \<not> ts_subtree_extra c) (take j cs))))"
  using assms
proof (induction cs arbitrary: i position si token)
  case (Cons c cs)
  let ?right = "length_add (length_add position (ts_subtree_padding c)) (ts_subtree_size c)"
  obtain tk where tk: "ts_subtree_last_external_token c = Some tk" using comparable_token Cons.prems by fastforce
  show ?case
  proof (cases "goal < bytes ?right")
    case True
    then show ?thesis by (auto simp: Let_def intro: exI [of _ 0])
  next
    case False
    let ?si = "if ts_subtree_extra c then si else si + 1" and ?tk = "if tk \<noteq> None then tk else token"
    obtain found token' where IH: "scan_children parent goal (i + 1) ?right ?si ?tk cs = Some (found, token')"
      "\<And>e left. found = Some (e, left) \<Longrightarrow>
        (\<exists>j < length cs. e_child_index e = i + 1 + j \<and> entry_tree e = cs ! j \<and>
          e_structural_child_index e = ?si + length (filter (\<lambda>c. \<not> ts_subtree_extra c) (take j cs)))"
      using Cons.IH [of "i + 1" ?right ?si ?tk] Cons.prems by fastforce
    have "\<exists>j < length (c # cs). e_child_index e = i + j \<and> entry_tree e = (c # cs) ! j \<and>
        e_structural_child_index e = si + length (filter (\<lambda>c. \<not> ts_subtree_extra c) (take j (c # cs)))"
      if fd: "found = Some (e, left)" for e left
    proof -
      obtain j where "j < length cs" "e_child_index e = i + 1 + j" "entry_tree e = cs ! j"
        "e_structural_child_index e = ?si + length (filter (\<lambda>c. \<not> ts_subtree_extra c) (take j cs))" using IH(2) [OF fd] by blast
      then show ?thesis by (intro exI [of _ "Suc j"]) auto
    qed
    with IH(1) False tk show ?thesis by (auto simp: Let_def)
  qed
qed simp

lemma scan_top_ok:
  assumes "iter_ok lang self" and "i_stack self \<noteq> []"
  shows "\<exists>found token. scan_top goal self = Some (found, token) \<and>
    (\<forall>e left. found = Some (e, left) \<longrightarrow> child_of (last (i_stack self)) e)"
proof -
  let ?t = "entry_tree (last (i_stack self))"
  have "comparable lang ?t" using assms by (simp add: iter_ok_def)
  then have "\<forall>c \<in> set (ts_subtree_children ?t). comparable lang c"
    using comparable_child(1) [of lang ?t] by (auto simp: in_set_conv_nth ts_subtree_child_count_def)
  from scan_children_ok [OF this, of "e_subtree (last (i_stack self))" goal 0 "e_position (last (i_stack self))" 0 "prev_external_token self"]
  obtain found token where f: "scan_top goal self = Some (found, token)"
    "\<And>e left. found = Some (e, left) \<Longrightarrow> (\<exists>j < length (ts_subtree_children ?t). e_child_index e = 0 + j \<and> entry_tree e = ts_subtree_children ?t ! j \<and>
        e_structural_child_index e = 0 + length (filter (\<lambda>c. \<not> ts_subtree_extra c) (take j (ts_subtree_children ?t))))"
    using assms(2) by (auto simp: scan_top_def Let_def)
  then have "child_of (last (i_stack self)) e" if "found = Some (e, left)" for e left
    using f(2) [OF that] by (auto simp: child_of_def structural_index_def ts_subtree_child_count_def)
  with f(1) show ?thesis by blast
qed

definition measure_of :: "Iterator \<Rightarrow> nat" where
  "measure_of self = (if i_stack self = [] then 0 else Suc (2 * nodes_left self + (if in_padding self then 1 else 0)))"

lemma descend_to_ok:
  "iter_ok lang self \<Longrightarrow> i_stack self \<noteq> [] \<Longrightarrow> \<not> in_padding self \<Longrightarrow>
     \<exists>b self'. descend_to goal self = Some (b, self') \<and> iter_ok lang self' \<and> i_stack self' \<noteq> [] \<and> nodes_left self' \<le> nodes_left self \<and>
       (b \<longrightarrow> nodes_left self' < nodes_left self) \<and> (\<not> b \<longrightarrow> \<not> in_padding self')"
proof (induction goal self rule: descend_to.induct)
  case (1 goal self)
  obtain found token where scan: "scan_top goal self = Some (found, token)"
    "\<And>e left. found = Some (e, left) \<Longrightarrow> child_of (last (i_stack self)) e" using scan_top_ok [OF 1(2,3)] by blast
  show ?case
  proof (cases found)
    case None
    with scan(1) 1(2-4) show ?thesis by (subst descend_to.simps) auto
  next
    case (Some x)
    obtain e left where x: "found = Some (e, left)" using Some by (cases x) simp
    let ?self = "push_entry e (self\<lparr>prev_external_token := token\<rparr>)"
    note c = scan(2) [OF x]
    have ok: "iter_ok lang ?self" "nodes_left ?self < nodes_left self" "i_stack ?self \<noteq> []" "\<not> in_padding ?self" "1 < length (i_stack ?self)"
      using iter_ok_push [of lang "self\<lparr>prev_external_token := token\<rparr>" e] nodes_left_push [of "self\<lparr>prev_external_token := token\<rparr>" e] 1(2-4) c
      by (simp_all add: Suc_le_eq)
    obtain vis where vis: "iterator_tree_is_visible ?self = Some vis" using tree_is_visible_read [OF ok(1,3)] by blast
    show ?thesis
    proof (cases vis)
      case True
      have "iter_ok lang (?self\<lparr>in_padding := True\<rparr>)" using ok(1,5) by (simp add: iter_ok_def)
      with True vis scan(1) x ok show ?thesis by (subst descend_to.simps) (auto simp: Let_def)
    next
      case False
      from 1(1) [OF scan(1) refl x refl refl vis] False ok obtain b self' where
        d: "descend_to goal ?self = Some (b, self')" "iter_ok lang self'" "i_stack self' \<noteq> []" "nodes_left self' \<le> nodes_left ?self"
          "\<not> b \<longrightarrow> \<not> in_padding self'" by auto
      from d ok(2) False vis scan(1) x show ?thesis by (subst descend_to.simps) (simp add: Let_def)
    qed
  qed
qed

text \<open>The descent in a form that fits the measure.\<close>

lemma descend_ok:
  assumes "iter_ok lang self" and "i_stack self \<noteq> []"
  shows "\<exists>b self'. iterator_descend self goal = Some (b, self') \<and> iter_ok lang self' \<and> i_stack self' \<noteq> [] \<and>
    measure_of self' \<le> measure_of self \<and> (b \<longrightarrow> measure_of self' < measure_of self)"
proof (cases "in_padding self")
  case True
  then show ?thesis using assms by (auto simp: iterator_descend_def)
next
  case False
  obtain b self' where d: "descend_to goal self = Some (b, self')" "iter_ok lang self'" "i_stack self' \<noteq> []" "nodes_left self' \<le> nodes_left self"
    "b \<longrightarrow> nodes_left self' < nodes_left self" "\<not> b \<longrightarrow> \<not> in_padding self'" using descend_to_ok [OF assms False] by blast
  with False assms(2) show ?thesis by (cases b) (auto simp: iterator_descend_def measure_of_def)
qed

lemma step_to_ok:
  assumes "iter_ok lang self" and "i_stack self \<noteq> []" and "\<not> in_padding self" and "child_of (last (i_stack self)) e"
  shows "\<exists>self'. step_to e self = Some self' \<and> iter_ok lang self' \<and> i_stack self' \<noteq> [] \<and>
    measure_of self' \<le> 2 * nodes_left (push_entry e self) + 2"
proof -
  let ?self = "push_entry e self"
  have ok: "iter_ok lang ?self" "i_stack ?self \<noteq> []" "1 < length (i_stack ?self)"
    using iter_ok_push [OF assms(1,2,4)] assms(2) by (simp_all add: Suc_le_eq)
  obtain vis where vis: "iterator_tree_is_visible ?self = Some vis" using tree_is_visible_read [OF ok(1,2)] by blast
  have pad: "iter_ok lang (?self\<lparr>in_padding := True\<rparr>)" using ok(1,3) by (simp add: iter_ok_def)
  obtain b self' where d: "iterator_descend ?self 0 = Some (b, self')" "iter_ok lang self'" "i_stack self' \<noteq> []" "measure_of self' \<le> measure_of ?self"
    using descend_ok [OF ok(1,2)] by blast
  have "measure_of ?self \<le> 2 * nodes_left ?self + 2" by (simp add: measure_of_def)
  with d vis ok pad show ?thesis by (cases vis) (auto simp: step_to_def Let_def measure_of_def)
qed

lemma next_child_of:
  assumes "child_of p e" and "item (ts_subtree_children (entry_tree p)) (e_child_index e + 1) = Some c"
  shows "child_of p (next_entry p e c)"
    "below_total c + later_total p (next_entry p e c) < later_total p e"
proof -
  let ?cs = "ts_subtree_children (entry_tree p)" and ?k = "e_child_index e"
  have k: "?k < length ?cs" "Suc ?k < length ?cs" "c = ?cs ! Suc ?k" "entry_tree e = ?cs ! ?k"
    using assms by (auto simp: child_of_def ts_subtree_child_count_def item_def split: if_splits)
  then show "child_of p (next_entry p e c)"
    using assms(1) structural_index_Suc [of ?k "entry_tree p"] by (simp add: child_of_def next_entry_def ts_subtree_child_count_def)
  have "drop (Suc ?k) ?cs = c # drop (Suc (Suc ?k)) ?cs" using k by (simp add: Cons_nth_drop_Suc)
  then show "below_total c + later_total p (next_entry p e c) < later_total p e"
    using below_total_less [of c] by (simp add: later_total_def next_entry_def)
qed

lemma advance_from_ok:
  "iter_ok lang self \<Longrightarrow> i_stack self \<noteq> [] \<Longrightarrow> \<not> in_padding self \<Longrightarrow>
     \<exists>self'. advance_from self = Some self' \<and> iter_ok lang self' \<and> measure_of self' \<le> 2 * behind_total (i_stack self)"
proof (induction self rule: measure_induct_rule [where f = "\<lambda>self. length (i_stack self)"])
  case (less self)
  note 1 = less.IH less.prems
  obtain st e where st: "i_stack self = st @ [e]" using 1(3) by (cases "i_stack self" rule: rev_cases) auto
  obtain vis where vis: "iterator_tree_is_visible self = Some vis" using tree_is_visible_read [OF 1(2,3)] by blast
  have "comparable lang (entry_tree e)" using 1(2) st by (simp add: iter_ok_def)
  then obtain token where token: "ts_subtree_last_external_token (entry_tree e) = Some token" using comparable_token by blast
  define s1 where "s1 = set_stack st (if vis then self\<lparr>visible_depth := visible_depth self - 1\<rparr> else self)"
  define s2 where "s2 = (if token \<noteq> None then s1\<lparr>prev_external_token := token\<rparr> else s1)"
  have s1: "iter_ok lang s1" "i_stack s1 = st" "\<not> in_padding s1"
    using iter_ok_pop [of lang "if vis then self\<lparr>visible_depth := visible_depth self - 1\<rparr> else self"] 1(2,4) st
    by (auto simp: s1_def split: if_splits)
  have s2: "iter_ok lang s2" "i_stack s2 = st" "\<not> in_padding s2" using s1 by (simp_all add: s2_def)
  have step: "advance_from self = (if st = [] then Some s1
      else case item (ts_subtree_children (entry_tree (last st))) (e_child_index e + 1) of
             Some c \<Rightarrow> step_to (next_entry (last st) e c) s2 | None \<Rightarrow> advance_from s2)"
    using vis st token unfolding s2_def s1_def by (subst advance_from.simps) (auto simp: Let_def)
  show ?case
  proof (cases "st = []")
    case True
    then show ?thesis using step s1 by (simp add: measure_of_def)
  next
    case False
    have child: "child_of (last st) e" using 1(2) st chained_snoc [OF False, of e] by (simp add: iter_ok_def)
    have b: "behind_total (i_stack self) = behind_total st + later_total (last st) e" using behind_snoc [OF False, of e] st by simp
    show ?thesis
    proof (cases "item (ts_subtree_children (entry_tree (last st))) (e_child_index e + 1)")
      case None
      obtain self' where
        "advance_from s2 = Some self'" "iter_ok lang self'" "measure_of self' \<le> 2 * behind_total st"
        using 1(1) [of s2] s2 st False by auto
      with None step False b show ?thesis by simp
    next
      case (Some c)
      note nx = next_child_of [OF child Some]
      from step_to_ok [OF s2(1) _ s2(3), of "next_entry (last st) e c"] s2(2) False nx(1) obtain self' where
        self': "step_to (next_entry (last st) e c) s2 = Some self'" "iter_ok lang self'"
          "measure_of self' \<le> 2 * nodes_left (push_entry (next_entry (last st) e c) s2) + 2" by auto
      have "nodes_left (push_entry (next_entry (last st) e c) s2) < behind_total (i_stack self)"
        using nx(2) b s2(2) behind_snoc [OF False, of "next_entry (last st) e c"] by (simp add: nodes_left_def next_entry_def)
      with self' Some step False show ?thesis by simp
    qed
  qed
qed

lemma advance_ok:
  assumes "iter_ok lang self" and "i_stack self \<noteq> []"
  shows "\<exists>self'. iterator_advance self = Some self' \<and> iter_ok lang self' \<and> measure_of self' < measure_of self"
proof (cases "in_padding self")
  case True
  let ?self = "self\<lparr>in_padding := False\<rparr>"
  have ok: "iter_ok lang ?self" "i_stack ?self \<noteq> []" using iter_ok_padding [OF assms(1)] assms(2) by simp_all
  obtain vis where vis: "iterator_tree_is_visible ?self = Some vis" using tree_is_visible_read [OF ok] by blast
  obtain b self' where d: "iterator_descend ?self 0 = Some (b, self')" "iter_ok lang self'" "measure_of self' \<le> measure_of ?self"
    using descend_ok [OF ok] by blast
  have less: "measure_of ?self < measure_of self" using True assms(2) by (simp add: measure_of_def)
  show ?thesis
  proof (cases vis)
    case True
    let ?next = "?self\<lparr>visible_depth := visible_depth ?self + 1\<rparr>"
    have "measure_of ?next < measure_of self" "iter_ok lang ?next" using less ok by (simp_all add: measure_of_def)
    then show ?thesis using vis \<open>in_padding self\<close> True by (simp add: iterator_advance_def)
  next
    case False
    then show ?thesis using vis \<open>in_padding self\<close> d less by (simp add: iterator_advance_def)
  qed
next
  case False
  have "2 * behind_total (i_stack self) < measure_of self" using assms(2) by (simp add: measure_of_def nodes_left_def)
  with advance_from_ok [OF assms False] False show ?thesis by (fastforce simp: iterator_advance_def)
qed

section \<open>The comparison of a tree with itself\<close>

lemma end_position_read: "i_stack self \<noteq> [] \<Longrightarrow> \<exists>e. iterator_end_position self = Some e"
  by (simp add: iterator_end_position_def Let_def)

lemma catch_up_ok:
  "iter_ok lang self \<Longrightarrow>
     \<exists>self'. catch_up b self = Some (Some self') \<and> iter_ok lang self' \<and> measure_of self' \<le> measure_of self \<and>
       (\<forall>e. iterator_end_position self = Some e \<longrightarrow> bytes e \<le> b \<longrightarrow> measure_of self' < measure_of self)"
proof (induction self rule: measure_induct_rule [where f = measure_of])
  case (less self)
  show ?case
  proof (cases "i_stack self = []")
    case True
    then show ?thesis using less.prems by (subst catch_up.simps) (simp add: iterator_end_position_def)
  next
    case False
    obtain e where e: "iterator_end_position self = Some e" using end_position_read [OF False] by blast
    show ?thesis
    proof (cases "bytes e \<le> b")
      case True
      obtain s where s: "iterator_advance self = Some s" "iter_ok lang s" "measure_of s < measure_of self"
        using advance_ok [OF less.prems False] by blast
      from less.IH [OF s(3,2)] s e True show ?thesis by (subst catch_up.simps) fastforce
    next
      case past: False
      then show ?thesis using e less.prems by (subst catch_up.simps) simp
    qed
  qed
qed

text \<open>A round: both iterators make the same move, and there is no change.\<close>

lemma changed_step_same:
  assumes "iter_ok lang self" and "i_stack self \<noteq> []" and "c \<noteq> IteratorDiffers"
  shows "\<exists>next_pos' self'. changed_step c self self position next_pos = Some (False, next_pos', self', self') \<and> iter_ok lang self' \<and>
    (measure_of self' < measure_of self \<or>
     measure_of self' \<le> measure_of self \<and> (\<exists>e. iterator_end_position self' = Some e \<and> bytes e \<le> bytes next_pos'))"
proof (cases c)
  case IteratorMatches
  then show ?thesis using assms end_position_read [OF assms(2)] by (auto simp: changed_step_def)
next
  case IteratorMayDiffer
  obtain b s where s: "iterator_descend self (bytes position) = Some (b, s)" "iter_ok lang s" "i_stack s \<noteq> []" "measure_of s \<le> measure_of self"
    "b \<longrightarrow> measure_of s < measure_of self" using descend_ok [OF assms(1,2)] by blast
  obtain e where e: "iterator_end_position s = Some e" using end_position_read [OF s(3)] by blast
  with IteratorMayDiffer s show ?thesis by (cases b) (auto simp: changed_step_def length_min_def)
qed (use assms in simp)

lemma changed_round_same:
  assumes "iter_ok lang self" and "i_stack self \<noteq> []" and "old_iter st = self" and "new_iter st = self"
  shows "\<exists>st' self'. changed_round differences st = Some (Some st') \<and> old_iter st' = self' \<and> new_iter st' = self' \<and>
    iter_ok lang self' \<and> measure_of self' < measure_of self \<and> results st' = results st"
proof -
  obtain c where c: "iterator_compare self self = Some c" "c \<noteq> IteratorDiffers" using compare_same [OF assms(1,2)] by auto
  obtain e where e: "iterator_end_position self = Some e" using end_position_read [OF assms(2)] by blast
  let ?c = "if c = IteratorMatches \<and> ts_range_array_intersects differences (difference_index st) (bytes (cs_position st)) (bytes e)
    then IteratorMayDiffer else c"
  have "?c \<noteq> IteratorDiffers" using c(2) by auto
  from changed_step_same [OF assms(1,2) this, of "cs_position st" "cs_next_position st"] obtain n s where
    s: "changed_step ?c self self (cs_position st) (cs_next_position st) = Some (False, n, s, s)" "iter_ok lang s"
      "measure_of s < measure_of self \<or>
       measure_of s \<le> measure_of self \<and> (\<exists>e. iterator_end_position s = Some e \<and> bytes e \<le> bytes n)" by blast
  obtain s' where s': "catch_up (bytes n) s = Some (Some s')" "iter_ok lang s'" "measure_of s' < measure_of self"
    using catch_up_ok [OF s(2), of "bytes n"] s(3) by fastforce
  have "level_with (visible_depth s') s' = Some (Some s')" by (simp add: level_with.simps)
  with c e s(1) s' assms(3,4) show ?thesis by (simp add: changed_round_def and_then_def)
qed

lemma changed_rounds_same:
  "iter_ok lang self \<Longrightarrow> i_stack self \<noteq> [] \<Longrightarrow> old_iter st = self \<Longrightarrow> new_iter st = self \<Longrightarrow>
     \<exists>st'. changed_rounds differences st = Some (Some st') \<and> results st' = results st \<and> i_cursor (old_iter st') = i_cursor (new_iter st')"
proof (induction self arbitrary: st rule: measure_induct_rule [where f = measure_of])
  case (less self)
  obtain st' self' where r: "changed_round differences st = Some (Some st')" "old_iter st' = self'" "new_iter st' = self'"
    "iter_ok lang self'" "measure_of self' < measure_of self" "results st' = results st"
    using changed_round_same [OF less.prems, of differences] by blast
  show ?case
  proof (cases "i_stack self' = []")
    case True
    then show ?thesis using r by (subst changed_rounds.simps) (simp add: iterator_done_def)
  next
    case False
    from less.IH [OF r(5,4) False r(2,3)] r False show ?thesis by (subst changed_rounds.simps) (simp add: iterator_done_def)
  qed
qed

section \<open>Properties\<close>

text \<open>
  C16. A tree has no changed ranges against itself, whatever ranges were included before and after: the comparison returns
  the empty list, though nothing in the code bounds its loops. The same holds for the whole tree with its included ranges.
\<close>

theorem same_tree_unchanged:
  assumes "comparable (t_language tree) (t_root tree)" and "ts_subtree_visible (t_root tree)"
    and "ts_range_array_get_changed_ranges (t_included_ranges tree) (t_included_ranges tree) [] \<noteq> None"
  shows "(\<exists>c. ts_subtree_get_changed_ranges (root_slot tree) (root_slot tree) cursor cursor (t_language tree) differences =
      Some (Some ([], c, c))) \<and>
    ts_tree_get_changed_ranges tree tree = Some (Some [])"
proof -
  have sub: "\<exists>c. ts_subtree_get_changed_ranges (root_slot tree) (root_slot tree) cursor cursor (t_language tree) differences =
      Some (Some ([], c, c))" for cursor differences
  proof -
    let ?it = "iterator_new cursor (root_slot tree) (t_language tree)"
    have it: "iter_ok (t_language tree) ?it" "i_stack ?it \<noteq> []" using assms(1,2) by (simp_all add: iterator_new_def iter_ok_def root_slot_def)
    have "\<exists>p. iterator_start_position ?it = Some p" using it(2) by (simp add: iterator_start_position_def Let_def)
    then obtain p where p: "iterator_start_position ?it = Some p" by blast
    let ?st = "\<lparr>old_iter = ?it, new_iter = ?it, cs_position = p, cs_next_position = p, difference_index = 0, results = []\<rparr>"
    obtain st' where "changed_rounds differences ?st = Some (Some st')" "results st' = []"
      "i_cursor (old_iter st') = i_cursor (new_iter st')" using changed_rounds_same [OF it, of ?st differences] by auto
    then show ?thesis using p by (simp add: ts_subtree_get_changed_ranges_def and_then_def add_difference_def Let_def)
  qed
  obtain d where d: "ts_range_array_get_changed_ranges (t_included_ranges tree) (t_included_ranges tree) [] = Some d" using assms(3) by blast
  obtain c where c: "ts_tree_cursor_init (ts_tree_root_node tree) = Some c"
    using tree_cursor_new [of tree] by (simp add: ts_tree_cursor_new_def)
  obtain c' where "ts_subtree_get_changed_ranges (root_slot tree) (root_slot tree) c c (t_language tree) d = Some (Some ([], c', c'))"
    using sub by blast
  with c d have "ts_tree_get_changed_ranges tree tree = Some (Some [])" by (simp add: ts_tree_get_changed_ranges_def and_then_def)
  with sub show ?thesis by blast
qed

theorem same_tree_unchanged_witness:
  "comparable (t_language sample_tree) (t_root sample_tree) \<and> ts_tree_get_changed_ranges sample_tree sample_tree = Some (Some [])"
proof -
  have "comparable (t_language sample_tree) (t_root sample_tree)" "ts_subtree_visible (t_root sample_tree)"
    "ts_range_array_get_changed_ranges (t_included_ranges sample_tree) (t_included_ranges sample_tree) [] \<noteq> None" by code_simp+
  then show ?thesis using same_tree_unchanged [of sample_tree] by blast
qed

section \<open>Reads that fail\<close>

text \<open>
  The hypotheses of the theorem are needed. On a tree with a hidden root no node on the stack is visible, and the symbol is
  read through the null pointer before the test for it.
\<close>

theorem hidden_root_null_read:
  "(let tree = ts_tree_new (sample_repeat (sample_leaf 0 0) (sample_leaf 1 0)) tree_language []
    in ts_tree_get_changed_ranges tree tree = Some None)"
  by code_simp

text \<open>
  The alias of an extra node is read like that of any other child. For an extra node at the end of a root with as many children as
  an alias sequence has entries, that is behind the sequence of its production, and behind the table for the last one.
\<close>

definition extra_leaf :: "u8 \<Rightarrow> Subtree" where
  "extra_leaf n = ts_subtree_set_extra (case sample_leaf 0 0 of Inline d \<Rightarrow> Inline (d\<lparr>in_size_bytes := n\<rparr>) | t \<Rightarrow> t) True"

definition extra_root :: "u8 \<Rightarrow> Subtree" where
  "extra_root n =
     (case ts_subtree_new_node 2 [sample_leaf 0 0, sample_leaf 0 0, extra_leaf n] 1 tree_language of Some t \<Rightarrow> t | None \<Rightarrow> sample_leaf 0 0)"

theorem trailing_extra_alias_read:
  "ts_subtree_child_count (extra_root 1) = 3 \<and>
   ts_tree_get_changed_ranges (ts_tree_new (extra_root 1) tree_language []) (ts_tree_new (extra_root 2) tree_language []) = Some None"
  by code_simp

end
