(* ===== verification/Spec2Isabelle.thy ===== *)
theory Spec2Isabelle
  imports Points Ranges Unicode Lexer TSLexer External_Scanner Css_Scanner Js_Scanner Ts_Scanner Yaml_Schema
    Yaml_Scanner Yaml_Proofs Yaml_State Yaml_Tokens Bash_Scanner Bash_Proofs Bash_State Bash_Heredoc
    Language Language_Proofs Lookahead_Proofs Subtree Subtree_Text
    Subtree_Nodes Subtree_Compare Stack Stack_Proofs Stack_Pop Tree Tree_Cursor Cursor_Text
    Node Node_Children Node_Text Node_Siblings Reusable_Node Changed_Ranges Changed_Proofs
begin

text \<open>
  A verification library for the C code that bbr, a terminal reviewer for Bitbucket pull requests,
  ships for syntax highlighting: the Tree-sitter runtime and the external scanners of its grammars, under
  \<open>src/vendors/tree-sitter\<close>. The application itself is written in Zig.

  \<^bold>\<open>The parts and how they interact.\<close> The application hands a text, as a function that returns chunks of it, to
  the parser. The parser's lexer (\<open>runtime/src/lexer.c\<close>) decodes the chunks (\<open>unicode.h\<close>), restricted to the
  included ranges, and keeps the position in bytes, rows and columns (\<open>point.h\<close>, \<open>length.h\<close>). Where a grammar needs
  more than a finite automaton, the parser calls the external scanner of the grammar through \<open>TSLexer\<close>: a
  scanner looks at one code point at a time, advances, marks the end of the token, and keeps a state that
  the parser stores with each token and restores in front of the next call. Tokens become leaves of a tree, reductions
  make nodes of them (\<open>subtree.c\<close>), and until then they lie on a stack that is a graph, since the parser follows several
  possibilities at once (\<open>stack.c\<close>). After an edit of the text, positions, ranges and trees are moved (\<open>point.c\<close>,
  \<open>get_changed_ranges.c\<close>, \<open>ts_subtree_edit\<close>), and the nodes that the edit does not touch can be used again.

  \<^bold>\<open>Theories and sources.\<close>
  \<^item> \<open>Prelude\<close>: machine integers, the collections of facts, lemmas on words and lists.
  \<^item> \<open>Points\<close>: \<open>TSPoint\<close>, \<open>Length\<close>, \<open>TSInputEdit\<close> and their operations (\<open>point.h\<close>, \<open>point.c\<close>, \<open>length.h\<close>). Unsigned
    fields are words, so that wrap-around is as in C. On texts, adding and subtracting lengths is
    concatenation and taking a prefix off; C18: an edit moves a position to where it stands in the edited text.
  \<^item> \<open>Ranges\<close>: \<open>TSRangeArray\<close> (\<open>get_changed_ranges.c\<close>) and \<open>ts_range_edit\<close>. C19 and C20: the changed ranges
    of two lists cover the symmetric difference, and when edits keep lists ascending; also, intersection is decided.
  \<^item> \<open>Unicode\<close>: the decoders for UTF-8 and both byte orders of UTF-16, C21 for UTF-8; also, surrogate pairs.
  \<^item> \<open>Lexer\<close>: the record \<open>Lexer\<close> and every function of \<open>lexer.c\<close>; the input is a parameter. C1, C22: the lexer
    reads each code point of the text once and at its position, in chunks that hold at least the character at their start; C23, C24: included ranges.
  \<^item> \<open>TSLexer\<close>: the interface to scanners as the locale \<open>scanner_lexer\<close>, interpreted on the runtime lexer and on a
    stream of code points, on which the scanners are modelled. C25: a scanner cannot tell the two apart.
  \<^item> \<open>External_Scanner\<close>: the calls in \<open>ts_parser__lex\<close> that restore, run and store a scanner, and the locale
    \<open>external_scanner\<close>, under which this is as good as keeping the state. It is interpreted on the YAML scanner.
  \<^item> \<open>Css_Scanner\<close>, \<open>Js_Scanner\<close>, \<open>Ts_Scanner\<close>: the scanners without state (\<open>css/src/scanner.c\<close>,
    \<open>javascript/src/scanner.c\<close>, \<open>common/scanner.h\<close>): for each token, exactly in front of which texts it
    is found and where it ends (C40 and further theorems).
  \<^item> \<open>Yaml_Schema\<close>: the automata that decide the type of a plain scalar (\<open>schema.core.c\<close>, \<open>schema.json.c\<close>,
    \<open>schema.legacy.c\<close>) with their tables: equivalence with the definition of each schema (C37 for the core schema).
  \<^item> \<open>Yaml_Scanner\<close>, \<open>Yaml_Proofs\<close>, \<open>Yaml_State\<close>, \<open>Yaml_Tokens\<close>: \<open>yaml/src/scanner.c\<close>. C30, C31, C32: the
    indentation stacks and their storage, with the overrun of the buffer at 254 nested blocks; C38, C39: blocks
    and plain scalars.
  \<^item> \<open>Bash_Scanner\<close>, \<open>Bash_Proofs\<close>, \<open>Bash_State\<close>, \<open>Bash_Heredoc\<close>: \<open>bash/src/scanner.c\<close>. C33 and C34: the list of
    here documents and its storage; C35 and C36: delimiters and bodies of here documents.
  \<^item> \<open>Language\<close>, \<open>Language_Proofs\<close>, \<open>Lookahead_Proofs\<close>: the tables of a language and the look-ups in them (\<open>language.c\<close>,
    \<open>language.h\<close>, \<open>parser.h\<close>). The binary search in character sets; C17: the
    agreement of the lookahead iterator with the look-up, for both forms of the parse table; also the names of fields.
  \<^item> \<open>Subtree\<close>: trees and every operation on them but printing (\<open>subtree.c\<close>, \<open>subtree.h\<close>, \<open>error_costs.h\<close>). \<open>Subtree_Text\<close>:
    trees span texts; C2 and C3: an edit of the tree is the edit of its text, and marks what it touches.
    \<open>Subtree_Nodes\<close>: C7, C6: new leaves and nodes, and what a node caches; the last external token;
    C27: compression. \<open>Subtree_Compare\<close>, C28: comparison, and arrays of trees.
  \<^item> \<open>Stack\<close>, \<open>Stack_Proofs\<close>, \<open>Stack_Pop\<close>: the parse stack (\<open>stack.c\<close>). C5: the reachable stacks as a transition system, and
    their invariant; C4, C26, C29: popping finds every path once, ends, and undoes pushing.
  \<^item> \<open>Tree\<close>, \<open>Tree_Cursor\<close>: trees and nodes as the library gives them out (\<open>tree.c\<close>, \<open>node.c\<close>) and the cursors over them
    (\<open>tree_cursor.c\<close>). \<open>Cursor_Paths\<close>, \<open>Cursor_Walk\<close>, \<open>Cursor_Descendants\<close>, \<open>Cursor_Text\<close>: a cursor as a path, with
    C8, C9 and C10: its moves, the numbers of descendants, and its place in the text. The move to the
    previous sibling does not mirror the others; the theorems at the end of \<open>Cursor_Text\<close> show how.
  \<^item> \<open>Node\<close>: the searches from a node (\<open>node.c\<close>). They walk over the children, hidden nodes included, and compare places and
    addresses; a pointer to a tree is modelled with its path from the root. \<open>Node_Children\<close>, \<open>Node_Text\<close>, \<open>Node_Siblings\<close>:
    they find what a cursor finds, the children (C11), the parent (C12) and the siblings (C13), and the smallest node
    around a range (C14). The loop over siblings has no bound in the code and is a partial function; that it ends is
    part of C13. The theorems at the end of \<open>Node_Siblings\<close> show where nodes without text and anonymous aliases break the searches.
  \<^item> \<open>Reusable_Node\<close>: the walk of the parser over the old tree (\<open>reusable_node.h\<close>), as a transition system; C15: it keeps
    its place in the text and the last external token.
  \<^item> \<open>Changed_Ranges\<close>, \<open>Changed_Proofs\<close>: the comparison of two trees (\<open>get_changed_ranges.c\<close>, \<open>tree.c\<close>). C16: a tree has no
    changes against itself. The loops have no bound in the code and are partial functions; that they end is part of the theorem.

  \<^bold>\<open>Conventions.\<close> One definition models one function of the source and carries its name (with a prefix where two
  scanners share it); the body of a long function is split into the blocks it consists of, each a definition
  of its own, composed in the order of the source. A C object that a function changes is an argument and part of
  the result. Loops are recursive functions with a termination proof: every loop of the scanners consumes a
  code point in each round or ends, so that the length of the text ahead is the measure, and no fuel is needed. Only
  the walks over the graph of the parse stack have fuel; for a graph without cycles one round more than the rank of a node is enough (C26).
  Trees are values, and the nodes of the parse stack are entries of a store; reference counts have no counterpart.
  Failed assertions and aborts are values: \<open>None\<close>, or a flag in the state that the invariants show to be unset.
  Fields of 8, 16 and 32 bits are words, or integers with the conversion (\<open>i8\<close>, \<open>i16\<close>) written out. Characters are
  classified as in the POSIX locale, since the program never calls \<open>setlocale\<close>.

  \<^bold>\<open>Not modelled.\<close> The rest of the runtime: the GLR parser itself and queries, which build on the trees, the
  stack and the cursors; printing of trees and stacks. Generated parsers, SQLite and
  the C++ libraries are third-party code; the WebAssembly store is not built; the application is not C. Logging
  in the lexer and freeing of memory have no effect on what is modelled.
\<close>

end
